(* ===== verification/Prelude.thy ===== *)
theory Prelude
  imports
    Complex_Main
    "HOL-Library.Word"
    "HOL-Library.List_Lexorder"
    "HOL-Library.Char_ord"
    "HOL-Library.Multiset"
begin

text \<open>
  The prelude of the development: the type names of the Go values the models share, the
  generic step systems with their invariant rule, and the lemmas on lists, options and
  maps that several components use.

  Conventions of the models.
  \<^item> A Go \<open>string\<close> is a sequence of bytes; here it is the type of HOL strings, whose
    characters are exactly the 256 bytes, with the byte-wise lexicographic order of
    \<open>List_Lexorder\<close> and \<open>Char_ord\<close>, which is the order of Go's string comparison.
  \<^item> A Go \<open>int\<close>, \<open>int64\<close>, \<open>time.Time\<close> or \<open>time.Duration\<close> that only counts or measures
    and that the code never brings near its bounds is a HOL \<open>int\<close>; a fixed-width value
    whose bits or wrap-around matter is a word.
  \<^item> A clock, a random generator or a callback the code calls is an argument of the
    operation: the value it returned to this call.
\<close>

named_theorems wf_simps "definitions of the well-formedness predicates"
named_theorems op_defs "definitions of the operations of a component"

type_synonym byte = "8 word"
type_synonym u32 = "32 word"
type_synonym u64 = "64 word"
type_synonym gtime = int

subsection \<open>Step systems\<close>

text \<open>
  A component whose operations interleave is a set of initial states and a step relation.
  \<open>reach\<close> is the set of its reachable states.
\<close>

inductive reach :: "('s \<Rightarrow> bool) \<Rightarrow> ('s \<Rightarrow> 's \<Rightarrow> bool) \<Rightarrow> 's \<Rightarrow> bool"
  for init :: "'s \<Rightarrow> bool" and step :: "'s \<Rightarrow> 's \<Rightarrow> bool" where
  reach_init: "init s \<Longrightarrow> reach init step s"
| reach_step: "reach init step s \<Longrightarrow> step s t \<Longrightarrow> reach init step t"

locale step_system =
  fixes init :: "'s \<Rightarrow> bool"
    and step :: "'s \<Rightarrow> 's \<Rightarrow> bool"
    and inv :: "'s \<Rightarrow> bool"
  assumes inv_init: "init s \<Longrightarrow> inv s"
    and inv_step: "inv s \<Longrightarrow> step s t \<Longrightarrow> inv t"
begin

lemma reachable_inv: "reach init step s \<Longrightarrow> inv s"
  by (induction rule: reach.induct) (auto intro: inv_init inv_step)

lemma rtranclp_inv: "step\<^sup>*\<^sup>* s t \<Longrightarrow> inv s \<Longrightarrow> inv t"
  by (induction rule: rtranclp_induct) (auto intro: inv_step)

end

lemma no_descent: "\<not> (\<forall>i. (f :: nat \<Rightarrow> nat) (Suc i) < f i)"
proof
  assume down: "\<forall>i. f (Suc i) < f i"
  have "f n + n \<le> f 0" for n
  proof (induction n)
    case (Suc n)
    then show ?case using spec[OF down, of n] by linarith
  qed simp
  from this[of "Suc (f 0)"] show False by simp
qed

lemma reach_rtranclp: "reach init step s \<Longrightarrow> step\<^sup>*\<^sup>* s t \<Longrightarrow> reach init step t"
  by (rotate_tac 1, induction rule: rtranclp_induct) (auto intro: reach_step)

subsection \<open>Lists\<close>

text \<open>Indexing as Go does it: out of range is a panic, the value \<open>None\<close>.\<close>

definition nth_opt :: "'a list \<Rightarrow> nat \<Rightarrow> 'a option" where
  "nth_opt xs i = (if i < length xs then Some (xs ! i) else None)"

lemma take_Suc_nth: "n < length xs \<Longrightarrow> take (Suc n) xs = take n xs @ [xs ! n]"
  by (rule take_Suc_conv_app_nth)

lemma nth_upd: "j < length xs \<Longrightarrow> xs[i := x] ! j = (if i = j then x else xs ! j)"
  by simp

lemma distinct_all_equal:
  assumes "distinct xs" and "\<And>x y. x \<in> set xs \<Longrightarrow> y \<in> set xs \<Longrightarrow> x = y"
  shows "length xs \<le> 1"
proof (cases xs)
  case (Cons x ys)
  show ?thesis
  proof (cases ys)
    case (Cons y zs)
    with \<open>xs = x # ys\<close> assms(2)[of x y] assms(1) show ?thesis by simp
  qed (simp add: Cons)
qed simp

lemma upt_split_at: "l < n \<Longrightarrow> [0..<n] = [0..<l] @ l # [Suc l..<n]"
  using upt_add_eq_append[of 0 l "n - l"] upt_conv_Cons[of l n] by simp

lemma filter_eq_NilI: "(\<And>x. x \<in> set xs \<Longrightarrow> \<not> P x) \<Longrightarrow> filter P xs = []"
  by (simp add: filter_empty_conv)

lemma sorted_strict_distinct: "sorted_wrt (<) xs \<Longrightarrow> distinct (xs :: 'a::linorder list)"
  by (simp add: strict_sorted_iff)

subsection \<open>Counting\<close>

definition count_if :: "('a \<Rightarrow> bool) \<Rightarrow> 'a list \<Rightarrow> nat" where
  "count_if P xs = length (filter P xs)"

lemma count_if_simps [simp]: "count_if P [] = 0" "count_if P (x # xs) = (if P x then 1 else 0) + count_if P xs"
  "count_if P (xs @ ys) = count_if P xs + count_if P ys"
  by (simp_all add: count_if_def)

lemma count_if_update:
  "i < length xs \<Longrightarrow> count_if P (xs[i := x]) + (if P (xs ! i) then 1 else 0) = count_if P xs + (if P x then 1 else 0)"
proof (induction xs arbitrary: i)
  case (Cons y ys)
  then show ?case using Cons.IH[of "i - 1"] by (cases i) auto
qed simp

lemma count_if_mono: "(\<And>x. P x \<Longrightarrow> Q x) \<Longrightarrow> count_if P xs \<le> count_if Q xs"
  by (induction xs) (auto intro: le_SucI)

lemma count_if_pos: "i < length xs \<Longrightarrow> P (xs ! i) \<Longrightarrow> 0 < count_if P xs"
  by (auto simp: count_if_def filter_empty_conv)

lemma count_if_zero: "count_if P xs = 0 \<longleftrightarrow> (\<forall>x \<in> set xs. \<not> P x)"
  by (auto simp: count_if_def filter_empty_conv)

lemma count_if_partition: "(\<And>x. x \<in> set xs \<Longrightarrow> P x \<noteq> Q x) \<Longrightarrow> count_if P xs + count_if Q xs = length xs"
  by (induction xs) auto

lemma sum_list_update_rank:
  "i < length xs \<Longrightarrow> f x < f (xs ! i) \<Longrightarrow> sum_list (map f (xs[i := x])) < (sum_list (map f xs) :: nat)"
proof (induction xs arbitrary: i)
  case (Cons y ys)
  then show ?case using Cons.IH[of "i - 1"] by (cases i) auto
qed simp

lemma sum_list_update_add:
  fixes f :: "'a \<Rightarrow> 'b::comm_monoid_add"
  shows "i < length xs \<Longrightarrow> sum_list (map f (xs[i := x])) + f (xs ! i) = sum_list (map f xs) + f x"
proof (induction xs arbitrary: i)
  case (Cons y ys)
  then show ?case using Cons.IH[of "i - 1"] by (cases i) (auto simp: ac_simps)
qed simp

subsection \<open>Sorted association lists\<close>

text \<open>
  The specification of the ordered containers: pairs in strictly ascending order of the key, with
  \<open>put_list\<close> the insertion or replacement.
\<close>

fun put_list :: "'k::linorder \<Rightarrow> 'v \<Rightarrow> ('k \<times> 'v) list \<Rightarrow> ('k \<times> 'v) list" where
  "put_list k v [] = [(k, v)]"
| "put_list k v ((a, b) # xs) =
     (if k < a then (k, v) # (a, b) # xs else if k = a then (k, v) # xs else (a, b) # put_list k v xs)"

abbreviation sorted_keys :: "('k::linorder \<times> 'v) list \<Rightarrow> bool" where
  "sorted_keys xs \<equiv> sorted_wrt (<) (map fst xs)"

lemma fst_put_list [simp]: "fst ` set (put_list k v xs) = insert k (fst ` set xs)"
  by (induction k v xs rule: put_list.induct) auto

lemma sorted_put_list: "sorted_keys xs \<Longrightarrow> sorted_keys (put_list k v xs)"
proof (induction k v xs rule: put_list.induct)
  case (2 k v a b xs)
  then show ?case
    using fst_put_list[of k v xs] by (auto simp: image_iff)
qed simp

lemma map_of_put_list: "sorted_keys xs \<Longrightarrow> map_of (put_list k v xs) = (map_of xs)(k \<mapsto> v)"
proof (induction k v xs rule: put_list.induct)
  case (2 k v a b xs)
  then show ?case by (auto simp: fun_eq_iff)
qed simp

lemma put_list_append_left:
  "(\<And>x. x \<in> fst ` set ys \<Longrightarrow> k < x) \<Longrightarrow> put_list k v (xs @ ys) = put_list k v xs @ ys"
proof (induction k v xs rule: put_list.induct)
  case (1 k v)
  then show ?case by (cases ys) auto
qed auto

lemma put_list_append_right:
  "(\<And>x. x \<in> fst ` set xs \<Longrightarrow> x < k) \<Longrightarrow> put_list k v (xs @ ys) = xs @ put_list k v ys"
proof (induction k v xs rule: put_list.induct)
  case (2 k v a b xs)
  then show ?case by (force simp: less_imp_neq[symmetric])
qed simp

lemma length_put_list:
  "sorted_keys xs \<Longrightarrow> length (put_list k v xs) = (if k \<in> fst ` set xs then length xs else Suc (length xs))"
proof (induction k v xs rule: put_list.induct)
  case (2 k v a b xs)
  then show ?case by auto
qed simp

lemma sorted_keys_append: "sorted_keys (xs @ ys) \<longleftrightarrow>
   sorted_keys xs \<and> sorted_keys ys \<and> (\<forall>x \<in> fst ` set xs. \<forall>y \<in> fst ` set ys. x < y)"
  by (auto simp: sorted_wrt_append)

subsection \<open>64-bit integers and durations\<close>

definition int64 :: "int \<Rightarrow> bool" where
  "int64 x \<longleftrightarrow> - (2 ^ 63) \<le> x \<and> x < 2 ^ 63"

text \<open>The wrap-around of Go's \<open>int64\<close>.\<close>

definition wrap64 :: "int \<Rightarrow> int" where
  "wrap64 x = signed_take_bit 63 x"

lemma wrap64_id: "int64 x \<Longrightarrow> wrap64 x = x"
  unfolding wrap64_def int64_def by (rule signed_take_bit_int_eq_self) simp_all

text \<open>\<open>time.Time.Sub\<close> in nanoseconds, which saturates instead, and \<open>Duration.Seconds\<close>.\<close>

definition time_Sub :: "gtime \<Rightarrow> gtime \<Rightarrow> int" where
  "time_Sub t u = max (- (2 ^ 63)) (min (2 ^ 63 - 1) (t - u))"

definition Seconds :: "int \<Rightarrow> rat" where
  "Seconds d = of_int d / 1000000000"

lemma time_Sub_le: "u \<le> t \<Longrightarrow> time_Sub t u \<le> t - u" and time_Sub_nonneg: "u \<le> t \<Longrightarrow> 0 \<le> time_Sub t u"
  and time_Sub_ge: "d < 2 ^ 63 \<Longrightarrow> d \<le> time_Sub t u \<longleftrightarrow> d \<le> - (2 ^ 63) \<or> d \<le> t - u"
  by (auto simp: time_Sub_def)

lemma time_Sub_exact: "int64 (t - u) \<Longrightarrow> time_Sub t u = t - u"
  by (auto simp: time_Sub_def int64_def)

subsection \<open>Go's binary search\<close>

text \<open>\<open>sort.Search(n, f)\<close> of Go's library: the loop keeps \<open>f (i - 1) = false\<close> and \<open>f j = true\<close>.\<close>

function search_loop :: "(nat \<Rightarrow> bool) \<Rightarrow> nat \<Rightarrow> nat \<Rightarrow> nat" where
  "search_loop f i j =
     (if i < j then let h = (i + j) div 2 in if f h then search_loop f i h else search_loop f (h + 1) j else i)"
  by auto
termination by (relation "measure (\<lambda>(f, i, j). j - i)") auto

declare search_loop.simps [simp del]

definition go_Search :: "nat \<Rightarrow> (nat \<Rightarrow> bool) \<Rightarrow> nat" where
  "go_Search n f = search_loop f 0 n"

definition SearchStrings :: "string list \<Rightarrow> string \<Rightarrow> nat" where
  "SearchStrings a x = go_Search (length a) (\<lambda>i. x \<le> a ! i)"

lemma search_loop_spec:
  assumes "\<forall>x y. x \<le> y \<longrightarrow> y < n \<longrightarrow> f x \<longrightarrow> f y" and "i \<le> j" and "j \<le> n"
    and "\<forall>x < i. \<not> f x" and "\<forall>x. j \<le> x \<longrightarrow> x < n \<longrightarrow> f x"
  shows "search_loop f i j \<le> j \<and> (\<forall>x < search_loop f i j. \<not> f x) \<and>
    (\<forall>x. search_loop f i j \<le> x \<longrightarrow> x < n \<longrightarrow> f x)"
  using assms
proof (induction f i j rule: search_loop.induct)
  case (1 f i j)
  show ?case
  proof (cases "i < j")
    case True
    define h where "h = (i + j) div 2"
    have h: "i \<le> h" "h < j" using True by (auto simp: h_def)
    note step = search_loop.simps[of f i j]
    show ?thesis
    proof (cases "f h")
      case f: True
      have eq: "search_loop f i j = search_loop f i h" using True f step by (simp add: h_def[symmetric])
      have "\<forall>x. h \<le> x \<longrightarrow> x < n \<longrightarrow> f x" using "1.prems"(1) f by blast
      moreover have "h \<le> n" using h "1.prems"(3) by simp
      ultimately have "search_loop f i h \<le> h \<and> (\<forall>x < search_loop f i h. \<not> f x) \<and>
          (\<forall>x. search_loop f i h \<le> x \<longrightarrow> x < n \<longrightarrow> f x)"
        by (intro "1.IH"(1)[OF True h_def f "1.prems"(1) h(1) _ "1.prems"(4)])
      then show ?thesis unfolding eq using h(2) by (blast intro: order_trans less_imp_le)
    next
      case f: False
      have eq: "search_loop f i j = search_loop f (h + 1) j" using True f step by (simp add: h_def[symmetric])
      have "\<forall>x < h + 1. \<not> f x"
      proof (intro allI impI notI)
        fix x assume "x < h + 1" "f x"
        then have "x \<le> h" "h < n" using h "1.prems"(3) by simp_all
        with \<open>f x\<close> "1.prems"(1) have "f h" by blast
        with f show False ..
      qed
      moreover have "h + 1 \<le> j" using h by simp
      ultimately show ?thesis unfolding eq
        by (intro "1.IH"(2)[OF True h_def f "1.prems"(1) _ "1.prems"(3) _ "1.prems"(5)])
    qed
  next
    case False
    then show ?thesis using "1.prems"(2,4,5) by (simp add: search_loop.simps[of f j j])
  qed
qed

lemma go_Search_spec:
  assumes "\<And>x y. x \<le> y \<Longrightarrow> y < n \<Longrightarrow> f x \<Longrightarrow> f y"
  shows "go_Search n f \<le> n" and "\<And>x. x < go_Search n f \<Longrightarrow> \<not> f x"
    and "\<And>x. go_Search n f \<le> x \<Longrightarrow> x < n \<Longrightarrow> f x"
  using search_loop_spec[of n f 0 n] assms by (auto simp: go_Search_def)

lemma SearchStrings_spec:
  assumes "sorted_wrt (<) a" and i: "i = SearchStrings a x"
  shows "i \<le> length a" and "\<And>k. k \<in> set (take i a) \<Longrightarrow> k < x" and "\<And>k. k \<in> set (drop i a) \<Longrightarrow> x \<le> k"
proof -
  have mono: "x \<le> a ! m" if "l \<le> m" "m < length a" "x \<le> a ! l" for l m
  proof (cases "l = m")
    case False
    then have "a ! l < a ! m" using that assms(1) by (simp add: sorted_wrt_iff_nth_less)
    with that(3) show ?thesis by (rule order.trans[OF _ less_imp_le])
  qed (use that in simp)
  note spec = go_Search_spec[of "length a" "\<lambda>i. x \<le> a ! i", OF mono, folded SearchStrings_def i]
  show "i \<le> length a" by (rule spec)
  show "k < x" if "k \<in> set (take i a)" for k
    using that spec(1,2) by (auto simp: in_set_conv_nth not_le)
  show "x \<le> k" if "k \<in> set (drop i a)" for k
    using that spec(3) by (auto simp: in_set_conv_nth)
qed

end
