(* ===== verification/CircuitBreaker.thy ===== *)
theory CircuitBreaker
  imports Prelude
begin

text \<open>
  \<^verbatim>\<open>code/circuit_breaker/breaker.go\<close>: the three-state circuit breaker.  \<open>cb_New\<close>,
  \<open>cb_transition\<close>, \<open>beforeCall\<close>, \<open>afterCall\<close>, \<open>cb_Call\<close>, \<open>cb_State\<close> and \<open>cb_Failures\<close> are
  the functions of the file.  The mutex makes \<open>beforeCall\<close> and \<open>afterCall\<close> atomic, and each of
  them reads the clock at most once, so the reading is an argument.  The wrapped call \<open>fn\<close> is a
  function on a world \<open>'w\<close>: whether it ran is visible in the world.  The callback
  \<open>onTrip\<close> appears as the list of the transitions it was told of.  The step relation
  \<open>cb_step\<close> interleaves any number of concurrent calls between their two atomic halves.
\<close>

subsection \<open>State and operations\<close>

datatype State = StateClosed | StateOpen | StateHalfOpen

fun State_String :: "State \<Rightarrow> string" where
  "State_String StateClosed = ''closed''"
| "State_String StateOpen = ''open''"
| "State_String StateHalfOpen = ''half-open''"

record cb_Config =
  FailureThreshold :: int
  SuccessThreshold :: int
  OpenTimeout :: int
  HalfOpenMaxCalls :: int

definition cb_DefaultConfig :: cb_Config where
  "cb_DefaultConfig = \<lparr>FailureThreshold = 5, SuccessThreshold = 2,
     OpenTimeout = 30 * 1000000000, HalfOpenMaxCalls = 3\<rparr>"

record CircuitBreaker =
  cfg :: cb_Config
  cb_state :: State
  onTrip :: "(State \<times> State) list"
  failures :: int
  successes :: int
  openedAt :: gtime
  halfOpenCall :: int

datatype breaker_error = ErrOpen

definition cb_New :: "cb_Config \<Rightarrow> CircuitBreaker" where
  "cb_New c =
     (let c1 = (if FailureThreshold c \<le> 0 then c\<lparr>FailureThreshold := 5\<rparr> else c);
          c2 = (if SuccessThreshold c1 \<le> 0 then c1\<lparr>SuccessThreshold := 1\<rparr> else c1);
          c3 = (if HalfOpenMaxCalls c2 \<le> 0 then c2\<lparr>HalfOpenMaxCalls := 1\<rparr> else c2)
      in \<lparr>cfg = c3, cb_state = StateClosed, onTrip = [], failures = 0, successes = 0,
          openedAt = 0, halfOpenCall = 0\<rparr>)"

definition cb_transition :: "State \<Rightarrow> gtime \<Rightarrow> CircuitBreaker \<Rightarrow> CircuitBreaker" where
  "cb_transition to now cb =
     (if cb_state cb = to then cb
      else
        let fr = cb_state cb;
            cb1 = cb\<lparr>cb_state := to\<rparr>;
            cb2 = (case to of
                StateOpen \<Rightarrow> cb1\<lparr>openedAt := now, successes := 0, halfOpenCall := 0\<rparr>
              | StateHalfOpen \<Rightarrow> cb1\<lparr>successes := 0, halfOpenCall := 0\<rparr>
              | StateClosed \<Rightarrow> cb1\<lparr>failures := 0, successes := 0, halfOpenCall := 0\<rparr>)
        in cb2\<lparr>onTrip := onTrip cb2 @ [(fr, to)]\<rparr>)"

definition beforeCall :: "gtime \<Rightarrow> CircuitBreaker \<Rightarrow> breaker_error option \<times> CircuitBreaker" where
  "beforeCall now cb =
     (if cb_state cb = StateOpen \<and> now - openedAt cb < OpenTimeout (cfg cb) then (Some ErrOpen, cb)
      else
        let cb1 = (if cb_state cb = StateOpen then cb_transition StateHalfOpen now cb else cb)
        in if cb_state cb1 = StateHalfOpen
           then (if halfOpenCall cb1 \<ge> HalfOpenMaxCalls (cfg cb1) then (Some ErrOpen, cb1)
                 else (None, cb1\<lparr>halfOpenCall := halfOpenCall cb1 + 1\<rparr>))
           else (None, cb1))"

definition afterCall :: "'e option \<Rightarrow> gtime \<Rightarrow> CircuitBreaker \<Rightarrow> CircuitBreaker" where
  "afterCall err now cb =
     (if err \<noteq> None then
        let cb1 = cb\<lparr>failures := failures cb + 1, successes := 0\<rparr>
        in if cb_state cb1 = StateHalfOpen \<or> failures cb1 \<ge> FailureThreshold (cfg cb1)
           then cb_transition StateOpen now cb1 else cb1
      else
        let cb1 = cb\<lparr>failures := 0\<rparr>
        in if cb_state cb1 = StateHalfOpen then
             let cb2 = cb1\<lparr>successes := successes cb1 + 1\<rparr>
             in if successes cb2 \<ge> SuccessThreshold (cfg cb2)
                then cb_transition StateClosed now cb2 else cb2
           else cb1)"

definition cb_Call ::
  "gtime \<Rightarrow> gtime \<Rightarrow> ('w \<Rightarrow> 'e option \<times> 'w) \<Rightarrow> 'w \<Rightarrow> CircuitBreaker
     \<Rightarrow> (breaker_error + 'e) option \<times> 'w \<times> CircuitBreaker" where
  "cb_Call t1 t2 fn w cb =
     (case beforeCall t1 cb of
        (Some e, cb1) \<Rightarrow> (Some (Inl e), w, cb1)
      | (None, cb1) \<Rightarrow>
          (case fn w of (err, w1) \<Rightarrow> (map_option Inr err, w1, afterCall err t2 cb1)))"

definition cb_State :: "gtime \<Rightarrow> CircuitBreaker \<Rightarrow> State" where
  "cb_State now cb =
     (if cb_state cb = StateOpen \<and> now - openedAt cb \<ge> OpenTimeout (cfg cb) then StateHalfOpen
      else cb_state cb)"

definition cb_Failures :: "CircuitBreaker \<Rightarrow> int" where
  "cb_Failures cb = failures cb"

text \<open>A sequence of calls, each with its two clock readings and its wrapped function.\<close>

fun cb_Calls ::
  "(gtime \<times> gtime \<times> ('w \<Rightarrow> 'e option \<times> 'w)) list \<Rightarrow> 'w \<Rightarrow> CircuitBreaker
     \<Rightarrow> (breaker_error + 'e) option list \<times> 'w \<times> CircuitBreaker" where
  "cb_Calls [] w cb = ([], w, cb)"
| "cb_Calls ((t1, t2, fn) # cs) w cb =
     (case cb_Call t1 t2 fn w cb of
        (r, w1, cb1) \<Rightarrow> (case cb_Calls cs w1 cb1 of (rs, w2, cb2) \<Rightarrow> (r # rs, w2, cb2)))"

lemmas cb_op_defs [op_defs] =
  cb_transition_def beforeCall_def afterCall_def cb_Call_def

subsection \<open>The state invariant\<close>

definition cb_wf :: "CircuitBreaker \<Rightarrow> bool" where
  "cb_wf cb \<longleftrightarrow>
     0 < FailureThreshold (cfg cb) \<and> 0 < SuccessThreshold (cfg cb) \<and>
     0 < HalfOpenMaxCalls (cfg cb) \<and> 0 \<le> failures cb \<and>
     (cb_state cb = StateClosed \<longrightarrow> failures cb < FailureThreshold (cfg cb)) \<and>
     (cb_state cb = StateHalfOpen \<longrightarrow>
        0 \<le> successes cb \<and> successes cb < SuccessThreshold (cfg cb) \<and>
        0 \<le> halfOpenCall cb \<and> halfOpenCall cb \<le> HalfOpenMaxCalls (cfg cb)) \<and>
     (cb_state cb \<noteq> StateHalfOpen \<longrightarrow> successes cb = 0 \<and> halfOpenCall cb = 0)"

lemma cb_wf_New: "cb_wf (cb_New c)"
  by (simp add: cb_wf_def cb_New_def Let_def)

lemma cb_wf_beforeCall: "cb_wf cb \<Longrightarrow> beforeCall t cb = (r, cb') \<Longrightarrow> cb_wf cb'"
  by (auto simp: cb_wf_def beforeCall_def cb_transition_def Let_def split: if_splits)

lemma cb_wf_afterCall: "cb_wf cb \<Longrightarrow> cb_wf (afterCall err t cb)"
  by (cases "cb_state cb") (auto simp: cb_wf_def afterCall_def cb_transition_def Let_def)

lemma beforeCall_cfg [simp]: "cfg (snd (beforeCall t cb)) = cfg cb"
  by (simp add: beforeCall_def cb_transition_def Let_def)

lemma afterCall_cfg [simp]: "cfg (afterCall err t cb) = cfg cb"
  by (auto simp: afterCall_def cb_transition_def Let_def split: State.splits)


subsection \<open>What each half of a call does in each state\<close>

lemma beforeCall_closed:
  "cb_state cb = StateClosed \<Longrightarrow> beforeCall t cb = (None, cb)"
  by (simp add: beforeCall_def)

lemma beforeCall_open:
  "cb_state cb = StateOpen \<Longrightarrow> t - openedAt cb < OpenTimeout (cfg cb) \<Longrightarrow>
   beforeCall t cb = (Some ErrOpen, cb)"
  by (simp add: beforeCall_def)

lemma beforeCall_half_open:
  "cb_state cb = StateHalfOpen \<Longrightarrow> halfOpenCall cb < HalfOpenMaxCalls (cfg cb) \<Longrightarrow>
   beforeCall t cb = (None, cb\<lparr>halfOpenCall := halfOpenCall cb + 1\<rparr>)"
  by (simp add: beforeCall_def)

lemma beforeCall_exhausted:
  "cb_state cb = StateHalfOpen \<Longrightarrow> HalfOpenMaxCalls (cfg cb) \<le> halfOpenCall cb \<Longrightarrow>
   beforeCall t cb = (Some ErrOpen, cb)"
  by (simp add: beforeCall_def)

lemma beforeCall_expired:
  "cb_state cb = StateOpen \<Longrightarrow> OpenTimeout (cfg cb) \<le> t - openedAt cb \<Longrightarrow>
   0 < HalfOpenMaxCalls (cfg cb) \<Longrightarrow>
   beforeCall t cb = (None, cb\<lparr>cb_state := StateHalfOpen, successes := 0, halfOpenCall := 1,
     onTrip := onTrip cb @ [(StateOpen, StateHalfOpen)]\<rparr>)"
  by (simp add: beforeCall_def cb_transition_def Let_def)

lemma afterCall_half_open_ok:
  "cb_state cb = StateHalfOpen \<Longrightarrow> successes cb + 1 < SuccessThreshold (cfg cb) \<Longrightarrow>
   afterCall None t cb = cb\<lparr>failures := 0, successes := successes cb + 1\<rparr>"
  by (simp add: afterCall_def Let_def)

lemma afterCall_half_open_close:
  "cb_state cb = StateHalfOpen \<Longrightarrow> SuccessThreshold (cfg cb) \<le> successes cb + 1 \<Longrightarrow>
   afterCall None t cb = cb\<lparr>cb_state := StateClosed, failures := 0, successes := 0,
     halfOpenCall := 0, onTrip := onTrip cb @ [(StateHalfOpen, StateClosed)]\<rparr>"
  by (simp add: afterCall_def cb_transition_def Let_def)

subsection \<open>Runs of calls\<close>

text \<open>The world after the wrapped functions of a list of calls have all run.\<close>

definition cb_world :: "(gtime \<times> gtime \<times> ('w \<Rightarrow> 'e option \<times> 'w)) list \<Rightarrow> 'w \<Rightarrow> 'w" where
  "cb_world cs w = fold (\<lambda>(t1, t2, fn) w. snd (fn w)) cs w"

definition all_fail :: "(gtime \<times> gtime \<times> ('w \<Rightarrow> 'e option \<times> 'w)) list \<Rightarrow> bool" where
  "all_fail cs \<longleftrightarrow> (\<forall>(t1, t2, fn) \<in> set cs. \<forall>w. fst (fn w) \<noteq> None)"

definition all_succeed :: "(gtime \<times> gtime \<times> ('w \<Rightarrow> 'e option \<times> 'w)) list \<Rightarrow> bool" where
  "all_succeed cs \<longleftrightarrow> (\<forall>(t1, t2, fn) \<in> set cs. \<forall>w. fst (fn w) = None)"

lemma cb_world_simps [simp]:
  "cb_world [] w = w"
  "cb_world ((t1, t2, fn) # cs) w = cb_world cs (snd (fn w))"
  by (simp_all add: cb_world_def)

lemma cb_Call_admitted:
  "beforeCall t1 cb = (None, cb1) \<Longrightarrow>
   cb_Call t1 t2 fn w cb = (map_option Inr (fst (fn w)), snd (fn w), afterCall (fst (fn w)) t2 cb1)"
  by (simp add: cb_Call_def split: prod.split)

lemma cb_Calls_append:
  "cb_Calls (cs @ ds) w cb =
     (case cb_Calls cs w cb of (rs, w1, cb1) \<Rightarrow>
        (case cb_Calls ds w1 cb1 of (rs', w2, cb2) \<Rightarrow> (rs @ rs', w2, cb2)))"
  by (induction cs w cb rule: cb_Calls.induct) (auto split: prod.splits)

lemma cb_Calls_reject:
  assumes "\<And>t1 t2 fn. (t1, t2, fn) \<in> set cs \<Longrightarrow> beforeCall t1 cb = (Some ErrOpen, cb)"
  shows "cb_Calls cs w cb = (replicate (length cs) (Some (Inl ErrOpen)), w, cb)"
  using assms
proof (induction cs)
  case (Cons c cs)
  obtain t1 t2 fn where c: "c = (t1, t2, fn)" by (cases c)
  have "beforeCall t1 cb = (Some ErrOpen, cb)"
    using Cons.prems c by auto
  then have "cb_Call t1 t2 fn w cb = (Some (Inl ErrOpen), w, cb)"
    by (simp add: cb_Call_def)
  moreover have "cb_Calls cs w cb = (replicate (length cs) (Some (Inl ErrOpen)), w, cb)"
    by (rule Cons.IH) (use Cons.prems in auto)
  ultimately show ?case by (simp add: c)
qed simp

lemma cb_Call_closed_fail:
  assumes "cb_state cb = StateClosed" and "fst (fn w) \<noteq> None"
  shows "cb_Call t1 t2 fn w cb =
    (map_option Inr (fst (fn w)), snd (fn w),
      if failures cb + 1 < FailureThreshold (cfg cb)
      then cb\<lparr>failures := failures cb + 1, successes := 0\<rparr>
      else cb\<lparr>cb_state := StateOpen, failures := failures cb + 1, successes := 0,
             openedAt := t2, halfOpenCall := 0, onTrip := onTrip cb @ [(StateClosed, StateOpen)]\<rparr>)"
  using assms by (auto simp: cb_Call_def beforeCall_closed afterCall_def cb_transition_def
    Let_def split: prod.split)

lemma cb_Calls_closed_fail:
  assumes "cb_state cb = StateClosed" and "all_fail cs"
    and "failures cb + int (length cs) < FailureThreshold (cfg cb)"
  shows "\<exists>rs. cb_Calls cs w cb =
    (rs, cb_world cs w, if cs = [] then cb else cb\<lparr>failures := failures cb + int (length cs), successes := 0\<rparr>)"
  using assms
proof (induction cs w cb rule: cb_Calls.induct)
  case (2 t1 t2 fn cs w cb)
  let ?cb = "cb\<lparr>failures := failures cb + 1, successes := 0\<rparr>"
  have call: "cb_Call t1 t2 fn w cb = (map_option Inr (fst (fn w)), snd (fn w), ?cb)"
    using 2(2-) by (subst cb_Call_closed_fail) (auto simp: all_fail_def)
  obtain rs where "cb_Calls cs (snd (fn w)) ?cb = (rs, cb_world cs (snd (fn w)),
      if cs = [] then ?cb else ?cb\<lparr>failures := failures ?cb + int (length cs), successes := 0\<rparr>)"
    using 2(1)[OF call[symmetric] refl] 2(2-) by (auto simp: all_fail_def)
  with call show ?case by auto
qed simp

lemma cb_Calls_fail_results:
  assumes "cb_state cb = StateClosed" and "all_fail cs"
    and "failures cb + int (length cs) < FailureThreshold (cfg cb)"
    and "cb_Calls cs w cb = (rs, w', cb')"
  shows "length rs = length cs \<and> None \<notin> set rs \<and> Some (Inl ErrOpen) \<notin> set rs"
  using assms
proof (induction cs arbitrary: w cb rs)
  case (Cons c cs)
  obtain t1 t2 fn where c: "c = (t1, t2, fn)" by (cases c)
  let ?cb = "cb\<lparr>failures := failures cb + 1, successes := 0\<rparr>"
  have call: "cb_Call t1 t2 fn w cb = (map_option Inr (fst (fn w)), snd (fn w), ?cb)"
    using Cons.prems c by (subst cb_Call_closed_fail) (auto simp: all_fail_def)
  obtain rs' where rs': "cb_Calls cs (snd (fn w)) ?cb = (rs', w', cb')"
    "rs = map_option Inr (fst (fn w)) # rs'"
    using Cons.prems(4) call c by (auto split: prod.splits)
  have "length rs' = length cs \<and> None \<notin> set rs' \<and> Some (Inl ErrOpen) \<notin> set rs'"
    by (rule Cons.IH[OF _ _ _ rs'(1)]) (use Cons.prems c in \<open>auto simp: all_fail_def\<close>)
  moreover obtain e where "fst (fn w) = Some e"
    using Cons.prems(2) c by (force simp: all_fail_def)
  ultimately show ?case using rs'(2) by simp
qed simp

lemma cb_Call_half_open_ok:
  assumes "cb_state cb = StateHalfOpen" and "fst (fn w) = None"
    and "halfOpenCall cb < HalfOpenMaxCalls (cfg cb)"
    and "successes cb + 1 < SuccessThreshold (cfg cb)"
  shows "cb_Call t1 t2 fn w cb = (None, snd (fn w),
    cb\<lparr>failures := 0, successes := successes cb + 1, halfOpenCall := halfOpenCall cb + 1\<rparr>)"
  using assms by (auto simp: cb_Call_def beforeCall_half_open afterCall_half_open_ok split: prod.split)

lemma cb_Calls_half_open_ok:
  assumes "cb_state cb = StateHalfOpen" and "all_succeed cs" and "failures cb = 0"
    and "halfOpenCall cb + int (length cs) \<le> HalfOpenMaxCalls (cfg cb)"
    and "successes cb + int (length cs) < SuccessThreshold (cfg cb)"
  shows "cb_Calls cs w cb = (replicate (length cs) None, cb_world cs w,
    cb\<lparr>successes := successes cb + int (length cs), halfOpenCall := halfOpenCall cb + int (length cs)\<rparr>)"
  using assms
proof (induction cs w cb rule: cb_Calls.induct)
  case (2 t1 t2 fn cs w cb)
  let ?cb = "cb\<lparr>failures := 0, successes := successes cb + 1, halfOpenCall := halfOpenCall cb + 1\<rparr>"
  have call: "cb_Call t1 t2 fn w cb = (None, snd (fn w), ?cb)"
    using 2(2-) by (subst cb_Call_half_open_ok) (auto simp: all_succeed_def)
  have "cb_Calls cs (snd (fn w)) ?cb = (replicate (length cs) None, cb_world cs (snd (fn w)),
    ?cb\<lparr>successes := successes ?cb + int (length cs), halfOpenCall := halfOpenCall ?cb + int (length cs)\<rparr>)"
    using 2(1)[OF call[symmetric] refl] 2(2-) by (auto simp: all_succeed_def)
  with call 2(4) show ?case by (cases cb) (auto simp: algebra_simps)
qed simp

subsection \<open>The contract of the breaker\<close>

text \<open>C2: a breaker trips on exactly its \<open>FailureThreshold\<close>-th consecutive failure, and from then
  on, until \<open>OpenTimeout\<close> has passed, every call returns \<open>ErrOpen\<close> and its function never runs:
  the world stays what the first calls left.\<close>

theorem cb_trips_and_sheds:
  assumes fails: "all_fail (cs @ [(t1, t2, fn)])"
    and len: "int (length cs) + 1 = FailureThreshold c" and thr: "0 < FailureThreshold c"
    and soon: "\<forall>(u1, u2, g) \<in> set ds. u1 - t2 < OpenTimeout c"
  shows "cb_state (snd (snd (cb_Calls cs w (cb_New c)))) = StateClosed \<and>
    (\<exists>rs cb'. cb_Calls ((cs @ [(t1, t2, fn)]) @ ds) w (cb_New c) =
       (rs @ replicate (length ds) (Some (Inl ErrOpen)), cb_world (cs @ [(t1, t2, fn)]) w, cb') \<and>
       length rs = length cs + 1 \<and> None \<notin> set rs \<and> Some (Inl ErrOpen) \<notin> set rs \<and>
       cb_state cb' = StateOpen \<and> openedAt cb' = t2)"
proof -
  let ?cb0 = "cb_New c"
  have init: "cb_state ?cb0 = StateClosed" "failures ?cb0 = 0" "FailureThreshold (cfg ?cb0) = FailureThreshold c"
    "OpenTimeout (cfg ?cb0) = OpenTimeout c"
    using thr by (simp_all add: cb_New_def Let_def)
  obtain rs where rs: "cb_Calls cs w ?cb0 = (rs, cb_world cs w,
      if cs = [] then ?cb0 else ?cb0\<lparr>failures := failures ?cb0 + int (length cs), successes := 0\<rparr>)"
    using cb_Calls_closed_fail[of ?cb0 cs w] init len fails by (auto simp: all_fail_def)
  let ?cb1 = "snd (snd (cb_Calls cs w ?cb0))"
  have cb1: "cb_state ?cb1 = StateClosed" "failures ?cb1 + 1 = FailureThreshold c" "cfg ?cb1 = cfg ?cb0"
    using rs init len by (auto split: if_splits)
  let ?cb2 = "?cb1\<lparr>cb_state := StateOpen, failures := failures ?cb1 + 1, successes := 0,
             openedAt := t2, halfOpenCall := 0, onTrip := onTrip ?cb1 @ [(StateClosed, StateOpen)]\<rparr>"
  have last: "cb_Call t1 t2 fn (cb_world cs w) ?cb1 =
     (map_option Inr (fst (fn (cb_world cs w))), snd (fn (cb_world cs w)), ?cb2)"
    using fails cb1 init by (subst cb_Call_closed_fail) (auto simp: all_fail_def)
  have rej: "cb_Calls ds w' ?cb2 = (replicate (length ds) (Some (Inl ErrOpen)), w', ?cb2)" for w'
    by (rule cb_Calls_reject, rule beforeCall_open) (use soon cb1 init in auto)
  have fnsome: "fst (fn (cb_world cs w)) \<noteq> None" using fails by (auto simp: all_fail_def)
  have rs_len: "length rs = length cs \<and> None \<notin> set rs \<and> Some (Inl ErrOpen) \<notin> set rs"
    using cb_Calls_fail_results[OF _ _ _ rs] init len fails by (auto simp: all_fail_def)
  show ?thesis
    using cb1(1) rs last rej fnsome rs_len
    by (auto simp: cb_Calls_append cb_world_def split: prod.splits)
qed

theorem cb_trips_and_sheds_witness:
  "\<exists>rs cb'. cb_Calls [(0, 1, \<lambda>n. (Some (), Suc n)), (2, 3, \<lambda>n. (Some (), Suc n)),
      (4, 5, \<lambda>n. (None, Suc n)), (6, 7, \<lambda>n. (None, Suc n))] (0 :: nat)
      (cb_New \<lparr>FailureThreshold = 2, SuccessThreshold = 1, OpenTimeout = 10, HalfOpenMaxCalls = 1\<rparr>) =
      (rs @ [Some (Inl ErrOpen), Some (Inl ErrOpen)], 2, cb') \<and> cb_state cb' = StateOpen"
  using cb_trips_and_sheds[of "[(0, 1, \<lambda>n :: nat. (Some (), Suc n))]" 2 3 "\<lambda>n. (Some (), Suc n)"
    "\<lparr>FailureThreshold = 2, SuccessThreshold = 1, OpenTimeout = 10, HalfOpenMaxCalls = 1\<rparr>"
    "[(4, 5, \<lambda>n. (None, Suc n)), (6, 7, \<lambda>n. (None, Suc n))]" 0]
  by (auto simp: all_fail_def cb_world_def eval_nat_numeral)

text \<open>C34: once the timeout of an open breaker has passed, \<open>SuccessThreshold\<close> healthy calls in a
  row all reach the dependency and close the breaker, provided the half-open budget admits that many
  (\<open>SuccessThreshold\<close> at most \<open>HalfOpenMaxCalls\<close>).\<close>

theorem cb_recovers:
  assumes wf: "cb_wf cb" and opn: "cb_state cb = StateOpen"
    and expired: "OpenTimeout (cfg cb) \<le> t1 - openedAt cb"
    and budget: "SuccessThreshold (cfg cb) \<le> HalfOpenMaxCalls (cfg cb)"
    and healthy: "all_succeed ((t1, t2, fn) # cs)"
    and len: "int (length cs) + 1 = SuccessThreshold (cfg cb)"
  shows "\<exists>cb'. cb_Calls ((t1, t2, fn) # cs) w cb =
      (replicate (length cs + 1) None, cb_world ((t1, t2, fn) # cs) w, cb') \<and>
      cb_state cb' = StateClosed \<and> failures cb' = 0 \<and> successes cb' = 0 \<and> halfOpenCall cb' = 0"
proof -
  have pos: "0 < HalfOpenMaxCalls (cfg cb)" using wf by (simp add: cb_wf_def)
  have fn: "fst (fn w) = None" for w using healthy by (auto simp: all_succeed_def)
  let ?b = "cb\<lparr>cb_state := StateHalfOpen, successes := 0, halfOpenCall := 1,
     onTrip := onTrip cb @ [(StateOpen, StateHalfOpen)]\<rparr>"
  note before = beforeCall_expired[OF opn expired pos]
  show ?thesis
  proof (cases cs rule: rev_cases)
    case Nil
    then show ?thesis using len fn[of w]
      by (simp add: cb_Call_admitted[OF before] afterCall_half_open_close)
  next
    case (snoc ds d)
    obtain u1 u2 g where d: "d = (u1, u2, g)" by (cases d)
    let ?b1 = "?b\<lparr>failures := 0, successes := 1\<rparr>"
    let ?w1 = "snd (fn w)"
    have first: "cb_Call t1 t2 fn w cb = (None, ?w1, ?b1)"
      using fn[of w] len snoc
      by (simp add: cb_Call_admitted[OF before] afterCall_half_open_ok)
    let ?b2 = "?b1\<lparr>successes := 1 + int (length ds), halfOpenCall := 1 + int (length ds)\<rparr>"
    have mid: "cb_Calls ds ?w1 ?b1 = (replicate (length ds) None, cb_world ds ?w1, ?b2)"
      using healthy budget len snoc by (subst cb_Calls_half_open_ok) (auto simp: all_succeed_def)
    have "fst (g (cb_world ds ?w1)) = None" using healthy snoc d by (auto simp: all_succeed_def)
    then have last: "cb_Call u1 u2 g (cb_world ds ?w1) ?b2 = (None, snd (g (cb_world ds ?w1)),
        ?b2\<lparr>cb_state := StateClosed, failures := 0, successes := 0, halfOpenCall := 0,
            onTrip := onTrip ?b2 @ [(StateHalfOpen, StateClosed)], halfOpenCall := 0\<rparr>)"
      using budget len snoc
      by (auto simp: cb_Call_def beforeCall_half_open afterCall_half_open_close split: prod.splits)
    show ?thesis
      using first mid last snoc d
      by (auto simp: cb_Calls_append cb_world_def replicate_append_same split: prod.splits)
  qed
qed

definition cb_example :: "int \<Rightarrow> CircuitBreaker" where
  "cb_example st = \<lparr>cfg = \<lparr>FailureThreshold = 3, SuccessThreshold = st, OpenTimeout = 200, HalfOpenMaxCalls = 2\<rparr>,
     cb_state = StateOpen, onTrip = [(StateClosed, StateOpen)], failures = 3, successes = 0,
     openedAt = 100, halfOpenCall = 0\<rparr>"

theorem cb_recovers_witness:
  "\<exists>cb'. cb_Calls [(300, 301, \<lambda>n :: nat. (None :: unit option, Suc n)), (302, 303, \<lambda>n. (None, Suc n))] 0 (cb_example 2) =
      ([None, None], 2, cb') \<and> cb_state cb' = StateClosed"
  using cb_recovers[of "cb_example 2" 300 301 "\<lambda>n :: nat. (None :: unit option, Suc n)"
      "[(302, 303, \<lambda>n. (None, Suc n))]" 0]
  by (auto simp: cb_example_def cb_wf_def all_succeed_def eval_nat_numeral)

text \<open>\<open>HalfOpenMaxCalls\<close> is a budget for the whole half-open period, and with
  \<open>SuccessThreshold\<close> above it the breaker never recovers: after that many successful probes every
  later call is rejected for ever, however long the caller waits and however healthy the
  dependency is.\<close>

theorem cb_half_open_livelock:
  assumes wf: "cb_wf cb" and opn: "cb_state cb = StateOpen"
    and expired: "OpenTimeout (cfg cb) \<le> t1 - openedAt cb"
    and short: "HalfOpenMaxCalls (cfg cb) < SuccessThreshold (cfg cb)"
    and healthy: "all_succeed ((t1, t2, fn) # cs)"
    and len: "int (length cs) + 1 = HalfOpenMaxCalls (cfg cb)"
  shows "\<exists>cb'. cb_Calls ((t1, t2, fn) # cs) w cb =
      (replicate (length cs + 1) None, cb_world ((t1, t2, fn) # cs) w, cb') \<and>
      cb_state cb' = StateHalfOpen \<and>
      (\<forall>ds w'. cb_Calls ds w' cb' = (replicate (length ds) (Some (Inl ErrOpen)), w', cb'))"
proof -
  have pos: "0 < HalfOpenMaxCalls (cfg cb)" using wf by (simp add: cb_wf_def)
  have fn: "fst (fn w) = None" using healthy by (auto simp: all_succeed_def)
  let ?b = "cb\<lparr>cb_state := StateHalfOpen, successes := 0, halfOpenCall := 1,
     onTrip := onTrip cb @ [(StateOpen, StateHalfOpen)]\<rparr>"
  let ?b1 = "?b\<lparr>failures := 0, successes := 1\<rparr>"
  have first: "cb_Call t1 t2 fn w cb = (None, snd (fn w), ?b1)"
    using fn len short
    by (simp add: cb_Call_admitted[OF beforeCall_expired[OF opn expired pos]] afterCall_half_open_ok)
  let ?b2 = "?b1\<lparr>successes := 1 + int (length cs), halfOpenCall := 1 + int (length cs)\<rparr>"
  have rest: "cb_Calls cs (snd (fn w)) ?b1 = (replicate (length cs) None, cb_world cs (snd (fn w)), ?b2)"
    using healthy short len by (subst cb_Calls_half_open_ok) (auto simp: all_succeed_def)
  have "cb_Calls ds w' ?b2 = (replicate (length ds) (Some (Inl ErrOpen)), w', ?b2)" for ds w'
    by (rule cb_Calls_reject, rule beforeCall_exhausted) (use len in auto)
  with first rest show ?thesis by auto
qed

theorem cb_half_open_livelock_witness:
  "\<exists>cb'. cb_Calls [(300, 301, \<lambda>n :: nat. (None :: unit option, Suc n)), (302, 303, \<lambda>n. (None, Suc n))] 0 (cb_example 3) =
      ([None, None], 2, cb') \<and> cb_state cb' = StateHalfOpen \<and>
      cb_Calls [(10000000, 10000001, \<lambda>n :: nat. (None :: unit option, Suc n))] 2 cb' = ([Some (Inl ErrOpen)], 2, cb')"
proof -
  obtain cb' where "cb_Calls [(300, 301, \<lambda>n :: nat. (None :: unit option, Suc n)), (302, 303, \<lambda>n. (None, Suc n))] 0 (cb_example 3) =
      (replicate 2 None, 2, cb')" "cb_state cb' = StateHalfOpen"
    and rej: "\<And>ds (w' :: nat). cb_Calls ds w' cb' = (replicate (length ds) (Some (Inl ErrOpen :: breaker_error + unit)), w', cb')"
    using cb_half_open_livelock[of "cb_example 3" 300 301 "\<lambda>n :: nat. (None :: unit option, Suc n)"
      "[(302, 303, \<lambda>n. (None, Suc n))]" 0]
    by (auto simp: cb_example_def cb_wf_def all_succeed_def eval_nat_numeral)
  moreover have "cb_Calls [(10000000, 10000001, \<lambda>n :: nat. (None :: unit option, Suc n))] 2 cb' =
      ([Some (Inl ErrOpen)], 2, cb')"
    by (simp only: rej) simp
  ultimately show ?thesis
    by (auto simp only: numeral_2_eq_2 replicate.simps)
qed

subsection \<open>Concurrent calls\<close>

text \<open>
  Calls from several goroutines interleave between \<open>beforeCall\<close> and \<open>afterCall\<close>.  The system
  below keeps the calls that were admitted and have not finished; a call admitted in the half-open
  state carries the number of that half-open period.  The clock readings are unconstrained.
\<close>

record cb_sys =
  breaker :: CircuitBreaker
  period :: nat
  inflight :: "nat option multiset"

definition next_period :: "cb_sys \<Rightarrow> CircuitBreaker \<Rightarrow> nat" where
  "next_period s cb' =
     (if cb_state (breaker s) \<noteq> StateHalfOpen \<and> cb_state cb' = StateHalfOpen
      then Suc (period s) else period s)"

inductive cb_step :: "cb_sys \<Rightarrow> cb_sys \<Rightarrow> bool" where
  cb_admit: "beforeCall t (breaker s) = (None, cb') \<Longrightarrow>
     tag = (if cb_state cb' = StateHalfOpen then Some (next_period s cb') else None) \<Longrightarrow>
     cb_step s (s\<lparr>breaker := cb', period := next_period s cb', inflight := add_mset tag (inflight s)\<rparr>)"
| cb_reject: "beforeCall t (breaker s) = (Some ErrOpen, cb') \<Longrightarrow>
     cb_step s (s\<lparr>breaker := cb', period := next_period s cb'\<rparr>)"
| cb_finish: "tag \<in># inflight s \<Longrightarrow>
     cb_step s (s\<lparr>breaker := afterCall (err :: unit option) t (breaker s), inflight := inflight s - {#tag#}\<rparr>)"

definition cb_init :: "cb_Config \<Rightarrow> cb_sys \<Rightarrow> bool" where
  "cb_init c s \<longleftrightarrow> s = \<lparr>breaker = cb_New c, period = 0, inflight = {#}\<rparr>"

definition cb_sys_inv :: "cb_Config \<Rightarrow> cb_sys \<Rightarrow> bool" where
  "cb_sys_inv c s \<longleftrightarrow> cb_wf (breaker s) \<and> cfg (breaker s) = c \<and>
     (\<forall>e. int (count (inflight s) (Some e)) \<le> HalfOpenMaxCalls c) \<and>
     (\<forall>e > period s. count (inflight s) (Some e) = 0) \<and>
     (cb_state (breaker s) = StateHalfOpen \<longrightarrow>
        int (count (inflight s) (Some (period s))) \<le> halfOpenCall (breaker s))"

lemma beforeCall_cases:
  assumes "cb_wf cb" and "beforeCall t cb = (r, cb')"
  obtains (rejected) "r = Some ErrOpen" "cb' = cb"
  | (closed) "r = None" "cb_state cb = StateClosed" "cb' = cb"
  | (expired) "r = None" "cb_state cb = StateOpen" "cb_state cb' = StateHalfOpen" "halfOpenCall cb' = 1" "cfg cb' = cfg cb"
  | (probe) "r = None" "cb_state cb = StateHalfOpen" "halfOpenCall cb < HalfOpenMaxCalls (cfg cb)"
      "cb' = cb\<lparr>halfOpenCall := halfOpenCall cb + 1\<rparr>"
  using assms
  by (cases "cb_state cb") (auto simp: beforeCall_def cb_transition_def cb_wf_def Let_def split: if_splits)

lemma afterCall_half_open_frame:
  "cb_state (afterCall err t cb) = StateHalfOpen \<Longrightarrow>
   cb_state cb = StateHalfOpen \<and> halfOpenCall (afterCall err t cb) = halfOpenCall cb"
  by (cases "cb_state cb") (auto simp: afterCall_def cb_transition_def Let_def split: if_splits)

lemma cb_sys_inv_step:
  assumes inv: "cb_sys_inv c s" and step: "cb_step s u"
  shows "cb_sys_inv c u"
  using step
proof cases
  case (cb_admit t cb' tag)
  from inv have wf: "cb_wf (breaker s)" and wf': "cb_wf cb'"
    using cb_wf_beforeCall[OF _ cb_admit(2)] by (auto simp: cb_sys_inv_def)
  show ?thesis
  proof (cases rule: beforeCall_cases[OF wf cb_admit(2)])
    case 3
    then show ?thesis using inv wf' cb_admit wf
      by (auto simp: cb_sys_inv_def next_period_def cb_wf_def)
  next
    case 4
    then show ?thesis using inv wf' cb_admit
      by (auto simp: cb_sys_inv_def next_period_def)
  qed (use inv cb_admit in \<open>auto simp: cb_sys_inv_def next_period_def\<close>)
next
  case (cb_reject t cb')
  from inv have wf: "cb_wf (breaker s)" by (simp add: cb_sys_inv_def)
  show ?thesis
    by (cases rule: beforeCall_cases[OF wf cb_reject(2)]) (use inv cb_reject in \<open>auto simp: cb_sys_inv_def next_period_def\<close>)
next
  case (cb_finish tag err t)
  have le: "count (inflight u) e \<le> count (inflight s) e" for e
    using cb_finish by simp
  have "int (count (inflight u) (Some e)) \<le> HalfOpenMaxCalls c" for e
    using inv le[of "Some e"] by (force simp: cb_sys_inv_def intro: order_trans[of _ "int (count (inflight s) (Some e))"])
  moreover have "count (inflight u) (Some e) = 0" if "e > period u" for e
    using inv le[of "Some e"] that cb_finish by (auto simp: cb_sys_inv_def)
  moreover have "cb_wf (breaker u) \<and> cfg (breaker u) = c"
    using inv cb_finish by (auto simp: cb_sys_inv_def cb_wf_afterCall)
  moreover have "int (count (inflight u) (Some (period u))) \<le> halfOpenCall (breaker u)"
    if "cb_state (breaker u) = StateHalfOpen"
  proof -
    have *: "breaker u = afterCall err t (breaker s)" "period u = period s"
      using cb_finish by simp_all
    from that afterCall_half_open_frame[of err t "breaker s"] have
      "cb_state (breaker s) = StateHalfOpen" "halfOpenCall (breaker u) = halfOpenCall (breaker s)"
      unfolding * by auto
    with inv le[of "Some (period s)"] * show ?thesis by (force simp: cb_sys_inv_def)
  qed
  ultimately show ?thesis by (simp add: cb_sys_inv_def)
qed

interpretation cb: step_system "cb_init c" cb_step "cb_sys_inv (cfg (cb_New c))"
proof
  show "cb_sys_inv (cfg (cb_New c)) s" if "cb_init c s" for s
    using that cb_wf_New[of c] by (auto simp: cb_init_def cb_sys_inv_def cb_wf_def)
qed (rule cb_sys_inv_step)

text \<open>In every interleaving of concurrent calls, the breaker is well formed (its counters are
  in range for its state) and at most \<open>HalfOpenMaxCalls\<close> of the calls that are running were admitted
  as probes of one half-open period.\<close>

theorem cb_concurrent_probes_bounded:
  assumes "reach (cb_init c) cb_step s"
  shows "cb_wf (breaker s) \<and> cfg (breaker s) = cfg (cb_New c) \<and>
    int (count (inflight s) (Some e)) \<le> HalfOpenMaxCalls (cfg (cb_New c))"
  using cb.reachable_inv[OF assms] by (auto simp: cb_sys_inv_def)

theorem cb_concurrent_probes_bounded_witness:
  "\<exists>s. reach (cb_init \<lparr>FailureThreshold = 1, SuccessThreshold = 1, OpenTimeout = 50, HalfOpenMaxCalls = 1\<rparr>) cb_step s \<and>
     inflight s = {#Some 1#} \<and> cb_wf (breaker s)"
proof -
  let ?c = "\<lparr>FailureThreshold = 1, SuccessThreshold = 1, OpenTimeout = 50, HalfOpenMaxCalls = 1\<rparr>"
  let ?s0 = "\<lparr>breaker = cb_New ?c, period = 0, inflight = {#}\<rparr>"
  let ?s1 = "?s0\<lparr>inflight := {#None#}\<rparr>"
  let ?b2 = "(cb_New ?c)\<lparr>cb_state := StateOpen, failures := 1, openedAt := 10, onTrip := [(StateClosed, StateOpen)]\<rparr>"
  let ?s2 = "?s0\<lparr>breaker := ?b2\<rparr>"
  let ?b3 = "?b2\<lparr>cb_state := StateHalfOpen, halfOpenCall := 1,
      onTrip := [(StateClosed, StateOpen), (StateOpen, StateHalfOpen)]\<rparr>"
  let ?s3 = "\<lparr>breaker = ?b3, period = 1, inflight = {#Some 1#}\<rparr>"
  have r0: "reach (cb_init ?c) cb_step ?s0" by (rule reach_init) (simp add: cb_init_def)
  have "cb_step ?s0 ?s1"
    using cb_admit[of 0 ?s0 "cb_New ?c" None] by (simp add: beforeCall_def cb_New_def next_period_def)
  with r0 have r1: "reach (cb_init ?c) cb_step ?s1" by (rule reach_step)
  have "cb_step ?s1 ?s2"
    using cb_finish[of None ?s1 "Some ()" 10] by (simp add: afterCall_def cb_New_def cb_transition_def)
  with r1 have r2: "reach (cb_init ?c) cb_step ?s2" by (rule reach_step)
  have "cb_step ?s2 ?s3"
    using cb_admit[of 100 ?s2 ?b3 "Some 1"]
    by (simp add: beforeCall_def cb_New_def cb_transition_def next_period_def)
  with r2 have r3: "reach (cb_init ?c) cb_step ?s3" by (rule reach_step)
  then show ?thesis using cb_concurrent_probes_bounded[OF r3] by (intro exI[of _ ?s3]) simp
qed

end
