(* ===== verification/RaftElection.thy ===== *)
theory RaftElection
  imports Prelude
begin

text \<open>
  \<^verbatim>\<open>code/raft_election_sim/raft.go\<close>: leader election of Raft on a simulated cluster.  The
  simulation is sequential: every exported function runs to its end before the next, so the
  model passes the whole cluster from operation to operation and the locks have no counterpart.
  The keys of \<open>c.nodes\<close> are \<open>0 .. size - 1\<close> (only \<open>NewCluster\<close> inserts), so the map of nodes is a
  list indexed by the node's id.  The random generator is the stream \<open>rng\<close> with the position
  \<open>draws\<close>: its \<open>k\<close>-th call \<open>Int63n(n)\<close> returned \<open>rng k n\<close>.  A log line is kept as the event it
  reports with the time in milliseconds.
\<close>

subsection \<open>State\<close>

datatype Role = Follower | Candidate | Leader

fun Role_String :: "Role \<Rightarrow> string" where
  "Role_String Follower = ''follower''"
| "Role_String Candidate = ''candidate''"
| "Role_String Leader = ''leader''"

record Node =
  nd_role :: Role
  nd_term :: int
  votedFor :: int
  electionDeadline :: gtime
  votesReceived :: "nat list"

datatype raft_event =
    StartsElection nat int
  | BecomesLeader nat int int nat
  | StepsDown nat int
  | Partitioned "nat list"
  | Healed

record Cluster =
  nodes :: "Node list"
  partitioned :: "nat list"
  rng :: "nat \<Rightarrow> int \<Rightarrow> int"
  draws :: nat
  now :: gtime
  log_lines :: "(int \<times> raft_event) list"
  minTimeout :: int
  maxTimeout :: int
  tick :: int

subsection \<open>Operations\<close>

definition upd_node :: "nat \<Rightarrow> (Node \<Rightarrow> Node) \<Rightarrow> Cluster \<Rightarrow> Cluster" where
  "upd_node i f c = c\<lparr>nodes := (nodes c)[i := f (nodes c ! i)]\<rparr>"

definition resetElectionTimer :: "nat \<Rightarrow> Cluster \<Rightarrow> Cluster" where
  "resetElectionTimer i c =
     (let spread = maxTimeout c - minTimeout c;
          d = minTimeout c + rng c (draws c) spread
      in (upd_node i (\<lambda>n. n\<lparr>electionDeadline := now c + d\<rparr>) c)\<lparr>draws := Suc (draws c)\<rparr>)"

fun newNodes :: "nat \<Rightarrow> Cluster \<Rightarrow> Cluster" where
  "newNodes 0 c = c"
| "newNodes (Suc k) c =
     (let i = length (nodes c);
          c1 = c\<lparr>nodes := nodes c @ [\<lparr>nd_role = Follower, nd_term = 0, votedFor = -1,
                 electionDeadline = 0, votesReceived = []\<rparr>]\<rparr>
      in newNodes k (resetElectionTimer i c1))"

definition NewCluster :: "nat \<Rightarrow> (nat \<Rightarrow> int \<Rightarrow> int) \<Rightarrow> Cluster" where
  "NewCluster sz seed =
     newNodes sz \<lparr>nodes = [], partitioned = [], rng = seed, draws = 0, now = 0, log_lines = [],
       minTimeout = 150 * 1000000, maxTimeout = 300 * 1000000, tick = 10 * 1000000\<rparr>"

definition majority :: "Cluster \<Rightarrow> int" where
  "majority c = int (length (nodes c) div 2 + 1)"

definition logf :: "raft_event \<Rightarrow> Cluster \<Rightarrow> Cluster" where
  "logf e c = c\<lparr>log_lines := log_lines c @ [(now c div 1000000, e)]\<rparr>"

definition nodeIDs :: "Cluster \<Rightarrow> nat list" where
  "nodeIDs c = [0..<length (nodes c)]"

definition isPartitioned :: "Cluster \<Rightarrow> nat \<Rightarrow> bool" where
  "isPartitioned c i \<longleftrightarrow> i \<in> set (partitioned c)"

definition requestVote :: "nat \<Rightarrow> int \<Rightarrow> nat \<Rightarrow> Cluster \<Rightarrow> bool \<times> Cluster" where
  "requestVote voter t candidateID c =
     (if t < nd_term (nodes c ! voter) then (False, c)
      else
        let c1 = (if t > nd_term (nodes c ! voter)
                  then upd_node voter (\<lambda>v. v\<lparr>nd_term := t, nd_role := Follower, votedFor := -1\<rparr>) c
                  else c)
        in if votedFor (nodes c1 ! voter) \<noteq> -1 \<and> votedFor (nodes c1 ! voter) \<noteq> int candidateID
           then (False, c1)
           else (True, resetElectionTimer voter
                   (upd_node voter (\<lambda>v. v\<lparr>votedFor := int candidateID\<rparr>) c1)))"

fun collectVotes :: "nat \<Rightarrow> int \<Rightarrow> nat list \<Rightarrow> int \<Rightarrow> Cluster \<Rightarrow> int \<times> Cluster" where
  "collectVotes n t [] votes c = (votes, c)"
| "collectVotes n t (i # ids) votes c =
     (if i = n \<or> isPartitioned c i then collectVotes n t ids votes c
      else case requestVote i t n c of
             (granted, c1) \<Rightarrow> collectVotes n t ids (if granted then votes + 1 else votes) c1)"

definition startElection :: "nat \<Rightarrow> Cluster \<Rightarrow> Cluster" where
  "startElection n c =
     (let c1 = upd_node n (\<lambda>v. v\<lparr>nd_term := nd_term v + 1, nd_role := Candidate,
                 votedFor := int n, votesReceived := [n]\<rparr>) c;
          t = nd_term (nodes c1 ! n);
          c2 = logf (StartsElection n t) (resetElectionTimer n c1)
      in if isPartitioned c2 n then c2
         else case collectVotes n t (nodeIDs c2) 1 c2 of
           (votes, c3) \<Rightarrow>
             if nd_role (nodes c3 ! n) = Candidate \<and> nd_term (nodes c3 ! n) = t \<and> votes \<ge> majority c3
             then logf (BecomesLeader n t votes (length (nodes c3)))
                    (upd_node n (\<lambda>v. v\<lparr>nd_role := Leader\<rparr>) c3)
             else c3)"

fun heartbeatLoop :: "nat \<Rightarrow> int \<Rightarrow> nat list \<Rightarrow> Cluster \<Rightarrow> Cluster" where
  "heartbeatLoop l t [] c = c"
| "heartbeatLoop l t (i # ids) c =
     (if i = l \<or> isPartitioned c i then heartbeatLoop l t ids c
      else if t \<ge> nd_term (nodes c ! i) then
        let c1 = (if t > nd_term (nodes c ! i)
                  then upd_node i (\<lambda>f. f\<lparr>nd_term := t, votedFor := -1\<rparr>) c else c);
            c2 = resetElectionTimer i (upd_node i (\<lambda>f. f\<lparr>nd_role := Follower\<rparr>) c1)
        in heartbeatLoop l t ids c2
      else
        let staleTerm = nd_term (nodes c ! i);
            c1 = (if staleTerm > nd_term (nodes c ! l)
                  then logf (StepsDown l staleTerm)
                    (upd_node l (\<lambda>f. f\<lparr>nd_term := staleTerm, nd_role := Follower, votedFor := -1\<rparr>) c)
                  else c)
        in heartbeatLoop l t ids c1)"

definition sendHeartbeats :: "nat \<Rightarrow> Cluster \<Rightarrow> Cluster" where
  "sendHeartbeats l c = heartbeatLoop l (nd_term (nodes c ! l)) (nodeIDs c) c"

definition heartbeatPhase :: "nat \<Rightarrow> Cluster \<Rightarrow> Cluster" where
  "heartbeatPhase i c =
     (if nd_role (nodes c ! i) = Leader \<and> \<not> isPartitioned c i then sendHeartbeats i c else c)"

definition electionPhase :: "nat \<Rightarrow> Cluster \<Rightarrow> Cluster" where
  "electionPhase i c =
     (if nd_role (nodes c ! i) \<noteq> Leader \<and> \<not> now c < electionDeadline (nodes c ! i)
      then startElection i c else c)"

definition Step :: "Cluster \<Rightarrow> Cluster" where
  "Step c =
     (let c1 = c\<lparr>now := now c + tick c\<rparr>;
          ids = nodeIDs c1
      in fold electionPhase ids (fold heartbeatPhase ids c1))"

definition Partition :: "nat list \<Rightarrow> Cluster \<Rightarrow> Cluster" where
  "Partition ids c = logf (Partitioned ids) (c\<lparr>partitioned := partitioned c @ ids\<rparr>)"

definition Heal :: "Cluster \<Rightarrow> Cluster" where
  "Heal c = logf Healed (c\<lparr>partitioned := []\<rparr>)"

definition Leaders :: "Cluster \<Rightarrow> nat list" where
  "Leaders c = filter (\<lambda>i. nd_role (nodes c ! i) = Leader) (nodeIDs c)"

definition LeadersByTerm :: "Cluster \<Rightarrow> int \<Rightarrow> nat list" where
  "LeadersByTerm c t =
     filter (\<lambda>i. nd_role (nodes c ! i) = Leader \<and> nd_term (nodes c ! i) = t) (nodeIDs c)"

definition raft_Term :: "Cluster \<Rightarrow> nat \<Rightarrow> int option" where
  "raft_Term c i = (if i < length (nodes c) then Some (nd_term (nodes c ! i)) else None)"

definition raft_Role :: "Cluster \<Rightarrow> nat \<Rightarrow> Role option" where
  "raft_Role c i = (if i < length (nodes c) then Some (nd_role (nodes c ! i)) else None)"

fun RunUntilLeader :: "nat \<Rightarrow> Cluster \<Rightarrow> (int \<times> bool) \<times> Cluster" where
  "RunUntilLeader 0 c = ((-1, False), c)"
| "RunUntilLeader (Suc k) c =
     (let c1 = Step c in
      case Leaders c1 of [l] \<Rightarrow> ((int l, True), c1) | _ \<Rightarrow> RunUntilLeader k c1)"

text \<open>The operations a caller of the simulation has, as steps.\<close>

inductive raft_step :: "Cluster \<Rightarrow> Cluster \<Rightarrow> bool" where
  raft_Step: "raft_step c (Step c)"
| raft_Partition: "raft_step c (Partition ids c)"
| raft_Heal: "raft_step c (Heal c)"

definition raft_init :: "nat \<Rightarrow> (nat \<Rightarrow> int \<Rightarrow> int) \<Rightarrow> Cluster \<Rightarrow> bool" where
  "raft_init sz seed c \<longleftrightarrow> c = NewCluster sz seed"

subsection \<open>How one node may change\<close>

text \<open>
  \<open>later v w\<close>: the term of a node only grows, and within a term a vote once cast stays.
  \<open>evolves\<close>: every node of the cluster changes so, and nobody becomes leader.
\<close>

definition later :: "Node \<Rightarrow> Node \<Rightarrow> bool" where
  "later v w \<longleftrightarrow> nd_term v < nd_term w \<or>
     nd_term v = nd_term w \<and> (votedFor v = -1 \<or> votedFor w = votedFor v)"

definition keeps_role :: "Node \<Rightarrow> Node \<Rightarrow> bool" where
  "keeps_role v w \<longleftrightarrow> (nd_role w = Leader \<longrightarrow> nd_role v = Leader \<and> nd_term w = nd_term v)"

definition evolves :: "Cluster \<Rightarrow> Cluster \<Rightarrow> bool" where
  "evolves c d \<longleftrightarrow> length (nodes d) = length (nodes c) \<and> partitioned d = partitioned c \<and>
     now d = now c \<and>
     (\<forall>i < length (nodes c). later (nodes c ! i) (nodes d ! i) \<and> keeps_role (nodes c ! i) (nodes d ! i))"

lemma later_refl [simp]: "later v v"
  by (simp add: later_def)

lemma later_trans: "later u v \<Longrightarrow> later v w \<Longrightarrow> later u w"
  by (auto simp: later_def)

lemma evolves_refl [simp]: "evolves c c"
  by (simp add: evolves_def keeps_role_def)

lemma evolves_trans: "evolves c d \<Longrightarrow> evolves d e \<Longrightarrow> evolves c e"
  by (auto simp: evolves_def keeps_role_def intro: later_trans)

lemma evolves_upd_node:
  "later (nodes c ! i) (f (nodes c ! i)) \<Longrightarrow> keeps_role (nodes c ! i) (f (nodes c ! i)) \<Longrightarrow>
   evolves c (upd_node i f c)"
  by (simp add: evolves_def upd_node_def nth_upd keeps_role_def)

lemma nodes_upd_node [simp]:
  "nodes (upd_node i f c) = (nodes c)[i := f (nodes c ! i)]" "length (nodes (upd_node i f c)) = length (nodes c)"
  "partitioned (upd_node i f c) = partitioned c" "now (upd_node i f c) = now c"
  by (simp_all add: upd_node_def)

lemma logf_simps [simp]:
  "nodes (logf e c) = nodes c" "partitioned (logf e c) = partitioned c" "now (logf e c) = now c"
  by (simp_all add: logf_def)

lemma evolves_logf [simp]: "evolves c (logf e d) \<longleftrightarrow> evolves c d"
  by (simp add: evolves_def)

lemma resetElectionTimer_simps [simp]:
  "length (nodes (resetElectionTimer i c)) = length (nodes c)"
  "partitioned (resetElectionTimer i c) = partitioned c"
  "now (resetElectionTimer i c) = now c"
  "j < length (nodes c) \<Longrightarrow> nd_role (nodes (resetElectionTimer i c) ! j) = nd_role (nodes c ! j)"
  "j < length (nodes c) \<Longrightarrow> nd_term (nodes (resetElectionTimer i c) ! j) = nd_term (nodes c ! j)"
  "j < length (nodes c) \<Longrightarrow> votedFor (nodes (resetElectionTimer i c) ! j) = votedFor (nodes c ! j)"
  "j \<noteq> i \<Longrightarrow> nodes (resetElectionTimer i c) ! j = nodes c ! j"
  by (auto simp: resetElectionTimer_def Let_def nth_upd)

lemma evolves_resetElectionTimer [simp]: "evolves c (resetElectionTimer i c)"
  by (auto simp: evolves_def later_def keeps_role_def)

lemma isPartitioned_evolves: "evolves c d \<Longrightarrow> isPartitioned d i = isPartitioned c i"
  by (simp add: evolves_def isPartitioned_def)

subsection \<open>Every operation moves the nodes forward\<close>

lemma requestVote_spec:
  assumes i: "i < length (nodes c)" and rv: "requestVote i t n c = (g, d)"
  shows "evolves c d"
    and "j \<noteq> i \<Longrightarrow> nodes d ! j = nodes c ! j"
    and "g \<Longrightarrow> nd_term (nodes d ! i) = t \<and> votedFor (nodes d ! i) = int n"
proof -
  show "evolves c d"
    using rv i by (auto simp: requestVote_def Let_def evolves_def later_def keeps_role_def
      nth_upd split: if_splits)
  show "j \<noteq> i \<Longrightarrow> nodes d ! j = nodes c ! j"
    using rv by (auto simp: requestVote_def Let_def split: if_splits)
  show "g \<Longrightarrow> nd_term (nodes d ! i) = t \<and> votedFor (nodes d ! i) = int n"
    using rv i by (auto simp: requestVote_def Let_def split: if_splits)
qed

definition voters :: "nat \<Rightarrow> int \<Rightarrow> Cluster \<Rightarrow> nat set" where
  "voters n t c = {i. i < length (nodes c) \<and> nd_term (nodes c ! i) = t \<and> votedFor (nodes c ! i) = int n}"

lemma finite_voters [simp]: "finite (voters n t c)"
  by (simp add: voters_def)

lemma collectVotes_spec:
  assumes "collectVotes n t ids votes c = (votes', d)" and "distinct ids"
    and "set ids \<subseteq> {..< length (nodes c)}"
  shows "evolves c d \<and> (\<forall>j. j \<notin> set ids \<or> j = n \<longrightarrow> nodes d ! j = nodes c ! j) \<and>
    votes' \<le> votes + int (card ({i \<in> set ids. \<not> isPartitioned c i \<and> i \<noteq> n} \<inter> voters n t d))"
  using assms
proof (induction n t ids votes c rule: collectVotes.induct)
  case (2 n t i ids votes c)
  let ?S = "\<lambda>ids c. {i \<in> set ids. \<not> isPartitioned c i \<and> i \<noteq> n}"
  show ?case
  proof (cases "i = n \<or> isPartitioned c i")
    case True
    then have "?S (i # ids) c = ?S ids c" by auto
    with 2 True show ?thesis by auto
  next
    case False
    obtain g c1 where rv: "requestVote i t n c = (g, c1)" by fastforce
    have i: "i < length (nodes c)" using 2(5) by simp
    note spec = requestVote_spec[OF i rv]
    have len: "length (nodes c1) = length (nodes c)" using spec(1) by (simp add: evolves_def)
    have rest: "collectVotes n t ids (if g then votes + 1 else votes) c1 = (votes', d)"
      using 2(3) False rv by simp
    have IH: "evolves c1 d \<and> (\<forall>j. j \<notin> set ids \<or> j = n \<longrightarrow> nodes d ! j = nodes c1 ! j) \<and>
      votes' \<le> (if g then votes + 1 else votes) + int (card (?S ids c1 \<inter> voters n t d))"
      using 2(2)[OF False rv[symmetric] rest] 2(4,5) len by auto
    have S: "?S (i # ids) c = insert i (?S ids c1)"
      using False by (auto simp: isPartitioned_evolves[OF spec(1)])
    have ev: "evolves c d" using spec(1) IH by (blast intro: evolves_trans)
    have same: "nodes d ! i = nodes c1 ! i" using IH 2(4) by auto
    have "votes' \<le> votes + int (card (?S (i # ids) c \<inter> voters n t d))"
    proof (cases g)
      case True
      then have "i \<in> voters n t d"
        using spec(3) same i ev by (auto simp: voters_def evolves_def)
      then have "?S (i # ids) c \<inter> voters n t d = insert i (?S ids c1 \<inter> voters n t d)"
        unfolding S by auto
      moreover have "card (insert i (?S ids c1 \<inter> voters n t d)) = Suc (card (?S ids c1 \<inter> voters n t d))"
        using 2(4) by (intro card_insert_disjoint) auto
      ultimately show ?thesis using IH True by simp
    next
      case False
      have "card (?S ids c1 \<inter> voters n t d) \<le> card (?S (i # ids) c \<inter> voters n t d)"
        unfolding S by (intro card_mono) auto
      with IH False show ?thesis by simp
    qed
    moreover have "\<forall>j. j \<notin> set (i # ids) \<or> j = n \<longrightarrow> nodes d ! j = nodes c ! j"
      using IH spec(2) False by auto
    ultimately show ?thesis using ev by blast
  qed
qed simp

lemma heartbeatLoop_evolves:
  assumes "set ids \<subseteq> {..< length (nodes c)}" and "l < length (nodes c)"
  shows "evolves c (heartbeatLoop l t ids c)"
  using assms
proof (induction l t ids c rule: heartbeatLoop.induct)
  case (2 l t i ids c)
  have i: "i < length (nodes c)" using "2.prems" by simp
  show ?case
  proof (cases "i = l \<or> isPartitioned c i")
    case False
    show ?thesis
    proof (cases "t \<ge> nd_term (nodes c ! i)")
      case True
      let ?c1 = "if t > nd_term (nodes c ! i) then upd_node i (\<lambda>f. f\<lparr>nd_term := t, votedFor := -1\<rparr>) c else c"
      let ?c2 = "resetElectionTimer i (upd_node i (\<lambda>f. f\<lparr>nd_role := Follower\<rparr>) ?c1)"
      have ev: "evolves c ?c2"
        using i True by (auto simp: evolves_def later_def keeps_role_def nth_upd)
      then have "length (nodes ?c2) = length (nodes c)" by (simp add: evolves_def)
      then have "evolves ?c2 (heartbeatLoop l t ids ?c2)"
        using "2.IH"(2)[OF False True refl refl] "2.prems" by (simp del: nodes_upd_node)
      with ev True False show ?thesis
        by (simp only: heartbeatLoop.simps if_False if_True Let_def) (rule evolves_trans)
    next
      case le: False
      let ?s = "nd_term (nodes c ! i)"
      let ?c1 = "if ?s > nd_term (nodes c ! l)
        then logf (StepsDown l ?s) (upd_node l (\<lambda>f. f\<lparr>nd_term := ?s, nd_role := Follower, votedFor := -1\<rparr>) c)
        else c"
      have ev: "evolves c ?c1"
        using "2.prems" by (auto simp: evolves_def later_def keeps_role_def nth_upd)
      then have "length (nodes ?c1) = length (nodes c)" by (simp add: evolves_def)
      then have "evolves ?c1 (heartbeatLoop l t ids ?c1)"
        using "2.IH"(3)[OF False le refl refl] "2.prems" by (simp del: nodes_upd_node)
      with ev le False show ?thesis
        by (simp only: heartbeatLoop.simps if_False if_True Let_def) (rule evolves_trans)
    qed
  qed (use 2 in auto)
qed simp

lemma startElection_spec:
  assumes n: "n < length (nodes c)" and d: "d = startElection n c"
  obtains (lost) "evolves c d"
  | (won) c3 t where "evolves c c3" "\<not> isPartitioned c n" "nodes d = (nodes c3)[n := (nodes c3 ! n)\<lparr>nd_role := Leader\<rparr>]"
      "partitioned d = partitioned c" "now d = now c" "nd_term (nodes c3 ! n) = t" "votedFor (nodes c3 ! n) = int n"
      "majority c \<le> int (card ({i. \<not> isPartitioned c i} \<inter> voters n t c3))" "nd_role (nodes c3 ! n) = Candidate"
proof -
  define c1 where "c1 = upd_node n (\<lambda>v. v\<lparr>nd_term := nd_term v + 1, nd_role := Candidate,
                 votedFor := int n, votesReceived := [n]\<rparr>) c"
  define t where "t = nd_term (nodes c1 ! n)"
  define c2 where "c2 = logf (StartsElection n t) (resetElectionTimer n c1)"
  have ev1: "evolves c c1"
    unfolding c1_def by (rule evolves_upd_node) (simp_all add: later_def keeps_role_def)
  then have ev2: "evolves c c2" unfolding c2_def by (auto intro: evolves_trans)
  then have len2: "length (nodes c2) = length (nodes c)" by (simp add: evolves_def)
  have n2: "nd_term (nodes c2 ! n) = t \<and> votedFor (nodes c2 ! n) = int n"
    using n by (simp add: c1_def c2_def t_def)
  have d2: "d = (if isPartitioned c2 n then c2
         else case collectVotes n t (nodeIDs c2) 1 c2 of
           (votes, c3) \<Rightarrow>
             if nd_role (nodes c3 ! n) = Candidate \<and> nd_term (nodes c3 ! n) = t \<and> votes \<ge> majority c3
             then logf (BecomesLeader n t votes (length (nodes c3)))
                    (upd_node n (\<lambda>v. v\<lparr>nd_role := Leader\<rparr>) c3)
             else c3)"
    unfolding d startElection_def Let_def c1_def[symmetric] t_def[symmetric] c2_def[symmetric] ..
  show thesis
  proof (cases "isPartitioned c2 n")
    case True
    then have "d = c2" by (simp add: d2)
    with ev2 have "evolves c d" by simp
    then show thesis by (rule lost)
  next
    case part: False
    obtain votes c3 where cv: "collectVotes n t (nodeIDs c2) 1 c2 = (votes, c3)" by fastforce
    let ?S = "{i \<in> set (nodeIDs c2). \<not> isPartitioned c2 i \<and> i \<noteq> n}"
    have spec: "evolves c2 c3 \<and> (\<forall>j. j \<notin> set (nodeIDs c2) \<or> j = n \<longrightarrow> nodes c3 ! j = nodes c2 ! j) \<and>
      votes \<le> 1 + int (card (?S \<inter> voters n t c3))"
      by (rule collectVotes_spec[OF cv]) (auto simp: nodeIDs_def)
    have ev3: "evolves c c3" using ev2 spec by (blast intro: evolves_trans)
    have n3: "nodes c3 ! n = nodes c2 ! n" using spec by blast
    show thesis
    proof (cases "nd_role (nodes c3 ! n) = Candidate \<and> nd_term (nodes c3 ! n) = t \<and> votes \<ge> majority c3")
      case False
      then have "d = c3" by (simp only: d2 part cv if_False prod.case)
      with ev3 have "evolves c d" by simp
      then show thesis by (rule lost)
    next
      case True
      have nodes_d: "nodes d = (nodes c3)[n := (nodes c3 ! n)\<lparr>nd_role := Leader\<rparr>]"
        and frame: "partitioned d = partitioned c" "now d = now c"
        using True part cv ev3 by (simp_all add: d2 evolves_def)
      have votes_le: "votes \<le> 1 + int (card (?S \<inter> voters n t c3))" using spec by blast
      have maj_le: "majority c3 \<le> votes" using True by blast
      have part_c: "isPartitioned c2 i = isPartitioned c i" for i
        by (rule isPartitioned_evolves[OF ev2])
      have "n \<in> voters n t c3"
        using n3 n2 n ev3 by (simp add: voters_def evolves_def)
      then have sub: "insert n (?S \<inter> voters n t c3) \<subseteq> {i. \<not> isPartitioned c i} \<inter> voters n t c3"
        using part part_c by auto
      have "card (insert n (?S \<inter> voters n t c3)) = Suc (card (?S \<inter> voters n t c3))"
        by (intro card_insert_disjoint) auto
      then have "Suc (card (?S \<inter> voters n t c3)) \<le> card ({i. \<not> isPartitioned c i} \<inter> voters n t c3)"
        using card_mono[OF _ sub] by simp
      moreover have "majority c3 = majority c" using ev3 by (simp add: majority_def evolves_def)
      ultimately have "majority c \<le> int (card ({i. \<not> isPartitioned c i} \<inter> voters n t c3))"
        using votes_le maj_le by linarith
      moreover have "\<not> isPartitioned c n" using part part_c by simp
      moreover have "votedFor (nodes c3 ! n) = int n" using n3 n2 by simp
      ultimately show thesis using True ev3 nodes_d frame by (intro won[of c3 t]) auto
    qed
  qed
qed

subsection \<open>Quorums\<close>

text \<open>
  The invariant: each leader is still backed by a majority, where a node backs leader \<open>l\<close> of
  term \<open>t\<close> when it has voted for \<open>l\<close> in \<open>t\<close> or has left \<open>t\<close> for a later term; and no term has two
  leaders.
\<close>

definition backers :: "nat \<Rightarrow> int \<Rightarrow> Cluster \<Rightarrow> nat set" where
  "backers l t c = {i. i < length (nodes c) \<and>
     (nd_term (nodes c ! i) > t \<or> nd_term (nodes c ! i) = t \<and> votedFor (nodes c ! i) = int l)}"

definition isLeader :: "Cluster \<Rightarrow> nat \<Rightarrow> bool" where
  "isLeader c l \<longleftrightarrow> l < length (nodes c) \<and> nd_role (nodes c ! l) = Leader"

definition raft_inv :: "Cluster \<Rightarrow> bool" where
  "raft_inv c \<longleftrightarrow>
     (\<forall>l. isLeader c l \<longrightarrow> majority c \<le> int (card (backers l (nd_term (nodes c ! l)) c))) \<and>
     (\<forall>l m. isLeader c l \<longrightarrow> isLeader c m \<longrightarrow> nd_term (nodes c ! l) = nd_term (nodes c ! m) \<longrightarrow> l = m)"

lemma quorums_meet:
  assumes "A \<subseteq> {..< length (nodes c)}" and "B \<subseteq> {..< length (nodes c)}"
    and "majority c \<le> int (card A)" and "majority c \<le> int (card B)"
  shows "A \<inter> B \<noteq> {}"
proof
  assume "A \<inter> B = {}"
  moreover have "finite A" "finite B" using assms(1,2) finite_subset by auto
  ultimately have "card (A \<union> B) = card A + card B" by (simp add: card_Un_disjoint)
  moreover have "card (A \<union> B) \<le> length (nodes c)"
    using assms(1,2) card_mono[of "{..< length (nodes c)}" "A \<union> B"] by simp
  ultimately show False using assms(3,4) by (simp add: majority_def)
qed

lemma backers_evolves: "evolves c d \<Longrightarrow> backers l t c \<subseteq> backers l t d"
  by (auto simp: evolves_def backers_def later_def)

lemma raft_inv_evolves:
  assumes "raft_inv c" and ev: "evolves c d"
  shows "raft_inv d"
proof -
  have lead: "isLeader c l \<and> nd_term (nodes d ! l) = nd_term (nodes c ! l)" if "isLeader d l" for l
    using that ev by (auto simp: isLeader_def evolves_def keeps_role_def)
  have "card (backers l t c) \<le> card (backers l t d)" for l t
    by (rule card_mono[OF _ backers_evolves[OF ev]]) (simp add: backers_def)
  moreover have "majority d = majority c" using ev by (simp add: majority_def evolves_def)
  ultimately show ?thesis using assms(1) lead unfolding raft_inv_def
    by (metis of_nat_mono order_trans)
qed

lemma raft_inv_startElection:
  assumes inv: "raft_inv c" and n: "n < length (nodes c)"
  shows "raft_inv (startElection n c)"
proof (cases rule: startElection_spec[OF n refl])
  case 1
  with inv show ?thesis by (rule raft_inv_evolves)
next
  case won: (2 c3 t)
  let ?d = "startElection n c"
  have inv3: "raft_inv c3" using inv won(1) by (rule raft_inv_evolves)
  have len: "length (nodes c3) = length (nodes c)" using won(1) by (simp add: evolves_def)
  have maj: "majority c3 = majority c" "majority ?d = majority c"
    using won(3) len by (simp_all add: majority_def)
  have same: "nd_term (nodes ?d ! i) = nd_term (nodes c3 ! i) \<and> votedFor (nodes ?d ! i) = votedFor (nodes c3 ! i)"
    if "i < length (nodes c)" for i using won(3) len that by (simp add: nth_upd)
  have backers: "backers l u ?d = backers l u c3" for l u
    using won(3) len same by (auto simp: backers_def)
  have lead: "isLeader ?d l \<longleftrightarrow> isLeader c3 l \<or> l = n" for l
    using won(3) len n by (auto simp: isLeader_def nth_upd)
  have quorum: "majority c \<le> int (card (voters n t c3))"
    using won(8) card_mono[of "voters n t c3" "{i. \<not> isPartitioned c i} \<inter> voters n t c3"] by simp
  have vb: "voters n t c3 \<subseteq> backers n t c3" by (auto simp: voters_def backers_def)
  have own: "majority c \<le> int (card (backers n t c3))"
    using quorum card_mono[OF _ vb] by (simp add: backers_def)
  have uniq: "l = n" if l: "isLeader c3 l" "nd_term (nodes c3 ! l) = t" for l
  proof -
    have "majority c3 \<le> int (card (backers l t c3))" using inv3 l by (auto simp: raft_inv_def)
    then have "backers l t c3 \<inter> voters n t c3 \<noteq> {}"
      using quorum maj by (intro quorums_meet[of _ c3]) (auto simp: backers_def voters_def)
    then show ?thesis by (auto simp: backers_def voters_def)
  qed
  show ?thesis unfolding raft_inv_def
  proof (intro conjI allI impI)
    fix l assume "isLeader ?d l"
    then show "majority ?d \<le> int (card (backers l (nd_term (nodes ?d ! l)) ?d))"
      using lead inv3 own maj backers same won(6) n len
      by (auto simp: raft_inv_def isLeader_def)
  next
    fix l m assume "isLeader ?d l" "isLeader ?d m" "nd_term (nodes ?d ! l) = nd_term (nodes ?d ! m)"
    then show "l = m"
      using lead inv3 uniq same won(6) n len by (auto simp: raft_inv_def isLeader_def)
  qed
qed

subsection \<open>One step of the simulation\<close>

text \<open>\<open>advances c d\<close>: what every operation guarantees of the nodes, election or not; \<open>connected\<close>
  are the nodes that can exchange messages.\<close>

definition connected :: "Cluster \<Rightarrow> nat set" where
  "connected c = {i. i < length (nodes c) \<and> \<not> isPartitioned c i}"

definition advances :: "Cluster \<Rightarrow> Cluster \<Rightarrow> bool" where
  "advances c d \<longleftrightarrow> length (nodes d) = length (nodes c) \<and> partitioned d = partitioned c \<and>
     (\<forall>i < length (nodes c). later (nodes c ! i) (nodes d ! i)) \<and>
     (\<forall>l. isLeader d l \<longrightarrow> isLeader c l \<or>
        \<not> isPartitioned c l \<and> majority c \<le> int (card (connected c))) \<and>
     (raft_inv c \<longrightarrow> raft_inv d)"

lemma advances_refl [simp]: "advances c c"
  by (simp add: advances_def)

lemma advances_trans:
  assumes "advances c d" and "advances d e"
  shows "advances c e"
proof -
  have eqs: "connected d = connected c" "majority d = majority c" "isPartitioned d = isPartitioned c"
    using assms(1) by (auto simp: advances_def connected_def majority_def isPartitioned_def fun_eq_iff)
  have "later (nodes c ! i) (nodes e ! i)" if "i < length (nodes c)" for i
    using assms that unfolding advances_def by (auto intro: later_trans)
  moreover have "isLeader c l \<or> \<not> isPartitioned c l \<and> majority c \<le> int (card (connected c))"
    if "isLeader e l" for l
    using assms that eqs unfolding advances_def by auto
  ultimately show ?thesis using assms unfolding advances_def by auto
qed

lemma evolves_advances: "evolves c d \<Longrightarrow> advances c d"
  using raft_inv_evolves
  by (auto simp: advances_def evolves_def isLeader_def keeps_role_def)

lemma startElection_advances:
  assumes n: "n < length (nodes c)"
  shows "advances c (startElection n c)"
proof (cases rule: startElection_spec[OF n refl])
  case 1
  then show ?thesis by (rule evolves_advances)
next
  case won: (2 c3 t)
  let ?d = "startElection n c"
  have len: "length (nodes c3) = length (nodes c)" using won(1) by (simp add: evolves_def)
  have "later (nodes c ! i) (nodes ?d ! i)" if "i < length (nodes c)" for i
    using won(1,3) that len by (auto simp: evolves_def nth_upd later_def)
  moreover have "isLeader c l \<or> \<not> isPartitioned c l \<and> majority c \<le> int (card (connected c))"
    if "isLeader ?d l" for l
  proof (cases "l = n")
    case True
    have "{i. \<not> isPartitioned c i} \<inter> voters n t c3 \<subseteq> connected c"
      using len by (auto simp: voters_def connected_def)
    then have "card ({i. \<not> isPartitioned c i} \<inter> voters n t c3) \<le> card (connected c)"
      by (rule card_mono[rotated]) (simp add: connected_def)
    with True won show ?thesis by simp
  next
    case False
    with that won(1,3) len show ?thesis
      by (auto simp: isLeader_def evolves_def keeps_role_def)
  qed
  ultimately show ?thesis
    using won(3,4) len raft_inv_startElection[OF _ n] by (auto simp: advances_def)
qed

lemma heartbeatPhase_evolves: "i < length (nodes c) \<Longrightarrow> evolves c (heartbeatPhase i c)"
  unfolding heartbeatPhase_def sendHeartbeats_def
  by (auto intro: heartbeatLoop_evolves simp: nodeIDs_def)

lemma electionPhase_advances: "i < length (nodes c) \<Longrightarrow> advances c (electionPhase i c)"
  by (simp add: electionPhase_def startElection_advances)

lemma fold_advances:
  assumes "\<And>i d. i \<in> set ids \<Longrightarrow> length (nodes d) = length (nodes c) \<Longrightarrow> advances d (f i d)"
  shows "advances c (fold f ids c)"
  using assms
proof (induction ids arbitrary: c)
  case (Cons i ids)
  have step: "advances c (f i c)" using Cons.prems by simp
  then have "length (nodes (f i c)) = length (nodes c)" by (simp add: advances_def)
  with Cons have "advances (f i c) (fold f ids (f i c))" by simp
  with step show ?case by (auto intro: advances_trans)
qed simp

lemma Step_advances: "advances c (Step c)"
proof -
  let ?c1 = "c\<lparr>now := now c + tick c\<rparr>"
  let ?ids = "nodeIDs ?c1"
  have c1: "advances c ?c1"
    by (auto simp: advances_def isLeader_def raft_inv_def backers_def majority_def)
  have hb: "advances ?c1 (fold heartbeatPhase ?ids ?c1)"
    by (rule fold_advances) (simp add: nodeIDs_def evolves_advances heartbeatPhase_evolves)
  have "advances (fold heartbeatPhase ?ids ?c1) (fold electionPhase ?ids (fold heartbeatPhase ?ids ?c1))"
    by (rule fold_advances) (use hb in \<open>auto simp: nodeIDs_def advances_def[of ?c1] intro: electionPhase_advances\<close>)
  with c1 hb show ?thesis unfolding Step_def Let_def by (blast intro: advances_trans)
qed

lemma raft_inv_frame: "nodes d = nodes c \<Longrightarrow> raft_inv c \<Longrightarrow> raft_inv d"
  by (simp add: raft_inv_def isLeader_def backers_def majority_def)

lemma raft_inv_step: "raft_inv c \<Longrightarrow> raft_step c d \<Longrightarrow> raft_inv d"
  by (erule raft_step.cases)
    (use Step_advances in \<open>auto simp: advances_def Partition_def Heal_def intro: raft_inv_frame[of _ c]\<close>)

lemma newNodes_followers:
  "\<forall>v \<in> set (nodes c). nd_role v \<noteq> Leader \<Longrightarrow> \<forall>v \<in> set (nodes (newNodes k c)). nd_role v \<noteq> Leader"
proof (induction k arbitrary: c)
  case (Suc k)
  show ?case unfolding newNodes.simps Let_def
    by (rule Suc.IH) (use Suc.prems in \<open>auto simp: resetElectionTimer_def Let_def list_update_append\<close>)
qed simp

lemma raft_inv_init: "raft_init sz seed c \<Longrightarrow> raft_inv c"
proof -
  assume "raft_init sz seed c"
  then have "\<forall>v \<in> set (nodes c). nd_role v \<noteq> Leader"
    unfolding raft_init_def NewCluster_def by (elim ssubst) (rule newNodes_followers, simp)
  then show "raft_inv c" by (auto simp: raft_inv_def isLeader_def)
qed

interpretation raft: step_system "raft_init sz seed" raft_step raft_inv
  by unfold_locales (auto intro: raft_inv_init raft_inv_step)

subsection \<open>Election safety and its companions\<close>

text \<open>C1: no execution of the simulation, whatever the timeouts drawn and whatever partitions are
  made and healed, ever has two leaders in one term.\<close>

theorem raft_election_safety:
  assumes "reach (raft_init sz seed) raft_step c"
  shows "length (LeadersByTerm c t) \<le> 1"
proof -
  have inv: "raft_inv c" using assms by (rule raft.reachable_inv)
  show ?thesis
  proof (rule distinct_all_equal)
    show "distinct (LeadersByTerm c t)" by (simp add: LeadersByTerm_def nodeIDs_def)
    show "l = m" if "l \<in> set (LeadersByTerm c t)" "m \<in> set (LeadersByTerm c t)" for l m
      using that inv by (auto simp: LeadersByTerm_def nodeIDs_def raft_inv_def isLeader_def)
  qed
qed

text \<open>The term of a node never decreases, and within a term a node that has voted keeps its vote:
  over any run it votes for at most one candidate per term.\<close>

theorem raft_terms_and_votes:
  assumes "raft_step\<^sup>*\<^sup>* c d" and "i < length (nodes c)"
  shows "nd_term (nodes c ! i) \<le> nd_term (nodes d ! i) \<and>
    (nd_term (nodes c ! i) = nd_term (nodes d ! i) \<longrightarrow> votedFor (nodes c ! i) \<noteq> -1 \<longrightarrow>
       votedFor (nodes d ! i) = votedFor (nodes c ! i))"
proof -
  have "length (nodes d) = length (nodes c) \<and> later (nodes c ! i) (nodes d ! i)"
    using assms(1)
  proof (induction rule: rtranclp_induct)
    case (step d e)
    have "length (nodes e) = length (nodes d) \<and> (\<forall>i < length (nodes d). later (nodes d ! i) (nodes e ! i))"
      using step(2) Step_advances[of d] by cases (auto simp: advances_def Partition_def Heal_def)
    with step(3) assms(2) show ?case by (auto intro: later_trans)
  qed simp
  then show ?thesis by (auto simp: later_def)
qed

text \<open>A side of a partition that is no majority elects nobody, and a node that is cut off never
  becomes leader: whoever leads after any number of steps led before them, or can exchange messages
  with a majority of the nodes.\<close>

theorem raft_minority_elects_nobody:
  assumes "i \<in> set (Leaders ((Step ^^ k) c))"
  shows "i \<in> set (Leaders c) \<or> \<not> isPartitioned c i \<and> majority c \<le> int (card (connected c))"
proof -
  have "advances c ((Step ^^ k) c)"
  proof (induction k)
    case (Suc k)
    then show ?case using Step_advances[of "(Step ^^ k) c"] by (auto intro: advances_trans)
  qed simp
  moreover have "isLeader ((Step ^^ k) c) i"
    using assms by (simp add: Leaders_def nodeIDs_def isLeader_def)
  ultimately show ?thesis
    by (auto simp: advances_def Leaders_def nodeIDs_def isLeader_def)
qed

subsection \<open>A connected leader stays\<close>

definition timing :: "Cluster \<Rightarrow> (nat \<Rightarrow> int \<Rightarrow> int) \<times> int \<times> int \<times> int" where
  "timing c = (rng c, minTimeout c, maxTimeout c, tick c)"

definition timing_ok :: "Cluster \<Rightarrow> bool" where
  "timing_ok c \<longleftrightarrow> 0 < minTimeout c \<and> (\<forall>k. 0 \<le> rng c k (maxTimeout c - minTimeout c))"

lemma timing_basic [simp]:
  "timing (upd_node i f c) = timing c" "timing (logf e c) = timing c"
  "timing (resetElectionTimer i c) = timing c"
  by (simp_all add: timing_def upd_node_def logf_def resetElectionTimer_def Let_def)

lemma timing_requestVote [simp]: "timing (snd (requestVote i t n c)) = timing c"
  by (simp add: requestVote_def Let_def)

lemma timing_collectVotes [simp]: "timing (snd (collectVotes n t ids votes c)) = timing c"
proof (induction n t ids votes c rule: collectVotes.induct)
  case (2 n t i ids votes c)
  obtain g c1 where rv: "requestVote i t n c = (g, c1)" by fastforce
  have "timing c1 = timing c" using timing_requestVote[of i t n c] rv by simp
  with 2 rv show ?case by auto
qed simp

lemma timing_startElection [simp]: "timing (startElection n c) = timing c"
  by (simp add: startElection_def Let_def case_prod_unfold)

lemma timing_heartbeatLoop [simp]: "timing (heartbeatLoop l t ids c) = timing c"
  by (induction l t ids c rule: heartbeatLoop.induct) (simp_all add: Let_def)

lemma timing_phases [simp]:
  "timing (heartbeatPhase i c) = timing c" "timing (electionPhase i c) = timing c"
  by (simp_all add: heartbeatPhase_def sendHeartbeats_def electionPhase_def)

lemma timing_fold: "(\<And>i d. timing (f i d) = timing d) \<Longrightarrow> timing (fold f ids c) = timing c"
  by (induction ids arbitrary: c) auto

lemma timing_Step [simp]: "timing (Step c) = timing c"
proof -
  have "timing (c\<lparr>now := now c + tick c\<rparr>) = timing c" by (simp add: timing_def)
  then show ?thesis by (simp add: Step_def Let_def timing_fold)
qed

lemma timing_ok_cong: "timing c = timing d \<Longrightarrow> timing_ok c = timing_ok d"
  by (simp add: timing_def timing_ok_def)

text \<open>\<open>rules l c\<close>: \<open>l\<close> leads with the highest term; \<open>quiet l c i\<close>: node \<open>i\<close> follows \<open>l\<close> and its timer
  runs.\<close>

definition rules :: "nat \<Rightarrow> Cluster \<Rightarrow> bool" where
  "rules l c \<longleftrightarrow> isLeader c l \<and> partitioned c = [] \<and>
     (\<forall>i < length (nodes c). nd_term (nodes c ! i) \<le> nd_term (nodes c ! l))"

definition quiet :: "nat \<Rightarrow> Cluster \<Rightarrow> nat \<Rightarrow> bool" where
  "quiet l c i \<longleftrightarrow> nd_role (nodes c ! i) = Follower \<and> nd_term (nodes c ! i) = nd_term (nodes c ! l) \<and>
     now c < electionDeadline (nodes c ! i)"

lemma resetElectionTimer_deadline:
  "i < length (nodes c) \<Longrightarrow> timing_ok c \<Longrightarrow>
   now c < electionDeadline (nodes (resetElectionTimer i c) ! i)"
  by (simp add: resetElectionTimer_def Let_def timing_ok_def) (smt (verit))

lemma heartbeat_stale:
  assumes "rules l c" and "j \<noteq> l" and "j < length (nodes c)" and "t < nd_term (nodes c ! l)"
    and "set ids \<subseteq> {..< length (nodes c)}"
  shows "rules l (heartbeatLoop j t ids c) \<and> nodes (heartbeatLoop j t ids c) ! l = nodes c ! l"
  using assms
proof (induction j t ids c rule: heartbeatLoop.induct)
  case (2 j t i ids c)
  show ?case
  proof (cases "i = j \<or> isPartitioned c i")
    case True
    with 2 show ?thesis by auto
  next
    case False
    show ?thesis
    proof (cases "t \<ge> nd_term (nodes c ! i)")
      case True
      define c1 where "c1 = (if t > nd_term (nodes c ! i)
                  then upd_node i (\<lambda>f. f\<lparr>nd_term := t, votedFor := -1\<rparr>) c else c)"
      define c2 where "c2 = resetElectionTimer i (upd_node i (\<lambda>f. f\<lparr>nd_role := Follower\<rparr>) c1)"
      have ne: "i \<noteq> l" using True "2.prems"(4) by auto
      have l: "nodes c2 ! l = nodes c ! l" using ne by (simp add: c2_def c1_def)
      have len: "length (nodes c2) = length (nodes c)" by (simp add: c2_def c1_def)
      have "nd_term (nodes c2 ! k) \<le> nd_term (nodes c ! l)" if "k < length (nodes c)" for k
        using "2.prems" that True by (auto simp: c2_def c1_def nth_upd rules_def)
      with "2.prems"(1) l len have "rules l c2"
        by (auto simp: rules_def isLeader_def) (simp_all add: c2_def c1_def)
      with "2.IH"(2)[OF False True c1_def c2_def] "2.prems" l len False True show ?thesis
        by (simp add: c1_def[symmetric] c2_def[symmetric] Let_def)
    next
      case le: False
      define c1 where "c1 = (if nd_term (nodes c ! i) > nd_term (nodes c ! j)
        then logf (StepsDown j (nd_term (nodes c ! i))) (upd_node j (\<lambda>f. f\<lparr>nd_term := nd_term (nodes c ! i),
               nd_role := Follower, votedFor := -1\<rparr>) c)
        else c)"
      have l: "nodes c1 ! l = nodes c ! l" using "2.prems"(2) by (simp add: c1_def)
      have len: "length (nodes c1) = length (nodes c)" by (simp add: c1_def)
      have "nd_term (nodes c1 ! k) \<le> nd_term (nodes c ! l)" if "k < length (nodes c)" for k
        using "2.prems" that by (auto simp: c1_def nth_upd rules_def)
      with "2.prems"(1) l len have "rules l c1"
        by (auto simp: rules_def isLeader_def) (simp add: c1_def)
      with "2.IH"(3)[OF False le refl c1_def] "2.prems" l len False le show ?thesis
        by (simp add: c1_def[symmetric] Let_def)
    qed
  qed
qed simp

lemma heartbeat_leader:
  assumes "rules l c" and "timing_ok c" and "set ids \<subseteq> {..< length (nodes c)}"
  shows "rules l (heartbeatLoop l (nd_term (nodes c ! l)) ids c) \<and>
    (\<forall>i < length (nodes c). i \<noteq> l \<longrightarrow> i \<in> set ids \<or> quiet l c i \<longrightarrow>
       quiet l (heartbeatLoop l (nd_term (nodes c ! l)) ids c) i)"
  using assms
proof (induction ids arbitrary: c)
  case (Cons i ids)
  have part: "\<not> isPartitioned c i" using Cons.prems by (simp add: rules_def isPartitioned_def)
  show ?case
  proof (cases "i = l")
    case True
    with Cons show ?thesis by auto
  next
    case False
    let ?t = "nd_term (nodes c ! l)"
    have ge: "?t \<ge> nd_term (nodes c ! i)" using Cons.prems by (simp add: rules_def)
    define c1 where "c1 = (if ?t > nd_term (nodes c ! i)
                  then upd_node i (\<lambda>f. f\<lparr>nd_term := ?t, votedFor := -1\<rparr>) c else c)"
    define c2 where "c2 = resetElectionTimer i (upd_node i (\<lambda>f. f\<lparr>nd_role := Follower\<rparr>) c1)"
    have l: "nodes c2 ! l = nodes c ! l" using False by (simp add: c2_def c1_def)
    have len: "length (nodes c2) = length (nodes c)" by (simp add: c2_def c1_def)
    have tm: "timing c2 = timing c" by (simp add: c2_def c1_def)
    have i: "i < length (nodes c)" using Cons.prems by simp
    have other: "nodes c2 ! k = nodes c ! k" if "k \<noteq> i" for k using that by (simp add: c2_def c1_def)
    have nw: "now c2 = now c" by (simp add: c2_def c1_def)
    have "nd_role (nodes c2 ! i) = Follower" "nd_term (nodes c2 ! i) = ?t"
      using i ge by (auto simp: c2_def c1_def nth_upd)
    moreover have "now c2 < electionDeadline (nodes c2 ! i)"
      unfolding c2_def
      by (subst resetElectionTimer_simps(3), rule resetElectionTimer_deadline)
        (use i Cons.prems(2) in \<open>auto simp: c1_def intro: timing_ok_cong[THEN iffD1, rotated]\<close>)
    ultimately have qi: "quiet l c2 i" by (simp add: quiet_def l)
    have "nd_term (nodes c2 ! k) \<le> ?t" if "k < length (nodes c)" for k
      using Cons.prems(1) that other[of k] qi l by (cases "k = i") (auto simp: rules_def quiet_def)
    with Cons.prems(1) l len have "rules l c2"
      by (auto simp: rules_def isLeader_def) (simp_all add: c2_def c1_def)
    moreover have "timing_ok c2" using tm Cons.prems(2) timing_ok_cong by blast
    ultimately have IH: "rules l (heartbeatLoop l ?t ids c2) \<and>
      (\<forall>k < length (nodes c). k \<noteq> l \<longrightarrow> k \<in> set ids \<or> quiet l c2 k \<longrightarrow> quiet l (heartbeatLoop l ?t ids c2) k)"
      using Cons.IH[of c2] Cons.prems(3) l len by simp
    have "quiet l c2 k" if "quiet l c k" for k
      using that qi other[of k] l nw by (cases "k = i") (auto simp: quiet_def)
    moreover have "heartbeatLoop l ?t (i # ids) c = heartbeatLoop l ?t ids c2"
      using False part ge by (simp add: c2_def c1_def Let_def)
    ultimately show ?thesis using IH qi by auto
  qed
qed simp

lemma rules_phase_stale:
  assumes "rules l c" and "raft_inv c" and "j \<noteq> l" and "j < length (nodes c)"
  shows "rules l (heartbeatPhase j c) \<and> raft_inv (heartbeatPhase j c) \<and>
    length (nodes (heartbeatPhase j c)) = length (nodes c)"
proof -
  have "raft_inv (heartbeatPhase j c) \<and> length (nodes (heartbeatPhase j c)) = length (nodes c)"
    using heartbeatPhase_evolves[OF assms(4)] raft_inv_evolves[OF assms(2)] by (auto simp: evolves_def)
  moreover have "rules l (heartbeatPhase j c)"
  proof (cases "nd_role (nodes c ! j) = Leader")
    case True
    then have "nd_term (nodes c ! j) < nd_term (nodes c ! l)"
      using assms by (force simp: rules_def raft_inv_def isLeader_def less_le)
    then show ?thesis
      using heartbeat_stale[OF assms(1,3,4)] assms(1)
      by (simp add: heartbeatPhase_def sendHeartbeats_def nodeIDs_def subset_iff)
  qed (simp add: heartbeatPhase_def assms(1))
  ultimately show ?thesis by blast
qed

lemma rules_fold_stale:
  assumes "rules l c" and "raft_inv c" and "set ids \<subseteq> {..< length (nodes c)} - {l}"
  shows "rules l (fold heartbeatPhase ids c) \<and> raft_inv (fold heartbeatPhase ids c) \<and>
    length (nodes (fold heartbeatPhase ids c)) = length (nodes c)"
  using assms
proof (induction ids arbitrary: c)
  case (Cons j ids)
  then have "rules l (heartbeatPhase j c) \<and> raft_inv (heartbeatPhase j c) \<and>
    length (nodes (heartbeatPhase j c)) = length (nodes c)"
    by (intro rules_phase_stale) auto
  with Cons show ?case by simp
qed simp

lemma fold_noop: "(\<And>i. i \<in> set ids \<Longrightarrow> f i c = c) \<Longrightarrow> fold f ids c = c"
  by (induction ids) auto

definition settled :: "nat \<Rightarrow> Cluster \<Rightarrow> bool" where
  "settled l c \<longleftrightarrow> rules l c \<and> raft_inv c \<and> (\<forall>i < length (nodes c). i \<noteq> l \<longrightarrow> quiet l c i)"

lemma fold_heartbeat_evolves:
  "set ids \<subseteq> {..< length (nodes c)} \<Longrightarrow> evolves c (fold heartbeatPhase ids c)"
proof (induction ids arbitrary: c)
  case (Cons i ids)
  then have ev: "evolves c (heartbeatPhase i c)" by (simp add: heartbeatPhase_evolves)
  then have "length (nodes (heartbeatPhase i c)) = length (nodes c)" by (simp add: evolves_def)
  with Cons have "evolves (heartbeatPhase i c) (fold heartbeatPhase ids (heartbeatPhase i c))" by simp
  with ev show ?case by (auto intro: evolves_trans)
qed simp

lemma Step_settles:
  assumes "rules l c" and "raft_inv c" and "timing_ok c"
  shows "settled l (Step c) \<and> nd_term (nodes (Step c) ! l) = nd_term (nodes c ! l)"
proof -
  define c1 where "c1 = c\<lparr>now := now c + tick c\<rparr>"
  define n where "n = length (nodes c)"
  have n: "length (nodes c1) = n" "l < n"
    using assms(1) by (simp_all add: c1_def n_def rules_def isLeader_def)
  have ids: "nodeIDs c1 = [0..<l] @ l # [Suc l..<n]"
    unfolding nodeIDs_def n(1) using n(2) by (rule upt_split_at)
  have c1: "rules l c1" "raft_inv c1"
    using assms by (auto simp: c1_def rules_def isLeader_def intro: raft_inv_frame[of _ c])
  define c2 where "c2 = fold heartbeatPhase [0..<l] c1"
  have sub: "set [0..<l] \<subseteq> {..< length (nodes c1)} - {l}" using n by auto
  have c2: "rules l c2" "raft_inv c2" "length (nodes c2) = n"
    using rules_fold_stale[OF c1 sub] n by (auto simp: c2_def)
  have tm: "timing c2 = timing c"
    unfolding c2_def by (subst timing_fold) (simp_all add: c1_def, simp add: timing_def)
  have ok2: "timing_ok c2" using timing_ok_cong[OF tm] assms(3) by simp
  define c3 where "c3 = heartbeatPhase l c2"
  have lead2: "nd_role (nodes c2 ! l) = Leader" "\<not> isPartitioned c2 l"
    using c2(1) by (simp_all add: rules_def isLeader_def isPartitioned_def)
  then have c3_eq: "c3 = heartbeatLoop l (nd_term (nodes c2 ! l)) [0..<n] c2"
    by (simp add: c3_def heartbeatPhase_def sendHeartbeats_def nodeIDs_def c2(3))
  have sub3: "set [0..<n] \<subseteq> {..< length (nodes c2)}" using c2(3) by auto
  have c3: "rules l c3" "\<forall>i < n. i \<noteq> l \<longrightarrow> quiet l c3 i"
    using heartbeat_leader[OF c2(1) ok2 sub3] by (auto simp: c3_eq c2(3))
  have len3: "length (nodes c3) = n" and inv3: "raft_inv c3"
    using heartbeatPhase_evolves[of l c2] c2 n(2) raft_inv_evolves[OF c2(2)]
    by (auto simp: c3_def evolves_def)
  have "fold heartbeatPhase [Suc l..<n] c3 = c3"
    by (rule fold_noop) (use c3(2) in \<open>auto simp: heartbeatPhase_def quiet_def\<close>)
  then have hb: "fold heartbeatPhase (nodeIDs c1) c1 = c3"
    by (simp add: ids c2_def c3_def)
  have "fold electionPhase (nodeIDs c1) c3 = c3"
  proof (rule fold_noop)
    fix i assume "i \<in> set (nodeIDs c1)"
    then show "electionPhase i c3 = c3"
      using c3 n by (cases "i = l") (auto simp: electionPhase_def nodeIDs_def quiet_def rules_def isLeader_def)
  qed
  then have "Step c = c3" using hb by (simp add: Step_def Let_def c1_def)
  moreover have sub1: "set (nodeIDs c1) \<subseteq> {..< length (nodes c1)}" by (auto simp: nodeIDs_def)
  have "evolves c1 c3"
    using fold_heartbeat_evolves[OF sub1] hb by simp
  then have "nd_term (nodes c3 ! l) = nd_term (nodes c ! l)"
    using c3(1) n by (auto simp: evolves_def keeps_role_def rules_def isLeader_def c1_def)
  ultimately show ?thesis using c3 len3 inv3 by (simp add: settled_def)
qed

lemma settled_Leaders: "settled l c \<Longrightarrow> Leaders c = [l]"
proof -
  assume st: "settled l c"
  then have l: "l < length (nodes c)" "nd_role (nodes c ! l) = Leader"
    by (simp_all add: settled_def rules_def isLeader_def)
  have "Leaders c = filter (\<lambda>i. i = l) [0..<length (nodes c)]"
    unfolding Leaders_def nodeIDs_def using st l by (intro filter_cong) (auto simp: settled_def quiet_def)
  also have "[0..<length (nodes c)] = [0..<l] @ l # [Suc l..<length (nodes c)]"
    using l(1) by (rule upt_split_at)
  finally show ?thesis by simp
qed

text \<open>C3: heartbeats suppress elections: once a leader holds the highest term of a cluster without
  partitions, it is the only leader after every further step, and its term stays the term of
  the whole cluster, provided the generator keeps to its contract of non-negative draws.\<close>

theorem raft_leader_stable:
  assumes "reach (raft_init sz seed) raft_step c" and "\<forall>k. 0 \<le> seed k 150000000"
    and "partitioned c = []" and "l \<in> set (Leaders c)"
    and "\<forall>v \<in> set (nodes c). nd_term v \<le> nd_term (nodes c ! l)"
  shows "Leaders ((Step ^^ Suc k) c) = [l] \<and>
    (\<forall>v \<in> set (nodes ((Step ^^ Suc k) c)). nd_term v = nd_term (nodes c ! l))"
proof -
  have frame: "timing (newNodes j d) = timing d" for j d
    by (induction j arbitrary: d) (simp_all add: Let_def, simp add: timing_def)
  have "timing c = (seed, 150000000, 300000000, 10000000)"
    using assms(1)
  proof (induction rule: reach.induct)
    case (reach_init s)
    then show ?case by (simp add: raft_init_def NewCluster_def frame) (simp add: timing_def)
  next
    case (reach_step s t)
    from reach_step(2) have "timing t = timing s"
      by cases (simp_all add: Partition_def Heal_def, simp_all add: timing_def)
    with reach_step(3) show ?case by simp
  qed
  then have ok: "timing_ok d" if "timing d = timing c" for d
    using that assms(2) by (simp add: timing_def timing_ok_def)
  have rules: "rules l c"
    using assms(3,4,5) by (auto simp: rules_def Leaders_def nodeIDs_def isLeader_def)
  have inv: "raft_inv c" using assms(1) by (rule raft.reachable_inv)
  have tm: "timing ((Step ^^ k) c) = timing c" for k by (induction k) auto
  have "settled l ((Step ^^ Suc k) c) \<and> nd_term (nodes ((Step ^^ Suc k) c) ! l) = nd_term (nodes c ! l)" for k
  proof (induction k)
    case 0
    show ?case using Step_settles[OF rules inv ok] by simp
  next
    case (Suc k)
    show ?case using Step_settles[OF _ _ ok[OF tm], of l "Suc k"] Suc by (simp add: settled_def)
  qed
  then have st: "settled l ((Step ^^ Suc k) c)" and term_l: "nd_term (nodes ((Step ^^ Suc k) c) ! l) = nd_term (nodes c ! l)"
    by blast+
  have "nd_term v = nd_term (nodes c ! l)" if v: "v \<in> set (nodes ((Step ^^ Suc k) c))" for v
  proof -
    obtain i where i: "i < length (nodes ((Step ^^ Suc k) c))" "v = nodes ((Step ^^ Suc k) c) ! i"
      using v by (metis in_set_conv_nth)
    show ?thesis
    proof (cases "i = l")
      case False
      then have "quiet l ((Step ^^ Suc k) c) i" using st i by (simp add: settled_def)
      then show ?thesis using term_l i by (simp add: quiet_def)
    qed (use term_l i in simp)
  qed
  with settled_Leaders[OF st] show ?thesis by blast
qed

subsection \<open>A run of three nodes\<close>

text \<open>With timeouts of 150, 160 and 170 ms node \<open>0\<close> is elected at the fifteenth tick; the
  witnesses evaluate the theorems on this run.\<close>

lemma Step_idle:
  assumes "\<forall>v \<in> set (nodes c). nd_role v \<noteq> Leader \<and> now c + tick c < electionDeadline v"
  shows "Step c = c\<lparr>now := now c + tick c\<rparr>"
proof -
  let ?c1 = "c\<lparr>now := now c + tick c\<rparr>"
  have "fold heartbeatPhase (nodeIDs ?c1) ?c1 = ?c1"
    by (rule fold_noop) (use assms in \<open>auto simp: heartbeatPhase_def nodeIDs_def\<close>)
  moreover have "fold electionPhase (nodeIDs ?c1) ?c1 = ?c1"
    by (rule fold_noop) (use assms in \<open>auto simp: electionPhase_def nodeIDs_def\<close>)
  ultimately show ?thesis by (simp add: Step_def Let_def)
qed

lemma Steps_idle:
  assumes "\<forall>v \<in> set (nodes c). nd_role v \<noteq> Leader \<and> now c + int k * tick c < electionDeadline v" and "0 \<le> tick c"
  shows "(Step ^^ k) c = c\<lparr>now := now c + int k * tick c\<rparr>"
  using assms(1)
proof (induction k)
  case (Suc k)
  have le: "int k * tick c \<le> int (Suc k) * tick c" using assms(2) by (simp add: algebra_simps)
  have "(Step ^^ k) c = c\<lparr>now := now c + int k * tick c\<rparr>"
    by (rule Suc.IH) (use Suc.prems le in force)
  then show ?case using Suc.prems by (simp add: Step_idle algebra_simps)
qed simp

definition example_node :: "Role \<Rightarrow> int \<Rightarrow> int \<Rightarrow> gtime \<Rightarrow> nat list \<Rightarrow> Node" where
  "example_node r t v d vs = \<lparr>nd_role = r, nd_term = t, votedFor = v, electionDeadline = d, votesReceived = vs\<rparr>"

definition example_cluster :: "Node list \<Rightarrow> nat \<Rightarrow> gtime \<Rightarrow> (int \<times> raft_event) list \<Rightarrow> Cluster" where
  "example_cluster vs k t ls = \<lparr>nodes = vs, partitioned = [], rng = (\<lambda>k n. int k * 10000000), draws = k,
     now = t, log_lines = ls, minTimeout = 150 * 1000000, maxTimeout = 300 * 1000000, tick = 10 * 1000000\<rparr>"

lemma example_simps [simp]:
  "nd_role (example_node r t v d vs) = r" "nd_term (example_node r t v d vs) = t"
  "votedFor (example_node r t v d vs) = v" "electionDeadline (example_node r t v d vs) = d"
  "example_node r t v d vs\<lparr>nd_role := r2\<rparr> = example_node r2 t v d vs"
  "example_node r t v d vs\<lparr>nd_term := t2\<rparr> = example_node r t2 v d vs"
  "example_node r t v d vs\<lparr>votedFor := v2\<rparr> = example_node r t v2 d vs"
  "example_node r t v d vs\<lparr>electionDeadline := d2\<rparr> = example_node r t v d2 vs"
  "example_node r t v d vs\<lparr>votesReceived := us\<rparr> = example_node r t v d us"
  "nodes (example_cluster xs k s ls) = xs" "partitioned (example_cluster xs k s ls) = []"
  "now (example_cluster xs k s ls) = s" "tick (example_cluster xs k s ls) = 10000000"
  "example_cluster xs k s ls\<lparr>now := s2\<rparr> = example_cluster xs k s2 ls"
  "upd_node i f (example_cluster xs k s ls) = example_cluster (xs[i := f (xs ! i)]) k s ls"
  "logf e (example_cluster xs k s ls) = example_cluster xs k s (ls @ [(s div 1000000, e)])"
  "resetElectionTimer i (example_cluster xs k s ls) = example_cluster
     (xs[i := (xs ! i)\<lparr>electionDeadline := s + (150000000 + int k * 10000000)\<rparr>]) (Suc k) s ls"
  "nodeIDs (example_cluster xs k s ls) = [0..<length xs]"
  "majority (example_cluster xs k s ls) = int (length xs div 2 + 1)"
  "isPartitioned (example_cluster xs k s ls) i = False"
  by (simp_all add: example_node_def example_cluster_def upd_node_def logf_def resetElectionTimer_def
    nodeIDs_def majority_def isPartitioned_def)

definition raft_example :: Cluster where
  "raft_example = Step ((Step ^^ 14) (NewCluster 3 (\<lambda>k n. int k * 10000000)))"

abbreviation follower_at :: "gtime \<Rightarrow> Node" where
  "follower_at d \<equiv> example_node Follower 0 (-1) d []"

lemma NewCluster_example: "NewCluster 3 (\<lambda>k n. int k * 10000000) =
   example_cluster (map follower_at [150000000, 160000000, 170000000]) 3 0 []"
  by (simp add: NewCluster_def eval_nat_numeral resetElectionTimer_def upd_node_def Let_def example_cluster_def example_node_def)

lemma requestVote_example:
  "requestVote i t n (example_cluster vs k s ls) =
     (if t < nd_term (vs ! i) then (False, example_cluster vs k s ls) else
      let ws = (if t > nd_term (vs ! i) then vs[i := (vs ! i)\<lparr>nd_term := t, nd_role := Follower, votedFor := -1\<rparr>] else vs)
      in if votedFor (ws ! i) \<noteq> -1 \<and> votedFor (ws ! i) \<noteq> int n then (False, example_cluster ws k s ls)
         else (True, example_cluster (ws[i := (ws[i := (ws ! i)\<lparr>votedFor := int n\<rparr>] ! i)\<lparr>electionDeadline := s + (150000000 + int k * 10000000)\<rparr>]) (Suc k) s ls))"
  by (simp add: requestVote_def Let_def)

lemma startElection_example: "startElection 0 (example_cluster (map follower_at [150000000, 160000000, 170000000]) 3 150000000 []) =
   example_cluster [example_node Leader 1 0 330000000 [0], example_node Follower 1 0 340000000 [],
     example_node Follower 1 0 350000000 []] 6 150000000 [(150, StartsElection 0 1), (150, BecomesLeader 0 1 3 3)]"
  by (simp add: startElection_def upt_rec requestVote_example) (simp add: eval_nat_numeral)

lemma raft_example_eq: "raft_example =  example_cluster [example_node Leader 1 0 330000000 [0], example_node Follower 1 0 340000000 [],
     example_node Follower 1 0 350000000 []] 6 150000000 [(150, StartsElection 0 1), (150, BecomesLeader 0 1 3 3)]"
proof -
  have "raft_example = Step (example_cluster (map follower_at [150000000, 160000000, 170000000]) 3 140000000 [])"
    unfolding raft_example_def
    by (subst Steps_idle) (simp_all add: NewCluster_example)
  then show ?thesis
    by (simp add: Step_def upt_rec heartbeatPhase_def electionPhase_def startElection_example[simplified list.map])
qed

lemma raft_example_reach: "reach (raft_init 3 (\<lambda>k n. int k * 10000000)) raft_step raft_example"
proof -
  have "reach (raft_init 3 (\<lambda>k n. int k * 10000000)) raft_step ((Step ^^ k) (NewCluster 3 (\<lambda>k n. int k * 10000000)))" for k
    by (induction k) (auto intro: reach_init reach_step raft_step.intros simp: raft_init_def)
  then show ?thesis unfolding raft_example_def by (blast intro: reach_step raft_Step)
qed

theorem raft_election_safety_witness:
  "Leaders raft_example = [0] \<and> length (LeadersByTerm raft_example 1) \<le> 1"
  using raft_election_safety[OF raft_example_reach] by (simp add: Leaders_def raft_example_eq upt_rec)

theorem raft_terms_and_votes_witness:
  "votedFor (nodes raft_example ! 1) = 0 \<and> 1 \<le> nd_term (nodes (Step (Partition [0] raft_example)) ! 1)"
proof -
  have "raft_step\<^sup>*\<^sup>* raft_example (Step (Partition [0] raft_example))"
    by (meson raft_step.intros rtranclp.intros)
  then show ?thesis using raft_terms_and_votes[of raft_example _ 1] by (simp add: raft_example_eq)
qed

theorem raft_minority_elects_nobody_witness:
  "0 \<in> set (Leaders raft_example) \<and>
   (0 \<in> set (Leaders (NewCluster 3 (\<lambda>k n. int k * 10000000))) \<or>
    majority (NewCluster 3 (\<lambda>k n. int k * 10000000)) \<le> int (card (connected (NewCluster 3 (\<lambda>k n. int k * 10000000)))))"
proof -
  have mem: "0 \<in> set (Leaders raft_example)" by (simp add: Leaders_def raft_example_eq upt_rec)
  have "raft_example = (Step ^^ 15) (NewCluster 3 (\<lambda>k n. int k * 10000000))"
    by (simp add: raft_example_def funpow.simps(2)[symmetric, unfolded comp_def, THEN fun_cong] eval_nat_numeral)
  then have "0 \<in> set (Leaders ((Step ^^ 15) (NewCluster 3 (\<lambda>k n. int k * 10000000))))" using mem by simp
  from raft_minority_elects_nobody[OF this] mem show ?thesis by blast
qed

theorem raft_leader_stable_witness: "Leaders ((Step ^^ Suc 6) raft_example) = [0]"
proof -
  have "partitioned raft_example = []" "0 \<in> set (Leaders raft_example)"
    "\<forall>v \<in> set (nodes raft_example). nd_term v \<le> nd_term (nodes raft_example ! 0)"
    by (simp_all add: Leaders_def raft_example_eq upt_rec)
  from raft_leader_stable[OF raft_example_reach _ this, of 6] show ?thesis by simp
qed

end
