(* ===== verification/DLink.thy ===== *)
theory DLink
  imports Prelude "HOL-Library.Monad_Syntax" "HOL-Library.AList"
begin

text \<open>
  Doubly linked lists in a heap, the structure under both caches.  A Go pointer is an address or
  \<open>nil\<close> (\<open>None\<close>); a heap maps the addresses of one struct type to the values of its fields, and a
  struct with \<open>prev\<close> and \<open>next\<close> extends the record \<open>dlink\<close>.  Reading or writing a field through
  \<open>nil\<close> panics, which is the value \<open>None\<close> of the operation.  \<open>links h xs\<close> says that the cells of
  the list of addresses \<open>xs\<close> are joined in this order, in both directions.
\<close>

lemma update_new: "k \<notin> fst ` set al \<Longrightarrow> AList.update k v al = al @ [(k, v)]"
  by (induction al) auto

type_synonym ptr = "nat option"

record dlink =
  prev :: ptr
  "next" :: ptr

type_synonym 'a dheap = "nat \<Rightarrow> 'a dlink_scheme"

fun deref :: "ptr \<Rightarrow> 'a dheap \<Rightarrow> 'a dlink_scheme option" where
  "deref None h = None"
| "deref (Some a) h = Some (h a)"

fun modify :: "ptr \<Rightarrow> ('a dlink_scheme \<Rightarrow> 'a dlink_scheme) \<Rightarrow> 'a dheap \<Rightarrow> 'a dheap option" where
  "modify None f h = None"
| "modify (Some a) f h = Some (h(a := f (h a)))"

abbreviation set_next :: "ptr \<Rightarrow> ptr \<Rightarrow> 'a dheap \<Rightarrow> 'a dheap option" where
  "set_next p q h \<equiv> modify p (\<lambda>e. e\<lparr>next := q\<rparr>) h"

abbreviation set_prev :: "ptr \<Rightarrow> ptr \<Rightarrow> 'a dheap \<Rightarrow> 'a dheap option" where
  "set_prev p q h \<equiv> modify p (\<lambda>e. e\<lparr>prev := q\<rparr>) h"

fun links :: "'a dheap \<Rightarrow> nat list \<Rightarrow> bool" where
  "links h (a # b # xs) \<longleftrightarrow> next (h a) = Some b \<and> prev (h b) = Some a \<and> links h (b # xs)"
| "links h _ \<longleftrightarrow> True"

lemma links_append: "links h (xs @ y # ys) \<longleftrightarrow> links h (xs @ [y]) \<and> links h (y # ys)"
  by (induction h xs rule: links.induct; cases ys; auto)

lemma links_cong:
  "(\<And>a. a \<in> set (butlast xs) \<Longrightarrow> next (h' a) = next (h a)) \<Longrightarrow>
   (\<And>a. a \<in> set (tl xs) \<Longrightarrow> prev (h' a) = prev (h a)) \<Longrightarrow> links h' xs = links h xs"
proof (induction h xs rule: links.induct)
  case (1 h a b xs)
  from "1.IH" "1.prems" have "links h' (b # xs) = links h (b # xs)" by (cases xs) auto
  with "1.prems"(1)[of a] "1.prems"(2)[of b] show ?case by simp
qed auto

text \<open>Removing a cell and inserting one: what the pointer assignments of the caches amount to.\<close>

definition link_out :: "nat \<Rightarrow> nat \<Rightarrow> 'a dheap \<Rightarrow> 'a dheap" where
  "link_out p q h = (let h1 = h(p := (h p)\<lparr>next := Some q\<rparr>) in h1(q := (h1 q)\<lparr>prev := Some p\<rparr>))"

definition link_in :: "nat \<Rightarrow> nat \<Rightarrow> nat \<Rightarrow> 'a dheap \<Rightarrow> 'a dheap" where
  "link_in p x q h =
     (let h1 = h(x := (h x)\<lparr>next := Some q, prev := Some p\<rparr>);
          h2 = h1(q := (h1 q)\<lparr>prev := Some x\<rparr>)
      in h2(p := (h2 p)\<lparr>next := Some x\<rparr>))"

lemma link_out_simps [simp]:
  "next (link_out p q h a) = (if a = p then Some q else next (h a))"
  "prev (link_out p q h a) = (if a = q then Some p else prev (h a))"
  by (auto simp: link_out_def Let_def)

lemma link_in_simps [simp]:
  "x \<noteq> p \<Longrightarrow> x \<noteq> q \<Longrightarrow> next (link_in p x q h a) = (if a = p then Some x else if a = x then Some q else next (h a))"
  "x \<noteq> p \<Longrightarrow> x \<noteq> q \<Longrightarrow> prev (link_in p x q h a) = (if a = q then Some x else if a = x then Some p else prev (h a))"
  by (auto simp: link_in_def Let_def)

lemma links_out:
  assumes "links h (us @ p # x # q # vs)" and "distinct (us @ [p, x])" and "distinct (x # q # vs)"
    and "p \<notin> set (butlast (q # vs))" and "q \<notin> set (tl (us @ [p]))"
  shows "links (link_out p q h) (us @ p # q # vs)"
proof -
  have "links h (us @ [p])" "links h (q # vs)"
    using assms(1) links_append[of h us p "x # q # vs"] by simp_all
  moreover have "links (link_out p q h) (us @ [p]) = links h (us @ [p])"
    by (rule links_cong) (use assms in auto)
  moreover have "links (link_out p q h) (q # vs) = links h (q # vs)"
    by (rule links_cong) (use assms in auto)
  ultimately show ?thesis by (subst links_append) simp
qed

lemma links_in:
  assumes "links h (us @ p # q # vs)" and "x \<notin> set (us @ p # q # vs)"
    and "p \<notin> set us" and "q \<notin> set vs"
    and "p \<notin> set (butlast (q # vs))" and "q \<notin> set (tl (us @ [p]))"
  shows "links (link_in p x q h) (us @ p # x # q # vs)"
proof -
  have xn: "x \<noteq> p" "x \<noteq> q" using assms(2) by auto
  have "links h (us @ [p])" "links h (q # vs)"
    using assms(1) links_append[of h us p "q # vs"] by simp_all
  moreover have "links (link_in p x q h) (us @ [p]) = links h (us @ [p])"
  proof (rule links_cong)
    fix a assume "a \<in> set (tl (us @ [p]))"
    then have "a \<in> set (us @ [p])" "a \<noteq> q" using assms(6) by (auto dest: list.set_sel(2)[rotated])
    then show "prev (link_in p x q h a) = prev (h a)" using assms(2) xn by auto
  qed (use assms xn in auto)
  moreover have "links (link_in p x q h) (q # vs) = links h (q # vs)"
  proof (rule links_cong)
    fix a assume "a \<in> set (butlast (q # vs))"
    then have "a \<in> set (q # vs)" "a \<noteq> p" using assms(5) by (blast dest: in_set_butlastD)+
    then show "next (link_in p x q h a) = next (h a)" using assms(2) xn by auto
  qed (use assms xn in auto)
  ultimately show ?thesis using xn by (subst links_append) simp
qed

text \<open>A list between two sentinels, as both caches keep their entries.\<close>

definition lpath :: "'a dheap \<Rightarrow> nat \<Rightarrow> nat \<Rightarrow> nat list \<Rightarrow> bool" where
  "lpath h s0 t0 as \<longleftrightarrow> links h (s0 # as @ [t0]) \<and> distinct (s0 # as @ [t0])"

lemma links_neighbours:
  "links h (us @ p # x # q # vs) \<Longrightarrow> prev (h x) = Some p \<and> next (h x) = Some q"
  using links_append[of h us p "x # q # vs"] by simp

lemma lpath_out:
  assumes "lpath h s0 t0 (us @ x # vs)"
  obtains p q where "prev (h x) = Some p" and "next (h x) = Some q" and "x \<noteq> p" and "x \<noteq> q"
    and "lpath (link_out p q h) s0 t0 (us @ vs)" and "{p, q} \<subseteq> set (s0 # us @ vs @ [t0])"
proof -
  obtain us' p where us: "s0 # us = us' @ [p]" by (cases "s0 # us" rule: rev_cases) auto
  obtain q vs' where vs: "vs @ [t0] = q # vs'" by (cases "vs @ [t0]") auto
  have whole: "s0 # (us @ x # vs) @ [t0] = us' @ p # x # q # vs'"
    using us vs by (metis append_Cons append_assoc append_Nil)
  have l: "links h (us' @ p # x # q # vs')" and d: "distinct (us' @ p # x # q # vs')"
    using assms unfolding lpath_def whole by simp_all
  have r: "s0 # (us @ vs) @ [t0] = us' @ p # q # vs'"
    using us vs by (metis append_Cons append_assoc append_Nil)
  have "p \<notin> set (butlast (q # vs'))" "q \<notin> set (tl (us' @ [p]))"
    using d by (auto dest: in_set_butlastD list.set_sel(2)[rotated])
  then have "links (link_out p q h) (us' @ p # q # vs')"
    using d by (intro links_out[OF l]) auto
  then have "lpath (link_out p q h) s0 t0 (us @ vs)" using d unfolding lpath_def r by simp
  moreover have "{p, q} \<subseteq> set (s0 # us @ vs @ [t0])" using r by auto
  ultimately show thesis using that links_neighbours[OF l] d by auto
qed

lemma lpath_in:
  assumes "lpath h s0 t0 as" and "x \<notin> set (s0 # as @ [t0])"
  obtains q where "next (h s0) = Some q" and "q \<noteq> s0" and "q \<noteq> x" and "lpath (link_in s0 x q h) s0 t0 (x # as)"
    and "q \<in> set (as @ [t0])"
proof -
  obtain q vs where q: "as @ [t0] = q # vs" by (cases "as @ [t0]") auto
  have l: "links h ([] @ s0 # q # vs)" and d: "distinct (s0 # q # vs)" and x: "x \<notin> set (s0 # q # vs)"
    using assms q unfolding lpath_def by simp_all
  have "links (link_in s0 x q h) ([] @ s0 # x # q # vs)"
    by (rule links_in[OF l]) (use d x in \<open>auto dest: in_set_butlastD\<close>)
  then have "lpath (link_in s0 x q h) s0 t0 (x # as)"
    using q d x by (simp add: lpath_def)
  moreover have "q \<in> set (as @ [t0])" by (simp add: q)
  ultimately show thesis using that[of q] l d x by simp
qed

text \<open>A circular list around one sentinel, as the buckets of the LFU cache.\<close>

definition lcirc :: "'a dheap \<Rightarrow> nat \<Rightarrow> nat list \<Rightarrow> bool" where
  "lcirc h s as \<longleftrightarrow> links h (s # as @ [s]) \<and> distinct (s # as)"

lemma lcirc_first: "lcirc h s as \<Longrightarrow> next (h s) = Some (hd (as @ [s]))"
  by (cases as) (simp_all add: lcirc_def)

lemma lcirc_next: "lcirc h s (us @ x # vs) \<Longrightarrow> next (h x) = Some (hd (vs @ [s]))"
  using links_append[of h "s # us" x "vs @ [s]"] by (cases vs) (simp_all add: lcirc_def)

lemma lcirc_out:
  assumes "lcirc h s (us @ x # vs)"
  obtains p q where "prev (h x) = Some p" and "next (h x) = Some q" and "x \<noteq> p" and "x \<noteq> q"
    and "lcirc (link_out p q h) s (us @ vs)"
proof -
  obtain us' p where us: "s # us = us' @ [p]" by (cases "s # us" rule: rev_cases) auto
  obtain q vs' where vs: "vs @ [s] = q # vs'" by (cases "vs @ [s]") auto
  have whole: "s # (us @ x # vs) @ [s] = us' @ p # x # q # vs'"
    using us vs by (metis append_Cons append_assoc append_Nil)
  have l: "links h (us' @ p # x # q # vs')" using assms unfolding lcirc_def whole by simp
  have d: "distinct ((us' @ [p]) @ x # vs)" using assms unfolding lcirc_def us[symmetric] by simp
  have r: "s # (us @ vs) @ [s] = us' @ p # q # vs'"
    using us vs by (metis append_Cons append_assoc append_Nil)
  have vset: "set (butlast (q # vs')) = set vs" unfolding vs[symmetric] by simp
  have uset: "tl (us' @ [p]) = us" unfolding us[symmetric] by simp
  have qd: "distinct (x # q # vs')" using assms unfolding lcirc_def vs[symmetric] by auto
  have "q \<in> set (vs @ [s])" by (simp add: vs)
  then have "q \<notin> set us" using assms by (auto simp: lcirc_def)
  then have "links (link_out p q h) (us' @ p # q # vs')"
    using d by (intro links_out[OF l _ qd]) (auto simp: vset uset simp del: butlast.simps)
  then have "lcirc (link_out p q h) s (us @ vs)" using assms unfolding lcirc_def r by simp
  moreover have "x \<noteq> p" "x \<noteq> q" using d qd by auto
  ultimately show thesis using that links_neighbours[OF l] by blast
qed

text \<open>Insertion after the cell \<open>p\<close>, which is the sentinel or one of the cells.\<close>

lemma lcirc_in:
  assumes "lcirc h s (us @ vs)" and "x \<notin> set (s # us @ vs)" and p: "p = last (s # us)"
  obtains q where "next (h p) = Some q" and "q \<noteq> x" and "lcirc (link_in p x q h) s (us @ x # vs)"
proof -
  obtain us' where us: "s # us = us' @ [p]" using p by (metis append_butlast_last_id list.distinct(1))
  obtain q vs' where vs: "vs @ [s] = q # vs'" by (cases "vs @ [s]") auto
  have whole: "s # (us @ vs) @ [s] = us' @ p # q # vs'"
    using us vs by (metis append_Cons append_assoc append_Nil)
  have l: "links h (us' @ p # q # vs')" using assms(1) unfolding lcirc_def whole by simp
  have d: "distinct ((us' @ [p]) @ vs)" using assms(1) unfolding lcirc_def us[symmetric] by simp
  have r: "s # (us @ x # vs) @ [s] = us' @ p # x # q # vs'"
    using us vs by (metis append_Cons append_assoc append_Nil)
  have vset: "set (butlast (q # vs')) = set vs" unfolding vs[symmetric] by simp
  have uset: "tl (us' @ [p]) = us" unfolding us[symmetric] by simp
  have x: "x \<notin> set (us' @ p # q # vs')" using assms(2) unfolding whole[symmetric] by auto
  have "distinct (vs @ [s])" using assms(1) by (auto simp: lcirc_def)
  then have "q \<notin> set vs'" by (simp add: vs)
  moreover have "q \<in> set (vs @ [s])" by (simp add: vs)
  then have "q \<notin> set us" using assms(1) by (auto simp: lcirc_def)
  ultimately have "links (link_in p x q h) (us' @ p # x # q # vs')"
    using d x by (intro links_in[OF l]) (auto simp: vset uset simp del: butlast.simps)
  then have "lcirc (link_in p x q h) s (us @ x # vs)" using assms(1,2) unfolding lcirc_def r by auto
  moreover have "next (h p) = Some q" using links_append[of h us' p "q # vs'"] l by simp
  ultimately show thesis using that x by auto
qed

lemma link_more [simp]:
  "dlink.more (link_out p q h a) = dlink.more (h a)" "dlink.more (link_in p x q h a) = dlink.more (h a)"
  by (simp_all add: link_out_def link_in_def Let_def)

end
