(* ===== verification/CacheSpec.thy ===== *)
theory CacheSpec
  imports Prelude "HOL-Library.Monad_Syntax" "HOL-Library.AList"
begin

text \<open>
  What a client of a bounded cache relies on, stated once for the two caches of the repository:
  a hit returns the value stored last under its key, whatever was evicted in between, and the
  number of entries never exceeds the capacity.  An operation returns \<open>None\<close> where the Go code
  would panic.
\<close>

datatype cache_op = CGet string | CPut string string

type_synonym 's cget = "string \<Rightarrow> 's \<Rightarrow> ((string \<times> bool) \<times> 's) option"
type_synonym 's cput = "string \<Rightarrow> string \<Rightarrow> 's \<Rightarrow> 's option"

fun cache_run :: "'s cget \<Rightarrow> 's cput \<Rightarrow> cache_op list \<Rightarrow> 's \<Rightarrow> ((string \<times> bool) list \<times> 's) option" where
  "cache_run get put [] s = Some ([], s)"
| "cache_run get put (CGet k # ops) s =
     do { (r, s1) \<leftarrow> get k s; (rs, s2) \<leftarrow> cache_run get put ops s1; Some (r # rs, s2) }"
| "cache_run get put (CPut k v # ops) s = do { s1 \<leftarrow> put k v s; cache_run get put ops s1 }"

text \<open>\<open>answers_ok m ops rs\<close>: every answer is a miss or the last value put under the key, when
  \<open>m\<close> holds the values put before.\<close>

fun answers_ok :: "(string \<rightharpoonup> string) \<Rightarrow> cache_op list \<Rightarrow> (string \<times> bool) list \<Rightarrow> bool" where
  "answers_ok m (CGet k # ops) (r # rs) \<longleftrightarrow>
     (r = ('''', False) \<or> (\<exists>v. m k = Some v \<and> r = (v, True))) \<and> answers_ok m ops rs"
| "answers_ok m (CPut k v # ops) rs \<longleftrightarrow> answers_ok (m(k \<mapsto> v)) ops rs"
| "answers_ok m [] rs \<longleftrightarrow> rs = []"
| "answers_ok m (CGet k # ops) [] \<longleftrightarrow> False"

definition found :: "string option \<Rightarrow> string \<times> bool" where
  "found r = (case r of Some v \<Rightarrow> (v, True) | None \<Rightarrow> ('''', False))"

locale bounded_cache =
  fixes get :: "'s cget"
    and put :: "'s cput"
    and look :: "'s \<Rightarrow> string \<rightharpoonup> string"
    and inv :: "'s \<Rightarrow> bool"
    and cap :: "'s \<Rightarrow> int"
  assumes get_ok: "inv s \<Longrightarrow>
      \<exists>s'. get k s = Some (found (look s k), s') \<and> inv s' \<and> look s' = look s \<and> cap s' = cap s"
    and put_ok: "inv s \<Longrightarrow>
      \<exists>s'. put k v s = Some s' \<and> inv s' \<and> look s' k = Some v \<and>
        look s' \<subseteq>\<^sub>m (look s)(k \<mapsto> v) \<and> cap s' = cap s"
    and bounded: "inv s \<Longrightarrow> int (card (dom (look s))) \<le> cap s"
begin

lemma run_coherent:
  assumes "inv s" and "look s \<subseteq>\<^sub>m m"
  shows "\<exists>rs s'. cache_run get put ops s = Some (rs, s') \<and> answers_ok m ops rs \<and>
    inv s' \<and> cap s' = cap s"
  using assms
proof (induction ops arbitrary: s m)
  case (Cons op ops)
  show ?case
  proof (cases op)
    case (CGet k)
    obtain s1 where s1: "get k s = Some (found (look s k), s1)" "inv s1" "look s1 = look s" "cap s1 = cap s"
      using get_ok[OF Cons.prems(1)] by blast
    with Cons.IH[of s1 m] Cons.prems
    obtain rs s2 where "cache_run get put ops s1 = Some (rs, s2)" "answers_ok m ops rs" "inv s2" "cap s2 = cap s"
      by auto
    moreover have "found (look s k) = ('''', False) \<or> (\<exists>v. m k = Some v \<and> found (look s k) = (v, True))"
      using Cons.prems(2) by (auto simp: found_def map_le_def dom_def split: option.splits)
    ultimately show ?thesis using s1 CGet by simp
  next
    case (CPut k v)
    obtain s1 where s1: "put k v s = Some s1" "inv s1" "look s1 \<subseteq>\<^sub>m (look s)(k \<mapsto> v)" "cap s1 = cap s"
      using put_ok[OF Cons.prems(1)] by blast
    have "look s1 \<subseteq>\<^sub>m m(k \<mapsto> v)"
      using s1(3) Cons.prems(2) by (meson map_le_trans map_le_upd)
    with Cons.IH[of s1] s1 CPut show ?thesis by auto
  qed
qed simp

lemma run_bounded:
  assumes "inv s" and "look s \<subseteq>\<^sub>m m"
  shows "\<exists>rs s'. cache_run get put ops s = Some (rs, s') \<and> answers_ok m ops rs \<and>
    int (card (dom (look s'))) \<le> cap s"
  using run_coherent[OF assms] bounded by (metis (no_types))

end

text \<open>A cache that follows an abstract list: one step of the list for each operation.\<close>

locale cache_refinement =
  fixes get :: "'s cget"
    and put :: "'s cput"
    and aget :: "string \<Rightarrow> 'a \<Rightarrow> (string \<times> bool) \<times> 'a"
    and aput :: "string \<Rightarrow> string \<Rightarrow> 'a \<Rightarrow> 'a"
    and rel :: "'s \<Rightarrow> 'a \<Rightarrow> bool"
  assumes get_sim: "rel s x \<Longrightarrow> \<exists>s'. get k s = Some (fst (aget k x), s') \<and> rel s' (snd (aget k x))"
    and put_sim: "rel s x \<Longrightarrow> \<exists>s'. put k v s = Some s' \<and> rel s' (aput k v x)"
begin

lemma run_refines:
  assumes "rel s x"
  shows "\<exists>rs s' x'. cache_run get put ops s = Some (rs, s') \<and>
    cache_run (\<lambda>k x. Some (aget k x)) (\<lambda>k v x. Some (aput k v x)) ops x = Some (rs, x') \<and> rel s' x'"
  using assms
proof (induction ops arbitrary: s x)
  case (Cons op ops)
  show ?case
  proof (cases op)
    case (CGet k)
    obtain s1 where s1: "get k s = Some (fst (aget k x), s1)" "rel s1 (snd (aget k x))"
      using get_sim[OF Cons.prems] by blast
    then show ?thesis using Cons.IH[OF s1(2)] CGet by (cases "aget k x") auto
  next
    case (CPut k v)
    obtain s1 where s1: "put k v s = Some s1" "rel s1 (aput k v x)" using put_sim[OF Cons.prems] by blast
    then show ?thesis using Cons.IH[OF s1(2)] CPut by auto
  qed
qed simp

end

end
