(* ===== verification/LRU.thy ===== *)
theory LRU
  imports DLink CacheSpec
begin

text \<open>
  \<^verbatim>\<open>code/lru_cache/lru.go\<close>: a map from keys to entries and a doubly linked list of the entries,
  the most recently used first, between two sentinels.  \<open>lru_entries\<close> is the heap of entries and
  \<open>lru_fresh\<close> the next address \<open>&entry{...}\<close> returns; the Go map is an association list.
\<close>

record lru_entry = dlink +
  e_key :: string
  e_value :: string

record LRUCache =
  lru_capacity :: int
  lru_items :: "(string \<times> nat) list"
  lru_entries :: "nat \<Rightarrow> lru_entry"
  lru_fresh :: nat
  lru_head :: ptr
  lru_tail :: ptr
  lru_hits :: int
  lru_misses :: int

definition zero_entry :: lru_entry where
  "zero_entry = \<lparr>prev = None, next = None, e_key = '''', e_value = ''''\<rparr>"

definition NewLRUCache :: "int \<Rightarrow> LRUCache option" where
  "NewLRUCache cap =
     (if cap \<le> 0 then None
      else do {
        h1 \<leftarrow> set_next (Some 0) (Some 1) (\<lambda>_. zero_entry);
        h2 \<leftarrow> set_prev (Some 1) (Some 0) h1;
        Some \<lparr>lru_capacity = cap, lru_items = [], lru_entries = h2, lru_fresh = 2,
              lru_head = Some 0, lru_tail = Some 1, lru_hits = 0, lru_misses = 0\<rparr> })"

definition lru_unlink :: "ptr \<Rightarrow> LRUCache \<Rightarrow> LRUCache option" where
  "lru_unlink e c = do {
     x \<leftarrow> deref e (lru_entries c);
     h1 \<leftarrow> set_next (prev x) (next x) (lru_entries c);
     y \<leftarrow> deref e h1;
     h2 \<leftarrow> set_prev (next y) (prev y) h1;
     Some (c\<lparr>lru_entries := h2\<rparr>) }"

definition lru_pushFront :: "ptr \<Rightarrow> LRUCache \<Rightarrow> LRUCache option" where
  "lru_pushFront e c = do {
     hd1 \<leftarrow> deref (lru_head c) (lru_entries c);
     h1 \<leftarrow> set_next e (next hd1) (lru_entries c);
     h2 \<leftarrow> set_prev e (lru_head c) h1;
     hd2 \<leftarrow> deref (lru_head c) h2;
     h3 \<leftarrow> set_prev (next hd2) e h2;
     h4 \<leftarrow> set_next (lru_head c) e h3;
     Some (c\<lparr>lru_entries := h4\<rparr>) }"

definition lru_evict :: "LRUCache \<Rightarrow> LRUCache option" where
  "lru_evict c = do {
     t \<leftarrow> deref (lru_tail c) (lru_entries c);
     let lru = prev t;
     if lru = lru_head c then Some c
     else do {
       c1 \<leftarrow> lru_unlink lru c;
       e \<leftarrow> deref lru (lru_entries c1);
       Some (c1\<lparr>lru_items := AList.delete (e_key e) (lru_items c1)\<rparr>) } }"

definition LRU_Get :: "LRUCache cget" where
  "LRU_Get key c =
     (case map_of (lru_items c) key of
        None \<Rightarrow> Some (('''', False), c\<lparr>lru_misses := lru_misses c + 1\<rparr>)
      | Some e \<Rightarrow> do {
          c1 \<leftarrow> lru_unlink (Some e) (c\<lparr>lru_hits := lru_hits c + 1\<rparr>);
          c2 \<leftarrow> lru_pushFront (Some e) c1;
          Some ((e_value (lru_entries c2 e), True), c2) })"

definition LRU_Put :: "LRUCache cput" where
  "LRU_Put key val c =
     (case map_of (lru_items c) key of
        Some e \<Rightarrow> do {
          h \<leftarrow> modify (Some e) (\<lambda>x. x\<lparr>e_value := val\<rparr>) (lru_entries c);
          c1 \<leftarrow> lru_unlink (Some e) (c\<lparr>lru_entries := h\<rparr>);
          lru_pushFront (Some e) c1 }
      | None \<Rightarrow> do {
          c1 \<leftarrow> (if int (length (lru_items c)) \<ge> lru_capacity c then lru_evict c else Some c);
          let e = lru_fresh c1;
          lru_pushFront (Some e)
            (c1\<lparr>lru_entries := (lru_entries c1)(e := zero_entry\<lparr>e_key := key, e_value := val\<rparr>),
                lru_fresh := e + 1, lru_items := AList.update key e (lru_items c1)\<rparr>) })"

definition LRU_Len :: "LRUCache \<Rightarrow> int" where
  "LRU_Len c = int (length (lru_items c))"

definition HitRatio :: "LRUCache \<Rightarrow> rat" where
  "HitRatio c =
     (let total = lru_hits c + lru_misses c in if total = 0 then 0 else of_int (lru_hits c) / of_int total)"

partial_function (option) lru_walk :: "(nat \<Rightarrow> lru_entry) \<Rightarrow> ptr \<Rightarrow> ptr \<Rightarrow> string list option" where
  "lru_walk h e t =
     (if e = t then Some []
      else do { x \<leftarrow> deref e h; ks \<leftarrow> lru_walk h (next x) t; Some (e_key x # ks) })"

definition keysMRUFirst :: "LRUCache \<Rightarrow> string list option" where
  "keysMRUFirst c = do {
     x \<leftarrow> deref (lru_head c) (lru_entries c); lru_walk (lru_entries c) (next x) (lru_tail c) }"

subsection \<open>The list the pointers hold\<close>

abbreviation pair_at :: "(nat \<Rightarrow> lru_entry) \<Rightarrow> nat \<Rightarrow> string \<times> string" where
  "pair_at h a \<equiv> (e_key (h a), e_value (h a))"

text \<open>\<open>lru_rep c as\<close>: the entries at the addresses \<open>as\<close> are the cache, most recently used first.\<close>

definition lru_rep :: "LRUCache \<Rightarrow> nat list \<Rightarrow> bool" where
  "lru_rep c as \<longleftrightarrow> lru_head c = Some 0 \<and> lru_tail c = Some 1 \<and>
     lpath (lru_entries c) 0 1 as \<and> (\<forall>a \<in> {0, 1} \<union> set as. a < lru_fresh c) \<and>
     distinct (map fst (lru_items c)) \<and>
     set (lru_items c) = (\<lambda>a. (e_key (lru_entries c a), a)) ` set as \<and>
     0 < lru_capacity c \<and> int (length as) \<le> lru_capacity c"

definition lru_abs :: "(nat \<Rightarrow> lru_entry) \<Rightarrow> nat list \<Rightarrow> (string \<times> string) list" where
  "lru_abs h as = map (pair_at h) as"

lemma link_fields [simp]:
  "e_key (link_in p x q h a) = e_key (h a)" "e_value (link_in p x q h a) = e_value (h a)"
  "e_key (link_out p q h a) = e_key (h a)" "e_value (link_out p q h a) = e_value (h a)"
  by (simp_all add: link_in_def link_out_def Let_def)

lemma lru_items_iff: "lru_rep c as \<Longrightarrow>
   map_of (lru_items c) k = Some a \<longleftrightarrow> a \<in> set as \<and> e_key (lru_entries c a) = k"
  by (auto simp: lru_rep_def)

lemma lru_items_None: "lru_rep c as \<Longrightarrow>
   map_of (lru_items c) k = None \<longleftrightarrow> (\<forall>a \<in> set as. e_key (lru_entries c a) \<noteq> k)"
  unfolding lru_rep_def map_of_eq_None_iff image_image by (auto simp: image_iff)

lemma lru_keys_distinct:
  assumes "lru_rep c as"
  shows "inj_on (\<lambda>a. e_key (lru_entries c a)) (set as)"
    and "length (lru_items c) = length as"
proof -
  show inj: "inj_on (\<lambda>a. e_key (lru_entries c a)) (set as)"
  proof (rule inj_onI)
    fix a b assume "a \<in> set as" "b \<in> set as" "e_key (lru_entries c a) = e_key (lru_entries c b)"
    then have "map_of (lru_items c) (e_key (lru_entries c b)) = Some a"
      "map_of (lru_items c) (e_key (lru_entries c b)) = Some b"
      using lru_items_iff[OF assms] by auto
    then show "a = b" by simp
  qed
  have "length (lru_items c) = card (set (lru_items c))"
    using assms by (metis distinct_card distinct_map lru_rep_def)
  also have "\<dots> = card (set as)"
    using assms by (simp add: lru_rep_def card_image inj_on_def)
  also have "\<dots> = length as"
    using assms by (simp add: lru_rep_def lpath_def distinct_card)
  finally show "length (lru_items c) = length as" .
qed

lemma map_of_lru_abs:
  assumes "distinct as" and "inj_on (\<lambda>a. e_key (h a)) (set as)"
  shows "map_of (lru_abs h as) k = Some v \<longleftrightarrow> (\<exists>a \<in> set as. e_key (h a) = k \<and> e_value (h a) = v)"
proof -
  have "distinct (map fst (lru_abs h as))"
    using assms by (simp add: lru_abs_def distinct_map o_def inj_on_def)
  then show ?thesis by (auto simp: lru_abs_def)
qed

subsection \<open>The pointer operations on this list\<close>

lemma lru_unlink_eq:
  assumes "prev (lru_entries c e) = Some p" and "next (lru_entries c e) = Some q" and "e \<noteq> p" and "e \<noteq> q"
  shows "lru_unlink (Some e) c = Some (c\<lparr>lru_entries := link_out p q (lru_entries c)\<rparr>)"
  using assms by (simp add: lru_unlink_def link_out_def Let_def)

lemma lru_pushFront_eq:
  assumes "lru_head c = Some p" and "next (lru_entries c p) = Some q" and "e \<noteq> p" and "q \<noteq> p" and "q \<noteq> e"
  shows "lru_pushFront (Some e) c = Some (c\<lparr>lru_entries := link_in p e q (lru_entries c)\<rparr>)"
  using assms by (simp add: lru_pushFront_def link_in_def Let_def fun_upd_twist)

lemma lru_touch:
  assumes rep: "lru_rep c (us @ e # vs)"
  obtains h where "do { c1 \<leftarrow> lru_unlink (Some e) c; lru_pushFront (Some e) c1 } = Some (c\<lparr>lru_entries := h\<rparr>)"
    and "lru_rep (c\<lparr>lru_entries := h\<rparr>) (e # us @ vs)"
    and "\<And>a. pair_at h a = pair_at (lru_entries c) a"
proof -
  let ?h = "lru_entries c"
  have path: "lpath ?h 0 1 (us @ e # vs)" and hd: "lru_head c = Some 0" using rep by (simp_all add: lru_rep_def)
  obtain p q where pq: "prev (?h e) = Some p" "next (?h e) = Some q" "e \<noteq> p" "e \<noteq> q"
    "lpath (link_out p q ?h) 0 1 (us @ vs)" by (rule lpath_out[OF path])
  let ?h1 = "link_out p q ?h"
  have "e \<notin> set (0 # (us @ vs) @ [1])" using path by (auto simp: lpath_def)
  from lpath_in[OF pq(5) this] obtain r where r: "next (?h1 0) = Some r" "r \<noteq> 0" "r \<noteq> e"
    "lpath (link_in 0 e r ?h1) 0 1 (e # us @ vs)" by blast
  have e0: "e \<noteq> 0" using path by (auto simp: lpath_def)
  have "lru_pushFront (Some e) (c\<lparr>lru_entries := ?h1\<rparr>) = Some (c\<lparr>lru_entries := link_in 0 e r ?h1\<rparr>)"
    using lru_pushFront_eq[of "c\<lparr>lru_entries := ?h1\<rparr>" 0 r e] hd r(1-3) e0 by simp
  then have "do { c1 \<leftarrow> lru_unlink (Some e) c; lru_pushFront (Some e) c1 } = Some (c\<lparr>lru_entries := link_in 0 e r ?h1\<rparr>)"
    by (simp add: lru_unlink_eq[OF pq(1-4)])
  moreover have "lru_rep (c\<lparr>lru_entries := link_in 0 e r ?h1\<rparr>) (e # us @ vs)"
    using rep r(4) by (simp add: lru_rep_def)
  ultimately show thesis using that by simp
qed

lemma lru_insert:
  assumes rep: "lru_rep c as" and room: "int (length as) < lru_capacity c"
    and new: "\<And>a. a \<in> set as \<Longrightarrow> e_key (lru_entries c a) \<noteq> k"
  defines "e \<equiv> lru_fresh c"
  obtains d where "lru_pushFront (Some e) (c\<lparr>lru_entries := (lru_entries c)(e := zero_entry\<lparr>e_key := k, e_value := v\<rparr>),
      lru_fresh := e + 1, lru_items := AList.update k e (lru_items c)\<rparr>) = Some d"
    and "lru_rep d (e # as)" and "lru_capacity d = lru_capacity c"
    and "pair_at (lru_entries d) e = (k, v)" and "\<And>a. a \<in> set as \<Longrightarrow> pair_at (lru_entries d) a = pair_at (lru_entries c) a"
proof -
  let ?h = "(lru_entries c)(e := zero_entry\<lparr>e_key := k, e_value := v\<rparr>)"
  let ?c = "c\<lparr>lru_entries := ?h, lru_fresh := e + 1, lru_items := AList.update k e (lru_items c)\<rparr>"
  have e: "e \<notin> set (0 # as @ [1])" "e \<noteq> 0" using rep unfolding lru_rep_def e_def by fastforce+
  have below: "\<forall>a \<in> set as. a < e" "1 < e" using rep unfolding lru_rep_def e_def by simp_all
  have "links ?h (0 # as @ [1]) = links (lru_entries c) (0 # as @ [1])"
    by (rule links_cong) (use e in \<open>auto dest: in_set_butlastD\<close>)
  then have path: "lpath ?h 0 1 as" using rep by (simp add: lru_rep_def lpath_def)
  obtain q where q: "next (?h 0) = Some q" "q \<noteq> 0" "q \<noteq> e" "lpath (link_in 0 e q ?h) 0 1 (e # as)"
    using lpath_in[OF path e(1)] by blast
  have "lru_pushFront (Some e) ?c = Some (?c\<lparr>lru_entries := link_in 0 e q ?h\<rparr>)"
    using lru_pushFront_eq[of ?c 0 q e] q(1-3) e(2) rep by (simp add: lru_rep_def)
  moreover have "k \<notin> fst ` set (lru_items c)" using lru_items_None[OF rep] new by (simp add: map_of_eq_None_iff)
  then have "set (AList.update k e (lru_items c)) = insert (k, e) (set (lru_items c))"
    by (simp add: update_new)
  then have "lru_rep (?c\<lparr>lru_entries := link_in 0 e q ?h\<rparr>) (e # as)"
    using rep q(4) room e below by (auto simp: lru_rep_def distinct_update zero_entry_def less_Suc_eq)
  moreover have "pair_at (link_in 0 e q ?h) e = (k, v)"
    "\<And>a. a \<in> set as \<Longrightarrow> pair_at (link_in 0 e q ?h) a = pair_at (lru_entries c) a"
    using e by (auto simp: zero_entry_def)
  ultimately show thesis using that[of "?c\<lparr>lru_entries := link_in 0 e q ?h\<rparr>"] by simp
qed

lemma lru_evict_last:
  assumes rep: "lru_rep c (us @ [e])"
  obtains h where "lru_evict c = Some (c\<lparr>lru_entries := h, lru_items := AList.delete (e_key (h e)) (lru_items c)\<rparr>)"
    and "lru_rep (c\<lparr>lru_entries := h, lru_items := AList.delete (e_key (h e)) (lru_items c)\<rparr>) us"
    and "\<And>a. pair_at h a = pair_at (lru_entries c) a"
proof -
  let ?h = "lru_entries c"
  have path: "lpath ?h 0 1 (us @ e # [])" and ends: "lru_head c = Some 0" "lru_tail c = Some 1"
    using rep by (simp_all add: lru_rep_def)
  have last: "prev (?h 1) = Some e" "e \<noteq> 0"
    using path links_append[of ?h "0 # us" e "[1]"] by (auto simp: lpath_def)
  obtain p q where pq: "prev (?h e) = Some p" "next (?h e) = Some q" "e \<noteq> p" "e \<noteq> q"
    "lpath (link_out p q ?h) 0 1 (us @ [])" by (rule lpath_out[OF path])
  let ?k = "e_key (?h e)"
  have "lru_evict c = Some (c\<lparr>lru_entries := link_out p q ?h, lru_items := AList.delete ?k (lru_items c)\<rparr>)"
    using ends last by (simp add: lru_evict_def lru_unlink_eq[OF pq(1-4)])
  moreover have "lru_rep (c\<lparr>lru_entries := link_out p q ?h, lru_items := AList.delete ?k (lru_items c)\<rparr>) us"
  proof -
    have "\<forall>a \<in> set us. e_key (?h a) \<noteq> ?k"
      using inj_onD[OF lru_keys_distinct(1)[OF rep], of _ e] path by (auto simp: lpath_def)
    then have "set (AList.delete ?k (lru_items c)) = (\<lambda>a. (e_key (?h a), a)) ` set us"
      using rep by (auto simp: lru_rep_def AList.delete_eq)
    then show ?thesis using rep pq(5) by (auto simp: lru_rep_def distinct_delete)
  qed
  ultimately show thesis using that[of "link_out p q ?h"] by simp
qed

subsection \<open>The list specification\<close>

text \<open>The cache as a client sees it: key-value pairs, the most recently used first.\<close>

type_synonym mru = "(string \<times> string) list"

definition mru_get :: "string \<Rightarrow> mru \<Rightarrow> (string \<times> bool) \<times> mru" where
  "mru_get k xs = (case map_of xs k of
     None \<Rightarrow> (('''', False), xs) | Some v \<Rightarrow> ((v, True), (k, v) # AList.delete k xs))"

definition mru_put :: "int \<Rightarrow> string \<Rightarrow> string \<Rightarrow> mru \<Rightarrow> mru" where
  "mru_put cap k v xs =
     (if k \<in> fst ` set xs then (k, v) # AList.delete k xs
      else (k, v) # (if int (length xs) \<ge> cap then butlast xs else xs))"

definition lru_is :: "LRUCache \<Rightarrow> mru \<Rightarrow> bool" where
  "lru_is c xs \<longleftrightarrow> (\<exists>as. lru_rep c as \<and> xs = lru_abs (lru_entries c) as)"

lemma lru_abs_touch:
  assumes "lru_rep c (us @ e # vs)"
  shows "AList.delete (e_key (lru_entries c e)) (lru_abs (lru_entries c) (us @ e # vs)) =
    lru_abs (lru_entries c) (us @ vs)"
proof -
  have "\<forall>a \<in> set us \<union> set vs. e_key (lru_entries c e) \<noteq> e_key (lru_entries c a)"
    using inj_onD[OF lru_keys_distinct(1)[OF assms], of e] assms by (auto simp: lru_rep_def lpath_def)
  then have "filter (\<lambda>a. e_key (lru_entries c e) \<noteq> e_key (lru_entries c a)) us = us"
    "filter (\<lambda>a. e_key (lru_entries c e) \<noteq> e_key (lru_entries c a)) vs = vs"
    by (intro filter_True; auto)+
  then show ?thesis by (simp add: lru_abs_def AList.delete_eq filter_map o_def case_prod_beta')
qed

lemma lru_rep_distinct: "lru_rep c as \<Longrightarrow> distinct as"
  by (simp add: lru_rep_def lpath_def)

lemma lru_map_of: "lru_rep c as \<Longrightarrow> map_of (lru_abs (lru_entries c) as) k =
   map_option (\<lambda>a. e_value (lru_entries c a)) (map_of (lru_items c) k)"
proof (cases "map_of (lru_items c) k")
  case None
  moreover assume rep: "lru_rep c as"
  ultimately have "k \<notin> fst ` set (lru_abs (lru_entries c) as)"
    using lru_items_None[OF rep, of k] by (auto simp: lru_abs_def)
  then have "map_of (lru_abs (lru_entries c) as) k = None" by (simp only: map_of_eq_None_iff not_False_eq_True)
  then show ?thesis using None by simp
next
  case (Some a)
  moreover assume rep: "lru_rep c as"
  ultimately have "a \<in> set as \<and> e_key (lru_entries c a) = k" using lru_items_iff[OF rep] by simp
  then have "map_of (lru_abs (lru_entries c) as) k = Some (e_value (lru_entries c a))"
    using map_of_lru_abs[OF lru_rep_distinct[OF rep] lru_keys_distinct(1)[OF rep]] by blast
  then show ?thesis using Some by simp
qed

lemma LRU_Get_refines:
  assumes "lru_is c xs"
  shows "\<exists>c'. LRU_Get k c = Some (fst (mru_get k xs), c') \<and> lru_is c' (snd (mru_get k xs)) \<and>
    lru_capacity c' = lru_capacity c"
proof -
  from assms obtain as where rep: "lru_rep c as" and xs: "xs = lru_abs (lru_entries c) as"
    by (auto simp: lru_is_def)
  note lookup = lru_map_of[OF rep, of k]
  show ?thesis
  proof (cases "map_of (lru_items c) k")
    case None
    have "lru_rep (c\<lparr>lru_misses := lru_misses c + 1\<rparr>) as" using rep by (simp add: lru_rep_def)
    then show ?thesis using None lookup xs by (auto simp: LRU_Get_def mru_get_def lru_is_def)
  next
    case (Some e)
    let ?c = "c\<lparr>lru_hits := lru_hits c + 1\<rparr>"
    have key: "e \<in> set as" "e_key (lru_entries c e) = k" using Some lru_items_iff[OF rep] by auto
    then obtain us vs where as: "as = us @ e # vs" by (meson split_list)
    have "lru_rep ?c (us @ e # vs)" using rep as by (simp add: lru_rep_def)
    from lru_touch[OF this] obtain h where h: "do { c1 \<leftarrow> lru_unlink (Some e) ?c; lru_pushFront (Some e) c1 } = Some (?c\<lparr>lru_entries := h\<rparr>)"
      "lru_rep (?c\<lparr>lru_entries := h\<rparr>) (e # us @ vs)" "\<And>a. pair_at h a = pair_at (lru_entries c) a" by auto
    have "LRU_Get k c = Some ((e_value (lru_entries c e), True), ?c\<lparr>lru_entries := h\<rparr>)"
      using h(1,3) by (auto simp: LRU_Get_def Some split: Option.bind_splits)
    moreover have "snd (mru_get k xs) = lru_abs h (e # us @ vs)"
      using lookup Some lru_abs_touch[OF rep[unfolded as]] key h(3) xs as by (simp add: mru_get_def lru_abs_def)
    moreover have "fst (mru_get k xs) = (e_value (lru_entries c e), True)"
      using lookup Some xs by (simp add: mru_get_def)
    ultimately show ?thesis using h(2) by (force simp: lru_is_def)
  qed
qed

lemma lru_is_fresh_key:
  assumes "lru_rep c as" shows "k \<in> fst ` set (lru_abs (lru_entries c) as) \<longleftrightarrow> map_of (lru_items c) k \<noteq> None"
proof -
  have "fst ` set (lru_abs (lru_entries c) as) = (\<lambda>a. e_key (lru_entries c a)) ` set as"
    by (simp add: lru_abs_def image_image)
  then show ?thesis using lru_items_None[OF assms, of k] by auto
qed

lemma lru_rep_set_value:
  "lru_rep c as \<Longrightarrow> lru_rep (c\<lparr>lru_entries := (lru_entries c)(e := (lru_entries c e)\<lparr>e_value := v\<rparr>)\<rparr>) as"
proof -
  assume rep: "lru_rep c as"
  have "links ((lru_entries c)(e := (lru_entries c e)\<lparr>e_value := v\<rparr>)) (0 # as @ [1]) = links (lru_entries c) (0 # as @ [1])"
    by (rule links_cong) simp_all
  moreover have "e_key (((lru_entries c)(e := (lru_entries c e)\<lparr>e_value := v\<rparr>)) a) = e_key (lru_entries c a)" for a
    by simp
  ultimately show ?thesis using rep by (simp add: lru_rep_def lpath_def del: fun_upd_apply)
qed

lemma lru_put_present:
  assumes rep: "lru_rep c as" and hit: "map_of (lru_items c) k = Some e"
  shows "\<exists>c'. LRU_Put k v c = Some c' \<and> lru_is c' ((k, v) # AList.delete k (lru_abs (lru_entries c) as)) \<and>
    lru_capacity c' = lru_capacity c"
proof -
  have key: "e \<in> set as" "e_key (lru_entries c e) = k" using hit lru_items_iff[OF rep] by auto
  then obtain us vs where as: "as = us @ e # vs" by (meson split_list)
  define d where "d = c\<lparr>lru_entries := (lru_entries c)(e := (lru_entries c e)\<lparr>e_value := v\<rparr>)\<rparr>"
  have repd: "lru_rep d (us @ e # vs)" unfolding d_def as[symmetric] by (rule lru_rep_set_value[OF rep])
  from lru_touch[OF this] obtain h where h: "do { c1 \<leftarrow> lru_unlink (Some e) d; lru_pushFront (Some e) c1 } = Some (d\<lparr>lru_entries := h\<rparr>)"
    "lru_rep (d\<lparr>lru_entries := h\<rparr>) (e # us @ vs)" "\<And>a. pair_at h a = pair_at (lru_entries d) a" by auto
  have "e \<notin> set us \<union> set vs" using lru_rep_distinct[OF rep] as by auto
  then have same: "lru_abs h (us @ vs) = lru_abs (lru_entries c) (us @ vs)"
    unfolding lru_abs_def using h(3) by (intro map_cong) (auto simp: d_def)
  have "lru_abs h (e # us @ vs) = (k, v) # lru_abs h (us @ vs)"
    using h(3)[of e] key(2) by (simp add: lru_abs_def d_def)
  also have "\<dots> = (k, v) # AList.delete k (lru_abs (lru_entries c) as)"
    unfolding same using lru_abs_touch[OF rep[unfolded as]] key(2) as by simp
  finally have "lru_is (d\<lparr>lru_entries := h\<rparr>) ((k, v) # AList.delete k (lru_abs (lru_entries c) as))"
    unfolding lru_is_def using h(2) by force
  moreover have "LRU_Put k v c = Some (d\<lparr>lru_entries := h\<rparr>)"
    using h(1) by (simp add: LRU_Put_def hit d_def)
  moreover have "lru_capacity d = lru_capacity c" by (simp add: d_def)
  ultimately show ?thesis by auto
qed

lemma lru_make_room:
  assumes rep: "lru_rep c as"
  shows "\<exists>d us. (if int (length (lru_items c)) \<ge> lru_capacity c then lru_evict c else Some c) = Some d \<and>
    lru_rep d us \<and> int (length us) < lru_capacity d \<and> lru_capacity d = lru_capacity c \<and> set us \<subseteq> set as \<and>
    (\<forall>a. pair_at (lru_entries d) a = pair_at (lru_entries c) a) \<and>
    us = (if int (length as) \<ge> lru_capacity c then butlast as else as)"
proof (cases "int (length as) \<ge> lru_capacity c")
  case True
  have cap: "0 < lru_capacity c" "int (length as) \<le> lru_capacity c" using rep by (simp_all add: lru_rep_def)
  with True obtain us e where as: "as = us @ [e]" by (cases as rule: rev_cases) auto
  from lru_evict_last[OF rep[unfolded as]] obtain h where
    "lru_evict c = Some (c\<lparr>lru_entries := h, lru_items := AList.delete (e_key (h e)) (lru_items c)\<rparr>)"
    "lru_rep (c\<lparr>lru_entries := h, lru_items := AList.delete (e_key (h e)) (lru_items c)\<rparr>) us"
    "\<And>a. pair_at h a = pair_at (lru_entries c) a" by blast
  with True cap as show ?thesis by (auto simp: lru_keys_distinct(2)[OF rep])
qed (use rep in \<open>auto simp: lru_keys_distinct(2)[OF rep]\<close>)

lemma lru_put_absent:
  assumes rep: "lru_rep c as" and miss: "map_of (lru_items c) k = None"
  shows "\<exists>c'. LRU_Put k v c = Some c' \<and> lru_capacity c' = lru_capacity c \<and>
    lru_is c' ((k, v) # (let xs = lru_abs (lru_entries c) as in if int (length xs) \<ge> lru_capacity c then butlast xs else xs))"
proof -
  obtain d us where d: "(if int (length (lru_items c)) \<ge> lru_capacity c then lru_evict c else Some c) = Some d"
    "lru_rep d us" "int (length us) < lru_capacity d" "lru_capacity d = lru_capacity c" "set us \<subseteq> set as"
    "\<forall>a. pair_at (lru_entries d) a = pair_at (lru_entries c) a"
    "us = (if int (length as) \<ge> lru_capacity c then butlast as else as)"
    using lru_make_room[OF rep] by auto
  have new: "e_key (lru_entries d a) \<noteq> k" if "a \<in> set us" for a
    using lru_items_None[OF rep, of k] miss that d(5,6) by auto
  obtain c' where c': "lru_pushFront (Some (lru_fresh d)) (d\<lparr>lru_entries := (lru_entries d)(lru_fresh d := zero_entry\<lparr>e_key := k, e_value := v\<rparr>),
      lru_fresh := lru_fresh d + 1, lru_items := AList.update k (lru_fresh d) (lru_items d)\<rparr>) = Some c'"
    "lru_rep c' (lru_fresh d # us)" "lru_capacity c' = lru_capacity d"
    "pair_at (lru_entries c') (lru_fresh d) = (k, v)" "\<And>a. a \<in> set us \<Longrightarrow> pair_at (lru_entries c') a = pair_at (lru_entries d) a"
    using lru_insert[OF d(2,3) new] by blast
  have "lru_abs (lru_entries c') us = lru_abs (lru_entries c) us"
    unfolding lru_abs_def using c'(5) d(6) by (intro map_cong) auto
  then have "lru_abs (lru_entries c') (lru_fresh d # us) =
    (k, v) # (let xs = lru_abs (lru_entries c) as in if int (length xs) \<ge> lru_capacity c then butlast xs else xs)"
    using c'(4) d(7) by (cases "int (length as) \<ge> lru_capacity c") (simp_all add: lru_abs_def Let_def map_butlast)
  moreover have "LRU_Put k v c = Some c'"
    using c'(1) by (simp only: LRU_Put_def miss d(1) option.case Option.bind.simps Let_def)
  ultimately show ?thesis using c'(2,3) d(4) unfolding lru_is_def by metis
qed

lemma LRU_Put_refines:
  assumes "lru_is c xs"
  shows "\<exists>c'. LRU_Put k v c = Some c' \<and> lru_is c' (mru_put (lru_capacity c) k v xs) \<and>
    lru_capacity c' = lru_capacity c"
proof -
  from assms obtain as where rep: "lru_rep c as" and xs: "xs = lru_abs (lru_entries c) as"
    by (auto simp: lru_is_def)
  show ?thesis
  proof (cases "map_of (lru_items c) k")
    case None
    then have "k \<notin> fst ` set xs" using lru_is_fresh_key[OF rep] xs by simp
    then show ?thesis using lru_put_absent[OF rep None, of v] xs by (auto simp: mru_put_def Let_def)
  next
    case (Some e)
    then have "k \<in> fst ` set xs" using lru_is_fresh_key[OF rep] xs by simp
    then show ?thesis using lru_put_present[OF rep Some, of v] xs by (auto simp: mru_put_def)
  qed
qed

subsection \<open>The cache contract\<close>

definition lru_look :: "LRUCache \<Rightarrow> string \<rightharpoonup> string" where
  "lru_look c k = map_option (\<lambda>a. e_value (lru_entries c a)) (map_of (lru_items c) k)"

definition lru_ok :: "LRUCache \<Rightarrow> bool" where
  "lru_ok c \<longleftrightarrow> (\<exists>xs. lru_is c xs)"

lemma lru_look_is: "lru_is c xs \<Longrightarrow> lru_look c = map_of xs"
  by (auto simp: lru_is_def lru_look_def lru_map_of)

lemma mru_get_look: "map_of (snd (mru_get k xs)) = map_of xs" "fst (mru_get k xs) = found (map_of xs k)"
  by (auto simp: mru_get_def found_def map_of_delete delete_conv' split: option.splits)

lemma map_of_butlast:
  assumes "distinct (map fst xs)" shows "map_of (butlast xs) \<subseteq>\<^sub>m map_of xs"
proof (cases xs rule: rev_cases)
  case (snoc ys y)
  with assms show ?thesis by (cases y) (auto simp: map_le_def map_add_def split: option.splits)
qed simp

lemma mru_put_look:
  assumes "distinct (map fst xs)"
  shows "map_of (mru_put cap k v xs) k = Some v \<and> map_of (mru_put cap k v xs) \<subseteq>\<^sub>m (map_of xs)(k \<mapsto> v)"
  using map_of_butlast[OF assms] by (auto simp: mru_put_def delete_conv' map_le_def)

lemma lru_is_props:
  assumes "lru_is c xs"
  shows "distinct (map fst xs)" and "int (length xs) \<le> lru_capacity c" and "LRU_Len c = int (length xs)"
proof -
  from assms obtain as where rep: "lru_rep c as" and xs: "xs = lru_abs (lru_entries c) as"
    by (auto simp: lru_is_def)
  show "distinct (map fst xs)"
    using lru_keys_distinct(1)[OF rep] lru_rep_distinct[OF rep]
    by (simp add: xs lru_abs_def distinct_map o_def)
  show "int (length xs) \<le> lru_capacity c" using rep by (simp add: xs lru_abs_def lru_rep_def)
  show "LRU_Len c = int (length xs)" using lru_keys_distinct(2)[OF rep] by (simp add: xs LRU_Len_def lru_abs_def)
qed

interpretation lru: bounded_cache LRU_Get LRU_Put lru_look lru_ok lru_capacity
proof
  fix s :: LRUCache and k v :: string
  assume "lru_ok s"
  then obtain xs where xs: "lru_is s xs" by (auto simp: lru_ok_def)
  note look = lru_look_is[OF xs]
  show "\<exists>s'. LRU_Get k s = Some (found (lru_look s k), s') \<and> lru_ok s' \<and> lru_look s' = lru_look s \<and>
      lru_capacity s' = lru_capacity s"
    using LRU_Get_refines[OF xs, of k] lru_look_is by (auto simp: lru_ok_def look mru_get_look)
  show "\<exists>s'. LRU_Put k v s = Some s' \<and> lru_ok s' \<and> lru_look s' k = Some v \<and>
      lru_look s' \<subseteq>\<^sub>m (lru_look s)(k \<mapsto> v) \<and> lru_capacity s' = lru_capacity s"
    using LRU_Put_refines[OF xs, of k v] lru_look_is mru_put_look[OF lru_is_props(1)[OF xs]]
    by (auto simp: lru_ok_def look)
  have "card (dom (map_of xs)) \<le> length xs" by (metis card_length dom_map_of_conv_image_fst length_map set_map)
  then show "int (card (dom (lru_look s))) \<le> lru_capacity s"
    using lru_is_props(2)[OF xs] by (simp add: look)
qed

interpretation lru_list: cache_refinement LRU_Get LRU_Put mru_get "mru_put cap" "\<lambda>c xs. lru_is c xs \<and> lru_capacity c = cap"
  for cap
proof
  fix s xs and k v :: string
  assume rel: "lru_is s xs \<and> lru_capacity s = cap"
  then show "\<exists>s'. LRU_Get k s = Some (fst (mru_get k xs), s') \<and> lru_is s' (snd (mru_get k xs)) \<and> lru_capacity s' = cap"
    using LRU_Get_refines[of s xs k] by auto
  show "\<exists>s'. LRU_Put k v s = Some s' \<and> lru_is s' (mru_put cap k v xs) \<and> lru_capacity s' = cap"
    using rel LRU_Put_refines[of s xs k v] by auto
qed

lemma NewLRUCache_is:
  assumes "0 < cap" shows "\<exists>c. NewLRUCache cap = Some c \<and> lru_is c [] \<and> lru_capacity c = cap"
  using assms by (auto simp: NewLRUCache_def lru_is_def lru_rep_def lru_abs_def lpath_def zero_entry_def intro!: exI[of _ "[]"])

lemma lru_walk_path:
  assumes "links h (e # as @ [t])" and "t \<notin> set as"
  shows "lru_walk h (next (h e)) (Some t) = Some (map (\<lambda>a. e_key (h a)) as)"
  using assms
proof (induction as arbitrary: e)
  case (Cons a as)
  have "next (h e) = Some a" "a \<noteq> t" using Cons.prems by simp_all
  moreover have "lru_walk h (next (h a)) (Some t) = Some (map (\<lambda>a. e_key (h a)) as)"
    using Cons by simp
  ultimately show ?case by (simp add: lru_walk.simps[of h "Some a"])
qed (simp add: lru_walk.simps)

lemma keysMRUFirst_is: "lru_is c xs \<Longrightarrow> keysMRUFirst c = Some (map fst xs)"
proof -
  assume "lru_is c xs"
  then obtain as where rep: "lru_rep c as" and xs: "xs = lru_abs (lru_entries c) as" by (auto simp: lru_is_def)
  then have "links (lru_entries c) (0 # as @ [1])" "1 \<notin> set as" "lru_head c = Some 0" "lru_tail c = Some 1"
    by (auto simp: lru_rep_def lpath_def)
  then show ?thesis by (simp add: keysMRUFirst_def lru_walk_path xs lru_abs_def o_def)
qed

text \<open>C4: the pointer structure implements the list specification: from an empty cache of positive
  capacity no sequence of operations panics, every answer is that of the list of pairs in order of
  use, and the walk over the pointers returns the keys of that list.\<close>

theorem lru_refines_list:
  assumes "0 < cap"
  shows "\<exists>c rs c' xs. NewLRUCache cap = Some c \<and> cache_run LRU_Get LRU_Put ops c = Some (rs, c') \<and>
    cache_run (\<lambda>k s. Some (mru_get k s)) (\<lambda>k v s. Some (mru_put cap k v s)) ops [] = Some (rs, xs) \<and>
    keysMRUFirst c' = Some (map fst xs) \<and> LRU_Len c' = int (length xs)"
proof -
  obtain c where c: "NewLRUCache cap = Some c" "lru_is c []" "lru_capacity c = cap" using NewLRUCache_is[OF assms] by blast
  then obtain rs c' xs where "cache_run LRU_Get LRU_Put ops c = Some (rs, c')"
    "cache_run (\<lambda>k s. Some (mru_get k s)) (\<lambda>k v s. Some (mru_put cap k v s)) ops [] = Some (rs, xs)" "lru_is c' xs"
    using lru_list.run_refines[where cap = cap and s = c and x = "[]" and ops = ops] by blast
  then show ?thesis using c keysMRUFirst_is lru_is_props(3) by metis
qed

theorem lru_refines_list_witness:
  "\<exists>c rs c' xs. NewLRUCache 2 = Some c \<and>
    cache_run LRU_Get LRU_Put [CPut ''a'' ''1'', CPut ''b'' ''2'', CGet ''a'', CPut ''c'' ''3''] c = Some (rs, c') \<and>
    rs = [(''1'', True)] \<and> keysMRUFirst c' = Some [''c'', ''a'']"
  using lru_refines_list[of 2 "[CPut ''a'' ''1'', CPut ''b'' ''2'', CGet ''a'', CPut ''c'' ''3'']"]
  by (simp add: mru_put_def mru_get_def) blast

text \<open>A hit of the cache returns the value put last under its key, and the number of entries never
  exceeds the capacity, over any sequence of operations.\<close>

theorem lru_coherent:
  assumes "0 < cap"
  shows "\<exists>c rs c'. NewLRUCache cap = Some c \<and> cache_run LRU_Get LRU_Put ops c = Some (rs, c') \<and>
    answers_ok Map.empty ops rs \<and> int (card (dom (lru_look c'))) \<le> cap"
proof -
  obtain c where c: "NewLRUCache cap = Some c" "lru_is c []" "lru_capacity c = cap" using NewLRUCache_is[OF assms] by blast
  then have "lru_ok c" "lru_look c \<subseteq>\<^sub>m Map.empty" using lru_look_is[OF c(2)] by (auto simp: lru_ok_def)
  from lru.run_bounded[OF this] c show ?thesis by auto
qed

theorem lru_coherent_witness:
  "\<exists>c rs c'. NewLRUCache 1 = Some c \<and> cache_run LRU_Get LRU_Put [CPut ''a'' ''1'', CPut ''b'' ''2'', CGet ''a''] c = Some (rs, c') \<and>
    answers_ok Map.empty [CPut ''a'' ''1'', CPut ''b'' ''2'', CGet ''a''] rs"
  using lru_coherent[of 1 "[CPut ''a'' ''1'', CPut ''b'' ''2'', CGet ''a'']"] by auto

subsection \<open>Recency\<close>

text \<open>The keys touched so far, the last touched first: a put touches its key, a get only when it hits.\<close>

fun touch :: "nat \<Rightarrow> cache_op \<Rightarrow> string list \<Rightarrow> string list" where
  "touch n (CPut k v) ks = k # removeAll k ks"
| "touch n (CGet k) ks = (if k \<in> set (take n ks) then k # removeAll k ks else ks)"

lemma removeAll_notin_take:
  "k \<notin> set (take n ks) \<Longrightarrow> 0 < n \<Longrightarrow> take (n - 1) (removeAll k ks) = take (n - 1) ks"
proof (induction ks arbitrary: n)
  case (Cons a ks)
  then obtain m where n: "n = Suc m" by (cases n) auto
  with Cons.IH[of m] Cons.prems show ?case by (cases m) auto
qed simp

lemma take_removeAll_in:
  "distinct ks \<Longrightarrow> k \<in> set (take n ks) \<Longrightarrow> take (n - 1) (removeAll k ks) = removeAll k (take n ks)"
proof (induction ks arbitrary: n)
  case (Cons a ks)
  then obtain m where n: "n = Suc m" by (cases n) auto
  show ?case
  proof (cases "k = a")
    case True
    then have "k \<notin> set (take m ks)" using Cons.prems(1) by (auto dest: in_set_takeD)
    with True n Cons.prems(1) show ?thesis by simp
  next
    case False
    then have "k \<in> set (take m ks)" using Cons.prems n by simp
    with Cons.IH[of m] Cons.prems(1) False n show ?thesis by (cases m) auto
  qed
qed simp

lemma keys_delete: "map fst (AList.delete k xs) = removeAll k (map fst xs)"
  by (induction xs) auto

lemma mru_put_keys:
  assumes n: "0 < n" and ks: "map fst xs = take n ks" "distinct ks"
  shows "map fst (mru_put (int n) k v xs) = take n (touch n (CPut k v) ks)"
proof -
  obtain m where m: "n = Suc m" using n by (cases n) auto
  have mem: "k \<in> fst ` set xs \<longleftrightarrow> k \<in> set (take n ks)" using arg_cong[OF ks(1), of set] by simp
  have len: "length xs = min (length ks) n" using arg_cong[OF ks(1), of length] by simp
  show ?thesis
  proof (cases "k \<in> fst ` set xs")
    case True
    then show ?thesis using take_removeAll_in[OF ks(2), of k n] mem m
      by (simp add: mru_put_def keys_delete ks(1))
  next
    case False
    have "map fst (if int (length xs) \<ge> int n then butlast xs else xs) = take (n - 1) ks"
    proof (cases "n \<le> length ks")
      case True
      then show ?thesis using len by (simp add: map_butlast ks(1) butlast_take)
    next
      case False
      then show ?thesis using len m by (simp add: ks(1))
    qed
    then show ?thesis using False removeAll_notin_take[of k n ks] mem m by (simp add: mru_put_def)
  qed
qed

lemma mru_get_keys:
  assumes "map fst xs = take n ks" and "distinct ks"
  shows "map fst (snd (mru_get k xs)) = take n (touch n (CGet k) ks)"
proof -
  have mem: "k \<in> fst ` set xs \<longleftrightarrow> k \<in> set (take n ks)" using arg_cong[OF assms(1), of set] by simp
  show ?thesis
  proof (cases "map_of xs k")
    case None
    then have "k \<notin> set (take n ks)" using mem by (simp add: map_of_eq_None_iff)
    then show ?thesis using None assms(1) by (simp add: mru_get_def)
  next
    case (Some v)
    then have k: "k \<in> set (take n ks)" using mem by (metis image_eqI map_of_SomeD fst_conv)
    then obtain m where "n = Suc m" by (cases n) auto
    then show ?thesis using take_removeAll_in[OF assms(2) k] k Some assms(1)
      by (simp add: mru_get_def keys_delete)
  qed
qed

lemma distinct_touch: "distinct ks \<Longrightarrow> distinct (touch n op ks)"
  by (cases op) (auto simp: distinct_removeAll)

text \<open>The cache holds exactly the \<open>cap\<close> most recently used keys, in the order of their use.\<close>

theorem lru_keeps_most_recent:
  assumes "0 < cap"
  shows "\<exists>c rs c'. NewLRUCache (int cap) = Some c \<and> cache_run LRU_Get LRU_Put ops c = Some (rs, c') \<and>
    keysMRUFirst c' = Some (take cap (fold (touch cap) ops []))"
proof -
  have run: "\<exists>rs c'. cache_run LRU_Get LRU_Put ops c = Some (rs, c') \<and>
      keysMRUFirst c' = Some (take cap (fold (touch cap) ops ks))"
    if "lru_is c xs" "lru_capacity c = int cap" "map fst xs = take cap ks" "distinct ks" for c xs ks
    using that
  proof (induction ops arbitrary: c xs ks)
    case Nil
    then show ?case using keysMRUFirst_is by auto
  next
    case (Cons op ops)
    show ?case
    proof (cases op)
      case (CGet k)
      obtain c1 where c1: "LRU_Get k c = Some (fst (mru_get k xs), c1)" "lru_is c1 (snd (mru_get k xs))" "lru_capacity c1 = int cap"
        using LRU_Get_refines[OF Cons.prems(1), of k] Cons.prems(2) by auto
      from Cons.IH[OF c1(2,3) mru_get_keys distinct_touch, OF Cons.prems(3,4,4)] c1(1) CGet show ?thesis by auto
    next
      case (CPut k v)
      obtain c1 where c1: "LRU_Put k v c = Some c1" "lru_is c1 (mru_put (int cap) k v xs)" "lru_capacity c1 = int cap"
        using LRU_Put_refines[OF Cons.prems(1), of k v] Cons.prems(2) by auto
      from Cons.IH[OF c1(2,3) mru_put_keys distinct_touch, OF assms Cons.prems(3,4,4)] c1(1) CPut show ?thesis by auto
    qed
  qed
  have "0 < int cap" using assms by simp
  then obtain c where "NewLRUCache (int cap) = Some c" "lru_is c []" "lru_capacity c = int cap" using NewLRUCache_is by blast
  with run[of c "[]" "[]"] show ?thesis by auto
qed

theorem lru_keeps_most_recent_witness:
  "\<exists>c rs c'. NewLRUCache 2 = Some c \<and>
    cache_run LRU_Get LRU_Put [CPut ''a'' ''1'', CPut ''b'' ''2'', CGet ''a'', CPut ''c'' ''3''] c = Some (rs, c') \<and>
    keysMRUFirst c' = Some [''c'', ''a'']"
  using lru_keeps_most_recent[of 2 "[CPut ''a'' ''1'', CPut ''b'' ''2'', CGet ''a'', CPut ''c'' ''3'']"] by simp

end
