(* ===== verification/KvMap.thy ===== *)
theory KvMap
  imports Prelude "HOL-Library.Monad_Syntax"
begin

text \<open>
  What a client of a key-value store relies on: a lookup returns what was stored last, and
  operations do not fail.  \<open>kv_store\<close> has insertion and lookup, \<open>kv_delete_store\<close> extends it with
  deletion; \<open>fits\<close> are the keys and values the store can hold.  An operation returns \<open>None\<close> where the Go code would panic.
\<close>

fun kv_puts :: "(string \<Rightarrow> string \<Rightarrow> 's \<Rightarrow> 's option) \<Rightarrow> (string \<times> string) list \<Rightarrow> 's \<Rightarrow> 's option" where
  "kv_puts put [] s = Some s"
| "kv_puts put ((k, v) # kvs) s = do { s1 \<leftarrow> put k v s; kv_puts put kvs s1 }"

locale kv_store =
  fixes put :: "string \<Rightarrow> string \<Rightarrow> 's \<Rightarrow> 's option"
    and get :: "'s \<Rightarrow> string \<Rightarrow> (string \<times> bool) option"
    and content :: "'s \<Rightarrow> string \<rightharpoonup> string"
    and inv :: "'s \<Rightarrow> bool"
    and fits :: "string \<Rightarrow> string \<Rightarrow> bool"
  assumes put_content: "inv s \<Longrightarrow> fits k v \<Longrightarrow> \<exists>s'. put k v s = Some s' \<and> inv s' \<and> content s' = (content s)(k \<mapsto> v)"
    and get_content: "inv s \<Longrightarrow>
      get s k = Some (case content s k of Some v \<Rightarrow> (v, True) | None \<Rightarrow> ('''', False))"
begin

lemma puts_content:
  "inv s \<Longrightarrow> \<forall>(k, v) \<in> set kvs. fits k v \<Longrightarrow>
     \<exists>s'. kv_puts put kvs s = Some s' \<and> inv s' \<and> content s' = content s ++ map_of (rev kvs)"
proof (induction kvs arbitrary: s)
  case (Cons kv kvs)
  obtain k v where kv: "kv = (k, v)" by fastforce
  obtain s1 where s1: "put k v s = Some s1" "inv s1" "content s1 = (content s)(k \<mapsto> v)"
    using put_content[OF Cons.prems(1), of k v] Cons.prems(2) kv by auto
  obtain s' where "kv_puts put kvs s1 = Some s'" "inv s'" "content s' = content s1 ++ map_of (rev kvs)"
    using Cons.IH[OF s1(2)] Cons.prems(2) by auto
  then show ?case using s1 kv by (auto simp: map_add_assoc[symmetric])
qed simp

lemma get_after_puts:
  "inv s \<Longrightarrow> \<forall>(k, v) \<in> set (kvs @ [(k, v)]). fits k v \<Longrightarrow>
     \<exists>s'. kv_puts put (kvs @ [(k, v)]) s = Some s' \<and> get s' k = Some (v, True)"
  using puts_content[of s "kvs @ [(k, v)]"] get_content by fastforce

end

locale kv_delete_store = kv_store put get content inv fits
  for put :: "string \<Rightarrow> string \<Rightarrow> 's \<Rightarrow> 's option"
    and get :: "'s \<Rightarrow> string \<Rightarrow> (string \<times> bool) option"
    and content :: "'s \<Rightarrow> string \<rightharpoonup> string"
    and inv :: "'s \<Rightarrow> bool"
    and fits :: "string \<Rightarrow> string \<Rightarrow> bool" +
  fixes del :: "string \<Rightarrow> 's \<Rightarrow> 's option"
  assumes del_content: "inv s \<Longrightarrow> fits k '''' \<Longrightarrow> \<exists>s'. del k s = Some s' \<and> inv s' \<and> content s' = (content s)(k := None)"
begin

lemma get_after_delete: "inv s \<Longrightarrow> fits k '''' \<Longrightarrow> \<exists>s'. del k s = Some s' \<and> get s' k = Some ('''', False)"
  using del_content[of s k] get_content by fastforce

lemma put_after_delete:
  "inv s \<Longrightarrow> fits k '''' \<Longrightarrow> fits k v \<Longrightarrow>
     \<exists>s1 s2. del k s = Some s1 \<and> put k v s1 = Some s2 \<and> content s2 = (content s)(k \<mapsto> v)"
  using del_content[of s k] put_content by (metis fun_upd_upd)

end

end
