(* ===== verification/BPlusTree.thy ===== *)
theory BPlusTree
  imports KvMap
begin

text \<open>
  \<^verbatim>\<open>code/b_tree/btree.go\<close>: a B+tree over strings.  A Go node is \<open>leaf\<close> or not, so it
  is a datatype with the two kinds; a leaf carries its identity, the address the chain pointer
  \<open>next\<close> of another leaf refers to.  The functions that change nodes in place return the changed
  node; \<open>bt_fresh\<close> is the next leaf address.  An index out of range is the value \<open>None\<close>.
\<close>

definition tree_order :: nat where
  "tree_order = 4"

datatype node =
    Leaf (leaf_id: nat) (leaf_keys: "string list") (leaf_values: "string list") (leaf_next: "nat option")
  | Inner "string list" "node list"

record BPlusTree =
  bt_root :: node
  bt_size :: nat
  bt_order :: nat
  bt_fresh :: nat

definition bt_New :: BPlusTree where
  "bt_New = \<lparr>bt_root = Leaf 0 [] [] None, bt_size = 0, bt_order = tree_order, bt_fresh = 1\<rparr>"

definition bt_Len :: "BPlusTree \<Rightarrow> nat" where
  "bt_Len t = bt_size t"

fun node_height :: "node \<Rightarrow> nat option" where
  "node_height (Leaf i ks vs n) = Some 1"
| "node_height (Inner ks []) = None"
| "node_height (Inner ks (c # cs)) = map_option Suc (node_height c)"

definition bt_Height :: "BPlusTree \<Rightarrow> nat option" where
  "bt_Height t = node_height (bt_root t)"

definition childIndex :: "string list \<Rightarrow> string \<Rightarrow> nat" where
  "childIndex keys key =
     (let i = SearchStrings keys key in if i < length keys \<and> keys ! i = key then i + 1 else i)"

lemma size_child: "i < length cs \<Longrightarrow> size (cs ! i) < Suc (size_list size cs)"
  by (simp add: less_Suc_eq_le size_list_estimation'[OF nth_mem order.refl])

text \<open>The descent of \<open>Get\<close> and \<open>Range\<close>: the leaf where \<open>key\<close> belongs.\<close>

function descend :: "node \<Rightarrow> string \<Rightarrow> node option" where
  "descend (Leaf i ks vs n) key = Some (Leaf i ks vs n)"
| "descend (Inner ks cs) key =
     (if childIndex ks key < length cs then descend (cs ! childIndex ks key) key else None)"
  by pat_completeness auto
termination by (relation "measure (\<lambda>(n, k). size n)") (auto simp: size_child)

definition bt_Get :: "BPlusTree \<Rightarrow> string \<Rightarrow> (string \<times> bool) option" where
  "bt_Get t key = do {
     n \<leftarrow> descend (bt_root t) key;
     let i = SearchStrings (leaf_keys n) key;
     if i < length (leaf_keys n) \<and> leaf_keys n ! i = key
     then do { v \<leftarrow> nth_opt (leaf_values n) i; Some (v, True) }
     else Some ('''', False) }"

definition insertAt :: "'a list \<Rightarrow> nat \<Rightarrow> 'a \<Rightarrow> 'a list option" where
  "insertAt s i v = (if i \<le> length s then Some (take i s @ v # drop i s) else None)"

definition splitLeaf :: "BPlusTree \<Rightarrow> nat \<Rightarrow> string list \<Rightarrow> string list \<Rightarrow> nat option \<Rightarrow>
    (node \<times> (string \<times> node) option \<times> BPlusTree) option" where
  "splitLeaf t i ks vs nx = do {
     let mid = length ks div 2;
     let right = Leaf (bt_fresh t) (drop mid ks) (drop mid vs) nx;
     promoted \<leftarrow> nth_opt (drop mid ks) 0;
     if mid \<le> length vs
     then Some (Leaf i (take mid ks) (take mid vs) (Some (bt_fresh t)),
                Some (promoted, right), t\<lparr>bt_fresh := bt_fresh t + 1\<rparr>)
     else None }"

definition splitInternal :: "BPlusTree \<Rightarrow> string list \<Rightarrow> node list \<Rightarrow>
    (node \<times> (string \<times> node) option \<times> BPlusTree) option" where
  "splitInternal t ks cs = do {
     let mid = length ks div 2;
     promoted \<leftarrow> nth_opt ks mid;
     if mid + 1 \<le> length cs
     then Some (Inner (take mid ks) (take (mid + 1) cs),
                Some (promoted, Inner (drop (mid + 1) ks) (drop (mid + 1) cs)), t)
     else None }"

function bt_insert :: "node \<Rightarrow> string \<Rightarrow> string \<Rightarrow> BPlusTree \<Rightarrow>
    (node \<times> (string \<times> node) option \<times> BPlusTree) option" where
  "bt_insert (Leaf li ks vs nx) key val t =
     (let i = SearchStrings ks key in
      if i < length ks \<and> ks ! i = key
      then (if i < length vs then Some (Leaf li ks (vs[i := val]) nx, None, t) else None)
      else do {
        ks1 \<leftarrow> insertAt ks i key;
        vs1 \<leftarrow> insertAt vs i val;
        let t1 = t\<lparr>bt_size := bt_size t + 1\<rparr>;
        if length ks1 < bt_order t1 then Some (Leaf li ks1 vs1 nx, None, t1)
        else splitLeaf t1 li ks1 vs1 nx })"
| "bt_insert (Inner ks cs) key val t =
     (let i = childIndex ks key in
      if i < length cs then do {
        (c, split, t1) \<leftarrow> bt_insert (cs ! i) key val t;
        case split of
          None \<Rightarrow> Some (Inner ks (cs[i := c]), None, t1)
        | Some (promoted, right) \<Rightarrow> do {
            ks1 \<leftarrow> insertAt ks i promoted;
            cs1 \<leftarrow> insertAt (cs[i := c]) (i + 1) right;
            if length ks1 < bt_order t1 then Some (Inner ks1 cs1, None, t1)
            else splitInternal t1 ks1 cs1 } }
      else None)"
  by pat_completeness auto
termination by (relation "measure (\<lambda>(n, k, v, t). size n)") (auto simp: size_child)

definition bt_Put :: "string \<Rightarrow> string \<Rightarrow> BPlusTree \<Rightarrow> BPlusTree option" where
  "bt_Put key val t = do {
     (r, split, t1) \<leftarrow> bt_insert (bt_root t) key val t;
     case split of
       None \<Rightarrow> Some (t1\<lparr>bt_root := r\<rparr>)
     | Some (promoted, right) \<Rightarrow> Some (t1\<lparr>bt_root := Inner [promoted] [r, right]\<rparr>) }"

text \<open>The leaves from left to right, and the chain pointers resolved in them.\<close>

function leaves :: "node \<Rightarrow> node list" where
  "leaves (Leaf i ks vs n) = [Leaf i ks vs n]"
| "leaves (Inner ks cs) = concat (map leaves cs)"
  by pat_completeness auto
termination by (relation "measure size") (auto simp: less_Suc_eq_le size_list_estimation')

definition leaf_at :: "node \<Rightarrow> nat \<Rightarrow> node option" where
  "leaf_at r a = find (\<lambda>l. leaf_id l = a) (leaves r)"

definition next_leaf :: "node \<Rightarrow> node \<Rightarrow> node option option" where
  "next_leaf r n = (case leaf_next n of None \<Rightarrow> Some None | Some a \<Rightarrow> map_option Some (leaf_at r a))"

text \<open>The inner loop of \<open>Range\<close> over one leaf: what it appends, and whether it returned.\<close>

fun range_leaf :: "string \<Rightarrow> string \<Rightarrow> string list \<Rightarrow> string list \<Rightarrow> (string list \<times> bool) option" where
  "range_leaf start stop [] vs = Some ([], False)"
| "range_leaf start stop (k # ks) vs =
     (if k < start then range_leaf start stop ks (tl vs)
      else if k > stop then Some ([], True)
      else case vs of [] \<Rightarrow> None
           | v # vs' \<Rightarrow> map_option (\<lambda>(out, done). ((k @ ''='' @ v) # out, done)) (range_leaf start stop ks vs'))"

partial_function (option) range_walk :: "node \<Rightarrow> string \<Rightarrow> string \<Rightarrow> node option \<Rightarrow> string list option" where
  "range_walk r start stop p =
     (if p = None then Some []
      else do {
          n \<leftarrow> p;
          o1 \<leftarrow> range_leaf start stop (leaf_keys n) (leaf_values n);
          if snd o1 then Some (fst o1)
          else do {
            p' \<leftarrow> next_leaf r n;
            rest \<leftarrow> range_walk r start stop p';
            Some (fst o1 @ rest) } })"

definition bt_Range :: "BPlusTree \<Rightarrow> string \<Rightarrow> string \<Rightarrow> string list option" where
  "bt_Range t start stop = do {
     n \<leftarrow> descend (bt_root t) start;
     range_walk (bt_root t) start stop (Some n) }"

fun leftmost :: "node \<Rightarrow> node option" where
  "leftmost (Leaf i ks vs n) = Some (Leaf i ks vs n)"
| "leftmost (Inner ks []) = None"
| "leftmost (Inner ks (c # cs)) = leftmost c"

partial_function (option) keys_walk :: "node \<Rightarrow> node option \<Rightarrow> string list option" where
  "keys_walk r p =
     (if p = None then Some []
      else do {
          n \<leftarrow> p;
          p' \<leftarrow> next_leaf r n;
          rest \<leftarrow> keys_walk r p';
          Some (leaf_keys n @ rest) })"

definition bt_Keys :: "BPlusTree \<Rightarrow> string list option" where
  "bt_Keys t = do { n \<leftarrow> leftmost (bt_root t); keys_walk (bt_root t) (Some n) }"

definition LeafChainIntact :: "BPlusTree \<Rightarrow> bool option" where
  "LeafChainIntact t = do { keys \<leftarrow> bt_Keys t; Some (sorted keys \<and> length keys = bt_size t) }"

subsection \<open>The invariant\<close>

text \<open>
  \<open>aligned lo n hi\<close>: the keys of the subtree lie in \<open>lo .. hi\<close> (\<open>lo\<close> included, \<open>hi\<close> not, \<open>None\<close>
  is no bound) and separators divide the children.  \<open>full h n\<close>: all leaves are at depth \<open>h\<close>, and
  nodes below the root hold between their minimum and maximum of keys.  \<open>chained\<close>: every leaf
  points to the next one.
\<close>

definition below :: "string \<Rightarrow> string option \<Rightarrow> bool" where
  "below k hi \<longleftrightarrow> (case hi of None \<Rightarrow> True | Some h \<Rightarrow> k < h)"

lemma below_simps [simp]: "below k None" "below k (Some h) \<longleftrightarrow> k < h"
  by (simp_all add: below_def)

lemma below_trans: "k < m \<Longrightarrow> below m hi \<Longrightarrow> below k hi"
  by (auto simp: below_def split: option.splits)

fun aligned :: "string \<Rightarrow> node \<Rightarrow> string option \<Rightarrow> bool"
  and aligned_list :: "string \<Rightarrow> string list \<Rightarrow> node list \<Rightarrow> string option \<Rightarrow> bool" where
  "aligned lo (Leaf i ks vs nx) hi \<longleftrightarrow> length vs = length ks \<and> sorted_wrt (<) ks \<and>
     (\<forall>k \<in> set ks. lo \<le> k \<and> below k hi)"
| "aligned lo (Inner ks cs) hi \<longleftrightarrow> aligned_list lo ks cs hi"
| "aligned_list lo [] [c] hi \<longleftrightarrow> aligned lo c hi"
| "aligned_list lo (k # ks) (c # cs) hi \<longleftrightarrow>
     lo < k \<and> below k hi \<and> aligned lo c (Some k) \<and> aligned_list k ks cs hi"
| "aligned_list lo _ _ hi \<longleftrightarrow> False"

fun full :: "nat \<Rightarrow> node \<Rightarrow> bool" where
  "full h (Leaf i ks vs nx) \<longleftrightarrow> h = 0 \<and> 2 \<le> length ks \<and> length ks \<le> 3"
| "full h (Inner ks cs) \<longleftrightarrow> (\<exists>m. h = Suc m \<and> 1 \<le> length ks \<and> length ks \<le> 3 \<and> (\<forall>c \<in> set cs. full m c))"

fun full_root :: "nat \<Rightarrow> node \<Rightarrow> bool" where
  "full_root h (Leaf i ks vs nx) \<longleftrightarrow> h = 0 \<and> length ks \<le> 3"
| "full_root h (Inner ks cs) \<longleftrightarrow> full h (Inner ks cs)"

fun chained :: "node list \<Rightarrow> nat option \<Rightarrow> bool" where
  "chained [] after \<longleftrightarrow> True"
| "chained [l] after \<longleftrightarrow> leaf_next l = after"
| "chained (l # m # ls) after \<longleftrightarrow> leaf_next l = Some (leaf_id m) \<and> chained (m # ls) after"

definition leaf_entries :: "node \<Rightarrow> (string \<times> string) list" where
  "leaf_entries l = zip (leaf_keys l) (leaf_values l)"

definition entries :: "node list \<Rightarrow> (string \<times> string) list" where
  "entries ls = concat (map leaf_entries ls)"

lemma entries_simps [simp]:
  "entries [] = []" "entries (l # ls) = leaf_entries l @ entries ls" "entries (ls @ ms) = entries ls @ entries ms"
  by (simp_all add: entries_def)

subsection \<open>Alignment\<close>

lemma aligned_list_length: "aligned_list lo ks cs hi \<Longrightarrow> length cs = Suc (length ks)"
  by (induction ks arbitrary: lo cs) (auto elim: aligned_list.elims)

lemma aligned_list_keys:
  "aligned_list lo ks cs hi \<Longrightarrow> sorted_wrt (<) ks \<and> (\<forall>k \<in> set ks. lo < k \<and> below k hi)"
proof (induction ks arbitrary: lo cs)
  case (Cons k ks)
  then obtain c ds where cs: "cs = c # ds" by (cases cs) auto
  with Cons.prems Cons.IH[of k ds] show ?case by (auto intro: less_trans)
qed simp

lemma aligned_list_append:
  "aligned_list lo ps ns (Some q) \<Longrightarrow> lo < q \<Longrightarrow> below q hi \<Longrightarrow> aligned_list q qs ws hi \<Longrightarrow>
   aligned_list lo (ps @ q # qs) (ns @ ws) hi"
proof (induction ps arbitrary: lo ns)
  case Nil
  then show ?case by (cases ns; cases "tl ns") auto
next
  case (Cons p ps)
  then obtain n ms where ns: "ns = n # ms" by (cases ns) auto
  with Cons show ?case by (auto intro: below_trans)
qed

text \<open>The bounds of the child between the separators \<open>ps\<close> and \<open>qs\<close>.\<close>

abbreviation low_end :: "string \<Rightarrow> string list \<Rightarrow> string" where
  "low_end lo ps \<equiv> last (lo # ps)"

definition high_end :: "string list \<Rightarrow> string option \<Rightarrow> string option" where
  "high_end qs hi = (case qs of [] \<Rightarrow> hi | q # _ \<Rightarrow> Some q)"

lemma high_end_simps [simp]: "high_end [] hi = hi" "high_end (q # qs) hi = Some q"
  by (simp_all add: high_end_def)

lemma aligned_list_child:
  assumes "aligned_list lo (ps @ qs) (us @ c # ws) hi" and "length us = length ps"
  shows "aligned (low_end lo ps) c (high_end qs hi)"
    and "aligned_list (low_end lo ps) ps2 ns2 (high_end qs hi) \<Longrightarrow> aligned_list lo (ps @ ps2 @ qs) (us @ ns2 @ ws) hi"
proof -
  show "aligned (low_end lo ps) c (high_end qs hi)"
    using assms
  proof (induction ps arbitrary: lo us)
    case Nil
    then show ?case by (cases qs; cases ws) auto
  next
    case (Cons p ps)
    then obtain u us' where us: "us = u # us'" by (cases us) auto
    with Cons show ?case by (cases ps) auto
  qed
  show "aligned_list (low_end lo ps) ps2 ns2 (high_end qs hi) \<Longrightarrow> aligned_list lo (ps @ ps2 @ qs) (us @ ns2 @ ws) hi"
    using assms
  proof (induction ps arbitrary: lo us)
    case Nil
    then show ?case by (cases qs; cases ws) (auto intro: aligned_list_append)
  next
    case (Cons p ps)
    then obtain u us' where us: "us = u # us'" by (cases us) auto
    with Cons show ?case by (cases ps) auto
  qed
qed

lemma aligned_list_split:
  "aligned_list lo (ps @ p # qs) (us @ ws) hi \<Longrightarrow> length us = Suc (length ps) \<Longrightarrow>
   aligned_list lo ps us (Some p) \<and> aligned_list p qs ws hi \<and> lo < p \<and> below p hi"
proof (induction ps arbitrary: lo us)
  case Nil
  then obtain u where "us = [u]" by (cases us) auto
  with Nil show ?case by auto
next
  case (Cons a ps)
  then obtain u us' where us: "us = u # us'" by (cases us) auto
  then have "aligned_list a ps us' (Some p) \<and> aligned_list p qs ws hi \<and> a < p \<and> below p hi"
    using Cons.IH[of a us'] Cons.prems by simp
  with Cons.prems us show ?case by auto
qed

lemma childIndex_spec:
  assumes "sorted_wrt (<) ks"
  obtains ps qs where "ks = ps @ qs" and "childIndex ks key = length ps"
    and "\<forall>k \<in> set ps. k \<le> key" and "\<forall>k \<in> set qs. key < k"
proof -
  define i where "i = SearchStrings ks key"
  note spec = SearchStrings_spec[OF assms i_def]
  show thesis
  proof (cases "i < length ks \<and> ks ! i = key")
    case True
    have later: "key < k" if "k \<in> set (drop (Suc i) ks)" for k
      using that assms True by (auto simp: in_set_conv_nth sorted_wrt_iff_nth_less)
    have "\<forall>k \<in> set (take (Suc i) ks). k \<le> key"
      using spec(2) True by (auto simp: take_Suc_nth intro: less_imp_le)
    then show thesis
      using that[of "take (Suc i) ks" "drop (Suc i) ks"] True later by (simp add: childIndex_def i_def[symmetric])
  next
    case False
    have "key < k" if mem: "k \<in> set (drop i ks)" for k
    proof -
      have "key \<le> k" using spec(3) mem .
      moreover have "k \<noteq> key"
      proof
        assume "k = key"
        obtain j where "k = drop i ks ! j" "j < length (drop i ks)" using mem unfolding in_set_conv_nth by blast
        then have j: "k = ks ! (i + j)" "i + j < length ks" by simp_all
        have "j \<noteq> 0" using False j \<open>k = key\<close> by (cases j) auto
        then have "ks ! i < key" using assms j \<open>k = key\<close> by (simp add: sorted_wrt_iff_nth_less)
        moreover have "ks ! i \<in> set (drop i ks)"
          using Cons_nth_drop_Suc[of i ks] j(2) by (metis add_lessD1 list.set_intros(1))
        then have "key \<le> ks ! i" by (rule spec(3))
        ultimately show False by simp
      qed
      ultimately show ?thesis by simp
    qed
    then show thesis
      using that[of "take i ks" "drop i ks"] spec(1,2) False
      by (auto simp: childIndex_def i_def[symmetric] intro: less_imp_le)
  qed
qed

lemma keys_leaf_entries: "length vs = length ks \<Longrightarrow> map fst (leaf_entries (Leaf i ks vs nx)) = ks"
  by (simp add: leaf_entries_def)

abbreviation entry_keys :: "node list \<Rightarrow> string set" where
  "entry_keys ls \<equiv> fst ` set (entries ls)"

abbreviation all_leaves :: "node list \<Rightarrow> node list" where
  "all_leaves cs \<equiv> concat (map leaves cs)"

lemma entries_bounds:
  "aligned lo n hi \<Longrightarrow> \<forall>x \<in> entry_keys (leaves n). lo \<le> x \<and> below x hi"
  "aligned_list lo ks cs hi \<Longrightarrow> \<forall>x \<in> entry_keys (all_leaves cs). lo \<le> x \<and> below x hi"
proof (induction lo n hi and lo ks cs hi rule: aligned_aligned_list.induct)
  case (1 lo i ks vs nx hi)
  then show ?case by (auto simp: leaf_entries_def dest: set_zip_leftD)
next
  case (4 lo k ks c cs hi)
  then show ?case by (auto intro: below_trans less_imp_le order_trans less_trans) 
qed auto

lemma entries_sorted:
  "aligned lo n hi \<Longrightarrow> sorted_keys (entries (leaves n))"
  "aligned_list lo ks cs hi \<Longrightarrow> sorted_keys (entries (all_leaves cs))"
proof (induction lo n hi and lo ks cs hi rule: aligned_aligned_list.induct)
  case (1 lo i ks vs nx hi)
  then show ?case by (simp add: keys_leaf_entries)
next
  case (4 lo k ks c cs hi)
  have "\<forall>x \<in> entry_keys (leaves c). x < k" using entries_bounds(1)[of lo c "Some k"] 4(3) by auto
  moreover have "\<forall>x \<in> entry_keys (all_leaves cs). k \<le> x" using entries_bounds(2)[of k ks cs hi] 4(3) by auto
  ultimately show ?case using 4 by (auto simp: sorted_wrt_append intro: less_le_trans)
qed auto

lemma aligned_list_sides:
  assumes "aligned_list lo (ps @ qs) (us @ c # ws) hi" and "length us = length ps"
  shows "\<forall>x \<in> entry_keys (all_leaves us). x < low_end lo ps"
    and "below key (high_end qs hi) \<Longrightarrow> \<forall>x \<in> entry_keys (all_leaves ws). key < x"
proof -
  show "\<forall>x \<in> entry_keys (all_leaves us). x < low_end lo ps"
    using assms
  proof (induction ps arbitrary: lo us)
    case (Cons p ps)
    then obtain u us' where us: "us = u # us'" by (cases us) auto
    have p: "p \<le> low_end p ps"
      using aligned_list_keys[of p "ps @ qs" "us' @ c # ws" hi] Cons.prems us
      by (cases ps rule: rev_cases) (auto intro: less_imp_le)
    have "\<forall>x \<in> entry_keys (leaves u). x < p"
      using entries_bounds(1)[of lo u "Some p"] Cons.prems(1) us by simp
    then show ?case using Cons.IH[of p us'] Cons.prems us p by (auto intro: less_le_trans)
  qed simp
  show "\<forall>x \<in> entry_keys (all_leaves ws). key < x" if key: "below key (high_end qs hi)"
    using assms
  proof (induction ps arbitrary: lo us)
    case Nil
    show ?case
    proof (cases qs)
      case (Cons q qs')
      then have "\<forall>x \<in> entry_keys (all_leaves ws). q \<le> x"
        using entries_bounds(2)[of q qs' ws hi] Nil by simp
      with key Cons show ?thesis by (auto intro: less_le_trans)
    qed (use Nil in \<open>cases ws; auto\<close>)
  next
    case (Cons p ps)
    then obtain u us' where us: "us = u # us'" by (cases us) auto
    with Cons show ?case by auto
  qed
qed

lemma low_end_le: "lo \<le> key \<Longrightarrow> \<forall>k \<in> set ps. k \<le> key \<Longrightarrow> low_end lo ps \<le> (key :: string)"
  by (cases ps rule: rev_cases) auto

lemma high_end_below: "below key hi \<Longrightarrow> \<forall>k \<in> set qs. key < k \<Longrightarrow> below key (high_end qs hi)"
  by (cases qs) auto

text \<open>The child \<open>childIndex\<close> selects, with everything the proofs use of it.\<close>

lemma inner_child:
  assumes "aligned lo (Inner ks cs) hi" and "lo \<le> key" and "below key hi"
  obtains ps qs us c ws where "ks = ps @ qs" and "cs = us @ c # ws" and "length us = length ps"
    and "childIndex ks key = length ps" and "low_end lo ps \<le> key" and "below key (high_end qs hi)"
    and "aligned (low_end lo ps) c (high_end qs hi)"
    and "\<forall>x \<in> entry_keys (all_leaves us). x < key" and "\<forall>x \<in> entry_keys (all_leaves ws). key < x"
proof -
  have al: "aligned_list lo ks cs hi" using assms(1) by simp
  obtain ps qs where ks: "ks = ps @ qs" "childIndex ks key = length ps"
    "\<forall>k \<in> set ps. k \<le> key" "\<forall>k \<in> set qs. key < k"
    using childIndex_spec aligned_list_keys[OF al] by blast
  have "length ps < length cs" using aligned_list_length[OF al] ks(1) by simp
  then obtain us c ws where cs: "cs = us @ c # ws" "length us = length ps"
    by (metis id_take_nth_drop length_take min.absorb4)
  note al' = al[unfolded ks(1) cs(1)]
  note lohi = low_end_le[OF assms(2) ks(3)] high_end_below[OF assms(3) ks(4)]
  show thesis
    using that[OF ks(1) cs ks(2) lohi aligned_list_child(1)[OF al' cs(2)]]
      aligned_list_sides(1)[OF al' cs(2)] aligned_list_sides(2)[OF al' cs(2) lohi(2)] lohi(1)
    by (meson less_le_trans)
qed

lemma descend_spec:
  assumes "aligned lo n hi" and "lo \<le> key" and "below key hi"
  shows "\<exists>l us vs. descend n key = Some l \<and> leaves n = us @ l # vs \<and>
    length (leaf_values l) = length (leaf_keys l) \<and> sorted_wrt (<) (leaf_keys l) \<and>
    (\<forall>x \<in> entry_keys us. x < key) \<and> (\<forall>x \<in> entry_keys vs. key < x)"
  using assms
proof (induction n key arbitrary: lo hi rule: descend.induct)
  case (1 i ks vs nx key)
  show ?case by (rule exI[of _ "Leaf i ks vs nx"], rule exI[of _ "[]"], rule exI[of _ "[]"]) (use 1 in simp)
next
  case (2 ks cs key)
  obtain ps qs us c ws where c: "ks = ps @ qs" "cs = us @ c # ws" "length us = length ps"
    "childIndex ks key = length ps" "low_end lo ps \<le> key" "below key (high_end qs hi)"
    "aligned (low_end lo ps) c (high_end qs hi)"
    "\<forall>x \<in> entry_keys (all_leaves us). x < key" "\<forall>x \<in> entry_keys (all_leaves ws). key < x"
    using inner_child[OF "2.prems"] by blast
  have i: "childIndex ks key < length cs" "cs ! childIndex ks key = c"
    unfolding c(4) c(3)[symmetric] c(2) by simp_all
  obtain l us' vs' where l: "descend c key = Some l" "leaves c = us' @ l # vs'"
    "length (leaf_values l) = length (leaf_keys l)" "sorted_wrt (<) (leaf_keys l)"
    "\<forall>x \<in> entry_keys us'. x < key" "\<forall>x \<in> entry_keys vs'. key < x"
    using "2.IH"[OF i(1), unfolded i(2), OF c(7,5,6)] by blast
  have "leaves (Inner ks cs) = (all_leaves us @ us') @ l # (vs' @ all_leaves ws)" using c(2) l(2) by simp
  moreover have "\<forall>x \<in> entry_keys (all_leaves us @ us'). x < key" "\<forall>x \<in> entry_keys (vs' @ all_leaves ws). key < x"
    using c(8,9) l(5,6) by auto
  moreover have "descend (Inner ks cs) key = Some l" using i l(1) by simp
  ultimately show ?case using l(3,4) by blast
qed

subsection \<open>Lookup\<close>

text \<open>Binary search in one leaf is lookup in its entries.\<close>

lemma leaf_lookup:
  assumes "sorted_wrt (<) ks" and "length vs = length ks" and i: "i = SearchStrings ks key"
  shows "map_of (zip ks vs) key = (if i < length ks \<and> ks ! i = key then Some (vs ! i) else None)"
proof -
  note spec = SearchStrings_spec[OF assms(1) i]
  have d: "distinct ks" using assms(1) by (rule sorted_strict_distinct)
  show ?thesis
  proof (cases "i < length ks \<and> ks ! i = key")
    case True
    then have "map_of (zip ks vs) (ks ! i) = Some (vs ! i)"
      using d assms(2) by (intro map_of_zip_nth) auto
    then show ?thesis using True by simp
  next
    case False
    have "key \<notin> set ks"
    proof
      assume "key \<in> set ks"
      then have "key \<in> set (take i ks) \<or> key \<in> set (drop i ks)" by (metis Un_iff append_take_drop_id set_append)
      then have mem: "key \<in> set (drop i ks)" using spec(2) by auto
      then have "i < length ks" by (cases "i < length ks") auto
      then have hd: "drop i ks = ks ! i # drop (Suc i) ks" by (rule Cons_nth_drop_Suc[symmetric])
      then have "key \<in> set (drop (Suc i) ks)" using mem False \<open>i < length ks\<close> by auto
      moreover have "sorted_wrt (<) (drop i ks)" using assms(1) by (rule sorted_wrt_drop)
      ultimately have "ks ! i < key" using hd by auto
      moreover have "key \<le> ks ! i" using spec(3)[of "ks ! i"] hd by simp
      ultimately show False by simp
    qed
    then have "map_of (zip ks vs) key = None" using assms(2) by simp
    then show ?thesis using False by simp
  qed
qed

definition bt_map :: "BPlusTree \<Rightarrow> string \<rightharpoonup> string" where
  "bt_map t = map_of (entries (leaves (bt_root t)))"

lemma map_of_middle:
  "k \<notin> fst ` set xs \<Longrightarrow> k \<notin> fst ` set zs \<Longrightarrow> map_of (xs @ ys @ zs) k = map_of ys k"
proof -
  assume "k \<notin> fst ` set xs" "k \<notin> fst ` set zs"
  then have "map_of xs k = None" "map_of zs k = None" by (simp_all only: map_of_eq_None_iff not_False_eq_True)
  then show ?thesis by (simp add: map_add_def split: option.split)
qed

lemma bt_Get_aligned:
  assumes "aligned '''' (bt_root t) None"
  shows "bt_Get t key = Some (case bt_map t key of Some v \<Rightarrow> (v, True) | None \<Rightarrow> ('''', False))"
proof -
  obtain l us vs where l: "descend (bt_root t) key = Some l" "leaves (bt_root t) = us @ l # vs"
    "length (leaf_values l) = length (leaf_keys l)" "sorted_wrt (<) (leaf_keys l)"
    "\<forall>x \<in> entry_keys us. x < key" "\<forall>x \<in> entry_keys vs. key < x"
    using descend_spec[OF assms, of key] by auto
  have "bt_map t key = map_of (entries us @ leaf_entries l @ entries vs) key"
    by (simp add: bt_map_def l(2))
  also have "\<dots> = map_of (leaf_entries l) key"
    using l(5,6) by (intro map_of_middle) auto
  finally show ?thesis
    using leaf_lookup[OF l(4,3) refl, of key] l(1,3)
    by (auto simp: bt_Get_def Let_def nth_opt_def leaf_entries_def)
qed

subsection \<open>Insertion\<close>

lemma zip_insert:
  "length vs = length ks \<Longrightarrow> i \<le> length ks \<Longrightarrow>
   zip (take i ks @ k # drop i ks) (take i vs @ v # drop i vs) = take i (zip ks vs) @ (k, v) # drop i (zip ks vs)"
  by (simp add: zip_append take_zip drop_zip)

lemma leaf_put_new:
  assumes "sorted_wrt (<) ks" and "length vs = length ks" and i: "i = SearchStrings ks key" and "key \<notin> set ks"
  shows "zip (take i ks @ key # drop i ks) (take i vs @ val # drop i vs) = put_list key val (zip ks vs)"
proof -
  note spec = SearchStrings_spec[OF assms(1) i]
  let ?z = "zip ks vs"
  have "put_list key val (take i ?z @ drop i ?z) = take i ?z @ put_list key val (drop i ?z)"
    by (rule put_list_append_right) (use spec(2) in \<open>auto simp: take_zip dest: set_zip_leftD\<close>)
  moreover have "put_list key val ([] @ drop i ?z) = put_list key val [] @ drop i ?z"
  proof (rule put_list_append_left)
    fix x assume "x \<in> fst ` set (drop i ?z)"
    then have "x \<in> set (drop i ks)" by (auto simp: drop_zip dest: set_zip_leftD)
    then show "key < x" using spec(3)[of x] assms(4) by (metis in_set_dropD order_neq_le_trans)
  qed
  ultimately have "put_list key val ?z = take i ?z @ (key, val) # drop i ?z"
    by (simp only: append_take_drop_id append_Nil append_Cons put_list.simps)
  then show ?thesis using zip_insert[OF assms(2) spec(1)] by simp
qed

lemma leaf_put_old:
  assumes "sorted_wrt (<) ks" and "length vs = length ks" and "i < length ks"
  shows "zip ks (vs[i := val]) = put_list (ks ! i) val (zip ks vs)"
proof -
  have "put_list (ks ! i) val (zip ks vs) = (zip ks vs)[i := (ks ! i, val)]"
    using assms
  proof (induction ks arbitrary: vs i)
    case (Cons k ks)
    then obtain v ws where vs: "vs = v # ws" by (cases vs) auto
    show ?case
    proof (cases i)
      case (Suc j)
      then have "k < ks ! j" using Cons.prems by auto
      then have "\<not> ks ! j < k" "ks ! j \<noteq> k" by auto
      then show ?thesis using Cons.IH[of ws j] Cons.prems Suc vs by auto
    qed (use vs in simp)
  qed simp
  then show ?thesis by (simp add: update_zip)
qed

fun split_keys :: "(string \<times> node) option \<Rightarrow> string list" where
  "split_keys None = []" | "split_keys (Some (p, r)) = [p]"

fun split_nodes :: "node \<Rightarrow> (string \<times> node) option \<Rightarrow> node list" where
  "split_nodes n None = [n]" | "split_nodes n (Some (p, r)) = [n, r]"

fun fits :: "nat \<Rightarrow> node \<Rightarrow> node \<Rightarrow> (string \<times> node) option \<Rightarrow> bool" where
  "fits h n n' None \<longleftrightarrow> (full h n \<longrightarrow> full h n') \<and> full_root h n'"
| "fits h n n' (Some (p, r)) \<longleftrightarrow> full h n' \<and> full h r"

text \<open>
  \<open>replaced key val t ls ls' t'\<close>: from the leaves \<open>ls\<close> to \<open>ls'\<close> one leaf took the pair, in place or
  by splitting off a new right neighbour, and the counters of the tree follow.
\<close>

definition new_leaves :: "BPlusTree \<Rightarrow> node \<Rightarrow> node list \<Rightarrow> BPlusTree \<Rightarrow> bool" where
  "new_leaves t l new t' \<longleftrightarrow>
     (\<exists>m. new = [m] \<and> leaf_id m = leaf_id l \<and> leaf_next m = leaf_next l \<and> bt_fresh t' = bt_fresh t) \<or>
     (\<exists>m r. new = [m, r] \<and> leaf_id m = leaf_id l \<and> leaf_next m = Some (bt_fresh t) \<and>
        leaf_id r = bt_fresh t \<and> leaf_next r = leaf_next l \<and> bt_fresh t' = Suc (bt_fresh t))"

definition replaced :: "string \<Rightarrow> string \<Rightarrow> BPlusTree \<Rightarrow> node list \<Rightarrow> node list \<Rightarrow> BPlusTree \<Rightarrow> bool" where
  "replaced key val t ls ls' t' \<longleftrightarrow>
     (\<exists>us l vs new. ls = us @ l # vs \<and> ls' = us @ new @ vs \<and>
        entries new = put_list key val (leaf_entries l) \<and> new_leaves t l new t' \<and>
        (\<forall>x \<in> entry_keys us. x < key) \<and> (\<forall>x \<in> entry_keys vs. key < x) \<and>
        bt_size t' = bt_size t + (if key \<in> fst ` set (leaf_entries l) then 0 else 1) \<and>
        bt_order t' = bt_order t)"

lemma replaced_context:
  assumes "replaced key val t ls ls' t'"
    and "\<forall>x \<in> entry_keys as. x < key" and "\<forall>x \<in> entry_keys bs. key < x"
  shows "replaced key val t (as @ ls @ bs) (as @ ls' @ bs) t'"
proof -
  obtain us l vs new where r: "ls = us @ l # vs" "ls' = us @ new @ vs"
    "entries new = put_list key val (leaf_entries l)" "new_leaves t l new t'"
    "\<forall>x \<in> entry_keys us. x < key" "\<forall>x \<in> entry_keys vs. key < x"
    "bt_size t' = bt_size t + (if key \<in> fst ` set (leaf_entries l) then 0 else 1)" "bt_order t' = bt_order t"
    using assms(1) unfolding replaced_def by blast
  show ?thesis unfolding replaced_def
  proof (intro exI conjI)
    show "as @ ls @ bs = (as @ us) @ l # (vs @ bs)" using r(1) by simp
    show "as @ ls' @ bs = (as @ us) @ new @ (vs @ bs)" using r(2) by simp
    show "\<forall>x \<in> entry_keys (as @ us). x < key" using r(5) assms(2) by auto
    show "\<forall>x \<in> entry_keys (vs @ bs). key < x" using r(6) assms(3) by auto
  qed (use r(3,4,7,8) in simp_all)
qed

lemma replaced_leaf:
  "entries new = put_list key val (leaf_entries l) \<Longrightarrow> new_leaves t l new t' \<Longrightarrow>
   bt_size t' = bt_size t + (if key \<in> fst ` set (leaf_entries l) then 0 else 1) \<Longrightarrow> bt_order t' = bt_order t \<Longrightarrow>
   replaced key val t [l] new t'"
  unfolding replaced_def by (rule exI[of _ "[]"], rule exI[of _ l], rule exI[of _ "[]"], rule exI[of _ new]) simp

definition inserts :: "string \<Rightarrow> string option \<Rightarrow> nat \<Rightarrow> node \<Rightarrow> string \<Rightarrow> string \<Rightarrow> BPlusTree \<Rightarrow> bool" where
  "inserts lo hi h n key val t \<longleftrightarrow>
     (\<exists>n' sp t'. bt_insert n key val t = Some (n', sp, t') \<and>
        aligned_list lo (split_keys sp) (split_nodes n' sp) hi \<and> fits h n n' sp \<and>
        replaced key val t (leaves n) (all_leaves (split_nodes n' sp)) t')"

lemma sorted_wrt_insert:
  assumes "sorted_wrt (<) ks" and i: "i = SearchStrings ks key" and "key \<notin> set (ks :: string list)"
  shows "sorted_wrt (<) (take i ks @ key # drop i ks)"
proof -
  note spec = SearchStrings_spec[OF assms(1) i]
  have "\<forall>x \<in> set (drop i ks). key < x" using spec(3) assms(3) by (metis in_set_dropD order_neq_le_trans)
  moreover have "\<forall>x \<in> set (take i ks). x < key" using spec(2) by simp
  ultimately show ?thesis
    using assms(1) by (auto simp: sorted_wrt_append sorted_wrt_take sorted_wrt_drop intro: less_trans)
qed

lemma leaf_missing:
  assumes "sorted_wrt (<) ks" and i: "i = SearchStrings ks key" and "\<not> (i < length ks \<and> ks ! i = key)"
  shows "key \<notin> set ks"
  using leaf_lookup[OF assms(1) _ i, of ks] assms(3) by (simp split: if_splits)

lemma insert_leaf:
  assumes al: "aligned lo (Leaf li ks vs nx) hi" and key: "lo \<le> key" "below key hi"
    and full: "full_root h (Leaf li ks vs nx)" and ord: "bt_order t = 4"
  shows "inserts lo hi h (Leaf li ks vs nx) key val t"
proof -
  define i where "i = SearchStrings ks key"
  have len: "length vs = length ks" and sorted: "sorted_wrt (<) ks" using al by simp_all
  have h: "h = 0" "length ks \<le> 3" using full by simp_all
  note spec = SearchStrings_spec[OF sorted i_def]
  show ?thesis
  proof (cases "i < length ks \<and> ks ! i = key")
    case True
    have "replaced key val t [Leaf li ks vs nx] [Leaf li ks (vs[i := val]) nx] t"
    proof (rule replaced_leaf)
      show "entries [Leaf li ks (vs[i := val]) nx] = put_list key val (leaf_entries (Leaf li ks vs nx))"
        using leaf_put_old[OF sorted len, of i val] True by (simp add: leaf_entries_def)
      have "key \<in> set ks" using True by auto
      then show "bt_size t = bt_size t + (if key \<in> fst ` set (leaf_entries (Leaf li ks vs nx)) then 0 else 1)"
        using len by (simp add: leaf_entries_def set_map[symmetric] del: set_map)
    qed (simp_all add: new_leaves_def)
    then show ?thesis using True al full len
      by (simp add: inserts_def Let_def i_def[symmetric])
  next
    case False
    define ks1 vs1 t1 where "ks1 = take i ks @ key # drop i ks" and "vs1 = take i vs @ val # drop i vs"
      and "t1 = t\<lparr>bt_size := bt_size t + 1\<rparr>"
    have miss: "key \<notin> set ks" by (rule leaf_missing[OF sorted i_def False])
    have ents: "zip ks1 vs1 = put_list key val (zip ks vs)"
      unfolding ks1_def vs1_def by (rule leaf_put_new[OF sorted len i_def miss])
    have len1: "length ks1 = Suc (length ks)" "length vs1 = length ks1"
      using spec(1) len by (simp_all add: ks1_def vs1_def)
    have sorted1: "sorted_wrt (<) ks1" unfolding ks1_def by (rule sorted_wrt_insert[OF sorted i_def miss])
    have set1: "set ks1 = insert key (set ks)"
      unfolding ks1_def by (metis Un_insert_right append_take_drop_id list.simps(15) set_append)
    have range1: "\<forall>k \<in> set ks1. lo \<le> k \<and> below k hi" using al key by (auto simp: set1)
    have size: "bt_size t1 = bt_size t + (if key \<in> fst ` set (leaf_entries (Leaf li ks vs nx)) then 0 else 1)"
      "bt_order t1 = bt_order t"
      using miss len by (simp_all add: t1_def leaf_entries_def set_map[symmetric] del: set_map)
    have eval: "bt_insert (Leaf li ks vs nx) key val t =
        (if length ks1 < 4 then Some (Leaf li ks1 vs1 nx, None, t1) else splitLeaf t1 li ks1 vs1 nx)"
      using False spec(1) len ord
      by (auto simp: Let_def i_def[symmetric] insertAt_def ks1_def vs1_def t1_def)
    show ?thesis
    proof (cases "length ks1 < 4")
      case True
      have "replaced key val t [Leaf li ks vs nx] [Leaf li ks1 vs1 nx] t1"
        by (rule replaced_leaf[OF _ _ size]) (use ents in \<open>auto simp: leaf_entries_def new_leaves_def t1_def\<close>)
      then show ?thesis unfolding inserts_def
        using True eval sorted1 range1 len1 h by (intro exI[of _ "Leaf li ks1 vs1 nx"] exI[of _ None] exI[of _ t1]) auto
    next
      case False
      then have four: "length ks1 = 4" "length ks = 3" using len1 h by simp_all
      define l r t2 where "l = Leaf li (take 2 ks1) (take 2 vs1) (Some (bt_fresh t))"
        and "r = Leaf (bt_fresh t) (drop 2 ks1) (drop 2 vs1) nx" and "t2 = t1\<lparr>bt_fresh := bt_fresh t + 1\<rparr>"
      have split: "splitLeaf t1 li ks1 vs1 nx = Some (l, Some (ks1 ! 2, r), t2)"
        using four len1 by (simp add: splitLeaf_def nth_opt_def l_def r_def t2_def t1_def)
      have sides: "\<forall>k \<in> set (take 2 ks1). k < ks1 ! 2" "\<forall>k \<in> set (drop 2 ks1). ks1 ! 2 \<le> k" "lo < ks1 ! 2"
      proof -
        show 1: "\<forall>k \<in> set (take 2 ks1). k < ks1 ! 2"
          using sorted1 four by (auto simp: in_set_conv_nth sorted_wrt_iff_nth_less)
        have "drop 2 ks1 = ks1 ! 2 # drop 3 ks1" using four by (simp add: Cons_nth_drop_Suc[symmetric])
        then show "\<forall>k \<in> set (drop 2 ks1). ks1 ! 2 \<le> k"
          using sorted_wrt_drop[OF sorted1, of 2] by auto
        have "ks1 ! 0 < ks1 ! 2" using sorted1 four by (simp add: sorted_wrt_iff_nth_less)
        moreover have "lo \<le> ks1 ! 0" using range1 four by (simp add: nth_mem)
        ultimately show "lo < ks1 ! 2" by simp
      qed
      have "aligned_list lo [ks1 ! 2] [l, r] hi"
        using sides range1 sorted1 len1 four
        by (auto simp: l_def r_def sorted_wrt_take sorted_wrt_drop dest: in_set_takeD in_set_dropD)
      moreover have "replaced key val t [Leaf li ks vs nx] [l, r] t2"
      proof (rule replaced_leaf)
        have "entries [l, r] = zip ks1 vs1"
          by (simp add: leaf_entries_def l_def r_def take_zip[symmetric] drop_zip[symmetric])
        then show "entries [l, r] = put_list key val (leaf_entries (Leaf li ks vs nx))"
          by (simp add: ents leaf_entries_def)
      qed (use size in \<open>auto simp: new_leaves_def l_def r_def t2_def t1_def\<close>)
      ultimately show ?thesis unfolding inserts_def
        using False eval split h four
        by (intro exI[of _ l] exI[of _ "Some (ks1 ! 2, r)"] exI[of _ t2]) (auto simp: l_def r_def)
    qed
  qed
qed

lemma full_imp_full_root: "full h n \<Longrightarrow> full_root h n"
  by (cases n) auto

lemma split_full: "fits m c c' sp \<Longrightarrow> full m c \<Longrightarrow> \<forall>d \<in> set (split_nodes c' sp). full m d"
  by (cases sp) auto

text \<open>What an inner node does with the outcome of its child: the new lists, and the split at four keys.\<close>

definition grow_inner :: "BPlusTree \<Rightarrow> string list \<Rightarrow> node list \<Rightarrow> (node \<times> (string \<times> node) option \<times> BPlusTree) option" where
  "grow_inner t ks cs = (if length ks < bt_order t then Some (Inner ks cs, None, t) else splitInternal t ks cs)"

lemma insert_inner_eval:
  assumes "childIndex ks key = length ps" and "ks = ps @ qs" and "cs = us @ c # ws" and "length us = length ps"
    and "bt_insert c key val t = Some (c', sp, t1)" and "bt_order t1 = 4" and "length ks \<le> 3"
  shows "bt_insert (Inner ks cs) key val t =
    grow_inner t1 (ps @ split_keys sp @ qs) (us @ split_nodes c' sp @ ws)"
proof -
  have i: "childIndex ks key < length cs" "cs ! childIndex ks key = c" "cs[childIndex ks key := c'] = us @ c' # ws"
    unfolding assms(1) assms(4)[symmetric] assms(3) by simp_all
  show ?thesis
  proof (cases sp)
    case None
    then show ?thesis using assms i by (simp add: Let_def grow_inner_def)
  next
    case (Some pr)
    obtain p r where pr: "pr = (p, r)" by fastforce
    have "insertAt ks (length ps) p = Some (ps @ p # qs)"
      "insertAt (us @ c' # ws) (Suc (length ps)) r = Some (us @ c' # r # ws)"
      using assms(2) assms(4)[symmetric] by (simp_all add: insertAt_def)
    then show ?thesis using assms i Some pr by (simp add: Let_def grow_inner_def)
  qed
qed

lemma inserts_inner:
  assumes eval: "bt_insert n key val t = grow_inner t1 ks cs" and al: "aligned_list lo ks cs hi"
    and ks: "1 \<le> length ks" "length ks \<le> 4" and cs: "\<forall>c \<in> set cs. full m c"
    and rep: "replaced key val t (leaves n) (all_leaves cs) t1" and ord: "bt_order t1 = 4"
  shows "inserts lo hi (Suc m) n key val t"
proof (cases "length ks < 4")
  case True
  then have "bt_insert n key val t = Some (Inner ks cs, None, t1)" using eval ord by (simp add: grow_inner_def)
  moreover have "fits (Suc m) n (Inner ks cs) None" using ks True cs by simp
  ultimately show ?thesis using al rep unfolding inserts_def by fastforce
next
  case False
  then have four: "length ks = 4" "length cs = 5" using ks aligned_list_length[OF al] by simp_all
  define l r where "l = Inner (take 2 ks) (take 3 cs)" and "r = Inner (drop 3 ks) (drop 3 cs)"
  have ev: "bt_insert n key val t = Some (l, Some (ks ! 2, r), t1)"
    using eval ord four by (simp add: grow_inner_def splitInternal_def nth_opt_def l_def r_def)
  have kq: "ks = take 2 ks @ ks ! 2 # drop 3 ks" using four id_take_nth_drop[of 2 ks] by simp
  have cq: "cs = take 3 cs @ drop 3 cs" by simp
  have "aligned_list lo (take 2 ks @ ks ! 2 # drop 3 ks) (take 3 cs @ drop 3 cs) hi"
    using al kq by simp
  from aligned_list_split[OF this] four
  have "aligned_list lo [ks ! 2] [l, r] hi" by (simp add: l_def r_def)
  moreover have "fits (Suc m) n l (Some (ks ! 2, r))"
    using cs four by (auto simp: l_def r_def dest: in_set_takeD in_set_dropD)
  moreover have "all_leaves cs = all_leaves (take 3 cs) @ all_leaves (drop 3 cs)"
    by (metis append_take_drop_id concat_append map_append)
  then have "all_leaves cs = all_leaves [l, r]" by (simp add: l_def r_def)
  ultimately show ?thesis using ev rep unfolding inserts_def
    by (intro exI[of _ l] exI[of _ "Some (ks ! 2, r)"] exI[of _ t1]) simp
qed

lemma replaced_order: "replaced key val t ls ls' t' \<Longrightarrow> bt_order t' = bt_order t"
  by (auto simp: replaced_def)

lemma bt_insert_spec:
  assumes "aligned lo n hi" and "lo \<le> key" and "below key hi" and "full_root h n" and "bt_order t = 4"
  shows "inserts lo hi h n key val t"
  using assms
proof (induction n key val t arbitrary: lo hi h rule: bt_insert.induct)
  case (1 li ks vs nx key val t)
  then show ?case by (rule insert_leaf)
next
  case (2 ks cs key val t)
  obtain ps qs us c ws where c: "ks = ps @ qs" "cs = us @ c # ws" "length us = length ps"
    "childIndex ks key = length ps" "low_end lo ps \<le> key" "below key (high_end qs hi)"
    "aligned (low_end lo ps) c (high_end qs hi)"
    "\<forall>x \<in> entry_keys (all_leaves us). x < key" "\<forall>x \<in> entry_keys (all_leaves ws). key < x"
    using inner_child[OF "2.prems"(1-3)] by blast
  have i: "childIndex ks key < length cs" "cs ! childIndex ks key = c"
    unfolding c(4) c(3)[symmetric] c(2) by simp_all
  obtain m where m: "h = Suc m" "1 \<le> length ks" "length ks \<le> 3" "\<forall>d \<in> set cs. full m d"
    using "2.prems"(4) by auto
  have fc: "full m c" using m(4) c(2) by simp
  have "inserts (low_end lo ps) (high_end qs hi) m c key val t"
    using "2.IH"[OF refl i(1), unfolded i(2), OF c(7,5,6) full_imp_full_root[OF fc] "2.prems"(5)] .
  then obtain c' sp t1 where c': "bt_insert c key val t = Some (c', sp, t1)"
    "aligned_list (low_end lo ps) (split_keys sp) (split_nodes c' sp) (high_end qs hi)" "fits m c c' sp"
    "replaced key val t (leaves c) (all_leaves (split_nodes c' sp)) t1"
    unfolding inserts_def by blast
  have ord: "bt_order t1 = 4" using replaced_order[OF c'(4)] "2.prems"(5) by simp
  have al: "aligned_list lo (ps @ qs) (us @ c # ws) hi" using "2.prems"(1) c(1,2) by simp
  show ?case unfolding m(1)
  proof (rule inserts_inner)
    show "bt_insert (Inner ks cs) key val t = grow_inner t1 (ps @ split_keys sp @ qs) (us @ split_nodes c' sp @ ws)"
      by (rule insert_inner_eval[OF c(4,1,2,3) c'(1) ord m(3)])
    show "aligned_list lo (ps @ split_keys sp @ qs) (us @ split_nodes c' sp @ ws) hi"
      by (rule aligned_list_child(2)[OF al c(3) c'(2)])
    show "1 \<le> length (ps @ split_keys sp @ qs)" "length (ps @ split_keys sp @ qs) \<le> 4"
      using m(2,3) c(1) by (cases sp; auto)+
    show "\<forall>d \<in> set (us @ split_nodes c' sp @ ws). full m d"
      using m(4) c(2) split_full[OF c'(3) fc] by auto
    show "replaced key val t (leaves (Inner ks cs)) (all_leaves (us @ split_nodes c' sp @ ws)) t1"
      using replaced_context[OF c'(4) c(8,9)] c(2) by simp
  qed (rule ord)
qed

subsection \<open>The tree\<close>

definition chain_ok :: "node \<Rightarrow> nat \<Rightarrow> bool" where
  "chain_ok r fresh \<longleftrightarrow> chained (leaves r) None \<and> distinct (map leaf_id (leaves r)) \<and>
     (\<forall>l \<in> set (leaves r). leaf_id l < fresh)"

definition bt_inv :: "BPlusTree \<Rightarrow> bool" where
  "bt_inv t \<longleftrightarrow> bt_order t = 4 \<and> aligned '''' (bt_root t) None \<and> (\<exists>h. full_root h (bt_root t)) \<and>
     bt_size t = length (entries (leaves (bt_root t))) \<and> chain_ok (bt_root t) (bt_fresh t)"

lemma bt_inv_New: "bt_inv bt_New"
  by (auto simp: bt_inv_def bt_New_def tree_order_def chain_ok_def leaf_entries_def)

lemma chained_append: "chained (us @ l # vs) after \<longleftrightarrow> chained (us @ [l]) (leaf_next l) \<and> chained (l # vs) after"
  by (induction us after rule: chained.induct) auto

lemma chained_replace_last:
  "leaf_id m = leaf_id l \<Longrightarrow> leaf_next m = nx \<Longrightarrow> chained (us @ [l]) (leaf_next l) \<Longrightarrow> chained (us @ [m]) nx"
proof (induction us)
  case (Cons u us)
  then show ?case by (cases us) auto
qed simp

lemma chained_tail: "chained (l # vs) after \<Longrightarrow> leaf_next r = leaf_next l \<Longrightarrow> chained (r # vs) after"
  by (cases vs) auto

lemma replaced_chain:
  assumes "replaced key val t ls ls' t'" and "chained ls None" and "distinct (map leaf_id ls)"
    and "\<forall>l \<in> set ls. leaf_id l < bt_fresh t"
  shows "chained ls' None \<and> distinct (map leaf_id ls') \<and> (\<forall>l \<in> set ls'. leaf_id l < bt_fresh t')"
proof -
  obtain us l vs new where r: "ls = us @ l # vs" "ls' = us @ new @ vs" "new_leaves t l new t'"
    using assms(1) unfolding replaced_def by blast
  have ch: "chained (us @ [l]) (leaf_next l)" "chained (l # vs) None"
    using assms(2)[unfolded r(1)] chained_append[of us l vs None] by blast+
  from r(3) consider
      (one) m where "new = [m]" "leaf_id m = leaf_id l" "leaf_next m = leaf_next l" "bt_fresh t' = bt_fresh t"
    | (two) m q where "new = [m, q]" "leaf_id m = leaf_id l" "leaf_next m = Some (bt_fresh t)"
        "leaf_id q = bt_fresh t" "leaf_next q = leaf_next l" "bt_fresh t' = Suc (bt_fresh t)"
    unfolding new_leaves_def by blast
  then show ?thesis
  proof cases
    case one
    have "chained (us @ [m]) (leaf_next m)" using one ch(1) chained_replace_last by blast
    moreover have "chained (m # vs) None" using one ch(2) chained_tail by blast
    ultimately have "chained ls' None" using r(2) one(1) chained_append[of us m vs] by simp
    then show ?thesis using one r assms(3,4) by auto
  next
    case two
    have "chained (us @ [m]) (leaf_next m)" using two ch(1) chained_replace_last by blast
    moreover have "chained (q # vs) None" using two ch(2) chained_tail by blast
    ultimately have "chained ls' None" using r(2) two chained_append[of us m "q # vs"] by simp
    moreover have "bt_fresh t \<notin> leaf_id ` set ls" using assms(4) by auto
    ultimately show ?thesis using two r assms(3,4) by (auto simp: less_Suc_eq)
  qed
qed

lemma replaced_entries:
  assumes "replaced key val t ls ls' t'"
  shows "entries ls' = put_list key val (entries ls)"
    and "bt_size t' = bt_size t + (if key \<in> entry_keys ls then 0 else 1)"
proof -
  obtain us l vs new where r: "ls = us @ l # vs" "ls' = us @ new @ vs"
    "entries new = put_list key val (leaf_entries l)"
    "\<forall>x \<in> entry_keys us. x < key" "\<forall>x \<in> entry_keys vs. key < x"
    "bt_size t' = bt_size t + (if key \<in> fst ` set (leaf_entries l) then 0 else 1)"
    using assms unfolding replaced_def by blast
  have "put_list key val (entries us @ leaf_entries l @ entries vs) = entries us @ put_list key val (leaf_entries l @ entries vs)"
    by (rule put_list_append_right) (use r(4) in blast)
  also have "put_list key val (leaf_entries l @ entries vs) = put_list key val (leaf_entries l) @ entries vs"
    by (rule put_list_append_left) (use r(5) in blast)
  finally show "entries ls' = put_list key val (entries ls)" using r(1-3) by simp
  have "key \<notin> entry_keys us" "key \<notin> entry_keys vs" using r(4,5) by (metis less_irrefl)+
  then show "bt_size t' = bt_size t + (if key \<in> entry_keys ls then 0 else 1)"
    using r(1,6) by (simp add: image_Un)
qed

lemma bt_Put_inv:
  assumes "bt_inv t"
  shows "\<exists>t'. bt_Put key val t = Some t' \<and> bt_inv t' \<and>
    entries (leaves (bt_root t')) = put_list key val (entries (leaves (bt_root t)))"
proof -
  obtain h where inv: "aligned '''' (bt_root t) None" "full_root h (bt_root t)" "bt_order t = 4"
    "bt_size t = length (entries (leaves (bt_root t)))" "chain_ok (bt_root t) (bt_fresh t)"
    using assms by (auto simp: bt_inv_def)
  have "inserts '''' None h (bt_root t) key val t"
    by (rule bt_insert_spec[OF inv(1) _ _ inv(2,3)]) simp_all
  then obtain n' sp t1 where ins: "bt_insert (bt_root t) key val t = Some (n', sp, t1)"
    "aligned_list '''' (split_keys sp) (split_nodes n' sp) None" "fits h (bt_root t) n' sp"
    "replaced key val t (leaves (bt_root t)) (all_leaves (split_nodes n' sp)) t1"
    unfolding inserts_def by blast
  define r where "r = (case sp of None \<Rightarrow> n' | Some (p, q) \<Rightarrow> Inner [p] [n', q])"
  have put: "bt_Put key val t = Some (t1\<lparr>bt_root := r\<rparr>)"
    using ins(1) by (cases sp) (auto simp: bt_Put_def r_def)
  have lv: "leaves r = all_leaves (split_nodes n' sp)" by (cases sp) (auto simp: r_def)
  have al: "aligned '''' r None" using ins(2) by (cases sp) (auto simp: r_def)
  have full: "\<exists>h. full_root h r" using ins(3) by (cases sp) (auto simp: r_def)
  note ents = replaced_entries[OF ins(4)]
  have size: "bt_size t1 = length (entries (leaves r))"
    using ents inv(4) length_put_list[OF entries_sorted(1)[OF inv(1)]] by (simp add: lv)
  have "chain_ok r (bt_fresh t1)"
    using replaced_chain[OF ins(4)] inv(5) by (auto simp: chain_ok_def lv)
  then have "bt_inv (t1\<lparr>bt_root := r\<rparr>)"
    using al full size replaced_order[OF ins(4)] inv(3) by (simp add: bt_inv_def)
  then show ?thesis using put ents(1) lv by simp
qed

interpretation btree: kv_store bt_Put bt_Get bt_map bt_inv "\<lambda>_ _. True"
proof
  fix s :: BPlusTree and k v :: string
  assume inv: "bt_inv s"
  then have "sorted_keys (entries (leaves (bt_root s)))"
    using entries_sorted(1) by (auto simp: bt_inv_def)
  then show "\<exists>s'. bt_Put k v s = Some s' \<and> bt_inv s' \<and> bt_map s' = (bt_map s)(k \<mapsto> v)"
    using bt_Put_inv[OF inv, of k v] map_of_put_list by (auto simp: bt_map_def)
  show "bt_Get s k = Some (case bt_map s k of Some v \<Rightarrow> (v, True) | None \<Rightarrow> ('''', False))"
    using inv by (intro bt_Get_aligned) (simp add: bt_inv_def)
qed

subsection \<open>Range scans over the chain\<close>

lemma find_distinct: "distinct (map f xs) \<Longrightarrow> x \<in> set xs \<Longrightarrow> find (\<lambda>y. f y = f x) xs = Some x"
  by (induction xs) auto

lemma next_leaf_at:
  assumes "chain_ok r fresh" and "leaves r = us @ l # vs"
  shows "next_leaf r l = Some (case vs of [] \<Rightarrow> None | v # _ \<Rightarrow> Some v)"
proof -
  have ch: "chained (l # vs) None"
    using assms(1)[unfolded chain_ok_def assms(2)] chained_append[of us l vs None] by blast
  show ?thesis
  proof (cases vs)
    case (Cons v ws)
    have "distinct (map leaf_id (leaves r))" "v \<in> set (leaves r)"
      using assms Cons by (simp_all add: chain_ok_def)
    then have "leaf_at r (leaf_id v) = Some v" unfolding leaf_at_def by (rule find_distinct)
    then show ?thesis using ch Cons by (simp add: next_leaf_def)
  qed (use ch in \<open>simp add: next_leaf_def\<close>)
qed

lemma keys_walk_chain:
  assumes "chain_ok r fresh" and "leaves r = us @ l # vs"
  shows "keys_walk r (Some l) = Some (concat (map leaf_keys (l # vs)))"
  using assms(2)
proof (induction vs arbitrary: us l)
  case Nil
  then show ?case using next_leaf_at[OF assms(1) Nil] by (simp add: keys_walk.simps)
next
  case (Cons v vs)
  then have "keys_walk r (Some v) = Some (concat (map leaf_keys (v # vs)))"
    using Cons.IH[of "us @ [l]" v] by simp
  then show ?case using next_leaf_at[OF assms(1) Cons.prems] by (simp add: keys_walk.simps[of r "Some l"])
qed

definition show_pair :: "string \<times> string \<Rightarrow> string" where
  "show_pair kv = fst kv @ ''='' @ snd kv"

definition in_range :: "string \<Rightarrow> string \<Rightarrow> string \<times> string \<Rightarrow> bool" where
  "in_range start stop kv \<longleftrightarrow> start \<le> fst kv \<and> fst kv \<le> stop"

lemma filter_in_range_Nil:
  "\<forall>x \<in> fst ` set xs. x < start \<or> stop < x \<Longrightarrow> filter (in_range start stop) xs = []"
  by (rule filter_eq_NilI) (auto simp: in_range_def)

lemma range_leaf_spec:
  "sorted_wrt (<) ks \<Longrightarrow> length vs = length ks \<Longrightarrow>
   range_leaf start stop ks vs = Some (map show_pair (filter (in_range start stop) (zip ks vs)),
     \<exists>k \<in> set ks. start \<le> k \<and> stop < k)"
proof (induction start stop ks vs rule: range_leaf.induct)
  case (2 start stop k ks vs)
  then obtain v ws where vs: "vs = v # ws" by (cases vs) auto
  consider "k < start" | "\<not> k < start" "stop < k" | "\<not> k < start" "\<not> stop < k" by blast
  then show ?case
  proof cases
    case 1
    then show ?thesis using "2.IH"(1) "2.prems" vs by (auto simp: in_range_def)
  next
    case 2
    have "filter (in_range start stop) (zip (k # ks) vs) = []"
    proof (rule filter_in_range_Nil)
      have "fst ` set (zip (k # ks) vs) = insert k (set ks)"
        using "2.prems" vs by (simp add: set_map[symmetric] del: set_map)
      then show "\<forall>x \<in> fst ` set (zip (k # ks) vs). x < start \<or> stop < x"
        using "2.prems"(1) 2 by (auto intro: less_trans)
    qed
    then show ?thesis using 2 vs by auto
  next
    case 3
    then show ?thesis using "2.IH"(2) "2.prems" vs by (auto simp: in_range_def show_pair_def)
  qed
qed simp

definition leaf_wf :: "node \<Rightarrow> bool" where
  "leaf_wf l \<longleftrightarrow> length (leaf_values l) = length (leaf_keys l) \<and> sorted_wrt (<) (leaf_keys l)"

lemma leaves_wf:
  "aligned lo n hi \<Longrightarrow> \<forall>l \<in> set (leaves n). leaf_wf l"
  "aligned_list lo ks cs hi \<Longrightarrow> \<forall>l \<in> set (all_leaves cs). leaf_wf l"
  by (induction lo n hi and lo ks cs hi rule: aligned_aligned_list.induct) (auto simp: leaf_wf_def)

lemma fst_leaf_entries: "leaf_wf l \<Longrightarrow> map fst (leaf_entries l) = leaf_keys l"
  by (simp add: leaf_wf_def leaf_entries_def)

lemma range_walk_chain:
  assumes "chain_ok r fresh" and "leaves r = us @ l # vs"
    and "\<forall>m \<in> set (l # vs). leaf_wf m" and "sorted_keys (entries (l # vs))"
  shows "range_walk r start stop (Some l) =
    Some (map show_pair (filter (in_range start stop) (entries (l # vs))))"
  using assms(2-)
proof (induction vs arbitrary: us l)
  case Nil
  have "range_leaf start stop (leaf_keys l) (leaf_values l) =
      Some (map show_pair (filter (in_range start stop) (leaf_entries l)), \<exists>k \<in> set (leaf_keys l). start \<le> k \<and> stop < k)"
    using Nil.prems(2) range_leaf_spec by (simp add: leaf_wf_def leaf_entries_def)
  then show ?case using next_leaf_at[OF assms(1) Nil.prems(1)] by (simp add: range_walk.simps)
next
  case (Cons v vs)
  have wf: "leaf_wf l" using Cons.prems(2) by simp
  have here: "range_leaf start stop (leaf_keys l) (leaf_values l) =
      Some (map show_pair (filter (in_range start stop) (leaf_entries l)), \<exists>k \<in> set (leaf_keys l). start \<le> k \<and> stop < k)"
    using wf range_leaf_spec by (simp add: leaf_wf_def leaf_entries_def)
  show ?case
  proof (cases "\<exists>k \<in> set (leaf_keys l). start \<le> k \<and> stop < k")
    case True
    then obtain k where k: "k \<in> set (leaf_keys l)" "stop < k" by blast
    have "k \<in> fst ` set (leaf_entries l)" using k(1) fst_leaf_entries[OF wf] by (metis set_map)
    moreover have "sorted_keys (leaf_entries l @ entries (v # vs))" using Cons.prems(3) by simp
    ultimately have "\<forall>x \<in> fst ` set (entries (v # vs)). k < x" unfolding sorted_keys_append by blast
    then have "filter (in_range start stop) (entries (v # vs)) = []"
      using k(2) by (intro filter_in_range_Nil) (auto intro: less_trans)
    then show ?thesis using here True by (simp add: range_walk.simps[of r start stop "Some l"])
  next
    case False
    have "range_walk r start stop (Some v) = Some (map show_pair (filter (in_range start stop) (entries (v # vs))))"
      using Cons.prems by (intro Cons.IH[of "us @ [l]"]) (auto simp: sorted_wrt_append)
    then show ?thesis using here False next_leaf_at[OF assms(1) Cons.prems(1)]
      by (simp add: range_walk.simps[of r start stop "Some l"])
  qed
qed

lemma bt_Range_inv:
  assumes "bt_inv t"
  shows "bt_Range t start stop = Some (map show_pair (filter (in_range start stop) (entries (leaves (bt_root t)))))"
proof -
  have al: "aligned '''' (bt_root t) None" and ch: "chain_ok (bt_root t) (bt_fresh t)"
    using assms by (simp_all add: bt_inv_def)
  obtain l us vs where l: "descend (bt_root t) start = Some l" "leaves (bt_root t) = us @ l # vs"
    "\<forall>x \<in> entry_keys us. x < start" using descend_spec[OF al, of start] by auto
  have "\<forall>m \<in> set (l # vs). leaf_wf m" using leaves_wf(1)[OF al] l(2) by auto
  moreover have "sorted_keys (entries (l # vs))" using entries_sorted(1)[OF al] l(2) by (simp add: sorted_wrt_append)
  ultimately have "range_walk (bt_root t) start stop (Some l) =
      Some (map show_pair (filter (in_range start stop) (entries (l # vs))))"
    by (rule range_walk_chain[OF ch l(2)])
  moreover have "filter (in_range start stop) (entries us) = []"
    using l(3) by (intro filter_in_range_Nil) blast
  ultimately show ?thesis using l(1,2) by (simp add: bt_Range_def)
qed

lemma leftmost_leaves: "full_root h n \<Longrightarrow> aligned lo n hi \<Longrightarrow> \<exists>l vs. leftmost n = Some l \<and> leaves n = l # vs"
proof (induction n arbitrary: h lo hi rule: leftmost.induct)
  case (3 ks c cs)
  then obtain m where "full m c" by auto
  moreover obtain k where "aligned lo c k" using "3.prems"(2) by (cases ks; cases cs) auto
  ultimately show ?case using "3.IH" full_imp_full_root by fastforce
qed auto

lemma concat_leaf_keys: "\<forall>l \<in> set ls. leaf_wf l \<Longrightarrow> concat (map leaf_keys ls) = map fst (entries ls)"
  by (induction ls) (auto simp: fst_leaf_entries)

lemma bt_Keys_inv:
  assumes "bt_inv t" shows "bt_Keys t = Some (map fst (entries (leaves (bt_root t))))"
proof -
  have al: "aligned '''' (bt_root t) None" and ch: "chain_ok (bt_root t) (bt_fresh t)"
    using assms by (simp_all add: bt_inv_def)
  obtain h where h: "full_root h (bt_root t)" using assms by (auto simp: bt_inv_def)
  obtain l vs where l: "leftmost (bt_root t) = Some l" "leaves (bt_root t) = [] @ l # vs"
    using leftmost_leaves[OF h al] by auto
  show ?thesis
    using keys_walk_chain[OF ch l(2)] concat_leaf_keys[OF leaves_wf(1)[OF al]] l by (simp add: bt_Keys_def)
qed

subsection \<open>Height\<close>

lemma full_height: "full h n \<Longrightarrow> aligned lo n hi \<Longrightarrow> node_height n = Some (Suc h)"
proof (induction n arbitrary: h lo hi rule: node_height.induct)
  case (3 ks c cs)
  then obtain m where m: "h = Suc m" "full m c" by auto
  moreover obtain k where "aligned lo c k" using "3.prems"(2) by (cases ks; cases cs) auto
  ultimately show ?case using "3.IH" by fastforce
qed auto

lemma full_size:
  "aligned lo n hi \<Longrightarrow> full h n \<Longrightarrow> 2 ^ Suc h \<le> length (entries (leaves n))"
  "aligned_list lo ks cs hi \<Longrightarrow> \<forall>c \<in> set cs. full m c \<Longrightarrow> length cs * 2 ^ Suc m \<le> length (entries (all_leaves cs))"
proof (induction lo n hi and lo ks cs hi arbitrary: h and m rule: aligned_aligned_list.induct)
  case (1 lo i ks vs nx hi)
  then show ?case by (simp add: leaf_entries_def)
next
  case (2 lo ks cs hi)
  then obtain m where m: "h = Suc m" "1 \<le> length ks" "\<forall>c \<in> set cs. full m c" by auto
  have "2 \<le> length cs" using m(2) aligned_list_length 2(2) by fastforce
  then have "2 * 2 ^ Suc m \<le> length cs * (2::nat) ^ Suc m" by (rule mult_le_mono1)
  also have "\<dots> \<le> length (entries (all_leaves cs))" using 2(1,2) m(3) by simp
  finally show ?case by (simp add: m(1))
next
  case (4 lo k ks c cs hi)
  have "2 ^ Suc m \<le> length (entries (leaves c))" using 4(1)[of m] 4(3,4) by simp
  moreover have "length cs * 2 ^ Suc m \<le> length (entries (all_leaves cs))" using 4(2)[of m] 4(3,4) by simp
  ultimately show ?case by simp
qed auto

subsection \<open>Correctness of the index\<close>

definition bt_puts :: "(string \<times> string) list \<Rightarrow> BPlusTree option" where
  "bt_puts kvs = kv_puts bt_Put kvs bt_New"

lemma bt_puts_inv:
  "\<exists>t. bt_puts kvs = Some t \<and> bt_inv t \<and> bt_map t = map_of (rev kvs)"
  using btree.puts_content[OF bt_inv_New, of kvs] by (simp add: bt_puts_def) (simp add: bt_map_def bt_New_def leaf_entries_def)

text \<open>C5: an index built by any sequence of puts exists (no index is ever out of range), and a lookup
  returns the value put last under the key, or not found when there was none.\<close>

theorem bt_Get_after_puts:
  "\<exists>t. bt_puts kvs = Some t \<and>
    bt_Get t key = Some (case map_of (rev kvs) key of Some v \<Rightarrow> (v, True) | None \<Rightarrow> ('''', False))"
  using bt_puts_inv[of kvs] btree.get_content by auto

text \<open>C16: a range scan returns the pairs with keys from \<open>start\<close> to \<open>stop\<close>, all of them, each once, in
  ascending order of the keys, by walking the leaf chain.\<close>

theorem bt_Range_complete:
  "\<exists>t xs. bt_puts kvs = Some t \<and> bt_Range t start stop = Some (map show_pair xs) \<and> sorted_keys xs \<and>
    set xs = {(k, v). map_of (rev kvs) k = Some v \<and> start \<le> k \<and> k \<le> stop}"
proof -
  obtain t where t: "bt_puts kvs = Some t" "bt_inv t" "bt_map t = map_of (rev kvs)" using bt_puts_inv by blast
  let ?es = "entries (leaves (bt_root t))"
  have s: "sorted_keys ?es" using t(2) entries_sorted(1) by (auto simp: bt_inv_def)
  have "distinct (map fst ?es)" using s by (rule sorted_strict_distinct)
  then have "set (filter (in_range start stop) ?es) = {(k, v). map_of (rev kvs) k = Some v \<and> start \<le> k \<and> k \<le> stop}"
    unfolding t(3)[symmetric] bt_map_def by (auto simp: in_range_def)
  moreover have "sorted_keys (filter (in_range start stop) ?es)"
    using s by (simp add: sorted_wrt_map sorted_wrt_filter)
  ultimately show ?thesis using t(1) bt_Range_inv[OF t(2)] by blast
qed

text \<open>C30: the tree stays balanced and half full, so it is shallow: a tree of height \<open>h > 1\<close> holds at
  least \<open>2 ^ h\<close> keys, \<open>Len\<close> counts the keys, and the self-check \<open>LeafChainIntact\<close> succeeds.\<close>

theorem bt_balanced:
  "\<exists>t h. bt_puts kvs = Some t \<and> bt_Height t = Some h \<and> (h = 1 \<or> 2 ^ h \<le> bt_Len t) \<and>
    bt_Len t = card (fst ` set kvs) \<and> LeafChainIntact t = Some True"
proof -
  obtain t where t: "bt_puts kvs = Some t" "bt_inv t" "bt_map t = map_of (rev kvs)" using bt_puts_inv by blast
  let ?es = "entries (leaves (bt_root t))"
  obtain h where h: "full_root h (bt_root t)" using t(2) by (auto simp: bt_inv_def)
  have al: "aligned '''' (bt_root t) None" and size: "bt_size t = length ?es" using t(2) by (simp_all add: bt_inv_def)
  have s: "sorted_keys ?es" using al by (rule entries_sorted(1))
  have "\<exists>h. bt_Height t = Some h \<and> (h = 1 \<or> 2 ^ h \<le> bt_Len t)"
  proof (cases "bt_root t")
    case (Inner ks cs)
    then have "full h (bt_root t)" using h by simp
    then show ?thesis using full_height full_size(1) al size by (metis bt_Height_def bt_Len_def)
  qed (simp add: bt_Height_def)
  moreover have "bt_Len t = card (fst ` set kvs)"
  proof -
    have "dom (bt_map t) = fst ` set ?es" by (simp add: bt_map_def dom_map_of_conv_image_fst)
    then have "fst ` set ?es = fst ` set kvs" using t(3) by (simp add: dom_map_of_conv_image_fst)
    moreover have "card (set (map fst ?es)) = length (map fst ?es)" using sorted_strict_distinct[OF s] by (rule distinct_card)
    ultimately show ?thesis by (simp add: bt_Len_def size)
  qed
  moreover have "LeafChainIntact t = Some True"
    using bt_Keys_inv[OF t(2)] s size by (simp add: LeafChainIntact_def strict_sorted_iff)
  ultimately show ?thesis using t(1) by blast
qed

end
