(* ===== verification/BPlusTreePrint.thy ===== *)
theory BPlusTreePrint
  imports BPlusTree
begin

text \<open>
  \<open>String\<close> of \<^verbatim>\<open>code/b_tree/btree.go\<close>: the tree as text, a line for each node in preorder.
\<close>

text \<open>\<open>fmt.Sprint\<close> of a slice of strings.\<close>

fun join_spaces :: "string list \<Rightarrow> string" where
  "join_spaces [] = ''''"
| "join_spaces [k] = k"
| "join_spaces (k # ks) = k @ '' '' @ join_spaces ks"

definition Sprint_strings :: "string list \<Rightarrow> string" where
  "Sprint_strings ks = ''['' @ join_spaces ks @ '']''"

text \<open>A line: the depth of its node, whether this is a leaf, its keys.\<close>

type_synonym line = "nat \<times> bool \<times> string list"

fun show_line :: "line \<Rightarrow> string" where
  "show_line (depth, leaf, keys) =
     concat (replicate depth ''  '') @ (if leaf then ''leaf '' else ''node '') @ Sprint_strings keys @ [CHR 0x0A]"

function walk :: "node \<Rightarrow> nat \<Rightarrow> line list" where
  "walk (Leaf i ks vs n) depth = [(depth, True, ks)]"
| "walk (Inner ks cs) depth = (depth, False, ks) # concat (map (\<lambda>c. walk c (depth + 1)) cs)"
  by pat_completeness auto
termination by (relation "measure (\<lambda>(n, d). size n)") (auto simp: less_Suc_eq_le size_list_estimation')

definition bt_String :: "BPlusTree \<Rightarrow> string" where
  "bt_String t = concat (map show_line (walk (bt_root t) 0))"

subsection \<open>What is printed\<close>

text \<open>The keys in the lines of the leaves, from top to bottom.\<close>

fun printed_keys :: "line list \<Rightarrow> string list" where
  "printed_keys [] = []"
| "printed_keys ((depth, leaf, keys) # ls) = (if leaf then keys else []) @ printed_keys ls"

lemma printed_keys_append: "printed_keys (ls @ ms) = printed_keys ls @ printed_keys ms"
  by (induction ls rule: printed_keys.induct) auto

lemma printed_keys_walk: "printed_keys (walk n depth) = concat (map leaf_keys (leaves n))"
proof (induction n depth rule: walk.induct)
  case (2 ks cs depth)
  have "printed_keys (concat (map (\<lambda>c. walk c (depth + 1)) ds)) = concat (map leaf_keys (all_leaves ds))"
    if "set ds \<subseteq> set cs" for ds
    using that by (induction ds) (use 2 in \<open>auto simp: printed_keys_append\<close>)
  then show ?case by simp
qed simp

lemma walk_depths:
  "full h n \<Longrightarrow> (d, leaf, ks) \<in> set (walk n depth) \<Longrightarrow> depth \<le> d \<and> d \<le> depth + h \<and> (leaf \<longleftrightarrow> d = depth + h)"
proof (induction n depth arbitrary: h rule: walk.induct)
  case (2 ks' cs depth)
  then obtain m where m: "h = Suc m" "\<forall>c \<in> set cs. full m c" by auto
  from 2(3) consider "d = depth" "\<not> leaf" | c where "c \<in> set cs" "(d, leaf, ks) \<in> set (walk c (depth + 1))" by auto
  then show ?case
  proof cases
    case (2 c)
    then show ?thesis using "2.IH"[of c m] m by auto
  qed (simp add: m(1))
qed auto

lemma walk_root_depths:
  "full_root h n \<Longrightarrow> (d, leaf, ks) \<in> set (walk n 0) \<Longrightarrow> d \<le> h \<and> (leaf \<longleftrightarrow> d = h)"
  by (cases n) (use walk_depths[of h n d leaf ks 0] in auto)

text \<open>The text shows the whole index: the leaf lines list, from top to bottom, the keys that \<open>Keys\<close> reads along the leaf chain,
  and they, and no other lines, are indented by the height less one.\<close>

theorem bt_String_shows_keys:
  "\<exists>t ls h. bt_puts kvs = Some t \<and> bt_String t = concat (map show_line ls) \<and> bt_Height t = Some h \<and>
    bt_Keys t = Some (printed_keys ls) \<and> list_all (\<lambda>(d, leaf, ks). d < h \<and> leaf = (d + 1 = h)) ls"
proof -
  obtain t where t: "bt_puts kvs = Some t" "bt_inv t" using bt_puts_inv by blast
  obtain h where h: "full_root h (bt_root t)" using t(2) by (auto simp: bt_inv_def)
  have al: "aligned '''' (bt_root t) None" using t(2) by (simp add: bt_inv_def)
  have "bt_Height t = Some (Suc h)"
    using h full_height[OF _ al, of h] by (cases "bt_root t") (auto simp: bt_Height_def)
  moreover have "bt_Keys t = Some (printed_keys (walk (bt_root t) 0))"
    using bt_Keys_inv[OF t(2)] concat_leaf_keys[OF leaves_wf(1)[OF al]] by (simp add: printed_keys_walk)
  moreover have "list_all (\<lambda>(d, leaf, ks). d < Suc h \<and> leaf = (d + 1 = Suc h)) (walk (bt_root t) 0)"
    using walk_root_depths[OF h] by (fastforce simp: list_all_iff less_Suc_eq_le)
  ultimately show ?thesis using t(1) bt_String_def by blast
qed

end
