(* ===== verification/Codec.thy ===== *)
theory Codec
  imports Prelude
begin

text \<open>
  Bytes and self-delimiting codecs.  A Go string becomes bytes and back without loss.
  \<open>prefix_codec\<close> is the contract of a decoder that reads one value off the front of a byte
  sequence and reports how much it consumed: what follows the value does not matter.  From it
  follow that no encoding is a proper prefix of another and that a sequence of encodings decodes
  to the sequence of values.
\<close>

unbundle bit_operations_syntax

subsection \<open>Strings as bytes\<close>

definition byte_of_char :: "char \<Rightarrow> byte" where
  "byte_of_char c = word_of_nat (of_char c)"

definition char_of_byte :: "byte \<Rightarrow> char" where
  "char_of_byte b = char_of (unat b)"

definition bytes_of :: "string \<Rightarrow> byte list" where
  "bytes_of s = map byte_of_char s"

definition string_of :: "byte list \<Rightarrow> string" where
  "string_of b = map char_of_byte b"

lemma byte_char [simp]: "byte_of_char (char_of_byte b) = b"
proof -
  have "unat b < 256" using unsigned_less[where 'a = nat, of b] by simp
  then show ?thesis by (simp add: byte_of_char_def char_of_byte_def)
qed

lemma char_byte [simp]: "char_of_byte (byte_of_char c) = c"
  by (simp add: byte_of_char_def char_of_byte_def unat_of_nat)

lemma string_bytes [simp]: "string_of (bytes_of s) = s" "bytes_of (string_of b) = b"
  by (simp_all add: string_of_def bytes_of_def o_def)

lemma length_bytes [simp]: "length (bytes_of s) = length s" "length (string_of b) = length b"
  by (simp_all add: string_of_def bytes_of_def)

lemma bytes_of_inject [simp]: "bytes_of s = bytes_of t \<longleftrightarrow> s = t"
  by (metis string_bytes(1))

lemma bytes_of_empty [simp]: "bytes_of [] = []" "bytes_of s = [] \<longleftrightarrow> s = []"
  by (simp_all add: bytes_of_def)

subsection \<open>Self-delimiting codecs\<close>

locale prefix_codec =
  fixes enc :: "'a \<Rightarrow> byte list"
    and dec :: "byte list \<Rightarrow> 'e + ('a \<times> nat)"
    and ok :: "'a \<Rightarrow> bool"
  assumes dec_enc: "ok x \<Longrightarrow> dec (enc x @ rest) = Inr (x, length (enc x))"
    and dec_bounds: "dec b = Inr (x, n) \<Longrightarrow> 0 < n \<and> n \<le> length b"
    and dec_local: "dec b = Inr (x, n) \<Longrightarrow> dec (take n b @ c) = Inr (x, n)"
begin

lemma enc_nonempty: "ok x \<Longrightarrow> enc x \<noteq> []"
  using dec_enc[of x "[]"] dec_bounds by fastforce

lemma enc_inj: "ok x \<Longrightarrow> ok y \<Longrightarrow> enc x @ r = enc y @ s \<Longrightarrow> x = y \<and> r = s"
  using dec_enc[of x r] dec_enc[of y s] by auto

lemma dec_append: "dec b = Inr (x, n) \<Longrightarrow> dec (b @ c) = Inr (x, n)"
  using dec_local[of b x n "drop n b @ c"] by (simp add: append_assoc[symmetric] del: append_assoc)

lemma dec_take: "dec b = Inr (x, n) \<Longrightarrow> n \<le> k \<Longrightarrow> dec (take k b) = Inr (x, n)"
proof -
  assume d: "dec b = Inr (x, n)" and "n \<le> k"
  then have "take k b = take n b @ take (k - n) (drop n b)" by (metis le_add_diff_inverse take_add)
  then show ?thesis using dec_local[OF d] by simp
qed

end

subsection \<open>Little-endian integers\<close>

text \<open>The \<open>binary.LittleEndian\<close> functions: \<open>n\<close> bytes of a word, the lowest first, and back.\<close>

definition le_bytes :: "nat \<Rightarrow> 'a::len word \<Rightarrow> byte list" where
  "le_bytes n v = map (\<lambda>i. ucast (drop_bit (8 * i) v)) [0..<n]"

fun le_word :: "byte list \<Rightarrow> 'a::len word" where
  "le_word [] = 0"
| "le_word (b # bs) = ucast b OR push_bit 8 (le_word bs)"

lemma length_le_bytes [simp]: "length (le_bytes n v) = n"
  by (simp add: le_bytes_def)

lemma le_bytes_Suc: "le_bytes (Suc n) v = ucast v # le_bytes n (drop_bit 8 v)"
  by (simp add: le_bytes_def upt_conv_Cons map_Suc_upt[symmetric] o_def add.commute del: upt_Suc)

lemma le_word_bytes: "LENGTH('a) = 8 * n \<Longrightarrow> le_word (le_bytes n v) = (v :: 'a::len word)"
proof -
  have "le_word (le_bytes n v) = take_bit (8 * n) v" for v :: "'a word"
  proof (induction n arbitrary: v)
    case (Suc n)
    show ?case unfolding le_bytes_Suc le_word.simps Suc.IH
    proof (rule bit_word_eqI)
      fix m assume m: "m < LENGTH('a)"
      show "bit (ucast (ucast v :: byte) OR push_bit 8 (take_bit (8 * n) (drop_bit 8 v))) m = bit (take_bit (8 * Suc n) v) m"
        using m by (cases "m < 8") (auto simp: bit_simps)
    qed
  qed (simp add: le_bytes_def)
  then show "LENGTH('a) = 8 * n \<Longrightarrow> le_word (le_bytes n v) = v" by (metis take_bit_length_eq)
qed

subsection \<open>Decimal numerals\<close>

text \<open>The formats \<open>%d\<close> and \<open>%0wd\<close> of \<open>fmt\<close> for natural numbers.\<close>

fun decimal :: "nat \<Rightarrow> string" where
  "decimal n = (if n < 10 then [char_of (48 + n)] else decimal (n div 10) @ [char_of (48 + n mod 10)])"

definition padded :: "nat \<Rightarrow> nat \<Rightarrow> string" where
  "padded w n = replicate (w - length (decimal n)) (CHR ''0'') @ decimal n"

definition undecimal :: "string \<Rightarrow> nat" where
  "undecimal s = foldl (\<lambda>v c. 10 * v + (of_char c - 48)) 0 s"

lemma undecimal_decimal: "undecimal (decimal n) = n"
proof (induction n rule: decimal.induct)
  case (1 n)
  show ?case
  proof (cases "n < 10")
    case False
    with 1 have "undecimal (decimal (n div 10)) = n div 10" by simp
    then show ?thesis using False
      by (simp add: undecimal_def del: decimal.simps) (simp add: decimal.simps[of n] of_char_of del: decimal.simps)
  qed (simp add: undecimal_def)
qed

lemma undecimal_padded: "undecimal (padded w n) = n"
proof -
  have "foldl (\<lambda>v c. 10 * v + (of_char c - 48)) 0 (replicate k (CHR ''0'') @ s) = undecimal s" for k and s :: string
    by (induction k) (simp_all add: undecimal_def)
  then show ?thesis unfolding padded_def undecimal_def[of "_ @ _"] by (simp only: undecimal_decimal)
qed

lemma decimal_inj: "decimal m = decimal n \<Longrightarrow> m = n"
  by (metis undecimal_decimal)

lemma padded_inj: "padded w m = padded w n \<Longrightarrow> m = n"
  by (metis undecimal_padded)

lemma length_decimal: "n < 10 ^ k \<Longrightarrow> 0 < k \<Longrightarrow> length (decimal n) \<le> k"
proof (induction n arbitrary: k rule: decimal.induct)
  case (1 n)
  show ?case
  proof (cases "n < 10")
    case False
    then obtain j where k: "k = Suc j" "0 < j" using "1.prems" by (cases k; cases "k - 1") auto
    then have "length (decimal (n div 10)) \<le> j" using "1.prems" by (intro "1.IH"[OF False]) auto
    then show ?thesis using False k by simp
  qed (use "1.prems" in simp)
qed

definition is_digit :: "char \<Rightarrow> bool" where
  "is_digit c \<longleftrightarrow> 48 \<le> (of_char c :: nat) \<and> (of_char c :: nat) \<le> 57"

lemma decimal_digits: "list_all is_digit (decimal n) \<and> decimal n \<noteq> []"
proof (induction n rule: decimal.induct)
  case (1 n)
  show ?case
  proof (cases "n < 10")
    case False
    with 1 have "list_all is_digit (decimal (n div 10))" by simp
    moreover have "is_digit (char_of (48 + n mod 10))" by (simp add: is_digit_def of_char_of)
    ultimately show ?thesis using False by (simp add: decimal.simps[of n] del: decimal.simps)
  qed (simp add: is_digit_def of_char_of)
qed

lemma decimal_char: "c \<in> set (decimal n) \<Longrightarrow> is_digit c"
  using decimal_digits[of n] by (auto simp: list_all_iff)

end
