(* ===== verification/Wire.thy ===== *)
theory Wire
  imports Codec "HOL-Library.Signed_Division"
begin

text \<open>
  \<^verbatim>\<open>code/grpc_example/wire.go\<close>: the protobuf wire format by hand, and the \<open>Order\<close> message.
  A \<open>uint64\<close> or \<open>int64\<close> is a 64-bit word, a slice of bytes a list; the appending functions take
  the slice to extend and return it, as in Go.  \<open>Inl\<close> is the error a function returns.
\<close>

unbundle bit_operations_syntax

datatype wire_error = ErrTruncated | ErrVarintOverflow | ErrBadWireType u64

type_synonym WireType = u64

abbreviation (input) WireVarint :: WireType where "WireVarint \<equiv> 0"
abbreviation (input) WireFixed64 :: WireType where "WireFixed64 \<equiv> 1"
abbreviation (input) WireBytes :: WireType where "WireBytes \<equiv> 2"
abbreviation (input) WireFixed32 :: WireType where "WireFixed32 \<equiv> 5"

definition WireType_String :: "WireType \<Rightarrow> string" where
  "WireType_String w =
     (if w = WireVarint then ''varint'' else if w = WireFixed64 then ''fixed64''
      else if w = WireBytes then ''length-delimited'' else if w = WireFixed32 then ''fixed32''
      else ''unknown'')"

subsection \<open>Varints\<close>

lemma drop_bit_7_less: "0x80 \<le> (v :: u64) \<Longrightarrow> unat (drop_bit 7 v) < unat v"
  by (simp add: drop_bit_eq_div unat_div word_le_nat_alt)

function AppendVarint :: "byte list \<Rightarrow> u64 \<Rightarrow> byte list" where
  "AppendVarint b v =
     (if v \<ge> 0x80 then AppendVarint (b @ [ucast v OR 0x80]) (drop_bit 7 v) else b @ [ucast v])"
  by auto
termination by (relation "measure (\<lambda>(b, v). unat v)") (simp_all add: drop_bit_7_less)

declare AppendVarint.simps [simp del]

fun varint_loop :: "byte list \<Rightarrow> nat \<Rightarrow> u64 \<Rightarrow> nat \<Rightarrow> wire_error + (u64 \<times> nat)" where
  "varint_loop [] i v shift = Inl ErrTruncated"
| "varint_loop (c # cs) i v shift =
     (if i > 9 then Inl ErrVarintOverflow
      else let v' = v OR push_bit shift (ucast (c AND 0x7f)) in
        if c < 0x80 then Inr (v', i + 1) else varint_loop cs (i + 1) v' (shift + 7))"

definition ConsumeVarint :: "byte list \<Rightarrow> wire_error + (u64 \<times> nat)" where
  "ConsumeVarint b = varint_loop b 0 0 0"

fun bits_Len :: "nat \<Rightarrow> nat" where
  "bits_Len n = (if n = 0 then 0 else Suc (bits_Len (n div 2)))"

declare bits_Len.simps [simp del]

definition VarintSize :: "u64 \<Rightarrow> nat" where
  "VarintSize v = (if v = 0 then 1 else (bits_Len (unat v) + 6) div 7)"

subsubsection \<open>Bits\<close>

lemma bit_0x80: "bit (0x80 :: int) n \<longleftrightarrow> n = 7"
proof -
  have "(0x80 :: int) = 2 ^ 7" by simp
  then show ?thesis by (simp only: bit_exp_iff) auto
qed

lemma masks: "(0x7f :: byte) = mask 7" "(0x7f :: u64) = mask 7"
  by (simp_all add: mask_eq_exp_minus_1)

lemma small_byte: "(c :: byte) < 0x80 \<longleftrightarrow> \<not> bit c 7"
proof -
  have "unat c < 256" using unsigned_less[where 'a = nat, of c] by simp
  then have "unat c < 128 \<longleftrightarrow> even (unat c div 128)"
  proof (cases "unat c < 128")
    case False
    with \<open>unat c < 256\<close> have "unat c div 128 = 1" by (intro div_nat_eqI) simp_all
    then show ?thesis using False by simp
  qed simp
  moreover have "bit c 7 \<longleftrightarrow> bit (unat c) 7" by (simp add: bit_unsigned_iff)
  ultimately show ?thesis by (simp add: bit_iff_odd word_less_nat_alt)
qed

lemma continued_byte:
  "\<not> (ucast (v :: u64) OR 0x80 :: byte) < 0x80"
  "(ucast ((ucast (v :: u64) OR 0x80 :: byte) AND 0x7f) :: u64) = v AND 0x7f"
proof -
  show "\<not> (ucast (v :: u64) OR 0x80 :: byte) < 0x80" unfolding small_byte by (simp add: bit_simps)
  show "(ucast ((ucast (v :: u64) OR 0x80 :: byte) AND 0x7f) :: u64) = v AND 0x7f"
    unfolding masks by (rule bit_word_eqI) (auto simp: bit_simps bit_0x80)
qed

lemma last_byte:
  assumes "(v :: u64) < 0x80"
  shows "ucast v < (0x80 :: byte)" and "(ucast ((ucast v :: byte) AND 0x7f) :: u64) = v"
proof -
  have n: "unat v < 128" using assms by (simp add: word_less_nat_alt)
  then show "ucast v < (0x80 :: byte)" by (simp add: word_less_nat_alt unsigned_ucast_eq take_bit_nat_eq_self)
  have "take_bit 7 v = v" using n by (simp add: word_unat_eq_iff unsigned_take_bit_eq take_bit_nat_eq_self)
  then have b: "bit v n \<Longrightarrow> n < 7" for n by (metis bit_take_bit_iff)
  show "(ucast ((ucast v :: byte) AND 0x7f) :: u64) = v"
    unfolding masks by (rule bit_word_eqI) (auto simp: bit_simps dest: b)
qed

lemma seven_bits: "push_bit s (v AND 0x7f) OR push_bit (s + 7) (drop_bit 7 v) = push_bit s (v :: u64)"
proof (rule bit_word_eqI)
  fix n show "bit (push_bit s (v AND 0x7f) OR push_bit (s + 7) (drop_bit 7 v)) n = bit (push_bit s v) n"
  proof (cases "n < s + 7")
    case False
    then obtain k where "n = s + 7 + k" using le_Suc_ex by (auto simp: not_less)
    then show ?thesis unfolding masks by (auto simp: bit_simps)
  qed (auto simp: masks bit_simps)
qed

subsubsection \<open>The varint codec\<close>

lemma AppendVarint_append: "AppendVarint b v = b @ AppendVarint [] v"
proof -
  have "AppendVarint (a @ b) v = a @ AppendVarint b v" for a b
  proof (induction b v rule: AppendVarint.induct)
    case (1 b v)
    show ?case
    proof (cases "v \<ge> 0x80")
      case True
      then show ?thesis using 1[OF True]
        by (simp add: AppendVarint.simps[of "a @ b"] AppendVarint.simps[of b])
    qed (simp add: AppendVarint.simps[of "a @ b"] AppendVarint.simps[of b])
  qed
  from this[of b "[]"] show ?thesis by simp
qed

abbreviation varint :: "u64 \<Rightarrow> byte list" where
  "varint v \<equiv> AppendVarint [] v"

lemma varint_simps:
  "varint v = (if v \<ge> 0x80 then (ucast v OR 0x80) # varint (drop_bit 7 v) else [ucast v])"
  by (simp add: AppendVarint.simps[of "[]" v] AppendVarint_append[of "[x]" for x])

lemma varint_induct: "(\<And>v. (v \<ge> 0x80 \<Longrightarrow> P (drop_bit 7 v)) \<Longrightarrow> P v) \<Longrightarrow> P (v :: u64)"
proof (induction "unat v" arbitrary: v rule: less_induct)
  case less
  then show ?case using drop_bit_7_less by blast
qed

lemma varint_loop_varint:
  "i \<le> 9 \<Longrightarrow> unat v < 2 ^ (64 - 7 * i) \<Longrightarrow>
   varint_loop (varint v @ rest) i acc (7 * i) = Inr (acc OR push_bit (7 * i) v, i + length (varint v))"
proof (induction v arbitrary: i acc rule: varint_induct)
  case (1 v)
  show ?case
  proof (cases "v \<ge> 0x80")
    case True
    have "unat v \<ge> 128" using True by (simp add: word_le_nat_alt)
    then have "i \<noteq> 9" using "1.prems"(2) by auto
    then have i: "i + 1 \<le> 9" "64 - 7 * i = (64 - 7 * (i + 1)) + 7" using "1.prems"(1) by simp_all
    have "unat v < 2 ^ (64 - 7 * (i + 1)) * 128" using "1.prems"(2) unfolding i(2) power_add by simp
    then have "unat (drop_bit 7 v) < 2 ^ (64 - 7 * (i + 1))"
      by (simp add: drop_bit_eq_div unat_div less_mult_imp_div_less)
    note IH = "1.IH"[OF True i(1) this]
    have "varint_loop (varint v @ rest) i acc (7 * i) =
        varint_loop (varint (drop_bit 7 v) @ rest) (i + 1) (acc OR push_bit (7 * i) (v AND 0x7f)) (7 * (i + 1))"
      using True i(1) continued_byte[of v] by (simp add: varint_simps[of v] add.commute)
    also have "\<dots> = Inr (acc OR (push_bit (7 * i) (v AND 0x7f) OR push_bit (7 * i + 7) (drop_bit 7 v)),
        i + 1 + length (varint (drop_bit 7 v)))"
      unfolding IH by (simp only: or.assoc distrib_left mult_1_right)
    also have "\<dots> = Inr (acc OR push_bit (7 * i) v, i + length (varint v))"
      unfolding seven_bits using True by (simp add: varint_simps[of v])
    finally show ?thesis .
  next
    case False
    then show ?thesis using "1.prems"(1) last_byte[of v] by (simp add: varint_simps[of v])
  qed
qed

lemma ConsumeVarint_varint [simp]: "ConsumeVarint (varint v @ rest) = Inr (v, length (varint v))"
  using varint_loop_varint[of 0 v rest 0] unsigned_less[where 'a = nat, of v] by (simp add: ConsumeVarint_def)

lemma varint_loop_bounds:
  "varint_loop b i v s = Inr (w, n) \<Longrightarrow> i < n \<and> n \<le> i + length b \<and>
     varint_loop (take (n - i) b @ c) i v s = Inr (w, n)"
proof (induction b i v s rule: varint_loop.induct)
  case (2 x cs i v s)
  show ?case
  proof (cases "x < 0x80")
    case True
    then show ?thesis using "2.prems" by (auto simp: Let_def split: if_splits)
  next
    case False
    then have i: "\<not> i > 9" and rec: "varint_loop cs (i + 1) (v OR push_bit s (ucast (x AND 0x7f))) (s + 7) = Inr (w, n)"
      using "2.prems" by (auto simp: Let_def split: if_splits)
    have IH: "i + 1 < n \<and> n \<le> i + 1 + length cs \<and>
        varint_loop (take (n - (i + 1)) cs @ c) (i + 1) (v OR push_bit s (ucast (x AND 0x7f))) (s + 7) = Inr (w, n)"
      using "2.IH"[OF i refl False rec] .
    then obtain m where "n - i = Suc m" "n - (i + 1) = m" by (metis Suc_diff_Suc Suc_eq_plus1 add_lessD1)
    then show ?thesis using IH i False by (simp add: Let_def)
  qed
qed simp

interpretation varint: prefix_codec varint ConsumeVarint "\<lambda>_. True"
proof
  fix v :: u64 and rest b c :: "byte list" and n
  show "ConsumeVarint (varint v @ rest) = Inr (v, length (varint v))" by simp
  show "ConsumeVarint b = Inr (v, n) \<Longrightarrow> 0 < n \<and> n \<le> length b"
    using varint_loop_bounds[of b 0 0 0 v n] by (auto simp: ConsumeVarint_def)
  show "ConsumeVarint b = Inr (v, n) \<Longrightarrow> ConsumeVarint (take n b @ c) = Inr (v, n)"
    using varint_loop_bounds[of b 0 0 0 v n c] by (auto simp: ConsumeVarint_def)
qed

lemma bits_Len_ge: "2 ^ k \<le> n \<longleftrightarrow> k < bits_Len n"
proof (induction n arbitrary: k rule: bits_Len.induct)
  case (1 n)
  show ?case
  proof (cases "n = 0")
    case False
    show ?thesis
    proof (cases k)
      case (Suc j)
      have "2 ^ j \<le> n div 2 \<longleftrightarrow> 2 ^ j * 2 \<le> n" by (simp add: less_eq_div_iff_mult_less_eq)
      then show ?thesis using 1[OF False, of j] Suc False by (simp add: bits_Len.simps[of n] mult.commute)
    qed (use False in \<open>simp add: bits_Len.simps[of n]\<close>)
  qed (simp add: bits_Len.simps)
qed

lemma bits_Len_div: "2 ^ m \<le> n \<Longrightarrow> bits_Len (n div 2 ^ m) = bits_Len n - m"
proof (induction m arbitrary: n)
  case (Suc m)
  have "2 ^ m \<le> n div 2" using Suc.prems by (simp add: less_eq_div_iff_mult_less_eq mult.commute)
  from Suc.IH[OF this] have "bits_Len (n div 2 div 2 ^ m) = bits_Len (n div 2) - m" .
  moreover have "n \<noteq> 0"
  proof
    assume "n = 0"
    with Suc.prems show False by simp
  qed
  ultimately show ?case by (simp add: bits_Len.simps[of n] div_mult2_eq)
qed simp

lemma VarintSize_varint: "VarintSize v = length (varint v)"
proof (induction v rule: varint_induct)
  case (1 v)
  show ?case
  proof (cases "v \<ge> 0x80")
    case True
    then have v: "2 ^ 7 \<le> unat v" "v \<noteq> 0" by (auto simp: word_le_nat_alt)
    have len: "8 \<le> bits_Len (unat v)" using v(1) bits_Len_ge[of 7 "unat v"] by simp
    have "unat (drop_bit 7 v) = unat v div 2 ^ 7" by (simp add: drop_bit_eq_div unat_div)
    then have "bits_Len (unat (drop_bit 7 v)) = bits_Len (unat v) - 7" using bits_Len_div[OF v(1)] by simp
    moreover have "drop_bit 7 v \<noteq> 0"
      using v(1) \<open>unat (drop_bit 7 v) = unat v div 2 ^ 7\<close> by (metis div_greater_zero_iff less_irrefl unsigned_0 zero_less_numeral zero_less_power)
    ultimately have "VarintSize v = Suc (VarintSize (drop_bit 7 v))"
      using len v(2) by (simp add: VarintSize_def)
    then show ?thesis using 1[OF True] True by (simp add: varint_simps[of v])
  next
    case False
    then have "unat v < 2 ^ 7" by (simp add: word_le_nat_alt)
    then have "bits_Len (unat v) \<le> 7" using bits_Len_ge[of 7 "unat v"] by simp
    moreover have "v \<noteq> 0 \<Longrightarrow> 0 < bits_Len (unat v)" using bits_Len_ge[of 0 "unat v"] by (simp add: Suc_le_eq unat_gt_0)
    ultimately have "VarintSize v = 1" by (auto simp: VarintSize_def)
    then show ?thesis using False by (simp add: varint_simps[of v])
  qed
qed

lemma VarintSize_le: "VarintSize v \<le> 10"
proof -
  have "\<not> 2 ^ 64 \<le> unat v" using unsigned_less[where 'a = nat, of v] by simp
  then have "bits_Len (unat v) + 6 \<le> 70" using bits_Len_ge[of 64 "unat v"] by simp
  then have "(bits_Len (unat v) + 6) div 7 \<le> 70 div 7" by (rule div_le_mono)
  then show ?thesis by (simp add: VarintSize_def)
qed

text \<open>A varint is read back exactly, whatever follows it, in \<open>VarintSize\<close> bytes, which are at most ten.\<close>

theorem varint_roundtrip:
  "ConsumeVarint (AppendVarint b v) = ConsumeVarint (b @ AppendVarint [] v) \<and>
   ConsumeVarint (AppendVarint [] v @ rest) = Inr (v, VarintSize v) \<and> VarintSize v \<le> 10"
  using AppendVarint_append[of b v] VarintSize_le[of v] by (simp add: VarintSize_varint)

subsection \<open>ZigZag\<close>

definition ZigZag :: "u64 \<Rightarrow> u64" where
  "ZigZag v = push_bit 1 v XOR signed_drop_bit 63 v"

definition UnZigZag :: "u64 \<Rightarrow> u64" where
  "UnZigZag v = drop_bit 1 v XOR - (v AND 1)"

lemma sign_fill: "signed_drop_bit 63 (v :: u64) = (if bit v 63 then - 1 else 0)"
  by (rule bit_word_eqI) (auto simp: bit_signed_drop_bit_iff min_def not_le)

lemma bit_ZigZag: "n < 64 \<Longrightarrow> bit (ZigZag v) n \<longleftrightarrow> (0 < n \<and> bit v (n - 1)) \<noteq> bit v 63"
  by (auto simp: ZigZag_def sign_fill bit_xor_iff bit_push_bit_iff bit_minus_1_iff simp del: push_bit_of_1 push_bit_Suc)

lemma bit_UnZigZag: "n < 64 \<Longrightarrow> bit (UnZigZag v) n \<longleftrightarrow> (n < 63 \<and> bit v (Suc n)) \<noteq> bit v 0"
proof -
  assume "n < 64"
  have "v AND 1 = (if bit v 0 then 1 else 0)" by (simp add: and_one_eq bit_0 odd_iff_mod_2_eq_one)
  moreover have "63 \<le> n \<longrightarrow> \<not> bit v (Suc n)" using bit_imp_le_length[of v "Suc n"] by auto
  ultimately show ?thesis using \<open>n < 64\<close>
    by (auto simp: UnZigZag_def bit_xor_iff bit_drop_bit_eq)
qed

lemma UnZigZag_ZigZag: "UnZigZag (ZigZag v) = v"
proof (rule bit_word_eqI)
  fix n assume "n < LENGTH(64)"
  then show "bit (UnZigZag (ZigZag v)) n = bit v n"
    by (cases "n = 63") (auto simp: bit_UnZigZag bit_ZigZag)
qed

lemma ZigZag_UnZigZag: "ZigZag (UnZigZag v) = v"
proof (rule bit_word_eqI)
  fix n assume "n < LENGTH(64)"
  then show "bit (ZigZag (UnZigZag v)) n = bit v n"
    by (cases n) (auto simp: bit_UnZigZag bit_ZigZag)
qed

lemma uint_ZigZag: "uint (ZigZag v) = (if 0 \<le> sint v then 2 * sint v else - 2 * sint v - 1)"
proof -
  define k where "k = (if 0 \<le> sint v then 2 * sint v else - 2 * sint v - 1)"
  have range: "- (2 ^ 63) \<le> sint v" "sint v < 2 ^ 63"
    using sint_greater_eq[of v] sint_less[of v] by simp_all
  have neg: "bit v 63 \<longleftrightarrow> sint v < 0" using bit_last_iff[of v] by simp
  have v: "word_of_int (sint v) = v" by simp
  have "ZigZag v = word_of_int k"
  proof (cases "0 \<le> sint v")
    case True
    have "word_of_int (2 * sint v) = 2 * v" by (simp only: of_int_mult v of_int_numeral)
    then show ?thesis using True neg by (simp add: ZigZag_def sign_fill k_def)
  next
    case False
    have "word_of_int (- 2 * sint v - 1) = - (2 * v) - 1"
      by (simp only: of_int_mult of_int_diff of_int_minus of_int_1 v of_int_numeral mult_minus_left)
    then show ?thesis using False neg by (simp add: ZigZag_def sign_fill k_def not_eq_complement)
  qed
  then have "uint (ZigZag v) = take_bit 64 k" by (simp add: uint_word_of_int take_bit_eq_mod)
  also have "\<dots> = k" using range by (intro take_bit_int_eq_self) (auto simp: k_def)
  finally show ?thesis by (simp add: k_def)
qed

text \<open>ZigZag is a bijection between signed and unsigned 64-bit values whose code grows with the
  magnitude: \<open>0, -1, 1, -2, 2, ...\<close> become \<open>0, 1, 2, 3, 4, ...\<close>, without overflow at either end.\<close>

theorem zigzag_bijection:
  "UnZigZag (ZigZag v) = v \<and> ZigZag (UnZigZag w) = w \<and>
   uint (ZigZag v) = (if 0 \<le> sint v then 2 * sint v else - 2 * sint v - 1)"
  by (simp add: UnZigZag_ZigZag ZigZag_UnZigZag uint_ZigZag)

subsection \<open>Tags and fields\<close>

definition AppendTag :: "byte list \<Rightarrow> u64 \<Rightarrow> WireType \<Rightarrow> byte list" where
  "AppendTag b fieldNumber wt = AppendVarint b (push_bit 3 fieldNumber OR wt)"

definition ConsumeTag :: "byte list \<Rightarrow> wire_error + (u64 \<times> WireType \<times> nat)" where
  "ConsumeTag b = (case ConsumeVarint b of Inl e \<Rightarrow> Inl e | Inr (v, n) \<Rightarrow> Inr (drop_bit 3 v, v AND 7, n))"

definition AppendInt64 :: "byte list \<Rightarrow> u64 \<Rightarrow> u64 \<Rightarrow> byte list" where
  "AppendInt64 b fieldNumber v =
     (if v = 0 then b else AppendVarint (AppendTag b fieldNumber WireVarint) v)"

definition AppendString :: "byte list \<Rightarrow> u64 \<Rightarrow> string \<Rightarrow> byte list" where
  "AppendString b fieldNumber s =
     (if s = '''' then b
      else AppendVarint (AppendTag b fieldNumber WireBytes) (word_of_nat (length s)) @ bytes_of s)"

definition AppendBytes :: "byte list \<Rightarrow> u64 \<Rightarrow> byte list \<Rightarrow> byte list" where
  "AppendBytes b fieldNumber v =
     (if length v = 0 then b
      else AppendVarint (AppendTag b fieldNumber WireBytes) (word_of_nat (length v)) @ v)"

text \<open>\<open>len(b) - n\<close> is a non-negative \<open>int\<close>, which converts to \<open>uint64\<close> unchanged, so the guard
  compares natural numbers.\<close>

definition ConsumeBytes :: "byte list \<Rightarrow> wire_error + (byte list \<times> nat)" where
  "ConsumeBytes b =
     (case ConsumeVarint b of Inl e \<Rightarrow> Inl e
      | Inr (len, n) \<Rightarrow>
          if length b - n < unat len then Inl ErrTruncated
          else Inr (take (unat len) (drop n b), n + unat len))"

definition SkipValue :: "byte list \<Rightarrow> WireType \<Rightarrow> wire_error + nat" where
  "SkipValue b wt =
     (if wt = WireVarint then (case ConsumeVarint b of Inl e \<Rightarrow> Inl e | Inr (_, n) \<Rightarrow> Inr n)
      else if wt = WireFixed64 then (if length b < 8 then Inl ErrTruncated else Inr 8)
      else if wt = WireBytes then (case ConsumeBytes b of Inl e \<Rightarrow> Inl e | Inr (_, n) \<Rightarrow> Inr n)
      else if wt = WireFixed32 then (if length b < 4 then Inl ErrTruncated else Inr 4)
      else Inl (ErrBadWireType wt))"

definition appendFixed64 :: "byte list \<Rightarrow> u64 \<Rightarrow> u64 \<Rightarrow> byte list" where
  "appendFixed64 b fieldNumber v = AppendTag b fieldNumber WireFixed64 @ le_bytes 8 v"

definition appendFixed32 :: "byte list \<Rightarrow> u64 \<Rightarrow> u32 \<Rightarrow> byte list" where
  "appendFixed32 b fieldNumber v = AppendTag b fieldNumber WireFixed32 @ le_bytes 4 v"

definition delimited :: "byte list \<Rightarrow> byte list" where
  "delimited s = varint (word_of_nat (length s)) @ s"

interpretation bytes_field: prefix_codec delimited ConsumeBytes "\<lambda>s. length s < 2 ^ 64"
proof
  fix x rest b c :: "byte list" and n :: nat
  show "ConsumeBytes (delimited x @ rest) = Inr (x, length (delimited x))" if "length x < 2 ^ 64"
  proof -
    have "unat (word_of_nat (length x) :: u64) = length x"
      using that by (simp add: unat_of_nat take_bit_nat_eq_self unsigned_of_nat)
    then show ?thesis by (simp add: ConsumeBytes_def delimited_def)
  qed
  show "0 < n \<and> n \<le> length b" if "ConsumeBytes b = Inr (x, n)"
    using that varint.dec_bounds[of b] by (auto simp: ConsumeBytes_def split: sum.splits if_splits dest!: varint.dec_bounds)
  show "ConsumeBytes (take n b @ c) = Inr (x, n)" if dec: "ConsumeBytes b = Inr (x, n)"
  proof -
    obtain len m where lm: "ConsumeVarint b = Inr (len, m)" "\<not> length b - m < unat len"
      "x = take (unat len) (drop m b)" "n = m + unat len"
      using dec by (auto simp: ConsumeBytes_def split: sum.splits if_splits)
    have m: "m \<le> length b" using varint.dec_bounds[OF lm(1)] by simp
    have "ConsumeVarint (take n b @ c) = Inr (len, m)"
      using varint.dec_append[OF varint.dec_take[OF lm(1)]] lm(4) by simp
    moreover have "\<not> length (take n b @ c) - m < unat len" using lm(2,4) m by simp
    moreover have "take (unat len) (drop m (take n b @ c)) = x"
      using lm(2-4) m by (simp add: drop_take)
    ultimately show ?thesis using lm(4) by (simp add: ConsumeBytes_def)
  qed
qed

lemma ConsumeTag_bounds: "ConsumeTag b = Inr (f, wt, n) \<Longrightarrow> 0 < n \<and> n \<le> length b"
  by (auto simp: ConsumeTag_def split: sum.splits dest: varint.dec_bounds)

lemma ConsumeTag_local: "ConsumeTag b = Inr (f, wt, n) \<Longrightarrow> ConsumeTag (take n b @ c) = Inr (f, wt, n)"
  by (auto simp: ConsumeTag_def varint.dec_local split: sum.splits)

lemma ConsumeTag_tag:
  "drop_bit 3 (push_bit 3 f OR wt) = f \<Longrightarrow> (push_bit 3 f OR wt) AND 7 = wt \<Longrightarrow>
   ConsumeTag (AppendTag [] f wt @ rest) = Inr (f, wt, length (AppendTag [] f wt))"
  by (simp add: ConsumeTag_def AppendTag_def)

lemma SkipValue_bounds: "SkipValue b wt = Inr n \<Longrightarrow> n \<le> length b"
  by (auto simp: SkipValue_def split: if_splits sum.splits dest: varint.dec_bounds bytes_field.dec_bounds)

lemma SkipValue_local: "SkipValue b wt = Inr n \<Longrightarrow> SkipValue (take n b @ c) wt = Inr n"
  by (auto simp: SkipValue_def varint.dec_local bytes_field.dec_local split: if_splits sum.splits)

subsection \<open>The order message\<close>

abbreviation (input) StatusUnspecified :: u64 where "StatusUnspecified \<equiv> 0"
abbreviation (input) StatusPending :: u64 where "StatusPending \<equiv> 1"
abbreviation (input) StatusPaid :: u64 where "StatusPaid \<equiv> 2"
abbreviation (input) StatusCancelled :: u64 where "StatusCancelled \<equiv> 3"

definition Status_String :: "u64 \<Rightarrow> string" where
  "Status_String s =
     (if s = StatusPending then ''PENDING'' else if s = StatusPaid then ''PAID''
      else if s = StatusCancelled then ''CANCELLED'' else ''UNSPECIFIED'')"

record Order =
  ord_ID :: u64
  Customer :: string
  Amount :: u64
  ord_Status :: u64
  Tags :: "string list"
  unknownFields :: "byte list"

definition zero_Order :: Order where
  "zero_Order = \<lparr>ord_ID = 0, Customer = '''', Amount = 0, ord_Status = 0, Tags = [], unknownFields = []\<rparr>"

abbreviation (input) fieldOrderID :: u64 where "fieldOrderID \<equiv> 1"
abbreviation (input) fieldOrderCustomer :: u64 where "fieldOrderCustomer \<equiv> 2"
abbreviation (input) fieldOrderAmount :: u64 where "fieldOrderAmount \<equiv> 3"
abbreviation (input) fieldOrderStatus :: u64 where "fieldOrderStatus \<equiv> 4"
abbreviation (input) fieldOrderTags :: u64 where "fieldOrderTags \<equiv> 5"

definition Marshal :: "Order \<Rightarrow> byte list" where
  "Marshal ord =
     (let b1 = AppendInt64 [] fieldOrderID (ord_ID ord);
          b2 = AppendString b1 fieldOrderCustomer (Customer ord);
          b3 = AppendInt64 b2 fieldOrderAmount (Amount ord);
          b4 = AppendInt64 b3 fieldOrderStatus (ord_Status ord);
          b5 = fold (\<lambda>t b. AppendString b fieldOrderTags t) (Tags ord) b4
      in b5 @ unknownFields ord)"

text \<open>The body of the loop of \<open>Unmarshal\<close>: the updated order and the number of bytes consumed.\<close>

definition decode_field :: "Order \<Rightarrow> byte list \<Rightarrow> wire_error + (Order \<times> nat)" where
  "decode_field ord b =
     (case ConsumeTag b of Inl e \<Rightarrow> Inl e
      | Inr (field, wt, n) \<Rightarrow>
        let rest = drop n b in
        if field = fieldOrderID \<and> wt = WireVarint then
          (case ConsumeVarint rest of Inl e \<Rightarrow> Inl e | Inr (v, m) \<Rightarrow> Inr (ord\<lparr>ord_ID := v\<rparr>, n + m))
        else if field = fieldOrderCustomer \<and> wt = WireBytes then
          (case ConsumeBytes rest of Inl e \<Rightarrow> Inl e | Inr (v, m) \<Rightarrow> Inr (ord\<lparr>Customer := string_of v\<rparr>, n + m))
        else if field = fieldOrderAmount \<and> wt = WireVarint then
          (case ConsumeVarint rest of Inl e \<Rightarrow> Inl e | Inr (v, m) \<Rightarrow> Inr (ord\<lparr>Amount := v\<rparr>, n + m))
        else if field = fieldOrderStatus \<and> wt = WireVarint then
          (case ConsumeVarint rest of Inl e \<Rightarrow> Inl e | Inr (v, m) \<Rightarrow> Inr (ord\<lparr>ord_Status := v\<rparr>, n + m))
        else if field = fieldOrderTags \<and> wt = WireBytes then
          (case ConsumeBytes rest of Inl e \<Rightarrow> Inl e | Inr (v, m) \<Rightarrow> Inr (ord\<lparr>Tags := Tags ord @ [string_of v]\<rparr>, n + m))
        else
          (case SkipValue rest wt of Inl e \<Rightarrow> Inl e
           | Inr m \<Rightarrow> Inr (ord\<lparr>unknownFields := unknownFields ord @ take (n + m) b\<rparr>, n + m)))"

lemma decode_field_bounds: "decode_field ord b = Inr (ord', k) \<Longrightarrow> 0 < k \<and> k \<le> length b"
proof -
  assume dec: "decode_field ord b = Inr (ord', k)"
  then obtain f wt n where tag: "ConsumeTag b = Inr (f, wt, n)"
    by (auto simp: decode_field_def split: sum.splits)
  have "0 < n" "n \<le> length b" using ConsumeTag_bounds[OF tag] by auto
  then show ?thesis using dec
    by (auto simp: decode_field_def tag Let_def split: if_splits sum.splits
        dest!: varint.dec_bounds bytes_field.dec_bounds SkipValue_bounds)
qed

function unmarshal_loop :: "Order \<Rightarrow> byte list \<Rightarrow> wire_error + Order" where
  "unmarshal_loop ord b =
     (if b = [] then Inr ord
      else case decode_field ord b of Inl e \<Rightarrow> Inl e | Inr (ord1, k) \<Rightarrow> unmarshal_loop ord1 (drop k b))"
  by auto
termination
  by (relation "measure (\<lambda>(ord, b). length b)") (auto dest: decode_field_bounds)

declare unmarshal_loop.simps [simp del]

definition Unmarshal :: "byte list \<Rightarrow> wire_error + Order" where
  "Unmarshal b = unmarshal_loop zero_Order b"

subsubsection \<open>One field at a time\<close>

definition known :: "u64 \<Rightarrow> WireType \<Rightarrow> bool" where
  "known field wt \<longleftrightarrow>
     (field = fieldOrderID \<or> field = fieldOrderAmount \<or> field = fieldOrderStatus) \<and> wt = WireVarint \<or>
     (field = fieldOrderCustomer \<or> field = fieldOrderTags) \<and> wt = WireBytes"

text \<open>One complete field, tag and value, that the decoder has no case for.\<close>

definition unknown_field :: "byte list \<Rightarrow> bool" where
  "unknown_field r =
     (case ConsumeTag r of Inl e \<Rightarrow> False
      | Inr (f, wt, n) \<Rightarrow> \<not> known f wt \<and> SkipValue (drop n r) wt = Inr (length r - n))"

lemma decode_unknown:
  assumes "unknown_field r"
  shows "decode_field ord (r @ rest) = Inr (ord\<lparr>unknownFields := unknownFields ord @ r\<rparr>, length r)" and "r \<noteq> []"
proof -
  obtain f wt n where t: "ConsumeTag r = Inr (f, wt, n)" "\<not> known f wt" "SkipValue (drop n r) wt = Inr (length r - n)"
    using assms by (auto simp: unknown_field_def split: sum.splits)
  have n: "0 < n" "n \<le> length r" using ConsumeTag_bounds[OF t(1)] by auto
  then show "r \<noteq> []" by auto
  have "ConsumeTag (r @ rest) = Inr (f, wt, n)"
    using ConsumeTag_local[OF t(1), of "drop n r @ rest"] by (simp add: append_assoc[symmetric] del: append_assoc)
  moreover have "SkipValue (drop n (r @ rest)) wt = Inr (length r - n)"
    using SkipValue_local[OF t(3), of rest] n by simp
  ultimately show "decode_field ord (r @ rest) = Inr (ord\<lparr>unknownFields := unknownFields ord @ r\<rparr>, length r)"
    using t(2) n by (auto simp: decode_field_def known_def Let_def)
qed

text \<open>What one step of the decoder can have read: the new value of a known field, or an unknown field.\<close>

lemma ConsumeBytes_length: "ConsumeBytes c = Inr (x, m) \<Longrightarrow> length x < 2 ^ 64"
proof -
  assume "ConsumeBytes c = Inr (x, m)"
  then obtain len where "length x \<le> unat (len :: u64)"
    by (fastforce simp: ConsumeBytes_def split: sum.splits if_splits)
  moreover have "unat len < 2 ^ 64" using unsigned_less[where 'a = nat, of len] by simp
  ultimately show ?thesis by simp
qed

datatype field_update =
  Set_ID u64 | Set_Amount u64 | Set_Status u64 | Set_Customer string | Add_Tag string | Keep "byte list"

fun update_order :: "field_update \<Rightarrow> Order \<Rightarrow> Order" where
  "update_order (Set_ID v) ord = ord\<lparr>ord_ID := v\<rparr>"
| "update_order (Set_Amount v) ord = ord\<lparr>Amount := v\<rparr>"
| "update_order (Set_Status v) ord = ord\<lparr>ord_Status := v\<rparr>"
| "update_order (Set_Customer s) ord = ord\<lparr>Customer := s\<rparr>"
| "update_order (Add_Tag s) ord = ord\<lparr>Tags := Tags ord @ [s]\<rparr>"
| "update_order (Keep r) ord = ord\<lparr>unknownFields := unknownFields ord @ r\<rparr>"

fun update_ok :: "field_update \<Rightarrow> bool" where
  "update_ok (Set_Customer s) \<longleftrightarrow> length s < 2 ^ 64"
| "update_ok (Add_Tag s) \<longleftrightarrow> length s < 2 ^ 64"
| "update_ok (Keep r) \<longleftrightarrow> unknown_field r"
| "update_ok _ \<longleftrightarrow> True"

lemma decode_field_cases:
  assumes "decode_field ord b = Inr (ord1, k)"
  shows "\<exists>u. update_ok u \<and> ord1 = update_order u ord"
proof -
  obtain f wt n where t: "ConsumeTag b = Inr (f, wt, n)" using assms by (auto simp: decode_field_def split: sum.splits)
  have n: "n \<le> length b" using ConsumeTag_bounds[OF t] by simp
  consider "f = 1 \<and> wt = 0" | "f = 3 \<and> wt = 0" | "f = 4 \<and> wt = 0" | "f = 2 \<and> wt = 2" | "f = 5 \<and> wt = 2" | "\<not> known f wt"
    unfolding known_def by blast
  then show ?thesis
  proof cases
    case 1
    then obtain v where "ord1 = update_order (Set_ID v) ord"
      using assms t by (auto simp: decode_field_def Let_def split: sum.splits)
    then show ?thesis using update_ok.simps(4) by blast
  next
    case 2
    then obtain v where "ord1 = update_order (Set_Amount v) ord"
      using assms t by (auto simp: decode_field_def Let_def split: sum.splits)
    then show ?thesis using update_ok.simps(5) by blast
  next
    case 3
    then obtain v where "ord1 = update_order (Set_Status v) ord"
      using assms t by (auto simp: decode_field_def Let_def split: sum.splits)
    then show ?thesis using update_ok.simps(6) by blast
  next
    case 4
    then obtain v m where "ConsumeBytes (drop n b) = Inr (v, m)" "ord1 = update_order (Set_Customer (string_of v)) ord"
      using assms t by (auto simp: decode_field_def Let_def split: sum.splits)
    then show ?thesis using ConsumeBytes_length[of "drop n b" v m] by (intro exI[of _ "Set_Customer (string_of v)"]) simp
  next
    case 5
    then obtain v m where "ConsumeBytes (drop n b) = Inr (v, m)" "ord1 = update_order (Add_Tag (string_of v)) ord"
      using assms t by (auto simp: decode_field_def Let_def split: sum.splits)
    then show ?thesis using ConsumeBytes_length[of "drop n b" v m] by (intro exI[of _ "Add_Tag (string_of v)"]) simp
  next
    case 6
    then obtain m where m: "SkipValue (drop n b) wt = Inr m" "k = n + m"
      "ord1 = ord\<lparr>unknownFields := unknownFields ord @ take k b\<rparr>"
      using assms t by (auto simp: decode_field_def known_def Let_def split: sum.splits if_splits)
    have "take k b = take n b @ take m (drop n b)" by (simp add: m(2) take_add)
    then have "ConsumeTag (take k b) = Inr (f, wt, n)" "drop n (take k b) = take m (drop n b)"
      using ConsumeTag_local[OF t] n by simp_all
    moreover have "SkipValue (take m (drop n b)) wt = Inr m" using SkipValue_local[OF m(1), of "[]"] by simp
    moreover have "length (take k b) - n = m" using SkipValue_bounds[OF m(1)] m(2) n by simp
    ultimately show ?thesis using 6 m(3) by (intro exI[of _ "Keep (take k b)"]) (simp add: unknown_field_def)
  qed
qed

subsubsection \<open>Decoding what was encoded\<close>

lemma unmarshal_step:
  assumes "decode_field ord (r @ rest) = Inr (ord1, length r)" and "r \<noteq> []"
  shows "unmarshal_loop ord (r @ rest) = unmarshal_loop ord1 rest"
  using assms by (simp add: unmarshal_loop.simps[of ord "r @ rest"])

lemma order_tags:
  "ConsumeTag (AppendTag [] 1 0 @ rest) = Inr (1, 0, length (AppendTag [] 1 0))"
  "ConsumeTag (AppendTag [] 2 2 @ rest) = Inr (2, 2, length (AppendTag [] 2 2))"
  "ConsumeTag (AppendTag [] 3 0 @ rest) = Inr (3, 0, length (AppendTag [] 3 0))"
  "ConsumeTag (AppendTag [] 4 0 @ rest) = Inr (4, 0, length (AppendTag [] 4 0))"
  "ConsumeTag (AppendTag [] 5 2 @ rest) = Inr (5, 2, length (AppendTag [] 5 2))"
  by (rule ConsumeTag_tag; simp)+

lemma AppendTag_append: "AppendTag b f wt = b @ AppendTag [] f wt"
  unfolding AppendTag_def by (rule AppendVarint_append)

lemma AppendInt64_append: "AppendInt64 b f v = b @ AppendInt64 [] f v"
proof (cases "v = 0")
  case False
  then show ?thesis
    using AppendVarint_append[of "AppendTag b f 0" v] AppendVarint_append[of "AppendTag [] f 0" v] AppendTag_append[of b f 0]
    by (simp add: AppendInt64_def)
qed (simp add: AppendInt64_def)

lemma AppendString_append: "AppendString b f s = b @ AppendString [] f s"
proof (cases "s = ''''")
  case False
  let ?n = "word_of_nat (length s)"
  show ?thesis using False
    using AppendVarint_append[of "AppendTag b f 2" ?n] AppendVarint_append[of "AppendTag [] f 2" ?n] AppendTag_append[of b f 2]
    by (simp add: AppendString_def)
qed (simp add: AppendString_def)

lemma AppendInt64_chunk: "v \<noteq> 0 \<Longrightarrow> AppendInt64 [] f v = AppendTag [] f 0 @ varint v"
  using AppendVarint_append[of "AppendTag [] f 0" v] by (simp add: AppendInt64_def)

lemma AppendString_chunk: "s \<noteq> '''' \<Longrightarrow> AppendString [] f s = AppendTag [] f 2 @ delimited (bytes_of s)"
  using AppendVarint_append[of "AppendTag [] f 2" "word_of_nat (length s)"] by (simp add: AppendString_def delimited_def)

lemma tag_nonempty: "AppendTag [] f wt \<noteq> []"
  using varint.enc_nonempty by (simp add: AppendTag_def)

lemma read_int64:
  assumes "v \<noteq> 0"
  shows "unmarshal_loop ord (AppendInt64 [] 1 v @ rest) = unmarshal_loop (ord\<lparr>ord_ID := v\<rparr>) rest"
    and "unmarshal_loop ord (AppendInt64 [] 3 v @ rest) = unmarshal_loop (ord\<lparr>Amount := v\<rparr>) rest"
    and "unmarshal_loop ord (AppendInt64 [] 4 v @ rest) = unmarshal_loop (ord\<lparr>ord_Status := v\<rparr>) rest"
  unfolding AppendInt64_chunk[OF assms]
  by (rule unmarshal_step; simp add: decode_field_def order_tags Let_def tag_nonempty)+

lemma read_string:
  assumes "s \<noteq> ''''" and "length s < 2 ^ 64"
  shows "unmarshal_loop ord (AppendString [] 2 s @ rest) = unmarshal_loop (ord\<lparr>Customer := s\<rparr>) rest"
    and "unmarshal_loop ord (AppendString [] 5 s @ rest) = unmarshal_loop (ord\<lparr>Tags := Tags ord @ [s]\<rparr>) rest"
proof -
  have d: "ConsumeBytes (delimited (bytes_of s) @ rest) = Inr (bytes_of s, length (delimited (bytes_of s)))" for rest
    using assms(2) by (intro bytes_field.dec_enc) simp
  show "unmarshal_loop ord (AppendString [] 2 s @ rest) = unmarshal_loop (ord\<lparr>Customer := s\<rparr>) rest"
    "unmarshal_loop ord (AppendString [] 5 s @ rest) = unmarshal_loop (ord\<lparr>Tags := Tags ord @ [s]\<rparr>) rest"
    unfolding AppendString_chunk[OF assms(1)]
    by (rule unmarshal_step; simp add: decode_field_def order_tags Let_def tag_nonempty d)+
qed

definition encodable :: "Order \<Rightarrow> bool" where
  "encodable ord \<longleftrightarrow> length (Customer ord) < 2 ^ 64 \<and> (\<forall>t \<in> set (Tags ord). length t < 2 ^ 64)"

lemma read_tags:
  assumes "\<forall>t \<in> set ts. length t < 2 ^ 64"
  shows "unmarshal_loop ord (concat (map (AppendString [] 5) ts) @ rest) =
    unmarshal_loop (ord\<lparr>Tags := Tags ord @ filter (\<lambda>t. t \<noteq> '''') ts\<rparr>) rest"
  using assms
proof (induction ts arbitrary: ord)
  case (Cons t ts)
  show ?case
  proof (cases "t = ''''")
    case True
    then show ?thesis using Cons by (simp add: AppendString_def)
  next
    case False
    then show ?thesis using Cons read_string(2)[of t] by simp
  qed
qed simp

lemma read_unknown:
  assumes "\<forall>r \<in> set rs. unknown_field r"
  shows "unmarshal_loop ord (concat rs) = Inr (ord\<lparr>unknownFields := unknownFields ord @ concat rs\<rparr>)"
  using assms
proof (induction rs arbitrary: ord)
  case (Cons r rs)
  have "unmarshal_loop ord (r @ concat rs) = unmarshal_loop (ord\<lparr>unknownFields := unknownFields ord @ r\<rparr>) (concat rs)"
    using Cons.prems decode_unknown[of r] by (intro unmarshal_step) auto
  then show ?case using Cons by simp
qed (simp add: unmarshal_loop.simps)

lemma Marshal_chunks:
  "Marshal ord = AppendInt64 [] 1 (ord_ID ord) @ AppendString [] 2 (Customer ord) @ AppendInt64 [] 3 (Amount ord) @
     AppendInt64 [] 4 (ord_Status ord) @ concat (map (AppendString [] 5) (Tags ord)) @ unknownFields ord"
proof -
  have tags: "fold (\<lambda>t b. AppendString b 5 t) ts b = b @ concat (map (AppendString [] 5) ts)" for ts b
  proof (induction ts arbitrary: b)
    case (Cons t ts)
    then show ?case using AppendString_append[of b 5 t] by simp
  qed simp
  have "AppendString b f s = b @ AppendString [] f s" "AppendInt64 b f v = b @ AppendInt64 [] f v" for b f s v
    by (rule AppendString_append, rule AppendInt64_append)
  then show ?thesis unfolding Marshal_def Let_def tags by (metis append_assoc)
qed

lemma Unmarshal_Marshal:
  assumes "encodable ord" and "unknownFields ord = concat rs" and "\<forall>r \<in> set rs. unknown_field r"
  shows "Unmarshal (Marshal ord) = Inr (ord\<lparr>Tags := filter (\<lambda>t. t \<noteq> '''') (Tags ord)\<rparr>)"
proof -
  have skip: "unmarshal_loop d (AppendInt64 [] f 0 @ rest) = unmarshal_loop d rest"
    "unmarshal_loop d (AppendString [] f '''' @ rest) = unmarshal_loop d rest" for d f rest
    by (simp_all add: AppendInt64_def AppendString_def)
  let ?z = zero_Order
  let ?tail = "concat (map (AppendString [] 5) (Tags ord)) @ unknownFields ord"
  define d1 where "d1 = ?z\<lparr>ord_ID := ord_ID ord\<rparr>"
  define d2 where "d2 = d1\<lparr>Customer := Customer ord\<rparr>"
  define d3 where "d3 = d2\<lparr>Amount := Amount ord\<rparr>"
  define d4 where "d4 = d3\<lparr>ord_Status := ord_Status ord\<rparr>"
  have len: "length (Customer ord) < 2 ^ 64" "\<forall>t \<in> set (Tags ord). length t < 2 ^ 64"
    using assms(1) by (simp_all add: encodable_def)
  have 1: "unmarshal_loop ?z (AppendInt64 [] 1 (ord_ID ord) @ r) = unmarshal_loop d1 r" for r
    by (cases "ord_ID ord = 0") (simp_all add: skip read_int64 d1_def, simp add: zero_Order_def)
  have 2: "unmarshal_loop d1 (AppendString [] 2 (Customer ord) @ r) = unmarshal_loop d2 r" for r
    by (cases "Customer ord = ''''") (simp_all add: skip read_string[OF _ len(1)] d1_def d2_def, simp add: zero_Order_def)
  have 3: "unmarshal_loop d2 (AppendInt64 [] 3 (Amount ord) @ r) = unmarshal_loop d3 r" for r
    by (cases "Amount ord = 0") (simp_all add: skip read_int64 d3_def, simp add: zero_Order_def d1_def d2_def)
  have 4: "unmarshal_loop d3 (AppendInt64 [] 4 (ord_Status ord) @ r) = unmarshal_loop d4 r" for r
    by (cases "ord_Status ord = 0") (simp_all add: skip read_int64 d4_def, simp add: zero_Order_def d1_def d2_def d3_def)
  have "Unmarshal (Marshal ord) = unmarshal_loop d4 ?tail"
    unfolding Unmarshal_def Marshal_chunks 1 2 3 4 ..
  also have "\<dots> = unmarshal_loop (d4\<lparr>Tags := filter (\<lambda>t. t \<noteq> '''') (Tags ord)\<rparr>) (concat rs)"
    unfolding read_tags[OF len(2)] assms(2) by (simp add: d1_def d2_def d3_def d4_def zero_Order_def)
  also have "\<dots> = Inr (ord\<lparr>Tags := filter (\<lambda>t. t \<noteq> '''') (Tags ord)\<rparr>)"
    unfolding read_unknown[OF assms(3)] using assms(2)
    by (simp add: d1_def d2_def d3_def d4_def zero_Order_def)
  finally show ?thesis .
qed

lemma decoded_order:
  assumes "unmarshal_loop ord b = Inr ord1" and "encodable ord"
    and "\<exists>rs. unknownFields ord = concat rs \<and> (\<forall>r \<in> set rs. unknown_field r)"
  shows "encodable ord1 \<and> (\<exists>rs. unknownFields ord1 = concat rs \<and> (\<forall>r \<in> set rs. unknown_field r))"
  using assms
proof (induction ord b rule: unmarshal_loop.induct)
  case (1 ord b)
  show ?case
  proof (cases "b = []")
    case True
    then show ?thesis using "1.prems" by (simp add: unmarshal_loop.simps)
  next
    case False
    then obtain ord2 k where d: "decode_field ord b = Inr (ord2, k)"
      and rec: "unmarshal_loop ord2 (drop k b) = Inr ord1"
      using "1.prems"(1) by (auto simp: unmarshal_loop.simps[of ord b] split: sum.splits)
    obtain u where u: "update_ok u" "ord2 = update_order u ord" using decode_field_cases[OF d] by blast
    obtain rs where rs: "unknownFields ord = concat rs" "\<forall>r \<in> set rs. unknown_field r" using "1.prems"(3) by blast
    have enc: "encodable ord2" using u "1.prems"(2) by (cases u) (auto simp: encodable_def)
    have unk: "\<exists>rs. unknownFields ord2 = concat rs \<and> (\<forall>r \<in> set rs. unknown_field r)"
    proof (cases u)
      case (Keep r)
      then show ?thesis using u rs by (intro exI[of _ "rs @ [r]"]) auto
    qed (use u rs in auto)
    show ?thesis by (rule "1.IH"[OF False d refl rec enc unk])
  qed
qed

text \<open>C31: an order survives encoding and decoding, with the fields of a newer sender it carries, when its
  strings have a representable length and no tag is empty.\<close>

theorem order_roundtrip:
  assumes "length (Customer ord) < 2 ^ 64" and "\<forall>t \<in> set (Tags ord). t \<noteq> '''' \<and> length t < 2 ^ 64"
    and "\<forall>r \<in> set rs. unknown_field r" and "unknownFields ord = concat rs"
  shows "Unmarshal (Marshal ord) = Inr ord"
proof -
  have "filter (\<lambda>t. t \<noteq> '''') (Tags ord) = Tags ord" using assms(2) by (intro filter_True) auto
  then show ?thesis using Unmarshal_Marshal[of ord rs] assms by (simp add: encodable_def)
qed

text \<open>Decoding with an older reader and encoding again loses nothing but empty tags: whatever bytes
  the decoder accepts, the re-encoded order decodes to the same order, unknown fields included, without
  its empty tags.\<close>

theorem order_reencode:
  assumes "Unmarshal b = Inr ord"
  shows "Unmarshal (Marshal ord) = Inr (ord\<lparr>Tags := filter (\<lambda>t. t \<noteq> '''') (Tags ord)\<rparr>)"
proof -
  have start: "encodable zero_Order" "\<exists>rs. unknownFields zero_Order = concat rs \<and> (\<forall>r \<in> set rs. unknown_field r)"
    by (auto simp: encodable_def zero_Order_def intro!: exI[of _ "[]"])
  from decoded_order[OF assms[unfolded Unmarshal_def] start] show ?thesis
    using Unmarshal_Marshal by blast
qed

lemma future_field: "unknown_field [0x4A, 1, 0x66]"
  by (simp add: unknown_field_def ConsumeTag_def ConsumeVarint_def known_def SkipValue_def ConsumeBytes_def)

definition example_order :: Order where
  "example_order = zero_Order\<lparr>ord_ID := 42, Customer := ''al'', Tags := [''t''], unknownFields := [0x4A, 1, 0x66]\<rparr>"

theorem order_roundtrip_witness: "Unmarshal (Marshal example_order) = Inr example_order"
  by (rule order_roundtrip[of _ "[[0x4A, 1, 0x66]]"]) (simp_all add: example_order_def zero_Order_def future_field)

theorem order_reencode_witness: "Unmarshal (Marshal (zero_Order\<lparr>Tags := ['''']\<rparr>)) = Inr zero_Order"
proof -
  have "Unmarshal [42, 0] = Inr (zero_Order\<lparr>Tags := ['''']\<rparr>)"
    by (simp add: Unmarshal_def unmarshal_loop.simps decode_field_def ConsumeTag_def ConsumeVarint_def
        ConsumeBytes_def zero_Order_def string_of_def)
  from order_reencode[OF this] show ?thesis by (simp add: zero_Order_def)
qed

end
