(* ===== verification/WireDescribe.thy ===== *)
theory WireDescribe
  imports Wire
begin

text \<open>
  The printer of encoded messages (\<open>Describe\<close> in \<^verbatim>\<open>code/grpc_example/wire.go\<close>): what it prints field by field, and that it stops with an error exactly
  where the decoder does.  The quoting of strings by \<^verbatim>\<open>%q\<close>, which depends on the Unicode tables, is the argument \<open>quote\<close>.
\<close>

subsection \<open>Printing\<close>

definition hex_char :: "nat \<Rightarrow> char" where
  "hex_char d = ''0123456789abcdef'' ! d"

text \<open>\<^verbatim>\<open>% x\<close>: two digits for each byte, separated by spaces.\<close>

fun hex_spaced :: "byte list \<Rightarrow> string" where
  "hex_spaced [] = ''''"
| "hex_spaced [b] = [hex_char (unat b div 16), hex_char (unat b mod 16)]"
| "hex_spaced (b # bs) = hex_char (unat b div 16) # hex_char (unat b mod 16) # CHR '' '' # hex_spaced bs"

definition newline :: string where
  "newline = [CHR 0x0A]"

text \<open>One field: its tag, the bytes of its value, and the value again if its wire type tells how to read it.\<close>

definition describe_field :: "(string \<Rightarrow> string) \<Rightarrow> u64 \<Rightarrow> WireType \<Rightarrow> byte list \<Rightarrow> byte list \<Rightarrow> string" where
  "describe_field quote field wt tagBytes bytes =
     ''  field '' @ decimal (unat field) @ '' ('' @ WireType_String wt @ '')'' @ newline @
     ''    tag:   '' @ hex_spaced tagBytes @ newline @ ''    value: '' @ hex_spaced bytes @
     (if wt = WireVarint then (case ConsumeVarint bytes of Inr (v, n) \<Rightarrow> ''  = '' @ decimal (unat v) | Inl e \<Rightarrow> ''  = '' @ decimal 0)
      else if wt = WireBytes then (case ConsumeBytes bytes of Inr (v, n) \<Rightarrow> ''  = '' @ quote (string_of v) | Inl e \<Rightarrow> ''  = '' @ quote '''')
      else '''') @ newline"

function describe_loop :: "(string \<Rightarrow> string) \<Rightarrow> string \<Rightarrow> byte list \<Rightarrow> string \<times> wire_error option" where
  "describe_loop quote out b =
     (if b = [] then (out, None)
      else case ConsumeTag b of
        Inl e \<Rightarrow> (out, Some e)
      | Inr (field, wt, n) \<Rightarrow> (case SkipValue (drop n b) wt of
          Inl e \<Rightarrow> (out, Some e)
        | Inr m \<Rightarrow> describe_loop quote (out @ describe_field quote field wt (take n b) (take m (drop n b))) (drop m (drop n b))))"
  by auto
termination
  by (relation "measure (\<lambda>(quote, out, b). length b)") (auto dest: ConsumeTag_bounds)

declare describe_loop.simps [simp del]

definition Describe :: "(string \<Rightarrow> string) \<Rightarrow> byte list \<Rightarrow> string \<times> wire_error option" where
  "Describe quote b = describe_loop quote '''' b"

subsection \<open>Describe and Unmarshal agree\<close>

text \<open>The decoder reads a field exactly when the printer skips it, over the same bytes and with the same error.\<close>

lemma decode_field_skip:
  "(case decode_field ord b of Inl e \<Rightarrow> Inl e | Inr (ord', k) \<Rightarrow> Inr k) =
   (case ConsumeTag b of Inl e \<Rightarrow> Inl e | Inr (field, wt, n) \<Rightarrow>
     (case SkipValue (drop n b) wt of Inl e \<Rightarrow> Inl e | Inr m \<Rightarrow> Inr (n + m)))"
  by (auto simp: decode_field_def SkipValue_def Let_def split: sum.splits prod.splits)

lemma describe_unmarshal: "snd (describe_loop quote out b) = (case unmarshal_loop ord b of Inl e \<Rightarrow> Some e | Inr o' \<Rightarrow> None)"
proof (induction quote out b arbitrary: ord rule: describe_loop.induct)
  case (1 quote out b)
  note skip = decode_field_skip[of ord b]
  show ?case
  proof (cases "b = []")
    case True
    then show ?thesis by (simp add: describe_loop.simps unmarshal_loop.simps)
  next
    case False
    show ?thesis
    proof (cases "ConsumeTag b")
      case (Inl e)
      then show ?thesis using skip False
        by (simp add: describe_loop.simps[of quote out b] unmarshal_loop.simps[of ord b] split: sum.splits prod.splits)
    next
      case (Inr t)
      obtain field wt n where t: "ConsumeTag b = Inr (field, wt, n)" using Inr by (cases t) simp
      show ?thesis
      proof (cases "SkipValue (drop n b) wt")
        case (Inl e)
        then show ?thesis using skip False t
          by (simp add: describe_loop.simps[of quote out b] unmarshal_loop.simps[of ord b] split: sum.splits prod.splits)
      next
        case (Inr m)
        then obtain ord' where dec: "decode_field ord b = Inr (ord', n + m)" using skip t by (auto split: sum.splits)
        show ?thesis using 1[OF False t refl refl Inr, of ord'] False t Inr dec
          by (simp add: describe_loop.simps[of quote out b] unmarshal_loop.simps[of ord b] add.commute)
      qed
    qed
  qed
qed

text \<open>C37: \<open>Describe\<close> renders any message that \<open>Unmarshal\<close> accepts, also one with unknown fields, and for any other bytes it returns the error \<open>Unmarshal\<close>
  returns; the strings' quoting plays no part.\<close>

theorem describe_agrees: "snd (Describe quote b) = (case Unmarshal b of Inl e \<Rightarrow> Some e | Inr ord \<Rightarrow> None)"
  unfolding Describe_def Unmarshal_def by (rule describe_unmarshal)

lemma describe_example: "Describe (\<lambda>s. s) [0x08, 0x96, 0x01] =
    (''  field 1 (varint)'' @ newline @ ''    tag:   08'' @ newline @ ''    value: 96 01  = 150'' @ newline, None)"
  by (simp add: Describe_def describe_loop.simps ConsumeTag_def SkipValue_def ConsumeVarint_def describe_field_def hex_char_def
      WireType_String_def decimal.simps char_of_def bit_0)

end
