(* ===== verification/Rpc.thy ===== *)
theory Rpc
  imports Wire
begin

text \<open>
  \<^verbatim>\<open>code/grpc_example/rpc.go\<close>: frames, the order service, the server's dispatch and the
  client.  A connection is a pair of byte streams.  The client holds its lock for a whole call and
  the store holds its lock for a whole operation, so a call is one step: the request bytes go to the
  server, which handles the frame and flushes its reply, and the client reads frames from the bytes
  received and not yet read (\<open>cl_in\<close>).  Accepting, tracking and closing connections is not modelled.
\<close>

subsection \<open>Errors\<close>

type_synonym Code = byte

abbreviation (input) CodeOK :: Code where "CodeOK \<equiv> 0"
abbreviation (input) CodeNotFound :: Code where "CodeNotFound \<equiv> 1"
abbreviation (input) CodeInvalidArgument :: Code where "CodeInvalidArgument \<equiv> 2"
abbreviation (input) CodeAlreadyExists :: Code where "CodeAlreadyExists \<equiv> 3"
abbreviation (input) CodeInternal :: Code where "CodeInternal \<equiv> 4"
abbreviation (input) CodeUnavailable :: Code where "CodeUnavailable \<equiv> 5"

definition Code_String :: "Code \<Rightarrow> string" where
  "Code_String c =
     (if c = CodeOK then ''OK'' else if c = CodeNotFound then ''NOT_FOUND''
      else if c = CodeInvalidArgument then ''INVALID_ARGUMENT''
      else if c = CodeAlreadyExists then ''ALREADY_EXISTS''
      else if c = CodeInternal then ''INTERNAL'' else if c = CodeUnavailable then ''UNAVAILABLE''
      else ''UNKNOWN'')"

datatype rpc_error = StatusError Code string | StreamEnded | FrameTooLarge | BadMessage wire_error | Callback string

definition StatusError_Error :: "Code \<Rightarrow> string \<Rightarrow> string" where
  "StatusError_Error c m = Code_String c @ '': '' @ m"

definition show_int64 :: "u64 \<Rightarrow> string" where
  "show_int64 v = (if sint v < 0 then ''-'' @ decimal (nat (- sint v)) else decimal (nat (sint v)))"

fun wire_error_text :: "wire_error \<Rightarrow> string" where
  "wire_error_text ErrTruncated = ''protobuf: truncated message''"
| "wire_error_text ErrVarintOverflow = ''protobuf: varint overflows 64 bits''"
| "wire_error_text (ErrBadWireType wt) = ''protobuf: unsupported wire type: '' @ show_int64 wt"

subsection \<open>Frames\<close>

abbreviation (input) frameMessage :: byte where "frameMessage \<equiv> 0"
abbreviation (input) frameEnd :: byte where "frameEnd \<equiv> 1"
abbreviation (input) frameError :: byte where "frameError \<equiv> 2"

definition PutUint32BE :: "u32 \<Rightarrow> byte list" where
  "PutUint32BE v = map (\<lambda>i. ucast (drop_bit i v)) [24, 16, 8, 0]"

definition Uint32BE :: "byte list \<Rightarrow> u32" where
  "Uint32BE b = fold (\<lambda>c acc. push_bit 8 acc OR ucast c) (take 4 b) 0"

definition writeFrame :: "byte list \<Rightarrow> byte \<Rightarrow> byte list \<Rightarrow> byte list" where
  "writeFrame w kind payload = w @ (kind # PutUint32BE (word_of_nat (length payload))) @ payload"

text \<open>The result of reading, and the bytes left in the stream; a read past the end uses up the rest.\<close>

definition readFrame :: "byte list \<Rightarrow> (rpc_error + (byte \<times> byte list)) \<times> byte list" where
  "readFrame r =
     (if length r < 5 then (Inl StreamEnded, [])
      else let len = Uint32BE (take 4 (drop 1 r)) in
        if unat len > 16777216 then (Inl FrameTooLarge, drop 5 r)
        else if length (drop 5 r) < unat len then (Inl StreamEnded, [])
        else (Inr (hd r, take (unat len) (drop 5 r)), drop (5 + unat len) r))"

subsection \<open>The order store\<close>

record OrderStore =
  orders :: "u64 \<Rightarrow> Order option"
  byIdempotencyKey :: "string \<Rightarrow> u64 option"
  nextID :: u64

definition NewOrderStore :: OrderStore where
  "NewOrderStore = \<lparr>orders = (\<lambda>_. None), byIdempotencyKey = (\<lambda>_. None), nextID = 0\<rparr>"

definition store_GetOrder :: "u64 \<Rightarrow> OrderStore \<Rightarrow> rpc_error + Order" where
  "store_GetOrder i s =
     (case orders s i of
        None \<Rightarrow> Inl (StatusError CodeNotFound (''order '' @ show_int64 i @ '' not found''))
      | Some ord \<Rightarrow> Inr ord)"

text \<open>\<open>None\<close>: the order the key refers to is missing, a nil dereference.\<close>

definition store_CreateOrder ::
    "string \<Rightarrow> u64 \<Rightarrow> string \<Rightarrow> OrderStore \<Rightarrow> ((rpc_error + Order) \<times> OrderStore) option" where
  "store_CreateOrder customer amount key s =
     (if customer = '''' then Some (Inl (StatusError CodeInvalidArgument ''customer is required''), s)
      else if sint amount \<le> 0 then Some (Inl (StatusError CodeInvalidArgument ''amount must be positive''), s)
      else case (if key \<noteq> '''' then byIdempotencyKey s key else None) of
        Some i \<Rightarrow> map_option (\<lambda>ord. (Inr ord, s)) (orders s i)
      | None \<Rightarrow>
          let i = nextID s + 1;
              ord = zero_Order\<lparr>ord_ID := i, Customer := customer, Amount := amount, ord_Status := StatusPending\<rparr>;
              s1 = s\<lparr>nextID := i, orders := (orders s)(i \<mapsto> ord)\<rparr>
          in Some (Inr ord, if key \<noteq> '''' then s1\<lparr>byIdempotencyKey := (byIdempotencyKey s1)(key \<mapsto> i)\<rparr> else s1))"

definition ListByCustomer :: "string \<Rightarrow> OrderStore \<Rightarrow> Order list" where
  "ListByCustomer customer s =
     concat (map (\<lambda>i. case orders s (word_of_int i) of
         Some ord \<Rightarrow> if customer = '''' \<or> Customer ord = customer then [ord] else []
       | None \<Rightarrow> []) [1..sint (nextID s)])"

subsection \<open>The server\<close>

abbreviation (input) MethodGetOrder :: byte where "MethodGetOrder \<equiv> 0"
abbreviation (input) MethodCreateOrder :: byte where "MethodCreateOrder \<equiv> 1"
abbreviation (input) MethodWatchOrders :: byte where "MethodWatchOrders \<equiv> 2"

fun error_text :: "rpc_error \<Rightarrow> string" where
  "error_text (StatusError c m) = StatusError_Error c m"
| "error_text StreamEnded = ''EOF''"
| "error_text FrameTooLarge = ''rpc: frame exceeds the 16 MB limit''"
| "error_text (BadMessage e) = wire_error_text e"
| "error_text (Callback m) = m"

definition writeError :: "byte list \<Rightarrow> rpc_error \<Rightarrow> byte list" where
  "writeError w err =
     (let se = (case err of StatusError c m \<Rightarrow> (c, m) | _ \<Rightarrow> (CodeInternal, error_text err))
      in writeFrame w frameError (fst se # bytes_of (snd se)))"

definition dispatch :: "byte \<Rightarrow> byte list \<Rightarrow> OrderStore \<Rightarrow> (byte list \<times> OrderStore) option" where
  "dispatch method body s =
     (if method = MethodGetOrder then
        (case Unmarshal body of
           Inl e \<Rightarrow> Some (writeError [] (StatusError CodeInvalidArgument (wire_error_text e)), s)
         | Inr req \<Rightarrow> (case store_GetOrder (ord_ID req) s of
             Inl e \<Rightarrow> Some (writeError [] e, s)
           | Inr ord \<Rightarrow> Some (writeFrame [] frameMessage (Marshal ord), s)))
      else if method = MethodCreateOrder then
        (case Unmarshal body of
           Inl e \<Rightarrow> Some (writeError [] (StatusError CodeInvalidArgument (wire_error_text e)), s)
         | Inr req \<Rightarrow>
             let key = (case Tags req of [] \<Rightarrow> '''' | t # _ \<Rightarrow> t) in
             (case store_CreateOrder (Customer req) (Amount req) key s of
                None \<Rightarrow> None
              | Some (Inl e, s1) \<Rightarrow> Some (writeError [] e, s1)
              | Some (Inr ord, s1) \<Rightarrow> Some (writeFrame [] frameMessage (Marshal ord), s1)))
      else if method = MethodWatchOrders then
        (case Unmarshal body of
           Inl e \<Rightarrow> Some (writeError [] (StatusError CodeInvalidArgument (wire_error_text e)), s)
         | Inr req \<Rightarrow> Some (writeFrame
             (fold (\<lambda>ord w. writeFrame w frameMessage (Marshal ord)) (ListByCustomer (Customer req) s) [])
             frameEnd [], s))
      else Some (writeError [] (StatusError CodeInvalidArgument ''unknown method''), s))"

text \<open>One round of the loop of \<open>handle\<close> on the received bytes: the reply, the store and whether the
  handler goes on.\<close>

definition handle_frame :: "byte list \<Rightarrow> OrderStore \<Rightarrow> (byte list \<times> OrderStore \<times> bool) option" where
  "handle_frame received s =
     (case fst (readFrame received) of
        Inl e \<Rightarrow> Some ([], s, False)
      | Inr (kind, payload) \<Rightarrow>
          if kind \<noteq> frameMessage \<or> length payload < 1 then Some ([], s, False)
          else map_option (\<lambda>(out, s1). (out, s1, True)) (dispatch (hd payload) (tl payload) s))"

subsection \<open>The client\<close>

record session =
  sv_store :: OrderStore
  sv_alive :: bool
  cl_in :: "byte list"

definition Dial :: "OrderStore \<Rightarrow> session" where
  "Dial s = \<lparr>sv_store = s, sv_alive = True, cl_in = []\<rparr>"

text \<open>Writing a request and flushing it: the server replies at once, when its handler still runs.\<close>

definition send :: "byte list \<Rightarrow> session \<Rightarrow> session option" where
  "send req c =
     (if sv_alive c then
        map_option (\<lambda>(out, s, alive). c\<lparr>sv_store := s, sv_alive := alive, cl_in := cl_in c @ out\<rparr>)
          (handle_frame req (sv_store c))
      else Some c)"

definition call :: "byte \<Rightarrow> Order \<Rightarrow> session \<Rightarrow> ((rpc_error + byte list) \<times> session) option" where
  "call method req c =
     (case send (writeFrame [] frameMessage (method # Marshal req)) c of
        None \<Rightarrow> None
      | Some c1 \<Rightarrow>
        (case readFrame (cl_in c1) of
           (Inl e, rest) \<Rightarrow> Some (Inl e, c1\<lparr>cl_in := rest\<rparr>)
         | (Inr (kind, body), rest) \<Rightarrow>
             Some (if kind = frameError
                   then if length body < 1 then Inl (StatusError CodeInternal ''malformed error frame'')
                        else Inl (StatusError (hd body) (string_of (tl body)))
                   else Inr body, c1\<lparr>cl_in := rest\<rparr>)))"

definition decode_reply :: "rpc_error + byte list \<Rightarrow> rpc_error + Order" where
  "decode_reply r = (case r of Inl e \<Rightarrow> Inl e
     | Inr body \<Rightarrow> (case Unmarshal body of Inl e \<Rightarrow> Inl (BadMessage e) | Inr ord \<Rightarrow> Inr ord))"

definition client_GetOrder :: "u64 \<Rightarrow> session \<Rightarrow> ((rpc_error + Order) \<times> session) option" where
  "client_GetOrder i c =
     map_option (\<lambda>(r, c1). (decode_reply r, c1)) (call MethodGetOrder (zero_Order\<lparr>ord_ID := i\<rparr>) c)"

definition client_CreateOrder ::
    "string \<Rightarrow> u64 \<Rightarrow> string \<Rightarrow> session \<Rightarrow> ((rpc_error + Order) \<times> session) option" where
  "client_CreateOrder customer amount key c =
     (let req = zero_Order\<lparr>Customer := customer, Amount := amount\<rparr>;
          req1 = (if key \<noteq> '''' then req\<lparr>Tags := [key]\<rparr> else req)
      in map_option (\<lambda>(r, c1). (decode_reply r, c1)) (call MethodCreateOrder req1 c))"

text \<open>
  The loop of \<open>WatchOrders\<close>: the orders given to \<open>fn\<close>, the outcome and the bytes left.  \<open>fn\<close> is the
  callback, an error or success for each order; an error frame with an empty body panics (\<open>None\<close>).
\<close>

lemma readFrame_shorter: "fst (readFrame r) = Inr x \<Longrightarrow> length (snd (readFrame r)) < length r"
  by (auto simp: readFrame_def Let_def split: if_splits)

function watch_loop :: "(Order \<Rightarrow> rpc_error option) \<Rightarrow> byte list \<Rightarrow>
    (Order list \<times> rpc_error option \<times> byte list) option" where
  "watch_loop fn r =
     (case fst (readFrame r) of
        Inl e \<Rightarrow> Some ([], Some e, snd (readFrame r))
      | Inr (kind, body) \<Rightarrow>
          let rest = snd (readFrame r) in
          if kind = frameEnd then Some ([], None, rest)
          else if kind = frameError then
            (if body = [] then None else Some ([], Some (StatusError (hd body) (string_of (tl body))), rest))
          else if kind = frameMessage then
            (case Unmarshal body of
               Inl e \<Rightarrow> Some ([], Some (BadMessage e), rest)
             | Inr ord \<Rightarrow> (case fn ord of
                 Some e \<Rightarrow> Some ([ord], Some e, rest)
               | None \<Rightarrow> map_option (\<lambda>(os, e, r1). (ord # os, e, r1)) (watch_loop fn rest)))
          else watch_loop fn rest)"
  by auto
termination by (relation "measure (\<lambda>(fn, r). length r)") (auto dest: readFrame_shorter)

declare watch_loop.simps [simp del]

definition client_WatchOrders :: "string \<Rightarrow> (Order \<Rightarrow> rpc_error option) \<Rightarrow> session \<Rightarrow>
    (Order list \<times> rpc_error option \<times> session) option" where
  "client_WatchOrders customer fn c =
     (case send (writeFrame [] frameMessage (MethodWatchOrders # Marshal (zero_Order\<lparr>Customer := customer\<rparr>))) c of
        None \<Rightarrow> None
      | Some c1 \<Rightarrow> map_option (\<lambda>(os, e, rest). (os, e, c1\<lparr>cl_in := rest\<rparr>)) (watch_loop fn (cl_in c1)))"

subsection \<open>Frames are a prefix codec\<close>

lemma length_PutUint32BE [simp]: "length (PutUint32BE v) = 4"
  by (simp add: PutUint32BE_def)

lemma be_step: "push_bit 8 (drop_bit (m + 8) v) OR ucast (ucast (drop_bit m v) :: byte) = drop_bit m (v :: u32)"
proof (rule bit_word_eqI)
  fix n
  show "bit (push_bit 8 (drop_bit (m + 8) v) OR ucast (ucast (drop_bit m v) :: byte)) n = bit (drop_bit m v) n"
  proof (cases "n < 8")
    case False
    then obtain k where "n = 8 + k" using le_Suc_ex by (auto simp: not_less)
    then show ?thesis using bit_imp_le_length[of v "m + (8 + k)"] by (auto simp: bit_simps ac_simps)
  qed (auto simp: bit_simps)
qed

lemma Uint32BE_Put [simp]: "Uint32BE (PutUint32BE v @ rest) = v"
proof -
  have top: "drop_bit 32 v = 0" by (rule bit_word_eqI) (auto simp: bit_simps dest: bit_imp_le_length)
  have "Uint32BE (PutUint32BE v @ rest) =
      push_bit 8 (push_bit 8 (push_bit 8 (push_bit 8 (drop_bit (24 + 8) v) OR ucast (ucast (drop_bit 24 v) :: byte))
        OR ucast (ucast (drop_bit 16 v) :: byte)) OR ucast (ucast (drop_bit 8 v) :: byte)) OR ucast (ucast (drop_bit 0 v) :: byte)"
    by (simp add: Uint32BE_def PutUint32BE_def top)
  also have "\<dots> = v"
    using be_step[of 24 v] be_step[of 16 v] be_step[of 8 v] be_step[of 0 v] by simp
  finally show ?thesis .
qed

definition frame :: "byte \<times> byte list \<Rightarrow> byte list" where
  "frame kp = writeFrame [] (fst kp) (snd kp)"

definition frame_dec :: "byte list \<Rightarrow> rpc_error + ((byte \<times> byte list) \<times> nat)" where
  "frame_dec b = (case readFrame b of (Inl e, r) \<Rightarrow> Inl e | (Inr kp, r) \<Rightarrow> Inr (kp, length b - length r))"

lemma readFrame_frame:
  assumes "length p \<le> 16777216"
  shows "readFrame (frame (k, p) @ rest) = (Inr (k, p), rest)"
proof -
  have n: "unat (word_of_nat (length p) :: u32) = length p"
    using assms by (simp add: unat_of_nat take_bit_nat_eq_self)
  have "frame (k, p) @ rest = k # PutUint32BE (word_of_nat (length p)) @ p @ rest" by (simp add: frame_def writeFrame_def)
  moreover have "Uint32BE (take 4 (PutUint32BE v @ p @ rest)) = v" for v
    using Uint32BE_Put[of v "[]"] by simp
  moreover have "drop 5 (k # PutUint32BE v @ p @ rest) = p @ rest" for v by simp
  moreover have "drop (5 + length p) (k # PutUint32BE v @ p @ rest) = rest" for v
  proof -
    have "drop (5 + length p) xs = drop (length p) (drop 5 xs)" for xs :: "byte list" by (simp add: add.commute)
    from this[of "k # PutUint32BE v @ p @ rest"] show ?thesis by (simp del: drop_drop)
  qed
  ultimately show ?thesis using n assms by (simp add: readFrame_def)
qed

interpretation frames: prefix_codec frame frame_dec "\<lambda>kp. length (snd kp) \<le> 16777216"
proof
  fix kp :: "byte \<times> byte list" and rest b c :: "byte list" and n :: nat
  show "frame_dec (frame kp @ rest) = Inr (kp, length (frame kp))" if "length (snd kp) \<le> 16777216"
    using readFrame_frame[OF that, of "fst kp" rest] by (simp add: frame_dec_def)
  show "0 < n \<and> n \<le> length b" if "frame_dec b = Inr (kp, n)"
    using that readFrame_shorter[of b kp] by (auto simp: frame_dec_def split: prod.splits sum.splits)
  show "frame_dec (take n b @ c) = Inr (kp, n)" if dec: "frame_dec b = Inr (kp, n)"
  proof -
    define m where "m = unat (Uint32BE (take 4 (drop (Suc 0) b)))"
    have b: "5 \<le> length b" "m \<le> 16777216" "m \<le> length b - 5" "kp = (hd b, take m (drop 5 b))" "n = 5 + m"
      using dec by (auto simp: frame_dec_def readFrame_def Let_def m_def[symmetric] not_less split: if_splits)
    have "take 4 (drop (Suc 0) (take n b @ c)) = take 4 (drop (Suc 0) b)" using b by (auto simp: drop_take min_def)
    moreover have "hd (take n b @ c) = hd b" using b by (cases b) auto
    moreover have "take m (drop 5 (take n b @ c)) = take m (drop 5 b)" "drop (5 + m) (take n b @ c) = c"
      using b by (simp_all add: drop_take)
    ultimately show ?thesis using b by (simp add: frame_dec_def readFrame_def m_def[symmetric] Let_def)
  qed
qed

subsection \<open>The store keeps its promises\<close>

datatype store_op = SGet u64 | SCreate string u64 string | SList string

fun store_step :: "store_op \<Rightarrow> OrderStore \<Rightarrow> OrderStore option" where
  "store_step (SGet i) s = Some s"
| "store_step (SCreate c a k) s = map_option snd (store_CreateOrder c a k s)"
| "store_step (SList c) s = Some s"

fun store_run :: "store_op list \<Rightarrow> OrderStore \<Rightarrow> OrderStore option" where
  "store_run [] s = Some s"
| "store_run (op # ops) s = (case store_step op s of None \<Rightarrow> None | Some s1 \<Rightarrow> store_run ops s1)"

definition plain_order :: "u64 \<Rightarrow> Order \<Rightarrow> bool" where
  "plain_order i ord \<longleftrightarrow> ord_ID ord = i \<and> Tags ord = [] \<and> unknownFields ord = []"

definition store_ok :: "nat \<Rightarrow> OrderStore \<Rightarrow> bool" where
  "store_ok n s \<longleftrightarrow> nextID s = word_of_nat n \<and>
     (\<forall>i. orders s i \<noteq> None \<longleftrightarrow> 1 \<le> unat i \<and> unat i \<le> n) \<and>
     (\<forall>k i. byIdempotencyKey s k = Some i \<longrightarrow> orders s i \<noteq> None) \<and>
     (\<forall>i ord. orders s i = Some ord \<longrightarrow> plain_order i ord)"

lemma store_ok_New: "store_ok 0 NewOrderStore"
  by (auto simp: store_ok_def NewOrderStore_def)

definition extends :: "OrderStore \<Rightarrow> OrderStore \<Rightarrow> bool" where
  "extends s s1 \<longleftrightarrow> orders s \<subseteq>\<^sub>m orders s1 \<and> byIdempotencyKey s \<subseteq>\<^sub>m byIdempotencyKey s1"

lemma extends_refl [simp]: "extends s s"
  by (simp add: extends_def)

lemma extends_trans: "extends s s1 \<Longrightarrow> extends s1 s2 \<Longrightarrow> extends s s2"
  by (auto simp: extends_def intro: map_le_trans)

lemma unat_word_of_nat_64: "m < 2 ^ 64 \<Longrightarrow> unat (word_of_nat m :: u64) = m"
  by (simp add: unat_of_nat take_bit_nat_eq_self)

lemma create_new:
  assumes ok: "store_ok n s" and n: "n + 1 < 2 ^ 64" and valid: "customer \<noteq> ''''" "0 < sint amount"
    and fresh: "key = '''' \<or> byIdempotencyKey s key = None"
  shows "\<exists>ord s1. store_CreateOrder customer amount key s = Some (Inr ord, s1) \<and> store_ok (n + 1) s1 \<and> extends s s1 \<and>
    Customer ord = customer \<and> (key \<noteq> '''' \<longrightarrow> byIdempotencyKey s1 key = Some (ord_ID ord) \<and> orders s1 (ord_ID ord) = Some ord)"
proof -
  define i where "i = nextID s + 1"
  have "i = word_of_nat (n + 1)" using ok by (simp add: i_def store_ok_def)
  then have i: "unat i = n + 1" using unat_word_of_nat_64[OF n] by simp
  have "orders s i \<noteq> None \<longleftrightarrow> 1 \<le> unat i \<and> unat i \<le> n" using ok unfolding store_ok_def by blast
  then have new: "orders s i = None" using i by simp
  have iff: "unat j \<le> n + 1 \<longleftrightarrow> unat j \<le> n \<or> j = i" for j using i by (auto simp: le_Suc_eq word_unat_eq_iff)
  define ord where "ord = zero_Order\<lparr>ord_ID := i, Customer := customer, Amount := amount, ord_Status := 1\<rparr>"
  define s1 where "s1 = s\<lparr>nextID := i, orders := (orders s)(i \<mapsto> ord)\<rparr>"
  define s2 where "s2 = (if key \<noteq> '''' then s1\<lparr>byIdempotencyKey := (byIdempotencyKey s1)(key \<mapsto> i)\<rparr> else s1)"
  have eval: "store_CreateOrder customer amount key s = Some (Inr ord, s2)"
    using valid fresh by (auto simp: store_CreateOrder_def Let_def i_def ord_def s1_def s2_def)
  have plain: "plain_order i ord" by (simp add: plain_order_def ord_def zero_Order_def)
  have "store_ok (n + 1) s2"
    unfolding store_ok_def
  proof (intro conjI allI impI)
    show "nextID s2 = word_of_nat (n + 1)" using ok by (simp add: s2_def s1_def i_def store_ok_def)
    show "(orders s2 j \<noteq> None) = (1 \<le> unat j \<and> unat j \<le> n + 1)" for j
      using ok i iff[of j] by (auto simp: s2_def s1_def store_ok_def)
    show "orders s2 j \<noteq> None" if "byIdempotencyKey s2 k = Some j" for k j
      using that ok by (auto simp: s2_def s1_def store_ok_def split: if_splits)
    show "plain_order j o1" if "orders s2 j = Some o1" for j o1
      using that ok plain by (auto simp: s2_def s1_def store_ok_def split: if_splits)
  qed
  moreover have "extends s s2"
    using new fresh by (auto simp: extends_def s2_def s1_def map_le_def)
  moreover have "ord_ID ord = i" "Customer ord = customer" by (simp_all add: ord_def)
  moreover have "key \<noteq> '''' \<longrightarrow> byIdempotencyKey s2 key = Some i \<and> orders s2 i = Some ord" by (simp add: s2_def s1_def)
  ultimately show ?thesis using eval by (intro exI[of _ ord] exI[of _ s2]) simp
qed

lemma create_cases:
  assumes ok: "store_ok n s" and n: "n + 1 < 2 ^ 64"
  shows "\<exists>r s1. store_CreateOrder customer amount key s = Some (r, s1) \<and> extends s s1 \<and>
    (store_ok n s1 \<or> store_ok (n + 1) s1)"
proof -
  consider "customer = '''' \<or> sint amount \<le> 0" | "customer \<noteq> ''''" "0 < sint amount" "key = '''' \<or> byIdempotencyKey s key = None"
    | i where "customer \<noteq> ''''" "0 < sint amount" "key \<noteq> ''''" "byIdempotencyKey s key = Some i"
    by (metis not_le option.exhaust)
  then show ?thesis
  proof cases
    case 1
    then show ?thesis using ok by (auto simp: store_CreateOrder_def)
  next
    case 2
    then show ?thesis using create_new[OF ok n 2] by blast
  next
    case 3
    then obtain ord where "orders s i = Some ord" using ok by (fastforce simp: store_ok_def)
    then show ?thesis using 3 ok by (simp add: store_CreateOrder_def)
  qed
qed

lemma store_run_ok:
  "store_ok n s \<Longrightarrow> n + length ops < 2 ^ 64 \<Longrightarrow>
   \<exists>s1 m. store_run ops s = Some s1 \<and> store_ok m s1 \<and> m \<le> n + length ops \<and> extends s s1"
proof (induction ops arbitrary: n s)
  case Nil
  then show ?case by auto
next
  case (Cons op ops)
  have "\<exists>s1 m. store_step op s = Some s1 \<and> store_ok m s1 \<and> m \<le> n + 1 \<and> extends s s1"
  proof (cases op)
    case (SCreate c a k)
    have "n + 1 < 2 ^ 64" using Cons.prems(2) by simp
    from create_cases[OF Cons.prems(1) this, of c a k] SCreate show ?thesis by fastforce
  qed (use Cons.prems in auto)
  then obtain s1 m where s1: "store_step op s = Some s1" "store_ok m s1" "m \<le> n + 1" "extends s s1" by blast
  moreover have "m + length ops < 2 ^ 64" using s1(3) Cons.prems(2) by simp
  ultimately show ?case using Cons.IH[OF s1(2)] by (fastforce intro: extends_trans)
qed

text \<open>C17: Creating an order is idempotent: after a success under a key, whatever the service did before
  and does in between, a valid request under the same key returns that order and changes nothing; and
  the store never dereferences a missing order.\<close>

theorem create_idempotent:
  assumes "length before + length between + 1 < 2 ^ 64"
    and "store_run before NewOrderStore = Some s0"
    and "store_CreateOrder customer amount key s0 = Some (Inr ord, s1)" and "key \<noteq> ''''"
    and "customer' \<noteq> ''''" and "0 < sint amount'"
  shows "\<exists>s2. store_run between s1 = Some s2 \<and> store_CreateOrder customer' amount' key s2 = Some (Inr ord, s2)"
proof -
  obtain n where n: "store_ok n s0" "n \<le> length before"
    using store_run_ok[OF store_ok_New, of before] assms(1,2) by auto
  have "n + 1 < 2 ^ 64" using n(2) assms(1) by simp
  have valid: "customer \<noteq> ''''" "0 < sint amount"
    using assms(3) by (auto simp: store_CreateOrder_def split: if_splits)
  have "store_ok n s1 \<or> store_ok (n + 1) s1"
    using create_cases[OF n(1) \<open>n + 1 < 2 ^ 64\<close>, of customer amount key] assms(3) by auto
  then obtain m where m: "store_ok m s1" "m \<le> n + 1" by auto
  have stored: "\<exists>i. byIdempotencyKey s1 key = Some i \<and> orders s1 i = Some ord"
  proof (cases "byIdempotencyKey s0 key")
    case None
    then show ?thesis using create_new[OF n(1) \<open>n + 1 < 2 ^ 64\<close> valid, of key] assms(3,4) by auto
  next
    case (Some i)
    then show ?thesis using assms(3,4) valid by (auto simp: store_CreateOrder_def split: if_splits)
  qed
  then obtain i where i: "byIdempotencyKey s1 key = Some i" "orders s1 i = Some ord" by blast
  have "m + length between < 2 ^ 64" using m(2) n(2) assms(1) by simp
  then obtain s2 where s2: "store_run between s1 = Some s2" "extends s1 s2"
    using store_run_ok[OF m(1)] by blast
  then have "byIdempotencyKey s2 key = Some i" "orders s2 i = Some ord"
    using i by (auto simp: extends_def map_le_def dom_def)
  then show ?thesis using s2(1) assms(4-6) by (auto simp: store_CreateOrder_def)
qed

theorem create_idempotent_witness:
  "\<exists>ord s1 s2. store_CreateOrder ''al'' 5 ''k'' NewOrderStore = Some (Inr ord, s1) \<and>
    store_run [SCreate ''bo'' 7 ''''] s1 = Some s2 \<and> store_CreateOrder ''al'' 5 ''k'' s2 = Some (Inr ord, s2)"
proof -
  have "\<exists>ord s1. store_CreateOrder ''al'' 5 ''k'' NewOrderStore = Some (Inr ord, s1)"
    by (simp add: store_CreateOrder_def NewOrderStore_def Let_def)
  then obtain ord s1 where 1: "store_CreateOrder ''al'' 5 ''k'' NewOrderStore = Some (Inr ord, s1)" by blast
  have "\<exists>s2. store_run [SCreate ''bo'' 7 ''''] s1 = Some s2 \<and> store_CreateOrder ''al'' 5 ''k'' s2 = Some (Inr ord, s2)"
    by (rule create_idempotent[of "[]" "[SCreate ''bo'' 7 '''']" NewOrderStore, OF _ _ 1]) simp_all
  then show ?thesis using 1 by blast
qed

subsection \<open>Sizes\<close>

lemma length_varint: "length (varint v) \<le> 10"
  using VarintSize_le[of v] by (simp add: VarintSize_varint)

lemma length_AppendTag: "length (AppendTag [] f wt) \<le> 10"
  by (simp add: AppendTag_def length_varint)

lemma length_AppendInt64: "length (AppendInt64 [] f v) \<le> 20"
proof (cases "v = 0")
  case False
  then show ?thesis using AppendInt64_chunk[OF False, of f] length_AppendTag[of f 0] length_varint[of v] by simp
qed (simp add: AppendInt64_def)

lemma length_AppendString: "length (AppendString [] f s) \<le> 20 + length s"
proof (cases "s = ''''")
  case False
  then show ?thesis
    using AppendString_chunk[OF False, of f] length_AppendTag[of f 2] length_varint[of "word_of_nat (length s)"]
    by (simp add: delimited_def)
qed (simp add: AppendString_def)

definition small_order :: "Order \<Rightarrow> bool" where
  "small_order ord \<longleftrightarrow> unknownFields ord = [] \<and> length (Customer ord) \<le> 1048576 \<and>
     (\<forall>t \<in> set (Tags ord). t \<noteq> '''' \<and> length t \<le> 1048576) \<and> length (Tags ord) \<le> 1"

lemma length_Marshal:
  assumes "small_order ord" shows "length (Marshal ord) \<le> 2097300"
proof -
  have tags: "length (concat (map (AppendString [] 5) (Tags ord))) \<le> 20 + 1048576"
  proof (cases "Tags ord")
    case (Cons t ts)
    then show ?thesis using assms length_AppendString[of 5 t] by (simp add: small_order_def)
  qed simp
  have "length (Customer ord) \<le> 1048576" "unknownFields ord = []" using assms by (simp_all add: small_order_def)
  then show ?thesis
    using tags length_AppendInt64[of 1 "ord_ID ord"] length_AppendInt64[of 3 "Amount ord"]
      length_AppendInt64[of 4 "ord_Status ord"] length_AppendString[of 2 "Customer ord"]
    by (simp add: Marshal_chunks)
qed

lemma small_roundtrip: "small_order ord \<Longrightarrow> Unmarshal (Marshal ord) = Inr ord"
proof -
  assume small: "small_order ord"
  then have "filter (\<lambda>t. t \<noteq> '''') (Tags ord) = Tags ord" "encodable ord" "unknownFields ord = concat []"
    by (auto simp: small_order_def encodable_def intro!: filter_True)
  then show ?thesis using Unmarshal_Marshal[of ord "[]"] by simp
qed

lemma length_show_int64: "length (show_int64 v) \<le> 21"
proof -
  have "- (2 ^ 63) \<le> sint v" "sint v < 2 ^ 63" using sint_greater_eq[of v] sint_less[of v] by simp_all
  then have "nat (- sint v) < 10 ^ 20" "nat (sint v) < 10 ^ 20" by auto
  then have "length (decimal (nat (- sint v))) \<le> 20" "length (decimal (nat (sint v))) \<le> 20"
    by (simp_all only: length_decimal zero_less_numeral)
  then show ?thesis by (simp add: show_int64_def del: decimal.simps)
qed

subsection \<open>Calls over a clean connection\<close>

definition clean :: "session \<Rightarrow> bool" where
  "clean c \<longleftrightarrow> sv_alive c \<and> cl_in c = []"

lemma writeFrame_Nil: "writeFrame [] k p = frame (k, p)"
  by (simp add: frame_def)

lemma readFrame_frame_Nil: "length p \<le> 16777216 \<Longrightarrow> readFrame (frame (k, p)) = (Inr (k, p), [])"
  using readFrame_frame[of p k "[]"] by simp

lemma send_dispatch:
  assumes "sv_alive c" and "length (Marshal req) \<le> 2097300" and "dispatch m (Marshal req) (sv_store c) = Some (out, s1)"
  shows "send (writeFrame [] 0 (m # Marshal req)) c = Some (c\<lparr>sv_store := s1, sv_alive := True, cl_in := cl_in c @ out\<rparr>)"
  using assms by (simp add: send_def handle_frame_def writeFrame_Nil readFrame_frame_Nil)

lemma call_reply:
  assumes "clean c" and "length (Marshal req) \<le> 2097300"
    and "dispatch m (Marshal req) (sv_store c) = Some (frame (k, p), s1)" and "length p \<le> 16777216"
  shows "call m req c = Some (if k = 2 then if length p < 1 then Inl (StatusError 4 ''malformed error frame'')
      else Inl (StatusError (hd p) (string_of (tl p))) else Inr p, c\<lparr>sv_store := s1\<rparr>)"
  using send_dispatch[OF _ assms(2,3)] assms(1,4)
  by (simp add: call_def clean_def readFrame_frame_Nil)

lemma call_error:
  assumes "clean c" and "length (Marshal req) \<le> 2097300"
    and "dispatch m (Marshal req) (sv_store c) = Some (writeError [] (StatusError code msg), s1)"
    and "length msg \<le> 1000"
  shows "call m req c = Some (Inl (StatusError code msg), c\<lparr>sv_store := s1\<rparr>)"
proof -
  have "writeError [] (StatusError code msg) = frame (2, code # bytes_of msg)"
    by (simp add: writeError_def Let_def writeFrame_Nil)
  then show ?thesis using call_reply[OF assms(1,2), of m 2 "code # bytes_of msg" s1] assms(3,4) by simp
qed

definition small_store :: "OrderStore \<Rightarrow> bool" where
  "small_store s \<longleftrightarrow> (\<forall>i ord. orders s i = Some ord \<longrightarrow> length (Customer ord) \<le> 1048576)"

lemma stored_small:
  assumes "store_ok n s" and "small_store s" and "orders s i = Some ord"
  shows "small_order ord"
proof -
  have "plain_order i ord" using assms(1,3) by (simp add: store_ok_def)
  moreover have "length (Customer ord) \<le> 1048576" using assms(2,3) by (simp add: small_store_def)
  ultimately show ?thesis by (simp add: small_order_def plain_order_def)
qed

lemma small_request: "small_order (zero_Order\<lparr>ord_ID := i\<rparr>)"
  by (simp add: small_order_def zero_Order_def)

lemma client_GetOrder_clean:
  assumes "clean c" and "store_ok n (sv_store c)" and "small_store (sv_store c)"
  shows "client_GetOrder i c = Some (store_GetOrder i (sv_store c), c)"
proof -
  let ?req = "zero_Order\<lparr>ord_ID := i\<rparr>"
  note req = small_roundtrip[OF small_request[of i]] length_Marshal[OF small_request[of i]]
  show ?thesis
  proof (cases "orders (sv_store c) i")
    case None
    have "length (''order '' @ show_int64 i @ '' not found'') \<le> 1000" using length_show_int64[of i] by simp
    moreover have "dispatch 0 (Marshal ?req) (sv_store c) =
        Some (writeError [] (StatusError 1 (''order '' @ show_int64 i @ '' not found'')), sv_store c)"
      using None by (simp add: dispatch_def req(1) store_GetOrder_def)
    ultimately show ?thesis
      using call_error[OF assms(1) req(2)] None by (simp add: client_GetOrder_def decode_reply_def store_GetOrder_def)
  next
    case (Some ord)
    have small: "small_order ord" by (rule stored_small[OF assms(2,3) Some])
    have "dispatch 0 (Marshal ?req) (sv_store c) = Some (frame (0, Marshal ord), sv_store c)"
      using Some by (simp add: dispatch_def req(1) store_GetOrder_def writeFrame_Nil)
    then have "call 0 ?req c = Some (Inr (Marshal ord), c)"
      using call_reply[OF assms(1) req(2), of 0 0 "Marshal ord"] length_Marshal[OF small] by simp
    then show ?thesis using Some small_roundtrip[OF small]
      by (simp add: client_GetOrder_def decode_reply_def store_GetOrder_def)
  qed
qed

lemma client_CreateOrder_clean:
  assumes "clean c" and "store_ok n (sv_store c)" and "n + 1 < 2 ^ 64" and "small_store (sv_store c)"
    and "length customer \<le> 1048576" and "length key \<le> 1048576"
  shows "\<exists>r s1. store_CreateOrder customer amount key (sv_store c) = Some (r, s1) \<and>
    client_CreateOrder customer amount key c = Some (r, c\<lparr>sv_store := s1\<rparr>)"
proof -
  define req where "req = (zero_Order\<lparr>Customer := customer, Amount := amount,
    Tags := (if key \<noteq> '''' then [key] else [])\<rparr>)"
  have cl: "client_CreateOrder customer amount key c = map_option (\<lambda>(r, c1). (decode_reply r, c1)) (call 1 req c)"
    by (simp add: client_CreateOrder_def req_def zero_Order_def)
  have small: "small_order req" using assms(5,6) by (simp add: small_order_def req_def zero_Order_def)
  note req = small_roundtrip[OF small] length_Marshal[OF small]
  have fields: "Customer req = customer" "Amount req = amount" "(case Tags req of [] \<Rightarrow> '''' | t # _ \<Rightarrow> t) = key"
    by (simp_all add: req_def)
  obtain r s1 where r: "store_CreateOrder customer amount key (sv_store c) = Some (r, s1)" "store_ok n s1 \<or> store_ok (n + 1) s1"
    using create_cases[OF assms(2,3)] by blast
  show ?thesis
  proof (cases r)
    case (Inl e)
    then obtain msg where e: "e = StatusError 2 msg" "length msg \<le> 1000"
      using r(1) by (auto simp: store_CreateOrder_def Let_def split: if_splits option.splits)
    then have "dispatch 1 (Marshal req) (sv_store c) = Some (writeError [] (StatusError 2 msg), s1)"
      using r(1) Inl by (simp add: dispatch_def req(1) fields Let_def)
    then show ?thesis using call_error[OF assms(1) req(2) _ e(2)] r(1) Inl e(1) by (simp add: cl decode_reply_def)
  next
    case (Inr ord)
    have ord: "small_order ord"
    proof (cases "if key \<noteq> '''' then byIdempotencyKey (sv_store c) key else None")
      case None
      then have "ord = zero_Order\<lparr>ord_ID := nextID (sv_store c) + 1, Customer := customer, Amount := amount, ord_Status := 1\<rparr>"
        using r(1) Inr by (auto simp: store_CreateOrder_def Let_def split: if_splits)
      then show ?thesis using assms(5) by (simp add: small_order_def zero_Order_def)
    next
      case (Some i)
      then have "orders (sv_store c) i = Some ord"
        using r(1) Inr by (auto simp: store_CreateOrder_def split: if_splits)
      then show ?thesis by (rule stored_small[OF assms(2,4)])
    qed
    have "dispatch 1 (Marshal req) (sv_store c) = Some (frame (0, Marshal ord), s1)"
      using r(1) Inr by (simp add: dispatch_def req(1) fields Let_def writeFrame_Nil)
    then have "call 1 req c = Some (Inr (Marshal ord), c\<lparr>sv_store := s1\<rparr>)"
      using call_reply[OF assms(1) req(2), of 1 0 "Marshal ord"] length_Marshal[OF ord] by simp
    then show ?thesis using r(1) Inr small_roundtrip[OF ord] by (simp add: cl decode_reply_def)
  qed
qed

text \<open>C10: A remote call is the local call: on a connection without unread bytes, over a store the service
  can reach, \<open>GetOrder\<close> and \<open>CreateOrder\<close> through frames, the wire format, dispatch and error frames
  return exactly the result of the store's method, and leave the connection without unread bytes, for
  strings up to one megabyte.\<close>

theorem rpc_transparent:
  assumes "store_run ops NewOrderStore = Some (sv_store c)" and "length ops + 1 < 2 ^ 64"
    and "sv_alive c \<and> cl_in c = []"
    and "\<forall>i ord. orders (sv_store c) i = Some ord \<longrightarrow> length (Customer ord) \<le> 1048576"
    and "length customer \<le> 1048576" and "length key \<le> 1048576"
  shows "client_GetOrder i c = Some (store_GetOrder i (sv_store c), c) \<and>
    client_CreateOrder customer amount key c =
      map_option (\<lambda>(r, s1). (r, c\<lparr>sv_store := s1\<rparr>)) (store_CreateOrder customer amount key (sv_store c))"
proof -
  obtain n where n: "store_ok n (sv_store c)" "n \<le> length ops"
    using store_run_ok[OF store_ok_New, of ops] assms(1,2) by auto
  have c: "clean c" and s: "small_store (sv_store c)" and "n + 1 < 2 ^ 64"
    using assms n(2) by (simp_all add: clean_def small_store_def)
  then show ?thesis
    using client_GetOrder_clean[OF c n(1) s, of i] client_CreateOrder_clean[OF c n(1) _ s assms(5,6), of amount]
    by auto
qed

theorem rpc_transparent_witness:
  "client_GetOrder 7 (Dial NewOrderStore) = Some (Inl (StatusError 1 ''order 7 not found''), Dial NewOrderStore)"
proof -
  have "client_GetOrder 7 (Dial NewOrderStore) =
      Some (store_GetOrder 7 (sv_store (Dial NewOrderStore)), Dial NewOrderStore)"
    using rpc_transparent[of "[]" "Dial NewOrderStore" "''al''" "''''" 7 5] by (simp add: Dial_def NewOrderStore_def)
  then show ?thesis
    by (simp add: Dial_def NewOrderStore_def store_GetOrder_def show_int64_def) (simp add: char_of_def bit_0)
qed

subsection \<open>Streams\<close>

lemma fold_writeFrame:
  "fold (\<lambda>ord w. writeFrame w 0 (Marshal ord)) os w = w @ concat (map (\<lambda>ord. frame (0, Marshal ord)) os)"
proof (induction os arbitrary: w)
  case (Cons o1 os)
  then show ?case by (simp add: writeFrame_def frame_def)
qed simp

lemma ListByCustomer_small:
  "store_ok n s \<Longrightarrow> small_store s \<Longrightarrow> \<forall>ord \<in> set (ListByCustomer customer s). small_order ord"
  by (auto simp: ListByCustomer_def split: option.splits if_splits intro: stored_small)

definition stream :: "Order list \<Rightarrow> byte list" where
  "stream os = concat (map (\<lambda>ord. frame (0, Marshal ord)) os) @ frame (1, [])"

lemma watch_loop_next:
  assumes "small_order ord"
  shows "watch_loop fn (frame (0, Marshal ord) @ rest) = (case fn ord of
    Some e \<Rightarrow> Some ([ord], Some e, rest)
  | None \<Rightarrow> map_option (\<lambda>(os, e, r1). (ord # os, e, r1)) (watch_loop fn rest))"
  using length_Marshal[OF assms] small_roundtrip[OF assms]
  by (simp add: watch_loop.simps[of fn "frame (0, Marshal ord) @ rest"] readFrame_frame)

lemma watch_loop_stream:
  assumes "\<forall>ord \<in> set os. small_order ord" and "\<forall>ord \<in> set os. fn ord = None"
  shows "watch_loop fn (stream os) = Some (os, None, [])"
  using assms
proof (induction os)
  case Nil
  show ?case
    by (simp add: stream_def watch_loop.simps[of fn "frame (1, [])"] readFrame_frame_Nil)
next
  case (Cons ord os)
  have "watch_loop fn (frame (0, Marshal ord) @ stream os) = Some (ord # os, None, [])"
    using Cons by (subst watch_loop_next) simp_all
  then show ?case by (simp add: stream_def)
qed

lemma send_watch:
  assumes "clean c" and "store_ok n (sv_store c)" and "small_store (sv_store c)" and "length customer \<le> 1048576"
  shows "send (writeFrame [] 0 (2 # Marshal (zero_Order\<lparr>Customer := customer\<rparr>))) c =
    Some (c\<lparr>cl_in := stream (ListByCustomer customer (sv_store c))\<rparr>)"
proof -
  have small: "small_order (zero_Order\<lparr>Customer := customer\<rparr>)"
    using assms(4) by (simp add: small_order_def zero_Order_def)
  have "dispatch 2 (Marshal (zero_Order\<lparr>Customer := customer\<rparr>)) (sv_store c) =
      Some (stream (ListByCustomer customer (sv_store c)), sv_store c)"
    by (simp add: dispatch_def small_roundtrip[OF small] fold_writeFrame stream_def) (simp add: writeFrame_def frame_def)
  then show ?thesis
    using send_dispatch[OF _ length_Marshal[OF small]] assms(1) by (simp add: clean_def)
qed

text \<open>A watch whose callback accepts every order delivers exactly the customer's orders in the order
  of their creation, ends without error and leaves the connection without unread bytes.\<close>

theorem watch_delivers_all:
  assumes "store_run ops NewOrderStore = Some (sv_store c)" and "length ops + 1 < 2 ^ 64"
    and "sv_alive c \<and> cl_in c = []"
    and "\<forall>i ord. orders (sv_store c) i = Some ord \<longrightarrow> length (Customer ord) \<le> 1048576"
    and "length customer \<le> 1048576"
  shows "client_WatchOrders customer (\<lambda>_. None) c = Some (ListByCustomer customer (sv_store c), None, c)"
proof -
  obtain n where n: "store_ok n (sv_store c)" using store_run_ok[OF store_ok_New, of ops] assms(1,2) by auto
  have c: "clean c" and s: "small_store (sv_store c)" using assms by (simp_all add: clean_def small_store_def)
  show ?thesis
    using send_watch[OF c n s assms(5)] watch_loop_stream[OF ListByCustomer_small[OF n s], where fn = "\<lambda>_. None"] c
    by (simp add: client_WatchOrders_def clean_def)
qed

theorem watch_delivers_all_witness:
  "client_WatchOrders ''al'' (\<lambda>_. None) (Dial NewOrderStore) = Some ([], None, Dial NewOrderStore)"
  using watch_delivers_all[of "[]" "Dial NewOrderStore" "''al''"]
  by (simp add: Dial_def NewOrderStore_def ListByCustomer_def)

text \<open>An aborted watch corrupts the connection: when the callback refuses the first of two or more
  orders, the frames not read stay in the stream, and the next \<open>GetOrder\<close>, for whatever id, returns
  without error the second order of the watch.\<close>

theorem watch_abort_desynchronises:
  assumes "store_run ops NewOrderStore = Some (sv_store c)" and "length ops + 1 < 2 ^ 64"
    and "sv_alive c \<and> cl_in c = []"
    and "\<forall>i ord. orders (sv_store c) i = Some ord \<longrightarrow> length (Customer ord) \<le> 1048576"
    and "length customer \<le> 1048576"
    and "ListByCustomer customer (sv_store c) = o1 # o2 # os" and "fn o1 = Some e"
  shows "\<exists>c1 c2. client_WatchOrders customer fn c = Some ([o1], Some e, c1) \<and>
    client_GetOrder i c1 = Some (Inr o2, c2)"
proof -
  obtain n where n: "store_ok n (sv_store c)" using store_run_ok[OF store_ok_New, of ops] assms(1,2) by auto
  have c: "clean c" and s: "small_store (sv_store c)" using assms by (simp_all add: clean_def small_store_def)
  have small: "small_order o1" "small_order o2" using ListByCustomer_small[OF n s, of customer] assms(6) by simp_all
  define c1 where "c1 = c\<lparr>cl_in := stream (o2 # os)\<rparr>"
  have "watch_loop fn (frame (0, Marshal o1) @ stream (o2 # os)) = Some ([o1], Some e, stream (o2 # os))"
    using assms(7) by (subst watch_loop_next[OF small(1)]) simp
  then have watch: "client_WatchOrders customer fn c = Some ([o1], Some e, c1)"
    using send_watch[OF c n s assms(5)] assms(6) by (simp add: client_WatchOrders_def c1_def stream_def)
  have alive: "sv_alive c1" "sv_store c1 = sv_store c" using assms(3) by (simp_all add: c1_def)
  note req = small_roundtrip[OF small_request[of i]] length_Marshal[OF small_request[of i]]
  obtain out where out: "dispatch 0 (Marshal (zero_Order\<lparr>ord_ID := i\<rparr>)) (sv_store c1) = Some (out, sv_store c)"
    unfolding alive(2) by (cases "store_GetOrder i (sv_store c)") (simp_all add: dispatch_def req(1))
  have "send (writeFrame [] 0 (0 # Marshal (zero_Order\<lparr>ord_ID := i\<rparr>))) c1 =
      Some (c1\<lparr>sv_store := sv_store c, sv_alive := True, cl_in := frame (0, Marshal o2) @ stream os @ out\<rparr>)"
    using send_dispatch[OF alive(1) req(2) out] by (simp add: c1_def stream_def)
  then have "\<exists>c2. call 0 (zero_Order\<lparr>ord_ID := i\<rparr>) c1 = Some (Inr (Marshal o2), c2)"
    using length_Marshal[OF small(2)] by (simp add: call_def readFrame_frame)
  then show ?thesis using watch small_roundtrip[OF small(2)]
    by (auto simp: client_GetOrder_def decode_reply_def)
qed

definition two_orders :: OrderStore where
  "two_orders = the (store_run [SCreate ''al'' 5 '''', SCreate ''al'' 6 ''''] NewOrderStore)"

theorem watch_abort_desynchronises_witness:
  "\<exists>o1 o2 c1 c2. client_WatchOrders ''al'' (\<lambda>_. Some (Callback ''stop'')) (Dial two_orders) =
      Some ([o1], Some (Callback ''stop''), c1) \<and>
    client_GetOrder 77 c1 = Some (Inr o2, c2) \<and> ord_ID o2 = 2"
proof -
  let ?ops = "[SCreate ''al'' 5 '''', SCreate ''al'' 6 '''']"
  define o1 where "o1 = zero_Order\<lparr>ord_ID := 1, Customer := ''al'', Amount := 5, ord_Status := 1\<rparr>"
  define o2 where "o2 = zero_Order\<lparr>ord_ID := 2, Customer := ''al'', Amount := 6, ord_Status := 1\<rparr>"
  have run: "store_run ?ops NewOrderStore =
      Some \<lparr>orders = (\<lambda>_. None)(1 \<mapsto> o1, 2 \<mapsto> o2), byIdempotencyKey = (\<lambda>_. None), nextID = 2\<rparr>"
    by (simp add: NewOrderStore_def store_CreateOrder_def o1_def o2_def Let_def)
  then have s: "two_orders = \<lparr>orders = (\<lambda>_. None)(1 \<mapsto> o1, 2 \<mapsto> o2), byIdempotencyKey = (\<lambda>_. None), nextID = 2\<rparr>"
    by (simp add: two_orders_def)
  have "[1..2] = [1, 2 :: int]" by (simp add: upto.simps)
  then have l: "ListByCustomer ''al'' two_orders = [o1, o2]"
    by (simp add: ListByCustomer_def s) (simp add: o1_def o2_def zero_Order_def)
  have small: "\<forall>i ord. orders two_orders i = Some ord \<longrightarrow> length (Customer ord) \<le> 1048576"
    by (auto simp: s o1_def o2_def zero_Order_def)
  from watch_abort_desynchronises[of ?ops "Dial two_orders" "''al''" o1 o2 "[]" "\<lambda>_. Some (Callback ''stop'')" "Callback ''stop''" 77]
  have "\<exists>c1 c2. client_WatchOrders ''al'' (\<lambda>_. Some (Callback ''stop'')) (Dial two_orders) =
      Some ([o1], Some (Callback ''stop''), c1) \<and> client_GetOrder 77 c1 = Some (Inr o2, c2)"
    using run s l small by (simp add: Dial_def)
  then show ?thesis by (auto simp: o2_def)
qed

end
