(* ===== verification/RpcServer.thy ===== *)
theory RpcServer
  imports Prelude
begin

text \<open>
  The life cycle of the RPC server (\<open>NewServer\<close>, \<open>Listen\<close>, \<open>Addr\<close>, \<open>trackConn\<close>, \<open>untrackConn\<close>, \<open>Close\<close> and the goroutines of \<^verbatim>\<open>code/grpc_example/rpc.go\<close>).
  What goes over a connection is the subject of \<open>Rpc\<close>; here a read of a handler yields a frame or an error and a
  flush succeeds or not.  The accept loop, the handlers and any number of calls of \<open>Close\<close> interleave; a step is a critical
  section under \<open>connMu\<close>, an operation on the wait group, the once, a listener or a connection.
\<close>

subsection \<open>The server\<close>

datatype once = OnceNew | OnceRunning | OnceDone

text \<open>Listeners and connections are numbers.  The last three fields are the state of the network: the listeners and connections this side has not
  closed, and the next fresh connection.\<close>

record Server =
  sv_listener :: "nat option"
  sv_wg :: int
  sv_closing :: bool
  sv_once :: once
  sv_conns :: "nat set"
  net_listeners :: "nat set"
  net_conns :: "nat set"
  net_next :: nat

definition NewServer :: Server where
  "NewServer = \<lparr>sv_listener = None, sv_wg = 0, sv_closing = False, sv_once = OnceNew, sv_conns = {},
     net_listeners = {}, net_conns = {}, net_next = 0\<rparr>"

definition trackConn :: "nat \<Rightarrow> Server \<Rightarrow> bool \<times> Server" where
  "trackConn c s = (if sv_closing s then (False, s) else (True, s\<lparr>sv_conns := insert c (sv_conns s)\<rparr>))"

definition untrackConn :: "nat \<Rightarrow> Server \<Rightarrow> Server" where
  "untrackConn c s = s\<lparr>sv_conns := sv_conns s - {c}\<rparr>"

text \<open>The address, with what the listeners answer.\<close>

definition Addr :: "(nat \<Rightarrow> string) \<Rightarrow> Server \<Rightarrow> string" where
  "Addr addr_of s = (case sv_listener s of None \<Rightarrow> [] | Some l \<Rightarrow> addr_of l)"

text \<open>Where a goroutine is: the accept loop on a listener, a handler, a call of \<open>Close\<close>.\<close>

datatype sproc =
    AcceptWaits nat | AcceptTracks nat nat | AcceptDrops nat | AcceptAdds nat nat | AcceptGoes nat nat | AcceptExits
  | HandleReads nat | HandleFlushes nat | HandleCloses nat | HandleUntracks nat | HandleExits
  | CloseEnters | CloseSignals | CloseListener | CloseConns | CloseLeaves | CloseWaits | CloseReturned
  | Gone

text \<open>\<open>net.Listen\<close> gives a listener or an error (\<open>None\<close>); \<open>Listen\<close> returns what it returns and the goroutine it starts.\<close>

definition Listen :: "(string + nat) \<Rightarrow> Server \<Rightarrow> string option \<times> Server \<times> sproc list" where
  "Listen r s = (case r of
     Inl err \<Rightarrow> (Some err, s, [])
   | Inr l \<Rightarrow> (None, s\<lparr>sv_listener := Some l, net_listeners := insert l (net_listeners s), sv_wg := sv_wg s + 1\<rparr>, [AcceptWaits l]))"

text \<open>A move of a goroutine: the server after it, where the goroutine is then, and the goroutines it starts.  A closed listener gives no connection but an error, and
  a flush on a closed connection fails; an open one may give an error too, and a read may still find a frame in its buffer.\<close>

inductive sv_move :: "Server \<Rightarrow> sproc \<Rightarrow> Server \<Rightarrow> sproc \<Rightarrow> sproc list \<Rightarrow> bool" where
  Accept_conn: "l \<in> net_listeners s \<Longrightarrow>
    sv_move s (AcceptWaits l) (s\<lparr>net_conns := insert (net_next s) (net_conns s), net_next := net_next s + 1\<rparr>) (AcceptTracks l (net_next s)) []"
| Accept_err: "sv_move s (AcceptWaits l) s AcceptExits []"
| Accept_track: "trackConn c s = (ok, s') \<Longrightarrow> sv_move s (AcceptTracks l c) s' (if ok then AcceptAdds l c else AcceptDrops c) []"
| Accept_drop: "sv_move s (AcceptDrops c) (s\<lparr>net_conns := net_conns s - {c}\<rparr>) AcceptExits []"
| Accept_add: "sv_move s (AcceptAdds l c) (s\<lparr>sv_wg := sv_wg s + 1\<rparr>) (AcceptGoes l c) []"
| Accept_go: "sv_move s (AcceptGoes l c) s (AcceptWaits l) [HandleReads c]"
| Accept_done: "sv_move s AcceptExits (s\<lparr>sv_wg := sv_wg s - 1\<rparr>) Gone []"
| Handle_frame: "sv_move s (HandleReads c) s (HandleFlushes c) []"
| Handle_end: "sv_move s (HandleReads c) s (HandleCloses c) []"
| Handle_flushed: "c \<in> net_conns s \<Longrightarrow> sv_move s (HandleFlushes c) s (HandleReads c) []"
| Handle_broken: "sv_move s (HandleFlushes c) s (HandleCloses c) []"
| Handle_close: "sv_move s (HandleCloses c) (s\<lparr>net_conns := net_conns s - {c}\<rparr>) (HandleUntracks c) []"
| Handle_untrack: "sv_move s (HandleUntracks c) (untrackConn c s) HandleExits []"
| Handle_done: "sv_move s HandleExits (s\<lparr>sv_wg := sv_wg s - 1\<rparr>) Gone []"
| Once_first: "sv_once s = OnceNew \<Longrightarrow> sv_move s CloseEnters (s\<lparr>sv_once := OnceRunning\<rparr>) CloseSignals []"
| Once_done: "sv_once s = OnceDone \<Longrightarrow> sv_move s CloseEnters s CloseWaits []"
| Close_signal: "sv_move s CloseSignals (s\<lparr>sv_closing := True\<rparr>) CloseListener []"
| Close_listener: "sv_move s CloseListener (case sv_listener s of None \<Rightarrow> s | Some l \<Rightarrow> s\<lparr>net_listeners := net_listeners s - {l}\<rparr>) CloseConns []"
| Close_conns: "sv_move s CloseConns (s\<lparr>net_conns := net_conns s - sv_conns s\<rparr>) CloseLeaves []"
| Close_leave: "sv_move s CloseLeaves (s\<lparr>sv_once := OnceDone\<rparr>) CloseWaits []"
| Close_wait: "sv_wg s = 0 \<Longrightarrow> sv_move s CloseWaits s CloseReturned []"

inductive sv_step :: "Server \<times> sproc list \<Rightarrow> Server \<times> sproc list \<Rightarrow> bool" where
  "i < length ps \<Longrightarrow> sv_move s (ps ! i) s' p new \<Longrightarrow> sv_step (s, ps) (s', ps[i := p] @ new)"

text \<open>A server that has been told to listen on some listeners, one after the other, and some calls of \<open>Close\<close>.\<close>

fun listens :: "nat list \<Rightarrow> Server \<Rightarrow> Server \<times> sproc list" where
  "listens [] s = (s, [])"
| "listens (l # ls) s = (case Listen (Inr l) s of (err, s1, new) \<Rightarrow> case listens ls s1 of (s2, ps) \<Rightarrow> (s2, new @ ps))"

definition sv_init :: "nat list \<Rightarrow> nat \<Rightarrow> Server \<times> sproc list \<Rightarrow> bool" where
  "sv_init ls n w \<longleftrightarrow> (case listens ls NewServer of (s, ps) \<Rightarrow> w = (s, ps @ replicate n CloseEnters))"

subsection \<open>The invariant\<close>

text \<open>What a goroutine counts for in the wait group.\<close>

fun wg_share :: "sproc \<Rightarrow> int" where
  "wg_share (AcceptWaits l) = 1"
| "wg_share (AcceptTracks l c) = 1"
| "wg_share (AcceptDrops c) = 1"
| "wg_share (AcceptAdds l c) = 1"
| "wg_share (AcceptGoes l c) = 2"
| "wg_share AcceptExits = 1"
| "wg_share (HandleReads c) = 1"
| "wg_share (HandleFlushes c) = 1"
| "wg_share (HandleCloses c) = 1"
| "wg_share (HandleUntracks c) = 1"
| "wg_share HandleExits = 1"
| "wg_share _ = 0"

text \<open>The connection a goroutine will untrack, and the one it will close.\<close>

fun tracks :: "sproc \<Rightarrow> nat option" where
  "tracks (AcceptAdds l c) = Some c"
| "tracks (AcceptGoes l c) = Some c"
| "tracks (HandleReads c) = Some c"
| "tracks (HandleFlushes c) = Some c"
| "tracks (HandleCloses c) = Some c"
| "tracks (HandleUntracks c) = Some c"
| "tracks _ = None"

fun closes :: "sproc \<Rightarrow> nat option" where
  "closes (AcceptTracks l c) = Some c"
| "closes (AcceptDrops c) = Some c"
| "closes (AcceptAdds l c) = Some c"
| "closes (AcceptGoes l c) = Some c"
| "closes (HandleReads c) = Some c"
| "closes (HandleFlushes c) = Some c"
| "closes (HandleCloses c) = Some c"
| "closes _ = None"

definition in_once :: "sproc \<Rightarrow> bool" where
  "in_once p \<longleftrightarrow> p \<in> {CloseSignals, CloseListener, CloseConns, CloseLeaves}"

text \<open>What holds when a goroutine is at a place of \<open>Close\<close>.\<close>

fun at_place :: "Server \<Rightarrow> sproc \<Rightarrow> bool" where
  "at_place s CloseListener = sv_closing s"
| "at_place s CloseConns = (sv_closing s \<and> (\<forall>l. sv_listener s = Some l \<longrightarrow> l \<notin> net_listeners s))"
| "at_place s CloseLeaves = (sv_closing s \<and> sv_conns s \<inter> net_conns s = {} \<and> (\<forall>l. sv_listener s = Some l \<longrightarrow> l \<notin> net_listeners s))"
| "at_place s CloseWaits = (sv_once s = OnceDone)"
| "at_place s CloseReturned = (sv_once s = OnceDone \<and> sv_wg s = 0)"
| "at_place s _ = True"

definition sv_inv :: "Server \<times> sproc list \<Rightarrow> bool" where
  "sv_inv w \<longleftrightarrow> (case w of (s, ps) \<Rightarrow>
     sv_wg s = sum_list (map wg_share ps) \<and>
     count_if in_once ps = (if sv_once s = OnceRunning then 1 else 0) \<and>
     (\<forall>c \<in> sv_conns s. \<exists>p \<in> set ps. tracks p = Some c) \<and>
     (\<forall>p \<in> set ps. \<forall>c. tracks p = Some c \<or> closes p = Some c \<longrightarrow> c < net_next s) \<and>
     (\<forall>c \<in> net_conns s. \<exists>p \<in> set ps. closes p = Some c) \<and>
     (sv_once s = OnceDone \<longrightarrow> sv_closing s \<and> sv_conns s \<inter> net_conns s = {} \<and> (\<forall>l. sv_listener s = Some l \<longrightarrow> l \<notin> net_listeners s)) \<and>
     (\<forall>p \<in> set ps. at_place s p))"

lemma in_set_moved: "i < length ps \<Longrightarrow> q \<in> set (ps[i := p] @ new) \<Longrightarrow> q = p \<or> q \<in> set new \<or> q \<in> set ps"
  using set_update_subset_insert[of ps i p] by auto

lemma ex_moved:
  assumes "i < length ps" and "\<exists>q \<in> set ps. Q q" and "Q (ps ! i) \<Longrightarrow> Q p \<or> (\<exists>q \<in> set new. Q q)"
  shows "\<exists>q \<in> set (ps[i := p] @ new). Q q"
proof -
  obtain j where j: "j < length ps" "Q (ps ! j)" using assms(2) by (auto simp: in_set_conv_nth)
  show ?thesis
  proof (cases "j = i")
    case True
    then show ?thesis using assms(1,3) j set_update_memI[OF assms(1), of p] by auto
  next
    case False
    then have "ps ! j \<in> set (ps[i := p])" using j(1) nth_mem[of j "ps[i := p]"] by simp
    then show ?thesis using j(2) by auto
  qed
qed

lemma wg_share_nonneg: "0 \<le> wg_share p"
  by (cases p) simp_all

lemma sum_shares_zero: "sum_list (map wg_share ps) = 0 \<longleftrightarrow> (\<forall>p \<in> set ps. wg_share p = 0)"
  using sum_list_nonneg_eq_0_iff[of "map wg_share ps"] wg_share_nonneg by auto

lemma sv_move_wg: "sv_move s p0 s' p new \<Longrightarrow> sv_wg s' + wg_share p0 = sv_wg s + wg_share p + sum_list (map wg_share new)"
  by (erule sv_move.cases) (auto simp: trackConn_def untrackConn_def split: if_splits option.splits)

lemma sv_move_once: "sv_move s p0 s' p new \<Longrightarrow> \<forall>q \<in> set new. \<not> in_once q"
  "sv_move s p0 s' p new \<Longrightarrow> in_once p \<and> \<not> in_once p0 \<Longrightarrow> sv_once s = OnceNew \<and> sv_once s' = OnceRunning"
  "sv_move s p0 s' p new \<Longrightarrow> in_once p0 \<and> \<not> in_once p \<Longrightarrow> sv_once s' = OnceDone"
  "sv_move s p0 s' p new \<Longrightarrow> in_once p0 = in_once p \<Longrightarrow> sv_once s' = sv_once s"
  by (erule sv_move.cases; auto simp: in_once_def trackConn_def untrackConn_def split: if_splits option.splits)+

lemma sv_move_conns:
  assumes "sv_move s p0 s' p new"
  shows "c \<in> sv_conns s' \<Longrightarrow> c \<in> sv_conns s \<and> (tracks p0 = Some c \<longrightarrow> tracks p = Some c \<or> (\<exists>q \<in> set new. tracks q = Some c)) \<or> tracks p = Some c"
    and "c \<in> net_conns s' \<Longrightarrow> c \<in> net_conns s \<and> (closes p0 = Some c \<longrightarrow> closes p = Some c \<or> (\<exists>q \<in> set new. closes q = Some c)) \<or> closes p = Some c"
    and "net_next s \<le> net_next s'"
  using assms by (cases rule: sv_move.cases; auto simp: trackConn_def untrackConn_def split: if_splits option.splits)+

lemma sv_move_closed:
  assumes "sv_move s p0 s' p new"
  shows "sv_closing s \<Longrightarrow> sv_closing s'" and "sv_listener s' = sv_listener s" and "net_listeners s' \<subseteq> net_listeners s"
    and "sv_closing s \<Longrightarrow> sv_conns s' \<subseteq> sv_conns s" and "net_conns s' \<subseteq> insert (net_next s) (net_conns s)"
  using assms by (cases rule: sv_move.cases; auto simp: trackConn_def untrackConn_def split: if_splits option.splits)+

lemma sv_move_fresh:
  assumes "sv_move s p0 s' p new" and "q = p \<or> q \<in> set new" and "tracks q = Some c \<or> closes q = Some c"
  shows "tracks p0 = Some c \<or> closes p0 = Some c \<or> c < net_next s'"
  using assms by (cases rule: sv_move.cases) (auto simp: trackConn_def split: if_splits)

lemma sv_move_finished:
  assumes "sv_move s p0 s' p new"
  shows "sv_once s' = OnceDone \<Longrightarrow> sv_once s = OnceDone \<or> p0 = CloseLeaves \<and> s' = s\<lparr>sv_once := OnceDone\<rparr>"
    and "sv_once s = OnceDone \<Longrightarrow> in_once p0 \<or> sv_once s' = OnceDone"
    and "wg_share p0 = 0 \<Longrightarrow> sv_wg s' = sv_wg s"
  using assms by (cases rule: sv_move.cases; auto simp: in_once_def trackConn_def untrackConn_def split: if_splits option.splits)+

lemma sv_move_place:
  assumes "sv_move s p0 s' p new" and "at_place s p0"
  shows "q = p \<or> q \<in> set new \<Longrightarrow> at_place s' q"
  using assms by (cases rule: sv_move.cases) (auto simp: trackConn_def split: if_splits option.splits)

lemma sv_inv_step:
  assumes "sv_inv w" and "sv_step w w'"
  shows "sv_inv w'"
  using assms(2)
proof cases
  case (1 i ps s s' p new)
  note i = 1(3) and move = 1(4)
  let ?ps = "ps[i := p] @ new"
  have mem: "ps ! i \<in> set ps" using i by simp
  have wg: "sv_wg s = sum_list (map wg_share ps)"
    and one: "count_if in_once ps = (if sv_once s = OnceRunning then 1 else 0)"
    and conns: "\<And>c. c \<in> sv_conns s \<Longrightarrow> \<exists>p \<in> set ps. tracks p = Some c"
    and fresh: "\<And>p c. p \<in> set ps \<Longrightarrow> tracks p = Some c \<or> closes p = Some c \<Longrightarrow> c < net_next s"
    and nets: "\<And>c. c \<in> net_conns s \<Longrightarrow> \<exists>p \<in> set ps. closes p = Some c"
    and over: "sv_once s = OnceDone \<Longrightarrow> sv_closing s \<and> sv_conns s \<inter> net_conns s = {} \<and> (\<forall>l. sv_listener s = Some l \<longrightarrow> l \<notin> net_listeners s)"
    and places: "\<And>q. q \<in> set ps \<Longrightarrow> at_place s q"
    using assms(1) unfolding 1(1) sv_inv_def by auto
  note closed = sv_move_closed[OF move] and finished = sv_move_finished[OF move]
  have share: "sv_wg s' = sum_list (map wg_share ?ps)"
    using sum_list_update_add[OF i, of wg_share p] sv_move_wg[OF move] wg by simp
  have body: "count_if in_once ?ps = (if sv_once s' = OnceRunning then 1 else 0)"
  proof -
    have "count_if in_once new = 0" using sv_move_once(1)[OF move] by (simp add: count_if_zero)
    moreover have "in_once (ps ! i) \<Longrightarrow> sv_once s = OnceRunning" using one count_if_pos[OF i, of in_once] by (auto split: if_splits)
    ultimately show ?thesis
      using count_if_update[OF i, of in_once p] sv_move_once(2-4)[OF move] one by (cases "in_once p"; cases "in_once (ps ! i)") auto
  qed
  have apart: "sv_conns s' \<inter> net_conns s' = {}" if "sv_closing s" "sv_conns s \<inter> net_conns s = {}"
  proof -
    have "net_next s \<notin> sv_conns s" using conns fresh by blast
    then show ?thesis using closed(4,5) that by blast
  qed
  have done': "sv_closing s' \<and> sv_conns s' \<inter> net_conns s' = {} \<and> (\<forall>l. sv_listener s' = Some l \<longrightarrow> l \<notin> net_listeners s')"
    if "sv_once s' = OnceDone"
    using finished(1)[OF that]
  proof
    assume "sv_once s = OnceDone"
    then show ?thesis using over apart closed(1-3) by auto
  next
    assume "ps ! i = CloseLeaves \<and> s' = s\<lparr>sv_once := OnceDone\<rparr>"
    then show ?thesis using places[OF mem] by auto
  qed
  have quiet: "sv_wg s' = 0" if "sv_wg s = 0"
  proof -
    have "wg_share (ps ! i) = 0" using that wg mem sum_shares_zero by metis
    then show ?thesis using finished(3) that by simp
  qed
  have still: "sv_once s = OnceDone \<Longrightarrow> sv_once s' = OnceDone"
    using finished(2) one count_if_pos[OF i, of in_once] by auto
  have places': "at_place s' q" if q: "q \<in> set ?ps" for q
    using in_set_moved[OF i q] sv_move_place[OF move places[OF mem], of q]
  proof (elim disjE)
    assume "q \<in> set ps"
    from places[OF this] show ?thesis
      using closed(1-3) apart quiet still by (cases q) auto
  qed auto
  have conns': "\<exists>q \<in> set ?ps. tracks q = Some c" if "c \<in> sv_conns s'" for c
    using sv_move_conns(1)[OF move that] conns[of c] ex_moved[OF i, of "\<lambda>q. tracks q = Some c" p new] set_update_memI[OF i, of p] by auto
  have nets': "\<exists>q \<in> set ?ps. closes q = Some c" if "c \<in> net_conns s'" for c
    using sv_move_conns(2)[OF move that] nets[of c] ex_moved[OF i, of "\<lambda>q. closes q = Some c" p new] set_update_memI[OF i, of p] by auto
  have fresh': "c < net_next s'" if q: "q \<in> set ?ps" "tracks q = Some c \<or> closes q = Some c" for q c
    using in_set_moved[OF i q(1)] sv_move_fresh[OF move _ q(2)] fresh[OF mem, of c] fresh[of q c] q(2) sv_move_conns(3)[OF move] by fastforce
  show ?thesis unfolding 1(2) sv_inv_def using share body conns' nets' fresh' done' places' by auto
qed

lemma listens_state:
  assumes "listens ls s = (s', ps)"
  shows "sv_wg s' = sv_wg s + int (length ls) \<and> sv_closing s' = sv_closing s \<and> sv_once s' = sv_once s \<and> sv_conns s' = sv_conns s \<and>
    net_conns s' = net_conns s \<and> net_next s' = net_next s \<and> ps = map AcceptWaits ls \<and>
    sv_listener s' = (if ls = [] then sv_listener s else Some (last ls)) \<and> net_listeners s' = net_listeners s \<union> set ls"
  using assms
proof (induction ls arbitrary: s s' ps)
  case (Cons l ls)
  obtain s1 ps1 where "listens ls (s\<lparr>sv_listener := Some l, net_listeners := insert l (net_listeners s), sv_wg := sv_wg s + 1\<rparr>) = (s1, ps1)"
    by (metis surj_pair)
  from Cons.IH[OF this] this Cons.prems show ?case by (auto simp: Listen_def)
qed simp

lemma init_state:
  assumes "sv_init ls n w"
  obtains s where "w = (s, map AcceptWaits ls @ replicate n CloseEnters)" and "sv_wg s = int (length ls)" and "\<not> sv_closing s"
    and "sv_once s = OnceNew" and "sv_conns s = {}" and "net_conns s = {}" and "net_listeners s = set ls"
    and "sv_listener s = (if ls = [] then None else Some (last ls))"
proof -
  obtain s ps where l: "listens ls NewServer = (s, ps)" by (metis surj_pair)
  from listens_state[OF l] show ?thesis using that[of s] assms l by (simp add: sv_init_def NewServer_def)
qed

lemma sv_inv_init: "sv_init ls n w \<Longrightarrow> sv_inv w"
proof (erule init_state)
  fix s
  assume w: "w = (s, map AcceptWaits ls @ replicate n CloseEnters)" and s: "sv_wg s = int (length ls)" "\<not> sv_closing s"
    "sv_once s = OnceNew" "sv_conns s = {}" "net_conns s = {}"
  have "sum_list (map wg_share (map AcceptWaits ls @ replicate n CloseEnters)) = int (length ls)"
    by (simp add: comp_def sum_list_triv sum_list_replicate)
  moreover have "count_if in_once (map AcceptWaits ls @ replicate n CloseEnters) = 0" by (auto simp: count_if_zero in_once_def)
  ultimately show "sv_inv w" using s by (auto simp: sv_inv_def w)
qed

interpretation sv: step_system "sv_init ls n" sv_step sv_inv for ls n
  by unfold_locales (auto intro: sv_inv_init sv_inv_step)

text \<open>C21: Whatever the interleaving of accept loops, handlers and calls of \<open>Close\<close>: once a \<open>Close\<close> has closed the connections no tracked connection is open and none will be
  tracked, also one accepted meanwhile; and when a \<open>Close\<close> returns no handler or accept loop is left, no connection is tracked, and every connection
  ever accepted is closed.\<close>

theorem server_close_complete:
  assumes "reach (sv_init ls n) sv_step (s, ps)"
  shows "sv_wg s = sum_list (map wg_share ps) \<and>
    (sv_once s = OnceDone \<longrightarrow> sv_conns s \<inter> net_conns s = {} \<and> (\<forall>c. fst (trackConn c s) = False)) \<and>
    (CloseReturned \<in> set ps \<longrightarrow> sv_conns s = {} \<and> net_conns s = {} \<and> (\<forall>p \<in> set ps. wg_share p = 0))"
proof -
  have inv: "sv_inv (s, ps)" by (rule sv.reachable_inv[OF assms])
  then have wg: "sv_wg s = sum_list (map wg_share ps)" by (simp add: sv_inv_def)
  have "sv_conns s = {} \<and> net_conns s = {} \<and> (\<forall>p \<in> set ps. wg_share p = 0)" if "CloseReturned \<in> set ps"
  proof -
    have "at_place s CloseReturned" using inv that by (auto simp: sv_inv_def)
    then have "sum_list (map wg_share ps) = 0" using wg by simp
    then have none: "\<forall>p \<in> set ps. wg_share p = 0" using sum_shares_zero by blast
    have "wg_share p = 0 \<Longrightarrow> tracks p = None \<and> closes p = None" for p by (cases p) simp_all
    then have "\<forall>p \<in> set ps. tracks p = None \<and> closes p = None" using none by blast
    moreover have "\<forall>c \<in> sv_conns s. \<exists>p \<in> set ps. tracks p = Some c" "\<forall>c \<in> net_conns s. \<exists>p \<in> set ps. closes p = Some c"
      using inv by (simp_all add: sv_inv_def)
    ultimately have "sv_conns s = {}" "net_conns s = {}" by fastforce+
    then show ?thesis using none by simp
  qed
  then show ?thesis using wg inv by (auto simp: sv_inv_def trackConn_def)
qed

subsection \<open>Close comes to an end\<close>

text \<open>With one listener: its accept loop is the only one, and the connections of the handlers are tracked or closed.\<close>

fun accepts_on :: "sproc \<Rightarrow> nat option" where
  "accepts_on (AcceptWaits l) = Some l"
| "accepts_on (AcceptTracks l c) = Some l"
| "accepts_on (AcceptAdds l c) = Some l"
| "accepts_on (AcceptGoes l c) = Some l"
| "accepts_on _ = None"

definition one_listener :: "nat \<Rightarrow> Server \<times> sproc list \<Rightarrow> bool" where
  "one_listener l w \<longleftrightarrow> sv_inv w \<and> (case w of (s, ps) \<Rightarrow>
     sv_listener s = Some l \<and> (\<forall>p \<in> set ps. \<forall>k. accepts_on p = Some k \<longrightarrow> k = l) \<and>
     (\<forall>p \<in> set ps. \<forall>c. tracks p = Some c \<longrightarrow> c \<in> sv_conns s \<or> c \<notin> net_conns s) \<and>
     (\<forall>c. HandleUntracks c \<in> set ps \<longrightarrow> c \<notin> net_conns s))"

lemma sv_move_one:
  assumes "sv_move s p0 s' p new" and "q = p \<or> q \<in> set new"
  shows "accepts_on q = Some k \<Longrightarrow> accepts_on p0 = Some k"
    and "tracks q = Some c \<Longrightarrow> tracks p0 = Some c \<or> c \<in> sv_conns s'"
    and "q = HandleUntracks c \<Longrightarrow> c \<notin> net_conns s'"
  using assms by (cases rule: sv_move.cases; auto simp: trackConn_def split: if_splits)+

lemma sv_move_lost:
  assumes "sv_move s p0 s' p new"
  shows "c \<in> sv_conns s \<Longrightarrow> c \<in> sv_conns s' \<or> p0 = HandleUntracks c"
    and "c \<in> net_conns s' \<Longrightarrow> c \<in> net_conns s \<or> c = net_next s"
  using assms by (cases rule: sv_move.cases; auto simp: trackConn_def untrackConn_def split: if_splits option.splits)+

lemma one_listener_step:
  assumes "one_listener l w" and "sv_step w w'"
  shows "one_listener l w'"
  using assms(2)
proof cases
  case (1 i ps s s' p new)
  note i = 1(3) and move = 1(4)
  have mem: "ps ! i \<in> set ps" using i by simp
  have inv: "sv_inv (s, ps)" and lis: "sv_listener s = Some l" and acc: "\<And>q k. q \<in> set ps \<Longrightarrow> accepts_on q = Some k \<Longrightarrow> k = l"
    and tr: "\<And>q c. q \<in> set ps \<Longrightarrow> tracks q = Some c \<Longrightarrow> c \<in> sv_conns s \<or> c \<notin> net_conns s"
    and un: "\<And>c. HandleUntracks c \<in> set ps \<Longrightarrow> c \<notin> net_conns s"
    using assms(1) unfolding 1(1) one_listener_def by auto
  have fresh: "\<And>p c. p \<in> set ps \<Longrightarrow> tracks p = Some c \<Longrightarrow> c < net_next s" using inv by (auto simp: sv_inv_def)
  have keep: "c \<in> sv_conns s' \<or> c \<notin> net_conns s'" if c: "c < net_next s" "c \<in> sv_conns s \<or> c \<notin> net_conns s" for c
  proof (rule ccontr)
    assume lost: "\<not> (c \<in> sv_conns s' \<or> c \<notin> net_conns s')"
    then have net: "c \<in> net_conns s" using sv_move_lost(2)[OF move, of c] c(1) by auto
    then have "ps ! i = HandleUntracks c" using sv_move_lost(1)[OF move, of c] c(2) lost by blast
    then show False using un[of c] mem net by simp
  qed
  have acc': "k = l" if q: "q \<in> set (ps[i := p] @ new)" "accepts_on q = Some k" for q k
    using in_set_moved[OF i q(1)] sv_move_one(1)[OF move _ q(2)] acc[OF mem] acc[of q] q(2) by blast
  have tr': "c \<in> sv_conns s' \<or> c \<notin> net_conns s'" if q: "q \<in> set (ps[i := p] @ new)" "tracks q = Some c" for q c
  proof (cases "q \<in> set ps")
    case True
    show ?thesis by (rule keep[OF fresh[OF True q(2)] tr[OF True q(2)]])
  next
    case False
    then have "q = p \<or> q \<in> set new" using in_set_moved[OF i q(1)] by blast
    from sv_move_one(2)[OF move this q(2)] show ?thesis using keep[OF fresh tr] mem by blast
  qed
  have un': "c \<notin> net_conns s'" if q: "HandleUntracks c \<in> set (ps[i := p] @ new)" for c
  proof (cases "HandleUntracks c \<in> set ps")
    case True
    then show ?thesis using un[OF True] fresh[OF True] sv_move_lost(2)[OF move, of c] by auto
  next
    case False
    then show ?thesis using in_set_moved[OF i q] sv_move_one(3)[OF move, of "HandleUntracks c" c] by blast
  qed
  have "sv_inv w'" using sv_inv_step[OF _ assms(2)] inv 1(1) by simp
  then show ?thesis unfolding one_listener_def using lis sv_move_closed(2)[OF move] acc' tr' un' by (simp add: 1(2))
qed

interpretation sv_one: step_system "sv_init [l] n" sv_step "one_listener l" for l n
proof
  show "one_listener l w" if init: "sv_init [l] n w" for w
    by (rule init_state[OF init]) (use sv_inv_init[OF init] in \<open>auto simp: one_listener_def\<close>)
qed (rule one_listener_step)

text \<open>The steps left once the connections are closed.\<close>

fun moves_left :: "sproc \<Rightarrow> nat" where
  "moves_left (AcceptWaits l) = 2"
| "moves_left (AcceptTracks l c) = 3"
| "moves_left (AcceptDrops c) = 2"
| "moves_left (AcceptAdds l c) = 10"
| "moves_left (AcceptGoes l c) = 9"
| "moves_left AcceptExits = 1"
| "moves_left (HandleReads c) = 5"
| "moves_left (HandleFlushes c) = 4"
| "moves_left (HandleCloses c) = 3"
| "moves_left (HandleUntracks c) = 2"
| "moves_left HandleExits = 1"
| "moves_left CloseEnters = 2"
| "moves_left CloseSignals = 6"
| "moves_left CloseListener = 5"
| "moves_left CloseConns = 4"
| "moves_left CloseLeaves = 3"
| "moves_left CloseWaits = 1"
| "moves_left _ = 0"

lemma sv_step_left:
  assumes "one_listener l (s, ps)" and "sv_once s = OnceDone" and "sv_step (s, ps) (s', ps')"
  shows "sum_list (map moves_left ps') < sum_list (map moves_left ps)" and "sv_once s' = OnceDone"
proof -
  have inv: "sv_inv (s, ps)" and lis: "sv_listener s = Some l" and acc: "\<And>q k. q \<in> set ps \<Longrightarrow> accepts_on q = Some k \<Longrightarrow> k = l"
    and tr: "\<And>q c. q \<in> set ps \<Longrightarrow> tracks q = Some c \<Longrightarrow> c \<in> sv_conns s \<or> c \<notin> net_conns s"
    using assms(1) unfolding one_listener_def by auto
  have over: "sv_closing s" "sv_conns s \<inter> net_conns s = {}" "l \<notin> net_listeners s" and "count_if in_once ps = 0"
    using inv lis assms(2) by (simp_all add: sv_inv_def)
  from assms(3) have "sum_list (map moves_left ps') < sum_list (map moves_left ps) \<and> sv_once s' = OnceDone"
  proof cases
    case (1 i p new)
    have mem: "ps ! i \<in> set ps" using 1(2) by simp
    have out: "\<not> in_once (ps ! i)" using \<open>count_if in_once ps = 0\<close> mem by (simp add: count_if_zero)
    have "moves_left p + sum_list (map moves_left new) < moves_left (ps ! i)"
      using 1(3)
    proof (cases rule: sv_move.cases)
      case (Accept_conn k)
      then show ?thesis using acc[OF mem, of k] over(3) by simp
    next
      case (Accept_track c ok k)
      then show ?thesis using over(1) by (auto simp: trackConn_def)
    next
      case (Handle_flushed c)
      then show ?thesis using tr[OF mem, of c] over(2) by auto
    qed (use assms(2) in simp_all)
    then show ?thesis
      using sum_list_update_add[OF 1(2), of moves_left p] sv_move_finished(2)[OF 1(3) assms(2)] out unfolding 1(1) by auto
  qed
  then show "sum_list (map moves_left ps') < sum_list (map moves_left ps)" "sv_once s' = OnceDone" by simp_all
qed

lemma sv_can_move: "wg_share q \<noteq> 0 \<or> in_once q \<Longrightarrow> \<exists>s' q' new. sv_move s q s' q' new"
proof (cases q)
  case (AcceptTracks l c)
  obtain ok s' where "trackConn c s = (ok, s')" by (metis surj_pair)
  then show ?thesis using sv_move.Accept_track AcceptTracks by blast
qed (auto simp: in_once_def intro: sv_move.Accept_err sv_move.Accept_drop sv_move.Accept_add sv_move.Accept_go sv_move.Accept_done sv_move.Handle_frame
  sv_move.Handle_broken sv_move.Handle_close sv_move.Handle_untrack sv_move.Handle_done sv_move.Close_signal sv_move.Close_listener
  sv_move.Close_conns sv_move.Close_leave)

lemma sv_stuck:
  assumes inv: "sv_inv (s, ps)" and stuck: "\<nexists>w'. sv_step (s, ps) w'" and p: "p \<in> set ps"
  shows "p = Gone \<or> p = CloseReturned"
proof -
  have no: "\<not> sv_move s q s' q' new" if "q \<in> set ps" for q s' q' new
    using that stuck sv_step.intros[of _ ps s s' q' new] by (auto simp: in_set_conv_nth)
  have free: "wg_share q = 0 \<and> \<not> in_once q" if "q \<in> set ps" for q using sv_can_move[of q s] no[OF that] by blast
  then have "count_if in_once ps = 0" by (simp add: count_if_zero)
  then have idle: "sv_once s \<noteq> OnceRunning" using inv by (auto simp: sv_inv_def)
  have "sum_list (map wg_share ps) = 0" unfolding sum_shares_zero using free by blast
  then have zero: "sv_wg s = 0" using inv by (simp add: sv_inv_def)
  have "p \<noteq> CloseWaits" using no[OF p] sv_move.Close_wait[OF zero] by blast
  moreover have "p \<noteq> CloseEnters"
    using no[OF p] idle sv_move.Once_first[of s] sv_move.Once_done[of s] by (cases "sv_once s") blast+
  ultimately show ?thesis using free[OF p] by (cases p) (simp_all add: in_once_def)
qed

text \<open>A server that listens once never deadlocks: some goroutine can move until every call of \<open>Close\<close> has returned and every goroutine is gone; and once a
  \<open>Close\<close> has closed the connections, only finitely many steps are left, whatever the clients do.\<close>

theorem server_close_terminates:
  assumes "reach (sv_init [l] n) sv_step (s, ps)"
  shows "((\<exists>w'. sv_step (s, ps) w') \<or> (\<forall>p \<in> set ps. p = Gone \<or> p = CloseReturned)) \<and>
    (sv_once s = OnceDone \<longrightarrow> \<not> (\<exists>f. f 0 = (s, ps) \<and> (\<forall>i. sv_step (f i) (f (Suc i)))))"
proof -
  have one: "one_listener l (s, ps)" by (rule sv_one.reachable_inv[OF assms])
  have "False" if "sv_once s = OnceDone" and f: "f 0 = (s, ps)" "\<forall>i. sv_step (f i) (f (Suc i))" for f
  proof -
    have inv: "one_listener l (f i) \<and> sv_once (fst (f i)) = OnceDone" for i
    proof (induction i)
      case (Suc i)
      then show ?case using one_listener_step[of l "f i"] sv_step_left(2)[of l "fst (f i)" "snd (f i)"] f(2) by (metis surjective_pairing)
    qed (use one that(1) f(1) in simp)
    have "\<forall>i. sum_list (map moves_left (snd (f (Suc i)))) < sum_list (map moves_left (snd (f i)))"
      using inv sv_step_left(1) f(2) by (metis surjective_pairing)
    then show False using no_descent[of "\<lambda>i. sum_list (map moves_left (snd (f i)))"] by blast
  qed
  then show ?thesis using sv_stuck one unfolding one_listener_def by blast
qed

subsection \<open>A second listener\<close>

lemma reach_move:
  assumes "reach I sv_step (s, ps)" and "i < length ps" and "sv_move s (ps ! i) s' p new" and "ps' = ps[i := p] @ new"
  shows "reach I sv_step (s', ps')"
  using reach_step[OF assms(1) sv_step.intros[OF assms(2,3)]] assms(4) by simp

text \<open>\<open>Close\<close> runs up to its wait and the last accept loop ends; no client has connected.\<close>

lemma close_waits:
  assumes "l \<notin> set ks"
  obtains s where "reach (sv_init (ks @ [l]) 1) sv_step (s, map AcceptWaits ks @ [Gone, CloseWaits])" and "sv_once s = OnceDone"
    and "sv_wg s = int (length ks)" and "net_listeners s = set ks"
proof -
  obtain s0 ps0 where "listens (ks @ [l]) NewServer = (s0, ps0)" by (metis surj_pair)
  then have "sv_init (ks @ [l]) 1 (s0, ps0 @ [CloseEnters])" by (simp add: sv_init_def)
  moreover from this obtain "(s0, ps0 @ [CloseEnters]) = (s0, map AcceptWaits ks @ [AcceptWaits l, CloseEnters])"
    and s0: "sv_wg s0 = int (length ks) + 1" "sv_once s0 = OnceNew" "net_listeners s0 = insert l (set ks)" "sv_listener s0 = Some l"
    by (rule init_state) (auto simp: replicate_append_same)
  ultimately have start: "reach (sv_init (ks @ [l]) 1) sv_step (s0, map AcceptWaits ks @ [AcceptWaits l, CloseEnters])"
    by (metis reach_init)
  let ?k = "length ks" and ?A = "map AcceptWaits ks"
  let ?I = "sv_init (ks @ [l]) 1"
  note move = reach_move[where I = ?I]
  define s1 where "s1 = s0\<lparr>sv_once := OnceRunning\<rparr>"
  define s2 where "s2 = s1\<lparr>sv_closing := True\<rparr>"
  define s3 where "s3 = s2\<lparr>net_listeners := net_listeners s2 - {l}\<rparr>"
  define s4 where "s4 = s3\<lparr>sv_wg := sv_wg s3 - 1\<rparr>"
  define s5 where "s5 = s4\<lparr>net_conns := net_conns s4 - sv_conns s4\<rparr>"
  define s6 where "s6 = s5\<lparr>sv_once := OnceDone\<rparr>"
  have "reach ?I sv_step (s1, ?A @ [AcceptWaits l, CloseSignals])" unfolding s1_def
    by (rule move[OF start, of "?k + 1"]) (auto simp: nth_append list_update_append s0 intro: sv_move.Once_first)
  then have "reach ?I sv_step (s2, ?A @ [AcceptWaits l, CloseListener])" unfolding s2_def
    by (rule move[of _ _ "?k + 1"]) (auto simp: nth_append list_update_append intro: sv_move.Close_signal)
  moreover have "sv_move s2 CloseListener s3 CloseConns []"
    using sv_move.Close_listener[of s2] by (simp add: s1_def s2_def s3_def s0)
  ultimately have "reach ?I sv_step (s3, ?A @ [AcceptWaits l, CloseConns])"
    by (intro move[of s2 "?A @ [AcceptWaits l, CloseListener]" "?k + 1" s3 CloseConns "[]"]) (auto simp: nth_append list_update_append)
  then have "reach ?I sv_step (s3, ?A @ [AcceptExits, CloseConns])"
    by (rule move[of _ _ ?k]) (auto simp: nth_append list_update_append s3_def intro: sv_move.Accept_err)
  then have "reach ?I sv_step (s4, ?A @ [Gone, CloseConns])" unfolding s4_def
    by (rule move[of _ _ ?k]) (auto simp: nth_append list_update_append intro: sv_move.Accept_done)
  then have "reach ?I sv_step (s5, ?A @ [Gone, CloseLeaves])" unfolding s5_def
    by (rule move[of _ _ "?k + 1"]) (auto simp: nth_append list_update_append intro: sv_move.Close_conns)
  then have "reach ?I sv_step (s6, ?A @ [Gone, CloseWaits])" unfolding s6_def
    by (rule move[of _ _ "?k + 1"]) (auto simp: nth_append list_update_append intro: sv_move.Close_leave)
  then show ?thesis by (rule that) (use assms in \<open>simp_all add: s1_def s2_def s3_def s4_def s5_def s6_def s0\<close>)
qed



theorem server_close_complete_witness:
  "\<exists>s ps. reach (sv_init [0] 1) sv_step (s, ps) \<and> CloseReturned \<in> set ps \<and> sv_conns s = {} \<and> net_conns s = {}"
proof -
  obtain s where s: "reach (sv_init [0] 1) sv_step (s, [Gone, CloseWaits])" "sv_wg s = 0" using close_waits[of 0 "[]"] by auto
  have "reach (sv_init [0] 1) sv_step (s, [Gone, CloseReturned])"
    by (rule reach_move[OF s(1), of 1]) (auto intro: sv_move.Close_wait s(2))
  from this server_close_complete[OF this] show ?thesis by (intro exI[of _ s] exI[of _ "[Gone, CloseReturned]"]) simp
qed

theorem server_close_terminates_witness:
  "\<exists>s ps. reach (sv_init [0] 1) sv_step (s, ps) \<and> sv_once s = OnceDone \<and> \<not> (\<exists>f. f 0 = (s, ps) \<and> (\<forall>i. sv_step (f i) (f (Suc i))))"
proof -
  obtain s where s: "reach (sv_init [0] 1) sv_step (s, [Gone, CloseWaits])" "sv_once s = OnceDone" using close_waits[of 0 "[]"] by auto
  then show ?thesis using server_close_terminates[OF s(1)] by blast
qed

end
