(* ===== verification/WAL.thy ===== *)
theory WAL
  imports Codec
begin

text \<open>
  \<^verbatim>\<open>code/wal/wal.go\<close>: the write-ahead log.  A file is the bytes the operating system holds for it
  (\<open>w_file\<close>) and those it has synced to the device (\<open>w_durable\<close>); \<open>w_buf\<close> is the buffer of the
  \<open>bufio.Writer\<close>, of 4096 bytes.  After a crash the file is some prefix of \<open>w_file\<close> that contains
  \<open>w_durable\<close>.  Errors of the file system other than the end of the file are not modelled.
\<close>

subsection \<open>Records\<close>

definition headerSize :: nat where
  "headerSize = 21"

abbreviation (input) OpPut :: byte where "OpPut \<equiv> 1"
abbreviation (input) OpDelete :: byte where "OpDelete \<equiv> 2"

record Record =
  r_Seq :: u64
  r_Op :: byte
  r_Key :: string
  r_Value :: string

text \<open>\<open>crc32.Update\<close> with the IEEE polynomial, and \<open>crc32.ChecksumIEEE\<close>.\<close>

definition crc_bit :: "u32 \<Rightarrow> u32" where
  "crc_bit c = (if bit c 0 then drop_bit 1 c XOR 0xEDB88320 else drop_bit 1 c)"

definition crc_byte :: "byte \<Rightarrow> u32 \<Rightarrow> u32" where
  "crc_byte b c = (crc_bit ^^ 8) (c XOR ucast b)"

definition crc_update :: "u32 \<Rightarrow> byte list \<Rightarrow> u32" where
  "crc_update crc p = NOT (fold crc_byte p (NOT crc))"

definition ChecksumIEEE :: "byte list \<Rightarrow> u32" where
  "ChecksumIEEE p = crc_update 0 p"

lemma crc_update_append: "crc_update (crc_update c a) b = crc_update c (a @ b)"
  by (simp add: crc_update_def)

text \<open>The buffer \<open>append\<close> fills: everything after the checksum, and the checksum in front.\<close>

definition record_payload :: "Record \<Rightarrow> byte list" where
  "record_payload r = le_bytes 8 (r_Seq r) @ [r_Op r] @
     le_bytes 4 (word_of_nat (length (r_Key r)) :: u32) @
     le_bytes 4 (word_of_nat (length (r_Value r)) :: u32) @
     bytes_of (r_Key r) @ bytes_of (r_Value r)"

definition encode_record :: "Record \<Rightarrow> byte list" where
  "encode_record r = le_bytes 4 (ChecksumIEEE (record_payload r)) @ record_payload r"

text \<open>One round of the loop of \<open>readAll\<close>, the body read after the header; \<open>Inl\<close> is any of its exits.\<close>

definition read_body :: "byte list \<Rightarrow> byte list \<Rightarrow> unit + (Record \<times> nat)" where
  "read_body header rest =
     (let want = (le_word (take 4 header) :: u32);
          seq = (le_word (take 8 (drop 4 header)) :: u64);
          op = header ! 12;
          keyLen = (le_word (take 4 (drop 13 header)) :: u32);
          valLen = (le_word (take 4 (drop 17 header)) :: u32)
      in if keyLen > 0x1000000 \<or> valLen > 0x1000000 then Inl ()
         else if length rest < unat (keyLen + valLen) then Inl ()
         else
           let body = take (unat (keyLen + valLen)) rest;
               crc = crc_update (crc_update 0 (drop 4 header)) body
           in if crc \<noteq> want then Inl ()
              else Inr (\<lparr>r_Seq = seq, r_Op = op,
                         r_Key = string_of (take (unat keyLen) body),
                         r_Value = string_of (drop (unat keyLen) body)\<rparr>,
                        headerSize + unat (keyLen + valLen)))"

definition read_record :: "byte list \<Rightarrow> unit + (Record \<times> nat)" where
  "read_record b =
     (if length b < headerSize then Inl () else read_body (take headerSize b) (drop headerSize b))"

lemma read_body_bounds: "read_body h b = Inr (r, n) \<Longrightarrow> headerSize \<le> n \<and> n \<le> headerSize + length b"
  by (auto simp: read_body_def Let_def not_less split: if_splits)

lemma read_body_local: "read_body h b = Inr (r, n) \<Longrightarrow> read_body h (take (n - headerSize) b @ c) = Inr (r, n)"
proof -
  define K where "K = unat (le_word (take 4 (drop 13 h)) + le_word (take 4 (drop 17 h)) :: u32)"
  assume dec: "read_body h b = Inr (r, n)"
  then have n: "n = headerSize + K" "K \<le> length b"
    by (auto simp: read_body_def Let_def K_def split: if_splits)
  have "take K (take K b @ c) = take K b" "\<not> length (take K b @ c) < K" using n(2) by simp_all
  then show ?thesis using dec n
    unfolding read_body_def Let_def K_def[symmetric] by (simp split: if_splits)
qed

lemma read_record_bounds: "read_record b = Inr (r, n) \<Longrightarrow> headerSize \<le> n \<and> n \<le> length b"
  by (auto simp: read_record_def not_less split: if_splits dest: read_body_bounds)

function readAll :: "byte list \<Rightarrow> Record list" where
  "readAll b = (case read_record b of Inl _ \<Rightarrow> [] | Inr (r, n) \<Rightarrow> r # readAll (drop n b))"
  by auto
termination
  by (relation "measure length") (auto simp: headerSize_def dest!: read_record_bounds)

declare readAll.simps [simp del]

subsection \<open>The log\<close>

record WAL =
  w_file :: "byte list"
  w_durable :: "byte list"
  w_buf :: "byte list"
  w_seq :: u64
  syncOnWrite :: bool

definition wal_Open :: "byte list \<Rightarrow> bool \<Rightarrow> WAL" where
  "wal_Open content sync =
     (let records = readAll content in
      \<lparr>w_file = content, w_durable = content, w_buf = [],
       w_seq = (if records \<noteq> [] then r_Seq (last records) else 0), syncOnWrite = sync\<rparr>)"

definition bufio_size :: nat where
  "bufio_size = 4096"

text \<open>\<open>bufio.Writer.Write\<close>: full buffers go to the file, a large write to an empty buffer directly.\<close>

function bufio_Write :: "byte list \<Rightarrow> WAL \<Rightarrow> WAL" where
  "bufio_Write p w =
     (let avail = bufio_size - length (w_buf w) in
      if length p > avail then
        if w_buf w = [] then w\<lparr>w_file := w_file w @ p\<rparr>
        else bufio_Write (drop avail p) (w\<lparr>w_file := w_file w @ w_buf w @ take avail p, w_buf := []\<rparr>)
      else w\<lparr>w_buf := w_buf w @ p\<rparr>)"
  by auto
termination
  by (relation "measure (\<lambda>(p, w). 2 * length p + (if w_buf w = [] then 0 else 1))") auto

declare bufio_Write.simps [simp del]

definition bufio_Flush :: "WAL \<Rightarrow> WAL" where
  "bufio_Flush w = w\<lparr>w_file := w_file w @ w_buf w, w_buf := []\<rparr>"

definition flushAndSyncLocked :: "WAL \<Rightarrow> WAL" where
  "flushAndSyncLocked w = (let w1 = bufio_Flush w in w1\<lparr>w_durable := w_file w1\<rparr>)"

definition wal_append :: "byte \<Rightarrow> string \<Rightarrow> string \<Rightarrow> WAL \<Rightarrow> u64 \<times> WAL" where
  "wal_append op key val w =
     (let w1 = w\<lparr>w_seq := w_seq w + 1\<rparr>;
          buf = encode_record \<lparr>r_Seq = w_seq w1, r_Op = op, r_Key = key, r_Value = val\<rparr>;
          w2 = bufio_Write buf w1;
          w3 = (if syncOnWrite w2 then flushAndSyncLocked w2 else w2)
      in (w_seq w3, w3))"

definition wal_Put :: "string \<Rightarrow> string \<Rightarrow> WAL \<Rightarrow> u64 \<times> WAL" where
  "wal_Put key val = wal_append OpPut key val"

definition wal_Delete :: "string \<Rightarrow> WAL \<Rightarrow> u64 \<times> WAL" where
  "wal_Delete key = wal_append OpDelete key ''''"

definition wal_Seq :: "WAL \<Rightarrow> u64" where
  "wal_Seq w = w_seq w"

definition wal_Sync :: "WAL \<Rightarrow> WAL" where
  "wal_Sync w = flushAndSyncLocked w"

definition wal_Close :: "WAL \<Rightarrow> byte list" where
  "wal_Close w = w_file (flushAndSyncLocked w)"

definition wal_Truncate :: "WAL \<Rightarrow> WAL" where
  "wal_Truncate w = (bufio_Flush w)\<lparr>w_file := [], w_durable := []\<rparr>"

definition Replay :: "byte list \<Rightarrow> Record list" where
  "Replay content = readAll content"

definition apply_record :: "Record \<Rightarrow> (string \<rightharpoonup> string) \<times> u64 \<Rightarrow> (string \<rightharpoonup> string) \<times> u64" where
  "apply_record r st =
     (let state = fst st in
      (if r_Op r = OpPut then state(r_Key r \<mapsto> r_Value r)
       else if r_Op r = OpDelete then state(r_Key r := None) else state, r_Seq r))"

definition wal_Recover :: "byte list \<Rightarrow> (string \<rightharpoonup> string) \<times> u64" where
  "wal_Recover content = fold apply_record (readAll content) (Map.empty, 0)"

subsection \<open>Records are a prefix codec\<close>

definition record_ok :: "Record \<Rightarrow> bool" where
  "record_ok r \<longleftrightarrow> length (r_Key r) \<le> 0x1000000 \<and> length (r_Value r) \<le> 0x1000000"

definition body_of :: "Record \<Rightarrow> byte list" where
  "body_of r = bytes_of (r_Key r) @ bytes_of (r_Value r)"

definition header_of :: "Record \<Rightarrow> byte list" where
  "header_of r = le_bytes 4 (ChecksumIEEE (record_payload r)) @ le_bytes 8 (r_Seq r) @ [r_Op r] @
     le_bytes 4 (word_of_nat (length (r_Key r)) :: u32) @ le_bytes 4 (word_of_nat (length (r_Value r)) :: u32)"

lemma encode_record_split: "encode_record r = header_of r @ body_of r"
  by (simp add: encode_record_def record_payload_def header_of_def body_of_def)

lemma length_header_of: "length (header_of r) = headerSize"
  by (simp add: header_of_def headerSize_def)

lemma header_payload: "drop 4 (header_of r) @ body_of r = record_payload r"
  by (simp add: header_of_def body_of_def record_payload_def)

lemma header_fields:
  "le_word (take 4 (header_of r)) = ChecksumIEEE (record_payload r)"
  "le_word (take 8 (drop 4 (header_of r))) = r_Seq r"
  "header_of r ! 12 = r_Op r"
  "le_word (take 4 (drop 13 (header_of r))) = (word_of_nat (length (r_Key r)) :: u32)"
  "le_word (take 4 (drop 17 (header_of r))) = (word_of_nat (length (r_Value r)) :: u32)"
  by (simp_all add: header_of_def le_word_bytes nth_append nth_Cons')

lemma small_length: "n \<le> 0x2000000 \<Longrightarrow> unat (word_of_nat n :: u32) = n"
  by (simp add: unat_of_nat take_bit_nat_eq_self)

lemma small_lengths:
  assumes "m \<le> 0x1000000" and "n \<le> 0x1000000"
  shows "\<not> (word_of_nat m :: u32) > 0x1000000" and "unat (word_of_nat m + word_of_nat n :: u32) = m + n"
proof -
  show "\<not> (word_of_nat m :: u32) > 0x1000000"
    using assms(1) small_length[of m] by (simp add: word_less_nat_alt)
  have "(word_of_nat m + word_of_nat n :: u32) = word_of_nat (m + n)" by simp
  also have "unat (word_of_nat (m + n) :: u32) = m + n"
    by (rule small_length) (use assms in simp)
  finally show "unat (word_of_nat m + word_of_nat n :: u32) = m + n" .
qed

lemma read_encode:
  assumes "record_ok r"
  shows "read_record (encode_record r @ rest) = Inr (r, length (encode_record r))"
proof -
  let ?b = "encode_record r @ rest"
  have k: "length (r_Key r) \<le> 0x1000000" and v: "length (r_Value r) \<le> 0x1000000"
    using assms by (simp_all add: record_ok_def)
  have b: "?b = header_of r @ body_of r @ rest" by (simp add: encode_record_split)
  have h: "take headerSize ?b = header_of r" "drop headerSize ?b = body_of r @ rest" "\<not> length ?b < headerSize"
    by (simp_all add: b length_header_of)
  have body: "length (body_of r) = length (r_Key r) + length (r_Value r)"
    "take (length (r_Key r)) (body_of r) = bytes_of (r_Key r)" "drop (length (r_Key r)) (body_of r) = bytes_of (r_Value r)"
    by (simp_all add: body_of_def)
  have crc: "crc_update (crc_update 0 (drop 4 (header_of r))) (body_of r) = ChecksumIEEE (record_payload r)"
    by (simp add: crc_update_append header_payload ChecksumIEEE_def)
  show ?thesis
    unfolding read_record_def read_body_def Let_def h header_fields
    using small_lengths[OF k v] small_lengths(1)[OF v k] small_length[of "length (r_Key r)"] k body crc h(3)
    by (simp add: encode_record_split length_header_of)
qed

lemma read_torn:
  assumes "record_ok r" and "n < length (encode_record r)"
  shows "read_record (take n (encode_record r)) = Inl ()"
proof (cases "n < headerSize")
  case True
  then have "length (take n (encode_record r)) < headerSize" by simp
  then show ?thesis by (simp only: read_record_def if_True)
next
  case False
  let ?b = "take n (encode_record r)"
  have k: "length (r_Key r) \<le> 0x1000000" and v: "length (r_Value r) \<le> 0x1000000"
    using assms by (simp_all add: record_ok_def)
  have h: "take headerSize ?b = header_of r" "length (drop headerSize ?b) = n - headerSize"
    using False assms(2) by (simp add: encode_record_split length_header_of min_def, simp)
  have "n - headerSize < length (r_Key r) + length (r_Value r)"
    using assms(2) False by (simp add: encode_record_split length_header_of body_of_def)
  then show ?thesis
    unfolding read_record_def read_body_def Let_def h header_fields
    using small_lengths[OF k v] by simp
qed

interpretation records: prefix_codec encode_record read_record record_ok
proof
  fix r :: Record and rest b c :: "byte list" and n :: nat
  show "record_ok r \<Longrightarrow> read_record (encode_record r @ rest) = Inr (r, length (encode_record r))"
    by (rule read_encode)
  show "0 < n \<and> n \<le> length b" if "read_record b = Inr (r, n)"
    using read_record_bounds[OF that] by (simp add: headerSize_def)
  show "read_record (take n b @ c) = Inr (r, n)" if dec: "read_record b = Inr (r, n)"
  proof -
    have n: "headerSize \<le> n" "n \<le> length b" using read_record_bounds[OF dec] by simp_all
    have "read_body (take headerSize b) (drop headerSize b) = Inr (r, n)" using dec by (simp add: read_record_def split: if_splits)
    then have "read_body (take headerSize b) (take (n - headerSize) (drop headerSize b) @ c) = Inr (r, n)"
      by (rule read_body_local)
    moreover have "take headerSize (take n b @ c) = take headerSize b"
      "drop headerSize (take n b @ c) = take (n - headerSize) (drop headerSize b) @ c" "\<not> length (take n b @ c) < headerSize"
      using n by (simp_all add: min_def drop_take)
    ultimately show ?thesis by (simp add: read_record_def)
  qed
qed

lemma readAll_Nil [simp]: "readAll [] = []"
  by (simp add: readAll.simps read_record_def headerSize_def)

lemma readAll_encode: "record_ok r \<Longrightarrow> readAll (encode_record r @ rest) = r # readAll rest"
  by (simp add: readAll.simps[of "encode_record r @ rest"] read_encode)

lemma readAll_log: "\<forall>r \<in> set rs. record_ok r \<Longrightarrow> readAll (concat (map encode_record rs) @ rest) = rs @ readAll rest"
  by (induction rs) (simp_all add: readAll_encode)

lemma readAll_torn: "record_ok r \<Longrightarrow> n < length (encode_record r) \<Longrightarrow> readAll (take n (encode_record r)) = []"
  by (simp add: readAll.simps[of "take n (encode_record r)"] read_torn)

text \<open>The number of records of \<open>rs\<close> that lie completely in the first \<open>n\<close> bytes of the log.\<close>

fun complete_records :: "nat \<Rightarrow> Record list \<Rightarrow> nat" where
  "complete_records n [] = 0"
| "complete_records n (r # rs) =
     (if length (encode_record r) \<le> n then Suc (complete_records (n - length (encode_record r)) rs) else 0)"

abbreviation log_bytes :: "Record list \<Rightarrow> byte list" where
  "log_bytes rs \<equiv> concat (map encode_record rs)"

lemma readAll_prefix: "\<forall>r \<in> set rs. record_ok r \<Longrightarrow> readAll (take n (log_bytes rs)) = take (complete_records n rs) rs"
proof (induction rs arbitrary: n)
  case (Cons r rs)
  then show ?case
    by (cases "length (encode_record r) \<le> n") (simp_all add: readAll_encode readAll_torn)
qed simp

lemma complete_all: "length (log_bytes rs) \<le> n \<Longrightarrow> complete_records n (rs @ ts) = length rs + complete_records (n - length (log_bytes rs)) ts"
  by (induction rs arbitrary: n) auto

subsection \<open>What the log holds\<close>

datatype wal_op = WPut string string | WDelete string | WSync

fun wal_step :: "wal_op \<Rightarrow> WAL \<Rightarrow> WAL" where
  "wal_step (WPut k v) w = snd (wal_Put k v w)"
| "wal_step (WDelete k) w = snd (wal_Delete k w)"
| "wal_step WSync w = wal_Sync w"

definition wal_run :: "wal_op list \<Rightarrow> WAL \<Rightarrow> WAL" where
  "wal_run ops w = fold wal_step ops w"

fun op_small :: "wal_op \<Rightarrow> bool" where
  "op_small (WPut k v) \<longleftrightarrow> length k \<le> 0x1000000 \<and> length v \<le> 0x1000000"
| "op_small (WDelete k) \<longleftrightarrow> length k \<le> 0x1000000"
| "op_small WSync \<longleftrightarrow> True"

text \<open>The records the operations write, numbered from \<open>seq + 1\<close>.\<close>

fun op_records :: "u64 \<Rightarrow> wal_op list \<Rightarrow> Record list" where
  "op_records seq [] = []"
| "op_records seq (WPut k v # ops) = \<lparr>r_Seq = seq + 1, r_Op = 1, r_Key = k, r_Value = v\<rparr> # op_records (seq + 1) ops"
| "op_records seq (WDelete k # ops) = \<lparr>r_Seq = seq + 1, r_Op = 2, r_Key = k, r_Value = ''''\<rparr> # op_records (seq + 1) ops"
| "op_records seq (WSync # ops) = op_records seq ops"

lemma bufio_Write_effect:
  "\<exists>x. w_file (bufio_Write p w) = w_file w @ x \<and> x @ w_buf (bufio_Write p w) = w_buf w @ p \<and>
    w_durable (bufio_Write p w) = w_durable w \<and> w_seq (bufio_Write p w) = w_seq w \<and>
    syncOnWrite (bufio_Write p w) = syncOnWrite w"
proof (induction p w rule: bufio_Write.induct)
  case (1 p w)
  define avail where "avail = bufio_size - length (w_buf w)"
  consider "length p \<le> avail" | "avail < length p" "w_buf w = []" | "avail < length p" "w_buf w \<noteq> []" by linarith
  then show ?case
  proof cases
    case 1
    then show ?thesis by (simp add: bufio_Write.simps[of p w] avail_def)
  next
    case 2
    then show ?thesis by (simp add: bufio_Write.simps[of p w] avail_def)
  next
    case 3
    let ?w = "w\<lparr>w_file := w_file w @ w_buf w @ take avail p, w_buf := []\<rparr>"
    have "bufio_Write p w = bufio_Write (drop avail p) ?w"
      using 3 by (simp add: bufio_Write.simps[of p w] avail_def Let_def)
    moreover obtain x where "w_file (bufio_Write (drop avail p) ?w) = w_file ?w @ x"
      "x @ w_buf (bufio_Write (drop avail p) ?w) = drop avail p" "w_durable (bufio_Write (drop avail p) ?w) = w_durable w"
      "w_seq (bufio_Write (drop avail p) ?w) = w_seq w" "syncOnWrite (bufio_Write (drop avail p) ?w) = syncOnWrite w"
      using "1.IH"[OF avail_def] 3 by auto
    ultimately show ?thesis by (intro exI[of _ "w_buf w @ take avail p @ x"]) simp
  qed
qed

definition written :: "WAL \<Rightarrow> byte list" where
  "written w = w_file w @ w_buf w"

definition holds :: "WAL \<Rightarrow> Record list \<Rightarrow> nat \<Rightarrow> bool" where
  "holds w rs m \<longleftrightarrow> written w = log_bytes rs \<and> (\<exists>x. w_file w = w_durable w @ x) \<and>
     length (log_bytes (take m rs)) \<le> length (w_durable w) \<and> m \<le> length rs"

lemma holds_sync: "holds w rs m \<Longrightarrow> holds (flushAndSyncLocked w) rs (length rs)"
  by (simp add: holds_def written_def flushAndSyncLocked_def bufio_Flush_def Let_def)

lemma holds_append:
  assumes "holds w rs m"
    and r_def: "r = \<lparr>r_Seq = w_seq w + 1, r_Op = op, r_Key = key, r_Value = val\<rparr>"
    and w1_def: "w1 = snd (wal_append op key val w)"
  shows "holds w1 (rs @ [r]) (if syncOnWrite w then Suc (length rs) else m)"
    and "w_seq w1 = w_seq w + 1" and "syncOnWrite w1 = syncOnWrite w"
proof -
  define w2 where "w2 = bufio_Write (encode_record r) (w\<lparr>w_seq := w_seq w + 1\<rparr>)"
  obtain x where x: "w_file w2 = w_file w @ x" "x @ w_buf w2 = w_buf w @ encode_record r"
    "w_durable w2 = w_durable w" "w_seq w2 = w_seq w + 1" "syncOnWrite w2 = syncOnWrite w"
    using bufio_Write_effect[of "encode_record r" "w\<lparr>w_seq := w_seq w + 1\<rparr>"] unfolding w2_def by auto
  have w1: "w1 = (if syncOnWrite w then flushAndSyncLocked w2 else w2)"
    unfolding w1_def wal_append_def Let_def using x(5) by (simp add: w2_def r_def)
  have h2: "holds w2 (rs @ [r]) m"
    using assms(1) x by (auto simp: holds_def written_def)
  show "holds w1 (rs @ [r]) (if syncOnWrite w then Suc (length rs) else m)"
    using h2 holds_sync[OF h2] by (simp add: w1)
  show "w_seq w1 = w_seq w + 1" "syncOnWrite w1 = syncOnWrite w"
    using x by (simp_all add: w1 flushAndSyncLocked_def bufio_Flush_def Let_def)
qed

lemma holds_step:
  assumes "holds w rs m"
  shows "\<exists>m1. holds (wal_step op w) (rs @ op_records (w_seq w) [op]) m1 \<and> m \<le> m1 \<and>
    (m = length rs \<and> syncOnWrite w \<or> op = WSync \<longrightarrow> m1 = length (rs @ op_records (w_seq w) [op])) \<and>
    w_seq (wal_step op w) = w_seq w + word_of_nat (length (op_records (w_seq w) [op])) \<and>
    syncOnWrite (wal_step op w) = syncOnWrite w"
proof (cases op)
  case (WPut k v)
  show ?thesis using holds_append[OF assms refl refl, of 1 k v] assms
    by (auto simp: WPut wal_Put_def holds_def intro!: exI[of _ "if syncOnWrite w then Suc (length rs) else m"])
next
  case (WDelete k)
  show ?thesis using holds_append[OF assms refl refl, of 2 k "''''"] assms
    by (auto simp: WDelete wal_Delete_def holds_def intro!: exI[of _ "if syncOnWrite w then Suc (length rs) else m"])
next
  case WSync
  then show ?thesis using holds_sync[OF assms] assms
    by (intro exI[of _ "length rs"])
      (simp add: wal_Sync_def flushAndSyncLocked_def bufio_Flush_def Let_def, simp add: holds_def)
qed

lemma op_records_append:
  "op_records s (ops1 @ ops2) = op_records s ops1 @ op_records (s + word_of_nat (length (op_records s ops1))) ops2"
  by (induction s ops1 rule: op_records.induct) (simp_all add: add.assoc)

lemma holds_run:
  "holds w rs m \<Longrightarrow> \<exists>m1. holds (wal_run ops w) (rs @ op_records (w_seq w) ops) m1 \<and> m \<le> m1 \<and>
    (m = length rs \<and> syncOnWrite w \<longrightarrow> m1 = length (rs @ op_records (w_seq w) ops)) \<and>
    w_seq (wal_run ops w) = w_seq w + word_of_nat (length (op_records (w_seq w) ops)) \<and>
    syncOnWrite (wal_run ops w) = syncOnWrite w"
proof (induction ops arbitrary: w rs m)
  case Nil
  then show ?case by (auto simp: wal_run_def)
next
  case (Cons op ops)
  obtain m1 where m1: "holds (wal_step op w) (rs @ op_records (w_seq w) [op]) m1" "m \<le> m1"
    "m = length rs \<and> syncOnWrite w \<longrightarrow> m1 = length (rs @ op_records (w_seq w) [op])"
    "w_seq (wal_step op w) = w_seq w + word_of_nat (length (op_records (w_seq w) [op]))"
    "syncOnWrite (wal_step op w) = syncOnWrite w"
    using holds_step[OF Cons.prems, of op] by blast
  have eq: "op_records (w_seq w) (op # ops) = op_records (w_seq w) [op] @ op_records (w_seq (wal_step op w)) ops"
    using op_records_append[of "w_seq w" "[op]" ops] m1(4) by simp
  have run: "wal_run (op # ops) w = wal_run ops (wal_step op w)" by (simp add: wal_run_def)
  obtain m2 where m2: "holds (wal_run ops (wal_step op w)) ((rs @ op_records (w_seq w) [op]) @ op_records (w_seq (wal_step op w)) ops) m2"
    "m1 \<le> m2"
    "m1 = length (rs @ op_records (w_seq w) [op]) \<and> syncOnWrite w \<longrightarrow> m2 = length ((rs @ op_records (w_seq w) [op]) @ op_records (w_seq (wal_step op w)) ops)"
    "w_seq (wal_run ops (wal_step op w)) = w_seq (wal_step op w) + word_of_nat (length (op_records (w_seq (wal_step op w)) ops))"
    "syncOnWrite (wal_run ops (wal_step op w)) = syncOnWrite w"
    using Cons.IH[OF m1(1)] m1(5) by auto
  show ?case unfolding run eq
  proof (intro exI conjI impI)
    show "holds (wal_run ops (wal_step op w)) (rs @ op_records (w_seq w) [op] @ op_records (w_seq (wal_step op w)) ops) m2"
      using m2(1) by simp
    show "m \<le> m2" using m1(2) m2(2) by simp
    show "m2 = length (rs @ op_records (w_seq w) [op] @ op_records (w_seq (wal_step op w)) ops)"
      if "m = length rs \<and> syncOnWrite w" using that m1(3) m2(3) by simp
    show "w_seq (wal_run ops (wal_step op w)) =
      w_seq w + word_of_nat (length (op_records (w_seq w) [op] @ op_records (w_seq (wal_step op w)) ops))"
      using m1(4) m2(4) by simp
  qed (rule m2(5))
qed

lemma op_records_ok: "\<forall>op \<in> set ops. op_small op \<Longrightarrow> \<forall>r \<in> set (op_records s ops). record_ok r"
  by (induction s ops rule: op_records.induct) (auto simp: record_ok_def)

fun apply_op :: "wal_op \<Rightarrow> (string \<rightharpoonup> string) \<Rightarrow> (string \<rightharpoonup> string)" where
  "apply_op (WPut k v) m = m(k \<mapsto> v)"
| "apply_op (WDelete k) m = m(k := None)"
| "apply_op WSync m = m"

lemma replay_ops: "fst (fold apply_record (op_records s ops) (m, q)) = fold apply_op ops m"
  by (induction s ops arbitrary: m q rule: op_records.induct) (simp_all add: apply_record_def)

lemma take_op_records: "\<exists>j. take m (op_records s ops) = op_records s (take j ops)"
proof (induction s ops arbitrary: m rule: op_records.induct)
  case (2 s k v ops)
  show ?case
  proof (cases m)
    case (Suc n)
    obtain j where "take n (op_records (s + 1) ops) = op_records (s + 1) (take j ops)" using 2 by blast
    then show ?thesis using Suc by (intro exI[of _ "Suc j"]) simp
  qed (auto intro: exI[of _ 0])
next
  case (3 s k ops)
  show ?case
  proof (cases m)
    case (Suc n)
    obtain j where "take n (op_records (s + 1) ops) = op_records (s + 1) (take j ops)" using 3 by blast
    then show ?thesis using Suc by (intro exI[of _ "Suc j"]) simp
  qed (auto intro: exI[of _ 0])
next
  case (4 s ops)
  then obtain j where "take m (op_records s ops) = op_records s (take j ops)" by blast
  then show ?case by (intro exI[of _ "Suc j"]) simp
qed simp



subsection \<open>Reopening\<close>

lemma last_seq:
  "op_records s ops \<noteq> [] \<Longrightarrow> r_Seq (last (op_records s ops)) = s + word_of_nat (length (op_records s ops))"
proof (induction s ops rule: op_records.induct)
  case (2 s k v ops)
  then show ?case by (cases "op_records (s + 1) ops = []") (simp_all add: add.assoc)
next
  case (3 s k ops)
  then show ?case by (cases "op_records (s + 1) ops = []") (simp_all add: add.assoc)
qed simp_all

lemma holds_Close: "holds w rs m \<Longrightarrow> wal_Close w = log_bytes rs"
  by (simp add: wal_Close_def holds_def written_def flushAndSyncLocked_def bufio_Flush_def Let_def)

text \<open>A log that was closed and opened again continues where it stopped: its file is that of one run
  of all the operations, with one consecutive numbering.\<close>

theorem wal_reopen:
  assumes "\<forall>op \<in> set ops1. op_small op"
  shows "wal_Close (wal_run ops2 (wal_Open (wal_Close (wal_run ops1 (wal_Open [] sync1))) sync2)) =
    wal_Close (wal_run (ops1 @ ops2) (wal_Open [] sync1))"
proof -
  have w0: "holds (wal_Open [] sync1) [] 0" "w_seq (wal_Open [] sync1) = 0"
    by (simp_all add: holds_def written_def wal_Open_def)
  let ?rs = "op_records 0 ops1"
  let ?log = "log_bytes ?rs"
  have close: "wal_Close (wal_run ops (wal_Open [] sync1)) = log_bytes (op_records 0 ops)" for ops
    using holds_run[OF w0(1), of ops] w0(2) holds_Close by auto
  have read: "readAll ?log = ?rs"
    using readAll_log[of ?rs "[]"] op_records_ok[OF assms, of 0] by simp
  have seq: "w_seq (wal_Open ?log sync2) = word_of_nat (length ?rs)"
    using last_seq[of 0 ops1] by (simp add: wal_Open_def read Let_def)
  have "holds (wal_Open ?log sync2) ?rs (length ?rs)"
    by (simp add: holds_def written_def wal_Open_def Let_def)
  from holds_run[OF this, of ops2] have "wal_Close (wal_run ops2 (wal_Open ?log sync2)) = log_bytes (?rs @ op_records (word_of_nat (length ?rs)) ops2)"
    using holds_Close seq by auto
  also have "\<dots> = log_bytes (op_records 0 (ops1 @ ops2))" by (simp add: op_records_append)
  finally show ?thesis using close by simp
qed

theorem wal_reopen_witness:
  "wal_Close (wal_run [WPut ''b'' ''2''] (wal_Open (wal_Close (wal_run [WPut ''a'' ''1''] (wal_Open [] False))) True)) =
   wal_Close (wal_run ([WPut ''a'' ''1''] @ [WPut ''b'' ''2'']) (wal_Open [] False))"
  by (rule wal_reopen) simp

subsection \<open>What recovery loses\<close>

lemma read_body_short:
  assumes "record_ok r" and "length rest < length (r_Key r) + length (r_Value r)"
  shows "read_body (header_of r) rest = Inl ()"
proof -
  have k: "length (r_Key r) \<le> 0x1000000" and v: "length (r_Value r) \<le> 0x1000000"
    using assms by (simp_all add: record_ok_def)
  show ?thesis
    unfolding read_body_def Let_def header_fields
    using small_lengths[OF k v] assms(2) by simp
qed

lemma read_swallow:
  assumes "record_ok r" and "headerSize \<le> n" and "n < length (encode_record r)"
    and "length extra < length (encode_record r) - n"
  shows "readAll (take n (encode_record r) @ extra) = []"
proof -
  let ?b = "take n (encode_record r) @ extra"
  have len: "length (encode_record r) = headerSize + (length (r_Key r) + length (r_Value r))"
    by (simp add: encode_record_split length_header_of body_of_def)
  have h: "take headerSize ?b = header_of r" "\<not> length ?b < headerSize"
    using assms(2,3) by (simp_all add: encode_record_split length_header_of min_def)
  have "length (drop headerSize ?b) < length (r_Key r) + length (r_Value r)"
    using assms len by simp
  then have "read_body (header_of r) (drop headerSize ?b) = Inl ()" by (rule read_body_short[OF assms(1)])
  then have "read_record ?b = Inl ()" unfolding read_record_def h(1) using h(2) by simp
  then show ?thesis by (simp add: readAll.simps[of ?b])
qed

text \<open>\<open>Open\<close> does not remove a torn tail, and what is appended behind it is lost: when a crash left
  a record incomplete after its header, no operation logged and synced after reopening is recovered,
  as long as these operations write fewer bytes than the torn record misses.\<close>

theorem wal_torn_tail_loses_writes:
  assumes "\<forall>r \<in> set rs. record_ok r" and "record_ok r"
    and "headerSize \<le> n \<and> n < length (encode_record r)"
    and "w = wal_run ops (wal_Open (log_bytes rs @ take n (encode_record r)) True)"
    and "length (w_file w) < length (log_bytes rs @ encode_record r)"
  shows "readAll (wal_Close w) = rs"
proof -
  let ?t = "take n (encode_record r)"
  let ?w0 = "wal_Open (log_bytes rs @ ?t) True"
  have step: "\<exists>x. w_file (wal_step op v) = w_file v @ x \<and> w_buf (wal_step op v) = [] \<and> syncOnWrite (wal_step op v)"
    if v: "w_buf v = []" "syncOnWrite v" for op v
  proof -
    have app: "\<exists>x. w_file (snd (wal_append c k u v)) = w_file v @ x \<and> w_buf (snd (wal_append c k u v)) = [] \<and>
        syncOnWrite (snd (wal_append c k u v))" for c k u
    proof -
      define buf where "buf = encode_record \<lparr>r_Seq = w_seq v + 1, r_Op = c, r_Key = k, r_Value = u\<rparr>"
      obtain x where x: "w_file (bufio_Write buf (v\<lparr>w_seq := w_seq v + 1\<rparr>)) = w_file v @ x"
        "syncOnWrite (bufio_Write buf (v\<lparr>w_seq := w_seq v + 1\<rparr>))"
        using bufio_Write_effect[of buf "v\<lparr>w_seq := w_seq v + 1\<rparr>"] v(2) by auto
      have "snd (wal_append c k u v) = flushAndSyncLocked (bufio_Write buf (v\<lparr>w_seq := w_seq v + 1\<rparr>))"
        using x(2) by (simp add: wal_append_def Let_def buf_def)
      then show ?thesis using x by (simp add: flushAndSyncLocked_def bufio_Flush_def Let_def)
    qed
    show ?thesis using app[of 1] app[of 2]
      using v by (cases op) (simp_all add: wal_Put_def wal_Delete_def, simp add: wal_Sync_def flushAndSyncLocked_def bufio_Flush_def Let_def)
  qed
  have "\<exists>x. w_file (wal_run ops v) = w_file v @ x \<and> w_buf (wal_run ops v) = []"
    if "w_buf v = []" "syncOnWrite v" for v
    using that
  proof (induction ops arbitrary: v)
    case (Cons op ops)
    obtain x where x: "w_file (wal_step op v) = w_file v @ x" "w_buf (wal_step op v) = []" "syncOnWrite (wal_step op v)"
      using step[OF Cons.prems] by blast
    obtain y where "w_file (wal_run ops (wal_step op v)) = (w_file v @ x) @ y" "w_buf (wal_run ops (wal_step op v)) = []"
      using Cons.IH[OF x(2,3)] x(1) by auto
    then show ?case by (simp add: wal_run_def)
  qed (simp add: wal_run_def)
  from this[of ?w0] obtain extra where x: "w_file w = log_bytes rs @ ?t @ extra" "w_buf w = []"
    unfolding assms(4) by (auto simp: wal_Open_def Let_def)
  have "length extra < length (encode_record r) - n" using assms(3,5) by (simp add: x(1))
  then have "readAll (?t @ extra) = []" using assms(2,3) by (intro read_swallow) simp_all
  moreover have "wal_Close w = log_bytes rs @ ?t @ extra"
    by (simp add: wal_Close_def flushAndSyncLocked_def bufio_Flush_def Let_def x)
  ultimately show ?thesis using readAll_log[OF assms(1), of "?t @ extra"] by simp
qed

text \<open>An oversized key is acknowledged but not recovered, nor is anything after it: a record whose
  key is longer than \<open>2 ^ 24\<close> bytes ends the replay.\<close>

theorem wal_oversized_key:
  assumes "\<forall>r \<in> set rs. record_ok r" and "0x1000000 < length (r_Key r)" and "length (r_Key r) < 2 ^ 32"
  shows "readAll (log_bytes (rs @ r # later)) = rs"
proof -
  let ?b = "encode_record r @ log_bytes later"
  have h: "take headerSize ?b = header_of r" "\<not> length ?b < headerSize"
    by (simp_all add: encode_record_split length_header_of)
  have "unat (word_of_nat (length (r_Key r)) :: u32) = length (r_Key r)"
    using assms(3) by (simp add: unat_of_nat take_bit_nat_eq_self)
  then have "(word_of_nat (length (r_Key r)) :: u32) > 0x1000000" using assms(2) by (simp add: word_less_nat_alt)
  then have "read_record ?b = Inl ()"
    unfolding read_record_def read_body_def Let_def h header_fields using h(2) by simp
  then have "readAll ?b = []" by (simp add: readAll.simps[of ?b])
  then show ?thesis using readAll_log[OF assms(1), of ?b] by simp
qed

theorem wal_torn_tail_loses_writes_witness:
  "readAll (wal_Close (wal_run [WPut ''a'' ''1'']
     (wal_Open (log_bytes [] @ take 25 (encode_record \<lparr>r_Seq = 1, r_Op = 1, r_Key = replicate 100 CHR ''k'', r_Value = ''''\<rparr>)) True))) = []"
proof (rule wal_torn_tail_loses_writes[where n = 25 and ops = "[WPut ''a'' ''1'']"])
  let ?r = "\<lparr>r_Seq = 1, r_Op = 1, r_Key = replicate 100 CHR ''k'', r_Value = ''''\<rparr>"
  have len: "length (encode_record ?r) = 121"
    by (simp add: encode_record_split length_header_of headerSize_def body_of_def)
  show "record_ok ?r" "headerSize \<le> 25 \<and> 25 < length (encode_record ?r)"
    by (simp_all add: len record_ok_def headerSize_def)
  show "length (w_file (wal_run [WPut ''a'' ''1''] (wal_Open (log_bytes [] @ take 25 (encode_record ?r)) True)))
      < length (log_bytes [] @ encode_record ?r)"
    by (simp add: wal_run_def wal_Put_def wal_append_def wal_Open_def Let_def bufio_Write.simps bufio_size_def
        flushAndSyncLocked_def bufio_Flush_def len)
      (simp add: encode_record_split length_header_of headerSize_def body_of_def)
qed simp_all

theorem wal_oversized_key_witness:
  "readAll (log_bytes ([] @ \<lparr>r_Seq = 1, r_Op = 1, r_Key = replicate 16777217 CHR ''k'', r_Value = ''''\<rparr> #
     [\<lparr>r_Seq = 2, r_Op = 1, r_Key = ''a'', r_Value = ''1''\<rparr>])) = []"
  by (rule wal_oversized_key) simp_all

end
