(* ===== verification/SkipList.thy ===== *)
theory SkipList
  imports Prelude "HOL-Library.Monad_Syntax"
begin

text \<open>
  The memtable of \<^verbatim>\<open>code/lsm_memtable/lsm.go\<close>: a skip list in a heap.  A node carries its tower of
  \<open>next\<close> pointers, a list whose length is the height of the node; the head is a node of the heap
  too.  Reading a pointer above a node's tower panics, as does following \<open>nil\<close>: the value \<open>None\<close>.
  \<open>low n\<close> is whether the \<open>n\<close>-th number of the table's random generator is below \<open>probability\<close>, a
  parameter of the model; the table counts the numbers it has drawn.

  \<open>mt_rep m ns\<close> is the invariant: at every level \<open>i\<close> the pointers thread exactly those nodes of the
  sorted list \<open>ns\<close> whose towers are higher than \<open>i\<close>.  Under it the search finds at every level the
  last node before the key, and \<open>insert\<close> is \<open>put_list\<close> on the entries.
\<close>

definition maxLevel :: nat where
  "maxLevel = 16"

record skipNode =
  sk_key :: string
  sk_value :: string
  sk_deleted :: bool
  sk_next :: "nat option list"

type_synonym sk_heap = "nat \<Rightarrow> skipNode"

record Memtable =
  m_nodes :: sk_heap
  m_head :: nat
  m_fresh :: nat
  m_level :: nat
  m_count :: int
  m_bytes :: int
  m_draws :: nat

definition zero_node :: skipNode where
  "zero_node = \<lparr>sk_key = '''', sk_value = '''', sk_deleted = False, sk_next = []\<rparr>"

definition NewMemtable :: Memtable where
  "NewMemtable = \<lparr>m_nodes = (\<lambda>_. zero_node\<lparr>sk_next := replicate maxLevel None\<rparr>), m_head = 0, m_fresh = 1,
     m_level = 1, m_count = 0, m_bytes = 0, m_draws = 0\<rparr>"

function level_loop :: "(nat \<Rightarrow> bool) \<Rightarrow> nat \<Rightarrow> nat \<Rightarrow> nat \<times> nat" where
  "level_loop low d l =
     (if l < maxLevel then if low d then level_loop low (d + 1) (l + 1) else (l, d + 1) else (l, d))"
  by auto
termination by (relation "measure (\<lambda>(low, d, l). maxLevel - l)") auto

declare level_loop.simps [simp del]

definition randomLevel :: "(nat \<Rightarrow> bool) \<Rightarrow> Memtable \<Rightarrow> nat \<times> Memtable" where
  "randomLevel low m = (let r = level_loop low (m_draws m) 1 in (fst r, m\<lparr>m_draws := snd r\<rparr>))"

text \<open>\<open>x.next[i]\<close>, and the loop that goes forward on one level.\<close>

definition next_at :: "sk_heap \<Rightarrow> nat \<Rightarrow> nat \<Rightarrow> nat option option" where
  "next_at h x i = nth_opt (sk_next (h x)) i"

partial_function (option) sk_forward :: "sk_heap \<Rightarrow> nat \<Rightarrow> string \<Rightarrow> nat \<Rightarrow> nat option" where
  "sk_forward h i key x = do {
     p \<leftarrow> next_at h x i;
     if p \<noteq> None \<and> sk_key (h (the p)) < key then sk_forward h i key (the p) else Some x }"

fun sk_search :: "sk_heap \<Rightarrow> string \<Rightarrow> nat \<Rightarrow> nat \<Rightarrow> nat option list \<Rightarrow> (nat \<times> nat option list) option" where
  "sk_search h key 0 x update = Some (x, update)"
| "sk_search h key (Suc i) x update = do {
     y \<leftarrow> sk_forward h i key x;
     if i < length update then sk_search h key i y (update[i := Some y]) else None }"

fun sk_descend :: "sk_heap \<Rightarrow> string \<Rightarrow> nat \<Rightarrow> nat \<Rightarrow> nat option" where
  "sk_descend h key 0 x = Some x"
| "sk_descend h key (Suc i) x = do { y \<leftarrow> sk_forward h i key x; sk_descend h key i y }"

text \<open>The loop that links the new node \<open>n\<close> into the given levels.\<close>

fun sk_link :: "nat \<Rightarrow> nat option list \<Rightarrow> nat list \<Rightarrow> sk_heap \<Rightarrow> sk_heap option" where
  "sk_link n update [] h = Some h"
| "sk_link n update (i # is) h = do {
     p \<leftarrow> nth_opt update i;
     u \<leftarrow> p;
     q \<leftarrow> next_at h u i;
     let h1 = h(n := (h n)\<lparr>sk_next := (sk_next (h n))[i := q]\<rparr>);
     sk_link n update is (h1(u := (h1 u)\<lparr>sk_next := (sk_next (h1 u))[i := Some n]\<rparr>)) }"

fun raise_update :: "nat \<Rightarrow> nat list \<Rightarrow> nat option list \<Rightarrow> nat option list" where
  "raise_update head [] update = update"
| "raise_update head (i # is) update = raise_update head is (update[i := Some head])"

definition mt_insert_new :: "(nat \<Rightarrow> bool) \<Rightarrow> string \<Rightarrow> string \<Rightarrow> bool \<Rightarrow> nat option list \<Rightarrow> Memtable \<Rightarrow> Memtable option" where
  "mt_insert_new low key val deleted update m =
     (let (lvl, m1) = randomLevel low m;
          update1 = (if lvl > m_level m1 then raise_update (m_head m1) [m_level m1..<lvl] update else update);
          m2 = (if lvl > m_level m1 then m1\<lparr>m_level := lvl\<rparr> else m1);
          n = m_fresh m2;
          node = \<lparr>sk_key = key, sk_value = val, sk_deleted = deleted, sk_next = replicate lvl None\<rparr>
      in do {
        h \<leftarrow> sk_link n update1 [0..<lvl] ((m_nodes m2)(n := node));
        Some (m2\<lparr>m_nodes := h, m_fresh := n + 1, m_count := m_count m2 + 1,
                 m_bytes := m_bytes m2 + int (length key) + int (length val)\<rparr>) })"

definition mt_insert :: "(nat \<Rightarrow> bool) \<Rightarrow> string \<Rightarrow> string \<Rightarrow> bool \<Rightarrow> Memtable \<Rightarrow> Memtable option" where
  "mt_insert low key val deleted m = do {
     (x, update) \<leftarrow> sk_search (m_nodes m) key (m_level m) (m_head m) (replicate maxLevel None);
     p \<leftarrow> next_at (m_nodes m) x 0;
     if p \<noteq> None \<and> sk_key (m_nodes m (the p)) = key then
       let n = the p; old = m_nodes m n in
       Some (m\<lparr>m_nodes := (m_nodes m)(n := old\<lparr>sk_value := val, sk_deleted := deleted\<rparr>),
               m_bytes := m_bytes m + (int (length val) - int (length (sk_value old)))\<rparr>)
     else mt_insert_new low key val deleted update m }"

definition mt_Put :: "(nat \<Rightarrow> bool) \<Rightarrow> string \<Rightarrow> string \<Rightarrow> Memtable \<Rightarrow> Memtable option" where
  "mt_Put low key val m = mt_insert low key val False m"

definition mt_Delete :: "(nat \<Rightarrow> bool) \<Rightarrow> string \<Rightarrow> Memtable \<Rightarrow> Memtable option" where
  "mt_Delete low key m = mt_insert low key '''' True m"

definition mt_Get :: "Memtable \<Rightarrow> string \<Rightarrow> (string \<times> bool \<times> bool) option" where
  "mt_Get m key = do {
     x \<leftarrow> sk_descend (m_nodes m) key (m_level m) (m_head m);
     p \<leftarrow> next_at (m_nodes m) x 0;
     if p \<noteq> None \<and> sk_key (m_nodes m (the p)) = key then
       let n = m_nodes m (the p) in Some (if sk_deleted n then ('''', False, True) else (sk_value n, True, False))
     else Some ('''', False, False) }"

definition mt_Len :: "Memtable \<Rightarrow> int" where
  "mt_Len m = m_count m"

definition mt_Bytes :: "Memtable \<Rightarrow> int" where
  "mt_Bytes m = m_bytes m"

text \<open>An \<open>Entry\<close> is a key with its value and its tombstone flag.\<close>

type_synonym lsm_entry = "string \<times> string \<times> bool"

partial_function (option) mt_walk :: "sk_heap \<Rightarrow> nat option \<Rightarrow> lsm_entry list option" where
  "mt_walk h p =
     (if p = None then Some []
      else do {
        n \<leftarrow> p;
        q \<leftarrow> next_at h n 0;
        rest \<leftarrow> mt_walk h q;
        Some ((sk_key (h n), sk_value (h n), sk_deleted (h n)) # rest) })"

definition mt_Entries :: "Memtable \<Rightarrow> lsm_entry list option" where
  "mt_Entries m = do { p \<leftarrow> next_at (m_nodes m) (m_head m) 0; mt_walk (m_nodes m) p }"

subsection \<open>The invariant\<close>

abbreviation tower :: "sk_heap \<Rightarrow> nat \<Rightarrow> nat" where
  "tower h a \<equiv> length (sk_next (h a))"

text \<open>The first node of \<open>xs\<close> that is linked at level \<open>i\<close>.\<close>

abbreviation first_at :: "sk_heap \<Rightarrow> nat \<Rightarrow> nat list \<Rightarrow> nat option" where
  "first_at h i xs \<equiv> find (\<lambda>a. i < tower h a) xs"

definition threaded :: "sk_heap \<Rightarrow> nat list \<Rightarrow> bool" where
  "threaded h ns \<longleftrightarrow> (\<forall>l x r i. ns = l @ x # r \<longrightarrow> i < tower h x \<longrightarrow> sk_next (h x) ! i = first_at h i r)"

definition sk_size :: "sk_heap \<Rightarrow> nat \<Rightarrow> int" where
  "sk_size h a = int (length (sk_key (h a))) + int (length (sk_value (h a)))"

definition mt_rep :: "Memtable \<Rightarrow> nat list \<Rightarrow> bool" where
  "mt_rep m ns \<longleftrightarrow>
     threaded (m_nodes m) (m_head m # ns) \<and>
     sorted_wrt (<) (map (sk_key \<circ> m_nodes m) ns) \<and>
     distinct (m_head m # ns) \<and> (\<forall>a \<in> set (m_head m # ns). a < m_fresh m) \<and>
     tower (m_nodes m) (m_head m) = maxLevel \<and> 1 \<le> m_level m \<and> m_level m \<le> maxLevel \<and>
     (\<forall>a \<in> set ns. 1 \<le> tower (m_nodes m) a \<and> tower (m_nodes m) a \<le> m_level m) \<and>
     m_count m = int (length ns) \<and> m_bytes m = sum_list (map (sk_size (m_nodes m)) ns)"

definition sk_entry :: "skipNode \<Rightarrow> lsm_entry" where
  "sk_entry n = (sk_key n, sk_value n, sk_deleted n)"

definition mt_abs :: "sk_heap \<Rightarrow> nat list \<Rightarrow> lsm_entry list" where
  "mt_abs h ns = map (sk_entry \<circ> h) ns"

lemma mt_rep_New: "mt_rep NewMemtable []"
  by (auto simp: mt_rep_def NewMemtable_def threaded_def zero_node_def maxLevel_def Cons_eq_append_conv)

lemma threadedD: "threaded h (l @ x # r) \<Longrightarrow> i < tower h x \<Longrightarrow> next_at h x i = Some (first_at h i r)"
  by (auto simp: threaded_def next_at_def nth_opt_def)

lemma find_append: "find P (xs @ ys) = (case find P xs of Some x \<Rightarrow> Some x | None \<Rightarrow> find P ys)"
  by (induction xs) auto

lemma find_SomeD: "find P xs = Some x \<Longrightarrow> \<exists>us vs. xs = us @ x # vs \<and> P x \<and> filter P us = []"
proof (induction xs)
  case (Cons a xs)
  show ?case
  proof (cases "P a")
    case True
    with Cons.prems show ?thesis by (intro exI[of _ "[]"] exI[of _ xs]) simp
  next
    case False
    with Cons obtain us vs where "xs = us @ x # vs" "P x" "filter P us = []" by auto
    with False show ?thesis by (intro exI[of _ "a # us"] exI[of _ vs]) simp
  qed
qed simp

lemma find_None_filter: "find P xs = None \<Longrightarrow> filter P xs = []"
  by (induction xs) (auto split: if_splits)

subsection \<open>The search\<close>

text \<open>The last node at level \<open>i\<close> of a list whose head is linked at every level.\<close>

abbreviation last_at :: "sk_heap \<Rightarrow> nat \<Rightarrow> nat list \<Rightarrow> nat" where
  "last_at h i xs \<equiv> last (filter (\<lambda>a. i < tower h a) xs)"

lemma last_at_in: "a \<in> set xs \<Longrightarrow> i < tower h a \<Longrightarrow> last_at h i xs \<in> set xs \<and> i < tower h (last_at h i xs)"
proof -
  assume "a \<in> set xs" "i < tower h a"
  then have "filter (\<lambda>a. i < tower h a) xs \<noteq> []" by (auto simp: filter_empty_conv)
  then have "last_at h i xs \<in> set (filter (\<lambda>a. i < tower h a) xs)" by (rule last_in_set)
  then show ?thesis by simp
qed

lemma forward:
  assumes "threaded h (l @ x # r @ R)" and "i < tower h x"
    and "\<forall>a \<in> set r. sk_key (h a) < key" and "\<forall>a \<in> set R. \<not> sk_key (h a) < key"
  shows "sk_forward h i key x = Some (last_at h i (l @ x # r))"
  using assms
proof (induction "length r" arbitrary: l x r rule: less_induct)
  case less
  note nx = threadedD[OF less.prems(1,2)]
  note unfold = sk_forward.simps[of h i key x]
  show ?case
  proof (cases "first_at h i r")
    case None
    have "p \<noteq> None \<longrightarrow> \<not> sk_key (h (the p)) < key" if "p = first_at h i R" for p
    proof (cases p)
      case (Some a)
      with that less.prems(4) show ?thesis using find_SomeD[of _ R a] by force
    qed simp
    then have "sk_forward h i key x = Some x"
      using nx None unfold by (auto simp: find_append)
    then show ?thesis using less.prems(2) find_None_filter[OF None] by simp
  next
    case (Some n)
    obtain r1 r2 where r: "r = r1 @ n # r2" and n: "i < tower h n"
      using find_SomeD[OF Some] by blast
    have "next_at h x i = Some (Some n)" "sk_key (h n) < key"
      using nx Some less.prems(3) r by (auto simp: find_append split: option.splits)
    then have "sk_forward h i key x = sk_forward h i key n"
      using unfold by simp
    also have "\<dots> = Some (last_at h i ((l @ x # r1) @ n # r2))"
      by (rule less.hyps) (use less.prems r n in auto)
    finally show ?thesis by (simp add: r)
  qed
qed

lemma search_from:
  assumes "threaded h (L @ R)" and "\<forall>a \<in> set (tl L). sk_key (h a) < key" and "\<forall>a \<in> set R. \<not> sk_key (h a) < key"
    and "x \<in> set L" and "i \<le> tower h x" and "i \<le> length update"
  shows "sk_search h key i x update =
    Some (if i = 0 then x else last_at h 0 L, map (\<lambda>j. Some (last_at h j L)) [0..<i] @ drop i update)"
  using assms(4-6)
proof (induction i arbitrary: x update)
  case (Suc i)
  obtain l r where L: "L = l @ x # r" using Suc.prems(1) by (meson split_list)
  have "set r \<subseteq> set (tl L)" by (cases l) (auto simp: L)
  then have fwd: "sk_forward h i key x = Some (last_at h i L)"
    using forward[of h l x r R i key] assms(1-3) Suc.prems L by (auto simp del: filter_append last_append)
  note y = last_at_in[OF Suc.prems(1), of i h]
  have "drop i (update[i := Some (last_at h i L)]) = Some (last_at h i L) # drop (Suc i) update"
    using Suc.prems(3) by (simp add: Cons_nth_drop_Suc[symmetric])
  then show ?case
    using Suc.IH[of "last_at h i L" "update[i := Some (last_at h i L)]"] fwd y Suc.prems
    by (cases "i = 0") auto
qed simp

lemma descend_search: "i \<le> length update \<Longrightarrow> sk_descend h key i x = map_option fst (sk_search h key i x update)"
  by (induction i arbitrary: x update) (auto split: Option.bind_split)

lemma split_at_key:
  fixes f :: "'a \<Rightarrow> 'k::linorder"
  assumes "sorted_wrt (<) (map f ns)"
  obtains L R where "ns = L @ R" "\<forall>a \<in> set L. f a < k" "\<forall>a \<in> set R. \<not> f a < k"
    "R \<noteq> [] \<and> f (hd R) = k \<or> (\<forall>a \<in> set R. k < f a)"
proof -
  let ?L = "takeWhile (\<lambda>a. f a < k) ns" and ?R = "dropWhile (\<lambda>a. f a < k) ns"
  have sorted: "sorted_wrt (<) (map f ?R)"
    using assms by (metis sorted_wrt_append map_append takeWhile_dropWhile_id)
  have R: "k \<le> f a" if "a \<in> set ?R" for a
  proof (cases ?R)
    case (Cons b bs)
    then have "\<not> f b < k" using hd_dropWhile[of "\<lambda>a. f a < k" ns] by simp
    with that sorted Cons show ?thesis by (auto intro: order.strict_implies_order order.trans)
  next
    case Nil
    with that have "a \<in> set []" by metis
    then show ?thesis by simp
  qed
  have "?R \<noteq> [] \<and> f (hd ?R) = k \<or> (\<forall>a \<in> set ?R. k < f a)"
  proof (cases ?R)
    case (Cons b bs)
    with R[of b] sorted show ?thesis by (auto simp: order_le_less)
  next
    case Nil
    then have "\<forall>a \<in> set ?R. k < f a" by (metis list.set(1) empty_iff)
    then show ?thesis ..
  qed
  with R show ?thesis
    by (intro that[of ?L ?R]) (auto dest: set_takeWhileD simp: not_less)
qed

text \<open>What \<open>insert\<close> and \<open>Get\<close> find under the invariant.\<close>

lemma search_rep:
  assumes rep: "mt_rep m (L @ R)"
    and L: "\<forall>a \<in> set L. sk_key (m_nodes m a) < key" and R: "\<forall>a \<in> set R. \<not> sk_key (m_nodes m a) < key"
  shows "sk_search (m_nodes m) key (m_level m) (m_head m) (replicate maxLevel None) =
      Some (last (m_head m # L), map (\<lambda>j. Some (last_at (m_nodes m) j (m_head m # L))) [0..<m_level m] @
        replicate (maxLevel - m_level m) None)"
    and "sk_descend (m_nodes m) key (m_level m) (m_head m) = Some (last (m_head m # L))"
    and "next_at (m_nodes m) (last (m_head m # L)) 0 = Some (case R of [] \<Rightarrow> None | n # _ \<Rightarrow> Some n)"
proof -
  let ?h = "m_nodes m" and ?H = "m_head m"
  have all: "filter (\<lambda>a. 0 < tower ?h a) (?H # L) = ?H # L"
  proof (intro filter_True ballI)
    fix a assume "a \<in> set (?H # L)"
    then have "1 \<le> tower ?h a" using rep unfolding mt_rep_def maxLevel_def by auto
    then show "0 < tower ?h a" by linarith
  qed
  have th: "threaded ?h ((?H # L) @ R)" using rep by (simp add: mt_rep_def)
  show s: "sk_search ?h key (m_level m) ?H (replicate maxLevel None) =
      Some (last (?H # L), map (\<lambda>j. Some (last_at ?h j (?H # L))) [0..<m_level m] @
        replicate (maxLevel - m_level m) None)"
    using search_from[OF th, of key ?H "m_level m" "replicate maxLevel None"] L R rep all
    by (simp add: mt_rep_def)
  show "sk_descend ?h key (m_level m) ?H = Some (last (?H # L))"
    using descend_search[of "m_level m" "replicate maxLevel None" ?h key ?H] s rep by (simp add: mt_rep_def)
  obtain us x where us: "?H # L = us @ [x]" by (rule rev_exhaust[of "?H # L"]) simp
  then have "x \<in> set (?H # L)" by (metis in_set_conv_decomp)
  then have "0 < tower ?h x" using all by (metis (no_types, lifting) filter_id_conv)
  moreover have "threaded ?h (us @ x # R)" using th us by simp
  ultimately have "next_at ?h x 0 = Some (first_at ?h 0 R)" by (rule threadedD[rotated])
  moreover have "first_at ?h 0 R = (case R of [] \<Rightarrow> None | n # _ \<Rightarrow> Some n)"
    using rep by (cases R) (auto simp: mt_rep_def)
  moreover have "last (?H # L) = x" using us by simp
  ultimately show "next_at ?h (last (?H # L)) 0 = Some (case R of [] \<Rightarrow> None | n # _ \<Rightarrow> Some n)" by simp
qed

lemma mt_rep_sorted: "mt_rep m ns \<Longrightarrow> sorted_wrt (<) (map (sk_key \<circ> m_nodes m) ns)"
  by (simp add: mt_rep_def)

lemma sorted_mt_abs: "mt_rep m ns \<Longrightarrow> sorted_keys (mt_abs (m_nodes m) ns)"
  using mt_rep_sorted by (simp add: mt_abs_def sk_entry_def comp_def)

lemma map_of_miss: "(\<And>a. a \<in> set xs \<Longrightarrow> fst a \<noteq> k) \<Longrightarrow> map_of xs k = None"
  by (auto simp: map_of_eq_None_iff)

lemma mt_Get_rep:
  assumes rep: "mt_rep m ns"
  shows "mt_Get m key = Some (case map_of (mt_abs (m_nodes m) ns) key of
    None \<Rightarrow> ('''', False, False) | Some (v, d) \<Rightarrow> (if d then '''' else v, \<not> d, d))"
proof -
  let ?h = "m_nodes m"
  obtain L R where ns: "ns = L @ R" and L: "\<forall>a \<in> set L. sk_key (?h a) < key"
    and R: "\<forall>a \<in> set R. \<not> sk_key (?h a) < key"
    and hit: "R \<noteq> [] \<and> sk_key (?h (hd R)) = key \<or> (\<forall>a \<in> set R. key < sk_key (?h a))"
    using split_at_key[OF mt_rep_sorted[OF rep], of key] by (auto simp: comp_def)
  note find = search_rep(2,3)[OF rep[unfolded ns] L R]
  have missL: "map_of (mt_abs ?h L) key = None"
    using L by (intro map_of_miss) (auto simp: mt_abs_def sk_entry_def)
  from hit show ?thesis
  proof
    assume "R \<noteq> [] \<and> sk_key (?h (hd R)) = key"
    then obtain n R' where "R = n # R'" "sk_key (?h n) = key" by (cases R) auto
    then show ?thesis
      using missL find unfolding mt_Get_def
      by (auto simp: ns mt_abs_def sk_entry_def map_add_def Let_def)
  next
    assume "\<forall>a \<in> set R. key < sk_key (?h a)"
    moreover from this have "map_of (mt_abs ?h R) key = None"
      by (intro map_of_miss) (auto simp: mt_abs_def sk_entry_def)
    ultimately show ?thesis
      using missL find unfolding mt_Get_def
      by (cases R) (auto simp: ns mt_abs_def map_add_def)
  qed
qed

lemma mt_Entries_rep:
  assumes rep: "mt_rep m ns"
  shows "mt_Entries m = Some (mt_abs (m_nodes m) ns)"
proof -
  let ?h = "m_nodes m"
  have all: "\<forall>a \<in> set (m_head m # ns). 0 < tower ?h a" using rep by (auto simp: mt_rep_def maxLevel_def)
  have "\<forall>a \<in> set ns. 0 < tower ?h a \<Longrightarrow> mt_walk ?h (first_at ?h 0 ns) = Some (mt_abs ?h ns)" if "threaded ?h ns" for ns
    using that
  proof (induction ns)
    case Nil
    show ?case by (simp add: mt_walk.simps[of ?h None] mt_abs_def)
  next
    case (Cons a ns)
    have "threaded ?h ns" using Cons.prems(2) unfolding threaded_def by (metis append_Cons)
    then have "mt_walk ?h (first_at ?h 0 ns) = Some (mt_abs ?h ns)" using Cons by simp
    moreover have "next_at ?h a 0 = Some (first_at ?h 0 ns)"
      using threadedD[of ?h "[]" a ns 0] Cons.prems by simp
    ultimately show ?case using Cons.prems(1)
      by (simp add: mt_walk.simps[of ?h "Some a"] mt_abs_def sk_entry_def)
  qed
  moreover have "threaded ?h ns" using rep unfolding mt_rep_def threaded_def by (metis append_Cons)
  moreover have "next_at ?h (m_head m) 0 = Some (first_at ?h 0 ns)"
    using threadedD[of ?h "[]" "m_head m" ns 0] rep all by (simp add: mt_rep_def)
  ultimately show ?thesis using all by (simp add: mt_Entries_def)
qed

subsection \<open>Insertion\<close>

definition same_fields :: "sk_heap \<Rightarrow> sk_heap \<Rightarrow> bool" where
  "same_fields h g \<longleftrightarrow> (\<forall>a. sk_key (g a) = sk_key (h a) \<and> sk_value (g a) = sk_value (h a) \<and>
     sk_deleted (g a) = sk_deleted (h a) \<and> tower g a = tower h a)"

lemma same_fieldsD:
  "same_fields h g \<Longrightarrow> sk_key (g a) = sk_key (h a)" "same_fields h g \<Longrightarrow> sk_value (g a) = sk_value (h a)"
  "same_fields h g \<Longrightarrow> sk_deleted (g a) = sk_deleted (h a)" "same_fields h g \<Longrightarrow> tower g a = tower h a"
  by (simp_all add: same_fields_def)

lemma link_levels:
  assumes "\<forall>i \<in> set is. nth_opt update i = Some (Some (u i)) \<and> u i \<noteq> n \<and> i < tower h (u i) \<and> i < tower h n"
    and "distinct is"
  shows "\<exists>g. sk_link n update is h = Some g \<and> same_fields h g \<and>
    (\<forall>a j. j < tower h a \<longrightarrow> sk_next (g a) ! j =
      (if j \<in> set is \<and> a = n then sk_next (h (u j)) ! j
       else if j \<in> set is \<and> a = u j then Some n else sk_next (h a) ! j))"
  using assms
proof (induction "is" arbitrary: h)
  case (Cons i "is")
  note i = Cons.prems(1)[rule_format, of i, simplified]
  define h1 where "h1 = h(n := (h n)\<lparr>sk_next := (sk_next (h n))[i := sk_next (h (u i)) ! i]\<rparr>)"
  define h2 where "h2 = h1(u i := (h1 (u i))\<lparr>sk_next := (sk_next (h1 (u i)))[i := Some n]\<rparr>)"
  have h2: "sk_key (h2 a) = sk_key (h a)" "sk_value (h2 a) = sk_value (h a)"
    "sk_deleted (h2 a) = sk_deleted (h a)" "tower h2 a = tower h a" for a
    by (simp_all add: h2_def h1_def)
  have nx: "j < tower h a \<Longrightarrow> sk_next (h2 a) ! j =
      (if j = i \<and> a = n then sk_next (h (u i)) ! i else if j = i \<and> a = u i then Some n else sk_next (h a) ! j)" for a j
    using i by (simp add: h2_def h1_def)
  have eq: "sk_link n update (i # is) h = sk_link n update is h2"
    using i by (simp add: next_at_def nth_opt_def h2_def h1_def Let_def)
  have "\<exists>g. sk_link n update is h2 = Some g \<and> same_fields h2 g \<and>
    (\<forall>a j. j < tower h2 a \<longrightarrow> sk_next (g a) ! j =
      (if j \<in> set is \<and> a = n then sk_next (h2 (u j)) ! j
       else if j \<in> set is \<and> a = u j then Some n else sk_next (h2 a) ! j))"
    by (rule Cons.IH) (use Cons.prems in \<open>auto simp: h2(4)\<close>)
  then obtain g where g: "sk_link n update is h2 = Some g" "same_fields h2 g"
    "\<And>a j. j < tower h a \<Longrightarrow> sk_next (g a) ! j =
      (if j \<in> set is \<and> a = n then sk_next (h2 (u j)) ! j
       else if j \<in> set is \<and> a = u j then Some n else sk_next (h2 a) ! j)"
    unfolding h2(4) by blast
  have res: "sk_next (g a) ! j = (if j \<in> set (i # is) \<and> a = n then sk_next (h (u j)) ! j
       else if j \<in> set (i # is) \<and> a = u j then Some n else sk_next (h a) ! j)" if "j < tower h a" for a j
    using g(3)[OF that] nx[OF that] nx[of j "u j"] Cons.prems by (cases "j = i"; cases "a = n") auto
  have "same_fields h g" using g(2) h2 by (simp add: same_fields_def)
  with res g(1) show ?case unfolding eq by blast
qed (simp add: same_fields_def)

lemma raise_update_nth:
  "nth_opt (raise_update H is update) i =
     (if i < length update then Some (if i \<in> set is then Some H else update ! i) else None)"
  by (induction "is" arbitrary: update) (auto simp: nth_opt_def)

lemma level_loop_bounds: "l \<le> maxLevel \<Longrightarrow> l \<le> fst (level_loop low d l) \<and> fst (level_loop low d l) \<le> maxLevel"
proof (induction low d l rule: level_loop.induct)
  case (1 low d l)
  then show ?case using level_loop.simps[of low d l] by (cases "l < maxLevel"; cases "low d") auto
qed

text \<open>Linking \<open>n\<close> behind the last node of every level keeps all levels threaded.\<close>

lemma threaded_insert:
  assumes th: "threaded h (L @ R)" and n: "n \<notin> set (L @ R)" and dist: "distinct (L @ R)"
    and full: "\<And>i. i < tower g n \<Longrightarrow> \<exists>a \<in> set L. i < tower h a"
    and towers: "\<And>a. a \<noteq> n \<Longrightarrow> tower g a = tower h a"
    and new: "\<And>i. i < tower g n \<Longrightarrow> sk_next (g n) ! i = sk_next (h (last_at h i L)) ! i"
    and old: "\<And>a i. a \<noteq> n \<Longrightarrow> i < tower h a \<Longrightarrow> sk_next (g a) ! i =
      (if i < tower g n \<and> a = last_at h i L then Some n else sk_next (h a) ! i)"
  shows "threaded g (L @ n # R)"
proof -
  have first: "first_at g i xs = first_at h i xs" if "n \<notin> set xs" for i xs
  proof (rule find_cong[OF refl])
    fix a assume "a \<in> set xs"
    then have "a \<noteq> n" using that by blast
    then show "(i < tower g a) = (i < tower h a)" by (simp add: towers)
  qed
  have last: "last_at h i (l @ x # r) = x \<longleftrightarrow> first_at h i r = None" if "i < tower h x" "distinct (l @ x # r)" for i l x r
  proof
    assume e: "last_at h i (l @ x # r) = x"
    show "first_at h i r = None"
    proof (rule ccontr)
      assume "first_at h i r \<noteq> None"
      then obtain y where "y \<in> set r" "i < tower h y" by (auto simp: find_None_iff)
      then have "last_at h i r \<in> set r" using last_at_in by blast
      moreover have "last_at h i (l @ x # r) = last_at h i r"
        using \<open>y \<in> set r\<close> \<open>i < tower h y\<close> by (auto simp: filter_empty_conv)
      ultimately show False using e that(2) by auto
    qed
  next
    assume "first_at h i r = None"
    then have "filter (\<lambda>a. i < tower h a) r = []" by (rule find_None_filter)
    then show "last_at h i (l @ x # r) = x" using that(1) by simp
  qed
  show ?thesis unfolding threaded_def
  proof (intro allI impI)
    fix l x r i assume eq: "L @ n # R = l @ x # r" and i: "i < tower g x"
    consider (left) r' where "L = l @ x # r'" "r = r' @ n # R" | (new) "l = L" "x = n" "r = R"
      | (right) l' where "l = L @ n # l'" "R = l' @ x # r"
      using eq by (auto simp: append_eq_append_conv2 append_eq_Cons_conv Cons_eq_append_conv)
    then show "sk_next (g x) ! i = first_at g i r"
    proof cases
      case left
      have x: "x \<noteq> n" "i < tower h x" "n \<notin> set r'" "n \<notin> set R" "x \<notin> set r'"
        using left n dist i towers by auto
      have "distinct (l @ x # r')" using dist unfolding left(1) distinct_append by blast
      note here = last[OF x(2) this, folded left(1)]
      have "sk_next (h x) ! i = first_at h i (r' @ R)" using th x(2) left by (simp add: threaded_def)
      then show ?thesis
        using old[OF x(1,2)] here i x(1) first[OF x(3)] first[OF x(4)] towers
        by (cases "first_at h i r'") (auto simp: left(2) find_append)
    next
      case new
      then have it: "i < tower g n" using i by simp
      obtain a where "a \<in> set L" "i < tower h a" using full[OF it] by blast
      then have p: "last_at h i L \<in> set L" "i < tower h (last_at h i L)" by (auto dest: last_at_in)
      obtain l' r' where L: "L = l' @ last_at h i L # r'" using split_list[OF p(1)] by blast
      then have "first_at h i r' = None" using last[OF p(2), of l' r'] dist by (metis distinct_append)
      moreover have "sk_next (h (last_at h i L)) ! i = first_at h i (r' @ R)"
        using th p(2) L unfolding threaded_def by (metis append.assoc append_Cons)
      ultimately show ?thesis using assms(6)[OF it] new first[of R] n by (simp add: find_append)
    next
      case right
      have x: "x \<noteq> n" "i < tower h x" "x \<notin> set L" "n \<notin> set r" using right n dist i towers by auto
      have "x \<noteq> last_at h i L" if "i < tower g n"
        using full[OF that] x(3) last_at_in by metis
      moreover have "sk_next (h x) ! i = first_at h i r"
        using th x(2) right unfolding threaded_def by (metis append.assoc)
      ultimately show ?thesis using old[OF x(1,2)] first[of r] x(4) by auto
    qed
  qed
qed

lemma threaded_cong: "threaded h ns \<Longrightarrow> (\<And>a. sk_next (g a) = sk_next (h a)) \<Longrightarrow> threaded g ns"
  by (simp add: threaded_def)

lemma put_mt_abs:
  "\<forall>a \<in> set L. sk_key (h a) < k \<Longrightarrow> put_list k v (mt_abs h (L @ xs)) = mt_abs h L @ put_list k v (mt_abs h xs)"
  unfolding mt_abs_def map_append by (rule put_list_append_right) (auto simp: sk_entry_def)

lemma insert_hit:
  assumes rep: "mt_rep m (L @ n # R)" and L: "\<forall>a \<in> set L. sk_key (m_nodes m a) < key"
    and key: "sk_key (m_nodes m n) = key"
  obtains m' where "mt_insert low key val del m = Some m'" "mt_rep m' (L @ n # R)"
    "mt_abs (m_nodes m') (L @ n # R) = put_list key (val, del) (mt_abs (m_nodes m) (L @ n # R))"
proof -
  let ?h = "m_nodes m"
  have sorted: "sorted_wrt (<) (map (sk_key \<circ> ?h) (L @ n # R))" by (rule mt_rep_sorted[OF rep])
  then have R: "\<forall>a \<in> set (n # R). \<not> sk_key (?h a) < key" using key by (auto simp: not_less sorted_wrt_append)
  note find = search_rep[OF rep L R]
  define g where "g = ?h(n := ?h n\<lparr>sk_value := val, sk_deleted := del\<rparr>)"
  define m' where "m' = m\<lparr>m_nodes := g, m_bytes := m_bytes m + (int (length val) - int (length (sk_value (?h n))))\<rparr>"
  have ev: "mt_insert low key val del m = Some m'"
    using find key unfolding mt_insert_def by (simp add: Let_def g_def m'_def)
  have g: "sk_key (g a) = sk_key (?h a)" "sk_next (g a) = sk_next (?h a)" for a by (simp_all add: g_def)
  have n: "n \<notin> set L" "n \<notin> set R" using rep by (auto simp: mt_rep_def)
  have size: "sum_list (map (sk_size g) L) = sum_list (map (sk_size ?h) L)"
    "sum_list (map (sk_size g) R) = sum_list (map (sk_size ?h) R)"
    "sk_size g n = int (length key) + int (length val)" "sk_size ?h n = int (length key) + int (length (sk_value (?h n)))"
    using n key by (auto simp: g_def sk_size_def intro!: arg_cong[of _ _ sum_list])
  have "threaded g (m_head m # L @ n # R)" using rep g by (auto simp: mt_rep_def intro: threaded_cong)
  then have rep': "mt_rep m' (L @ n # R)"
    using rep size by (simp add: mt_rep_def m'_def g comp_def)
  have "put_list key (val, del) (mt_abs ?h (L @ n # R)) = mt_abs ?h L @ put_list key (val, del) (mt_abs ?h (n # R))"
    by (rule put_mt_abs[OF L])
  also have "\<dots> = mt_abs g (L @ n # R)"
    using key n by (auto simp: mt_abs_def sk_entry_def g_def)
  finally show ?thesis using that[OF ev rep'] by (simp add: m'_def)
qed

lemma insert_miss:
  assumes rep: "mt_rep m (L @ R)" and L: "\<forall>a \<in> set L. sk_key (m_nodes m a) < key"
    and R: "\<forall>a \<in> set R. key < sk_key (m_nodes m a)"
  obtains m' n where "mt_insert low key val del m = Some m'" "mt_rep m' (L @ n # R)"
    "mt_abs (m_nodes m') (L @ n # R) = put_list key (val, del) (mt_abs (m_nodes m) (L @ R))"
proof -
  let ?h = "m_nodes m" and ?H = "m_head m" and ?n = "m_fresh m"
  have R': "\<forall>a \<in> set R. \<not> sk_key (?h a) < key" using R by auto
  note find = search_rep[OF rep L R']
  define lvl where "lvl = fst (randomLevel low m)"
  define m1 where "m1 = snd (randomLevel low m)"
  have m1: "m1 = m\<lparr>m_draws := m_draws m1\<rparr>" by (simp add: m1_def randomLevel_def Let_def)
  then have m1s: "m_level m1 = m_level m" "m_head m1 = ?H" "m_nodes m1 = ?h" "m_fresh m1 = ?n"
    "m_count m1 = m_count m" "m_bytes m1 = m_bytes m" by (metis Memtable.select_convs Memtable.update_convs Memtable.surjective)+
  have lvl: "1 \<le> lvl" "lvl \<le> maxLevel"
    using level_loop_bounds[of 1 low "m_draws m"] by (simp_all add: lvl_def randomLevel_def Let_def maxLevel_def)
  define u where "u j = last_at ?h j (?H # L)" for j
  define update where "update = map (\<lambda>j. Some (u j)) [0..<m_level m] @ replicate (maxLevel - m_level m) None"
  define update1 where "update1 = (if lvl > m_level m then raise_update ?H [m_level m..<lvl] update else update)"
  define h0 where "h0 = ?h(?n := \<lparr>sk_key = key, sk_value = val, sk_deleted = del, sk_next = replicate lvl None\<rparr>)"
  have fresh: "?n \<notin> set (?H # L @ R)" using rep by (auto simp: mt_rep_def)
  have head: "tower ?h ?H = maxLevel" and levels: "m_level m \<le> maxLevel"
    and low_towers: "\<forall>a \<in> set L. tower ?h a \<le> m_level m"
    using rep by (auto simp: mt_rep_def)
  have above: "u i = ?H" if "m_level m \<le> i" "i < maxLevel" for i
  proof -
    have "filter (\<lambda>a. i < tower ?h a) L = []"
      using low_towers that(1) by (fastforce simp: filter_empty_conv)
    then show ?thesis using head that(2) by (simp add: u_def)
  qed
  have len: "length update = maxLevel" using levels by (simp add: update_def)
  have upd: "nth_opt update1 i = Some (Some (u i))" if i: "i < lvl" for i
  proof (cases "i < m_level m")
    case True
    then show ?thesis using i lvl len
      by (auto simp: update1_def raise_update_nth) (auto simp: update_def nth_append nth_opt_def)
  next
    case False
    then show ?thesis using i lvl len above[of i] by (auto simp: update1_def raise_update_nth)
  qed
  have last: "u i \<in> set (?H # L)" "i < tower ?h (u i)" if "i < lvl" for i
    using last_at_in[of ?H "?H # L" i ?h] head that lvl unfolding u_def by auto
  have "\<forall>i \<in> set [0..<lvl]. nth_opt update1 i = Some (Some (u i)) \<and> u i \<noteq> ?n \<and> i < tower h0 (u i) \<and> i < tower h0 ?n"
  proof
    fix i assume "i \<in> set [0..<lvl]"
    then have i: "i < lvl" by simp
    have "u i \<noteq> ?n" using last(1)[OF i] fresh by auto
    with upd[OF i] last(2)[OF i] i
    show "nth_opt update1 i = Some (Some (u i)) \<and> u i \<noteq> ?n \<and> i < tower h0 (u i) \<and> i < tower h0 ?n"
      unfolding h0_def by simp
  qed
  from link_levels[OF this] obtain g where g: "sk_link ?n update1 [0..<lvl] h0 = Some g" "same_fields h0 g"
    "\<And>a j. j < tower h0 a \<Longrightarrow> sk_next (g a) ! j =
      (if j < lvl \<and> a = ?n then sk_next (h0 (u j)) ! j
       else if j < lvl \<and> a = u j then Some ?n else sk_next (h0 a) ! j)"
    by auto
  note sf = same_fieldsD[OF g(2)]
  have tn: "tower g ?n = lvl" by (simp add: sf h0_def)
  have "threaded g ((?H # L) @ ?n # R)"
  proof (rule threaded_insert)
    show "threaded ?h ((?H # L) @ R)" "?n \<notin> set ((?H # L) @ R)" "distinct ((?H # L) @ R)"
      using rep fresh by (simp_all add: mt_rep_def)
    show "\<exists>a \<in> set (?H # L). i < tower ?h a" if "i < tower g ?n" for i
      using that tn last[of i] by metis
    show "tower g a = tower ?h a" if "a \<noteq> ?n" for a using that by (simp add: sf h0_def)
    show "sk_next (g ?n) ! i = sk_next (?h (last_at ?h i (?H # L))) ! i" if "i < tower g ?n" for i
    proof -
      have "u i \<noteq> ?n" using last(1)[of i] that tn fresh by auto
      then show ?thesis using g(3)[of i ?n] that tn unfolding u_def[symmetric] by (simp add: sf h0_def)
    qed
    show "sk_next (g a) ! i = (if i < tower g ?n \<and> a = last_at ?h i (?H # L) then Some ?n else sk_next (?h a) ! i)"
      if "a \<noteq> ?n" "i < tower ?h a" for a i
      using g(3)[of i a] that tn unfolding u_def[symmetric] by (simp add: h0_def)
  qed
  note th = this
  define m' where "m' = (if lvl > m_level m1 then m1\<lparr>m_level := lvl\<rparr> else m1)\<lparr>m_nodes := g, m_fresh := ?n + 1,
    m_count := m_count m + 1, m_bytes := m_bytes m + int (length key) + int (length val)\<rparr>"
  have res: "randomLevel low m = (lvl, m1)" by (simp add: lvl_def m1_def)
  have ev: "mt_insert low key val del m = Some m'"
  proof -
    have "\<not> (p \<noteq> None \<and> sk_key (?h (the p)) = key)" if "p = (case R of [] \<Rightarrow> None | n # _ \<Rightarrow> Some n)" for p
      using R that by (cases R) auto
    then have "mt_insert low key val del m = mt_insert_new low key val del update m"
      using find(1,3) unfolding mt_insert_def update_def u_def by auto
    also have "\<dots> = Some m'"
      using g(1) by (cases "m_level m < lvl")
        (simp_all add: mt_insert_new_def res m1s update1_def h0_def[symmetric] m'_def Let_def)
    finally show ?thesis .
  qed
  have gk: "sk_key (g a) = sk_key (?h a)" "sk_entry (g a) = sk_entry (?h a)" "sk_size g a = sk_size ?h a"
    "tower g a = tower ?h a" if "a \<noteq> ?n" for a
    using that by (simp_all add: sf h0_def sk_entry_def sk_size_def)
  have gn: "sk_key (g ?n) = key" "sk_entry (g ?n) = (key, val, del)" "sk_size g ?n = int (length key) + int (length val)"
    by (simp_all add: sf h0_def sk_entry_def sk_size_def)
  have ne: "a \<noteq> ?n" if "a \<in> set L \<or> a \<in> set R" for a using that fresh by auto
  have m': "m_nodes m' = g" "m_head m' = ?H" "m_fresh m' = ?n + 1" "m_level m' = max (m_level m) lvl"
    "m_count m' = m_count m + 1" "m_bytes m' = m_bytes m + int (length key) + int (length val)"
    by (simp_all add: m'_def m1s)
  have keys: "map (sk_key \<circ> g) (L @ ?n # R) = map (sk_key \<circ> ?h) L @ key # map (sk_key \<circ> ?h) R"
    using gk(1) gn(1) ne by auto
  have sorted: "sorted_wrt (<) (map (sk_key \<circ> g) (L @ ?n # R))"
    unfolding keys using L R mt_rep_sorted[OF rep] by (auto simp: sorted_wrt_append)
  have "sum_list (map (sk_size g) L) = sum_list (map (sk_size ?h) L)"
    "sum_list (map (sk_size g) R) = sum_list (map (sk_size ?h) R)"
    using gk(3) ne by (auto intro!: arg_cong[of _ _ sum_list])
  then have bytes: "sum_list (map (sk_size g) (L @ ?n # R)) = m_bytes m'"
    using rep gn(3) by (simp add: m' mt_rep_def)
  have towers: "\<forall>a \<in> set (L @ ?n # R). 1 \<le> tower g a \<and> tower g a \<le> max (m_level m) lvl"
  proof
    fix a assume a: "a \<in> set (L @ ?n # R)"
    show "1 \<le> tower g a \<and> tower g a \<le> max (m_level m) lvl"
    proof (cases "a = ?n")
      case False
      then have "1 \<le> tower ?h a \<and> tower ?h a \<le> m_level m" using a rep unfolding mt_rep_def by auto
      then show ?thesis using gk(4)[OF False] by linarith
    qed (use tn lvl in simp)
  qed
  have rep': "mt_rep m' (L @ ?n # R)"
    unfolding mt_rep_def m'(1-5) bytes
    using th sorted towers rep fresh gk(4)[of ?H] lvl levels by (auto simp: mt_rep_def less_Suc_eq)
  have "mt_abs g (L @ ?n # R) = mt_abs ?h L @ (key, val, del) # mt_abs ?h R"
    using gk(2) gn(2) ne by (auto simp: mt_abs_def)
  also have "\<dots> = put_list key (val, del) (mt_abs ?h (L @ R))"
    unfolding put_mt_abs[OF L] using R by (cases R) (simp_all add: mt_abs_def sk_entry_def)
  finally show ?thesis using that[OF ev rep'] by (simp add: m'(1))
qed

lemma mt_insert_rep:
  assumes rep: "mt_rep m ns"
  obtains m' ns' where "mt_insert low key val del m = Some m'" "mt_rep m' ns'"
    "mt_abs (m_nodes m') ns' = put_list key (val, del) (mt_abs (m_nodes m) ns)"
proof -
  obtain L R where ns: "ns = L @ R" and L: "\<forall>a \<in> set L. sk_key (m_nodes m a) < key"
    and hit: "R \<noteq> [] \<and> sk_key (m_nodes m (hd R)) = key \<or> (\<forall>a \<in> set R. key < sk_key (m_nodes m a))"
    using split_at_key[OF mt_rep_sorted[OF rep], of key, unfolded comp_def] by metis
  from hit show ?thesis
  proof
    assume "R \<noteq> [] \<and> sk_key (m_nodes m (hd R)) = key"
    then obtain n R' where "R = n # R'" "sk_key (m_nodes m n) = key" by (cases R) auto
    then show ?thesis using insert_hit[of m L n R' key low val del] rep L ns that by metis
  next
    assume "\<forall>a \<in> set R. key < sk_key (m_nodes m a)"
    then show ?thesis using insert_miss[of m L R key low val del] rep L ns that by metis
  qed
qed

end
