(* ===== verification/LSM.thy ===== *)
theory LSM
  imports SkipList Codec KvMap
begin

text \<open>
  \<^verbatim>\<open>code/lsm_memtable/lsm.go\<close>, from the sorted runs up: the SSTable with its sparse index and the
  tree that ties the memtable and the tables together.  The files of the tree's directory are a map
  from file names to bytes.  What the file system answered to the calls of one flush is an argument,
  \<open>io\<close>: a failed write leaves some prefix of the data in the created file.  \<open>None\<close> is a panic.
\<close>

datatype io = IoOk | MkdirFails | CreateFails | WriteFails nat | SyncFails

datatype lsm_error = RefuseEmpty | IoError io | NotExist string

type_synonym fs = "string \<rightharpoonup> byte list"

record SSTable =
  t_path :: string
  t_index :: "(string \<times> nat) list"
  t_minKey :: string
  t_maxKey :: string
  t_count :: nat
  t_interval :: nat

definition indexInterval :: nat where
  "indexInterval = 16"

abbreviation fits32 :: "string \<Rightarrow> string \<Rightarrow> bool" where
  "fits32 k v \<equiv> length k + length v < 2 ^ 32"

subsection \<open>Writing a table\<close>

definition entry_header :: "lsm_entry \<Rightarrow> byte list" where
  "entry_header e = (case e of (k, v, deleted) \<Rightarrow>
     le_bytes 4 (word_of_nat (length k) :: u32) @ le_bytes 4 (word_of_nat (length v) :: u32) @
     [if deleted then 1 else 0])"

definition entry_bytes :: "lsm_entry \<Rightarrow> byte list" where
  "entry_bytes e = entry_header e @ bytes_of (fst e) @ bytes_of (fst (snd e))"

text \<open>The loop of \<open>Flush\<close>: the index it builds and the bytes it writes.\<close>

fun flush_loop :: "nat \<Rightarrow> nat \<Rightarrow> lsm_entry list \<Rightarrow> (string \<times> nat) list \<times> byte list" where
  "flush_loop i offset [] = ([], [])"
| "flush_loop i offset (e # es) =
     (let (index, out) = flush_loop (i + 1) (offset + (9 + length (fst e) + length (fst (snd e)))) es in
      (if i mod indexInterval = 0 then (fst e, offset) # index else index, entry_bytes e @ out))"

definition sst_Flush :: "io \<Rightarrow> Memtable \<Rightarrow> string \<Rightarrow> fs \<Rightarrow> ((lsm_error + SSTable) \<times> fs) option" where
  "sst_Flush io m path fs = do {
     entries \<leftarrow> mt_Entries m;
     if entries = [] then Some (Inl RefuseEmpty, fs)
     else if io = MkdirFails \<or> io = CreateFails then Some (Inl (IoError io), fs)
     else let (index, out) = flush_loop 0 0 entries;
              t = \<lparr>t_path = path, t_index = index, t_minKey = fst (entries ! 0),
                   t_maxKey = fst (entries ! (length entries - 1)), t_count = length entries,
                   t_interval = indexInterval\<rparr>
          in case io of
               WriteFails n \<Rightarrow> Some (Inl (IoError io), fs(path \<mapsto> take n out))
             | SyncFails \<Rightarrow> Some (Inl (IoError io), fs(path \<mapsto> out))
             | _ \<Rightarrow> Some (Inr t, fs(path \<mapsto> out)) }"

subsection \<open>Looking a key up in a table\<close>

text \<open>The scan reads at most \<open>n\<close> entries of \<open>r\<close>.  The result is the value, found and tombstone.\<close>

fun sst_scan :: "nat \<Rightarrow> string \<Rightarrow> byte list \<Rightarrow> (string \<times> bool \<times> bool) option" where
  "sst_scan 0 key r = Some ('''', False, False)"
| "sst_scan (Suc n) key r =
     (if length r < 9 then Some ('''', False, False)
      else
        let header = take 9 r;
            keyLen = (le_word (take 4 header) :: u32);
            valLen = (le_word (take 4 (drop 4 header)) :: u32);
            deleted = (header ! 8 = 1);
            rest = drop 9 r;
            size = unat (keyLen + valLen)
        in if length rest < size then Some ('''', False, False)
           else if unat keyLen > size then None
           else
             let body = take size rest;
                 k = string_of (take (unat keyLen) body)
             in if k = key then
                  Some (if deleted then ('''', False, True) else (string_of (drop (unat keyLen) body), True, False))
                else if k > key then Some ('''', False, False)
                else sst_scan n key (drop size rest))"

definition sst_Get :: "fs \<Rightarrow> SSTable \<Rightarrow> string \<Rightarrow> (lsm_error + (string \<times> bool \<times> bool)) option" where
  "sst_Get fs t key =
     (if key < t_minKey t \<or> key > t_maxKey t then Some (Inr ('''', False, False))
      else
        let i = go_Search (length (t_index t)) (\<lambda>i. fst (t_index t ! i) > key);
            start = (if i > 0 then snd (t_index t ! (i - 1)) else 0)
        in case fs (t_path t) of
             None \<Rightarrow> Some (Inl (NotExist (t_path t)))
           | Some content \<Rightarrow> map_option Inr (sst_scan (t_interval t + 1) key (drop start content)))"

definition sst_Count :: "SSTable \<Rightarrow> nat" where "sst_Count t = t_count t"
definition sst_IndexSize :: "SSTable \<Rightarrow> nat" where "sst_IndexSize t = length (t_index t)"
definition sst_MinKey :: "SSTable \<Rightarrow> string" where "sst_MinKey t = t_minKey t"
definition sst_MaxKey :: "SSTable \<Rightarrow> string" where "sst_MaxKey t = t_maxKey t"

subsection \<open>The tree\<close>

record LSMTree =
  l_mem :: Memtable
  l_tables :: "SSTable list"
  l_flushBytes :: int
  l_flushCounter :: nat
  l_fs :: fs

definition NewLSMTree :: "int \<Rightarrow> fs \<Rightarrow> LSMTree" where
  "NewLSMTree flushBytes dir = \<lparr>l_mem = NewMemtable, l_tables = [], l_flushBytes = flushBytes, l_flushCounter = 0, l_fs = dir\<rparr>"

definition sst_name :: "nat \<Rightarrow> string" where
  "sst_name n = ''sst-'' @ padded 4 n @ ''.dat''"

definition flushLocked :: "io \<Rightarrow> LSMTree \<Rightarrow> (lsm_error option \<times> LSMTree) option" where
  "flushLocked io l =
     (if mt_Len (l_mem l) = 0 then Some (None, l)
      else do {
        (r, fs) \<leftarrow> sst_Flush io (l_mem l) (sst_name (l_flushCounter l)) (l_fs l);
        let l1 = l\<lparr>l_fs := fs\<rparr>;
        case r of
          Inl e \<Rightarrow> Some (Some e, l1)
        | Inr t \<Rightarrow> Some (None, l1\<lparr>l_flushCounter := l_flushCounter l1 + 1, l_tables := l_tables l1 @ [t],
                              l_mem := NewMemtable\<rparr>) })"

definition maybeFlush :: "io \<Rightarrow> LSMTree \<Rightarrow> (lsm_error option \<times> LSMTree) option" where
  "maybeFlush io l = (if mt_Bytes (l_mem l) < l_flushBytes l then Some (None, l) else flushLocked io l)"

definition LSM_Put :: "(nat \<Rightarrow> bool) \<Rightarrow> io \<Rightarrow> string \<Rightarrow> string \<Rightarrow> LSMTree \<Rightarrow> (lsm_error option \<times> LSMTree) option" where
  "LSM_Put low io key val l = do { m \<leftarrow> mt_Put low key val (l_mem l); maybeFlush io (l\<lparr>l_mem := m\<rparr>) }"

definition LSM_Delete :: "(nat \<Rightarrow> bool) \<Rightarrow> io \<Rightarrow> string \<Rightarrow> LSMTree \<Rightarrow> (lsm_error option \<times> LSMTree) option" where
  "LSM_Delete low io key l = do { m \<leftarrow> mt_Delete low key (l_mem l); maybeFlush io (l\<lparr>l_mem := m\<rparr>) }"

definition LSM_Flush :: "io \<Rightarrow> LSMTree \<Rightarrow> (lsm_error option \<times> LSMTree) option" where
  "LSM_Flush io l = flushLocked io l"

fun get_tables :: "fs \<Rightarrow> string \<Rightarrow> SSTable list \<Rightarrow> (lsm_error + (string \<times> bool)) option" where
  "get_tables fs key [] = Some (Inr ('''', False))"
| "get_tables fs key (t # ts) = do {
     r \<leftarrow> sst_Get fs t key;
     case r of
       Inl e \<Rightarrow> Some (Inl e)
     | Inr (v, fnd, tomb) \<Rightarrow> if fnd \<or> tomb then Some (Inr (v, fnd)) else get_tables fs key ts }"

definition LSM_Get :: "LSMTree \<Rightarrow> string \<Rightarrow> (lsm_error + (string \<times> bool)) option" where
  "LSM_Get l key = do {
     (v, fnd, tomb) \<leftarrow> mt_Get (l_mem l) key;
     if fnd \<or> tomb then Some (Inr (v, fnd)) else get_tables (l_fs l) key (rev (l_tables l)) }"

definition LSM_Tables :: "LSMTree \<Rightarrow> nat" where "LSM_Tables l = length (l_tables l)"

subsection \<open>The file of a table\<close>

text \<open>\<open>look es key\<close>: what a run answers.\<close>

definition look :: "lsm_entry list \<Rightarrow> string \<Rightarrow> string \<times> bool \<times> bool" where
  "look es key = (case map_of es key of
     None \<Rightarrow> ('''', False, False) | Some (v, d) \<Rightarrow> (if d then '''' else v, \<not> d, d))"

definition entry_fits :: "lsm_entry \<Rightarrow> bool" where
  "entry_fits e \<longleftrightarrow> fits32 (fst e) (fst (snd e))"

definition entry_size :: "lsm_entry \<Rightarrow> nat" where
  "entry_size e = 9 + length (fst e) + length (fst (snd e))"

lemma length_entry_header: "length (entry_header e) = 9"
  by (cases e) (simp add: entry_header_def)

lemma length_entry_bytes: "length (entry_bytes e) = entry_size e"
  by (simp add: entry_bytes_def entry_size_def length_entry_header)

lemma entry_header_fields:
  "le_word (take 4 (entry_header (k, v, d))) = (word_of_nat (length k) :: u32)"
  "le_word (take 4 (drop 4 (entry_header (k, v, d)))) = (word_of_nat (length v) :: u32)"
  "entry_header (k, v, d) ! 8 = (if d then 1 else 0)"
  by (simp_all add: entry_header_def le_word_bytes nth_append)

lemma unat_fits: "n < 2 ^ 32 \<Longrightarrow> unat (word_of_nat n :: u32) = n"
  by (simp add: unat_of_nat take_bit_nat_eq_self)

lemma unat_fits_sum: "m + n < 2 ^ 32 \<Longrightarrow> unat (word_of_nat m + word_of_nat n :: u32) = m + n"
  using unat_fits[of "m + n"] by simp

lemma scan_entry:
  assumes "entry_fits (k, v, d)"
  shows "sst_scan (Suc n) key (entry_bytes (k, v, d) @ rest) =
    (if k = key then Some (if d then ('''', False, True) else (v, True, False))
     else if k > key then Some ('''', False, False) else sst_scan n key rest)"
proof -
  let ?r = "entry_bytes (k, v, d) @ rest" and ?h = "entry_header (k, v, d)"
  have h: "take 9 ?r = ?h" "drop 9 ?r = bytes_of k @ bytes_of v @ rest" "\<not> length ?r < 9"
    by (simp_all add: entry_bytes_def length_entry_header)
  have u: "unat (word_of_nat (length k) :: u32) = length k"
    "unat (word_of_nat (length k) + word_of_nat (length v) :: u32) = length k + length v"
    using assms unat_fits[of "length k"] unat_fits_sum by (simp_all add: entry_fits_def)
  have t: "take (length k + length v) (bytes_of k @ bytes_of v @ rest) = bytes_of k @ bytes_of v"
    "drop (length k + length v) (bytes_of k @ bytes_of v @ rest) = rest"
    by simp_all
  show ?thesis
    unfolding sst_scan.simps(2)[of n key ?r] h Let_def entry_header_fields u t
    using h(3) by simp
qed

lemma scan_entries:
  assumes "sorted_keys es" and "\<forall>e \<in> set es. entry_fits e"
  shows "sst_scan n key (concat (map entry_bytes es)) = Some (look (take n es) key)"
  using assms
proof (induction n arbitrary: es)
  case (Suc n)
  show ?case
  proof (cases es)
    case (Cons e es')
    obtain k v d where e: "e = (k, v, d)" by (cases e)
    have "map_of (take n es') key = None" if "k > key"
      using Suc.prems(1) that Cons e by (intro map_of_miss) (auto dest!: in_set_takeD)
    moreover have "sst_scan n key (concat (map entry_bytes es')) = Some (look (take n es') key)"
      using Suc Cons by simp
    ultimately show ?thesis
      using Suc.prems(2) Cons e scan_entry[of k v d n key "concat (map entry_bytes es')"]
      by (auto simp: look_def)
  qed (simp add: look_def)
qed (simp add: look_def)

subsection \<open>The sparse index\<close>

abbreviation offset_of :: "lsm_entry list \<Rightarrow> nat \<Rightarrow> nat" where
  "offset_of es j \<equiv> length (concat (map entry_bytes (take j es)))"

lemma flush_loop_out: "snd (flush_loop i off es) = concat (map entry_bytes es)"
  by (induction i off es rule: flush_loop.induct) (auto simp: Let_def split: prod.splits)

lemma flush_loop_snoc:
  "fst (flush_loop i off (es @ [e])) = fst (flush_loop i off es) @
     (if (i + length es) mod indexInterval = 0 then [(fst e, off + length (concat (map entry_bytes es)))] else [])"
  by (induction i off es rule: flush_loop.induct)
    (auto simp: Let_def length_entry_bytes entry_size_def split: prod.splits)

abbreviation index_entry :: "lsm_entry list \<Rightarrow> nat \<Rightarrow> string \<times> nat" where
  "index_entry es j \<equiv> (fst (es ! (16 * j)), offset_of es (16 * j))"

lemma blocks_Suc:
  "n mod 16 = 0 \<Longrightarrow> (Suc n + 15) div 16 = Suc ((n + 15) div 16) \<and> 16 * ((n + 15) div 16) = n"
  "n mod 16 \<noteq> 0 \<Longrightarrow> (Suc n + 15) div 16 = (n + 15) div (16 :: nat)"
proof -
  define q r where qr: "q = n div 16" "r = n mod 16"
  then have n: "n = 16 * q + r" "r < 16" by simp_all
  show "n mod 16 = 0 \<Longrightarrow> (Suc n + 15) div 16 = Suc ((n + 15) div 16) \<and> 16 * ((n + 15) div 16) = n"
    using n by (simp add: qr(2)[symmetric])
  show "n mod 16 \<noteq> 0 \<Longrightarrow> (Suc n + 15) div 16 = (n + 15) div 16"
    using n by (cases r) (simp_all add: qr(2)[symmetric])
qed

lemma flush_loop_index:
  "fst (flush_loop 0 0 es) = map (index_entry es) [0..<(length es + 15) div 16]"
proof (induction es rule: rev_induct)
  case (snoc e es)
  have "16 * j < length es" if "j < (length es + 15) div 16" for j using that by linarith
  then have old: "map (index_entry (es @ [e])) [0..<(length es + 15) div 16] = map (index_entry es) [0..<(length es + 15) div 16]"
    by (auto simp: nth_append)
  note step = flush_loop_snoc[of 0 0 es e] snoc.IH old
  show ?case
  proof (cases "length es mod 16 = 0")
    case True
    with blocks_Suc(1)[OF True] step show ?thesis by (simp add: indexInterval_def)
  next
    case False
    with blocks_Suc(2)[OF False] step show ?thesis by (simp add: indexInterval_def)
  qed
qed simp

lemma concat_drop: "drop (offset_of es j) (concat (map entry_bytes es)) = concat (map entry_bytes (drop j es))"
proof -
  have "concat (map entry_bytes es) = concat (map entry_bytes (take j es)) @ concat (map entry_bytes (drop j es))"
    by (metis append_take_drop_id concat_append map_append)
  then show ?thesis by simp
qed

lemma look_drop: "sorted_keys es \<Longrightarrow> j < length es \<Longrightarrow> fst (es ! j) \<le> key \<Longrightarrow> look (drop j es) key = look es key"
proof -
  assume s: "sorted_keys es" and j: "j < length es" and k: "fst (es ! j) \<le> key"
  have "fst a \<noteq> key" if "a \<in> set (take j es)" for a
    using that s k j by (fastforce simp: in_set_conv_nth sorted_wrt_iff_nth_less)
  then have "map_of (take j es) key = None" by (rule map_of_miss)
  moreover have "map_of es = map_of (drop j es) ++ map_of (take j es)"
    using map_of_append[of "take j es" "drop j es"] by simp
  ultimately have "map_of (drop j es) key = map_of es key"
    by (metis map_add_None map_add_dom_app_simps(3) domIff)
  then show ?thesis by (simp add: look_def)
qed

lemma look_take: "sorted_keys es \<Longrightarrow> (j < length es \<Longrightarrow> key < fst (es ! j)) \<Longrightarrow> look (take j es) key = look es key"
proof (cases "j < length es")
  case True
  assume s: "sorted_keys es" and k: "j < length es \<Longrightarrow> key < fst (es ! j)"
  have "fst a \<noteq> key" if a: "a \<in> set (drop j es)" for a
  proof -
    obtain i where i: "i < length es - j" "a = es ! (j + i)"
      using a True by (auto simp: in_set_conv_nth)
    have "fst (es ! j) \<le> fst a"
      using s i True by (cases i) (auto simp: sorted_wrt_iff_nth_less intro: less_imp_le)
    with k[OF True] show ?thesis by auto
  qed
  then have "map_of (drop j es) key = None" by (rule map_of_miss)
  moreover have "map_of es = map_of (drop j es) ++ map_of (take j es)"
    using map_of_append[of "take j es" "drop j es"] by simp
  ultimately have "map_of (take j es) key = map_of es key" by (simp add: map_add_def split: option.splits)
  then show ?thesis by (simp add: look_def)
qed (simp add: look_def)

definition table_ok :: "fs \<Rightarrow> SSTable \<Rightarrow> lsm_entry list \<Rightarrow> bool" where
  "table_ok fs t es \<longleftrightarrow> es \<noteq> [] \<and> sorted_keys es \<and> (\<forall>e \<in> set es. entry_fits e) \<and>
     fs (t_path t) = Some (concat (map entry_bytes es)) \<and> t_index t = fst (flush_loop 0 0 es) \<and>
     t_minKey t = fst (hd es) \<and> t_maxKey t = fst (last es) \<and> t_count t = length es \<and> t_interval t = indexInterval"

lemma sst_Get_ok:
  assumes ok: "table_ok fs t es"
  shows "sst_Get fs t key = Some (Inr (look es key))"
proof -
  have es: "es \<noteq> []" "sorted_keys es" "\<forall>e \<in> set es. entry_fits e" using ok by (simp_all add: table_ok_def)
  have mono: "fst (es ! i) \<le> fst (es ! j)" if "i \<le> j" "j < length es" for i j
    using es(2) that by (cases "i = j") (auto simp: sorted_wrt_iff_nth_less intro: less_imp_le)
  have range: "fst (hd es) \<le> fst e \<and> fst e \<le> fst (last es)" if e: "e \<in> set es" for e
  proof -
    obtain i where "i < length es" "e = es ! i" using e by (auto simp: in_set_conv_nth)
    with mono[of 0 i] mono[of i "length es - 1"] es(1) show ?thesis by (simp add: hd_conv_nth last_conv_nth)
  qed
  show ?thesis
  proof (cases "key < t_minKey t \<or> key > t_maxKey t")
    case True
    then have "map_of es key = None" using range ok by (intro map_of_miss) (fastforce simp: table_ok_def)
    then show ?thesis using True by (simp add: sst_Get_def look_def)
  next
    case False
    define n where "n = (length es + 15) div 16"
    have index: "length (t_index t) = n" "\<And>j. j < n \<Longrightarrow> t_index t ! j = index_entry es j"
      using ok by (simp_all add: table_ok_def flush_loop_index n_def)
    have in_range: "16 * j < length es" if "j < n" for j using that unfolding n_def by linarith
    define i where "i = go_Search n (\<lambda>j. key < fst (t_index t ! j))"
    have up: "key < fst (t_index t ! y)" if "x \<le> y" "y < n" "key < fst (t_index t ! x)" for x y
      using that index(2)[of x] index(2)[of y] mono[of "16 * x" "16 * y"] in_range[of y] by auto
    note spec = go_Search_spec[of n "\<lambda>j. key < fst (t_index t ! j)", folded i_def]
    have i: "i \<le> n" "\<And>x. x < i \<Longrightarrow> \<not> key < fst (t_index t ! x)" "\<And>x. i \<le> x \<Longrightarrow> x < n \<Longrightarrow> key < fst (t_index t ! x)"
      by ((rule spec; (assumption | erule (2) up))+)
    have "i \<noteq> 0"
    proof
      assume "i = 0"
      moreover have "0 < n" using es(1) unfolding n_def by (cases es) auto
      ultimately have "key < fst (hd es)" using i(3)[of 0] index(2)[of 0] es(1) by (simp add: hd_conv_nth)
      with False ok show False by (simp add: table_ok_def)
    qed
    define s where "s = 16 * (i - 1)"
    have s: "s < length es" "fst (es ! s) \<le> key"
      using in_range[of "i - 1"] i(1) i(2)[of "i - 1"] index(2)[of "i - 1"] \<open>i \<noteq> 0\<close> by (auto simp: s_def)
    have start: "snd (t_index t ! (i - 1)) = offset_of es s" using index(2)[of "i - 1"] i(1) \<open>i \<noteq> 0\<close> by (simp add: s_def)
    have sub: "sorted_keys (drop s es)" "\<forall>e \<in> set (drop s es). entry_fits e"
      using es(2,3) by (auto simp: drop_map[symmetric] sorted_wrt_drop dest: in_set_dropD)
    have "key < fst (drop s es ! 17)" if "17 < length (drop s es)"
    proof -
      have "16 * i < length es" using that \<open>i \<noteq> 0\<close> unfolding s_def by (cases i) auto
      then have "i < n" unfolding n_def by linarith
      then have "key < fst (es ! (16 * i))" using i(3)[of i] index(2)[of i] by simp
      moreover have "fst (es ! (16 * i)) \<le> fst (es ! (s + 17))"
        using that \<open>i \<noteq> 0\<close> by (intro mono) (auto simp: s_def)
      ultimately show ?thesis using that by simp
    qed
    then have "look (take 17 (drop s es)) key = look (drop s es) key" by (rule look_take[OF sub(1)])
    also have "\<dots> = look es key" by (rule look_drop[OF es(2) s])
    finally have "sst_scan 17 key (concat (map entry_bytes (drop s es))) = Some (look es key)"
      using scan_entries[OF sub] by simp
    moreover have "drop (offset_of es s) (concat (map entry_bytes es)) = concat (map entry_bytes (drop s es))"
      by (rule concat_drop)
    moreover have "fs (t_path t) = Some (concat (map entry_bytes es))" "t_interval t + 1 = 17"
      using ok by (simp_all add: table_ok_def indexInterval_def)
    ultimately show ?thesis using False \<open>i \<noteq> 0\<close> start
      unfolding sst_Get_def index(1) i_def[symmetric] Let_def by simp
  qed
qed

lemma mt_Get_look: "mt_rep m ns \<Longrightarrow> mt_Get m key = Some (look (mt_abs (m_nodes m) ns) key)"
  by (simp add: mt_Get_rep look_def)

lemma mt_Len_abs: "mt_rep m ns \<Longrightarrow> mt_Len m = int (length (mt_abs (m_nodes m) ns))"
  by (simp add: mt_rep_def mt_Len_def mt_abs_def)

lemma sst_Flush_ok:
  assumes rep: "mt_rep m ns" and es: "es = mt_abs (m_nodes m) ns" "es \<noteq> []" and fit: "\<forall>e \<in> set es. entry_fits e"
  obtains (written) t where "sst_Flush io m path fs = Some (Inr t, fs(path \<mapsto> concat (map entry_bytes es)))"
      "io = IoOk" "t_path t = path" "table_ok (fs(path \<mapsto> concat (map entry_bytes es))) t es"
  | (failed) fs' where "sst_Flush io m path fs = Some (Inl (IoError io), fs')" "io \<noteq> IoOk" "\<And>q. q \<noteq> path \<Longrightarrow> fs' q = fs q"
proof -
  note entries = mt_Entries_rep[OF rep, folded es(1)]
  obtain index where fl: "flush_loop 0 0 es = (index, concat (map entry_bytes es))"
    by (metis flush_loop_out surj_pair snd_conv)
  show ?thesis
  proof (cases io)
    case IoOk
    show ?thesis
      by (rule written) (use entries es(2) fl IoOk fit sorted_mt_abs[OF rep, folded es(1)]
        in \<open>auto simp: sst_Flush_def table_ok_def hd_conv_nth last_conv_nth\<close>)
  next
    case (WriteFails n)
    have "sst_Flush io m path fs = Some (Inl (IoError io), fs(path \<mapsto> take n (concat (map entry_bytes es))))"
      using entries es(2) fl WriteFails by (simp add: sst_Flush_def)
    then show ?thesis using WriteFails by (auto intro: failed)
  next
    case SyncFails
    have "sst_Flush io m path fs = Some (Inl (IoError io), fs(path \<mapsto> concat (map entry_bytes es)))"
      using entries es(2) fl SyncFails by (simp add: sst_Flush_def)
    then show ?thesis using SyncFails by (auto intro: failed)
  qed (rule failed; use entries es(2) fl in \<open>simp add: sst_Flush_def\<close>)+
qed

subsection \<open>What the tree holds\<close>

text \<open>Layers of runs, newest first: the first run with the key answers, a tombstone too.\<close>

fun layered :: "lsm_entry list list \<Rightarrow> string \<rightharpoonup> string" where
  "layered [] k = None"
| "layered (es # ess) k =
     (case map_of es k of None \<Rightarrow> layered ess k | Some (v, d) \<Rightarrow> if d then None else Some v)"

definition lsm_rep :: "LSMTree \<Rightarrow> nat list \<Rightarrow> lsm_entry list list \<Rightarrow> bool" where
  "lsm_rep l ns ess \<longleftrightarrow>
     mt_rep (l_mem l) ns \<and> (\<forall>e \<in> set (mt_abs (m_nodes (l_mem l)) ns). entry_fits e) \<and>
     length ess = length (l_tables l) \<and> l_flushCounter l = length (l_tables l) \<and>
     (\<forall>i < length ess. table_ok (l_fs l) (l_tables l ! i) (ess ! i) \<and> t_path (l_tables l ! i) = sst_name i)"

definition lsm_holds :: "LSMTree \<Rightarrow> (string \<rightharpoonup> string) \<Rightarrow> bool" where
  "lsm_holds l m \<longleftrightarrow> (\<exists>ns ess. lsm_rep l ns ess \<and> layered (mt_abs (m_nodes (l_mem l)) ns # rev ess) = m)"

abbreviation answer :: "string option \<Rightarrow> string \<times> bool" where
  "answer r \<equiv> (case r of Some v \<Rightarrow> (v, True) | None \<Rightarrow> ('''', False))"

lemma sst_name_inj: "sst_name i = sst_name j \<Longrightarrow> i = j"
  by (simp add: sst_name_def padded_inj)

lemma get_tables_ok:
  "list_all2 (table_ok fs) ts ess \<Longrightarrow> get_tables fs key ts = Some (Inr (answer (layered ess key)))"
  by (induction rule: list_all2_induct) (auto simp: sst_Get_ok look_def split: option.splits)

lemma LSM_Get_holds:
  assumes "lsm_holds l m"
  shows "LSM_Get l key = Some (Inr (answer (m key)))"
proof -
  obtain ns ess where rep: "lsm_rep l ns ess" and m: "layered (mt_abs (m_nodes (l_mem l)) ns # rev ess) = m"
    using assms by (auto simp: lsm_holds_def)
  have "list_all2 (table_ok (l_fs l)) (l_tables l) ess"
    using rep by (simp add: lsm_rep_def list_all2_conv_all_nth)
  then have "list_all2 (table_ok (l_fs l)) (rev (l_tables l)) (rev ess)" by simp
  from get_tables_ok[OF this] show ?thesis
    using mt_Get_look[of "l_mem l" ns key] rep m[symmetric]
    by (auto simp: LSM_Get_def lsm_rep_def look_def split: option.splits)
qed

lemma layered_put:
  "sorted_keys es \<Longrightarrow> layered (put_list k (v, d) es # ess) = (layered (es # ess))(k := if d then None else Some v)"
  by (auto simp: fun_eq_iff map_of_put_list)

lemma set_put_list: "set (put_list k v xs) \<subseteq> insert (k, v) (set xs)"
  by (induction k v xs rule: put_list.induct) auto

lemma holds_insert:
  assumes "lsm_holds l m" and "fits32 k v"
  obtains mem where "mt_insert low k v d (l_mem l) = Some mem"
    "lsm_holds (l\<lparr>l_mem := mem\<rparr>) (m(k := if d then None else Some v))"
proof -
  obtain ns ess where rep: "lsm_rep l ns ess" and m: "layered (mt_abs (m_nodes (l_mem l)) ns # rev ess) = m"
    using assms by (auto simp: lsm_holds_def)
  then have mt: "mt_rep (l_mem l) ns" by (simp add: lsm_rep_def)
  obtain mem ns' where mem: "mt_insert low k v d (l_mem l) = Some mem" "mt_rep mem ns'"
    "mt_abs (m_nodes mem) ns' = put_list k (v, d) (mt_abs (m_nodes (l_mem l)) ns)"
    using mt_insert_rep[OF mt] by metis
  have fit: "\<forall>e \<in> set (mt_abs (m_nodes mem) ns'). entry_fits e"
    using rep assms(2) set_put_list[of k "(v, d)"] by (fastforce simp: mem(3) lsm_rep_def entry_fits_def)
  have "lsm_rep (l\<lparr>l_mem := mem\<rparr>) ns' ess" using rep mem(2) fit by (simp add: lsm_rep_def)
  moreover have "layered (mt_abs (m_nodes mem) ns' # rev ess) = m(k := if d then None else Some v)"
    unfolding mem(3) by (subst layered_put[OF sorted_mt_abs[OF mt]]) (simp only: m)
  ultimately show ?thesis using mem(1) that by (auto simp: lsm_holds_def)
qed

lemma holds_flush:
  assumes "lsm_holds l m"
  obtains e l' where "flushLocked io l = Some (e, l')" "lsm_holds l' m" "io = IoOk \<Longrightarrow> e = None"
    "l_flushBytes l' = l_flushBytes l"
proof -
  obtain ns ess where rep: "lsm_rep l ns ess" and m: "layered (mt_abs (m_nodes (l_mem l)) ns # rev ess) = m"
    using assms by (auto simp: lsm_holds_def)
  define es where "es = mt_abs (m_nodes (l_mem l)) ns"
  have mt: "mt_rep (l_mem l) ns" and fit: "\<forall>e \<in> set es. entry_fits e" using rep by (simp_all add: lsm_rep_def es_def)
  have other: "sst_name i \<noteq> sst_name (l_flushCounter l)" if "i < length ess" for i
    using that rep sst_name_inj by (auto simp: lsm_rep_def)
  have keep: "table_ok fs' t xs" if "table_ok fs t xs" "fs' (t_path t) = fs (t_path t)" for fs fs' t xs
    using that by (simp add: table_ok_def)
  show ?thesis
  proof (cases "es = []")
    case True
    then have "flushLocked io l = Some (None, l)" using mt_Len_abs[OF mt] by (simp add: flushLocked_def es_def)
    with assms that show ?thesis by blast
  next
    case False
    then have len: "mt_Len (l_mem l) \<noteq> 0" using mt_Len_abs[OF mt] by (simp add: es_def)
    show ?thesis
    proof (rule sst_Flush_ok[OF mt es_def False fit, of io "sst_name (l_flushCounter l)" "l_fs l"])
      fix t
      let ?fs = "(l_fs l)(sst_name (l_flushCounter l) \<mapsto> concat (map entry_bytes es))"
      assume t: "sst_Flush io (l_mem l) (sst_name (l_flushCounter l)) (l_fs l) = Some (Inr t, ?fs)" "io = IoOk"
        "t_path t = sst_name (l_flushCounter l)" "table_ok ?fs t es"
      define l' where "l' = l\<lparr>l_fs := ?fs, l_flushCounter := l_flushCounter l + 1, l_tables := l_tables l @ [t], l_mem := NewMemtable\<rparr>"
      have "table_ok ?fs ((l_tables l @ [t]) ! i) ((ess @ [es]) ! i) \<and> t_path ((l_tables l @ [t]) ! i) = sst_name i"
        if "i < length (ess @ [es])" for i
      proof (cases "i < length ess")
        case True
        then have "table_ok (l_fs l) (l_tables l ! i) (ess ! i)" "t_path (l_tables l ! i) = sst_name i" "i < length (l_tables l)"
          using rep by (simp_all add: lsm_rep_def)
        with True other[OF True] keep[of "l_fs l" "l_tables l ! i" "ess ! i" ?fs] show ?thesis by (simp add: nth_append)
      next
        case False
        then have "(ess @ [es]) ! i = es" "(l_tables l @ [t]) ! i = t" "i = l_flushCounter l"
          using that rep by (simp_all add: lsm_rep_def nth_append)
        with t(3,4) show ?thesis by simp
      qed
      then have "lsm_rep l' [] (ess @ [es])"
        using rep by (simp add: lsm_rep_def l'_def mt_rep_New mt_abs_def)
      moreover have "layered (mt_abs (m_nodes (l_mem l')) [] # rev (ess @ [es])) = m"
        using m by (simp add: mt_abs_def es_def fun_eq_iff)
      ultimately have "lsm_holds l' m" unfolding lsm_holds_def by blast
      moreover have "flushLocked io l = Some (None, l')" using len t(1) by (simp add: flushLocked_def l'_def Let_def)
      ultimately show ?thesis using that[of None l'] by (simp add: l'_def)
    next
      fix fs' assume f: "sst_Flush io (l_mem l) (sst_name (l_flushCounter l)) (l_fs l) = Some (Inl (IoError io), fs')"
        "io \<noteq> IoOk" "\<And>q. q \<noteq> sst_name (l_flushCounter l) \<Longrightarrow> fs' q = l_fs l q"
      have "table_ok fs' (l_tables l ! i) (ess ! i)" if "i < length ess" for i
      proof (rule keep)
        show "table_ok (l_fs l) (l_tables l ! i) (ess ! i)" using rep that by (simp add: lsm_rep_def)
        have "t_path (l_tables l ! i) = sst_name i" using rep that by (simp add: lsm_rep_def)
        then show "fs' (t_path (l_tables l ! i)) = l_fs l (t_path (l_tables l ! i))" using f(3) other[OF that] by simp
      qed
      then have "lsm_rep (l\<lparr>l_fs := fs'\<rparr>) ns ess" using rep by (simp add: lsm_rep_def)
      then have "lsm_holds (l\<lparr>l_fs := fs'\<rparr>) m" using m unfolding lsm_holds_def by auto
      moreover have "flushLocked io l = Some (Some (IoError io), l\<lparr>l_fs := fs'\<rparr>)" using len f(1) by (simp add: flushLocked_def Let_def)
      ultimately show ?thesis using that f(2) by simp
    qed
  qed
qed

lemma holds_maybeFlush:
  assumes "lsm_holds l m"
  obtains e l' where "maybeFlush io l = Some (e, l')" "lsm_holds l' m" "io = IoOk \<Longrightarrow> e = None"
  using holds_flush[OF assms, of io] assms unfolding maybeFlush_def by metis

lemma holds_Put:
  assumes "lsm_holds l m" and "fits32 k v"
  obtains e l' where "LSM_Put low io k v l = Some (e, l')" "lsm_holds l' (m(k \<mapsto> v))" "io = IoOk \<Longrightarrow> e = None"
proof -
  obtain mem where mem: "mt_Put low k v (l_mem l) = Some mem" "lsm_holds (l\<lparr>l_mem := mem\<rparr>) (m(k \<mapsto> v))"
    using holds_insert[OF assms, of low False] by (auto simp: mt_Put_def)
  from holds_maybeFlush[OF mem(2), of io] show ?thesis
    using that mem(1) by (auto simp: LSM_Put_def)
qed

lemma holds_Delete:
  assumes "lsm_holds l m" and "fits32 k ''''"
  obtains e l' where "LSM_Delete low io k l = Some (e, l')" "lsm_holds l' (m(k := None))" "io = IoOk \<Longrightarrow> e = None"
proof -
  obtain mem where mem: "mt_Delete low k (l_mem l) = Some mem" "lsm_holds (l\<lparr>l_mem := mem\<rparr>) (m(k := None))"
    using holds_insert[OF assms, of low True] by (auto simp: mt_Delete_def)
  from holds_maybeFlush[OF mem(2), of io] show ?thesis
    using that mem(1) by (auto simp: LSM_Delete_def)
qed

lemma holds_New: "lsm_holds (NewLSMTree n dir) Map.empty"
proof -
  have "lsm_rep (NewLSMTree n dir) [] []"
    by (simp add: lsm_rep_def NewLSMTree_def mt_rep_New mt_abs_def)
  then show ?thesis unfolding lsm_holds_def
    by (intro exI[of _ "[]"] conjI) (simp_all add: mt_abs_def fun_eq_iff)
qed

text \<open>The tree is a store with deletion, whatever the file system does.\<close>

definition lsm_content :: "LSMTree \<Rightarrow> string \<rightharpoonup> string" where
  "lsm_content l k = (case LSM_Get l k of Some (Inr (v, True)) \<Rightarrow> Some v | _ \<Rightarrow> None)"

definition lsm_put :: "(nat \<Rightarrow> bool) \<Rightarrow> io \<Rightarrow> string \<Rightarrow> string \<Rightarrow> LSMTree \<Rightarrow> LSMTree option" where
  "lsm_put low io k v l = map_option snd (LSM_Put low io k v l)"

definition lsm_del :: "(nat \<Rightarrow> bool) \<Rightarrow> io \<Rightarrow> string \<Rightarrow> LSMTree \<Rightarrow> LSMTree option" where
  "lsm_del low io k l = map_option snd (LSM_Delete low io k l)"

definition lsm_get :: "LSMTree \<Rightarrow> string \<Rightarrow> (string \<times> bool) option" where
  "lsm_get l k = do { r \<leftarrow> LSM_Get l k; case r of Inl _ \<Rightarrow> None | Inr a \<Rightarrow> Some a }"

lemma content_holds: "lsm_holds l m \<Longrightarrow> lsm_content l = m"
  by (auto simp: lsm_content_def LSM_Get_holds fun_eq_iff split: option.splits)

interpretation lsm: kv_delete_store "lsm_put low io" lsm_get lsm_content "\<lambda>l. \<exists>m. lsm_holds l m" fits32 "lsm_del low io"
  for low :: "nat \<Rightarrow> bool" and io :: io
proof
  fix l :: LSMTree and k v :: string
  assume "\<exists>m. lsm_holds l m"
  then obtain m where m: "lsm_holds l m" ..
  show "\<exists>s'. lsm_put low io k v l = Some s' \<and> (\<exists>m. lsm_holds s' m) \<and> lsm_content s' = (lsm_content l)(k \<mapsto> v)"
    if "fits32 k v"
    by (rule holds_Put[OF m that, of low io]) (auto simp: lsm_put_def content_holds[OF m] content_holds)
  show "\<exists>s'. lsm_del low io k l = Some s' \<and> (\<exists>m. lsm_holds s' m) \<and> lsm_content s' = (lsm_content l)(k := None)"
    if "fits32 k ''''"
    by (rule holds_Delete[OF m that, of low io]) (auto simp: lsm_del_def content_holds[OF m] content_holds)
  show "lsm_get l k = Some (answer (lsm_content l k))"
    by (simp add: lsm_get_def LSM_Get_holds[OF m] content_holds[OF m])
qed

datatype lsm_op = LPut string string io | LDelete string io | LFlush io

fun lsm_step :: "(nat \<Rightarrow> bool) \<Rightarrow> lsm_op \<Rightarrow> LSMTree \<Rightarrow> (lsm_error option \<times> LSMTree) option" where
  "lsm_step low (LPut k v io) l = LSM_Put low io k v l"
| "lsm_step low (LDelete k io) l = LSM_Delete low io k l"
| "lsm_step low (LFlush io) l = LSM_Flush io l"

fun lsm_run :: "(nat \<Rightarrow> bool) \<Rightarrow> lsm_op list \<Rightarrow> LSMTree \<Rightarrow> LSMTree option" where
  "lsm_run low [] l = Some l"
| "lsm_run low (op # ops) l = do { (_, l1) \<leftarrow> lsm_step low op l; lsm_run low ops l1 }"

fun lsm_apply :: "lsm_op \<Rightarrow> (string \<rightharpoonup> string) \<Rightarrow> (string \<rightharpoonup> string)" where
  "lsm_apply (LPut k v io) m = m(k \<mapsto> v)"
| "lsm_apply (LDelete k io) m = m(k := None)"
| "lsm_apply (LFlush io) m = m"

fun lsm_op_fits :: "lsm_op \<Rightarrow> bool" where
  "lsm_op_fits (LPut k v io) \<longleftrightarrow> fits32 k v"
| "lsm_op_fits (LDelete k io) \<longleftrightarrow> fits32 k ''''"
| "lsm_op_fits (LFlush io) \<longleftrightarrow> True"

lemma lsm_holds_step:
  assumes "lsm_holds l m" and "lsm_op_fits op"
  obtains e l' where "lsm_step low op l = Some (e, l')" "lsm_holds l' (lsm_apply op m)"
proof (cases op)
  case (LPut k v io)
  show ?thesis by (rule holds_Put[OF assms(1), of k v low io]) (use assms(2) that LPut in auto)
next
  case (LDelete k io)
  show ?thesis by (rule holds_Delete[OF assms(1), of k low io]) (use assms(2) that LDelete in auto)
next
  case (LFlush io)
  show ?thesis by (rule holds_flush[OF assms(1), of io]) (use that LFlush in \<open>auto simp: LSM_Flush_def\<close>)
qed

lemma lsm_holds_run:
  "lsm_holds l m \<Longrightarrow> \<forall>op \<in> set ops. lsm_op_fits op \<Longrightarrow>
   \<exists>l'. lsm_run low ops l = Some l' \<and> lsm_holds l' (fold lsm_apply ops m)"
proof (induction ops arbitrary: l m)
  case (Cons op ops)
  then have op: "lsm_op_fits op" by simp
  obtain e l1 where "lsm_step low op l = Some (e, l1)" "lsm_holds l1 (lsm_apply op m)"
    by (rule lsm_holds_step[OF Cons.prems(1) op])
  with Cons show ?case by auto
qed auto

subsection \<open>Properties\<close>

text \<open>C7: the tree is a map.  After any operations, with any answers of the file system to the flushes among them, a
  \<open>Get\<close> returns the value put last under the key, or not found when there is none or it was deleted
  since; a failed flush loses nothing and no operation panics, provided that keys and values fit the
  32-bit lengths of the file format.\<close>

theorem lsm_get_last_write:
  assumes "\<forall>op \<in> set ops. lsm_op_fits op"
  shows "\<exists>l. lsm_run low ops (NewLSMTree flushBytes dir) = Some l \<and>
    LSM_Get l key = Some (Inr (answer (fold lsm_apply ops Map.empty key)))"
  using lsm_holds_run[OF holds_New assms] LSM_Get_holds by blast

lemma lsm_get_last_write_witness:
  "\<exists>l. lsm_run (\<lambda>n. even n) [LPut ''a'' ''1'' IoOk, LFlush (WriteFails 3), LDelete ''a'' SyncFails, LFlush IoOk]
      (NewLSMTree 0 Map.empty) = Some l \<and> LSM_Get l ''a'' = Some (Inr ('''', False))"
proof -
  have "fold lsm_apply [LPut ''a'' ''1'' IoOk, LFlush (WriteFails 3), LDelete ''a'' SyncFails, LFlush IoOk] Map.empty ''a'' = None"
    by simp
  then show ?thesis
    using lsm_get_last_write[of "[LPut ''a'' ''1'' IoOk, LFlush (WriteFails 3), LDelete ''a'' SyncFails, LFlush IoOk]"
        "\<lambda>n. even n" 0 Map.empty "''a''"] by simp
qed

text \<open>A sequence of insertions into a memtable: key, value, tombstone.\<close>

fun mt_run :: "(nat \<Rightarrow> bool) \<Rightarrow> lsm_entry list \<Rightarrow> Memtable \<Rightarrow> Memtable option" where
  "mt_run low [] m = Some m"
| "mt_run low ((k, v, d) # ws) m = do { m1 \<leftarrow> (if d then mt_Delete low k m else mt_Put low k v m); mt_run low ws m1 }"

fun written_entry :: "lsm_entry \<Rightarrow> lsm_entry" where
  "written_entry (k, v, d) = (k, if d then '''' else v, d)"

abbreviation put_entry :: "lsm_entry \<Rightarrow> lsm_entry list \<Rightarrow> lsm_entry list" where
  "put_entry w \<equiv> put_list (fst (written_entry w)) (snd (written_entry w))"

lemma mt_run_rep:
  "mt_rep m ns \<Longrightarrow> \<exists>m' ns'. mt_run low ws m = Some m' \<and> mt_rep m' ns' \<and>
     mt_abs (m_nodes m') ns' = fold put_entry ws (mt_abs (m_nodes m) ns)"
proof (induction ws arbitrary: m ns)
  case (Cons w ws)
  obtain k v d where w: "w = (k, v, d)" by (cases w)
  obtain m1 ns1 where m1: "mt_insert low k (if d then '''' else v) d m = Some m1" "mt_rep m1 ns1"
    "mt_abs (m_nodes m1) ns1 = put_list k (if d then '''' else v, d) (mt_abs (m_nodes m) ns)"
    by (rule mt_insert_rep[OF Cons.prems])
  then have "(if d then mt_Delete low k m else mt_Put low k v m) = Some m1"
    by (cases d) (simp_all add: mt_Delete_def mt_Put_def)
  with Cons.IH[OF m1(2)] m1(3) show ?case by (simp add: w)
qed auto

lemma fits_fold_put:
  assumes "\<forall>w \<in> set ws. entry_fits w" and "\<forall>e \<in> set es. entry_fits e"
  shows "\<forall>e \<in> set (fold put_entry ws es). entry_fits e"
  using assms
proof (induction ws arbitrary: es)
  case (Cons w ws)
  have "entry_fits (written_entry w)" using Cons.prems by (cases w) (auto simp: entry_fits_def)
  then have "\<forall>e \<in> set (put_entry w es). entry_fits e"
    using Cons.prems set_put_list[of "fst (written_entry w)" "snd (written_entry w)" es] by auto
  with Cons show ?case by simp
qed simp

lemma fold_put_nonempty: "es \<noteq> [] \<or> ws \<noteq> [] \<Longrightarrow> fold put_entry ws es \<noteq> []"
proof (induction ws arbitrary: es)
  case (Cons w ws)
  have "put_list k v es \<noteq> []" for k :: string and v :: "string \<times> bool" and es
    by (cases "(k, v, es)" rule: put_list.cases) auto
  with Cons show ?case by simp
qed simp

text \<open>C36: a table answers every lookup as the memtable it was written from, tombstones included, although it
  looks only at the one block of 16 entries its sparse index points to.\<close>

theorem sst_equals_memtable:
  assumes "\<forall>w \<in> set ws. entry_fits w" and "ws \<noteq> []"
  shows "\<exists>m t fs' r. mt_run low ws NewMemtable = Some m \<and> sst_Flush IoOk m path fs = Some (Inr t, fs') \<and>
    mt_Get m key = Some r \<and> sst_Get fs' t key = Some (Inr r) \<and>
    int (sst_Count t) = mt_Len m \<and> sst_IndexSize t = (sst_Count t + 15) div 16"
proof -
  obtain m ns where m: "mt_run low ws NewMemtable = Some m" "mt_rep m ns"
    and es: "mt_abs (m_nodes m) ns = fold put_entry ws []"
    using mt_run_rep[OF mt_rep_New, of low ws] by (auto simp: mt_abs_def)
  show ?thesis
  proof (rule sst_Flush_ok[OF m(2) es[symmetric], of IoOk path fs])
    show "fold put_entry ws [] \<noteq> []" using assms(2) by (simp add: fold_put_nonempty)
    show "\<forall>e \<in> set (fold put_entry ws []). entry_fits e" by (rule fits_fold_put[OF assms(1)]) simp
    fix t
    let ?fs = "fs(path \<mapsto> concat (map entry_bytes (fold put_entry ws [])))"
    assume t: "sst_Flush IoOk m path fs = Some (Inr t, ?fs)" "table_ok ?fs t (fold put_entry ws [])"
    have "sst_Get ?fs t key = Some (Inr (look (fold put_entry ws []) key))" by (rule sst_Get_ok[OF t(2)])
    moreover have "mt_Get m key = Some (look (fold put_entry ws []) key)" using mt_Get_look[OF m(2)] es by simp
    moreover have "int (sst_Count t) = mt_Len m" "sst_IndexSize t = (sst_Count t + 15) div 16"
      using t(2) mt_Len_abs[OF m(2)] es by (simp_all add: table_ok_def sst_Count_def sst_IndexSize_def flush_loop_index)
    ultimately show ?thesis using m(1) t(1) by blast
  qed simp
qed

lemma sst_equals_memtable_witness:
  "\<exists>m t fs' r. mt_run (\<lambda>n. False) [(''b'', ''2'', False), (''a'', ''1'', False), (''b'', '''', True)] NewMemtable = Some m \<and>
    sst_Flush IoOk m ''t'' Map.empty = Some (Inr t, fs') \<and> mt_Get m ''b'' = Some r \<and> sst_Get fs' t ''b'' = Some (Inr r) \<and>
    int (sst_Count t) = mt_Len m \<and> sst_IndexSize t = (sst_Count t + 15) div 16"
  by (rule sst_equals_memtable) (simp_all add: entry_fits_def)

text \<open>The memtable stays sorted and its accounts exact: after any insertions \<open>Entries\<close> are in strictly ascending
  order of the key, \<open>Len\<close> is their number and \<open>Bytes\<close> the bytes of their keys and values, and no
  insertion panics, whatever levels the random generator gives.\<close>

theorem memtable_sorted:
  "\<exists>m es. mt_run low ws NewMemtable = Some m \<and> mt_Entries m = Some es \<and> sorted_keys es \<and>
    fst ` set es = fst ` set ws \<and> mt_Len m = int (length es) \<and>
    mt_Bytes m = (\<Sum>e \<leftarrow> es. int (length (fst e)) + int (length (fst (snd e))))"
proof -
  obtain m ns where m: "mt_run low ws NewMemtable = Some m" "mt_rep m ns"
    and es: "mt_abs (m_nodes m) ns = fold put_entry ws []"
    using mt_run_rep[OF mt_rep_New, of low ws] by (auto simp: mt_abs_def)
  have "fst ` set (fold put_entry ws xs) = fst ` set xs \<union> fst ` set ws" for xs
    by (induction ws arbitrary: xs) auto
  then have keys: "fst ` set (mt_abs (m_nodes m) ns) = fst ` set ws" unfolding es by simp
  have "mt_Bytes m = (\<Sum>e \<leftarrow> mt_abs (m_nodes m) ns. int (length (fst e)) + int (length (fst (snd e))))"
    using m(2) by (simp add: mt_rep_def mt_Bytes_def mt_abs_def sk_entry_def comp_def sk_size_def[abs_def])
  with m mt_Entries_rep[OF m(2)] sorted_mt_abs[OF m(2)] keys mt_Len_abs[OF m(2)] show ?thesis by blast
qed

end
