(* ===== verification/SstRead.thy ===== *)
theory SstRead
  imports LSM
begin

text \<open>
  The reads of a table scan (\<open>readFull\<close> in \<^verbatim>\<open>code/lsm_memtable/lsm.go\<close>).  A \<open>bufio.Reader\<close> may return fewer bytes than it is asked for;
  it is modelled by the pieces in which it happens to deliver the file, which end with \<open>io.EOF\<close>.  The scan of \<^verbatim>\<open>LSM\<close>, which
  takes its bytes from the contents of the file, is shown to be the scan over any such reader.
\<close>

type_synonym pieces = "byte list list"

text \<open>One \<open>Read\<close> of at most \<open>n\<close> bytes: the bytes, and whether there was an error.\<close>

fun Read :: "nat \<Rightarrow> pieces \<Rightarrow> byte list \<times> bool \<times> pieces" where
  "Read n [] = ([], True, [])"
| "Read n (p # ps) = (if length p \<le> n then (p, False, ps) else (take n p, False, drop n p # ps))"

lemma Read_progress: "n \<noteq> 0 \<Longrightarrow> Read n r = (m, False, r1) \<Longrightarrow> n - length m + length r1 < n + length r"
  by (cases r) (auto split: if_splits)

text \<open>\<open>readFull r buf\<close> for a buffer of \<open>n\<close> bytes; a piece may be empty, as \<open>Read\<close> may return no bytes and no error.\<close>

function readFull :: "nat \<Rightarrow> pieces \<Rightarrow> byte list \<times> bool \<times> pieces" where
  "readFull n r =
     (if n = 0 then ([], False, r)
      else case Read n r of (m, err, r1) \<Rightarrow>
        if err then (m, True, r1)
        else case readFull (n - length m) r1 of (m', err', r2) \<Rightarrow> (m @ m', err', r2))"
  by auto
termination
  by (relation "measure (\<lambda>(n, r). n + length r)") (auto intro: Read_progress[OF _ sym])

declare readFull.simps [simp del]

text \<open>However the bytes arrive, the buffer is filled with the bytes that come next and the rest is left, or there is an error because the file ends
  before.\<close>

lemma readFull_spec:
  "\<exists>r'. readFull n r = (take n (concat r), length (concat r) < n, r') \<and> concat r' = drop n (concat r)"
proof (induction n r rule: readFull.induct)
  case (1 n r)
  show ?case
  proof (cases "n = 0")
    case True
    show ?thesis unfolding True by (simp add: readFull.simps[of 0])
  next
    case False
    show ?thesis
    proof (cases r)
      case Nil
      then show ?thesis using False by (simp add: readFull.simps[of n "[]"])
    next
      case (Cons p ps)
      show ?thesis
      proof (cases "length p \<le> n")
        case True
        then obtain r' where "readFull (n - length p) ps =
            (take (n - length p) (concat ps), length (concat ps) < n - length p, r')" "concat r' = drop (n - length p) (concat ps)"
          using 1[OF False, of p "(False, ps)" False ps] Cons by auto
        then show ?thesis using True False Cons by (simp add: readFull.simps[of n "p # ps"] less_diff_conv add.commute)
      next
        case short: False
        then show ?thesis using False Cons by (simp add: readFull.simps[of n "p # ps"] readFull.simps[of 0])
      qed
    qed
  qed
qed

text \<open>The scan of \<open>SSTable.Get\<close> as it reads: the header, then the body the header announces.\<close>

fun scan_reader :: "nat \<Rightarrow> string \<Rightarrow> pieces \<Rightarrow> (string \<times> bool \<times> bool) option" where
  "scan_reader 0 key r = Some ('''', False, False)"
| "scan_reader (Suc n) key r =
     (case readFull 9 r of (header, err, r1) \<Rightarrow>
        if err then Some ('''', False, False)
        else
          let keyLen = (le_word (take 4 header) :: u32);
              valLen = (le_word (take 4 (drop 4 header)) :: u32);
              deleted = (header ! 8 = 1);
              size = unat (keyLen + valLen)
          in case readFull size r1 of (body, err, r2) \<Rightarrow>
               if err then Some ('''', False, False)
               else if unat keyLen > size then None
               else
                 let k = string_of (take (unat keyLen) body)
                 in if k = key then
                      Some (if deleted then ('''', False, True) else (string_of (drop (unat keyLen) body), True, False))
                    else if k > key then Some ('''', False, False)
                    else scan_reader n key r2)"

text \<open>How the reader cuts the file into pieces does not change the result of a scan.\<close>

theorem scan_reader_equals_scan: "scan_reader n key r = sst_scan n key (concat r)"
proof (induction n arbitrary: r)
  case 0
  show ?case by simp
next
  case (Suc n)
  obtain r1 where header: "readFull 9 r = (take 9 (concat r), length (concat r) < 9, r1)" "concat r1 = drop 9 (concat r)"
    using readFull_spec by blast
  define size where "size = unat ((le_word (take 4 (take 9 (concat r))) :: u32) + le_word (take 4 (drop 4 (take 9 (concat r)))))"
  obtain r2 where body: "readFull size r1 = (take size (concat r1), length (concat r1) < size, r2)" "concat r2 = drop size (concat r1)"
    using readFull_spec by blast
  show ?case
    unfolding scan_reader.simps sst_scan.simps Let_def header(1) prod.case size_def[symmetric] body(1)
    by (simp only: header(2) body(2) Suc.IH not_less)
qed

end
