(* ===== verification/GoHeap.thy ===== *)
theory GoHeap
  imports Prelude
begin

text \<open>
  The binary heap of Go's \<open>container/heap\<close> on a slice: \<open>Push\<close> appends and sifts up, \<open>Pop\<close> swaps the
  root with the last element and sifts down.  \<open>key\<close> is what the heap's \<open>Less\<close> compares.  The contract
  \<open>Push\<close> and \<open>Pop\<close> keep is that of a priority queue on the multiset of the elements.
\<close>

definition parent :: "nat \<Rightarrow> nat" where
  "parent j = (j - 1) div 2"

lemma parent_less: "0 < j \<Longrightarrow> parent j < j" and parent_le: "parent j \<le> j"
  by (auto simp: parent_def)

lemma parent_eq: "0 < i \<Longrightarrow> parent i = j \<longleftrightarrow> i = 2 * j + 1 \<or> i = 2 * j + 2"
  by (auto simp: parent_def)

lemma parent_fix: "parent j = j \<longleftrightarrow> j = 0"
  using parent_less[of j] by (auto simp: parent_def)

definition swap :: "nat \<Rightarrow> nat \<Rightarrow> 'a list \<Rightarrow> 'a list" where
  "swap i j h = h[i := h ! j, j := h ! i]"

function heap_up :: "('a \<Rightarrow> 'k::linorder) \<Rightarrow> 'a list \<Rightarrow> nat \<Rightarrow> 'a list" where
  "heap_up key h j =
     (let i = parent j in
      if i = j \<or> \<not> key (h ! j) < key (h ! i) then h else heap_up key (swap i j h) i)"
  by auto
termination
proof (relation "measure (\<lambda>(key, h, j). j)")
  fix key :: "'a \<Rightarrow> 'k::linorder" and h :: "'a list" and j i
  assume "i = parent j" "\<not> (i = j \<or> \<not> key (h ! j) < key (h ! i))"
  then have "parent j < j" by (intro parent_less) (auto simp: parent_fix)
  with \<open>i = parent j\<close> show "((key, swap i j h, i), key, h, j) \<in> measure (\<lambda>(key, h, j). j)" by simp
qed simp

function heap_down :: "('a \<Rightarrow> 'k::linorder) \<Rightarrow> 'a list \<Rightarrow> nat \<Rightarrow> nat \<Rightarrow> 'a list" where
  "heap_down key h i n =
     (let j1 = 2 * i + 1; j2 = j1 + 1 in
      if j1 \<ge> n then h
      else
        let j = (if j2 < n \<and> key (h ! j2) < key (h ! j1) then j2 else j1) in
        if \<not> key (h ! j) < key (h ! i) then h else heap_down key (swap i j h) j n)"
  by auto
termination by (relation "measure (\<lambda>(key, h, i, n). n - i)") auto

declare heap_up.simps [simp del] heap_down.simps [simp del]

definition heap_Push :: "('a \<Rightarrow> 'k::linorder) \<Rightarrow> 'a \<Rightarrow> 'a list \<Rightarrow> 'a list" where
  "heap_Push key x h = heap_up key (h @ [x]) (length h)"

definition heap_Pop :: "('a \<Rightarrow> 'k::linorder) \<Rightarrow> 'a list \<Rightarrow> ('a \<times> 'a list) option" where
  "heap_Pop key h =
     (if h = [] then None
      else let n = length h - 1; h1 = heap_down key (swap 0 n h) 0 n in Some (h1 ! n, take n h1))"

subsection \<open>The heap order\<close>

definition heap_ok :: "('a \<Rightarrow> 'k::linorder) \<Rightarrow> 'a list \<Rightarrow> bool" where
  "heap_ok key h \<longleftrightarrow> (\<forall>i. 0 < i \<longrightarrow> i < length h \<longrightarrow> key (h ! parent i) \<le> key (h ! i))"

text \<open>The order holds but for the element at \<open>j\<close>, which may be too small, or too large.\<close>

definition up_ok :: "('a \<Rightarrow> 'k::linorder) \<Rightarrow> 'a list \<Rightarrow> nat \<Rightarrow> bool" where
  "up_ok key h j \<longleftrightarrow> (\<forall>i. 0 < i \<longrightarrow> i < length h \<longrightarrow> i \<noteq> j \<longrightarrow> key (h ! parent i) \<le> key (h ! i)) \<and>
     (\<forall>i. 0 < i \<longrightarrow> i < length h \<longrightarrow> parent i = j \<longrightarrow> 0 < j \<longrightarrow> key (h ! parent j) \<le> key (h ! i))"

definition down_ok :: "('a \<Rightarrow> 'k::linorder) \<Rightarrow> 'a list \<Rightarrow> nat \<Rightarrow> nat \<Rightarrow> bool" where
  "down_ok key h n j \<longleftrightarrow> (\<forall>i. 0 < i \<longrightarrow> i < n \<longrightarrow> parent i \<noteq> j \<longrightarrow> key (h ! parent i) \<le> key (h ! i)) \<and>
     (\<forall>i. 0 < i \<longrightarrow> i < n \<longrightarrow> parent i = j \<longrightarrow> 0 < j \<longrightarrow> key (h ! parent j) \<le> key (h ! i))"

lemma length_swap [simp]: "length (swap i j h) = length h"
  by (simp add: swap_def)

lemma nth_swap: "i < length h \<Longrightarrow> j < length h \<Longrightarrow>
  swap i j h ! k = (if k = j then h ! i else if k = i then h ! j else h ! k)"
  by (auto simp: swap_def nth_list_update)

lemma mset_swap_eq [simp]: "i < length h \<Longrightarrow> j < length h \<Longrightarrow> mset (swap i j h) = mset h"
  unfolding swap_def by (metis mset_swap)

lemma heap_up_ok:
  "up_ok key h j \<Longrightarrow> j < length h \<Longrightarrow>
   heap_ok key (heap_up key h j) \<and> mset (heap_up key h j) = mset h \<and> length (heap_up key h j) = length h"
proof (induction key h j rule: heap_up.induct)
  case (1 key h j)
  note step = heap_up.simps[of key h j]
  show ?case
  proof (cases "parent j = j \<or> \<not> key (h ! j) < key (h ! parent j)")
    case True
    have "key (h ! parent i) \<le> key (h ! i)" if "0 < i" "i < length h" for i
      using that True "1.prems" by (cases "i = j") (auto simp: up_ok_def)
    with True step show ?thesis by (simp add: heap_ok_def)
  next
    case False
    then have j: "0 < j" "parent j < j" and less: "key (h ! j) < key (h ! parent j)"
      using parent_less[of j] by (auto simp: parent_fix)
    have pj: "parent j < length h" using j(2) "1.prems"(2) by simp
    have sw: "swap (parent j) j h ! k = (if k = j then h ! parent j else if k = parent j then h ! j else h ! k)" for k
      by (rule nth_swap[OF pj "1.prems"(2)])
    have "up_ok key (swap (parent j) j h) (parent j)" unfolding up_ok_def length_swap
    proof (intro conjI allI impI)
      fix i assume i: "0 < i" "i < length h" "i \<noteq> parent j"
      show "key (swap (parent j) j h ! parent i) \<le> key (swap (parent j) j h ! i)"
      proof (cases "i = j")
        case True
        then show ?thesis using less j by (simp add: sw)
      next
        case i_j: False
        then have "key (h ! parent i) \<le> key (h ! i)" using i "1.prems"(1) by (simp add: up_ok_def)
        moreover have "key (h ! parent j) \<le> key (h ! i)" if "parent i = j" using i that j "1.prems"(1) by (simp add: up_ok_def)
        ultimately show ?thesis using i_j i less parent_less[of i] by (auto simp: sw)
      qed
    next
      fix i assume i: "0 < i" "i < length h" "parent i = parent j" "0 < parent j"
      have "key (h ! parent (parent j)) \<le> key (h ! parent j)" using "1.prems"(1) j i(4) pj by (auto simp: up_ok_def)
      moreover have "key (h ! parent j) \<le> key (h ! i)" if "i \<noteq> j"
        using that i "1.prems"(1) by (metis up_ok_def)
      moreover have "parent (parent j) < parent j" "i \<noteq> parent j" using i parent_less[of "parent j"] parent_less[of i] by auto
      ultimately show "key (swap (parent j) j h ! parent (parent j)) \<le> key (swap (parent j) j h ! i)"
        using j(2) by (auto simp: sw)
    qed
    then have "heap_ok key (heap_up key (swap (parent j) j h) (parent j)) \<and>
        mset (heap_up key (swap (parent j) j h) (parent j)) = mset (swap (parent j) j h) \<and>
        length (heap_up key (swap (parent j) j h) (parent j)) = length (swap (parent j) j h)"
      by (intro "1.IH"[OF refl False]) (simp_all add: pj)
    then show ?thesis using step False pj "1.prems"(2) by (simp add: Let_def)
  qed
qed

lemma heap_Push_ok:
  assumes "heap_ok key h"
  shows "heap_ok key (heap_Push key x h)" and "mset (heap_Push key x h) = add_mset x (mset h)"
proof -
  have "up_ok key (h @ [x]) (length h)"
    unfolding up_ok_def
  proof (intro conjI allI impI)
    fix i assume i: "0 < i" "i < length (h @ [x])" "i \<noteq> length h"
    then show "key ((h @ [x]) ! parent i) \<le> key ((h @ [x]) ! i)"
      using assms parent_less[of i] by (simp add: nth_append heap_ok_def)
  next
    fix i assume i: "0 < i" "i < length (h @ [x])" "parent i = length h"
    then show "key ((h @ [x]) ! parent (length h)) \<le> key ((h @ [x]) ! i)" using parent_less[of i] by simp
  qed
  from heap_up_ok[OF this] show "heap_ok key (heap_Push key x h)" "mset (heap_Push key x h) = add_mset x (mset h)"
    by (simp_all add: heap_Push_def)
qed

lemma heap_root_least:
  assumes "heap_ok key h" and "i < length h"
  shows "key (h ! 0) \<le> key (h ! i)"
  using assms(2)
proof (induction i rule: less_induct)
  case (less i)
  show ?case
  proof (cases "i = 0")
    case False
    then have "key (h ! 0) \<le> key (h ! parent i)" using less parent_less[of i] by simp
    also have "\<dots> \<le> key (h ! i)" using assms(1) False less.prems by (simp add: heap_ok_def)
    finally show ?thesis .
  qed simp
qed

lemma heap_down_ok:
  "down_ok key h n j \<Longrightarrow> j < n \<Longrightarrow> n \<le> length h \<Longrightarrow>
   (\<forall>i. 0 < i \<longrightarrow> i < n \<longrightarrow> key (heap_down key h j n ! parent i) \<le> key (heap_down key h j n ! i)) \<and>
   mset (heap_down key h j n) = mset h \<and> length (heap_down key h j n) = length h \<and>
   (\<forall>i. n \<le> i \<longrightarrow> heap_down key h j n ! i = h ! i)"
proof (induction key h j n rule: heap_down.induct)
  case (1 key h i n)
  note step = heap_down.simps[of key h i n]
  define j where "j = (if 2 * i + 1 + 1 < n \<and> key (h ! (2 * i + 1 + 1)) < key (h ! (2 * i + 1)) then 2 * i + 1 + 1 else 2 * i + 1)"
  have step': "heap_down key h i n = (if \<not> key (h ! j) < key (h ! i) then h else heap_down key (swap i j h) j n)"
    if "2 * i + 1 < n"
    using that unfolding heap_down.simps[of key h i n] Let_def j_def[symmetric] by simp
  consider (leaf) "2 * i + 1 \<ge> n" | (stop) "2 * i + 1 < n" "\<not> key (h ! j) < key (h ! i)"
    | (sink) "2 * i + 1 < n" "key (h ! j) < key (h ! i)" by linarith
  then show ?case
  proof cases
    case leaf
    have "key (h ! parent k) \<le> key (h ! k)" if "0 < k" "k < n" for k
      using that leaf "1.prems"(1) parent_eq[of k i] by (auto simp: down_ok_def)
    with leaf step show ?thesis by simp
  next
    case stop
    have "key (h ! parent k) \<le> key (h ! k)" if "0 < k" "k < n" for k
      using that stop "1.prems"(1) parent_eq[of k i] by (cases "parent k = i") (auto simp: down_ok_def j_def split: if_splits)
    moreover have "heap_down key h i n = h" using stop step' by simp
    ultimately show ?thesis by simp
  next
    case sink
    have j: "j < n" "parent j = i" "i < j" "0 < j"
      using sink(1) by (auto simp: j_def parent_def)
    have least: "key (h ! j) \<le> key (h ! k)" if "0 < k" "parent k = i" "k < n" for k
      using that parent_eq[of k i] by (auto simp: j_def)
    have sw: "swap i j h ! k = (if k = j then h ! i else if k = i then h ! j else h ! k)" for k
      by (rule nth_swap) (use j "1.prems" in simp_all)
    have "down_ok key (swap i j h) n j" unfolding down_ok_def
    proof (intro conjI allI impI)
      fix k assume k: "0 < k" "k < n" "parent k \<noteq> j"
      show "key (swap i j h ! parent k) \<le> key (swap i j h ! k)"
      proof (cases "parent k = i")
        case True
        then show ?thesis using k least[of k] sink(2) parent_less[of k] j(3) by (auto simp: sw)
      next
        case False
        then have "key (h ! parent k) \<le> key (h ! k)" "k \<noteq> j" using k j(2) "1.prems"(1) by (auto simp: down_ok_def)
        moreover have "key (h ! parent i) \<le> key (h ! j)" if "k = i"
          using that k j "1.prems"(1) by (simp add: down_ok_def)
        ultimately show ?thesis using k False by (auto simp: sw)
      qed
    next
      fix k assume k: "0 < k" "k < n" "parent k = j"
      have "key (h ! j) \<le> key (h ! k)" using k j "1.prems"(1) by (metis down_ok_def less_irrefl)
      moreover have "k \<noteq> j" "k \<noteq> i" using k j(3) parent_less[of k] by auto
      ultimately show "key (swap i j h ! parent j) \<le> key (swap i j h ! k)" using j(2,3) by (simp add: sw)
    qed
    moreover have "heap_down key h i n = heap_down key (swap i j h) j n"
      using sink step' by simp
    moreover have "mset (swap i j h) = mset h" using j "1.prems" by simp
    moreover have "swap i j h ! k = h ! k" if "n \<le> k" for k using that j sw by auto
    ultimately show ?thesis
      using "1.IH"[OF refl refl _ refl, folded j_def] sink j(1) "1.prems"(3) by simp
  qed
qed

text \<open>\<open>Pop\<close> returns an element of the least key and leaves the others.\<close>

lemma heap_Pop_ok:
  assumes ok: "heap_ok key h" and ne: "h \<noteq> []"
  obtains x h' where "heap_Pop key h = Some (x, h')" "heap_ok key h'" "mset h = add_mset x (mset h')"
    "\<forall>y \<in> set h. key x \<le> key y"
proof -
  define n where "n = length h - 1"
  have n: "length h = Suc n" using ne by (simp add: n_def)
  define g where "g = heap_down key (swap 0 n h) 0 n"
  have sw: "swap 0 n h ! k = (if k = n then h ! 0 else if k = 0 then h ! n else h ! k)" for k
    by (rule nth_swap) (simp_all add: n)
  have g: "(\<forall>i. 0 < i \<longrightarrow> i < n \<longrightarrow> key (g ! parent i) \<le> key (g ! i)) \<and> mset g = mset h \<and> length g = Suc n \<and> g ! n = h ! 0"
  proof (cases "n = 0")
    case True
    then have "g = swap 0 0 h" by (simp add: g_def heap_down.simps)
    then show ?thesis using True n by (simp add: swap_def)
  next
    case False
    have "down_ok key (swap 0 n h) n 0"
      using ok n parent_less unfolding down_ok_def heap_ok_def
      by (auto simp: sw dest: less_trans)
    from heap_down_ok[OF this, folded g_def] False n show ?thesis by (simp add: sw)
  qed
  have "heap_ok key (take n g)" unfolding heap_ok_def
  proof (intro allI impI)
    fix i assume "0 < i" "i < length (take n g)"
    then show "key (take n g ! parent i) \<le> key (take n g ! i)" using g parent_less[of i] by simp
  qed
  moreover have "mset h = add_mset (h ! 0) (mset (take n g))"
  proof -
    have "g = take n g @ [g ! n]" using g by (metis lessI take_Suc_conv_app_nth take_all order.refl)
    then have "mset g = add_mset (g ! n) (mset (take n g))" by (metis mset_append mset_single_iff mset.simps add_mset_add_single union_commute add_mset_eq_single)
    then show ?thesis using g by simp
  qed
  moreover have "heap_Pop key h = Some (h ! 0, take n g)"     using ne g unfolding heap_Pop_def Let_def n_def[symmetric] g_def[symmetric] by simp
  moreover have "\<forall>y \<in> set h. key (h ! 0) \<le> key y" using heap_root_least[OF ok] by (metis in_set_conv_nth)
  ultimately show ?thesis using that by blast
qed

end
