(* ===== verification/ExtSort.thy ===== *)
theory ExtSort
  imports GoHeap Codec "HOL-Library.Monad_Syntax"
begin

text \<open>
  \<^verbatim>\<open>code/external_merge_sort/sort.go\<close>: external merge sort.  Files are a map from paths to their
  text; of the errors of the file system a missing file is modelled.  A \<open>bufio.Scanner\<close> is the text
  it has not yet read.  \<open>None\<close> is a panic or an endless loop.  The text a reader of \<open>mergeRuns\<close> will
  see is that of its file when it was opened, which is the code as long as no run is the target of
  its own merge.  \<open>filepath.Join\<close> is a slash between the two parts: \<open>TempDir\<close> is a clean path.
\<close>

type_synonym files = "string \<rightharpoonup> string"

datatype sort_error = FileMissing string | ParseError string | LineTooLong

record Config =
  ChunkSize :: int
  TempDir :: string
  MaxMergeWidth :: int

record Stats =
  Records :: nat
  Runs :: nat
  MergePasses :: nat
  PeakRecords :: int

definition DefaultConfig :: "string \<Rightarrow> Config" where
  "DefaultConfig tempDir = \<lparr>ChunkSize = 100000, TempDir = tempDir, MaxMergeWidth = 16\<rparr>"

definition zero_Stats :: Stats where
  "zero_Stats = \<lparr>Records = 0, Runs = 0, MergePasses = 0, PeakRecords = 0\<rparr>"

subsection \<open>Numbers and lines\<close>

abbreviation newline :: char where "newline \<equiv> CHR 0x0A"

definition Atoi :: "string \<Rightarrow> int option" where
  "Atoi s =
     (let neg = (s \<noteq> [] \<and> s ! 0 = CHR ''-'');
          ds = (if s \<noteq> [] \<and> (s ! 0 = CHR ''-'' \<or> s ! 0 = CHR ''+'') then drop 1 s else s);
          v = (if neg then - int (undecimal ds) else int (undecimal ds))
      in if ds = [] \<or> \<not> list_all is_digit ds \<or> v < - (2 ^ 63) \<or> v \<ge> 2 ^ 63 then None else Some v)"

definition Itoa :: "int \<Rightarrow> string" where
  "Itoa v = (if v < 0 then CHR ''-'' # decimal (nat (- v)) else decimal (nat v))"

definition dropCR :: "string \<Rightarrow> string" where
  "dropCR l = (if l \<noteq> [] \<and> last l = CHR 0x0D then butlast l else l)"

definition max_line :: nat where
  "max_line = 1024 * 1024"

text \<open>\<open>Scan\<close> and \<open>Text\<close>: a line and the rest, or the end of the scan, with whether it was an error.\<close>

definition scanner_Scan :: "string \<Rightarrow> bool + (string \<times> string)" where
  "scanner_Scan s =
     (if s = [] then Inl False
      else let line = takeWhile (\<lambda>c. c \<noteq> newline) s in
        if length line \<ge> max_line then Inl True
        else Inr (dropCR line, drop 1 (dropWhile (\<lambda>c. c \<noteq> newline) s)))"

lemma scanner_Scan_less: "scanner_Scan s = Inr (l, r) \<Longrightarrow> length r < length s"
proof -
  assume "scanner_Scan s = Inr (l, r)"
  then have "s \<noteq> []" "r = drop 1 (dropWhile (\<lambda>c. c \<noteq> newline) s)"
    by (auto simp: scanner_Scan_def Let_def split: if_splits)
  moreover have "length (dropWhile (\<lambda>c. c \<noteq> newline) s) \<le> length s" by (rule length_dropWhile_le)
  ultimately show ?thesis by (cases "dropWhile (\<lambda>c. c \<noteq> newline) s") auto
qed

function next_int :: "string \<Rightarrow> int option \<times> string" where
  "next_int s =
     (case scanner_Scan s of
        Inl _ \<Rightarrow> (None, s)
      | Inr (line, rest) \<Rightarrow> if line = [] then next_int rest else (Atoi line, rest))"
  by auto
termination by (relation "measure length") (auto dest: scanner_Scan_less)

function readInts_loop :: "string \<Rightarrow> int list \<Rightarrow> sort_error + int list" where
  "readInts_loop s out =
     (case scanner_Scan s of
        Inl e \<Rightarrow> if e then Inl LineTooLong else Inr out
      | Inr (line, rest) \<Rightarrow>
          if line = [] then readInts_loop rest out
          else case Atoi line of None \<Rightarrow> Inl (ParseError line) | Some v \<Rightarrow> readInts_loop rest (out @ [v]))"
  by auto
termination by (relation "measure (\<lambda>(s, out). length s)") (auto dest: scanner_Scan_less)

declare next_int.simps [simp del] readInts_loop.simps [simp del]

definition readInts :: "string \<Rightarrow> files \<Rightarrow> sort_error + int list" where
  "readInts path fs = (case fs path of None \<Rightarrow> Inl (FileMissing path) | Some s \<Rightarrow> readInts_loop s [])"

definition ints_text :: "int list \<Rightarrow> string" where
  "ints_text vs = concat (map (\<lambda>v. Itoa v @ [newline]) vs)"

definition writeInts :: "string \<Rightarrow> int list \<Rightarrow> files \<Rightarrow> files" where
  "writeInts path vs fs = fs(path \<mapsto> ints_text vs)"

subsection \<open>Split\<close>

definition run_name :: "Config \<Rightarrow> nat \<Rightarrow> string" where
  "run_name cfg n = TempDir cfg @ ''/run-'' @ padded 4 n @ ''.tmp''"

definition merge_name :: "Config \<Rightarrow> nat \<Rightarrow> int \<Rightarrow> string" where
  "merge_name cfg pass i = TempDir cfg @ ''/merge-'' @ decimal pass @ ''-'' @ Itoa i @ ''.tmp''"

definition split_flush :: "Config \<Rightarrow> int list \<Rightarrow> string list \<Rightarrow> files \<Rightarrow> string list \<times> files" where
  "split_flush cfg buf runs fs =
     (if buf = [] then (runs, fs)
      else let path = run_name cfg (length runs) in (runs @ [path], writeInts path (sort buf) fs))"

function split_loop :: "Config \<Rightarrow> string \<Rightarrow> int list \<Rightarrow> nat \<Rightarrow> string list \<Rightarrow> files \<Rightarrow>
    (sort_error + (string list \<times> nat)) \<times> files" where
  "split_loop cfg s buf cnt runs fs =
     (case scanner_Scan s of
        Inl e \<Rightarrow>
          if e then (Inl LineTooLong, fs)
          else let (runs1, fs1) = split_flush cfg buf runs fs in (Inr (runs1, cnt), fs1)
      | Inr (line, rest) \<Rightarrow>
          case Atoi line of
            None \<Rightarrow> (Inl (ParseError line), fs)
          | Some v \<Rightarrow>
              let buf1 = buf @ [v] in
              if int (length buf1) \<ge> ChunkSize cfg
              then let (runs1, fs1) = split_flush cfg buf1 runs fs in split_loop cfg rest [] (cnt + 1) runs1 fs1
              else split_loop cfg rest buf1 (cnt + 1) runs fs)"
  by auto
termination by (relation "measure (\<lambda>(cfg, s, _). length s)") (auto dest: scanner_Scan_less)

declare split_loop.simps [simp del]

definition splitIntoSortedRuns ::
  "string \<Rightarrow> Config \<Rightarrow> files \<Rightarrow> ((sort_error + (string list \<times> nat)) \<times> files) option" where
  "splitIntoSortedRuns inp cfg fs =
     (case fs inp of
        None \<Rightarrow> Some (Inl (FileMissing inp), fs)
      | Some s \<Rightarrow> if ChunkSize cfg < 0 then None else Some (split_loop cfg s [] 0 [] fs))"

subsection \<open>Merge\<close>

fun open_all :: "string list \<Rightarrow> files \<Rightarrow> sort_error + string list" where
  "open_all [] fs = Inr []"
| "open_all (p # ps) fs =
     (case fs p of
        None \<Rightarrow> Inl (FileMissing p)
      | Some s \<Rightarrow> (case open_all ps fs of Inl e \<Rightarrow> Inl e | Inr ss \<Rightarrow> Inr (s # ss)))"

type_synonym heapItem = "int \<times> nat"

text \<open>The loop that fills the heap with the first value of every reader \<open>i\<close>, \<open>i + 1\<close>, ...\<close>

fun fill_heap :: "nat \<Rightarrow> string list \<Rightarrow> heapItem list \<Rightarrow> heapItem list \<times> string list" where
  "fill_heap i [] h = (h, [])"
| "fill_heap i (r # rs) h =
     (let (v, r1) = next_int r;
          h1 = (case v of Some x \<Rightarrow> heap_Push fst (x, i) h | None \<Rightarrow> h);
          (h2, rs1) = fill_heap (i + 1) rs h1
      in (h2, r1 # rs1))"

lemma length_swap_list [simp]: "length (GoHeap.swap i j h) = length h"
  by simp

lemma length_heap_down [simp]: "length (heap_down key h i n) = length h"
proof (induction key h i n rule: heap_down.induct)
  case (1 key h i n)
  then show ?case using heap_down.simps[of key h i n] by (auto simp: Let_def)
qed

lemma length_heap_up [simp]: "length (heap_up key h j) = length h"
proof (induction key h j rule: heap_up.induct)
  case (1 key h j)
  then show ?case using heap_up.simps[of key h j] by (auto simp: Let_def)
qed

lemma length_heap_Push [simp]: "length (heap_Push key x h) = Suc (length h)"
  by (simp add: heap_Push_def)

lemma length_heap_Pop: "heap_Pop key h = Some (x, h') \<Longrightarrow> length h = Suc (length h')"
  by (auto simp: heap_Pop_def Let_def split: if_splits)

lemma next_int_length: "next_int s = (v, r) \<Longrightarrow> length r \<le> length s \<and> (v \<noteq> None \<longrightarrow> length r < length s)"
proof (induction s arbitrary: v r rule: next_int.induct)
  case (1 s)
  show ?case
  proof (cases "scanner_Scan s")
    case (Inr p)
    obtain line rest where p: "p = (line, rest)" by fastforce
    note less = scanner_Scan_less[of s line rest, OF Inr[unfolded p]]
    show ?thesis
    proof (cases "line = []")
      case True
      then have "next_int rest = (v, r)" using "1.prems" Inr p by (simp add: next_int.simps[of s])
      from "1.IH"[OF Inr p[symmetric] True this] less show ?thesis by auto
    next
      case False
      then show ?thesis using "1.prems" Inr p less by (simp add: next_int.simps[of s])
    qed
  qed (use "1.prems" in \<open>simp add: next_int.simps[of s]\<close>)
qed

lemma sum_lengths_update:
  "i < length rs \<Longrightarrow> sum_list (map length (rs[i := r])) + length (rs ! i) = sum_list (map length rs) + length r"
  by (induction rs arbitrary: i) (auto split: nat.split)

function merge_loop :: "heapItem list \<Rightarrow> string list \<Rightarrow> string option" where
  "merge_loop h rs =
     (case heap_Pop fst h of
        None \<Rightarrow> Some ''''
      | Some (it, h1) \<Rightarrow>
          case nth_opt rs (snd it) of
            None \<Rightarrow> None
          | Some r \<Rightarrow>
              let nx = next_int r;
                  h2 = (case fst nx of Some x \<Rightarrow> heap_Push fst (x, snd it) h1 | None \<Rightarrow> h1)
              in map_option (\<lambda>rest. Itoa (fst it) @ newline # rest) (merge_loop h2 (rs[snd it := snd nx])))"
  by auto
termination
proof (relation "measure (\<lambda>(h, rs). length h + sum_list (map length rs))")
  fix h :: "heapItem list" and rs p it h1 r nx h2
  assume a: "heap_Pop fst h = Some p" "(it, h1) = p" "nth_opt rs (snd it) = Some r" "nx = next_int r"
    "h2 = (case fst nx of Some x \<Rightarrow> heap_Push fst (x, snd it) h1 | None \<Rightarrow> h1)"
  have i: "snd it < length rs" "rs ! snd it = r" using a(3) by (auto simp: nth_opt_def split: if_splits)
  have "length h = Suc (length h1)" using a(1,2) by (auto intro: length_heap_Pop)
  moreover have "length (snd nx) \<le> length r" "fst nx \<noteq> None \<Longrightarrow> length (snd nx) < length r"
    using next_int_length[of r "fst nx" "snd nx"] a(4) by auto
  moreover have "length h2 = length h1 + (if fst nx = None then 0 else 1)" using a(5) by (auto split: option.splits)
  ultimately have "length h2 + sum_list (map length (rs[snd it := snd nx])) < length h + sum_list (map length rs)"
    using sum_lengths_update[OF i(1), of "snd nx"] i(2) by (auto split: if_splits)
  then show "((h2, rs[snd it := snd nx]), h, rs) \<in> measure (\<lambda>(h, rs). length h + sum_list (map length rs))" by simp
qed simp

declare merge_loop.simps [simp del]

definition mergeRuns :: "string list \<Rightarrow> string \<Rightarrow> files \<Rightarrow> (sort_error option \<times> files) option" where
  "mergeRuns runs out fs =
     (case open_all runs fs of
        Inl e \<Rightarrow> Some (Some e, fs)
      | Inr readers \<Rightarrow> let (h, rs) = fill_heap 0 readers [] in
          do { s \<leftarrow> merge_loop h rs; Some (None, fs(out \<mapsto> s)) })"

subsection \<open>Sort\<close>

definition removes :: "string list \<Rightarrow> files \<Rightarrow> files" where
  "removes ps fs = fold (\<lambda>p fs. fs(p := None)) ps fs"

definition slice :: "'a list \<Rightarrow> int \<Rightarrow> int \<Rightarrow> 'a list option" where
  "slice xs i e = (if 0 \<le> i \<and> i \<le> e \<and> e \<le> int (length xs) then Some (take (nat e - nat i) (drop (nat i) xs)) else None)"

text \<open>One pass: the groups of \<open>MaxMergeWidth\<close> runs from \<open>i\<close> on.\<close>

partial_function (option) merge_groups :: "Config \<Rightarrow> nat \<Rightarrow> string \<Rightarrow> string list \<Rightarrow> int \<Rightarrow> string list \<Rightarrow> files \<Rightarrow>
    ((sort_error + string list) \<times> files) option" where
  "merge_groups cfg pass out current i nexts fs =
     (if i < int (length current) then do {
        let e = min (i + MaxMergeWidth cfg) (int (length current));
        group \<leftarrow> slice current i e;
        let target = (if int (length current) > MaxMergeWidth cfg \<or> e - i < int (length current)
                      then merge_name cfg pass i else out);
        r \<leftarrow> mergeRuns group target fs;
        if fst r \<noteq> None then Some (Inl (the (fst r)), snd r)
        else merge_groups cfg pass out current (i + MaxMergeWidth cfg) (nexts @ [target]) (snd r) }
      else Some (Inr nexts, fs))"

text \<open>The passes.  The result is the error or the last list of files, and the number of passes.\<close>

partial_function (option) merge_passes :: "Config \<Rightarrow> string \<Rightarrow> string list \<Rightarrow> nat \<Rightarrow> files \<Rightarrow>
    ((sort_error + string list) \<times> nat \<times> files) option" where
  "merge_passes cfg out current pass fs =
     (if length current > 1 then do {
        r \<leftarrow> merge_groups cfg (pass + 1) out current 0 [] fs;
        if isl (fst r) then Some (Inl (projl (fst r)), pass + 1, snd r)
        else merge_passes cfg out (projr (fst r)) (pass + 1) (removes current (snd r)) }
      else Some (Inr current, pass, fs))"

definition file_rename :: "string \<Rightarrow> string \<Rightarrow> files \<Rightarrow> sort_error option \<times> files" where
  "file_rename p q fs = (case fs p of None \<Rightarrow> (Some (FileMissing p), fs) | Some s \<Rightarrow> (None, fs(p := None, q \<mapsto> s)))"

definition ext_Sort :: "string \<Rightarrow> string \<Rightarrow> Config \<Rightarrow> files \<Rightarrow> ((Stats \<times> sort_error option) \<times> files) option" where
  "ext_Sort inp out cfg fs = do {
     (r, fs1) \<leftarrow> splitIntoSortedRuns inp cfg fs;
     case r of
       Inl e \<Rightarrow> Some ((zero_Stats, Some e), fs1)
     | Inr (runs, n) \<Rightarrow>
         let stats = zero_Stats\<lparr>Records := n, Runs := length runs, PeakRecords := ChunkSize cfg\<rparr> in do {
           (st, err, fs2) \<leftarrow>
             (if runs = [] then Some (stats, None, fs1(out \<mapsto> ''''))
              else if length runs = 1 then
                let (err, fs2) = file_rename (runs ! 0) out fs1 in Some (stats, err, fs2)
              else do {
                (r, pass, fs2) \<leftarrow> merge_passes cfg out runs 0 fs1;
                let st = stats\<lparr>MergePasses := pass\<rparr>;
                case r of
                  Inl e \<Rightarrow> Some (st, Some e, fs2)
                | Inr current \<Rightarrow> do {
                    p \<leftarrow> nth_opt current 0;
                    if p \<noteq> out then let (err, fs3) = file_rename p out fs2 in Some (st, err, fs3)
                    else Some (st, None, fs2) } });
           Some ((st, err), removes runs fs2) } }"

subsection \<open>What a file of numbers reads back\<close>

definition int64 :: "int \<Rightarrow> bool" where
  "int64 v \<longleftrightarrow> - (2 ^ 63) \<le> v \<and> v < 2 ^ 63"

lemma Itoa_chars: "c \<in> set (Itoa v) \<Longrightarrow> is_digit c \<or> c = CHR ''-''"
  by (auto simp: Itoa_def dest: decimal_char split: if_splits simp del: decimal.simps)

lemma Itoa_nonempty: "Itoa v \<noteq> []"
  using decimal_digits[of "nat v"] by (simp add: Itoa_def del: decimal.simps)

lemma length_Itoa: "int64 v \<Longrightarrow> length (Itoa v) \<le> 21"
proof -
  assume "int64 v"
  then have "nat v < 10 ^ 20" "nat (- v) < 10 ^ 20" by (auto simp: int64_def)
  then have "length (decimal (nat v)) \<le> 20" "length (decimal (nat (- v))) \<le> 20"
    by (simp_all only: length_decimal zero_less_numeral)
  then show ?thesis by (simp add: Itoa_def del: decimal.simps)
qed

lemma Atoi_Itoa: "int64 v \<Longrightarrow> Atoi (Itoa v) = Some v"
proof -
  assume v: "int64 v"
  have first: "decimal n ! 0 \<noteq> CHR ''-''" "decimal n ! 0 \<noteq> CHR ''+''" for n
    using decimal_digits[of n] decimal_char[of "decimal n ! 0" n] by (auto simp: is_digit_def simp del: decimal.simps)
  show ?thesis
  proof (cases "v < 0")
    case True
    then show ?thesis using v decimal_digits[of "nat (- v)"]
      by (simp add: Atoi_def Itoa_def int64_def undecimal_decimal Let_def del: decimal.simps)
  next
    case False
    then show ?thesis using v decimal_digits[of "nat v"] first[of "nat v"]
      by (simp add: Atoi_def Itoa_def int64_def undecimal_decimal Let_def del: decimal.simps)
  qed
qed

lemma scan_Itoa:
  assumes "int64 v"
  shows "scanner_Scan (Itoa v @ newline # rest) = Inr (Itoa v, rest)"
proof -
  have "c \<noteq> newline" "c \<noteq> CHR 0x0D" if "c \<in> set (Itoa v)" for c
    using Itoa_chars[OF that] by (auto simp: is_digit_def)
  then have "takeWhile (\<lambda>c. c \<noteq> newline) (Itoa v @ newline # rest) = Itoa v"
    "dropWhile (\<lambda>c. c \<noteq> newline) (Itoa v @ newline # rest) = newline # rest" "dropCR (Itoa v) = Itoa v"
    using last_in_set[OF Itoa_nonempty[of v]] by (auto simp: dropCR_def takeWhile_tail)
  moreover have "length (Itoa v) < max_line" using length_Itoa[OF assms] by (simp add: max_line_def)
  ultimately show ?thesis by (simp add: scanner_Scan_def Let_def)
qed

lemma ints_text_simps [simp]: "ints_text [] = []" "ints_text (v # vs) = Itoa v @ newline # ints_text vs"
  by (simp_all add: ints_text_def)

lemma scan_Nil [simp]: "scanner_Scan [] = Inl False"
  by (simp add: scanner_Scan_def)

lemma next_int_text:
  "next_int [] = (None, [])" "int64 v \<Longrightarrow> next_int (ints_text (v # vs)) = (Some v, ints_text vs)"
  using scan_Itoa[of v "ints_text vs"] by (simp_all add: next_int.simps Itoa_nonempty Atoi_Itoa)

lemma readInts_text: "\<forall>v \<in> set vs. int64 v \<Longrightarrow> readInts_loop (ints_text vs) out = Inr (out @ vs)"
proof (induction vs arbitrary: out)
  case Nil
  show ?case by (simp add: readInts_loop.simps[of "[]"])
next
  case (Cons v vs)
  then show ?case using scan_Itoa[of v "ints_text vs"]
    by (simp add: readInts_loop.simps[of "_ @ _"] Itoa_nonempty Atoi_Itoa)
qed

subsection \<open>The k-way merge\<close>

text \<open>\<open>vss\<close> are the values the readers still hold.  For every reader that is not exhausted the heap has
  an item that is not above its values.\<close>

definition merge_inv :: "heapItem list \<Rightarrow> int list list \<Rightarrow> bool" where
  "merge_inv h vss \<longleftrightarrow> heap_ok fst h \<and> (\<forall>it \<in> set h. snd it < length vss) \<and>
     (\<forall>vs \<in> set vss. sorted vs \<and> (\<forall>v \<in> set vs. int64 v)) \<and>
     (\<forall>i < length vss. vss ! i \<noteq> [] \<longrightarrow> (\<exists>v. (v, i) \<in> set h \<and> (\<forall>x \<in> set (vss ! i). v \<le> x)))"

fun first_items :: "nat \<Rightarrow> int list list \<Rightarrow> heapItem list" where
  "first_items i [] = []"
| "first_items i (vs # vss) = (if vs = [] then [] else [(hd vs, i)]) @ first_items (i + 1) vss"

lemma set_first_items:
  "it \<in> set (first_items i vss) \<longleftrightarrow> (\<exists>k < length vss. it = (hd (vss ! k), i + k) \<and> vss ! k \<noteq> [])"
proof (induction vss arbitrary: i)
  case (Cons vs vss)
  show ?case unfolding length_Cons Ex_less_Suc2 first_items.simps set_append Un_iff Cons.IH by auto
qed simp

lemma fill_heap_ok:
  assumes "\<forall>vs \<in> set vss. \<forall>v \<in> set vs. int64 v" and "heap_ok fst h"
  shows "\<exists>h'. fill_heap i (map ints_text vss) h = (h', map (ints_text \<circ> tl) vss) \<and> heap_ok fst h' \<and>
    mset h' = mset h + mset (first_items i vss)"
  using assms
proof (induction vss arbitrary: i h)
  case (Cons vs vss)
  define h1 where "h1 = (if vs = [] then h else heap_Push fst (hd vs, i) h)"
  have h1: "heap_ok fst h1" "mset h1 = mset h + mset (if vs = [] then [] else [(hd vs, i)])"
    using heap_Push_ok[OF Cons.prems(2), of "(hd vs, i)"] Cons.prems(2) by (simp_all add: h1_def)
  obtain h2 where h2: "fill_heap (i + 1) (map ints_text vss) h1 = (h2, map (ints_text \<circ> tl) vss)" "heap_ok fst h2"
      "mset h2 = mset h1 + mset (first_items (i + 1) vss)"
    using Cons.IH[of h1 "i + 1"] Cons.prems(1) h1(1) by auto
  have "next_int (ints_text vs) = (if vs = [] then None else Some (hd vs), ints_text (tl vs))"
    using Cons.prems(1) next_int_text by (cases vs) auto
  then have "fill_heap i (map ints_text (vs # vss)) h = (h2, map (ints_text \<circ> tl) (vs # vss))"
    using h2(1) by (simp add: h1_def split: if_splits)
  with h2 h1 show ?case by auto
qed simp

lemma sorted_mset_eq: "sorted xs \<Longrightarrow> mset xs = mset ys \<Longrightarrow> xs = sort (ys :: int list)"
  by (simp add: properties_for_sort)

lemma merge_pop:
  assumes inv: "merge_inv h vss" and h: "h \<noteq> []"
  obtains v i h1 where "heap_Pop fst h = Some ((v, i), h1)" "heap_ok fst h1" "mset h = add_mset (v, i) (mset h1)"
    "i < length vss" "\<forall>y \<in> fst ` set h. v \<le> y" "\<forall>vs \<in> set vss. \<forall>x \<in> set vs. v \<le> x"
proof -
  obtain it h1 where pop: "heap_Pop fst h = Some (it, h1)" "heap_ok fst h1" "mset h = add_mset it (mset h1)"
    "\<forall>y \<in> set h. fst it \<le> fst y"
    by (rule heap_Pop_ok[of fst h]) (use inv h in \<open>auto simp: merge_inv_def\<close>)
  have "it \<in> set h" using pop(3) by (metis set_mset_mset union_single_eq_member)
  moreover have "fst it \<le> x" if vs: "vs \<in> set vss" "x \<in> set vs" for vs x
  proof -
    have "vs \<noteq> []" using vs(2) by auto
    moreover obtain k where k: "k < length vss" "vs = vss ! k" using vs(1) by (auto simp: in_set_conv_nth)
    ultimately obtain w where "(w, k) \<in> set h" "\<forall>x \<in> set (vss ! k). w \<le> x"
      using inv unfolding merge_inv_def by blast
    then have "w \<le> x" using vs(2) k by simp
    moreover have "fst it \<le> w" using pop(4) \<open>(w, k) \<in> set h\<close> by force
    ultimately show ?thesis by simp
  qed
  ultimately show ?thesis
    using that[of "fst it" "snd it" h1] pop inv by (auto simp: merge_inv_def)
qed

lemma concat_mset_update:
  "i < length vss \<Longrightarrow> vss ! i = x # xs \<Longrightarrow> mset (concat vss) = add_mset x (mset (concat (vss[i := xs])))"
proof (induction vss arbitrary: i)
  case (Cons vs vss)
  then show ?case by (cases i) auto
qed simp

lemma merge_loop_ok:
  "merge_inv h vss \<Longrightarrow> merge_loop h (map ints_text vss) = Some (ints_text (sort (map fst h @ concat vss)))"
proof (induction "length h + length (concat vss)" arbitrary: h vss rule: less_induct)
  case less
  show ?case
  proof (cases "h = []")
    case True
    then have "vs = []" if "vs \<in> set vss" for vs
      using that less.prems by (auto simp: merge_inv_def in_set_conv_nth)
    then have "concat vss = []" by auto
    then show ?thesis unfolding True by (simp add: merge_loop.simps[of "[]"] heap_Pop_def del: concat_eq_Nil_conv)
  next
    case False
    obtain v i h1 where p: "heap_Pop fst h = Some ((v, i), h1)" "heap_ok fst h1" "mset h = add_mset (v, i) (mset h1)"
      "i < length vss" "\<forall>y \<in> fst ` set h. v \<le> y" "\<forall>vs \<in> set vss. \<forall>x \<in> set vs. v \<le> x"
      by (rule merge_pop[OF less.prems False])
    define vs where "vs = vss ! i"
    have vs: "vs \<in> set vss" "sorted vs" "\<forall>x \<in> set vs. int64 x"
      using p(4) less.prems by (auto simp: vs_def merge_inv_def)
    define h2 where "h2 = (if vs = [] then h1 else heap_Push fst (hd vs, i) h1)"
    define vss2 where "vss2 = vss[i := tl vs]"
    have h2: "heap_ok fst h2" "mset h2 = mset h1 + mset (if vs = [] then [] else [(hd vs, i)])"
      using heap_Push_ok[OF p(2), of "(hd vs, i)"] p(2) by (simp_all add: h2_def)
    have set_h: "set h = insert (v, i) (set h1)" using p(3) by (metis set_mset_add_mset_insert set_mset_mset)
    have set_h2: "set h2 = (if vs = [] then set h1 else insert (hd vs, i) (set h1))"
      using mset_eq_setD[of h2 "h1 @ (if vs = [] then [] else [(hd vs, i)])"] h2(2) by auto
    have inv2: "merge_inv h2 vss2" unfolding merge_inv_def
    proof (intro conjI ballI allI impI)
      show "heap_ok fst h2" by (rule h2)
      show "snd it < length vss2" if "it \<in> set h2" for it
        using that less.prems p(4) set_h set_h2 by (auto simp: merge_inv_def vss2_def split: if_splits)
      show "int64 w" if "ws \<in> set vss2" "w \<in> set ws" for ws w
      proof -
        have "set (tl vs) \<subseteq> set vs" by (cases vs) auto
        moreover have "ws = tl vs \<or> ws \<in> set vss"
          using that(1) set_update_subset_insert[of vss i "tl vs"] by (auto simp: vss2_def)
        moreover have "\<forall>ws \<in> set vss. \<forall>w \<in> set ws. int64 w" using less.prems by (simp add: merge_inv_def)
        ultimately show ?thesis using that(2) vs(3) by blast
      qed
      show "sorted ws" if "ws \<in> set vss2" for ws
        using that less.prems vs set_update_subset_insert[of vss i "tl vs"] by (auto simp: merge_inv_def vss2_def sorted_tl)
      fix j assume j: "j < length vss2" "vss2 ! j \<noteq> []"
      show "\<exists>v. (v, j) \<in> set h2 \<and> (\<forall>x \<in> set (vss2 ! j). v \<le> x)"
      proof (cases "j = i")
        case True
        with j p(4) have tl: "vss2 ! j = tl vs" "tl vs \<noteq> []" by (simp_all add: vss2_def)
        then have "vs = hd vs # tl vs" by (metis list.exhaust_sel list.sel(2))
        then have "\<forall>x \<in> set (tl vs). hd vs \<le> x" using vs(2) by (metis sorted_simps(2))
        with tl set_h2 True show ?thesis by auto
      next
        case False
        then have "vss2 ! j = vss ! j" "j < length vss" using j(1) by (simp_all add: vss2_def)
        then obtain w where "(w, j) \<in> set h" "\<forall>x \<in> set (vss2 ! j). w \<le> x"
          using less.prems j(2) by (auto simp: merge_inv_def)
        with False set_h set_h2 show ?thesis by auto
      qed
    qed
    have "mset (map fst h) = add_mset v (mset (map fst h1))" using p(3) by simp
    moreover have "mset (map fst h2) = mset (map fst h1) + mset (if vs = [] then [] else [hd vs])"
      using h2(2) by (simp split: if_splits)
    moreover have "mset (concat vss) = mset (if vs = [] then [] else [hd vs]) + mset (concat vss2)"
    proof (cases "vs = []")
      case True
      then have "vss2 = vss" unfolding vss2_def by (metis list.sel(2) list_update_id vs_def)
      with True show ?thesis by simp
    next
      case False
      then show ?thesis using concat_mset_update[OF p(4), of "hd vs" "tl vs"] by (simp add: vs_def vss2_def)
    qed
    ultimately have vals: "mset (map fst h @ concat vss) = add_mset v (mset (map fst h2 @ concat vss2))"
      by (simp add: add.commute add.left_commute)
    have "next_int (ints_text vs) = (if vs = [] then None else Some (hd vs), ints_text (tl vs))"
      using vs(3) next_int_text by (cases vs) auto
    moreover have "nth_opt (map ints_text vss) i = Some (ints_text vs)" using p(4) by (simp add: nth_opt_def vs_def)
    ultimately have step: "merge_loop h (map ints_text vss) =
        map_option (\<lambda>rest. Itoa v @ newline # rest) (merge_loop h2 (map ints_text vss2))"
      using merge_loop.simps[of h "map ints_text vss"] p(1) by (simp add: h2_def vss2_def map_update Let_def)
    have "length (map fst h2 @ concat vss2) < length (map fst h @ concat vss)"
      using vals by (metis size_mset size_add_mset lessI)
    then have IH: "merge_loop h2 (map ints_text vss2) = Some (ints_text (sort (map fst h2 @ concat vss2)))"
      by (intro less.hyps inv2) simp
    have "v \<le> x" if "x \<in> set (map fst h2 @ concat vss2)" for x
    proof -
      have "x \<in># add_mset v (mset (map fst h2 @ concat vss2))" using that by simp
      then have "x \<in> set (map fst h @ concat vss)" unfolding vals[symmetric] by (simp only: set_mset_mset)
      then show ?thesis using p(5,6) by auto
    qed
    then have "v # sort (map fst h2 @ concat vss2) = sort (map fst h @ concat vss)"
      using vals by (intro sorted_mset_eq) auto
    with step IH show ?thesis by (metis ints_text_simps(2) option.simps(9))
  qed
qed

definition stored :: "files \<Rightarrow> string list \<Rightarrow> int list list \<Rightarrow> bool" where
  "stored fs ns vss \<longleftrightarrow>
     list_all2 (\<lambda>n vs. fs n = Some (ints_text vs) \<and> sorted vs \<and> (\<forall>v \<in> set vs. int64 v)) ns vss"

lemma stored_values: "stored fs ns vss \<Longrightarrow> \<forall>vs \<in> set vss. sorted vs \<and> (\<forall>v \<in> set vs. int64 v)"
  unfolding stored_def by (induction rule: list_all2_induct) auto

lemma stored_length: "stored fs ns vss \<Longrightarrow> length ns = length vss"
  unfolding stored_def by (rule list_all2_lengthD)

lemma stored_cong: "stored fs ns vss \<Longrightarrow> (\<And>p. p \<in> set ns \<Longrightarrow> fs' p = fs p) \<Longrightarrow> stored fs' ns vss"
  by (auto simp: stored_def list_all2_conv_all_nth)

lemma stored_take: "stored fs ns vss \<Longrightarrow> stored fs (take n ns) (take n vss)"
  and stored_drop: "stored fs ns vss \<Longrightarrow> stored fs (drop n ns) (drop n vss)"
  by (simp_all add: stored_def list_all2_takeI list_all2_dropI)

lemma open_all_stored: "stored fs ns vss \<Longrightarrow> open_all ns fs = Inr (map ints_text vss)"
  unfolding stored_def by (induction rule: list_all2_induct) simp_all

lemma mset_first_items:
  "mset (map fst (first_items i vss)) + mset (concat (map tl vss)) = mset (concat vss)"
proof (induction i vss rule: first_items.induct)
  case (2 i vs vss)
  then show ?case by (cases vs) (simp_all add: add.commute add.left_commute)
qed simp

lemma mergeRuns_ok:
  assumes "stored fs ns vss"
  shows "mergeRuns ns out fs = Some (None, fs(out \<mapsto> ints_text (sort (concat vss))))"
proof -
  note vals = stored_values[OF assms]
  obtain h where h: "fill_heap 0 (map ints_text vss) [] = (h, map (ints_text \<circ> tl) vss)" "heap_ok fst h"
    "mset h = mset (first_items 0 vss)"
    using fill_heap_ok[of vss "[]" 0] vals by (auto simp: heap_ok_def)
  have set_h: "it \<in> set h \<longleftrightarrow> (\<exists>k < length vss. it = (hd (vss ! k), k) \<and> vss ! k \<noteq> [])" for it
    using set_first_items[of it 0 vss] mset_eq_setD[OF h(3)] by auto
  have tl: "sorted (tl vs)" "\<forall>v \<in> set (tl vs). int64 v" "\<forall>x \<in> set (tl vs). hd vs \<le> x" if "vs \<in> set vss" for vs
    using vals that by (cases vs; auto)+
  have "merge_inv h (map tl vss)" unfolding merge_inv_def
  proof (intro conjI ballI allI impI)
    fix i assume i: "i < length (map tl vss)" "map tl vss ! i \<noteq> []"
    then have "(hd (vss ! i), i) \<in> set h" using set_h by (metis length_map list.sel(2) nth_map)
    moreover have "\<forall>x \<in> set (map tl vss ! i). hd (vss ! i) \<le> x" using tl(3)[of "vss ! i"] i(1) by simp
    ultimately show "\<exists>v. (v, i) \<in> set h \<and> (\<forall>x \<in> set (map tl vss ! i). v \<le> x)" by blast
  qed (use h(2) set_h tl in auto)
  from merge_loop_ok[OF this]
  have "merge_loop h (map (ints_text \<circ> tl) vss) = Some (ints_text (sort (map fst h @ concat (map tl vss))))"
    by simp
  moreover have "sort (map fst h @ concat (map tl vss)) = sort (concat vss)"
  proof (rule sorted_mset_eq)
    have "mset (map fst h) = mset (map fst (first_items 0 vss))" using h(3) by (metis mset_map)
    then show "mset (sort (map fst h @ concat (map tl vss))) = mset (concat vss)"
      using mset_first_items[of 0 vss] by simp
  qed simp
  ultimately show ?thesis using open_all_stored[OF assms] h(1) by (simp add: mergeRuns_def)
qed

subsection \<open>Chunks\<close>

function chunks :: "nat \<Rightarrow> 'a list \<Rightarrow> 'a list list" where
  "chunks c xs = (if c = 0 \<or> xs = [] then [] else take c xs # chunks c (drop c xs))"
  by auto
termination by (relation "measure (\<lambda>(c, xs). length xs)") auto

declare chunks.simps [simp del]

lemma chunks_Nil [simp]: "chunks c [] = []"
  by (simp add: chunks.simps)

lemma concat_chunks: "0 < c \<Longrightarrow> concat (chunks c xs) = xs"
proof (induction c xs rule: chunks.induct)
  case (1 c xs)
  then show ?case by (cases "xs = []") (simp_all add: chunks.simps[of c xs])
qed

lemma mset_concat_sort: "mset (concat (map (sort \<circ> f) xss)) = mset (concat (map f xss))"
  by (induction xss) auto

lemma chunks_short: "xs \<noteq> [] \<Longrightarrow> length xs \<le> c \<Longrightarrow> chunks c xs = [xs]"
  by (cases xs) (auto simp: chunks.simps[of c "_ # _"])

lemma chunks_append: "length xs = c \<Longrightarrow> 0 < c \<Longrightarrow> chunks c (xs @ ys) = xs # chunks c ys"
  by (subst chunks.simps) auto

lemma length_chunks:
  "0 < c \<Longrightarrow> length (chunks c xs) * c < length xs + c \<and> length xs \<le> length (chunks c xs) * c"
proof (induction c xs rule: chunks.induct)
  case (1 c xs)
  show ?case
  proof (cases "xs = []")
    case False
    then have len: "length (chunks c xs) = Suc (length (chunks c (drop c xs)))" using "1.prems" by (simp add: chunks.simps[of c xs])
    show ?thesis
    proof (cases "length xs \<le> c")
      case True
      then have "length (chunks c xs) = 1" using False len by simp
      then show ?thesis using True False by (cases xs) auto
    next
      case c: False
      then show ?thesis using "1.IH" False "1.prems" len by auto
    qed
  qed (use "1.prems" in simp)
qed

subsection \<open>Names\<close>

lemma Itoa_int: "Itoa (int n) = decimal n"
  by (simp add: Itoa_def del: decimal.simps)

lemma run_name_inj: "run_name cfg i = run_name cfg j \<longleftrightarrow> i = j"
  by (auto simp: run_name_def dest: padded_inj)

lemma decimal_dash: "decimal a @ CHR ''-'' # x = decimal b @ CHR ''-'' # y \<Longrightarrow> a = b \<and> x = y"
proof -
  assume eq: "decimal a @ CHR ''-'' # x = decimal b @ CHR ''-'' # y"
  have tw: "takeWhile (\<lambda>c. c \<noteq> CHR ''-'') (decimal n @ CHR ''-'' # z) = decimal n" for n z
  proof -
    have "c \<noteq> CHR ''-''" if "c \<in> set (decimal n)" for c
      using decimal_char[OF that] by (auto simp: is_digit_def)
    then show ?thesis by (auto simp: takeWhile_tail simp del: decimal.simps)
  qed
  then have "decimal a = decimal b" using eq by metis
  then show "a = b \<and> x = y" using decimal_inj eq by (metis append_same_eq list.inject same_append_eq)
qed

lemma merge_name_inj: "merge_name cfg p (int i) = merge_name cfg q (int j) \<longleftrightarrow> p = q \<and> i = j"
proof
  assume "merge_name cfg p (int i) = merge_name cfg q (int j)"
  then have "decimal p @ CHR ''-'' # (decimal i @ ''.tmp'') = decimal q @ CHR ''-'' # (decimal j @ ''.tmp'')"
    by (simp add: merge_name_def Itoa_int del: decimal.simps)
  from decimal_dash[OF this] show "p = q \<and> i = j" using decimal_inj by (metis append_same_eq)
qed simp

lemma run_merge_name: "run_name cfg i \<noteq> merge_name cfg p j"
  by (simp add: run_name_def merge_name_def del: decimal.simps)

subsection \<open>Passes\<close>

abbreviation merged :: "int list list \<Rightarrow> int list" where
  "merged vss \<equiv> sort (concat vss)"

lemma slice_drop: "i < length xs \<Longrightarrow> 0 < W \<Longrightarrow>
  slice xs (int i) (min (int i + int W) (int (length xs))) = Some (take W (drop i xs))"
  by (auto simp: slice_def min_def nat_add_distrib nat_diff_distrib)

lemma group_step:
  assumes W: "MaxMergeWidth cfg = int W" "0 < W" and i: "i < length current"
    and st: "stored fs (drop i current) vss"
  shows "merge_groups cfg pass out current (int i) nexts fs =
    (let t = (if length current > W then merge_name cfg pass (int i) else if i = 0 then out else merge_name cfg pass (int i)) in
     merge_groups cfg pass out current (int (i + W)) (nexts @ [t]) (fs(t \<mapsto> ints_text (merged (take W vss)))))"
proof -
  have "mergeRuns (take W (drop i current)) t fs = Some (None, fs(t \<mapsto> ints_text (merged (take W vss))))" for t
    by (rule mergeRuns_ok[OF stored_take[OF st]])
  moreover have "(int (length current) > int W \<or> min (int i + int W) (int (length current)) - int i < int (length current)) =
      (length current > W \<or> i \<noteq> 0)"
    using i W(2) by auto
  ultimately show ?thesis
    by (subst merge_groups.simps) (use i in \<open>auto simp: W(1) slice_drop[OF i W(2)] Let_def\<close>)
qed

lemma groups_many:
  assumes W: "MaxMergeWidth cfg = int W" "0 < W" and len: "W < length current"
    and fresh: "\<And>j. merge_name cfg pass (int j) \<notin> set current"
  shows "stored fs (drop i current) vss \<Longrightarrow>
    \<exists>ts fs'. merge_groups cfg pass out current (int i) nexts fs = Some (Inr (nexts @ ts), fs') \<and>
      stored fs' ts (map merged (chunks W vss)) \<and> (\<forall>p. p \<notin> set ts \<longrightarrow> fs' p = fs p) \<and>
      (\<forall>p \<in> set ts. \<exists>j. i \<le> j \<and> p = merge_name cfg pass (int j))"
proof (induction "length current - i" arbitrary: i nexts fs vss rule: less_induct)
  case less
  show ?case
  proof (cases "i < length current")
    case True
    define t where "t = merge_name cfg pass (int i)"
    define fs1 where "fs1 = fs(t \<mapsto> ints_text (merged (take W vss)))"
    have step: "merge_groups cfg pass out current (int i) nexts fs =
        merge_groups cfg pass out current (int (i + W)) (nexts @ [t]) fs1"
      using group_step[OF W True less.prems] len by (simp add: t_def fs1_def Let_def)
    have "stored fs (drop (i + W) current) (drop W vss)"
      using stored_drop[OF less.prems, of W] by (simp add: add.commute)
    then have "stored fs1 (drop (i + W) current) (drop W vss)"
      by (rule stored_cong) (use fresh[of i] in \<open>auto simp: fs1_def t_def dest: in_set_dropD\<close>)
    moreover have "length current - (i + W) < length current - i" using True W(2) by simp
    ultimately obtain ts fs' where IH:
      "merge_groups cfg pass out current (int (i + W)) (nexts @ [t]) fs1 = Some (Inr ((nexts @ [t]) @ ts), fs')"
      "stored fs' ts (map merged (chunks W (drop W vss)))" "\<forall>p. p \<notin> set ts \<longrightarrow> fs' p = fs1 p"
      "\<forall>p \<in> set ts. \<exists>j. i + W \<le> j \<and> p = merge_name cfg pass (int j)"
      using less.hyps by blast
    have "t \<notin> set ts" using IH(4) W(2) by (auto simp: t_def merge_name_inj)
    then have "fs' t = Some (ints_text (merged (take W vss)))" using IH(3) by (simp add: fs1_def)
    moreover have "\<forall>v \<in> set (merged (take W vss)). int64 v"
      using stored_values[OF less.prems] by (auto dest: in_set_takeD)
    moreover have "vss \<noteq> []" using stored_length[OF less.prems] True by auto
    then have "map merged (chunks W vss) = merged (take W vss) # map merged (chunks W (drop W vss))"
      using W(2) by (simp add: chunks.simps[of W vss])
    ultimately have "stored fs' (t # ts) (map merged (chunks W vss))" using IH(2) by (simp add: stored_def)
    moreover have "\<forall>p. p \<notin> set (t # ts) \<longrightarrow> fs' p = fs p" using IH(3) by (simp add: fs1_def)
    moreover have "\<forall>p \<in> set (t # ts). \<exists>j. i \<le> j \<and> p = merge_name cfg pass (int j)"
      using IH(4) by (auto simp: t_def intro: exI[of _ i]) (metis add_leD1)
    ultimately show ?thesis using step IH(1) by (intro exI[of _ "t # ts"] exI[of _ fs']) simp
  next
    case False
    then have "vss = []" using stored_length[OF less.prems] by simp
    with False show ?thesis by (subst merge_groups.simps) (auto simp: stored_def)
  qed
qed

lemma groups_one:
  assumes W: "MaxMergeWidth cfg = int W" "0 < W" and len: "length current \<le> W" "current \<noteq> []" and st: "stored fs current vss"
  shows "merge_groups cfg pass out current 0 [] fs = Some (Inr [out], fs(out \<mapsto> ints_text (merged vss)))"
proof -
  have "take W vss = vss" using stored_length[OF st] len(1) by simp
  then have "merge_groups cfg pass out current 0 [] fs =
      merge_groups cfg pass out current (int W) [out] (fs(out \<mapsto> ints_text (merged vss)))"
    using group_step[OF W, of 0 current fs vss pass out "[]"] len st by simp
  also have "\<dots> = Some (Inr [out], fs(out \<mapsto> ints_text (merged vss)))"
    by (subst merge_groups.simps) (use len(1) in simp)
  finally show ?thesis .
qed

lemma removes_apply: "removes ps fs p = (if p \<in> set ps then None else fs p)"
  unfolding removes_def by (induction ps arbitrary: fs) auto

text \<open>The paths of the intermediate files.\<close>

definition reserved :: "Config \<Rightarrow> string \<Rightarrow> bool" where
  "reserved cfg p \<longleftrightarrow>
     (let d = TempDir cfg in take (length d) p = d \<and>
        (take 5 (drop (length d) p) = ''/run-'' \<or> take 7 (drop (length d) p) = ''/merge-''))"

lemma reserved_names: "reserved cfg (run_name cfg i)" "reserved cfg (merge_name cfg p j)"
  by (simp_all add: reserved_def run_name_def merge_name_def del: decimal.simps)

definition pass_name :: "Config \<Rightarrow> nat \<Rightarrow> string \<Rightarrow> bool" where
  "pass_name cfg pass p \<longleftrightarrow> (\<exists>i. p = run_name cfg i) \<or> (\<exists>q j. q \<le> pass \<and> p = merge_name cfg q (int j))"

lemma pass_name_fresh: "pass_name cfg pass p \<Longrightarrow> p \<noteq> merge_name cfg (Suc pass) (int j)"
  using run_merge_name by (auto simp: pass_name_def merge_name_inj dest: sym)

lemma pass_name_reserved: "pass_name cfg pass p \<Longrightarrow> reserved cfg p"
  using reserved_names by (auto simp: pass_name_def)

definition rounds :: "nat \<Rightarrow> nat \<Rightarrow> nat \<Rightarrow> bool" where
  "rounds W n r \<longleftrightarrow> n \<le> W ^ r \<and> (0 < r \<longrightarrow> W ^ (r - 1) < n)"

lemma rounds_step:
  assumes "rounds W m r" and "m * W < n + W" and "n \<le> m * W" and "1 < m"
  shows "rounds W n (Suc r)"
proof -
  have "0 < r" using assms(1,4) by (cases r) (auto simp: rounds_def)
  then obtain k where r: "r = Suc k" by (cases r) auto
  have "Suc (W ^ k) \<le> m" using assms(1) by (simp add: rounds_def r)
  then have "Suc (W ^ k) * W \<le> m * W" by (rule mult_le_mono1)
  then have "W ^ r < n" using assms(2) by (simp add: r mult.commute)
  moreover have "m * W \<le> W ^ r * W" using assms(1) by (intro mult_le_mono1) (simp add: rounds_def)
  ultimately have "W ^ r < n" "n \<le> W ^ r * W" using assms(3) by (simp, metis order.trans)
  then show ?thesis by (simp add: rounds_def mult.commute[of W])
qed

lemma passes_ok:
  assumes W: "MaxMergeWidth cfg = int W" "1 < W"
    and base: "\<And>p. reserved cfg p \<Longrightarrow> base p = None" and out: "\<not> reserved cfg out"
  shows "stored fs current vss \<Longrightarrow> 1 < length current \<Longrightarrow> \<forall>p \<in> set current. pass_name cfg pass p \<Longrightarrow>
    \<forall>p. p \<notin> set current \<longrightarrow> fs p = base p \<Longrightarrow>
    \<exists>r. merge_passes cfg out current pass fs = Some (Inr [out], pass + r, base(out \<mapsto> ints_text (merged vss))) \<and>
      rounds W (length current) r"
proof (induction "length current" arbitrary: fs current vss pass rule: less_induct)
  case less
  have W0: "0 < W" using W(2) by simp
  have none: "base p = None" "p \<noteq> out" if "p \<in> set current" for p
    using less.prems(3) that pass_name_reserved[of cfg pass p] base[of p] out by auto
  note unfold = merge_passes.simps[of cfg out current pass fs]
  show ?case
  proof (cases "length current \<le> W")
    case True
    have "current \<noteq> []" using less.prems(2) by auto
    have "merge_passes cfg out current pass fs =
        merge_passes cfg out [out] (pass + 1) (removes current (fs(out \<mapsto> ints_text (merged vss))))"
      using unfold groups_one[OF W(1) W0 True \<open>current \<noteq> []\<close> less.prems(1)] less.prems(2) by simp
    also have "removes current (fs(out \<mapsto> ints_text (merged vss))) = base(out \<mapsto> ints_text (merged vss))"
      using none less.prems(4) by (auto simp: fun_eq_iff removes_apply)
    also have "merge_passes cfg out [out] (pass + 1) (base(out \<mapsto> ints_text (merged vss))) =
        Some (Inr [out], pass + 1, base(out \<mapsto> ints_text (merged vss)))"
      by (simp add: merge_passes.simps[of cfg out "[out]"])
    finally show ?thesis using True less.prems(2) by (intro exI[of _ 1]) (simp add: rounds_def)
  next
    case False
    have fresh: "merge_name cfg (pass + 1) (int j) \<notin> set current" for j
      using less.prems(3) pass_name_fresh by fastforce
    have "\<exists>ts fs'. merge_groups cfg (pass + 1) out current 0 [] fs = Some (Inr ts, fs') \<and>
      stored fs' ts (map merged (chunks W vss)) \<and> (\<forall>p. p \<notin> set ts \<longrightarrow> fs' p = fs p) \<and>
      (\<forall>p \<in> set ts. \<exists>j. p = merge_name cfg (pass + 1) (int j))"
      using groups_many[OF W(1) W0 _ fresh, where i = 0 and fs = fs and vss = vss and out = out and nexts = "[]"]
        less.prems(1) False by simp
    then obtain ts fs' where g: "merge_groups cfg (pass + 1) out current 0 [] fs = Some (Inr ts, fs')"
      "stored fs' ts (map merged (chunks W vss))" "\<And>p. p \<notin> set ts \<Longrightarrow> fs' p = fs p"
      "\<And>p. p \<in> set ts \<Longrightarrow> \<exists>j. p = merge_name cfg (pass + 1) (int j)" by blast
    define fs1 where "fs1 = removes current fs'"
    have disj: "p \<notin> set current" if "p \<in> set ts" for p using g(4)[OF that] fresh by auto
    have len: "length ts * W < length current + W" "length current \<le> length ts * W"
      using length_chunks[OF W0, of vss] stored_length[OF g(2)] stored_length[OF less.prems(1)] by simp_all
    have ts: "1 < length ts" "length ts < length current"
    proof -
      show "1 < length ts"
      proof (rule ccontr)
        assume "\<not> 1 < length ts"
        then have "length ts * W \<le> 1 * W" by (intro mult_le_mono1) simp
        with len(2) False show False by simp
      qed
      show "length ts < length current"
      proof (rule ccontr)
        assume "\<not> length ts < length current"
        then have "length current * W < length current + W" using len(1) by (meson le_less_trans mult_le_mono1 not_less)
        moreover have "length current + W \<le> length current * W"
          using less.prems(2) W(2) by (cases "length current"; cases W) auto
        ultimately show False by simp
      qed
    qed
    have eq: "merge_passes cfg out current pass fs = merge_passes cfg out ts (pass + 1) fs1"
      using unfold g(1) less.prems(2) by (simp add: fs1_def)
    have st: "stored fs1 ts (map merged (chunks W vss))"
      by (rule stored_cong[OF g(2)]) (simp add: fs1_def removes_apply disj)
    have names: "\<forall>p \<in> set ts. pass_name cfg (pass + 1) p" using g(4) by (fastforce simp: pass_name_def)
    have others: "\<forall>p. p \<notin> set ts \<longrightarrow> fs1 p = base p"
      using g(3) none less.prems(4) by (auto simp: fs1_def removes_apply)
    obtain r where r: "merge_passes cfg out ts (pass + 1) fs1 =
        Some (Inr [out], pass + 1 + r, base(out \<mapsto> ints_text (merged (map merged (chunks W vss)))))"
      "rounds W (length ts) r"
      using less.hyps[OF ts(2) st ts(1) names others] by blast
    have "merged (map merged (chunks W vss)) = merged vss"
    proof (rule sorted_mset_eq)
      have "mset (concat (map merged (chunks W vss))) = mset (concat (map concat (chunks W vss)))"
        using mset_concat_sort[of concat "chunks W vss"] by (simp add: comp_def)
      also have "concat (map concat (chunks W vss)) = concat (concat (chunks W vss))"
      proof -
        have "concat (map concat xsss) = concat (concat xsss)" for xsss :: "int list list list"
          by (induction xsss) simp_all
        then show ?thesis .
      qed
      finally show "mset (merged (map merged (chunks W vss))) = mset (concat vss)" by (simp add: concat_chunks[OF W0])
    qed simp
    moreover have "rounds W (length current) (Suc r)" using rounds_step[OF r(2) len ts(1)] .
    ultimately show ?thesis using eq r(1) by auto
  qed
qed

subsection \<open>The split phase\<close>

text \<open>The numbers of an input file: one on each line, or \<open>None\<close> where \<open>splitIntoSortedRuns\<close> fails.\<close>

function input_ints :: "string \<Rightarrow> int list option" where
  "input_ints s =
     (case scanner_Scan s of
        Inl e \<Rightarrow> if e then None else Some []
      | Inr (line, rest) \<Rightarrow> do { v \<leftarrow> Atoi line; vs \<leftarrow> input_ints rest; Some (v # vs) })"
  by auto
termination by (relation "measure length") (auto dest: scanner_Scan_less)

declare input_ints.simps [simp del]

lemma Atoi_int64: "Atoi s = Some v \<Longrightarrow> int64 v"
  by (auto simp: Atoi_def int64_def Let_def split: if_splits)

lemma input_ints_text: "\<forall>v \<in> set vs. int64 v \<Longrightarrow> input_ints (ints_text vs) = Some vs"
proof (induction vs)
  case Nil
  show ?case by (simp add: input_ints.simps[of "[]"])
next
  case (Cons v vs)
  then show ?case using scan_Itoa[of v "ints_text vs"]
    by (simp add: input_ints.simps[of "_ @ _"] Atoi_Itoa)
qed

lemma input_ints_cases:
  assumes "input_ints s = Some vs"
  obtains (eof) "scanner_Scan s = Inl False" "vs = []"
  | (line) l rest v vs' where "scanner_Scan s = Inr (l, rest)" "Atoi l = Some v" "input_ints rest = Some vs'" "vs = v # vs'"
  using assms by (auto simp: input_ints.simps[of s] bind_eq_Some_conv split: sum.splits if_splits)

lemma input_ints_int64: "input_ints s = Some vs \<Longrightarrow> \<forall>v \<in> set vs. int64 v"
proof (induction vs arbitrary: s)
  case (Cons v vs)
  from Cons.prems show ?case
    by (cases rule: input_ints_cases) (use Cons.IH Atoi_int64 in auto)
qed simp

fun put_runs :: "Config \<Rightarrow> nat \<Rightarrow> int list list \<Rightarrow> files \<Rightarrow> files" where
  "put_runs cfg k [] fs = fs"
| "put_runs cfg k (c # cs) fs = put_runs cfg (Suc k) cs (writeInts (run_name cfg k) (sort c) fs)"

fun run_names :: "Config \<Rightarrow> nat \<Rightarrow> nat \<Rightarrow> string list" where
  "run_names cfg k 0 = []"
| "run_names cfg k (Suc n) = run_name cfg k # run_names cfg (Suc k) n"

lemma length_run_names [simp]: "length (run_names cfg k n) = n"
  by (induction n arbitrary: k) simp_all

lemma set_run_names: "p \<in> set (run_names cfg k n) \<Longrightarrow> \<exists>i \<ge> k. p = run_name cfg i"
proof (induction n arbitrary: k)
  case (Suc n)
  then show ?case by (auto dest!: Suc.IH) (metis Suc_leD)
qed simp

lemma put_runs_other: "p \<notin> set (run_names cfg k (length cs)) \<Longrightarrow> put_runs cfg k cs fs p = fs p"
proof (induction cs arbitrary: k fs)
  case (Cons c cs)
  from Cons.prems show ?case by (simp add: Cons.IH writeInts_def)
qed simp

lemma put_runs_stored:
  "\<forall>c \<in> set cs. \<forall>v \<in> set c. int64 v \<Longrightarrow> stored (put_runs cfg k cs fs) (run_names cfg k (length cs)) (map sort cs)"
proof (induction cs arbitrary: k fs)
  case (Cons c cs)
  have "run_name cfg k \<notin> set (run_names cfg (Suc k) (length cs))"
    using set_run_names[of "run_name cfg k" cfg "Suc k"] by (auto simp: run_name_inj)
  then have "put_runs cfg k (c # cs) fs (run_name cfg k) = Some (ints_text (sort c))"
    by (simp add: put_runs_other writeInts_def)
  moreover have "stored (put_runs cfg k (c # cs) fs) (run_names cfg (Suc k) (length cs)) (map sort cs)"
    using Cons by simp
  ultimately show ?case using Cons.prems by (simp add: stored_def)
qed (simp add: stored_def)

lemma split_loop_ok:
  assumes c: "c = max 1 (nat (ChunkSize cfg))" "0 \<le> ChunkSize cfg"
  shows "input_ints s = Some vs \<Longrightarrow> length buf < c \<Longrightarrow>
    split_loop cfg s buf n runs fs =
      (Inr (runs @ run_names cfg (length runs) (length (chunks c (buf @ vs))), n + length vs),
       put_runs cfg (length runs) (chunks c (buf @ vs)) fs)"
proof (induction vs arbitrary: s buf n runs fs)
  case Nil
  then have "scanner_Scan s = Inl False" by (auto elim: input_ints_cases)
  then show ?case using Nil.prems(2) chunks_short[of buf c]
    by (cases "buf = []") (simp_all add: split_loop.simps[of cfg s] split_flush_def Let_def)
next
  case (Cons v vs)
  obtain l rest where l: "scanner_Scan s = Inr (l, rest)" "Atoi l = Some v" "input_ints rest = Some vs"
    using Cons.prems(1) by (auto elim: input_ints_cases)
  have full: "int (length (buf @ [v])) \<ge> ChunkSize cfg \<longleftrightarrow> length (buf @ [v]) = c"
    using Cons.prems(2) c by auto
  show ?case
  proof (cases "length (buf @ [v]) = c")
    case True
    have "chunks c (buf @ v # vs) = (buf @ [v]) # chunks c vs"
      using chunks_append[OF True, of vs] c by simp
    moreover have "split_loop cfg s buf n runs fs =
        split_loop cfg rest [] (n + 1) (runs @ [run_name cfg (length runs)]) (writeInts (run_name cfg (length runs)) (sort (buf @ [v])) fs)"
      using l full True by (simp add: split_loop.simps[of cfg s] split_flush_def Let_def)
    moreover have "length [] < c" using c by simp
    ultimately show ?thesis using Cons.IH[OF l(3)] by simp
  next
    case False
    then have "split_loop cfg s buf n runs fs = split_loop cfg rest (buf @ [v]) (n + 1) runs fs"
      using l full by (simp add: split_loop.simps[of cfg s] Let_def)
    moreover have "length (buf @ [v]) < c" using False Cons.prems(2) by simp
    ultimately show ?thesis using Cons.IH[OF l(3), of "buf @ [v]"] by simp
  qed
qed

subsection \<open>Properties\<close>

abbreviation chunk_len :: "Config \<Rightarrow> nat" where
  "chunk_len cfg \<equiv> max 1 (nat (ChunkSize cfg))"

lemma merged_chunks: "0 < c \<Longrightarrow> merged (map sort (chunks c vs)) = sort vs"
proof -
  assume "0 < c"
  have "mset (concat (map sort xss)) = mset (concat xss)" for xss :: "int list list"
    by (induction xss) auto
  then show ?thesis using concat_chunks[OF \<open>0 < c\<close>, of vs] by (intro sorted_mset_eq) simp_all
qed

text \<open>What the split phase leaves: the runs stored, and nothing else changed.\<close>

lemma split_ok:
  assumes "fs inp = Some s" and "input_ints s = Some vs" and "0 \<le> ChunkSize cfg"
    and clean: "\<And>p. reserved cfg p \<Longrightarrow> fs p = None"
  obtains runs fs1 where "splitIntoSortedRuns inp cfg fs = Some (Inr (runs, length vs), fs1)"
    "stored fs1 runs (map sort (chunks (chunk_len cfg) vs))" "\<forall>p \<in> set runs. pass_name cfg 0 p"
    "\<forall>p. p \<notin> set runs \<longrightarrow> fs1 p = fs p" "length runs = length (chunks (chunk_len cfg) vs)"
proof -
  let ?c = "chunk_len cfg"
  let ?runs = "run_names cfg 0 (length (chunks ?c vs))" and ?fs1 = "put_runs cfg 0 (chunks ?c vs) fs"
  have "\<forall>v \<in> set (concat (chunks ?c vs)). int64 v" using input_ints_int64[OF assms(2)] by (simp add: concat_chunks)
  then have "\<forall>c \<in> set (chunks ?c vs). \<forall>v \<in> set c. int64 v" by auto
  then have "stored ?fs1 ?runs (map sort (chunks ?c vs))" by (rule put_runs_stored)
  moreover have "splitIntoSortedRuns inp cfg fs = Some (Inr (?runs, length vs), ?fs1)"
    using split_loop_ok[OF refl assms(3,2), of "[]" 0 "[]" fs] assms(1,3) by (simp add: splitIntoSortedRuns_def)
  moreover have "\<forall>p \<in> set ?runs. pass_name cfg 0 p" by (auto simp: pass_name_def dest: set_run_names)
  ultimately show ?thesis using put_runs_other by (intro that) auto
qed

text \<open>C12: the output is the sorted input, and nothing but the output is left.  With a merge width of at least 2 and
  an input of one number on each line, \<open>Sort\<close> returns without an error, \<open>out\<close> reads back as the sorted
  numbers, all intermediate files are removed, and the number of passes is the least \<open>r\<close> with
  \<open>Runs \<le> MaxMergeWidth ^ r\<close>.\<close>

theorem ext_sort_correct:
  assumes "fs inp = Some s" and "input_ints s = Some vs"
    and "0 \<le> ChunkSize cfg" and "2 \<le> MaxMergeWidth cfg"
    and out: "\<not> reserved cfg out" and clean: "\<forall>p. reserved cfg p \<longrightarrow> fs p = None"
  shows "\<exists>st. ext_Sort inp out cfg fs = Some ((st, None), fs(out \<mapsto> ints_text (sort vs))) \<and>
    readInts out (fs(out \<mapsto> ints_text (sort vs))) = Inr (sort vs) \<and>
    Records st = length vs \<and> Runs st = length (chunks (chunk_len cfg) vs) \<and>
    rounds (nat (MaxMergeWidth cfg)) (Runs st) (MergePasses st)"
proof -
  let ?c = "chunk_len cfg"
  define W where "W = nat (MaxMergeWidth cfg)"
  have W: "MaxMergeWidth cfg = int W" "1 < W" using assms(4) by (auto simp: W_def)
  obtain runs fs1 where sp: "splitIntoSortedRuns inp cfg fs = Some (Inr (runs, length vs), fs1)"
    "stored fs1 runs (map sort (chunks ?c vs))" "\<forall>p \<in> set runs. pass_name cfg 0 p"
    "\<forall>p. p \<notin> set runs \<longrightarrow> fs1 p = fs p" "length runs = length (chunks ?c vs)"
    by (rule split_ok[of fs inp s vs cfg]) (use assms in blast)+
  have none: "fs p = None" "p \<noteq> out" if "p \<in> set runs" for p
    using sp(3) that pass_name_reserved[of cfg 0 p] clean out by auto
  have merged: "merged (map sort (chunks ?c vs)) = sort vs" by (rule merged_chunks) simp
  have read: "readInts out (fs(out \<mapsto> ints_text (sort vs))) = Inr (sort vs)"
    using readInts_text[of "sort vs" "[]"] input_ints_int64[OF assms(2)] by (simp add: readInts_def)
  have removed: "removes runs (fs(out \<mapsto> x)) = fs(out \<mapsto> x)" for x
    using none by (auto simp: fun_eq_iff removes_apply)
  define st where "st = zero_Stats\<lparr>Records := length vs, Runs := length runs, PeakRecords := ChunkSize cfg\<rparr>"
  consider "length runs = 0" | "length runs = 1" | "1 < length runs" by linarith
  then show ?thesis
  proof cases
    case 1
    then have "vs = []" "runs = []" using sp(5) concat_chunks[of ?c vs] by auto
    moreover have "fs1 = fs" using sp(4) \<open>runs = []\<close> by auto
    ultimately have "ext_Sort inp out cfg fs = Some ((st, None), fs(out \<mapsto> ints_text (sort vs)))"
      using sp(1) removed by (simp add: ext_Sort_def st_def)
    then show ?thesis using read sp(5) \<open>vs = []\<close> by (intro exI[of _ st]) (simp add: st_def zero_Stats_def rounds_def)
  next
    case 2
    then obtain r where r: "runs = [r]" by (cases runs) auto
    obtain ws where ws: "map sort (chunks ?c vs) = [ws]" "fs1 r = Some (ints_text ws)"
      using sp(2) by (auto simp: r stored_def list_all2_Cons1)
    have "ws = sort vs" using merged ws(1) sp(2) by (simp add: stored_def r list_all2_Cons1)
        (metis sort_key_id_if_sorted sorted_sort sorted_sort_id)
    moreover have "fs1(r := None, out \<mapsto> x) = fs(out \<mapsto> x)" for x
      using sp(4) none[of r] by (auto simp: r fun_eq_iff)
    ultimately have "ext_Sort inp out cfg fs = Some ((st, None), fs(out \<mapsto> ints_text (sort vs)))"
      using sp(1) removed ws(2) by (simp add: ext_Sort_def st_def r file_rename_def)
    then show ?thesis using read sp(5) r by (intro exI[of _ st]) (simp add: st_def zero_Stats_def rounds_def)
  next
    case 3
    obtain n where n: "merge_passes cfg out runs 0 fs1 = Some (Inr [out], 0 + n, fs(out \<mapsto> ints_text (sort vs)))"
      "rounds W (length runs) n"
      using passes_ok[OF W _ out sp(2) 3 sp(3,4)] clean merged by metis
    then have "ext_Sort inp out cfg fs = Some ((st\<lparr>MergePasses := n\<rparr>, None), fs(out \<mapsto> ints_text (sort vs)))"
    proof -
      have "runs \<noteq> []" "length runs \<noteq> 1" using 3 by auto
      then show ?thesis using sp(1) removed n(1) by (simp add: ext_Sort_def st_def nth_opt_def Let_def)
    qed
    then show ?thesis using read sp(5) n(2)
      by (intro exI[of _ "st\<lparr>MergePasses := n\<rparr>"]) (simp add: st_def zero_Stats_def W_def)
  qed
qed

lemma ext_sort_correct_witness:
  "\<exists>st. ext_Sort ''in'' ''out'' \<lparr>ChunkSize = 2, TempDir = ''t'', MaxMergeWidth = 2\<rparr> [''in'' \<mapsto> ints_text [5, -3, 4, 1, 1]] =
      Some ((st, None), [''in'' \<mapsto> ints_text [5, -3, 4, 1, 1], ''out'' \<mapsto> ints_text [-3, 1, 1, 4, 5]]) \<and>
    Runs st = 3 \<and> rounds 2 3 (MergePasses st)"
proof -
  let ?cfg = "\<lparr>ChunkSize = 2, TempDir = ''t'', MaxMergeWidth = 2\<rparr>" and ?vs = "[5, -3, 4, 1, 1] :: int list"
  have "input_ints (ints_text ?vs) = Some ?vs" by (rule input_ints_text) (simp add: int64_def)
  moreover have "\<forall>p. reserved ?cfg p \<longrightarrow> [''in'' \<mapsto> ints_text ?vs] p = None" by (simp add: reserved_def)
  moreover have "length (chunks (Suc (Suc 0)) ?vs) = 3" by (simp add: chunks.simps)
  moreover have "sort ?vs = [-3, 1, 1, 4, 5]" by simp
  ultimately show ?thesis
    using ext_sort_correct[of "[''in'' \<mapsto> ints_text ?vs]" "''in''" "ints_text ?vs" ?vs ?cfg "''out''"]
    by (simp only: fun_upd_same Config.select_convs simp_thms) (auto simp add: reserved_def simp del: ints_text_simps)
qed

lemma groups_no_width:
  assumes ret: "merge_groups cfg pass out current i nexts fs = Some y" and "MaxMergeWidth cfg \<le> 0" and "0 \<le> i"
  shows "\<not> i < int (length current)"
proof -
  have "MaxMergeWidth cfg \<le> 0 \<longrightarrow> 0 \<le> i \<longrightarrow> \<not> i < int (length current)"
  proof (rule merge_groups.raw_induct[where P = "\<lambda>cfg pass out current i nexts fs y.
      MaxMergeWidth cfg \<le> 0 \<longrightarrow> 0 \<le> i \<longrightarrow> \<not> i < int (length current)", OF _ ret], intro impI notI)
    fix f :: "Config \<Rightarrow> nat \<Rightarrow> string \<Rightarrow> string list \<Rightarrow> int \<Rightarrow> string list \<Rightarrow> files \<Rightarrow> ((sort_error + string list) \<times> files) option"
    fix cfg pass out and current :: "string list" and i nexts fs y
    assume IH: "\<And>cfg pass out current i nexts fs y. f cfg pass out current i nexts fs = Some y \<Longrightarrow>
        MaxMergeWidth cfg \<le> 0 \<longrightarrow> 0 \<le> i \<longrightarrow> \<not> i < int (length current)"
      and width: "MaxMergeWidth cfg \<le> 0" and i: "0 \<le> i" "i < int (length current)"
      and eq: "(if i < int (length current) then do {
        let e = min (i + MaxMergeWidth cfg) (int (length current));
        group \<leftarrow> slice current i e;
        let target = (if int (length current) > MaxMergeWidth cfg \<or> e - i < int (length current)
                      then merge_name cfg pass i else out);
        r \<leftarrow> mergeRuns group target fs;
        if fst r \<noteq> None then Some (Inl (the (fst r)), snd r)
        else f cfg pass out current (i + MaxMergeWidth cfg) (nexts @ [target]) (snd r) }
      else Some (Inr nexts, fs)) = Some y"
    have e: "min (i + MaxMergeWidth cfg) (int (length current)) = i + MaxMergeWidth cfg" using width i(2) by simp
    have "MaxMergeWidth cfg = 0"
      using eq i width by (auto simp: e slice_def Let_def bind_eq_Some_conv split: if_splits)
    then have "slice current i (i + MaxMergeWidth cfg) = Some []" using i by (simp add: slice_def)
    moreover have "mergeRuns [] t fs = Some (None, fs(t \<mapsto> ints_text []))" for t
      using mergeRuns_ok[of fs "[]" "[]"] by (simp add: stored_def)
    ultimately have "\<exists>nexts' fs'. f cfg pass out current i nexts' fs' = Some y"
      using eq i \<open>MaxMergeWidth cfg = 0\<close> by (auto simp: e Let_def)
    with IH width i show False by blast
  qed
  with assms show ?thesis by simp
qed

lemma passes_narrow:
  assumes ret: "merge_passes cfg out current pass fs = Some y" and "MaxMergeWidth cfg \<le> 1"
    and "stored fs current vss" and "\<forall>p \<in> set current. pass_name cfg pass p"
  shows "length current \<le> 1"
proof -
  have "MaxMergeWidth cfg \<le> 1 \<longrightarrow> (\<forall>vss. stored fs current vss \<longrightarrow> (\<forall>p \<in> set current. pass_name cfg pass p) \<longrightarrow> length current \<le> 1)"
  proof (rule merge_passes.raw_induct[where P = "\<lambda>cfg out current pass fs y. MaxMergeWidth cfg \<le> 1 \<longrightarrow>
      (\<forall>vss. stored fs current vss \<longrightarrow> (\<forall>p \<in> set current. pass_name cfg pass p) \<longrightarrow> length current \<le> 1)", OF _ ret],
      intro impI allI, rule ccontr)
    fix f :: "Config \<Rightarrow> string \<Rightarrow> string list \<Rightarrow> nat \<Rightarrow> files \<Rightarrow> ((sort_error + string list) \<times> nat \<times> files) option"
    fix cfg out current pass fs y vss
    assume IH: "\<And>cfg out current pass fs y. f cfg out current pass fs = Some y \<Longrightarrow> MaxMergeWidth cfg \<le> 1 \<longrightarrow>
        (\<forall>vss. stored fs current vss \<longrightarrow> (\<forall>p \<in> set current. pass_name cfg pass p) \<longrightarrow> length current \<le> 1)"
      and eq: "(if length current > 1 then do {
          r \<leftarrow> merge_groups cfg (pass + 1) out current 0 [] fs;
          if isl (fst r) then Some (Inl (projl (fst r)), pass + 1, snd r)
          else f cfg out (projr (fst r)) (pass + 1) (removes current (snd r)) }
        else Some (Inr current, pass, fs)) = Some y"
      and width: "MaxMergeWidth cfg \<le> 1" and st: "stored fs current vss"
      and names: "\<forall>p \<in> set current. pass_name cfg pass p" and len: "\<not> length current \<le> 1"
    from eq len obtain r where "merge_groups cfg (pass + 1) out current 0 [] fs = Some r"
      by (auto simp: bind_eq_Some_conv)
    then have "\<not> MaxMergeWidth cfg \<le> 0" using groups_no_width[of cfg "pass + 1" out current 0] len by fastforce
    then have W: "MaxMergeWidth cfg = int 1" using width by simp
    have fresh: "merge_name cfg (pass + 1) (int j) \<notin> set current" for j
      using names pass_name_fresh by fastforce
    have "\<exists>ts fs'. merge_groups cfg (pass + 1) out current 0 [] fs = Some (Inr ts, fs') \<and>
      stored fs' ts (map merged (chunks 1 vss)) \<and> (\<forall>p. p \<notin> set ts \<longrightarrow> fs' p = fs p) \<and>
      (\<forall>p \<in> set ts. \<exists>j. p = merge_name cfg (pass + 1) (int j))"
      using groups_many[OF W _ _ fresh, where i = 0 and fs = fs and vss = vss and out = out and nexts = "[]"] st len by simp
    then obtain ts fs' where g: "merge_groups cfg (pass + 1) out current 0 [] fs = Some (Inr ts, fs')"
      "stored fs' ts (map merged (chunks 1 vss))" "\<forall>p \<in> set ts. \<exists>j. p = merge_name cfg (pass + 1) (int j)" by blast
    have "length ts = length current"
      using length_chunks[of 1 vss] stored_length[OF g(2)] stored_length[OF st] by simp
    moreover have "f cfg out ts (pass + 1) (removes current fs') = Some y" using eq g(1) len by simp
    moreover have "stored (removes current fs') ts (map merged (chunks 1 vss))"
      by (rule stored_cong[OF g(2)]) (use g(3) fresh in \<open>auto simp: removes_apply\<close>)
    moreover have "\<forall>p \<in> set ts. pass_name cfg (pass + 1) p" using g(3) by (fastforce simp: pass_name_def)
    ultimately show False using IH width len by metis
  qed
  with assms show ?thesis by blast
qed

text \<open>A merge width below 2 is not survived.  When the input needs more than one run and \<open>MaxMergeWidth\<close> is 1
  or 0, \<open>Sort\<close> never returns: the passes merge every run by itself, or the loop over the groups does not
  advance; when it is negative it panics.\<close>

theorem ext_sort_narrow_width:
  assumes "fs inp = Some s" and "input_ints s = Some vs" and "0 \<le> ChunkSize cfg"
    and "\<forall>p. reserved cfg p \<longrightarrow> fs p = None"
    and "MaxMergeWidth cfg \<le> 1" and more: "chunk_len cfg < length vs"
  shows "ext_Sort inp out cfg fs = None"
proof -
  obtain runs fs1 where sp: "splitIntoSortedRuns inp cfg fs = Some (Inr (runs, length vs), fs1)"
    "stored fs1 runs (map sort (chunks (chunk_len cfg) vs))" "\<forall>p \<in> set runs. pass_name cfg 0 p"
    "length runs = length (chunks (chunk_len cfg) vs)"
    by (rule split_ok[of fs inp s vs cfg]) (use assms in blast)+
  have "1 < length runs"
  proof (rule ccontr)
    assume "\<not> 1 < length runs"
    then have "length runs * chunk_len cfg \<le> 1 * chunk_len cfg" by (intro mult_le_mono1) simp
    moreover have "length vs \<le> length runs * chunk_len cfg"
      unfolding sp(4) by (rule conjunct2[OF length_chunks]) simp
    ultimately show False using more by linarith
  qed
  moreover from this have "merge_passes cfg out runs 0 fs1 = None"
    using passes_narrow[of cfg out runs 0 fs1, OF _ assms(5) sp(2,3)]
    by (cases "merge_passes cfg out runs 0 fs1") auto
  moreover have "runs \<noteq> []" "length runs \<noteq> 1" using calculation(1) by auto
  ultimately show ?thesis using sp(1) by (simp add: ext_Sort_def Let_def)
qed

lemma ext_sort_narrow_width_witness:
  "ext_Sort ''in'' ''out'' \<lparr>ChunkSize = 1, TempDir = ''t'', MaxMergeWidth = 1\<rparr> [''in'' \<mapsto> ints_text [2, 1]] = None"
proof (rule ext_sort_narrow_width[where s = "ints_text [2, 1]" and vs = "[2, 1]"])
  show "input_ints (ints_text [2, 1]) = Some [2, 1]" by (rule input_ints_text) (simp add: int64_def)
qed (simp_all add: reserved_def del: ints_text_simps)

lemma split_flush_keeps:
  "split_flush cfg buf runs fs = (runs1, fs1) \<Longrightarrow> k < length runs \<Longrightarrow> fs1 (run_name cfg k) = fs (run_name cfg k) \<and> k < length runs1"
  by (auto simp: split_flush_def writeInts_def run_name_inj Let_def split: if_splits)

lemma split_loop_fails:
  "input_ints s = None \<Longrightarrow> k < length runs \<Longrightarrow>
   \<exists>e fs'. split_loop cfg s buf n runs fs = (Inl e, fs') \<and> fs' (run_name cfg k) = fs (run_name cfg k)"
proof (induction s arbitrary: buf n runs fs rule: input_ints.induct)
  case (1 s)
  show ?case
  proof (cases "scanner_Scan s")
    case (Inl e)
    then show ?thesis using "1.prems" by (simp add: split_loop.simps[of cfg s] input_ints.simps[of s] split: if_splits)
  next
    case (Inr p)
    obtain l rest where p: "p = (l, rest)" by fastforce
    show ?thesis
    proof (cases "Atoi l")
      case None
      then show ?thesis using Inr p by (simp add: split_loop.simps[of cfg s])
    next
      case (Some v)
      then have "input_ints rest = None"
        using "1.prems"(1) Inr p by (cases "input_ints rest") (simp_all add: input_ints.simps[of s])
      note IH = "1.IH"[OF Inr p[symmetric] Some this]
      obtain runs1 fs1 where fl: "split_flush cfg (buf @ [v]) runs fs = (runs1, fs1)" by fastforce
      note keep = split_flush_keeps[OF fl "1.prems"(2)]
      show ?thesis using IH[of runs "buf @ [v]" "n + 1" fs] IH[of runs1 "[]" "n + 1" fs1] keep Some Inr p fl "1.prems"(2)
        by (auto simp: split_loop.simps[of cfg s] Let_def)
    qed
  qed
qed

lemma split_loop_prefix:
  assumes "0 \<le> ChunkSize cfg" "\<forall>v \<in> set vs. int64 v" "vs \<noteq> []" "length buf + length vs = chunk_len cfg"
  shows "split_loop cfg (ints_text vs @ s) buf n runs fs =
    split_loop cfg s [] (n + length vs) (runs @ [run_name cfg (length runs)])
      (writeInts (run_name cfg (length runs)) (sort (buf @ vs)) fs)"
  using assms(2-4)
proof (induction vs arbitrary: buf n)
  case (Cons v vs)
  have scan: "scanner_Scan (ints_text (v # vs) @ s) = Inr (Itoa v, ints_text vs @ s)"
    using scan_Itoa[of v "ints_text vs @ s"] Cons.prems(1) by simp
  note step = split_loop.simps[of cfg "ints_text (v # vs) @ s" buf n runs fs, unfolded scan sum.case prod.case]
  show ?case
  proof (cases "vs = []")
    case True
    then have "int (length (buf @ [v])) \<ge> ChunkSize cfg" using Cons.prems(3) by simp
    then show ?thesis using step Cons.prems(1) True by (simp add: Atoi_Itoa split_flush_def Let_def)
  next
    case False
    then have "\<not> int (length (buf @ [v])) \<ge> ChunkSize cfg" using Cons.prems(3) by (cases vs) auto
    then show ?thesis using step Cons False by (simp add: Atoi_Itoa Let_def)
  qed
qed simp

text \<open>A line that is no number leaks the runs written before it.  When the input fails after a first full chunk,
  \<open>Sort\<close> returns the error and zero statistics, and the run of that chunk stays in the temporary
  directory: the removal is registered only after the split succeeded.\<close>

theorem ext_sort_error_leaks:
  assumes "fs inp = Some (ints_text vs @ s)" and "\<forall>v \<in> set vs. int64 v" and "length vs = chunk_len cfg"
    and "input_ints s = None" and "0 \<le> ChunkSize cfg"
  shows "\<exists>e fs'. ext_Sort inp out cfg fs = Some ((zero_Stats, Some e), fs') \<and>
    fs' (run_name cfg 0) = Some (ints_text (sort vs))"
proof -
  have "vs \<noteq> []" using assms(3) by auto
  then have "split_loop cfg (ints_text vs @ s) [] 0 [] fs =
      split_loop cfg s [] (length vs) [run_name cfg 0] (writeInts (run_name cfg 0) (sort vs) fs)"
    using split_loop_prefix[OF assms(5,2), of "[]" s 0 "[]" fs] assms(3) by simp
  moreover obtain e fs' where "split_loop cfg s [] (length vs) [run_name cfg 0] (writeInts (run_name cfg 0) (sort vs) fs) = (Inl e, fs')"
    "fs' (run_name cfg 0) = Some (ints_text (sort vs))"
    using split_loop_fails[OF assms(4), of 0 "[run_name cfg 0]" cfg "[]" "length vs" "writeInts (run_name cfg 0) (sort vs) fs"]
    by (auto simp: writeInts_def)
  ultimately show ?thesis using assms(1,5) by (simp add: ext_Sort_def splitIntoSortedRuns_def)
qed

lemma ext_sort_error_leaks_witness:
  "\<exists>e fs'. ext_Sort ''in'' ''out'' \<lparr>ChunkSize = 2, TempDir = ''t'', MaxMergeWidth = 2\<rparr> [''in'' \<mapsto> ints_text [7, 5] @ ''x''] =
      Some ((zero_Stats, Some e), fs') \<and>
    fs' (run_name \<lparr>ChunkSize = 2, TempDir = ''t'', MaxMergeWidth = 2\<rparr> 0) = Some (ints_text [5, 7])"
proof -
  have "input_ints ''x'' = None"
    by (simp add: input_ints.simps[of "''x''"] scanner_Scan_def dropCR_def max_line_def Atoi_def is_digit_def)
  then show ?thesis
    using ext_sort_error_leaks[of "[''in'' \<mapsto> ints_text [7, 5] @ ''x'']" "''in''" "[7, 5]" "''x''"
        "\<lparr>ChunkSize = 2, TempDir = ''t'', MaxMergeWidth = 2\<rparr>" "''out''"]
    by (simp add: int64_def del: ints_text_simps)
qed

end
