(* ===== verification/Outbox.thy ===== *)
theory Outbox
  imports Codec "HOL-Library.AList"
begin

text \<open>
  \<^verbatim>\<open>code/outbox_pattern/outbox.go\<close>: the transactional outbox.  A Go map is an association list
  without duplicate keys; an event is shared between the table and the relays by its pointer, here by
  its ID, which no code changes.  A clock reading is an argument of the operation, and so are the
  answers of \<open>ctx.Err()\<close>.  The verb \<open>%q\<close> of \<open>fmt\<close> is the parameter \<open>quote\<close>.

  The broker is an interface of the code and a parameter of the model: \<open>pub b e\<close> is the error, if any,
  and the broker's next state.  The locale \<open>broker\<close> states what the relay relies on; the
  \<open>RecordingBroker\<close> of the code satisfies it.
\<close>

record OutboxOrder =
  oo_ID :: string
  oo_Amount :: int
  oo_Status :: string

record OutboxEvent =
  ev_ID :: int
  AggregateID :: string
  ev_Type :: string
  Payload :: string
  CreatedAt :: gtime
  PublishedAt :: "gtime option"
  Attempts :: int
  LastError :: string

record DB =
  db_orders :: "(string \<times> OutboxOrder) list"
  db_outbox :: "(int \<times> OutboxEvent) list"
  nextID :: int
  failCommit :: bool

definition NewDB :: DB where
  "NewDB = \<lparr>db_orders = [], db_outbox = [], nextID = 0, failCommit = False\<rparr>"

subsection \<open>Transactions\<close>

record Tx =
  tx_orders :: "OutboxOrder list"
  tx_events :: "OutboxEvent list"
  tx_done :: bool

datatype db_error = CommitFailed | AlreadyFinished

definition db_Begin :: Tx where
  "db_Begin = \<lparr>tx_orders = [], tx_events = [], tx_done = False\<rparr>"

definition InsertOrder :: "OutboxOrder \<Rightarrow> Tx \<Rightarrow> Tx" where
  "InsertOrder o1 tx = tx\<lparr>tx_orders := tx_orders tx @ [o1]\<rparr>"

definition EnqueueEvent :: "string \<Rightarrow> string \<Rightarrow> string \<Rightarrow> Tx \<Rightarrow> Tx" where
  "EnqueueEvent aggregate eventType payload tx =
     tx\<lparr>tx_events := tx_events tx @
       [\<lparr>ev_ID = 0, AggregateID = aggregate, ev_Type = eventType, Payload = payload, CreatedAt = 0,
         PublishedAt = None, Attempts = 0, LastError = ''''\<rparr>]\<rparr>"

fun apply_orders :: "OutboxOrder list \<Rightarrow> DB \<Rightarrow> DB" where
  "apply_orders [] db = db"
| "apply_orders (o1 # os) db = apply_orders os (db\<lparr>db_orders := AList.update (oo_ID o1) o1 (db_orders db)\<rparr>)"

text \<open>\<open>now n\<close> is the \<open>n\<close>-th reading of the clock.\<close>

fun apply_events :: "(nat \<Rightarrow> gtime) \<Rightarrow> nat \<Rightarrow> OutboxEvent list \<Rightarrow> DB \<Rightarrow> DB" where
  "apply_events now n [] db = db"
| "apply_events now n (e # es) db =
     (let db1 = db\<lparr>nextID := nextID db + 1\<rparr>;
          e1 = e\<lparr>ev_ID := nextID db1, CreatedAt := now n\<rparr>
      in apply_events now (n + 1) es (db1\<lparr>db_outbox := AList.update (ev_ID e1) e1 (db_outbox db1)\<rparr>))"

definition tx_Commit :: "(nat \<Rightarrow> gtime) \<Rightarrow> Tx \<Rightarrow> DB \<Rightarrow> db_error option \<times> Tx \<times> DB" where
  "tx_Commit now tx db =
     (if tx_done tx then (Some AlreadyFinished, tx, db)
      else
        let tx1 = tx\<lparr>tx_done := True\<rparr> in
        if failCommit db then (Some CommitFailed, tx1, db)
        else (None, tx1, apply_events now 0 (tx_events tx1) (apply_orders (tx_orders tx1) db)))"

definition tx_Rollback :: "Tx \<Rightarrow> Tx" where
  "tx_Rollback tx = tx\<lparr>tx_done := True\<rparr>"

definition db_GetOrder :: "DB \<Rightarrow> string \<Rightarrow> OutboxOrder option" where
  "db_GetOrder db i = map_of (db_orders db) i"

definition OrderCount :: "DB \<Rightarrow> nat" where
  "OrderCount db = length (db_orders db)"

definition OutboxSize :: "DB \<Rightarrow> nat" where
  "OutboxSize db = length (db_outbox db)"

definition UnpublishedEvents :: "int \<Rightarrow> DB \<Rightarrow> OutboxEvent list" where
  "UnpublishedEvents limit db =
     (let out = sort_key ev_ID (filter (\<lambda>e. PublishedAt e = None) (map snd (db_outbox db))) in
      if limit > 0 \<and> int (length out) > limit then take (nat limit) out else out)"

definition MarkPublished :: "gtime \<Rightarrow> int \<Rightarrow> DB \<Rightarrow> DB" where
  "MarkPublished now i db =
     (case map_of (db_outbox db) i of
        None \<Rightarrow> db
      | Some e \<Rightarrow> db\<lparr>db_outbox := AList.update i (e\<lparr>PublishedAt := Some now\<rparr>) (db_outbox db)\<rparr>)"

definition RecordFailure :: "int \<Rightarrow> string \<Rightarrow> DB \<Rightarrow> DB" where
  "RecordFailure i err db =
     (case map_of (db_outbox db) i of
        None \<Rightarrow> db
      | Some e \<Rightarrow> db\<lparr>db_outbox := AList.update i (e\<lparr>Attempts := Attempts e + 1, LastError := err\<rparr>) (db_outbox db)\<rparr>)"

definition order_payload :: "(string \<Rightarrow> string) \<Rightarrow> string \<Rightarrow> int \<Rightarrow> string" where
  "order_payload quote i amount =
     ''{'' @ [CHR 0x22] @ ''order_id'' @ [CHR 0x22] @ '':'' @ quote i @ '','' @ [CHR 0x22] @ ''amount'' @ [CHR 0x22] @ '':'' @
     (if amount < 0 then CHR ''-'' # decimal (nat (- amount)) else decimal (nat amount)) @ ''}''"

definition PlaceOrder :: "(string \<Rightarrow> string) \<Rightarrow> (nat \<Rightarrow> gtime) \<Rightarrow> string \<Rightarrow> int \<Rightarrow> DB \<Rightarrow> db_error option \<times> DB" where
  "PlaceOrder quote now i amount db =
     (let tx = db_Begin;
          tx1 = InsertOrder \<lparr>oo_ID = i, oo_Amount = amount, oo_Status = ''created''\<rparr> tx;
          tx2 = EnqueueEvent i ''OrderCreated'' (order_payload quote i amount) tx1;
          (err, tx3, db1) = tx_Commit now tx2 db
      in (err, db1))"

subsection \<open>The broker and the relay\<close>

type_synonym 'b publish = "'b \<Rightarrow> OutboxEvent \<Rightarrow> string option \<times> 'b"

record RecordingBroker =
  Published :: "OutboxEvent list"
  FailNext :: int
  FailErr :: "string option"

definition rb_Publish :: "RecordingBroker publish" where
  "rb_Publish b e =
     (if FailNext b > 0 then
        (case FailErr b of Some err \<Rightarrow> Some err | None \<Rightarrow> Some ''broker unavailable'', b\<lparr>FailNext := FailNext b - 1\<rparr>)
      else (None, b\<lparr>Published := Published b @ [e]\<rparr>))"

definition rb_Count :: "RecordingBroker \<Rightarrow> nat" where
  "rb_Count b = length (Published b)"

definition rb_Types :: "RecordingBroker \<Rightarrow> string list" where
  "rb_Types b = map ev_Type (Published b)"

text \<open>The loop of \<open>RunOnce\<close> over the events of the batch, given by their IDs; the event published is the
  row at that moment.  \<open>ctx n\<close> is the answer of \<open>ctx.Err()\<close> for the \<open>n\<close>-th event of the run.\<close>

fun run_batch :: "'b publish \<Rightarrow> (nat \<Rightarrow> string option) \<Rightarrow> (nat \<Rightarrow> gtime) \<Rightarrow> nat \<Rightarrow> int list \<Rightarrow> DB \<Rightarrow> 'b \<Rightarrow>
    ((nat \<times> string option) \<times> DB \<times> 'b) option" where
  "run_batch pub ctx now n [] db b = Some ((n, None), db, b)"
| "run_batch pub ctx now n (i # is) db b =
     (case ctx n of
        Some err \<Rightarrow> Some ((n, Some err), db, b)
      | None \<Rightarrow>
          case map_of (db_outbox db) i of
            None \<Rightarrow> None
          | Some e \<Rightarrow>
              case pub b e of
                (Some err, b1) \<Rightarrow> Some ((n, Some err), RecordFailure i err db, b1)
              | (None, b1) \<Rightarrow> run_batch pub ctx now (n + 1) is (MarkPublished (now n) i db) b1)"

definition RunOnce :: "'b publish \<Rightarrow> int \<Rightarrow> (nat \<Rightarrow> string option) \<Rightarrow> (nat \<Rightarrow> gtime) \<Rightarrow> DB \<Rightarrow> 'b \<Rightarrow>
    ((nat \<times> string option) \<times> DB \<times> 'b) option" where
  "RunOnce pub batch ctx now db b = run_batch pub ctx now 0 (map ev_ID (UnpublishedEvents batch db)) db b"

fun RunUntilDrained :: "'b publish \<Rightarrow> int \<Rightarrow> (nat \<Rightarrow> nat \<Rightarrow> string option) \<Rightarrow> (nat \<Rightarrow> nat \<Rightarrow> gtime) \<Rightarrow> nat \<Rightarrow> DB \<Rightarrow> 'b \<Rightarrow>
    ((nat \<times> string option) \<times> DB \<times> 'b) option" where
  "RunUntilDrained pub batch ctx now 0 db b = Some ((0, None), db, b)"
| "RunUntilDrained pub batch ctx now (Suc rounds) db b =
     (case RunOnce pub batch (ctx rounds) (now rounds) db b of
        None \<Rightarrow> None
      | Some ((n, err), db1, b1) \<Rightarrow>
          if err \<noteq> None then Some ((n, err), db1, b1)
          else if n = 0 then Some ((n, None), db1, b1)
          else map_option (\<lambda>((m, err), s). ((n + m, err), s)) (RunUntilDrained pub batch ctx now rounds db1 b1))"

subsection \<open>Interleaved relays\<close>

text \<open>
  Any number of relays, clients and crashes interleave; each step is one call of the code that holds
  the lock of the database or of the broker.  A relay is idle, about to publish the first of its
  batch, about to mark an event it has published, or about to record a failure.
\<close>

datatype relay_pc = Idle | Loop "int list" | Mark int "int list" | Failed int string

record 'b world =
  ow_db :: DB
  ow_broker :: 'b
  ow_relays :: "nat \<Rightarrow> relay_pc"

definition ob_init :: "('b \<Rightarrow> OutboxEvent list) \<Rightarrow> 'b world \<Rightarrow> bool" where
  "ob_init sent w \<longleftrightarrow> ow_db w = NewDB \<and> sent (ow_broker w) = [] \<and> (\<forall>r. ow_relays w r = Idle)"

inductive ob_step :: "(string \<Rightarrow> string) \<Rightarrow> 'b publish \<Rightarrow> ('b \<Rightarrow> OutboxEvent list) \<Rightarrow> 'b world \<Rightarrow> 'b world \<Rightarrow> bool"
  for quote :: "string \<Rightarrow> string" and pub :: "'b publish" and sent :: "'b \<Rightarrow> OutboxEvent list" where
  place: "PlaceOrder quote now i amount (ow_db w) = (err, db) \<Longrightarrow> ob_step quote pub sent w (w\<lparr>ow_db := db\<rparr>)"
| hook: "ob_step quote pub sent w (w\<lparr>ow_db := (ow_db w)\<lparr>failCommit := fl\<rparr>\<rparr>)"
| environment: "sent b = sent (ow_broker w) \<Longrightarrow> ob_step quote pub sent w (w\<lparr>ow_broker := b\<rparr>)"
| fetch: "ow_relays w r = Idle \<Longrightarrow>
    ob_step quote pub sent w (w\<lparr>ow_relays := (ow_relays w)(r := Loop (map ev_ID (UnpublishedEvents batch (ow_db w))))\<rparr>)"
| publish: "ow_relays w r = Loop (i # is) \<Longrightarrow> map_of (db_outbox (ow_db w)) i = Some e \<Longrightarrow>
    pub (ow_broker w) e = (None, b) \<Longrightarrow>
    ob_step quote pub sent w (w\<lparr>ow_broker := b, ow_relays := (ow_relays w)(r := Mark i is)\<rparr>)"
| refuse: "ow_relays w r = Loop (i # is) \<Longrightarrow> map_of (db_outbox (ow_db w)) i = Some e \<Longrightarrow>
    pub (ow_broker w) e = (Some err, b) \<Longrightarrow>
    ob_step quote pub sent w (w\<lparr>ow_broker := b, ow_relays := (ow_relays w)(r := Failed i err)\<rparr>)"
| mark: "ow_relays w r = Mark i is \<Longrightarrow>
    ob_step quote pub sent w (w\<lparr>ow_db := MarkPublished now i (ow_db w), ow_relays := (ow_relays w)(r := Loop is)\<rparr>)"
| failure: "ow_relays w r = Failed i err \<Longrightarrow>
    ob_step quote pub sent w (w\<lparr>ow_db := RecordFailure i err (ow_db w), ow_relays := (ow_relays w)(r := Idle)\<rparr>)"
| stop: "ob_step quote pub sent w (w\<lparr>ow_relays := (ow_relays w)(r := Idle)\<rparr>)"

locale broker =
  fixes pub :: "'b publish"
    and sent :: "'b \<Rightarrow> OutboxEvent list"
  assumes published: "pub b e = (None, b') \<Longrightarrow> sent b' = sent b @ [e]"
    and refused: "pub b e = (Some err, b') \<Longrightarrow> sent b' = sent b"

subsection \<open>The tables\<close>

definition same_event :: "OutboxEvent \<Rightarrow> OutboxEvent \<Rightarrow> bool" where
  "same_event e f \<longleftrightarrow> ev_ID e = ev_ID f \<and> AggregateID e = AggregateID f \<and> ev_Type e = ev_Type f \<and>
     Payload e = Payload f \<and> CreatedAt e = CreatedAt f"

definition db_ok :: "DB \<Rightarrow> bool" where
  "db_ok db \<longleftrightarrow> map fst (db_outbox db) = [1..nextID db] \<and> 0 \<le> nextID db \<and>
     (\<forall>(i, e) \<in> set (db_outbox db). ev_ID e = i) \<and> distinct (map fst (db_orders db)) \<and>
     fst ` set (db_orders db) = AggregateID ` snd ` set (db_outbox db)"

lemma db_ok_New: "db_ok NewDB"
  by (simp add: db_ok_def NewDB_def)

lemma outbox_distinct: "db_ok db \<Longrightarrow> distinct (map fst (db_outbox db))"
  by (simp add: db_ok_def)

lemma outbox_lookup: "db_ok db \<Longrightarrow> (i, e) \<in> set (db_outbox db) \<longleftrightarrow> map_of (db_outbox db) i = Some e"
  using outbox_distinct[of db] by (metis map_of_SomeD map_of_is_SomeI)

lemma outbox_ids: "db_ok db \<Longrightarrow> (\<exists>e. map_of (db_outbox db) i = Some e) \<longleftrightarrow> 1 \<le> i \<and> i \<le> nextID db"
proof -
  assume ok: "db_ok db"
  have "(\<exists>e. map_of (db_outbox db) i = Some e) \<longleftrightarrow> i \<in> set (map fst (db_outbox db))"
    by (simp add: map_of_eq_None_iff flip: not_None_eq)
  also have "\<dots> \<longleftrightarrow> 1 \<le> i \<and> i \<le> nextID db" using ok by (simp add: db_ok_def)
  finally show ?thesis .
qed

lemma map_fst_update: "k \<in> fst ` set al \<Longrightarrow> map fst (AList.update k v al) = map fst al"
  by (induction al) auto

lemma set_update: "distinct (map fst al) \<Longrightarrow> map_of al k = Some v0 \<Longrightarrow>
  set (AList.update k v al) = insert (k, v) (set al - {(k, v0)})"
  by (induction al) (auto simp: rev_image_eqI split: if_splits)

text \<open>Changing the bookkeeping of a row keeps the tables consistent.\<close>

lemma db_ok_row:
  assumes ok: "db_ok db" and e: "map_of (db_outbox db) i = Some e" and same: "same_event e' e"
  shows "db_ok (db\<lparr>db_outbox := AList.update i e' (db_outbox db)\<rparr>)"
proof -
  have mem: "(i, e) \<in> set (db_outbox db)" using e by (rule map_of_SomeD)
  then have fst: "map fst (AList.update i e' (db_outbox db)) = map fst (db_outbox db)"
    by (intro map_fst_update) force
  have upd: "set (AList.update i e' (db_outbox db)) = insert (i, e') (set (db_outbox db) - {(i, e)})"
    by (rule set_update[OF outbox_distinct[OF ok] e])
  have "AggregateID ` snd ` set (AList.update i e' (db_outbox db)) = AggregateID ` snd ` set (db_outbox db)"
    unfolding upd using mem same by (force simp: same_event_def image_iff)
  moreover have "ev_ID e' = i" using mem ok same by (auto simp: db_ok_def same_event_def)
  ultimately show ?thesis using ok fst upd by (auto simp: db_ok_def)
qed

lemma db_ok_Mark: "db_ok db \<Longrightarrow> db_ok (MarkPublished now i db)"
  by (auto simp: MarkPublished_def same_event_def intro!: db_ok_row split: option.splits)

lemma db_ok_Failure: "db_ok db \<Longrightarrow> db_ok (RecordFailure i err db)"
  by (auto simp: RecordFailure_def same_event_def intro!: db_ok_row split: option.splits)

lemma alist_update_new: "k \<notin> fst ` set al \<Longrightarrow> AList.update k v al = al @ [(k, v)]"
  by (induction al) auto

text \<open>What \<open>PlaceOrder\<close> does: both effects, or none.\<close>

lemma PlaceOrder_cases:
  assumes ok: "db_ok db"
  obtains (committed) e row where "PlaceOrder quote now i amount db = (None,
      db\<lparr>db_orders := AList.update i row (db_orders db), nextID := nextID db + 1,
        db_outbox := db_outbox db @ [(nextID db + 1, e)]\<rparr>)"
      "ev_ID e = nextID db + 1" "AggregateID e = i" "PublishedAt e = None" "\<not> failCommit db"
  | (failed) "PlaceOrder quote now i amount db = (Some CommitFailed, db)" "failCommit db"
proof (cases "failCommit db")
  case False
  have "nextID db + 1 \<notin> fst ` set (db_outbox db)"
    using ok by (metis (no_types, lifting) atLeastAtMost_iff db_ok_def image_set set_upto zle_add1_eq_le less_irrefl)
  then show ?thesis using False
    by (intro committed[where row = "\<lparr>oo_ID = i, oo_Amount = amount, oo_Status = ''created''\<rparr>"])
      (auto simp: PlaceOrder_def Let_def db_Begin_def InsertOrder_def EnqueueEvent_def tx_Commit_def alist_update_new)
next
  case True
  then show ?thesis by (intro failed) (simp_all add: PlaceOrder_def Let_def db_Begin_def InsertOrder_def EnqueueEvent_def tx_Commit_def)
qed

lemma db_ok_Place:
  assumes ok: "db_ok db"
  shows "db_ok (snd (PlaceOrder quote now i amount db))"
proof (rule PlaceOrder_cases[OF ok, of quote now i amount])
  fix e row assume c: "PlaceOrder quote now i amount db = (None,
      db\<lparr>db_orders := AList.update i row (db_orders db), nextID := nextID db + 1,
        db_outbox := db_outbox db @ [(nextID db + 1, e)]\<rparr>)" "ev_ID e = nextID db + 1" "AggregateID e = i"
  have "[1..nextID db + 1] = [1..nextID db] @ [nextID db + 1]" using ok by (simp add: db_ok_def upto_rec2)
  moreover have "fst ` set (AList.update i row (db_orders db)) = insert i (fst ` set (db_orders db))" by (simp add: dom_update)
  moreover have "distinct (map fst (AList.update i row (db_orders db)))" using ok by (simp add: db_ok_def distinct_update)
  ultimately show ?thesis using ok c(2,3) unfolding c(1) by (auto simp: db_ok_def)
qed (use ok in simp)

subsection \<open>The invariant\<close>

text \<open>The first occurrences of the elements of a list, in order.\<close>

fun firsts :: "'a list \<Rightarrow> 'a list" where
  "firsts xs = rev (remdups (rev xs))"

lemma set_firsts [simp]: "set (firsts xs) = set xs"
  by simp

lemma firsts_snoc: "firsts (xs @ [x]) = (if x \<in> set xs then firsts xs else firsts xs @ [x])"
  by simp

declare firsts.simps [simp del]

text \<open>The IDs a relay still has to publish: every smaller ID is published or still before it in the batch.\<close>

definition batch_ok :: "DB \<Rightarrow> int set \<Rightarrow> int list \<Rightarrow> bool" where
  "batch_ok db sent_ids xs \<longleftrightarrow> sorted_wrt (<) xs \<and> (\<forall>x \<in> set xs. 1 \<le> x \<and> x \<le> nextID db) \<and>
     (\<forall>x \<in> set xs. \<forall>j. 1 \<le> j \<longrightarrow> j < x \<longrightarrow> j \<in> set xs \<or> j \<in> sent_ids)"

fun relay_ok :: "DB \<Rightarrow> int set \<Rightarrow> relay_pc \<Rightarrow> bool" where
  "relay_ok db S Idle \<longleftrightarrow> True"
| "relay_ok db S (Loop xs) \<longleftrightarrow> batch_ok db S xs"
| "relay_ok db S (Mark i xs) \<longleftrightarrow> i \<in> S \<and> batch_ok db S xs"
| "relay_ok db S (Failed i err) \<longleftrightarrow> True"

definition sent_ok :: "DB \<Rightarrow> OutboxEvent list \<Rightarrow> bool" where
  "sent_ok db es \<longleftrightarrow> (\<exists>n. 0 \<le> n \<and> n \<le> nextID db \<and> firsts (map ev_ID es) = [1..n]) \<and>
     (\<forall>e \<in> set es. \<exists>f. map_of (db_outbox db) (ev_ID e) = Some f \<and> same_event e f) \<and>
     (\<forall>(i, f) \<in> set (db_outbox db). PublishedAt f \<noteq> None \<longrightarrow> i \<in> ev_ID ` set es)"

definition ob_inv :: "('b \<Rightarrow> OutboxEvent list) \<Rightarrow> 'b world \<Rightarrow> bool" where
  "ob_inv sent w \<longleftrightarrow> db_ok (ow_db w) \<and> sent_ok (ow_db w) (sent (ow_broker w)) \<and>
     (\<forall>r. relay_ok (ow_db w) (ev_ID ` set (sent (ow_broker w))) (ow_relays w r))"

lemma batch_mono: "batch_ok db S xs \<Longrightarrow> nextID db \<le> nextID db' \<Longrightarrow> S \<subseteq> S' \<Longrightarrow> batch_ok db' S' xs"
  unfolding batch_ok_def by fastforce

lemma relay_mono: "relay_ok db S p \<Longrightarrow> nextID db \<le> nextID db' \<Longrightarrow> S \<subseteq> S' \<Longrightarrow> relay_ok db' S' p"
  by (cases p) (auto intro: batch_mono)

lemma batch_tl: "batch_ok db S (x # xs) \<Longrightarrow> x \<in> S' \<Longrightarrow> S \<subseteq> S' \<Longrightarrow> batch_ok db S' xs"
  unfolding batch_ok_def by fastforce

lemma sent_prefix: "sent_ok db es \<Longrightarrow> \<exists>n. 0 \<le> n \<and> n \<le> nextID db \<and> ev_ID ` set es = {1..n} \<and> firsts (map ev_ID es) = [1..n]"
proof -
  assume "sent_ok db es"
  then obtain n where n: "0 \<le> n" "n \<le> nextID db" "firsts (map ev_ID es) = [1..n]" by (auto simp: sent_ok_def)
  then have "ev_ID ` set es = {1..n}" using set_firsts[of "map ev_ID es"] by simp
  with n show ?thesis by blast
qed

lemma fetch_batch:
  assumes ok: "db_ok db" and sent: "sent_ok db es"
  shows "batch_ok db (ev_ID ` set es) (map ev_ID (UnpublishedEvents batch db))"
proof -
  define pend where "pend = filter (\<lambda>e. PublishedAt e = None) (map snd (db_outbox db))"
  define out where "out = sort_key ev_ID pend"
  have ids: "map ev_ID (map snd (db_outbox db)) = map fst (db_outbox db)"
    unfolding map_map by (rule map_cong) (use ok in \<open>auto simp: db_ok_def\<close>)
  then have "distinct (map ev_ID (map snd (db_outbox db)))" using outbox_distinct[OF ok] by (simp only:)
  then have "distinct (map ev_ID pend)" unfolding pend_def by (rule distinct_map_filter)
  then have "distinct (map ev_ID out)"
    unfolding out_def by (metis mset_map mset_sort mset_eq_imp_distinct_iff)
  moreover have "sorted (map ev_ID out)" by (simp add: out_def)
  ultimately have strict: "sorted_wrt (<) (map ev_ID out)" by (simp add: strict_sorted_iff)
  have set_out: "x \<in> ev_ID ` set out \<longleftrightarrow> (\<exists>e. map_of (db_outbox db) x = Some e \<and> PublishedAt e = None)" for x
  proof -
    have "x \<in> ev_ID ` set out \<longleftrightarrow> (\<exists>e. (x, e) \<in> set (db_outbox db) \<and> PublishedAt e = None)"
    proof
      assume "x \<in> ev_ID ` set out"
      then obtain i e where e: "x = ev_ID e" "(i, e) \<in> set (db_outbox db)" "PublishedAt e = None"
        by (auto simp: out_def pend_def)
      moreover have "ev_ID e = i" using e(2) ok by (auto simp: db_ok_def)
      ultimately show "\<exists>e. (x, e) \<in> set (db_outbox db) \<and> PublishedAt e = None" by blast
    next
      assume "\<exists>e. (x, e) \<in> set (db_outbox db) \<and> PublishedAt e = None"
      then obtain e where e: "(x, e) \<in> set (db_outbox db)" "PublishedAt e = None" by blast
      then have "e \<in> set out" by (force simp: out_def pend_def)
      moreover have "ev_ID e = x" using e(1) ok by (auto simp: db_ok_def)
      ultimately show "x \<in> ev_ID ` set out" by blast
    qed
    then show ?thesis using outbox_lookup[OF ok] by blast
  qed
  have published: "j \<in> ev_ID ` set es" if j: "1 \<le> j" "j \<le> nextID db" "j \<notin> ev_ID ` set out" for j
  proof -
    obtain e where e: "map_of (db_outbox db) j = Some e" using j outbox_ids[OF ok] by blast
    then have "PublishedAt e \<noteq> None" using j(3) set_out[of j] by auto
    then show ?thesis using sent map_of_SomeD[OF e] unfolding sent_ok_def by blast
  qed
  have range: "1 \<le> x \<and> x \<le> nextID db" if "x \<in> ev_ID ` set out" for x
    using that set_out[of x] outbox_ids[OF ok, of x] by blast
  have take: "batch_ok db (ev_ID ` set es) (take k (map ev_ID out))" for k
    unfolding batch_ok_def
  proof (intro conjI ballI allI impI)
    show "sorted_wrt (<) (take k (map ev_ID out))" using strict by (rule sorted_wrt_take)
    fix x assume x: "x \<in> set (take k (map ev_ID out))"
    then have "x \<in> set (map ev_ID out)" by (rule in_set_takeD)
    then have "x \<in> ev_ID ` set out" by simp
    then show "1 \<le> x" "x \<le> nextID db" using range by blast+
    fix j assume j: "1 \<le> j" "j < x"
    show "j \<in> set (take k (map ev_ID out)) \<or> j \<in> ev_ID ` set es"
    proof (cases "j \<in> ev_ID ` set out")
      case True
      have "j \<notin> set (drop k (map ev_ID out))"
        using strict x j(2) sorted_wrt_append[of "(<)" "take k (map ev_ID out)" "drop k (map ev_ID out)"] by fastforce
      then show ?thesis using True by (metis Un_iff append_take_drop_id list.set_map set_append)
    next
      case False
      then show ?thesis using published[of j] j \<open>x \<le> nextID db\<close> by simp
    qed
  qed
  show ?thesis
    using take[of "nat batch"] take[of "length out"]
    by (auto simp: UnpublishedEvents_def Let_def pend_def[symmetric] out_def[symmetric] take_map)
qed

text \<open>Publishing the next event of a batch.\<close>

lemma publish_sent:
  assumes ok: "db_ok db" and sent: "sent_ok db es" and batch: "batch_ok db (ev_ID ` set es) (i # is)"
    and e: "map_of (db_outbox db) i = Some e"
  shows "sent_ok db (es @ [e])" and "ev_ID e = i"
proof -
  show i: "ev_ID e = i" using ok map_of_SomeD[OF e] by (auto simp: db_ok_def)
  obtain n where n: "0 \<le> n" "n \<le> nextID db" "ev_ID ` set es = {1..n}" "firsts (map ev_ID es) = [1..n]"
    using sent_prefix[OF sent] by blast
  have range: "1 \<le> i" "i \<le> nextID db" using batch by (simp_all add: batch_ok_def)
  have "j \<le> n" if "1 \<le> j" "j < i" for j
  proof -
    have "j \<notin> set (i # is)" using batch that by (auto simp: batch_ok_def)
    then have "j \<in> ev_ID ` set es" using batch that by (auto simp: batch_ok_def)
    then show ?thesis using n(3) by simp
  qed
  from this[of "i - 1"] have "i \<le> n + 1" using range n(1) by (cases "i = 1") auto
  have firsts: "\<exists>n. 0 \<le> n \<and> n \<le> nextID db \<and> firsts (map ev_ID (es @ [e])) = [1..n]"
  proof (cases "i \<le> n")
    case True
    then have "i \<in> set (map ev_ID es)" using n(3) range by (simp add: image_iff set_eq_iff) 
    then have "firsts (map ev_ID (es @ [e])) = [1..n]" using n(4) by (simp add: firsts_snoc i)
    with n(1,2) show ?thesis by blast
  next
    case False
    then have "i = n + 1" using \<open>i \<le> n + 1\<close> by simp
    moreover have "i \<notin> set (map ev_ID es)" using False n(3) by auto
    moreover have "[1..n + 1] = [1..n] @ [n + 1]" using n(1) by (simp add: upto_rec2)
    ultimately have "firsts (map ev_ID (es @ [e])) = [1..n + 1]" using n(4) by (simp add: firsts_snoc i)
    with n(1) range \<open>i = n + 1\<close> show ?thesis by (metis add_increasing2 zero_le_one)
  qed
  show "sent_ok db (es @ [e])"
    using firsts sent e i by (auto simp: sent_ok_def same_event_def)
qed

lemma db_view:
  "nextID (MarkPublished now i db) = nextID db" "nextID (RecordFailure i err db) = nextID db"
  by (simp_all add: MarkPublished_def RecordFailure_def split: option.splits)

lemma sent_row:
  assumes ok: "db_ok db" and sent: "sent_ok db es" and e: "map_of (db_outbox db) i = Some e" and same: "same_event e' e"
    and pub: "PublishedAt e' \<noteq> None \<Longrightarrow> PublishedAt e \<noteq> None \<or> i \<in> ev_ID ` set es"
  shows "sent_ok (db\<lparr>db_outbox := AList.update i e' (db_outbox db)\<rparr>) es"
proof -
  have upd: "set (AList.update i e' (db_outbox db)) = insert (i, e') (set (db_outbox db) - {(i, e)})"
    by (rule set_update[OF outbox_distinct[OF ok] e])
  have map: "map_of (AList.update i e' (db_outbox db)) = (map_of (db_outbox db))(i \<mapsto> e')" by (rule update_conv')
  have "\<exists>g. map_of (AList.update i e' (db_outbox db)) (ev_ID f) = Some g \<and> same_event f g" if f: "f \<in> set es" for f
  proof -
    obtain g where g: "map_of (db_outbox db) (ev_ID f) = Some g" "same_event f g"
      using sent f by (auto simp: sent_ok_def)
    show ?thesis
    proof (cases "ev_ID f = i")
      case True
      then have "same_event f e'" using g e same by (simp add: same_event_def)
      then show ?thesis by (simp add: map True)
    qed (use g in \<open>simp add: map\<close>)
  qed
  moreover have "PublishedAt f \<noteq> None \<longrightarrow> j \<in> ev_ID ` set es" if "(j, f) \<in> set (AList.update i e' (db_outbox db))" for j f
  proof (cases "(j, f) = (i, e')")
    case True
    have "PublishedAt e \<noteq> None \<longrightarrow> i \<in> ev_ID ` set es" using sent map_of_SomeD[OF e] by (auto simp: sent_ok_def)
    then show ?thesis using True pub by blast
  next
    case False
    then have "(j, f) \<in> set (db_outbox db)" using that unfolding upd by blast
    then show ?thesis using sent unfolding sent_ok_def by blast
  qed
  ultimately show ?thesis using sent unfolding sent_ok_def by auto
qed

lemma sent_Mark: "db_ok db \<Longrightarrow> sent_ok db es \<Longrightarrow> i \<in> ev_ID ` set es \<Longrightarrow> sent_ok (MarkPublished now i db) es"
  unfolding MarkPublished_def by (auto split: option.splits intro!: sent_row simp: same_event_def)

lemma sent_Failure: "db_ok db \<Longrightarrow> sent_ok db es \<Longrightarrow> sent_ok (RecordFailure i err db) es"
  unfolding RecordFailure_def by (auto split: option.splits intro!: sent_row simp: same_event_def)

lemma sent_Place:
  assumes ok: "db_ok db" and sent: "sent_ok db es"
  shows "sent_ok (snd (PlaceOrder quote now i amount db)) es \<and> nextID db \<le> nextID (snd (PlaceOrder quote now i amount db))"
proof (rule PlaceOrder_cases[OF ok, of quote now i amount])
  fix e row assume c: "PlaceOrder quote now i amount db = (None,
      db\<lparr>db_orders := AList.update i row (db_orders db), nextID := nextID db + 1,
        db_outbox := db_outbox db @ [(nextID db + 1, e)]\<rparr>)" "PublishedAt e = None"
  obtain n where "0 \<le> n" "n \<le> nextID db" "firsts (map ev_ID es) = [1..n]" using sent_prefix[OF sent] by blast
  moreover from this have "n \<le> nextID db + 1" by simp
  moreover have "map_of (db_outbox db @ xs) k = Some f" if "map_of (db_outbox db) k = Some f" for k f xs
    using that by (simp add: map_add_Some_iff)
  ultimately show ?thesis using sent c(2) unfolding c(1) sent_ok_def by (auto 0 3)
qed (use sent in simp)

context broker
begin

lemma inv_step:
  assumes inv: "ob_inv sent w" and step: "ob_step quote pub sent w w'"
  shows "ob_inv sent w'"
proof -
  have ok: "db_ok (ow_db w)" and snt: "sent_ok (ow_db w) (sent (ow_broker w))"
    and rel: "\<And>r. relay_ok (ow_db w) (ev_ID ` set (sent (ow_broker w))) (ow_relays w r)"
    using inv by (auto simp: ob_inv_def)
  from step show ?thesis
  proof cases
    case (place clk i amount err db)
    then have db: "db = snd (PlaceOrder quote clk i amount (ow_db w))" by simp
    have "db_ok db" "sent_ok db (sent (ow_broker w))" "nextID (ow_db w) \<le> nextID db"
      unfolding db using db_ok_Place[OF ok] sent_Place[OF ok snt] by blast+
    then show ?thesis using rel place by (auto simp: ob_inv_def intro: relay_mono)
  next
    case (hook fl)
    then show ?thesis using inv
      by (auto simp: ob_inv_def db_ok_def sent_ok_def intro!: relay_mono[of "ow_db w" _ _ "ow_db w\<lparr>failCommit := fl\<rparr>"])
  next
    case (environment b)
    then show ?thesis using inv by (simp add: ob_inv_def)
  next
    case (fetch r batch)
    then show ?thesis using ok snt rel fetch_batch[OF ok snt, of batch] by (simp add: ob_inv_def)
  next
    case (publish r i "is" e b)
    have log: "sent b = sent (ow_broker w) @ [e]" by (rule published[OF publish(4)])
    have batch: "batch_ok (ow_db w) (ev_ID ` set (sent (ow_broker w))) (i # is)" using rel[of r] publish(2) by simp
    note p = publish_sent[OF ok snt batch publish(3)]
    have "relay_ok (ow_db w) (ev_ID ` set (sent b)) (ow_relays w q)" for q
      by (rule relay_mono[OF rel]) (auto simp: log)
    moreover have "batch_ok (ow_db w) (ev_ID ` set (sent b)) is"
      by (rule batch_tl[OF batch]) (auto simp: log p(2))
    ultimately show ?thesis using ok p publish(1) by (simp add: ob_inv_def log)
  next
    case (refuse r i "is" e err b)
    then show ?thesis using inv refused[OF refuse(4)] by (simp add: ob_inv_def)
  next
    case (mark r i "is" now)
    have i: "i \<in> ev_ID ` set (sent (ow_broker w))" "batch_ok (ow_db w) (ev_ID ` set (sent (ow_broker w))) is"
      using rel[of r] mark(2) by simp_all
    have "relay_ok (MarkPublished now i (ow_db w)) (ev_ID ` set (sent (ow_broker w))) (ow_relays w q)" for q
      by (rule relay_mono[OF rel]) (simp_all add: db_view)
    then show ?thesis using db_ok_Mark[OF ok] sent_Mark[OF ok snt i(1)] batch_mono[OF i(2)] mark(1)
      by (simp add: ob_inv_def db_view)
  next
    case (failure r i err)
    have "relay_ok (RecordFailure i err (ow_db w)) (ev_ID ` set (sent (ow_broker w))) (ow_relays w q)" for q
      by (rule relay_mono[OF rel]) (simp_all add: db_view)
    then show ?thesis using db_ok_Failure[OF ok] sent_Failure[OF ok snt] failure(1) by (simp add: ob_inv_def)
  next
    case (stop r)
    then show ?thesis using inv by (simp add: ob_inv_def)
  qed
qed

lemma inv_init: "ob_init sent w \<Longrightarrow> ob_inv sent w"
  by (auto simp: ob_init_def ob_inv_def db_ok_def sent_ok_def NewDB_def firsts.simps)

lemma inv_reach: "reach (ob_init sent) (ob_step quote pub sent) w \<Longrightarrow> ob_inv sent w"
  by (induction rule: reach.induct) (auto intro: inv_init inv_step)

end

interpretation recording: broker rb_Publish Published
  by unfold_locales (auto simp: rb_Publish_def split: if_splits option.splits)

subsection \<open>A run of the relay\<close>

text \<open>\<open>RunOnce\<close> is a sequence of steps of the interleaved system.\<close>

lemma run_batch_steps:
  "run_batch pub ctx now n is (ow_db w) (ow_broker w) = Some (res, db, b) \<Longrightarrow> ow_relays w r = Loop is \<Longrightarrow>
   (ob_step quote pub sent)\<^sup>*\<^sup>* w (w\<lparr>ow_db := db, ow_broker := b, ow_relays := (ow_relays w)(r := Idle)\<rparr>)"
proof (induction "is" arbitrary: n w)
  case Nil
  have "w\<lparr>ow_db := db, ow_broker := b, ow_relays := (ow_relays w)(r := Idle)\<rparr> = w\<lparr>ow_relays := (ow_relays w)(r := Idle)\<rparr>"
    using Nil.prems(1) by simp
  then show ?case using ob_step.stop[of quote pub sent w r] by (simp only: r_into_rtranclp)
next
  case (Cons i "is")
  show ?case
  proof (cases "ctx n")
    case (Some err)
    then have "w\<lparr>ow_db := db, ow_broker := b, ow_relays := (ow_relays w)(r := Idle)\<rparr> = w\<lparr>ow_relays := (ow_relays w)(r := Idle)\<rparr>"
      using Cons.prems(1) by simp
    then show ?thesis using ob_step.stop[of quote pub sent w r] by (simp only: r_into_rtranclp)
  next
    case None
    then obtain e where e: "map_of (db_outbox (ow_db w)) i = Some e" using Cons.prems(1) by (auto split: option.splits)
    obtain err b1 where p: "pub (ow_broker w) e = (err, b1)" by fastforce
    show ?thesis
    proof (cases err)
      case err: (Some msg)
      define w1 where "w1 = w\<lparr>ow_broker := b1, ow_relays := (ow_relays w)(r := Failed i msg)\<rparr>"
      have "ob_step quote pub sent w w1" unfolding w1_def
        by (rule ob_step.refuse[OF Cons.prems(2) e]) (simp add: p err)
      moreover have "ob_step quote pub sent w1 (w1\<lparr>ow_db := RecordFailure i msg (ow_db w1), ow_relays := (ow_relays w1)(r := Idle)\<rparr>)"
        by (rule ob_step.failure) (simp add: w1_def)
      moreover have "w1\<lparr>ow_db := RecordFailure i msg (ow_db w1), ow_relays := (ow_relays w1)(r := Idle)\<rparr> =
          w\<lparr>ow_db := db, ow_broker := b, ow_relays := (ow_relays w)(r := Idle)\<rparr>"
        using Cons.prems(1) None e p err by (simp add: w1_def)
      ultimately show ?thesis by (metis (no_types, lifting) converse_rtranclp_into_rtranclp r_into_rtranclp)
    next
      case ok: None
      define w1 where "w1 = w\<lparr>ow_broker := b1, ow_relays := (ow_relays w)(r := Mark i is)\<rparr>"
      define w2 where "w2 = w1\<lparr>ow_db := MarkPublished (now n) i (ow_db w1), ow_relays := (ow_relays w1)(r := Loop is)\<rparr>"
      have s1: "ob_step quote pub sent w w1" unfolding w1_def
        by (rule ob_step.publish[OF Cons.prems(2) e]) (simp add: p ok)
      have s2: "ob_step quote pub sent w1 w2" unfolding w2_def by (rule ob_step.mark) (simp add: w1_def)
      have "run_batch pub ctx now (n + 1) is (ow_db w2) (ow_broker w2) = Some (res, db, b)"
        using Cons.prems(1) None e p ok by (simp add: w2_def w1_def)
      then have "(ob_step quote pub sent)\<^sup>*\<^sup>* w2 (w2\<lparr>ow_db := db, ow_broker := b, ow_relays := (ow_relays w2)(r := Idle)\<rparr>)"
        by (rule Cons.IH) (simp add: w2_def)
      moreover have "w2\<lparr>ow_db := db, ow_broker := b, ow_relays := (ow_relays w2)(r := Idle)\<rparr> =
          w\<lparr>ow_db := db, ow_broker := b, ow_relays := (ow_relays w)(r := Idle)\<rparr>"
        by (simp add: w2_def w1_def)
      ultimately show ?thesis using s1 s2 by (metis (no_types, lifting) converse_rtranclp_into_rtranclp)
    qed
  qed
qed

lemma RunOnce_steps:
  assumes "RunOnce pub batch ctx now (ow_db w) (ow_broker w) = Some (res, db, b)" and "ow_relays w r = Idle"
  shows "(ob_step quote pub sent)\<^sup>*\<^sup>* w (w\<lparr>ow_db := db, ow_broker := b, ow_relays := (ow_relays w)(r := Idle)\<rparr>)"
proof -
  define w1 where "w1 = w\<lparr>ow_relays := (ow_relays w)(r := Loop (map ev_ID (UnpublishedEvents batch (ow_db w))))\<rparr>"
  have "ob_step quote pub sent w w1" unfolding w1_def by (rule ob_step.fetch[OF assms(2)])
  moreover have "(ob_step quote pub sent)\<^sup>*\<^sup>* w1 (w1\<lparr>ow_db := db, ow_broker := b, ow_relays := (ow_relays w1)(r := Idle)\<rparr>)"
    by (rule run_batch_steps) (use assms(1) in \<open>simp_all add: RunOnce_def w1_def\<close>)
  moreover have "w1\<lparr>ow_db := db, ow_broker := b, ow_relays := (ow_relays w1)(r := Idle)\<rparr> =
      w\<lparr>ow_db := db, ow_broker := b, ow_relays := (ow_relays w)(r := Idle)\<rparr>" by (simp add: w1_def)
  ultimately show ?thesis by (metis (no_types, lifting) converse_rtranclp_into_rtranclp)
qed

text \<open>The IDs of the pending events.\<close>

definition pending :: "DB \<Rightarrow> int list" where
  "pending db = map ev_ID (UnpublishedEvents 0 db)"

definition is_pending :: "DB \<Rightarrow> int \<Rightarrow> bool" where
  "is_pending db i = (case map_of (db_outbox db) i of Some e \<Rightarrow> PublishedAt e = None | None \<Rightarrow> False)"

lemma pending_filter:
  assumes ok: "db_ok db"
  shows "pending db = filter (is_pending db) [1..nextID db]"
proof -
  let ?unpub = "\<lambda>e. PublishedAt e = None"
  have "map ev_ID (filter ?unpub (map snd al)) = filter (\<lambda>i. case map_of al i of Some e \<Rightarrow> ?unpub e | None \<Rightarrow> False) (map fst al)"
    if "distinct (map fst al)" "\<forall>(i, e) \<in> set al. ev_ID e = i" for al
    using that
  proof (induction al)
    case (Cons a al)
    obtain i e where a: "a = (i, e)" by fastforce
    have "filter (\<lambda>j. case map_of (a # al) j of Some e \<Rightarrow> ?unpub e | None \<Rightarrow> False) (map fst al) =
        filter (\<lambda>j. case map_of al j of Some e \<Rightarrow> ?unpub e | None \<Rightarrow> False) (map fst al)"
      using Cons.prems(1) a by (intro filter_cong) auto
    then show ?case using Cons a by simp
  qed simp
  from this[OF outbox_distinct[OF ok]] ok
  have ids: "map ev_ID (filter ?unpub (map snd (db_outbox db))) = filter (is_pending db) [1..nextID db]"
    by (simp add: db_ok_def is_pending_def[abs_def])
  moreover have "sorted (filter (is_pending db) [1..nextID db])" by (simp add: sorted_wrt_filter)
  ultimately have "sort_key ev_ID (filter ?unpub (map snd (db_outbox db))) = filter ?unpub (map snd (db_outbox db))"
    by (metis sort_key_id_if_sorted)
  then show ?thesis using ids by (simp add: pending_def UnpublishedEvents_def Let_def)
qed

lemma fetched: "map ev_ID (UnpublishedEvents batch db) = (if 0 < batch then take (nat batch) (pending db) else pending db)"
  by (auto simp: pending_def UnpublishedEvents_def Let_def take_map)

lemma pending_Mark:
  assumes ok: "db_ok db"
  shows "pending (MarkPublished now i db) = filter (\<lambda>j. j \<noteq> i) (pending db)"
proof -
  have "is_pending (MarkPublished now i db) j \<longleftrightarrow> is_pending db j \<and> j \<noteq> i" for j
    by (auto simp: is_pending_def MarkPublished_def update_conv' split: option.splits)
  then show ?thesis
    using ok by (simp add: pending_filter db_ok_Mark db_view filter_filter) (meson conj_commute)
qed

lemma filter_notin: "distinct (xs @ ys) \<Longrightarrow> filter (\<lambda>j. j \<notin> set xs) (xs @ ys) = ys"
  by (auto simp: filter_id_conv filter_empty_conv)

lemma healthy_batch:
  "db_ok db \<Longrightarrow> FailNext b \<le> 0 \<Longrightarrow> \<forall>i \<in> set is. 1 \<le> i \<and> i \<le> nextID db \<Longrightarrow>
   \<exists>db' b'. run_batch rb_Publish (\<lambda>_. None) now n is db b = Some ((n + length is, None), db', b') \<and> db_ok db' \<and>
     nextID db' = nextID db \<and> pending db' = filter (\<lambda>j. j \<notin> set is) (pending db) \<and> FailNext b' = FailNext b \<and>
     map ev_ID (Published b') = map ev_ID (Published b) @ is"
proof (induction "is" arbitrary: n db b)
  case (Cons i "is")
  obtain e where e: "map_of (db_outbox db) i = Some e" using Cons.prems(3) outbox_ids[OF Cons.prems(1), of i] by auto
  have i: "ev_ID e = i" using Cons.prems(1) map_of_SomeD[OF e] by (auto simp: db_ok_def)
  define b1 where "b1 = b\<lparr>Published := Published b @ [e]\<rparr>"
  have "rb_Publish b e = (None, b1)" using Cons.prems(2) by (simp add: rb_Publish_def b1_def)
  then have step: "run_batch rb_Publish (\<lambda>_. None) now n (i # is) db b =
      run_batch rb_Publish (\<lambda>_. None) now (n + 1) is (MarkPublished (now n) i db) b1" using e by simp
  have "\<exists>db' b'. run_batch rb_Publish (\<lambda>_. None) now (n + 1) is (MarkPublished (now n) i db) b1 =
       Some ((n + 1 + length is, None), db', b') \<and> db_ok db' \<and> nextID db' = nextID (MarkPublished (now n) i db) \<and>
     pending db' = filter (\<lambda>j. j \<notin> set is) (pending (MarkPublished (now n) i db)) \<and> FailNext b' = FailNext b1 \<and>
     map ev_ID (Published b') = map ev_ID (Published b1) @ is"
    by (rule Cons.IH) (use Cons.prems in \<open>simp_all add: db_ok_Mark db_view b1_def\<close>)
  moreover have "filter (\<lambda>j. j \<notin> set is) (pending (MarkPublished (now n) i db)) = filter (\<lambda>j. j \<notin> set (i # is)) (pending db)"
    unfolding pending_Mark[OF Cons.prems(1)] filter_filter by (intro filter_cong) auto
  ultimately show ?case unfolding step by (auto simp: b1_def db_view i)
qed simp

lemma healthy_RunOnce:
  assumes ok: "db_ok db" and b: "FailNext b \<le> 0"
  obtains db' b' where
    "RunOnce rb_Publish batch (\<lambda>_. None) now db b =
       Some ((if 0 < batch then min (nat batch) (length (pending db)) else length (pending db), None), db', b')"
    "db_ok db'" "nextID db' = nextID db" "FailNext b' = FailNext b"
    "pending db' = (if 0 < batch then drop (nat batch) (pending db) else [])"
    "map ev_ID (Published b') = map ev_ID (Published b) @ (if 0 < batch then take (nat batch) (pending db) else pending db)"
proof -
  define xs where "xs = (if 0 < batch then take (nat batch) (pending db) else pending db)"
  define ys where "ys = (if 0 < batch then drop (nat batch) (pending db) else [])"
  have split: "pending db = xs @ ys" by (simp add: xs_def ys_def)
  have dist: "distinct (pending db)" by (simp add: pending_filter[OF ok])
  have "\<forall>i \<in> set xs. 1 \<le> i \<and> i \<le> nextID db"
    using split pending_filter[OF ok] by (metis Un_iff atLeastAtMost_iff filter_is_subset set_append set_upto subsetD)
  from healthy_batch[OF ok b this, of now 0] obtain db' b' where
    r: "run_batch rb_Publish (\<lambda>_. None) now 0 xs db b = Some ((length xs, None), db', b')" "db_ok db'"
      "nextID db' = nextID db" "pending db' = filter (\<lambda>j. j \<notin> set xs) (pending db)" "FailNext b' = FailNext b"
      "map ev_ID (Published b') = map ev_ID (Published b) @ xs" by auto
  have "pending db' = ys" unfolding r(4) split by (rule filter_notin) (use dist split in simp)
  moreover have "length xs = (if 0 < batch then min (nat batch) (length (pending db)) else length (pending db))"
    by (simp add: xs_def min.commute)
  ultimately show ?thesis
    using r that[of db' b'] by (simp add: RunOnce_def fetched xs_def[symmetric] ys_def[symmetric])
qed

lemma healthy_drain:
  "db_ok db \<Longrightarrow> FailNext b \<le> 0 \<Longrightarrow> length (pending db) \<le> rounds * nat batch \<or> batch \<le> 0 \<and> 0 < rounds \<Longrightarrow>
   \<exists>db' b'. RunUntilDrained rb_Publish batch (\<lambda>_ _. None) now rounds db b = Some ((length (pending db), None), db', b') \<and>
     pending db' = [] \<and> map ev_ID (Published b') = map ev_ID (Published b) @ pending db"
proof (induction rounds arbitrary: db b)
  case (Suc rounds)
  obtain db1 b1 where r: "RunOnce rb_Publish batch (\<lambda>_. None) (now rounds) db b =
       Some ((if 0 < batch then min (nat batch) (length (pending db)) else length (pending db), None), db1, b1)"
    "db_ok db1" "nextID db1 = nextID db" "FailNext b1 = FailNext b"
    "pending db1 = (if 0 < batch then drop (nat batch) (pending db) else [])"
    "map ev_ID (Published b1) = map ev_ID (Published b) @ (if 0 < batch then take (nat batch) (pending db) else pending db)"
    by (rule healthy_RunOnce[OF Suc.prems(1,2)])
  show ?case
  proof (cases "pending db = []")
    case True
    then show ?thesis using r by auto
  next
    case False
    have "length (pending db1) \<le> rounds * nat batch \<or> batch \<le> 0 \<and> 0 < rounds \<or> pending db1 = []"
      using Suc.prems(3) r(5) by auto
    then have "\<exists>db' b'. RunUntilDrained rb_Publish batch (\<lambda>_ _. None) now rounds db1 b1 = Some ((length (pending db1), None), db', b') \<and>
        pending db' = [] \<and> map ev_ID (Published b') = map ev_ID (Published b1) @ pending db1"
      using Suc.IH[OF r(2)] Suc.prems(2) r(4) by auto
    then obtain db' b' where d: "RunUntilDrained rb_Publish batch (\<lambda>_ _. None) now rounds db1 b1 = Some ((length (pending db1), None), db', b')"
      "pending db' = []" "map ev_ID (Published b') = map ev_ID (Published b1) @ pending db1" by blast
    have "(if 0 < batch then min (nat batch) (length (pending db)) else length (pending db)) \<noteq> 0" using False by auto
    then have "RunUntilDrained rb_Publish batch (\<lambda>_ _. None) now (Suc rounds) db b = Some ((length (pending db), None), db', b')"
      using r(1,5) d(1) by (auto simp: min_def)
    then show ?thesis using d(2,3) r(5,6) by auto
  qed
qed simp

subsection \<open>Properties\<close>

abbreviation outbox_reach :: "(string \<Rightarrow> string) \<Rightarrow> RecordingBroker world \<Rightarrow> bool" where
  "outbox_reach quote \<equiv> reach (ob_init Published) (ob_step quote rb_Publish Published)"

lemma reach_inv: "outbox_reach quote w \<Longrightarrow> ob_inv Published w"
  by (rule recording.inv_reach)

text \<open>C9: the two effects of an order never disagree.  With any number of relays, failing commits, broker failures and
  crashes at any step, the orders in the database are exactly those with an event in the outbox; what
  the broker got is a committed event, unchanged; and an event marked as published has reached the
  broker: none is lost.\<close>

theorem outbox_no_dual_write:
  assumes "outbox_reach quote w"
  shows "fst ` set (db_orders (ow_db w)) = AggregateID ` snd ` set (db_outbox (ow_db w)) \<and>
    (\<forall>e \<in> set (Published (ow_broker w)). \<exists>f. map_of (db_outbox (ow_db w)) (ev_ID e) = Some f \<and> same_event e f) \<and>
    (\<forall>(i, f) \<in> set (db_outbox (ow_db w)). PublishedAt f \<noteq> None \<longrightarrow> i \<in> ev_ID ` set (Published (ow_broker w)))"
  using reach_inv[OF assms] unfolding ob_inv_def db_ok_def sent_ok_def by blast

text \<open>C35: delivery is at least once and in order.  Whatever the interleaving, the first deliveries are the events
  1, 2, 3, \<dots> without a gap, so no event overtakes an earlier one and an event the broker refuses holds
  back all later ones.\<close>

theorem outbox_first_deliveries_in_order:
  assumes "outbox_reach quote w"
  shows "\<exists>n. 0 \<le> n \<and> n \<le> nextID (ow_db w) \<and> firsts (map ev_ID (Published (ow_broker w))) = [1..n]"
  using reach_inv[OF assms] by (simp add: ob_inv_def sent_ok_def)

text \<open>After any history a healthy broker gets everything.  From every reachable state \<open>RunUntilDrained\<close> with enough
  rounds publishes the pending events in the order of their IDs, once each, and returns their number;
  then nothing is pending and every event of the outbox has been delivered.\<close>

theorem outbox_drains:
  assumes "outbox_reach quote w" and "FailNext (ow_broker w) \<le> 0"
    and "length (pending (ow_db w)) \<le> rounds * nat batch \<or> batch \<le> 0 \<and> 0 < rounds"
  shows "\<exists>db b. RunUntilDrained rb_Publish batch (\<lambda>_ _. None) now rounds (ow_db w) (ow_broker w) =
      Some ((length (pending (ow_db w)), None), db, b) \<and> UnpublishedEvents 0 db = [] \<and>
    map ev_ID (Published b) = map ev_ID (Published (ow_broker w)) @ pending (ow_db w) \<and>
    ev_ID ` set (Published b) = fst ` set (db_outbox (ow_db w))"
proof -
  have ok: "db_ok (ow_db w)" and sent: "sent_ok (ow_db w) (Published (ow_broker w))"
    using reach_inv[OF assms(1)] by (simp_all add: ob_inv_def)
  obtain db b where d: "RunUntilDrained rb_Publish batch (\<lambda>_ _. None) now rounds (ow_db w) (ow_broker w) =
      Some ((length (pending (ow_db w)), None), db, b)" "pending db = []"
    "map ev_ID (Published b) = map ev_ID (Published (ow_broker w)) @ pending (ow_db w)"
    using healthy_drain[OF ok assms(2,3)] by blast
  have ids: "fst ` set (db_outbox (ow_db w)) = {1..nextID (ow_db w)}"
    using ok by (metis db_ok_def list.set_map set_upto)
  have "i \<in> set (pending (ow_db w)) \<or> i \<in> ev_ID ` set (Published (ow_broker w))" if i: "1 \<le> i" "i \<le> nextID (ow_db w)" for i
  proof -
    obtain e where e: "map_of (db_outbox (ow_db w)) i = Some e" using i outbox_ids[OF ok] by blast
    show ?thesis
    proof (cases "PublishedAt e = None")
      case True
      then show ?thesis using e i by (simp add: pending_filter[OF ok] is_pending_def)
    next
      case False
      then show ?thesis using sent map_of_SomeD[OF e] unfolding sent_ok_def by blast
    qed
  qed
  then have "{1..nextID (ow_db w)} \<subseteq> set (pending (ow_db w)) \<union> ev_ID ` set (Published (ow_broker w))"
    unfolding subset_iff atLeastAtMost_iff Un_iff by blast
  moreover have "set (pending (ow_db w)) \<subseteq> {1..nextID (ow_db w)}" by (auto simp: pending_filter[OF ok])
  moreover have "ev_ID ` set (Published (ow_broker w)) \<subseteq> {1..nextID (ow_db w)}"
  proof -
    obtain n where "n \<le> nextID (ow_db w)" "ev_ID ` set (Published (ow_broker w)) = {1..n}"
      using sent_prefix[OF sent] by blast
    then show ?thesis by simp
  qed
  moreover have "ev_ID ` set (Published b) = ev_ID ` set (Published (ow_broker w)) \<union> set (pending (ow_db w))"
    using arg_cong[OF d(3), of set] by simp
  ultimately have "ev_ID ` set (Published b) = fst ` set (db_outbox (ow_db w))" unfolding ids by blast
  with d show ?thesis by (auto simp: pending_def)
qed

text \<open>A run with a failing commit, an order, and a relay that crashes after it published.\<close>

definition world0 :: "RecordingBroker world" where
  "world0 = \<lparr>ow_db = NewDB, ow_broker = \<lparr>Published = [], FailNext = 0, FailErr = None\<rparr>, ow_relays = (\<lambda>_. Idle)\<rparr>"

definition world1 :: "RecordingBroker world" where
  "world1 = world0\<lparr>ow_db := snd (PlaceOrder id (\<lambda>_. 7) ''a'' 500 (ow_db world0))\<rparr>"

definition world2 :: "RecordingBroker world" where
  "world2 = world1\<lparr>ow_relays := (ow_relays world1)(0 := Loop [1])\<rparr>"

definition world3 :: "RecordingBroker world" where
  "world3 = world2\<lparr>ow_broker := snd (rb_Publish (ow_broker world2) (the (map_of (db_outbox (ow_db world2)) 1))),
     ow_relays := (ow_relays world2)(0 := Mark 1 [])\<rparr>"

lemmas world_defs = world0_def world1_def world2_def world3_def NewDB_def PlaceOrder_def db_Begin_def
  InsertOrder_def EnqueueEvent_def tx_Commit_def rb_Publish_def

lemma world_reach: "outbox_reach id (world3\<lparr>ow_relays := (ow_relays world3)(0 := Idle)\<rparr>)"
proof -
  have "outbox_reach id world0" by (rule reach_init) (simp add: world0_def ob_init_def)
  moreover have "ob_step id rb_Publish Published world0 world1"
    unfolding world1_def by (rule ob_step.place[where i = "''a''" and amount = 500 and now = "\<lambda>_. 7" and err = None])
      (simp add: world_defs Let_def)
  moreover have "Loop [1] = Loop (map ev_ID (UnpublishedEvents 10 (ow_db world1)))"
    by (simp add: world_defs Let_def UnpublishedEvents_def)
  then have "ob_step id rb_Publish Published world1 world2"
    unfolding world2_def by (simp only:) (rule ob_step.fetch, simp add: world1_def world0_def)
  moreover have "ob_step id rb_Publish Published world2 world3"
    unfolding world3_def
    by (rule ob_step.publish[where e = "the (map_of (db_outbox (ow_db world2)) 1)"]) (simp_all add: world_defs Let_def)
  ultimately show ?thesis using ob_step.stop by (metis reach_step)
qed

lemma outbox_no_dual_write_witness:
  "fst ` set (db_orders (ow_db world3)) = AggregateID ` snd ` set (db_outbox (ow_db world3)) \<and> Published (ow_broker world3) \<noteq> []"
  using outbox_no_dual_write[OF world_reach] by (simp add: world3_def world2_def rb_Publish_def world1_def world0_def)

lemma outbox_first_deliveries_in_order_witness:
  "\<exists>n. 0 \<le> n \<and> n \<le> nextID (ow_db world3) \<and> firsts (map ev_ID (Published (ow_broker world3))) = [1..n]"
  using outbox_first_deliveries_in_order[OF world_reach] by simp

lemma outbox_drains_witness:
  "\<exists>db b. RunUntilDrained rb_Publish 10 (\<lambda>_ _. None) (\<lambda>_ _. 8) 2 (ow_db world3) (ow_broker world3) = Some ((1, None), db, b) \<and>
    UnpublishedEvents 0 db = [] \<and> map ev_ID (Published b) = [1, 1]"
proof -
  have "FailNext (ow_broker world3) \<le> 0" "pending (ow_db world3) = [1]" "map ev_ID (Published (ow_broker world3)) = [1]"
    by (simp_all add: world_defs Let_def pending_def UnpublishedEvents_def)
  then show ?thesis using outbox_drains[OF world_reach, of 2 10 "\<lambda>_ _. 8"] by auto
qed

end
