(* ===== verification/Sha256.thy ===== *)
theory Sha256
  imports Codec
begin

text \<open>
  SHA-256 as the library \<^verbatim>\<open>crypto/sha256\<close> computes it, and \<^verbatim>\<open>hex.EncodeToString\<close>: the hashes of the
  idempotency keys and of the Merkle tree.  Nothing is proved of the hash; what rests on the absence
  of collisions says so in its hypotheses.
\<close>

definition sha_K :: "u32 list" where
  "sha_K = [0x428A2F98, 0x71374491, 0xB5C0FBCF, 0xE9B5DBA5, 0x3956C25B, 0x59F111F1, 0x923F82A4, 0xAB1C5ED5,
            0xD807AA98, 0x12835B01, 0x243185BE, 0x550C7DC3, 0x72BE5D74, 0x80DEB1FE, 0x9BDC06A7, 0xC19BF174,
            0xE49B69C1, 0xEFBE4786, 0x0FC19DC6, 0x240CA1CC, 0x2DE92C6F, 0x4A7484AA, 0x5CB0A9DC, 0x76F988DA,
            0x983E5152, 0xA831C66D, 0xB00327C8, 0xBF597FC7, 0xC6E00BF3, 0xD5A79147, 0x06CA6351, 0x14292967,
            0x27B70A85, 0x2E1B2138, 0x4D2C6DFC, 0x53380D13, 0x650A7354, 0x766A0ABB, 0x81C2C92E, 0x92722C85,
            0xA2BFE8A1, 0xA81A664B, 0xC24B8B70, 0xC76C51A3, 0xD192E819, 0xD6990624, 0xF40E3585, 0x106AA070,
            0x19A4C116, 0x1E376C08, 0x2748774C, 0x34B0BCB5, 0x391C0CB3, 0x4ED8AA4A, 0x5B9CCA4F, 0x682E6FF3,
            0x748F82EE, 0x78A5636F, 0x84C87814, 0x8CC70208, 0x90BEFFFA, 0xA4506CEB, 0xBEF9A3F7, 0xC67178F2]"

definition sha_H0 :: "u32 list" where
  "sha_H0 = [0x6A09E667, 0xBB67AE85, 0x3C6EF372, 0xA54FF53A, 0x510E527F, 0x9B05688C, 0x1F83D9AB, 0x5BE0CD19]"

abbreviation rotr :: "nat \<Rightarrow> u32 \<Rightarrow> u32" where
  "rotr n x \<equiv> drop_bit n x OR push_bit (32 - n) x"

definition big_word :: "byte list \<Rightarrow> u32" where
  "big_word bs = foldl (\<lambda>w b. push_bit 8 w OR ucast b) 0 bs"

definition big_bytes :: "nat \<Rightarrow> 'a::len word \<Rightarrow> byte list" where
  "big_bytes n v = rev (le_bytes n v)"

definition sha_pad :: "byte list \<Rightarrow> byte list" where
  "sha_pad m = m @ [0x80] @ replicate ((119 - length m mod 64) mod 64) 0 @ big_bytes 8 (word_of_nat (8 * length m) :: u64)"

fun sha_words :: "nat \<Rightarrow> byte list \<Rightarrow> u32 list" where
  "sha_words 0 bs = []"
| "sha_words (Suc n) bs = big_word (take 4 bs) # sha_words n (drop 4 bs)"

text \<open>The message schedule; the words are kept in reverse order.\<close>

fun sha_extend :: "nat \<Rightarrow> u32 list \<Rightarrow> u32 list" where
  "sha_extend 0 ws = ws"
| "sha_extend (Suc n) ws =
     (let a = ws ! 14; b = ws ! 1;
          s0 = rotr 7 a XOR rotr 18 a XOR drop_bit 3 a;
          s1 = rotr 17 b XOR rotr 19 b XOR drop_bit 10 b
      in sha_extend n ((s1 + ws ! 6 + s0 + ws ! 15) # ws))"

definition sha_round :: "u32 \<times> u32 \<Rightarrow> u32 list \<Rightarrow> u32 list" where
  "sha_round kw st =
     (let a = st ! 0; b = st ! 1; c = st ! 2; d = st ! 3; e = st ! 4; f = st ! 5; g = st ! 6; h = st ! 7;
          t1 = h + (rotr 6 e XOR rotr 11 e XOR rotr 25 e) + ((e AND f) XOR (NOT e AND g)) + fst kw + snd kw;
          t2 = (rotr 2 a XOR rotr 13 a XOR rotr 22 a) + ((a AND b) XOR (a AND c) XOR (b AND c))
      in [t1 + t2, a, b, c, d + t1, e, f, g])"

definition sha_block :: "byte list \<Rightarrow> u32 list \<Rightarrow> u32 list" where
  "sha_block bs st =
     (let ws = rev (sha_extend 48 (rev (sha_words 16 bs)))
      in map2 (+) st (fold sha_round (zip sha_K ws) st))"

fun sha_blocks :: "nat \<Rightarrow> byte list \<Rightarrow> u32 list \<Rightarrow> u32 list" where
  "sha_blocks 0 bs st = st"
| "sha_blocks (Suc n) bs st = sha_blocks n (drop 64 bs) (sha_block (take 64 bs) st)"

definition sha256_Sum256 :: "byte list \<Rightarrow> byte list" where
  "sha256_Sum256 m =
     (let p = sha_pad m in concat (map (big_bytes 4) (sha_blocks (length p div 64) p sha_H0)))"

definition hex_digit :: "nat \<Rightarrow> char" where
  "hex_digit n = char_of (if n < 10 then 48 + n else 87 + n)"

definition hex_EncodeToString :: "byte list \<Rightarrow> string" where
  "hex_EncodeToString bs = concat (map (\<lambda>b. [hex_digit (unat b div 16), hex_digit (unat b mod 16)]) bs)"

end
