(* ===== verification/Idempotency.thy ===== *)
theory Idempotency
  imports Sha256 "HOL-Library.AList"
begin

text \<open>
  \<^verbatim>\<open>code/idempotency_keys/idempotency.go\<close>: idempotent request handling.  The map of records is an
  association list without duplicate keys.  \<open>Execute\<close> is its three phases: \<open>idem_claim\<close> under the lock,
  the handler outside it, \<open>idem_record\<close> under the lock again; readings of the clock and the outcome of
  the handler are arguments.  Concurrent calls interleave between the phases in \<open>idem_step\<close>.
\<close>

datatype Status = StatusInProgress | StatusCompleted | StatusFailed

definition idem_Status_String :: "Status \<Rightarrow> string" where
  "idem_Status_String s = (case s of StatusInProgress \<Rightarrow> ''in_progress'' | StatusCompleted \<Rightarrow> ''completed''
     | StatusFailed \<Rightarrow> ''failed'')"

record IRecord =
  ir_Key :: string
  ir_Fingerprint :: string
  ir_Status :: Status
  ir_Response :: string
  ir_StatusCode :: int
  ir_CreatedAt :: gtime
  ir_CompletedAt :: "gtime option"

datatype idem_error = ErrConflict | ErrFingerprintMismatch | ErrKeyRequired | ErrVanished | HandlerError string

record IStore =
  is_records :: "(string \<times> IRecord) list"
  is_ttl :: int

definition idem_NewStore :: "int \<Rightarrow> IStore" where
  "idem_NewStore ttl = \<lparr>is_records = [], is_ttl = ttl\<rparr>"

definition Fingerprint :: "string \<Rightarrow> string" where
  "Fingerprint body = hex_EncodeToString (sha256_Sum256 (bytes_of body))"

record Result =
  res_Response :: string
  res_StatusCode :: int
  Replayed :: bool

definition idem_expired :: "gtime \<Rightarrow> IRecord \<Rightarrow> IStore \<Rightarrow> bool" where
  "idem_expired now r s \<longleftrightarrow> is_ttl s > 0 \<and> now - ir_CreatedAt r > is_ttl s"

definition put_record :: "IRecord \<Rightarrow> IStore \<Rightarrow> string \<Rightarrow> IStore" where
  "put_record r s key = s\<lparr>is_records := AList.update key r (is_records s)\<rparr>"

text \<open>Phase 1.  The result is \<open>None\<close> when the caller has claimed the key and is to run the handler;
  \<open>now1\<close> is read for the expiry and \<open>now2\<close> for \<open>CreatedAt\<close>.\<close>

definition idem_claim :: "gtime \<Rightarrow> gtime \<Rightarrow> string \<Rightarrow> string \<Rightarrow> IStore \<Rightarrow> (idem_error + Result) option \<times> IStore" where
  "idem_claim now1 now2 key body s =
     (if key = '''' then (Some (Inl ErrKeyRequired), s)
      else
        let fp = Fingerprint body;
            fresh = (\<lambda>s. (None, put_record \<lparr>ir_Key = key, ir_Fingerprint = fp, ir_Status = StatusInProgress,
              ir_Response = '''', ir_StatusCode = 0, ir_CreatedAt = now2, ir_CompletedAt = None\<rparr> s key))
        in case map_of (is_records s) key of
             None \<Rightarrow> fresh s
           | Some r \<Rightarrow>
               if idem_expired now1 r s then fresh (s\<lparr>is_records := AList.delete key (is_records s)\<rparr>)
               else if ir_Fingerprint r \<noteq> fp then (Some (Inl ErrFingerprintMismatch), s)
               else case ir_Status r of
                 StatusInProgress \<Rightarrow> (Some (Inl ErrConflict), s)
               | StatusCompleted \<Rightarrow>
                   (Some (Inr \<lparr>res_Response = ir_Response r, res_StatusCode = ir_StatusCode r, Replayed = True\<rparr>), s)
               | StatusFailed \<Rightarrow>
                   (None, put_record (r\<lparr>ir_Status := StatusInProgress, ir_CreatedAt := now2\<rparr>) s key))"

text \<open>Phase 3, after the handler returned a response, a status code and perhaps an error.\<close>

type_synonym outcome = "string \<times> int \<times> string option"

definition idem_record :: "gtime \<Rightarrow> string \<Rightarrow> outcome \<Rightarrow> IStore \<Rightarrow> (idem_error + Result) \<times> IStore" where
  "idem_record now key out s =
     (case map_of (is_records s) key of
        None \<Rightarrow> (Inl ErrVanished, s)
      | Some r \<Rightarrow>
          case out of
            (resp, code, Some err) \<Rightarrow> (Inl (HandlerError err), put_record (r\<lparr>ir_Status := StatusFailed\<rparr>) s key)
          | (resp, code, None) \<Rightarrow>
              (Inr \<lparr>res_Response = resp, res_StatusCode = code, Replayed = False\<rparr>,
               put_record (r\<lparr>ir_Status := StatusCompleted, ir_Response := resp, ir_StatusCode := code,
                             ir_CompletedAt := Some now\<rparr>) s key))"

text \<open>\<open>Execute\<close> without interference; the last component is whether the handler ran.\<close>

definition idem_Execute :: "gtime \<Rightarrow> gtime \<Rightarrow> gtime \<Rightarrow> string \<Rightarrow> string \<Rightarrow> outcome \<Rightarrow> IStore \<Rightarrow>
    (idem_error + Result) \<times> IStore \<times> bool" where
  "idem_Execute now1 now2 now3 key body out s =
     (case idem_claim now1 now2 key body s of
        (Some r, s1) \<Rightarrow> (r, s1, False)
      | (None, s1) \<Rightarrow> let (r, s2) = idem_record now3 key out s1 in (r, s2, True))"

definition idem_Get :: "gtime \<Rightarrow> string \<Rightarrow> IStore \<Rightarrow> IRecord option" where
  "idem_Get now key s =
     (case map_of (is_records s) key of None \<Rightarrow> None | Some r \<Rightarrow> if idem_expired now r s then None else Some r)"

definition idem_Purge :: "gtime \<Rightarrow> IStore \<Rightarrow> nat \<times> IStore" where
  "idem_Purge now s =
     (let kept = filter (\<lambda>(k, r). \<not> idem_expired now r s) (is_records s)
      in (length (is_records s) - length kept, s\<lparr>is_records := kept\<rparr>))"

definition idem_Len :: "IStore \<Rightarrow> nat" where
  "idem_Len s = length (is_records s)"

definition HTTPStatus :: "idem_error option \<Rightarrow> int" where
  "HTTPStatus e = (case e of None \<Rightarrow> 200 | Some ErrKeyRequired \<Rightarrow> 400 | Some ErrConflict \<Rightarrow> 409
     | Some ErrFingerprintMismatch \<Rightarrow> 422 | Some _ \<Rightarrow> 500)"

subsection \<open>Concurrent calls\<close>

text \<open>
  A thread is free or runs the handler of a key.  \<open>iw_done\<close> lists the runs of a handler that succeeded,
  with their responses, and \<open>iw_replies\<close> the results returned to clients.  A handler that panics leaves
  the record as it is.
\<close>

datatype idem_pc = Free | Running string

record iworld =
  iw_store :: IStore
  iw_now :: gtime
  iw_threads :: "nat \<Rightarrow> idem_pc"
  iw_done :: "(string \<times> string \<times> int) list"
  iw_replies :: "(string \<times> Result) list"

definition idem_init :: "int \<Rightarrow> gtime \<Rightarrow> iworld \<Rightarrow> bool" where
  "idem_init ttl t0 w \<longleftrightarrow> iw_store w = idem_NewStore ttl \<and> iw_now w = t0 \<and> (\<forall>t. iw_threads w t = Free) \<and>
     iw_done w = [] \<and> iw_replies w = []"

inductive idem_step :: "iworld \<Rightarrow> iworld \<Rightarrow> bool" where
  call: "iw_threads w t = Free \<Longrightarrow> iw_now w \<le> n1 \<Longrightarrow> n1 \<le> n2 \<Longrightarrow>
    idem_claim n1 n2 key body (iw_store w) = (r, s) \<Longrightarrow>
    idem_step w (w\<lparr>iw_store := s, iw_now := n2,
      iw_threads := (iw_threads w)(t := if r = None then Running key else Free),
      iw_replies := iw_replies w @ (case r of Some (Inr res) \<Rightarrow> [(key, res)] | _ \<Rightarrow> [])\<rparr>)"
| finish: "iw_threads w t = Running key \<Longrightarrow> iw_now w \<le> n \<Longrightarrow>
    idem_record n key (resp, code, err) (iw_store w) = (r, s) \<Longrightarrow>
    idem_step w (w\<lparr>iw_store := s, iw_now := n, iw_threads := (iw_threads w)(t := Free),
      iw_done := iw_done w @ (if err = None then [(key, resp, code)] else []),
      iw_replies := iw_replies w @ (case r of Inr res \<Rightarrow> [(key, res)] | Inl _ \<Rightarrow> [])\<rparr>)"
| panic: "iw_threads w t = Running key \<Longrightarrow> idem_step w (w\<lparr>iw_threads := (iw_threads w)(t := Free)\<rparr>)"
| purge: "iw_now w \<le> n \<Longrightarrow> idem_step w (w\<lparr>iw_store := snd (idem_Purge n (iw_store w)), iw_now := n\<rparr>)"

abbreviation idem_reach :: "int \<Rightarrow> gtime \<Rightarrow> iworld \<Rightarrow> bool" where
  "idem_reach ttl t0 \<equiv> reach (idem_init ttl t0) idem_step"

subsection \<open>At most once while nothing expires\<close>

text \<open>Nothing has expired: there is no time to live, or the first one is not over.\<close>

definition no_expiry :: "int \<Rightarrow> gtime \<Rightarrow> iworld \<Rightarrow> bool" where
  "no_expiry ttl t0 w \<longleftrightarrow> ttl \<le> 0 \<or> iw_now w \<le> t0 + ttl"

definition key_ok :: "iworld \<Rightarrow> string \<Rightarrow> bool" where
  "key_ok w k \<longleftrightarrow>
     (\<forall>t u. iw_threads w t = Running k \<longrightarrow> iw_threads w u = Running k \<longrightarrow> t = u) \<and>
     (\<forall>t. iw_threads w t = Running k \<longrightarrow> (\<exists>r. map_of (is_records (iw_store w)) k = Some r \<and> ir_Status r = StatusInProgress)) \<and>
     filter (\<lambda>d. fst d = k) (iw_done w) =
       (case map_of (is_records (iw_store w)) k of
          None \<Rightarrow> []
        | Some r \<Rightarrow> if ir_Status r = StatusCompleted then [(k, ir_Response r, ir_StatusCode r)] else []) \<and>
     (\<forall>res. (k, res) \<in> set (iw_replies w) \<longrightarrow> (k, res_Response res, res_StatusCode res) \<in> set (iw_done w))"

definition idem_inv :: "int \<Rightarrow> gtime \<Rightarrow> iworld \<Rightarrow> bool" where
  "idem_inv ttl t0 w \<longleftrightarrow> is_ttl (iw_store w) = ttl \<and> t0 \<le> iw_now w \<and>
     (no_expiry ttl t0 w \<longrightarrow>
        (\<forall>(k, r) \<in> set (is_records (iw_store w)). t0 \<le> ir_CreatedAt r) \<and> (\<forall>k. key_ok w k))"

lemma no_expiry_earlier: "no_expiry ttl t0 w' \<Longrightarrow> iw_now w \<le> iw_now w' \<Longrightarrow> no_expiry ttl t0 w"
  by (auto simp: no_expiry_def)

lemma set_AList_update: "set (AList.update k v al) \<subseteq> insert (k, v) (set al)"
  by (induction al) auto

lemma records_put: "map_of (is_records (put_record r s key)) = (map_of (is_records s))(key \<mapsto> r)"
  "is_ttl (put_record r s key) = is_ttl s"
  by (simp_all add: put_record_def update_conv')

lemma created_put:
  "\<forall>(k, r) \<in> set (is_records s). t0 \<le> ir_CreatedAt r \<Longrightarrow> t0 \<le> ir_CreatedAt r' \<Longrightarrow>
   \<forall>(k, r) \<in> set (is_records (put_record r' s key)). t0 \<le> ir_CreatedAt r"
  using set_AList_update[of key r' "is_records s"] by (fastforce simp: put_record_def)

lemma claim_cases:
  assumes c: "idem_claim n1 n2 key body s = (r, s')"
    and live: "\<And>rec. map_of (is_records s) key = Some rec \<Longrightarrow> \<not> idem_expired n1 rec s"
  obtains (reply) x where "r = Some x" "s' = s"
      "\<And>res. x = Inr res \<Longrightarrow> \<exists>rec. map_of (is_records s) key = Some rec \<and> ir_Status rec = StatusCompleted \<and>
        res_Response res = ir_Response rec \<and> res_StatusCode res = ir_StatusCode rec"
  | (claimed) rec' where "r = None" "s' = put_record rec' s key" "ir_Status rec' = StatusInProgress" "ir_CreatedAt rec' = n2"
      "\<And>rec. map_of (is_records s) key = Some rec \<Longrightarrow> ir_Status rec = StatusFailed"
proof (cases "key = ''''")
  case True
  show ?thesis by (rule reply) (use c True in \<open>auto simp: idem_claim_def\<close>)
next
  case False
  show ?thesis
  proof (cases "map_of (is_records s) key")
    case None
    show ?thesis
      by (rule claimed[where rec' = "\<lparr>ir_Key = key, ir_Fingerprint = Fingerprint body, ir_Status = StatusInProgress,
              ir_Response = '''', ir_StatusCode = 0, ir_CreatedAt = n2, ir_CompletedAt = None\<rparr>"])
        (use c False None in \<open>simp_all add: idem_claim_def Let_def\<close>)
  next
    case (Some rec)
    note hit = Some live[OF Some]
    show ?thesis
    proof (cases "ir_Fingerprint rec = Fingerprint body \<and> ir_Status rec = StatusFailed")
      case True
      show ?thesis
        by (rule claimed[where rec' = "rec\<lparr>ir_Status := StatusInProgress, ir_CreatedAt := n2\<rparr>"])
          (use c False hit True in \<open>simp_all add: idem_claim_def Let_def\<close>)
    next
      case other: False
      then obtain x where "r = Some x" "s' = s" "x = Inr \<lparr>res_Response = ir_Response rec, res_StatusCode = ir_StatusCode rec, Replayed = True\<rparr>
          \<and> ir_Status rec = StatusCompleted \<or> (\<exists>e. x = Inl e)"
        using c False hit by (cases "ir_Status rec") (auto simp: idem_claim_def Let_def split: if_splits)
      then show ?thesis using hit(1) by (intro reply[of x]) auto
    qed
  qed
qed

lemma record_ok:
  assumes "idem_record n key (resp, code, err) s = (r, s')" and "map_of (is_records s) key = Some rec"
  obtains rec' where "s' = put_record rec' s key" "ir_CreatedAt rec' = ir_CreatedAt rec"
    "ir_Status rec' = (if err = None then StatusCompleted else StatusFailed)"
    "err = None \<Longrightarrow> ir_Response rec' = resp \<and> ir_StatusCode rec' = code"
    "\<And>res. r = Inr res \<Longrightarrow> err = None \<and> res_Response res = resp \<and> res_StatusCode res = code"
proof (cases err)
  case None
  show ?thesis
    by (rule that[where rec' = "rec\<lparr>ir_Status := StatusCompleted, ir_Response := resp, ir_StatusCode := code, ir_CompletedAt := Some n\<rparr>"])
      (use assms None in \<open>auto simp: idem_record_def\<close>)
next
  case (Some e)
  show ?thesis
    by (rule that[where rec' = "rec\<lparr>ir_Status := StatusFailed\<rparr>"]) (use assms Some in \<open>auto simp: idem_record_def\<close>)
qed

lemma claim_ttl: "idem_claim n1 n2 key body s = (r, s') \<Longrightarrow> is_ttl s' = is_ttl s"
  by (auto simp: idem_claim_def Let_def put_record_def split: if_splits option.splits Status.splits)

lemma record_ttl: "idem_record n key out s = (r, s') \<Longrightarrow> is_ttl s' = is_ttl s"
  by (auto simp: idem_record_def put_record_def split: option.splits prod.splits)

text \<open>A key that a step does not touch stays in order.\<close>

lemma key_ok_cong:
  assumes "key_ok w k"
    and "\<And>t. iw_threads w' t = Running k \<longleftrightarrow> iw_threads w t = Running k"
    and "map_of (is_records (iw_store w')) k = map_of (is_records (iw_store w)) k"
    and "filter (\<lambda>d. fst d = k) (iw_done w') = filter (\<lambda>d. fst d = k) (iw_done w)"
    and "\<And>res. (k, res) \<in> set (iw_replies w') \<longleftrightarrow> (k, res) \<in> set (iw_replies w)"
  shows "key_ok w' k"
proof -
  have "(k, x) \<in> set (iw_done w') \<longleftrightarrow> (k, x) \<in> set (iw_done w)" for x
    using arg_cong[OF assms(4), of set] by (cases x) (auto simp: set_eq_iff)
  with assms show ?thesis unfolding key_ok_def by simp
qed

lemma done_completed:
  assumes "key_ok w k" and "map_of (is_records (iw_store w)) k = Some rec" and "ir_Status rec = StatusCompleted"
  shows "(k, ir_Response rec, ir_StatusCode rec) \<in> set (iw_done w)"
proof -
  have "filter (\<lambda>d. fst d = k) (iw_done w) = [(k, ir_Response rec, ir_StatusCode rec)]"
    using assms by (simp add: key_ok_def)
  then show ?thesis by (metis filter_is_subset list.set_intros(1) subsetD)
qed

lemma call_key_ok:
  assumes ok: "\<forall>k. key_ok w k" and free: "iw_threads w t = Free"
    and c: "idem_claim n1 n2 key body (iw_store w) = (r, s)"
    and live: "\<And>rec. map_of (is_records (iw_store w)) key = Some rec \<Longrightarrow> \<not> idem_expired n1 rec (iw_store w)"
    and created: "\<forall>(k, r) \<in> set (is_records (iw_store w)). t0 \<le> ir_CreatedAt r" "t0 \<le> n2"
    and w': "w' = w\<lparr>iw_store := s, iw_now := n2, iw_threads := (iw_threads w)(t := if r = None then Running key else Free),
      iw_replies := iw_replies w @ (case r of Some (Inr res) \<Rightarrow> [(key, res)] | _ \<Rightarrow> [])\<rparr>"
  shows "(\<forall>(k, r) \<in> set (is_records s). t0 \<le> ir_CreatedAt r) \<and> key_ok w' k"
proof (cases rule: claim_cases[OF c live, case_names _ reply claimed])
  case (reply x)
  have "key_ok w' k"
  proof (cases "k = key \<and> (\<exists>res. x = Inr res)")
    case True
    then obtain res rec where res: "x = Inr res" "map_of (is_records (iw_store w)) key = Some rec" "ir_Status rec = StatusCompleted"
      "res_Response res = ir_Response rec" "res_StatusCode res = ir_StatusCode rec" using reply(3) by blast
    have "(key, res_Response res, res_StatusCode res) \<in> set (iw_done w)"
      using done_completed[of w key rec] ok res by simp
    then show ?thesis using ok[rule_format, of key] True free reply(1,2) res(1) by (auto simp: w' key_ok_def)
  next
    case False
    show ?thesis
      by (rule key_ok_cong[OF ok[rule_format, of k]]) (use False free reply(1,2) in \<open>auto simp: w' split: sum.splits\<close>)
  qed
  then show ?thesis using created(1) reply(2) by simp
next
  case (claimed rec')
  have "key_ok w' k"
  proof (cases "k = key")
    case True
    have "\<not> iw_threads w u = Running key" for u
      using ok[rule_format, of key] claimed(5) by (fastforce simp: key_ok_def)
    moreover have "filter (\<lambda>d. fst d = key) (iw_done w) = []"
      using ok[rule_format, of key] claimed(5) by (fastforce simp: key_ok_def split: option.splits if_splits)
    ultimately show ?thesis using True ok[rule_format, of key] claimed(1-3) by (auto simp: w' key_ok_def records_put)
  next
    case False
    show ?thesis
      by (rule key_ok_cong[OF ok[rule_format, of k]]) (use False free claimed(1,2) in \<open>auto simp: w' records_put\<close>)
  qed
  then show ?thesis using created_put[OF created(1), of rec' key] created(2) claimed(2,4) by simp
qed

lemma finish_key_ok:
  assumes ok: "\<forall>k. key_ok w k" and run: "iw_threads w t = Running key"
    and c: "idem_record n key (resp, code, err) (iw_store w) = (r, s)"
    and created: "\<forall>(k, r) \<in> set (is_records (iw_store w)). t0 \<le> ir_CreatedAt r"
    and w': "w' = w\<lparr>iw_store := s, iw_now := n, iw_threads := (iw_threads w)(t := Free),
      iw_done := iw_done w @ (if err = None then [(key, resp, code)] else []),
      iw_replies := iw_replies w @ (case r of Inr res \<Rightarrow> [(key, res)] | Inl _ \<Rightarrow> [])\<rparr>"
  shows "(\<forall>(k, r) \<in> set (is_records s). t0 \<le> ir_CreatedAt r) \<and> key_ok w' k"
proof -
  obtain rec where rec: "map_of (is_records (iw_store w)) key = Some rec" "ir_Status rec = StatusInProgress"
    using ok run unfolding key_ok_def by blast
  obtain rec' where r': "s = put_record rec' (iw_store w) key" "ir_CreatedAt rec' = ir_CreatedAt rec"
    "ir_Status rec' = (if err = None then StatusCompleted else StatusFailed)"
    "err = None \<Longrightarrow> ir_Response rec' = resp \<and> ir_StatusCode rec' = code"
    "\<And>res. r = Inr res \<Longrightarrow> err = None \<and> res_Response res = resp \<and> res_StatusCode res = code"
    by (rule record_ok[OF c rec(1)]) blast
  have "t0 \<le> ir_CreatedAt rec'" using created map_of_SomeD[OF rec(1)] r'(2) by auto
  then have 1: "\<forall>(k, r) \<in> set (is_records s). t0 \<le> ir_CreatedAt r" unfolding r'(1) by (rule created_put[OF created])
  have "key_ok w' k"
  proof (cases "k = key")
    case True
    have only: "iw_threads w u = Running key \<Longrightarrow> u = t" for u using ok run unfolding key_ok_def by blast
    have "filter (\<lambda>d. fst d = key) (iw_done w) = []" using ok[rule_format, of key] rec by (simp add: key_ok_def)
    moreover have "(key, res_Response res, res_StatusCode res) \<in> set (iw_done w)" if "(key, res) \<in> set (iw_replies w)" for res
      using ok[rule_format, of key] that by (simp add: key_ok_def)
    ultimately show ?thesis
      using True only r'(3-5) by (auto simp: key_ok_def w' r'(1) records_put split: sum.splits)
  next
    case False
    show ?thesis
      by (rule key_ok_cong[OF ok[rule_format, of k]]) (use False run in \<open>auto simp: w' r'(1) records_put split: sum.splits\<close>)
  qed
  with 1 show ?thesis ..
qed

lemma idem_inv_step:
  assumes inv: "idem_inv ttl t0 w" and step: "idem_step w w'"
  shows "idem_inv ttl t0 w'"
proof -
  have ttl: "is_ttl (iw_store w) = ttl" "t0 \<le> iw_now w" using inv by (simp_all add: idem_inv_def)
  have good: "\<forall>(k, r) \<in> set (is_records (iw_store w)). t0 \<le> ir_CreatedAt r" "\<forall>k. key_ok w k"
    if "no_expiry ttl t0 w" using inv that by (simp_all add: idem_inv_def)
  have live: "\<not> idem_expired n rec (iw_store w)"
    if "no_expiry ttl t0 w'" "iw_now w \<le> n" "n \<le> iw_now w'" "(k, rec) \<in> set (is_records (iw_store w))" for n k rec
  proof -
    have "no_expiry ttl t0 w" by (rule no_expiry_earlier[OF that(1)]) (use that(2,3) in simp)
    then have "t0 \<le> ir_CreatedAt rec" using good(1) that(4) by auto
    then show ?thesis using that(1-3) ttl(1) by (auto simp: idem_expired_def no_expiry_def)
  qed
  from step show ?thesis
  proof cases
    case (call t n1 n2 key body r s)
    show ?thesis unfolding idem_inv_def
    proof (intro conjI impI)
      show "is_ttl (iw_store w') = ttl" "t0 \<le> iw_now w'" using call ttl claim_ttl by auto
      assume e: "no_expiry ttl t0 w'"
      then have e0: "no_expiry ttl t0 w" by (rule no_expiry_earlier) (use call in simp)
      have l: "\<not> idem_expired n1 rec (iw_store w)" if "map_of (is_records (iw_store w)) key = Some rec" for rec
        using live[OF e call(3) _ map_of_SomeD[OF that]] call(1,4) by simp
      have "t0 \<le> n2" using ttl(2) call(3,4) by simp
      note key = call_key_ok[OF good(2)[OF e0] call(2,5) l good(1)[OF e0] this call(1)]
      from key show "\<forall>(k, r) \<in> set (is_records (iw_store w')). t0 \<le> ir_CreatedAt r" by (simp add: call(1))
      from key show "\<forall>k. key_ok w' k" by blast
    qed
  next
    case (finish t key n resp code err r s)
    show ?thesis unfolding idem_inv_def
    proof (intro conjI impI)
      show "is_ttl (iw_store w') = ttl" "t0 \<le> iw_now w'" using finish ttl record_ttl by auto
      assume "no_expiry ttl t0 w'"
      then have e0: "no_expiry ttl t0 w" by (rule no_expiry_earlier) (use finish in simp)
      note key = finish_key_ok[OF good(2)[OF e0] finish(2,4) good(1)[OF e0] finish(1)]
      from key show "\<forall>(k, r) \<in> set (is_records (iw_store w')). t0 \<le> ir_CreatedAt r" by (simp add: finish(1))
      from key show "\<forall>k. key_ok w' k" by blast
    qed
  next
    case (panic t key)
    have ok: "key_ok w' k" if "key_ok w k" for k using that unfolding key_ok_def panic(1) by auto
    have same: "iw_store w' = iw_store w" "iw_now w' = iw_now w" by (simp_all add: panic(1))
    show ?thesis unfolding idem_inv_def same
    proof (intro conjI impI)
      assume "no_expiry ttl t0 w'"
      then have e0: "no_expiry ttl t0 w" by (simp add: no_expiry_def same)
      show "\<forall>(k, r) \<in> set (is_records (iw_store w)). t0 \<le> ir_CreatedAt r" by (rule good(1)[OF e0])
      show "\<forall>k. key_ok w' k" using good(2)[OF e0] ok by blast
    qed (rule ttl)+
  next
    case (purge n)
    show ?thesis unfolding idem_inv_def
    proof (intro conjI impI)
      show "is_ttl (iw_store w') = ttl" "t0 \<le> iw_now w'" using purge ttl by (simp_all add: idem_Purge_def Let_def)
      assume e: "no_expiry ttl t0 w'"
      then have e0: "no_expiry ttl t0 w" by (rule no_expiry_earlier) (use purge in simp)
      have "filter (\<lambda>(k, r). \<not> idem_expired n r (iw_store w)) (is_records (iw_store w)) = is_records (iw_store w)"
        using live[OF e purge(2)] by (auto simp: purge(1) intro!: filter_True)
      then have "iw_store w' = iw_store w" by (simp add: purge(1) idem_Purge_def Let_def)
      moreover have "key_ok w' k" for k
        by (rule key_ok_cong[OF good(2)[OF e0, rule_format, of k]]) (use \<open>iw_store w' = iw_store w\<close> in \<open>simp_all add: purge(1)\<close>)
      ultimately show "\<forall>(k, r) \<in> set (is_records (iw_store w')). t0 \<le> ir_CreatedAt r" "\<forall>k. key_ok w' k"
        using good(1)[OF e0] by simp_all
    qed
  qed
qed

interpretation idem: step_system "idem_init ttl t0" idem_step "idem_inv ttl t0" for ttl t0
proof
  fix w w'
  show "idem_inv ttl t0 w" if "idem_init ttl t0 w"
    using that by (auto simp: idem_init_def idem_inv_def idem_NewStore_def key_ok_def)
  show "idem_inv ttl t0 w'" if "idem_inv ttl t0 w" "idem_step w w'" using idem_inv_step that by blast
qed

subsection \<open>Properties\<close>

text \<open>C11: a handler runs at most once while nothing expires.  For any interleaving of concurrent calls, failing and
  panicking handlers and purges, as long as no time to live is over: at most one thread runs the
  handler of a key at a time, at most one run of it succeeds, and every response given for the key is
  that of this run.\<close>

theorem idem_at_most_once:
  assumes "idem_reach ttl t0 w" and "ttl \<le> 0 \<or> iw_now w \<le> t0 + ttl"
  shows "(iw_threads w t = Running k \<longrightarrow> iw_threads w u = Running k \<longrightarrow> t = u) \<and>
    length (filter (\<lambda>d. fst d = k) (iw_done w)) \<le> 1 \<and>
    ((k, res) \<in> set (iw_replies w) \<longrightarrow> (k, res_Response res, res_StatusCode res) \<in> set (iw_done w))"
proof -
  have "key_ok w k" using idem.reachable_inv[OF assms(1)] assms(2) by (simp add: idem_inv_def no_expiry_def)
  then show ?thesis by (auto simp: key_ok_def split: option.splits)
qed

text \<open>The time to live breaks it.  The claim of a key expires while its handler still runs, because the expiry
  does not look at the status: when a handler takes longer than the time to live, a retry runs it a
  second time, both runs succeed, and the client gets two different fresh responses for one key.\<close>

theorem idem_slow_handler_runs_twice:
  assumes "0 < ttl" and "key \<noteq> ''''"
  shows "\<exists>w. idem_reach ttl t0 w \<and> iw_done w = [(key, resp1, code1), (key, resp2, code2)] \<and>
    iw_replies w = [(key, \<lparr>res_Response = resp1, res_StatusCode = code1, Replayed = False\<rparr>),
      (key, \<lparr>res_Response = resp2, res_StatusCode = code2, Replayed = False\<rparr>)]"
proof -
  define rec where "rec t = \<lparr>ir_Key = key, ir_Fingerprint = Fingerprint body, ir_Status = StatusInProgress,
    ir_Response = '''', ir_StatusCode = 0, ir_CreatedAt = t, ir_CompletedAt = None\<rparr>" for t
  define t1 where "t1 = t0 + ttl + 1"
  define w0 where "w0 = \<lparr>iw_store = idem_NewStore ttl, iw_now = t0, iw_threads = (\<lambda>_. Free), iw_done = [], iw_replies = []\<rparr>"
  define w1 where "w1 = w0\<lparr>iw_store := \<lparr>is_records = [(key, rec t0)], is_ttl = ttl\<rparr>, iw_threads := (\<lambda>_. Free)(0 := Running key)\<rparr>"
  define w2 where "w2 = w1\<lparr>iw_store := \<lparr>is_records = [(key, rec t1)], is_ttl = ttl\<rparr>, iw_now := t1,
    iw_threads := (iw_threads w1)(1 := Running key)\<rparr>"
  define r1 where "r1 = (rec t1)\<lparr>ir_Status := StatusCompleted, ir_Response := resp1, ir_StatusCode := code1, ir_CompletedAt := Some t1\<rparr>"
  define w3 where "w3 = w2\<lparr>iw_store := \<lparr>is_records = [(key, r1)], is_ttl = ttl\<rparr>, iw_threads := (iw_threads w2)(0 := Free),
    iw_done := [(key, resp1, code1)], iw_replies := [(key, \<lparr>res_Response = resp1, res_StatusCode = code1, Replayed = False\<rparr>)]\<rparr>"
  define r2 where "r2 = r1\<lparr>ir_Response := resp2, ir_StatusCode := code2\<rparr>"
  define w4 where "w4 = w3\<lparr>iw_store := \<lparr>is_records = [(key, r2)], is_ttl = ttl\<rparr>, iw_threads := (iw_threads w3)(1 := Free),
    iw_done := [(key, resp1, code1), (key, resp2, code2)],
    iw_replies := iw_replies w3 @ [(key, \<lparr>res_Response = resp2, res_StatusCode = code2, Replayed = False\<rparr>)]\<rparr>"
  have "idem_reach ttl t0 w0" by (rule reach_init) (simp add: idem_init_def w0_def)
  moreover have "idem_step w0 w1"
    using idem_step.call[of w0 0 t0 t0 key body None "iw_store w1"] assms(2)
    by (simp add: w0_def w1_def idem_claim_def idem_NewStore_def put_record_def rec_def Let_def fun_upd_def)
  moreover have "idem_step w1 w2"
    using idem_step.call[of w1 1 t1 t1 key body None "iw_store w2"] assms
    by (simp add: w1_def w2_def w0_def t1_def idem_claim_def idem_expired_def put_record_def rec_def Let_def fun_upd_def)
  moreover have "idem_step w2 w3"
    using idem_step.finish[of w2 0 key t1 resp1 code1 None "Inr \<lparr>res_Response = resp1, res_StatusCode = code1, Replayed = False\<rparr>" "iw_store w3"]
    by (simp add: w2_def w3_def w1_def w0_def r1_def idem_record_def put_record_def fun_upd_def)
  moreover have "idem_step w3 w4"
    using idem_step.finish[of w3 1 key t1 resp2 code2 None "Inr \<lparr>res_Response = resp2, res_StatusCode = code2, Replayed = False\<rparr>" "iw_store w4"]
    by (simp add: w3_def w4_def w2_def w1_def w0_def r1_def r2_def rec_def idem_record_def put_record_def fun_upd_def)
  ultimately have "idem_reach ttl t0 w4" by (meson reach_step)
  then show ?thesis by (intro exI[of _ w4]) (simp add: w4_def w3_def w2_def w1_def)
qed

lemma idem_slow_handler_runs_twice_witness:
  "\<exists>w. idem_reach 50 0 w \<and> iw_done w = [(''k'', ''charge-1'', 201), (''k'', ''charge-2'', 201)] \<and>
    iw_replies w = [(''k'', \<lparr>res_Response = ''charge-1'', res_StatusCode = 201, Replayed = False\<rparr>),
      (''k'', \<lparr>res_Response = ''charge-2'', res_StatusCode = 201, Replayed = False\<rparr>)]"
  by (rule idem_slow_handler_runs_twice) simp_all

text \<open>What a call that ran the handler returns and stores.\<close>

definition idem_ran :: "string \<Rightarrow> outcome \<Rightarrow> (idem_error + Result) \<times> IStore \<times> bool \<Rightarrow> bool" where
  "idem_ran key out x \<longleftrightarrow> (case (out, x) of ((resp, code, err), (r, s, did)) \<Rightarrow>
     did \<and> (case map_of (is_records s) key of None \<Rightarrow> False | Some rec \<Rightarrow>
       (case err of
          None \<Rightarrow> r = Inr \<lparr>res_Response = resp, res_StatusCode = code, Replayed = False\<rparr> \<and>
            ir_Status rec = StatusCompleted \<and> ir_Response rec = resp \<and> ir_StatusCode rec = code
        | Some e \<Rightarrow> r = Inl (HandlerError e) \<and> ir_Status rec = StatusFailed)))"

lemma claimed_ran:
  assumes "idem_claim now1 now2 key body s = (None, s1)" and "map_of (is_records s1) key \<noteq> None"
  shows "idem_ran key out (idem_Execute now1 now2 now3 key body out s)"
  using assms by (cases out; cases "snd (snd out)")
    (auto simp: idem_ran_def idem_Execute_def idem_record_def records_put)

text \<open>The state machine of \<open>Execute\<close>.  Without interference: an empty key is refused; an unknown or expired
  one runs the handler; a live record with another fingerprint is refused; one in progress is a
  conflict; a completed one is replayed without running the handler; a failed one runs it again.  The
  store changes only when the handler runs, and then it holds the outcome.\<close>

theorem idem_Execute_table:
  "if key = '''' then idem_Execute now1 now2 now3 key body out s = (Inl ErrKeyRequired, s, False)
   else case map_of (is_records s) key of
      None \<Rightarrow> idem_ran key out (idem_Execute now1 now2 now3 key body out s)
    | Some r \<Rightarrow>
        if idem_expired now1 r s then idem_ran key out (idem_Execute now1 now2 now3 key body out s)
        else if ir_Fingerprint r \<noteq> Fingerprint body
        then idem_Execute now1 now2 now3 key body out s = (Inl ErrFingerprintMismatch, s, False)
        else case ir_Status r of
          StatusInProgress \<Rightarrow> idem_Execute now1 now2 now3 key body out s = (Inl ErrConflict, s, False)
        | StatusCompleted \<Rightarrow> idem_Execute now1 now2 now3 key body out s =
            (Inr \<lparr>res_Response = ir_Response r, res_StatusCode = ir_StatusCode r, Replayed = True\<rparr>, s, False)
        | StatusFailed \<Rightarrow> idem_ran key out (idem_Execute now1 now2 now3 key body out s)"
proof (cases "key = ''''")
  case True
  then show ?thesis by (simp add: idem_Execute_def idem_claim_def)
next
  case False
  show ?thesis
  proof (cases "map_of (is_records s) key")
    case None
    then obtain s1 where "idem_claim now1 now2 key body s = (None, s1)" "map_of (is_records s1) key \<noteq> None"
      using False by (simp add: idem_claim_def Let_def records_put)
    then have "idem_ran key out (idem_Execute now1 now2 now3 key body out s)" by (rule claimed_ran)
    then show ?thesis using False None by simp
  next
    case (Some r)
    show ?thesis
    proof (cases "idem_expired now1 r s \<or> ir_Fingerprint r = Fingerprint body \<and> ir_Status r = StatusFailed")
      case True
      have "\<exists>s1. idem_claim now1 now2 key body s = (None, s1) \<and> map_of (is_records s1) key \<noteq> None"
        using False Some True by (auto simp: idem_claim_def Let_def records_put)
      then have "idem_ran key out (idem_Execute now1 now2 now3 key body out s)" using claimed_ran by blast
      then show ?thesis using False Some True by auto
    next
      case other: False
      then show ?thesis using False Some
        by (cases "ir_Status r") (auto simp: idem_Execute_def idem_claim_def Let_def)
    qed
  qed
qed

text \<open>A run in which a first call holds the key.\<close>

lemma idem_at_most_once_witness:
  "\<exists>w. idem_reach 0 0 w \<and> iw_threads w 0 = Running ''k'' \<and> iw_threads w 1 \<noteq> Running ''k''"
proof -
  define w0 where "w0 = \<lparr>iw_store = idem_NewStore 0, iw_now = 0, iw_threads = (\<lambda>_. Free), iw_done = [], iw_replies = []\<rparr>"
  have r0: "idem_reach 0 0 w0" by (rule reach_init) (simp add: idem_init_def w0_def)
  obtain s where s: "idem_claim 0 0 ''k'' ''b'' (iw_store w0) = (None, s)"
    by (simp add: w0_def idem_NewStore_def idem_claim_def Let_def)
  define w1 where "w1 = w0\<lparr>iw_store := s, iw_now := 0, iw_threads := (iw_threads w0)(0 := Running ''k'')\<rparr>"
  have "idem_step w0 w1" using idem_step.call[OF _ _ _ s, of 0] by (simp add: w1_def w0_def)
  with r0 have r1: "idem_reach 0 0 w1" by (rule reach_step)
  have "iw_threads w1 0 = Running ''k''" by (simp add: w1_def)
  moreover have "iw_threads w1 1 \<noteq> Running ''k''"
    using idem_at_most_once[OF r1, of 0 "''k''" 1] \<open>iw_threads w1 0 = Running ''k''\<close> by simp
  ultimately show ?thesis using r1 by blast
qed

end
