(* ===== verification/VectorClock.thy ===== *)
theory VectorClock
  imports Codec "HOL-Library.AList"
begin

text \<open>
  Vector clocks and the replicas that hold concurrent versions of one key
  (\<^verbatim>\<open>code/vector_clock/clock.go\<close>).  A clock is an association list without an order, a missing node
  counts 0, a counter is a 64-bit word that wraps.  The replicas exchange versions over a network that loses,
  delays, duplicates and reorders: a replica may receive at any time any version ever written.
  Each write gets a ghost record of its causal past, the writes its replica knew of, and the clocks are proved
  to order the writes exactly as these pasts do, as long as fewer than \<open>2^64\<close> writes happened.
\<close>

datatype Ordering = Equal | Before | After | Concurrent

fun Ordering_String :: "Ordering \<Rightarrow> string" where
  "Ordering_String Equal = ''equal''"
| "Ordering_String Before = ''before''"
| "Ordering_String After = ''after''"
| "Ordering_String Concurrent = ''concurrent''"

type_synonym VectorClock = "(string \<times> u64) list"

definition NewVectorClock :: VectorClock where
  "NewVectorClock = []"

definition vc_at :: "VectorClock \<Rightarrow> string \<Rightarrow> u64" where
  "vc_at vc node = (case map_of vc node of None \<Rightarrow> 0 | Some c \<Rightarrow> c)"

definition vc_Increment :: "string \<Rightarrow> VectorClock \<Rightarrow> VectorClock" where
  "vc_Increment node vc = AList.update node (vc_at vc node + 1) vc"

definition vc_Merge :: "VectorClock \<Rightarrow> VectorClock \<Rightarrow> VectorClock" where
  "vc_Merge vc other =
     fold (\<lambda>(node, count) out. if count > vc_at out node then AList.update node count out else out) other vc"

definition vc_Compare :: "VectorClock \<Rightarrow> VectorClock \<Rightarrow> Ordering" where
  "vc_Compare vc other =
     (let nodes = remdups (map fst vc @ map fst other);
          less = list_ex (\<lambda>n. vc_at vc n < vc_at other n) nodes;
          greater = list_ex (\<lambda>n. vc_at vc n > vc_at other n) nodes
      in if \<not> less \<and> \<not> greater then Equal
         else if less \<and> \<not> greater then Before
         else if greater \<and> \<not> less then After
         else Concurrent)"

definition HappensBefore :: "VectorClock \<Rightarrow> VectorClock \<Rightarrow> bool" where
  "HappensBefore vc other \<longleftrightarrow> vc_Compare vc other = Before"

definition ConcurrentWith :: "VectorClock \<Rightarrow> VectorClock \<Rightarrow> bool" where
  "ConcurrentWith vc other \<longleftrightarrow> vc_Compare vc other = Concurrent"

fun join_parts :: "string list \<Rightarrow> string" where
  "join_parts [] = ''''"
| "join_parts [p] = p"
| "join_parts (p # ps) = p @ '', '' @ join_parts ps"

definition vc_String :: "VectorClock \<Rightarrow> string" where
  "vc_String vc =
     (if vc = [] then ''{}''
      else ''{'' @ join_parts (map (\<lambda>n. n @ '':'' @ decimal (unat (vc_at vc n))) (sort (map fst vc))) @ ''}'')"

subsection \<open>Replicas\<close>

record Version =
  Value :: string
  Clock :: VectorClock

record Replica =
  rep_ID :: string
  Versions :: "Version list"

definition NewReplica :: "string \<Rightarrow> Replica" where
  "NewReplica i = \<lparr>rep_ID = i, Versions = []\<rparr>"

definition rep_Write :: "string \<Rightarrow> Replica \<Rightarrow> Replica" where
  "rep_Write val r =
     (let clock = fold (\<lambda>v clock. vc_Merge clock (Clock v)) (Versions r) NewVectorClock;
          clock1 = vc_Increment (rep_ID r) clock
      in r\<lparr>Versions := [\<lparr>Value = val, Clock = clock1\<rparr>]\<rparr>)"

text \<open>The loop of \<open>Receive\<close>; \<open>None\<close>: it returned early.\<close>

fun receive_loop :: "Version \<Rightarrow> Version list \<Rightarrow> Version list \<Rightarrow> Version list option" where
  "receive_loop incoming kept [] = Some kept"
| "receive_loop incoming kept (existing # rest) =
     (case vc_Compare (Clock existing) (Clock incoming) of
        After \<Rightarrow> None
      | Equal \<Rightarrow> None
      | Before \<Rightarrow> receive_loop incoming kept rest
      | Concurrent \<Rightarrow> receive_loop incoming (kept @ [existing]) rest)"

definition rep_Receive :: "Version \<Rightarrow> Replica \<Rightarrow> Replica" where
  "rep_Receive incoming r =
     (case receive_loop incoming [] (Versions r) of
        None \<Rightarrow> r
      | Some kept \<Rightarrow> r\<lparr>Versions := kept @ [incoming]\<rparr>)"

definition Siblings :: "Replica \<Rightarrow> bool" where
  "Siblings r \<longleftrightarrow> length (Versions r) > 1"

definition rep_Values :: "Replica \<Rightarrow> string list" where
  "rep_Values r = sort (map Value (Versions r))"

subsection \<open>Comparing and merging\<close>

lemma vc_at_update [simp]: "vc_at (AList.update n c vc) m = (if m = n then c else vc_at vc m)"
  by (simp add: vc_at_def update_conv')

lemma vc_at_Increment [simp]: "vc_at (vc_Increment n vc) m = (if m = n then vc_at vc n + 1 else vc_at vc m)"
  by (simp add: vc_Increment_def)

lemma vc_at_New [simp]: "vc_at NewVectorClock n = 0"
  by (simp add: vc_at_def NewVectorClock_def)

lemma vc_at_fst: "n \<notin> fst ` set vc \<Longrightarrow> vc_at vc n = 0"
  by (simp add: vc_at_def map_of_eq_None_iff[THEN iffD2])

lemma vc_Compare_exists:
  "(\<exists>n \<in> set (map fst vc @ map fst other). P (vc_at vc n) (vc_at other n)) \<longleftrightarrow> (\<exists>n. P (vc_at vc n) (vc_at other n))"
  if "\<not> P 0 0"
proof
  assume "\<exists>n. P (vc_at vc n) (vc_at other n)"
  then obtain n where n: "P (vc_at vc n) (vc_at other n)" ..
  have "n \<in> fst ` set vc \<union> fst ` set other"
  proof (rule ccontr)
    assume "n \<notin> fst ` set vc \<union> fst ` set other"
    then have "vc_at vc n = 0" "vc_at other n = 0" by (simp_all add: vc_at_fst)
    with n that show False by simp
  qed
  then have "n \<in> set (map fst vc @ map fst other)" by auto
  with n show "\<exists>n \<in> set (map fst vc @ map fst other). P (vc_at vc n) (vc_at other n)" by blast
qed blast

definition vc_le :: "VectorClock \<Rightarrow> VectorClock \<Rightarrow> bool" where
  "vc_le vc other \<longleftrightarrow> (\<forall>n. vc_at vc n \<le> vc_at other n)"

lemma vc_Compare_le:
  "vc_Compare vc other =
     (if vc_le vc other then if vc_le other vc then Equal else Before
      else if vc_le other vc then After else Concurrent)"
proof -
  have "list_ex (\<lambda>n. vc_at vc n < vc_at other n) (remdups (map fst vc @ map fst other)) \<longleftrightarrow> \<not> vc_le other vc"
    using vc_Compare_exists[where P = "(<)" and vc = vc and other = other] unfolding vc_le_def
    by (simp add: list_ex_iff not_le del: set_append set_map)
  moreover have "list_ex (\<lambda>n. vc_at vc n > vc_at other n) (remdups (map fst vc @ map fst other)) \<longleftrightarrow> \<not> vc_le vc other"
    using vc_Compare_exists[where P = "(>)" and vc = vc and other = other] unfolding vc_le_def
    by (simp add: list_ex_iff not_le del: set_append set_map)
  ultimately show ?thesis unfolding vc_Compare_def Let_def by simp
qed

lemma vc_at_Merge_step:
  "vc_at (fold (\<lambda>(node, count) out. if count > vc_at out node then AList.update node count out else out) other vc) n =
   (if n \<in> fst ` set other then max (vc_at vc n) (vc_at other n) else vc_at vc n)"
  if "distinct (map fst other)"
  using that
proof (induction other arbitrary: vc)
  case (Cons p other)
  obtain m c where p: "p = (m, c)" by (cases p)
  have m: "m \<notin> fst ` set other" using Cons.prems p by simp
  have at: "vc_at (p # other) n = (if n = m then c else vc_at other n)" by (simp add: vc_at_def p)
  show ?case using Cons m unfolding p by (auto simp: at[unfolded p] max_def)
qed simp

text \<open>The clocks the code builds list each node once.\<close>

lemma vc_at_Merge [simp]:
  "distinct (map fst other) \<Longrightarrow> vc_at (vc_Merge vc other) n = max (vc_at vc n) (vc_at other n)"
  by (auto simp: vc_Merge_def vc_at_Merge_step vc_at_fst)

lemma distinct_Increment: "distinct (map fst vc) \<Longrightarrow> distinct (map fst (vc_Increment n vc))"
  by (simp add: vc_Increment_def distinct_update)

lemma distinct_Merge: "distinct (map fst vc) \<Longrightarrow> distinct (map fst (vc_Merge vc other))"
  unfolding vc_Merge_def by (induction other arbitrary: vc) (auto simp: distinct_update)

subsection \<open>The network of replicas\<close>

text \<open>An entry of the log: the writer, the version and the writes it causally follows, itself included.\<close>

type_synonym event = "string \<times> Version \<times> nat set"

record vworld =
  vw_reps :: "Replica list"
  vw_log :: "event list"

abbreviation writer :: "event list \<Rightarrow> nat \<Rightarrow> string" where "writer L i \<equiv> fst (L ! i)"
abbreviation version :: "event list \<Rightarrow> nat \<Rightarrow> Version" where "version L i \<equiv> fst (snd (L ! i))"
abbreviation past :: "event list \<Rightarrow> nat \<Rightarrow> nat set" where "past L i \<equiv> snd (snd (L ! i))"

definition known :: "event list \<Rightarrow> Version list \<Rightarrow> nat set" where
  "known L vs = (\<Union>i \<in> {i. i < length L \<and> version L i \<in> set vs}. past L i)"

definition vc_init :: "vworld \<Rightarrow> bool" where
  "vc_init w \<longleftrightarrow> vw_log w = [] \<and> (\<exists>ids. distinct ids \<and> vw_reps w = map NewReplica ids)"

inductive vc_step :: "vworld \<Rightarrow> vworld \<Rightarrow> bool" where
  vc_write: "i < length reps \<Longrightarrow> r = rep_Write val (reps ! i) \<Longrightarrow> Versions r = [v] \<Longrightarrow>
    vc_step \<lparr>vw_reps = reps, vw_log = L\<rparr>
      \<lparr>vw_reps = reps[i := r], vw_log = L @ [(rep_ID (reps ! i), v, insert (length L) (known L (Versions (reps ! i))))]\<rparr>"
| vc_receive: "i < length reps \<Longrightarrow> j < length L \<Longrightarrow>
    vc_step \<lparr>vw_reps = reps, vw_log = L\<rparr>
      \<lparr>vw_reps = reps[i := rep_Receive (version L j) (reps ! i)], vw_log = L\<rparr>"

abbreviation vc_reach :: "vworld \<Rightarrow> bool" where
  "vc_reach \<equiv> reach vc_init vc_step"

subsection \<open>Clocks represent causally closed sets of writes\<close>

definition closed_set :: "event list \<Rightarrow> nat set \<Rightarrow> bool" where
  "closed_set L S \<longleftrightarrow> S \<subseteq> {..<length L} \<and> (\<forall>j \<in> S. past L j \<subseteq> S)"

definition log_ok :: "event list \<Rightarrow> bool" where
  "log_ok L \<longleftrightarrow> (\<forall>i < length L. past L i \<subseteq> {..i} \<and> i \<in> past L i \<and> closed_set L (past L i)) \<and>
     (\<forall>i j. i < j \<longrightarrow> j < length L \<longrightarrow> writer L i = writer L j \<longrightarrow> i \<in> past L j)"

abbreviation wrote :: "event list \<Rightarrow> nat set \<Rightarrow> string \<Rightarrow> nat set" where
  "wrote L S n \<equiv> {j \<in> S. writer L j = n}"

definition represents :: "event list \<Rightarrow> VectorClock \<Rightarrow> nat set \<Rightarrow> bool" where
  "represents L c S \<longleftrightarrow> closed_set L S \<and> distinct (map fst c) \<and> (\<forall>n. unat (vc_at c n) = card (wrote L S n))"

lemma closed_finite: "closed_set L S \<Longrightarrow> finite S"
  unfolding closed_set_def by (meson finite_lessThan finite_subset)

lemma closed_Un: "closed_set L S \<Longrightarrow> closed_set L T \<Longrightarrow> closed_set L (S \<union> T)"
  by (auto simp: closed_set_def)

text \<open>The writes of one node form a chain: of two closed sets one holds a prefix of the other's.\<close>

lemma closed_chain:
  assumes ok: "log_ok L" and S: "closed_set L S" and T: "closed_set L T"
  shows "wrote L S n \<subseteq> wrote L T n \<or> wrote L T n \<subseteq> wrote L S n"
proof (rule ccontr)
  assume "\<not> ?thesis"
  then obtain j k where j: "j \<in> S" "writer L j = n" "j \<notin> T" and k: "k \<in> T" "writer L k = n" "k \<notin> S" by blast
  have len: "j < length L" "k < length L" using S T j(1) k(1) by (auto simp: closed_set_def)
  have "j < k \<or> k < j \<or> j = k" by auto
  then show False
  proof (elim disjE)
    assume "j < k"
    then have "j \<in> past L k" using ok len j(2) k(2) unfolding log_ok_def by simp
    then show False using T k(1) j(3) by (auto simp: closed_set_def)
  next
    assume "k < j"
    then have "k \<in> past L j" using ok len j(2) k(2) unfolding log_ok_def by simp
    then show False using S j(1) k(3) by (auto simp: closed_set_def)
  qed (use j k in simp)
qed

lemma finite_wrote [simp]: "closed_set L S \<Longrightarrow> finite (wrote L S n)"
  by (rule finite_subset[OF _ closed_finite]) auto

lemma chain_card:
  assumes "log_ok L" and "closed_set L S" and "closed_set L T"
    and "card (wrote L S n) \<le> card (wrote L T n)"
  shows "wrote L S n \<subseteq> wrote L T n"
  using closed_chain[OF assms(1-3), of n]
proof
  assume "wrote L T n \<subseteq> wrote L S n"
  from card_seteq[OF finite_wrote[OF assms(2)] this assms(4)] show ?thesis by simp
qed

lemma represents_le:
  assumes ok: "log_ok L" and c: "represents L c S" and d: "represents L d T"
  shows "vc_le c d \<longleftrightarrow> S \<subseteq> T"
proof -
  have closed: "closed_set L S" "closed_set L T" using c d by (auto simp: represents_def)
  have le: "vc_at c n \<le> vc_at d n \<longleftrightarrow> card (wrote L S n) \<le> card (wrote L T n)" for n
    using c d by (simp add: represents_def word_le_nat_alt)
  show ?thesis
  proof
    assume "vc_le c d"
    show "S \<subseteq> T"
    proof
      fix j assume j: "j \<in> S"
      have "card (wrote L S (writer L j)) \<le> card (wrote L T (writer L j))"
        using \<open>vc_le c d\<close> le[of "writer L j"] by (simp add: vc_le_def)
      then have "wrote L S (writer L j) \<subseteq> wrote L T (writer L j)"
        using chain_card[OF ok closed] by simp
      then show "j \<in> T" using j by auto
    qed
  next
    assume "S \<subseteq> T"
    then have "wrote L S n \<subseteq> wrote L T n" for n by auto
    then show "vc_le c d" unfolding vc_le_def le by (simp add: card_mono finite_wrote[OF closed(2)])
  qed
qed

definition causal_order :: "nat set \<Rightarrow> nat set \<Rightarrow> Ordering" where
  "causal_order S T = (if S = T then Equal else if S \<subseteq> T then Before else if T \<subseteq> S then After else Concurrent)"

lemma represents_Compare:
  "log_ok L \<Longrightarrow> represents L c S \<Longrightarrow> represents L d T \<Longrightarrow> vc_Compare c d = causal_order S T"
  by (auto simp: vc_Compare_le represents_le causal_order_def)

lemma represents_Merge:
  assumes ok: "log_ok L" and c: "represents L c S" and d: "represents L d T"
  shows "represents L (vc_Merge c d) (S \<union> T)"
proof -
  have closed: "closed_set L S" "closed_set L T" using c d by (auto simp: represents_def)
  have "unat (vc_at (vc_Merge c d) n) = card (wrote L (S \<union> T) n)" for n
  proof -
    have at: "vc_at (vc_Merge c d) n = max (vc_at c n) (vc_at d n)"
      and num: "unat (vc_at c n) = card (wrote L S n)" "unat (vc_at d n) = card (wrote L T n)"
      using c d by (simp_all add: represents_def)
    have un: "wrote L (S \<union> T) n = wrote L S n \<union> wrote L T n" by auto
    from closed_chain[OF ok closed, of n] show ?thesis
    proof
      assume sub: "wrote L S n \<subseteq> wrote L T n"
      then have "card (wrote L S n) \<le> card (wrote L T n)" by (simp add: card_mono closed)
      then show ?thesis using sub num unfolding at un by (simp add: max_def word_le_nat_alt Un_absorb1)
    next
      assume sub: "wrote L T n \<subseteq> wrote L S n"
      then have "card (wrote L T n) \<le> card (wrote L S n)" by (simp add: card_mono closed)
      then show ?thesis using sub num unfolding at un by (simp add: max_def word_le_nat_alt Un_absorb2)
    qed
  qed
  then show ?thesis using c d closed by (simp add: represents_def closed_Un distinct_Merge)
qed

subsection \<open>The invariant of the network\<close>

definition rep_ok :: "event list \<Rightarrow> Replica \<Rightarrow> bool" where
  "rep_ok L r \<longleftrightarrow> (\<forall>v \<in> set (Versions r). \<exists>i < length L. v = version L i) \<and>
     (\<forall>j < length L. writer L j = rep_ID r \<longrightarrow> j \<in> known L (Versions r)) \<and>
     distinct (Versions r) \<and>
     (\<forall>u \<in> set (Versions r). \<forall>v \<in> set (Versions r). u \<noteq> v \<longrightarrow> vc_Compare (Clock u) (Clock v) = Concurrent)"

definition clocks_ok :: "event list \<Rightarrow> bool" where
  "clocks_ok L \<longleftrightarrow> log_ok L \<and> (\<forall>i < length L. represents L (Clock (version L i)) (past L i))"

definition vc_ok :: "vworld \<Rightarrow> bool" where
  "vc_ok w \<longleftrightarrow> clocks_ok (vw_log w) \<and> distinct (map rep_ID (vw_reps w)) \<and> (\<forall>r \<in> set (vw_reps w). rep_ok (vw_log w) r)"

definition vc_inv :: "vworld \<Rightarrow> bool" where
  "vc_inv w \<longleftrightarrow> (length (vw_log w) < 2 ^ 64 \<longrightarrow> vc_ok w)"

lemma represents_inj: "log_ok L \<Longrightarrow> represents L c S \<Longrightarrow> represents L c T \<Longrightarrow> S = T"
  using represents_le[of L c S c T] represents_le[of L c T c S] by (auto simp: vc_le_def)

lemma version_inj:
  assumes "clocks_ok L" and "i < length L" and "j < length L" and "version L i = version L j"
  shows "i = j"
proof -
  have ok: "log_ok L" using assms(1) by (simp add: clocks_ok_def)
  have "represents L (Clock (version L i)) (past L i)" "represents L (Clock (version L i)) (past L j)"
    using assms by (auto simp: clocks_ok_def)
  then have "past L i = past L j" by (rule represents_inj[OF ok])
  then have "i \<in> past L j" "j \<in> past L i" using ok assms(2,3) by (auto simp: log_ok_def)
  moreover have "past L i \<subseteq> {..i}" "past L j \<subseteq> {..j}" using ok assms(2,3) by (auto simp: log_ok_def)
  ultimately show ?thesis by (meson atMost_iff le_antisym subsetD)
qed

lemma known_single: "clocks_ok L \<Longrightarrow> i < length L \<Longrightarrow> known L [version L i] = past L i"
  using version_inj by (auto simp: known_def)

lemma known_Cons: "known L (v # vs) = known L [v] \<union> known L vs"
  by (auto simp: known_def)

lemma known_mono: "set us \<subseteq> set vs \<Longrightarrow> known L us \<subseteq> known L vs"
  by (auto simp: known_def)

lemma represents_fold:
  assumes ok: "clocks_ok L" and "represents L c S" and "\<forall>v \<in> set vs. \<exists>i < length L. v = version L i"
  shows "represents L (fold (\<lambda>v clock. vc_Merge clock (Clock v)) vs c) (S \<union> known L vs)"
  using assms(2,3)
proof (induction vs arbitrary: c S)
  case (Cons v vs)
  then obtain i where i: "i < length L" "v = version L i" by auto
  have "represents L (vc_Merge c (Clock v)) (S \<union> past L i)"
    using represents_Merge[OF _ Cons.prems(1)] ok i by (simp add: clocks_ok_def)
  from Cons.IH[OF this] Cons.prems(2) show ?case
    using known_single[OF ok i(1)] i(2) by (simp add: known_Cons[of L "version L i" vs] Un_assoc)
qed (simp add: known_def)

lemma represents_New: "represents L NewVectorClock {}"
  by (simp add: represents_def closed_set_def) (simp add: NewVectorClock_def)

lemma closed_append: "closed_set L S \<Longrightarrow> closed_set (L @ L') S"
  by (auto simp: closed_set_def nth_append)

lemma wrote_append: "closed_set L S \<Longrightarrow> wrote (L @ L') S n = wrote L S n"
  by (auto simp: closed_set_def nth_append)

lemma represents_append: "represents L c S \<Longrightarrow> represents (L @ L') c S"
  by (auto simp: represents_def closed_append wrote_append)

lemma known_append: "known L vs \<subseteq> known (L @ L') vs"
proof
  fix j assume "j \<in> known L vs"
  then obtain i where "i < length L" "version L i \<in> set vs" "j \<in> past L i" by (auto simp: known_def)
  then have "i < length (L @ L')" "version (L @ L') i \<in> set vs" "j \<in> past (L @ L') i" by (simp_all add: nth_append)
  then show "j \<in> known (L @ L') vs" unfolding known_def by blast
qed

lemma closed_known: "clocks_ok L \<Longrightarrow> closed_set L (known L vs)"
  by (fastforce simp: clocks_ok_def log_ok_def closed_set_def known_def)

subsection \<open>A write\<close>

lemma clocks_ok_write:
  assumes ok: "clocks_ok L" and rep: "rep_ok L r" and room: "length L + 1 < 2 ^ 64"
    and v: "Versions (rep_Write val r) = [v]"
  shows "clocks_ok (L @ [(rep_ID r, v, insert (length L) (known L (Versions r)))])" (is "clocks_ok ?L")
proof -
  let ?n = "length L" and ?K = "known L (Versions r)"
  let ?N = "insert ?n ?K" and ?c = "fold (\<lambda>v clock. vc_Merge clock (Clock v)) (Versions r) NewVectorClock"
  have logs: "log_ok L" and each: "\<forall>i < ?n. represents L (Clock (version L i)) (past L i)"
    using ok by (auto simp: clocks_ok_def)
  have K: "closed_set L ?K" by (rule closed_known[OF ok])
  have new: "writer ?L ?n = rep_ID r" "version ?L ?n = v" "past ?L ?n = ?N" by (simp_all add: nth_append)
  have old: "?L ! i = L ! i" if "i < ?n" for i using that by (simp add: nth_append)
  have "past ?L j \<subseteq> ?N" if "j \<in> ?N" for j
  proof (cases "j = ?n")
    case False
    then have "j \<in> ?K" "j < ?n" using that K by (auto simp: closed_set_def)
    then show ?thesis using K old[of j] by (auto simp: closed_set_def)
  qed (simp add: nth_append)
  then have N: "closed_set ?L ?N" using K by (auto simp: closed_set_def)
  have "log_ok ?L"
  proof -
    have "past ?L i \<subseteq> {..i} \<and> i \<in> past ?L i \<and> closed_set ?L (past ?L i)" if "i < length ?L" for i
    proof (cases "i = ?n")
      case True
      then show ?thesis using N K new by (auto simp: closed_set_def)
    next
      case False
      then have i: "i < ?n" using that by simp
      then show ?thesis using logs closed_append[of L _ "[(rep_ID r, v, ?N)]"] unfolding old[OF i] log_ok_def by blast
    qed
    moreover have "i \<in> past ?L j" if "i < j" "j < length ?L" "writer ?L i = writer ?L j" for i j
    proof (cases "j = ?n")
      case True
      then have "i \<in> ?K" using that old[of i] rep unfolding rep_ok_def by (simp add: new)
      then show ?thesis using True new by simp
    next
      case False
      then have "j < ?n" "i < ?n" using that by simp_all
      then show ?thesis using logs that old[of i] old[of j] by (simp add: log_ok_def)
    qed
    ultimately show ?thesis by (simp add: log_ok_def)
  qed
  moreover have "represents ?L (Clock v) ?N"
  proof -
    have "represents L ?c ({} \<union> ?K)" by (rule represents_fold[OF ok represents_New]) (use rep in \<open>simp add: rep_ok_def\<close>)
    then have c: "represents L ?c ?K" by simp
    have clock: "Clock v = vc_Increment (rep_ID r) ?c" using v by (auto simp: rep_Write_def Let_def)
    have nK: "?n \<notin> ?K" using K by (auto simp: closed_set_def)
    have mine: "wrote ?L ?N (rep_ID r) = insert ?n (wrote L ?K (rep_ID r))"
      using K by (auto simp: closed_set_def nth_append)
    have others: "wrote ?L ?N n = wrote L ?K n" if "n \<noteq> rep_ID r" for n
      using K that by (auto simp: closed_set_def nth_append)
    have "wrote L ?K (rep_ID r) \<subseteq> {..<?n}" using K by (auto simp: closed_set_def)
    then have "card (wrote L ?K (rep_ID r)) \<le> ?n" using card_mono[OF finite_lessThan] by fastforce
    then have "unat (vc_at ?c (rep_ID r)) + 1 < 2 ^ 64" using c room by (simp add: represents_def)
    then have "unat (vc_at ?c (rep_ID r) + 1) = unat (vc_at ?c (rep_ID r)) + 1"
      by (simp add: unat_plus_if')
    then have "unat (vc_at (Clock v) n) = card (wrote ?L ?N n)" for n
      using c nK others[of n] mine finite_wrote[OF K] by (cases "n = rep_ID r") (simp_all add: represents_def clock)
    then show ?thesis using N c unfolding represents_def clock by (simp add: distinct_Increment)
  qed
  ultimately show ?thesis
    using each new by (auto simp: clocks_ok_def less_Suc_eq nth_append intro: represents_append)
qed

lemma rep_Write_ID [simp]: "rep_ID (rep_Write val r) = rep_ID r"
  by (simp add: rep_Write_def Let_def)

lemma map_ID_update [simp]: "i < length reps \<Longrightarrow> rep_ID r = rep_ID (reps ! i) \<Longrightarrow>
    map rep_ID (reps[i := r]) = map rep_ID reps"
  by (simp add: map_update list_update_same_conv)

lemma rep_ok_append:
  assumes "rep_ok L r" and "n \<noteq> rep_ID r"
  shows "rep_ok (L @ [(n, v, N)]) r"
  unfolding rep_ok_def
proof (intro conjI ballI allI impI)
  fix u assume "u \<in> set (Versions r)"
  then obtain i where "i < length L" "u = version L i" using assms(1) by (auto simp: rep_ok_def)
  then show "\<exists>i < length (L @ [(n, v, N)]). u = version (L @ [(n, v, N)]) i"
    by (intro exI[of _ i]) (simp add: nth_append)
next
  fix j assume j: "j < length (L @ [(n, v, N)])" "writer (L @ [(n, v, N)]) j = rep_ID r"
  then have "j < length L" using assms(2) by (auto simp: less_Suc_eq)
  then have "j \<in> known L (Versions r)" using assms(1) j(2) by (simp add: rep_ok_def nth_append)
  then show "j \<in> known (L @ [(n, v, N)]) (Versions r)" using known_append by blast
qed (use assms(1) in \<open>simp_all add: rep_ok_def\<close>)

lemma rep_ok_write:
  assumes rep: "rep_ok L r" and v: "Versions (rep_Write val r) = [v]"
  shows "rep_ok (L @ [(rep_ID r, v, insert (length L) (known L (Versions r)))]) (rep_Write val r)" (is "rep_ok ?L _")
proof -
  have at: "version ?L (length L) = v" "past ?L (length L) = insert (length L) (known L (Versions r))"
    by (simp_all add: nth_append)
  have all: "j \<in> insert (length L) (known L (Versions r))" if "j < length ?L" "writer ?L j = rep_ID r" for j
  proof (cases "j < length L")
    case True
    then have "j \<in> known L (Versions r)" using rep that by (simp add: rep_ok_def nth_append)
    then show ?thesis by simp
  qed (use that in simp)
  have "insert (length L) (known L (Versions r)) \<subseteq> known ?L [v]"
    unfolding known_def[of ?L] using at by fastforce
  then have "\<forall>j < length ?L. writer ?L j = rep_ID r \<longrightarrow> j \<in> known ?L [v]" using all by blast
  moreover have "\<exists>i < length ?L. v = version ?L i" using at by (intro exI[of _ "length L"]) simp
  ultimately show ?thesis unfolding rep_ok_def v by simp
qed

subsection \<open>A reception\<close>

lemma receive_loop_spec:
  "(case receive_loop v kept es of
      None \<Rightarrow> \<exists>e \<in> set es. vc_Compare (Clock e) (Clock v) \<in> {After, Equal}
    | Some ks \<Rightarrow> ks = kept @ filter (\<lambda>e. vc_Compare (Clock e) (Clock v) = Concurrent) es \<and>
        (\<forall>e \<in> set es. vc_Compare (Clock e) (Clock v) \<in> {Before, Concurrent}))"
proof (induction v kept es rule: receive_loop.induct)
  case (2 v kept e es)
  then show ?case by (cases "vc_Compare (Clock e) (Clock v)") (auto split: option.splits)
qed simp

lemma Concurrent_sym: "vc_Compare c d = Concurrent \<longleftrightarrow> vc_Compare d c = Concurrent"
  by (simp add: vc_Compare_le)

lemma Compare_self [simp]: "vc_Compare c c = Equal"
  by (simp add: vc_Compare_le vc_le_def)

lemma Receive_cases:
  obtains (adds_nothing) e where "rep_Receive v r = r" and "e \<in> set (Versions r)" and "vc_le (Clock v) (Clock e)"
  | (adds) "rep_Receive v r = r\<lparr>Versions := filter (\<lambda>e. vc_Compare (Clock e) (Clock v) = Concurrent) (Versions r) @ [v]\<rparr>"
    and "\<And>e. e \<in> set (Versions r) \<Longrightarrow> vc_Compare (Clock e) (Clock v) \<noteq> Concurrent \<Longrightarrow> vc_le (Clock e) (Clock v)"
    and "\<And>e. e \<in> set (Versions r) \<Longrightarrow> e \<noteq> v"
proof (cases "receive_loop v [] (Versions r)")
  case None
  then obtain e where "e \<in> set (Versions r)" "vc_Compare (Clock e) (Clock v) \<in> {After, Equal}"
    using receive_loop_spec[where v = v and kept = "[]" and es = "Versions r"] by auto
  then show thesis using adds_nothing None by (auto simp: rep_Receive_def vc_Compare_le split: if_splits)
next
  case (Some ks)
  then have "ks = filter (\<lambda>e. vc_Compare (Clock e) (Clock v) = Concurrent) (Versions r)"
    and le: "\<And>e. e \<in> set (Versions r) \<Longrightarrow> vc_Compare (Clock e) (Clock v) \<in> {Before, Concurrent}"
    using receive_loop_spec[where v = v and kept = "[]" and es = "Versions r"] by auto
  moreover have "vc_le (Clock e) (Clock v)" if "vc_Compare (Clock e) (Clock v) = Before" for e
    using that by (auto simp: vc_Compare_le split: if_splits)
  moreover have "e \<noteq> v" if "e \<in> set (Versions r)" for e using le[OF that] by auto
  ultimately show thesis using adds Some by (auto simp: rep_Receive_def)
qed

lemma known_le:
  assumes "clocks_ok L" and "i < length L" and "j < length L"
    and "vc_le (Clock (version L i)) (Clock (version L j))"
  shows "past L i \<subseteq> past L j"
  using represents_le[of L _ "past L i" _ "past L j"] assms by (auto simp: clocks_ok_def)

lemma Receive_ID [simp]: "rep_ID (rep_Receive v r) = rep_ID r"
  by (simp add: rep_Receive_def split: option.splits)

text \<open>A replica that receives a version knows its past as well as what it knew.\<close>

lemma known_Receive:
  assumes ok: "clocks_ok L" and rep: "rep_ok L r" and j: "j < length L"
  shows "known L (Versions (rep_Receive (version L j) r)) = known L (Versions r) \<union> past L j"
proof (cases rule: Receive_cases[of "version L j" r])
  case (adds_nothing e)
  obtain i where i: "i < length L" "e = version L i" using rep adds_nothing(2) by (auto simp: rep_ok_def)
  then have "past L j \<subseteq> past L i" using known_le[OF ok j i(1)] adds_nothing(3) by simp
  moreover have "past L i \<subseteq> known L (Versions r)" using i adds_nothing(2) by (auto simp: known_def)
  ultimately show ?thesis using adds_nothing(1) by auto
next
  case adds
  let ?ks = "filter (\<lambda>e. vc_Compare (Clock e) (Clock (version L j)) = Concurrent) (Versions r)"
  have "known L (?ks @ [version L j]) = known L ?ks \<union> past L j"
    using known_single[OF ok j] by (auto simp: known_def)
  moreover have "known L ?ks \<subseteq> known L (Versions r)" by (rule known_mono) auto
  moreover have "known L (Versions r) \<subseteq> known L ?ks \<union> past L j"
  proof
    fix k assume "k \<in> known L (Versions r)"
    then obtain i where i: "i < length L" "version L i \<in> set (Versions r)" "k \<in> past L i" by (auto simp: known_def)
    show "k \<in> known L ?ks \<union> past L j"
    proof (cases "vc_Compare (Clock (version L i)) (Clock (version L j)) = Concurrent")
      case True
      then show ?thesis using i by (auto simp: known_def)
    next
      case False
      then have "past L i \<subseteq> past L j" using known_le[OF ok i(1) j] adds(2)[OF i(2)] by simp
      then show ?thesis using i(3) by auto
    qed
  qed
  ultimately show ?thesis using adds(1) by auto
qed

lemma rep_ok_receive:
  assumes ok: "clocks_ok L" and rep: "rep_ok L r" and j: "j < length L"
  shows "rep_ok L (rep_Receive (version L j) r)"
proof (cases rule: Receive_cases[of "version L j" r])
  case (adds_nothing e)
  then show ?thesis using rep by simp
next
  case adds
  let ?ks = "filter (\<lambda>e. vc_Compare (Clock e) (Clock (version L j)) = Concurrent) (Versions r)"
  have vs: "Versions (rep_Receive (version L j) r) = ?ks @ [version L j]" using adds(1) by simp
  have "version L j \<notin> set ?ks" by simp
  then have "distinct (?ks @ [version L j])" using rep by (auto simp: rep_ok_def)
  moreover have "\<forall>u \<in> set (?ks @ [version L j]). \<forall>v \<in> set (?ks @ [version L j]). u \<noteq> v \<longrightarrow>
      vc_Compare (Clock u) (Clock v) = Concurrent"
    using rep Concurrent_sym by (auto simp: rep_ok_def)
  moreover have "\<forall>v \<in> set (?ks @ [version L j]). \<exists>i < length L. v = version L i"
    using rep j by (auto simp: rep_ok_def)
  moreover have "\<forall>k < length L. writer L k = rep_ID r \<longrightarrow> k \<in> known L (Versions (rep_Receive (version L j) r))"
    using rep unfolding known_Receive[OF ok rep j] rep_ok_def by blast
  ultimately show ?thesis unfolding rep_ok_def vs Receive_ID by blast
qed

subsection \<open>What every run guarantees\<close>

lemma vc_inv_init: "vc_init w \<Longrightarrow> vc_inv w"
  by (auto simp: vc_init_def vc_inv_def vc_ok_def clocks_ok_def log_ok_def rep_ok_def NewReplica_def o_def known_def)

lemma vc_inv_step: "vc_inv s \<Longrightarrow> vc_step s t \<Longrightarrow> vc_inv t"
proof (rotate_tac 1, induction rule: vc_step.induct)
  case (vc_write i reps r val v L)
  let ?L = "L @ [(rep_ID (reps ! i), v, insert (length L) (known L (Versions (reps ! i))))]"
  let ?t = "\<lparr>vw_reps = reps[i := r], vw_log = ?L\<rparr>"
  have "vc_ok ?t" if room: "length ?L < 2 ^ 64"
  proof -
    have ok: "clocks_ok L" and ids: "distinct (map rep_ID reps)" and reps: "\<forall>r \<in> set reps. rep_ok L r"
      using vc_write.prems room by (auto simp: vc_inv_def vc_ok_def)
    have rep: "rep_ok L (reps ! i)" using reps vc_write.hyps(1) by simp
    have v: "Versions (rep_Write val (reps ! i)) = [v]" using vc_write.hyps(2,3) by simp
    have "clocks_ok ?L" by (rule clocks_ok_write[OF ok rep _ v]) (use room in simp)
    moreover have "rep_ok ?L (reps[i := r] ! k)" if k: "k < length reps" for k
    proof (cases "k = i")
      case True
      then show ?thesis using rep_ok_write[OF rep v] vc_write.hyps(1,2) by simp
    next
      case False
      then have "rep_ID (reps ! i) \<noteq> rep_ID (reps ! k)"
        using ids k vc_write.hyps(1) nth_eq_iff_index_eq[OF ids, of i k] by simp
      then show ?thesis using False k reps by (simp add: rep_ok_append)
    qed
    ultimately show ?thesis
      using ids vc_write.hyps(1,2) by (auto simp: vc_ok_def all_set_conv_all_nth)
  qed
  then show ?case unfolding vc_inv_def by simp
next
  case (vc_receive i reps j L)
  have "vc_ok \<lparr>vw_reps = reps[i := rep_Receive (version L j) (reps ! i)], vw_log = L\<rparr>" if "length L < 2 ^ 64"
  proof -
    have ok: "clocks_ok L" and ids: "distinct (map rep_ID reps)" and reps: "\<forall>r \<in> set reps. rep_ok L r"
      using vc_receive.prems that by (auto simp: vc_inv_def vc_ok_def)
    have "rep_ok L (reps[i := rep_Receive (version L j) (reps ! i)] ! k)" if "k < length reps" for k
      using that reps vc_receive.hyps rep_ok_receive[OF ok _ vc_receive.hyps(2)] by (cases "k = i") simp_all
    then show ?thesis using ok ids vc_receive.hyps(1) by (auto simp: vc_ok_def all_set_conv_all_nth)
  qed
  then show ?case unfolding vc_inv_def by simp
qed

interpretation vcnet: step_system vc_init vc_step vc_inv
  by unfold_locales (fact vc_inv_init, fact vc_inv_step)

lemma vc_reach_ok: "vc_reach w \<Longrightarrow> length (vw_log w) < 2 ^ 64 \<Longrightarrow> vc_ok w"
  using vcnet.reachable_inv by (simp add: vc_inv_def)

text \<open>C14: vector clocks detect causality exactly.  In every run of replicas over a network that
  loses, delays, duplicates and reorders versions, comparing the clocks of two writes tells whether one knew of the
  other: \<open>Equal\<close> only for a write and itself, \<open>Before\<close> and \<open>After\<close> when one is in the causal past of the other,
  \<open>Concurrent\<close> when neither is.\<close>

theorem vc_detects_causality:
  assumes "vc_reach w" and "length (vw_log w) < 2 ^ 64" and "i < length (vw_log w)" and "j < length (vw_log w)"
  shows "vc_Compare (Clock (version (vw_log w) i)) (Clock (version (vw_log w) j)) =
    (if i = j then Equal else if i \<in> past (vw_log w) j then Before else if j \<in> past (vw_log w) i then After
     else Concurrent)"
proof -
  let ?L = "vw_log w"
  have ok: "clocks_ok ?L" using vc_reach_ok[OF assms(1,2)] by (simp add: vc_ok_def)
  then have "vc_Compare (Clock (version ?L i)) (Clock (version ?L j)) = causal_order (past ?L i) (past ?L j)"
    using assms(3,4) by (auto simp: clocks_ok_def intro: represents_Compare)
  moreover have sub: "past ?L a \<subseteq> past ?L b \<longleftrightarrow> a \<in> past ?L b" if "a < length ?L" "b < length ?L" for a b
    using ok that by (auto simp: clocks_ok_def log_ok_def closed_set_def)
  moreover have "i = j" if "i \<in> past ?L j" "j \<in> past ?L i"
    using ok that assms(3,4) unfolding clocks_ok_def log_ok_def by (meson atMost_iff le_antisym subsetD)
  moreover have "i \<in> past ?L i" using ok assms(3) by (simp add: clocks_ok_def log_ok_def)
  ultimately show ?thesis
    using sub[of i j] sub[of j i] assms(3,4) unfolding causal_order_def by auto
qed

definition latest :: "event list \<Rightarrow> nat set \<Rightarrow> nat set" where
  "latest L K = {i \<in> K. \<forall>j \<in> K. i \<in> past L j \<longrightarrow> j = i}"

lemma held_latest:
  assumes ok: "clocks_ok L" and rep: "rep_ok L r"
  shows "set (Versions r) = version L ` latest L (known L (Versions r))" (is "_ = _ ` latest L ?K")
proof (intro equalityI subsetI)
  fix v assume v: "v \<in> set (Versions r)"
  then obtain i where i: "i < length L" "v = version L i" using rep by (auto simp: rep_ok_def)
  have "i \<in> past L i" using ok i(1) by (simp add: clocks_ok_def log_ok_def)
  then have "i \<in> ?K" using i v unfolding known_def by blast
  moreover have "j = i" if j: "j \<in> ?K" and "i \<in> past L j" for j
  proof -
    obtain h where h: "h < length L" "version L h \<in> set (Versions r)" "j \<in> past L h"
      using j by (auto simp: known_def)
    have logs: "log_ok L" using ok by (simp add: clocks_ok_def)
    then have jl: "j < length L" and "past L j \<subseteq> past L h" using h(1,3) by (auto simp: log_ok_def closed_set_def)
    then have "i \<in> past L h" using that by auto
    then have "past L i \<subseteq> past L h" using logs h(1) by (auto simp: log_ok_def closed_set_def)
    then have "vc_le (Clock v) (Clock (version L h))"
      using represents_le[OF logs, of _ "past L i" _ "past L h"] ok i h(1) by (simp add: clocks_ok_def)
    then have "vc_Compare (Clock v) (Clock (version L h)) \<noteq> Concurrent" by (simp add: vc_Compare_le)
    then have "v = version L h" using rep v h(2) by (auto simp: rep_ok_def)
    then have "i = h" using version_inj[OF ok i(1) h(1)] i(2) by simp
    then have "j \<in> past L i" using h(3) by simp
    moreover have "past L j \<subseteq> {..j}" "past L i \<subseteq> {..i}"
      using logs i(1) jl by (auto simp: log_ok_def)
    ultimately show "j = i" using that(2) by (meson atMost_iff le_antisym subsetD)
  qed
  ultimately show "v \<in> version L ` latest L ?K" using i(2) by (auto simp: latest_def)
next
  fix v assume "v \<in> version L ` latest L ?K"
  then obtain i where i: "v = version L i" "i \<in> ?K" and top: "\<forall>j \<in> ?K. i \<in> past L j \<longrightarrow> j = i"
    by (auto simp: latest_def)
  then obtain h where h: "h < length L" "version L h \<in> set (Versions r)" "i \<in> past L h" by (auto simp: known_def)
  have "h \<in> past L h" using ok h(1) by (simp add: clocks_ok_def log_ok_def)
  then have "h \<in> ?K" using h unfolding known_def by blast
  then have "h = i" using top h(3) by blast
  then show "v \<in> set (Versions r)" using h(2) i(1) by simp
qed

lemma Values_set:
  assumes "distinct (Versions r)" and "distinct (Versions r')" and "set (Versions r) = set (Versions r')"
  shows "rep_Values r = rep_Values r'"
proof -
  have "mset (Versions r) = mset (Versions r')" using assms by (simp add: set_eq_iff_mset_eq_distinct)
  then show ?thesis unfolding rep_Values_def by (intro properties_for_sort) simp_all
qed


subsection \<open>A run with a conflict\<close>

definition do_write :: "nat \<Rightarrow> string \<Rightarrow> vworld \<Rightarrow> vworld" where
  "do_write i val w = \<lparr>vw_reps = (vw_reps w)[i := rep_Write val (vw_reps w ! i)],
     vw_log = vw_log w @ [(rep_ID (vw_reps w ! i), hd (Versions (rep_Write val (vw_reps w ! i))),
       insert (length (vw_log w)) (known (vw_log w) (Versions (vw_reps w ! i))))]\<rparr>"

definition do_receive :: "nat \<Rightarrow> nat \<Rightarrow> vworld \<Rightarrow> vworld" where
  "do_receive i j w = w\<lparr>vw_reps := (vw_reps w)[i := rep_Receive (version (vw_log w) j) (vw_reps w ! i)]\<rparr>"

lemma reach_do_write: "vc_reach w \<Longrightarrow> i < length (vw_reps w) \<Longrightarrow> vc_reach (do_write i val w)"
  by (rule reach_step, assumption, cases w)
    (auto simp: do_write_def rep_Write_def Let_def intro!: vc_step.vc_write[of i _ _ val])

lemma reach_do_receive:
  "vc_reach w \<Longrightarrow> i < length (vw_reps w) \<Longrightarrow> j < length (vw_log w) \<Longrightarrow> vc_reach (do_receive i j w)"
  by (rule reach_step, assumption, cases w) (auto simp: do_receive_def intro!: vc_step.vc_receive)

definition vc_base :: vworld where
  "vc_base = \<lparr>vw_reps = map NewReplica [''node1'', ''node2''], vw_log = []\<rparr>"

definition vc_conflict :: vworld where
  "vc_conflict = do_write 1 ''personal'' (do_write 0 ''work'' (do_receive 1 0 (do_write 0 ''alice'' vc_base)))"

definition vc_healed :: vworld where
  "vc_healed = do_receive 1 1 (do_receive 0 2 vc_conflict)"

lemma vc_base_reach: "vc_reach vc_base"
  by (rule reach_init) (auto simp: vc_init_def vc_base_def intro!: exI[of _ "[''node1'', ''node2'']"])

lemma vc_sizes: "length (vw_reps (do_write i val w)) = length (vw_reps w)"
  "length (vw_reps (do_receive i j w)) = length (vw_reps w)"
  "length (vw_log (do_write i val w)) = Suc (length (vw_log w))"
  "length (vw_log (do_receive i j w)) = length (vw_log w)" "length (vw_reps vc_base) = 2" "length (vw_log vc_base) = 0"
  by (simp_all add: do_write_def do_receive_def vc_base_def)

lemma vc_conflict_reach: "vc_reach vc_conflict"
  unfolding vc_conflict_def by (intro reach_do_write reach_do_receive vc_base_reach) (simp_all add: vc_sizes)

lemma vc_healed_reach: "vc_reach vc_healed"
  unfolding vc_healed_def by (intro reach_do_receive vc_conflict_reach) (simp_all add: vc_conflict_def vc_sizes)

lemmas vc_run = vc_healed_def vc_conflict_def do_write_def do_receive_def vc_base_def rep_Write_def rep_Receive_def
  NewReplica_def vc_Merge_def vc_Increment_def vc_at_def NewVectorClock_def Let_def nth_append

theorem vc_detects_causality_witness:
  "let L = vw_log vc_conflict in
   vc_Compare (Clock (version L 1)) (Clock (version L 2)) = Concurrent \<and> 1 \<notin> past L 2 \<and> 2 \<notin> past L 1"
proof -
  have run: "vc_Compare (Clock (version (vw_log vc_conflict) 1)) (Clock (version (vw_log vc_conflict) 2)) = Concurrent"
    by (simp add: vc_run vc_Compare_def)
  have len: "length (vw_log vc_conflict) = 3" by (simp add: vc_conflict_def vc_sizes)
  show ?thesis
    using vc_detects_causality[OF vc_conflict_reach, of 1 2] run len by (simp add: Let_def split: if_splits)
qed

lemma vc_healed_values: "rep_Values (vw_reps vc_healed ! 0) = [''personal'', ''work'']" "Siblings (vw_reps vc_healed ! 0)"
  by (simp_all add: vc_run vc_Compare_def rep_Values_def Siblings_def)


end
