(* ===== verification/Merkle.thy ===== *)
theory Merkle
  imports Sha256 "HOL-Library.AList"
begin

text \<open>
  The Merkle tree of the anti-entropy protocol (\<^verbatim>\<open>code/merkle_tree/merkle.go\<close>): building it from a map, the hash
  of its root, the differing keys of two trees and the number of comparisons this takes.  A node with two nil
  children is a leaf; the trees have no node with one child, and a nil pointer is \<open>None\<close>.  The hash is the
  concrete SHA-256; that two trees have no collision among the bytes they hash is a hypothesis where it matters.
\<close>

datatype merkle_node = MLeaf "byte list" string | MNode "byte list" merkle_node merkle_node

fun m_Hash :: "merkle_node \<Rightarrow> byte list" where
  "m_Hash (MLeaf h k) = h"
| "m_Hash (MNode h l r) = h"

fun m_Left :: "merkle_node \<Rightarrow> merkle_node option" where
  "m_Left (MLeaf h k) = None"
| "m_Left (MNode h l r) = Some l"

fun m_Right :: "merkle_node \<Rightarrow> merkle_node option" where
  "m_Right (MLeaf h k) = None"
| "m_Right (MNode h l r) = Some r"

fun m_Key :: "merkle_node \<Rightarrow> string" where
  "m_Key (MLeaf h k) = k"
| "m_Key (MNode h l r) = ''''"

lemma m_child_size: "m_Left a = Some c \<Longrightarrow> size c < size a" "m_Right a = Some c \<Longrightarrow> size c < size a"
  by (cases a; auto)+

definition IsLeaf :: "merkle_node \<Rightarrow> bool" where
  "IsLeaf n \<longleftrightarrow> m_Left n = None \<and> m_Right n = None"

record MerkleTree =
  Root :: "merkle_node option"
  m_leaves :: "merkle_node list"

definition hashLeaf :: "string \<Rightarrow> string \<Rightarrow> byte list" where
  "hashLeaf key val = sha256_Sum256 ([0x00] @ bytes_of key @ [0x1f] @ bytes_of val)"

definition hashInternal :: "byte list \<Rightarrow> byte list \<Rightarrow> byte list" where
  "hashInternal left right = sha256_Sum256 ([0x01] @ left @ right)"

text \<open>One level of \<open>Build\<close>, and the loop over the levels.\<close>

fun build_level :: "merkle_node list \<Rightarrow> merkle_node list" where
  "build_level (a # b # level) = MNode (hashInternal (m_Hash a) (m_Hash b)) a b # build_level level"
| "build_level level = level"

lemma length_build_level: "length (build_level level) = (length level + 1) div 2"
  by (induction level rule: build_level.induct) auto

function build_loop :: "merkle_node list \<Rightarrow> merkle_node list" where
  "build_loop level = (if length level > 1 then build_loop (build_level level) else level)"
  by auto
termination by (relation "measure length") (auto simp: length_build_level)

declare build_loop.simps [simp del]

definition Build :: "(string \<times> string) list \<Rightarrow> MerkleTree" where
  "Build data =
     (if data = [] then \<lparr>Root = None, m_leaves = []\<rparr>
      else
        let keys = sort (map fst data);
            leaves = map (\<lambda>k. MLeaf (hashLeaf k (case map_of data k of Some v \<Rightarrow> v | None \<Rightarrow> '''')) k) keys
        in \<lparr>Root = nth_opt (build_loop leaves) 0, m_leaves = leaves\<rparr>)"

definition RootHash :: "MerkleTree \<Rightarrow> string" where
  "RootHash t = (case Root t of None \<Rightarrow> '''' | Some n \<Rightarrow> hex_EncodeToString (m_Hash n))"

definition m_Leaves :: "MerkleTree \<Rightarrow> nat" where
  "m_Leaves t = length (m_leaves t)"

fun m_collect :: "merkle_node option \<Rightarrow> string list" where
  "m_collect None = []"
| "m_collect (Some (MLeaf h k)) = [k]"
| "m_collect (Some (MNode h l r)) = m_collect (Some l) @ m_collect (Some r)"

definition keysOf :: "merkle_node list \<Rightarrow> string list" where
  "keysOf leaves = sort (map m_Key leaves)"

definition equalHash :: "byte list \<Rightarrow> byte list \<Rightarrow> bool" where
  "equalHash a b \<longleftrightarrow> length a = length b \<and> list_all (\<lambda>i. a ! i = b ! i) [0..<length a]"

text \<open>The function \<open>walk\<close> of \<open>Diff\<close>: the keys it adds to \<open>seen\<close>.\<close>

function diff_walk :: "merkle_node option \<Rightarrow> merkle_node option \<Rightarrow> string list" where
  "diff_walk x y =
     (case x of
        None \<Rightarrow> (case y of None \<Rightarrow> [] | Some b \<Rightarrow> m_collect (Some b))
      | Some a \<Rightarrow>
          (case y of
             None \<Rightarrow> m_collect (Some a)
           | Some b \<Rightarrow>
               if equalHash (m_Hash a) (m_Hash b) then []
               else if IsLeaf a \<or> IsLeaf b then m_collect (Some a) @ m_collect (Some b)
               else diff_walk (m_Left a) (m_Left b) @ diff_walk (m_Right a) (m_Right b)))"
  by pat_completeness auto
termination
proof (relation "measure (\<lambda>(x, y). case x of None \<Rightarrow> 0 | Some a \<Rightarrow> size a)", goal_cases)
  case (2 x y a b)
  then show ?case by (cases a) (auto simp: IsLeaf_def)
next
  case (3 x y a b)
  then show ?case by (cases a) (auto simp: IsLeaf_def)
qed simp

declare diff_walk.simps [simp del]

definition merkle_Diff :: "MerkleTree \<Rightarrow> MerkleTree \<Rightarrow> string list" where
  "merkle_Diff a b =
     (case Root a of
        None \<Rightarrow> (case Root b of None \<Rightarrow> [] | Some y \<Rightarrow> keysOf (m_leaves b))
      | Some x \<Rightarrow>
          (case Root b of
             None \<Rightarrow> keysOf (m_leaves a)
           | Some y \<Rightarrow> sort (remdups (diff_walk (Some x) (Some y)))))"

text \<open>The function \<open>walk\<close> of \<open>CompareCost\<close>.\<close>

function cost_walk :: "merkle_node option \<Rightarrow> merkle_node option \<Rightarrow> nat" where
  "cost_walk x y =
     1 + (case (x, y) of
        (Some a, Some b) \<Rightarrow>
          if equalHash (m_Hash a) (m_Hash b) \<or> IsLeaf a \<or> IsLeaf b then 0
          else cost_walk (m_Left a) (m_Left b) + cost_walk (m_Right a) (m_Right b)
      | _ \<Rightarrow> 0)"
  by pat_completeness auto
termination
proof (relation "measure (\<lambda>(x, y). case x of None \<Rightarrow> 0 | Some a \<Rightarrow> size a)", goal_cases)
  case (2 x y)
  then show ?case by (auto simp: IsLeaf_def dest: m_child_size split: option.splits)
next
  case (3 x y)
  then show ?case by (auto simp: IsLeaf_def dest: m_child_size split: option.splits)
qed simp

declare cost_walk.simps [simp del]

definition CompareCost :: "MerkleTree \<Rightarrow> MerkleTree \<Rightarrow> nat" where
  "CompareCost a b = (if Root a \<noteq> None \<or> Root b \<noteq> None then cost_walk (Root a) (Root b) else 0)"

lemma equalHash_eq [simp]: "equalHash a b \<longleftrightarrow> a = b"
  by (auto simp: equalHash_def list_all_iff intro: nth_equalityI)

lemma IsLeaf_simps [simp]: "IsLeaf (MLeaf h k)" "\<not> IsLeaf (MNode h l r)"
  by (simp_all add: IsLeaf_def)

subsection \<open>The data under a tree\<close>

text \<open>The trees of \<open>Build\<close> are the hashed images of trees over the sorted pairs; \<open>preimages\<close> are the byte strings
  hashed on the way.\<close>

datatype kv_tree = KLeaf string string | KNode kv_tree kv_tree

fun hashed :: "kv_tree \<Rightarrow> merkle_node" where
  "hashed (KLeaf k v) = MLeaf (hashLeaf k v) k"
| "hashed (KNode l r) = MNode (hashInternal (m_Hash (hashed l)) (m_Hash (hashed r))) (hashed l) (hashed r)"

fun pairs :: "kv_tree \<Rightarrow> (string \<times> string) list" where
  "pairs (KLeaf k v) = [(k, v)]"
| "pairs (KNode l r) = pairs l @ pairs r"

fun preimages :: "kv_tree \<Rightarrow> byte list set" where
  "preimages (KLeaf k v) = {[0x00] @ bytes_of k @ [0x1f] @ bytes_of v}"
| "preimages (KNode l r) =
     insert ([0x01] @ m_Hash (hashed l) @ m_Hash (hashed r)) (preimages l \<union> preimages r)"

fun kv_height :: "kv_tree \<Rightarrow> nat" where
  "kv_height (KLeaf k v) = 0"
| "kv_height (KNode l r) = Suc (max (kv_height l) (kv_height r))"

fun kv_level :: "kv_tree list \<Rightarrow> kv_tree list" where
  "kv_level (a # b # ts) = KNode a b # kv_level ts"
| "kv_level ts = ts"

lemma length_kv_level: "length (kv_level ts) = (length ts + 1) div 2"
  by (induction ts rule: kv_level.induct) auto

function kv_loop :: "kv_tree list \<Rightarrow> kv_tree list" where
  "kv_loop ts = (if length ts > 1 then kv_loop (kv_level ts) else ts)"
  by auto
termination by (relation "measure length") (auto simp: length_kv_level)

declare kv_loop.simps [simp del]

lemma build_level_hashed: "build_level (map hashed ts) = map hashed (kv_level ts)"
  by (induction ts rule: kv_level.induct) auto

lemma build_loop_hashed: "build_loop (map hashed ts) = map hashed (kv_loop ts)"
proof (induction ts rule: kv_loop.induct)
  case (1 ts)
  show ?case using 1 by (simp add: build_loop.simps[of "map hashed ts"] kv_loop.simps[of ts] build_level_hashed)
qed

lemma pairs_level: "concat (map pairs (kv_level ts)) = concat (map pairs ts)"
  by (induction ts rule: kv_level.induct) auto

lemma kv_loop_single: "ts \<noteq> [] \<Longrightarrow> \<exists>t. kv_loop ts = [t] \<and> pairs t = concat (map pairs ts)"
proof (induction ts rule: kv_loop.induct)
  case (1 ts)
  show ?case
  proof (cases "length ts > 1")
    case True
    moreover from True have "kv_level ts \<noteq> []" by (cases ts rule: kv_level.cases) auto
    ultimately show ?thesis using 1 by (simp add: kv_loop.simps[of ts] pairs_level)
  next
    case False
    with 1 obtain t where "ts = [t]" by (cases ts) auto
    then show ?thesis by (simp add: kv_loop.simps)
  qed
qed

text \<open>A level at most doubles what a tree of the next level covers, so the height is at most the
  logarithm of the number of leaves.\<close>

lemma kv_level_height: "\<forall>t \<in> set ts. kv_height t \<le> h \<Longrightarrow> \<forall>t \<in> set (kv_level ts). kv_height t \<le> Suc h"
  by (induction ts rule: kv_level.induct) auto

lemma kv_loop_height:
  assumes "\<forall>t \<in> set ts. kv_height t \<le> h" and "length ts \<le> 2 ^ n"
  shows "\<forall>t \<in> set (kv_loop ts). kv_height t \<le> h + n"
  using assms
proof (induction ts arbitrary: h n rule: kv_loop.induct)
  case (1 ts)
  show ?case
  proof (cases "length ts > 1")
    case True
    then obtain m where n: "n = Suc m" using "1.prems"(2) by (cases n) auto
    have "length (kv_level ts) \<le> 2 ^ m" using "1.prems"(2) by (simp add: length_kv_level n)
    with 1(1)[OF True kv_level_height[OF "1.prems"(1)]] show ?thesis
      using True by (simp add: kv_loop.simps[of ts] n)
  next
    case False
    then show ?thesis using "1.prems"(1) by (auto simp: kv_loop.simps[of ts])
  qed
qed

definition sorted_data :: "(string \<times> string) list \<Rightarrow> (string \<times> string) list" where
  "sorted_data data = map (\<lambda>k. (k, case map_of data k of Some v \<Rightarrow> v | None \<Rightarrow> '''')) (sort (map fst data))"

lemma sorted_data_empty [simp]: "sorted_data data = [] \<longleftrightarrow> data = []"
proof -
  have "length (sorted_data data) = length data" by (simp add: sorted_data_def)
  then show ?thesis by (metis length_0_conv)
qed

definition kv_tree_of :: "(string \<times> string) list \<Rightarrow> kv_tree" where
  "kv_tree_of data = hd (kv_loop (map (\<lambda>(k, v). KLeaf k v) (sorted_data data)))"

lemma kv_tree_pairs: "data \<noteq> [] \<Longrightarrow> pairs (kv_tree_of data) = sorted_data data"
proof -
  assume "data \<noteq> []"
  then have "map (\<lambda>(k, v). KLeaf k v) (sorted_data data) \<noteq> []" by simp
  from kv_loop_single[OF this] show ?thesis by (auto simp: kv_tree_of_def o_def case_prod_beta' map_concat)
qed

lemma Root_Build: "data \<noteq> [] \<Longrightarrow> Root (Build data) = Some (hashed (kv_tree_of data))"
proof -
  assume "data \<noteq> []"
  then have ne: "map (\<lambda>(k, v). KLeaf k v) (sorted_data data) \<noteq> []" by simp
  have leaves: "map (\<lambda>k. MLeaf (hashLeaf k (case map_of data k of Some v \<Rightarrow> v | None \<Rightarrow> '''')) k) (sort (map fst data)) =
      map hashed (map (\<lambda>(k, v). KLeaf k v) (sorted_data data))"
    by (simp add: sorted_data_def)
  from kv_loop_single[OF ne] obtain t where t: "kv_loop (map (\<lambda>(k, v). KLeaf k v) (sorted_data data)) = [t]" by blast
  have "build_loop (map (\<lambda>k. MLeaf (hashLeaf k (case map_of data k of Some v \<Rightarrow> v | None \<Rightarrow> '''')) k) (sort (map fst data))) =
      [hashed t]"
    unfolding leaves build_loop_hashed t by simp
  then show ?thesis using \<open>data \<noteq> []\<close> by (simp add: Build_def Let_def nth_opt_def kv_tree_of_def t)
qed

lemma set_sorted_data: "distinct (map fst data) \<Longrightarrow> set (sorted_data data) = set data"
  by (force simp: sorted_data_def image_iff)

lemma kv_tree_height:
  "data \<noteq> [] \<Longrightarrow> length data \<le> 2 ^ n \<Longrightarrow> kv_height (kv_tree_of data) \<le> n"
proof -
  assume "data \<noteq> []" and len: "length data \<le> 2 ^ n"
  then have "map (\<lambda>(k, v). KLeaf k v) (sorted_data data) \<noteq> []" by simp
  then obtain t where t: "kv_loop (map (\<lambda>(k, v). KLeaf k v) (sorted_data data)) = [t]"
    using kv_loop_single by blast
  have "\<forall>t \<in> set (kv_loop (map (\<lambda>(k, v). KLeaf k v) (sorted_data data))). kv_height t \<le> 0 + n"
    by (rule kv_loop_height) (use len in \<open>auto simp: sorted_data_def\<close>)
  then show ?thesis by (simp add: t kv_tree_of_def)
qed

subsection \<open>Equal hashes mean equal data\<close>

lemma length_sha_block: "length st = 8 \<Longrightarrow> length (sha_block bs st) = 8"
proof -
  have round: "length (sha_round kw st) = 8" if "length st = 8" for kw st
    by (simp add: sha_round_def Let_def)
  have "length (fold sha_round kws st) = 8" if "length st = 8" for kws
    using that by (induction kws arbitrary: st) (simp_all add: round)
  then show "length st = 8 \<Longrightarrow> length (sha_block bs st) = 8" by (simp add: sha_block_def Let_def)
qed

lemma length_sha_blocks: "length st = 8 \<Longrightarrow> length (sha_blocks n bs st) = 8"
  by (induction n arbitrary: bs st) (simp_all add: length_sha_block)

lemma length_sha256 [simp]: "length (sha256_Sum256 m) = 32"
proof -
  have "length (sha_blocks n bs sha_H0) = 8" for n bs by (rule length_sha_blocks) (simp add: sha_H0_def)
  moreover have "length (concat (map (big_bytes 4) ws)) = 4 * length ws" for ws :: "u32 list"
    by (induction ws) (simp_all add: big_bytes_def)
  ultimately show ?thesis by (simp add: sha256_Sum256_def Let_def)
qed

lemma length_Hash [simp]: "length (m_Hash (hashed t)) = 32"
  by (cases t) (simp_all add: hashLeaf_def hashInternal_def)

definition plain_key :: "string \<Rightarrow> bool" where
  "plain_key k \<longleftrightarrow> 0x1f \<notin> set (bytes_of k)"

lemma split_at_separator:
  "xs @ s # ys = us @ s # vs \<Longrightarrow> s \<notin> set xs \<Longrightarrow> s \<notin> set us \<Longrightarrow> xs = us \<and> ys = vs"
proof (induction xs arbitrary: us)
  case Nil
  then show ?case by (cases us) auto
next
  case (Cons x xs)
  then show ?case by (cases us) auto
qed

lemma hash_determines_tree:
  assumes "inj_on sha256_Sum256 (preimages x \<union> preimages y)"
    and "\<forall>k \<in> fst ` set (pairs x) \<union> fst ` set (pairs y). plain_key k"
    and "m_Hash (hashed x) = m_Hash (hashed y)"
  shows "x = y"
  using assms
proof (induction x arbitrary: y)
  case (KLeaf k v)
  show ?case
  proof (cases y)
    case y: (KLeaf k' v')
    have "[0x00] @ bytes_of k @ [0x1f] @ bytes_of v = [0x00] @ bytes_of k' @ [0x1f] @ bytes_of v'"
      by (rule inj_onD[OF KLeaf.prems(1)]) (use KLeaf.prems(3) in \<open>simp_all add: y hashLeaf_def\<close>)
    then have "bytes_of k @ 0x1f # bytes_of v = bytes_of k' @ 0x1f # bytes_of v'" by simp
    then have "bytes_of k = bytes_of k' \<and> bytes_of v = bytes_of v'"
      by (rule split_at_separator) (use KLeaf.prems(2) in \<open>simp_all add: y plain_key_def\<close>)
    then show ?thesis by (simp add: y)
  next
    case y: (KNode l r)
    have "[0x00] @ bytes_of k @ [0x1f] @ bytes_of v = [0x01] @ m_Hash (hashed l) @ m_Hash (hashed r)"
      by (rule inj_onD[OF KLeaf.prems(1)]) (use KLeaf.prems(3) in \<open>simp_all add: y hashLeaf_def hashInternal_def\<close>)
    then show ?thesis by simp
  qed
next
  case (KNode l r)
  show ?case
  proof (cases y)
    case y: (KLeaf k v)
    have "[0x01] @ m_Hash (hashed l) @ m_Hash (hashed r) = [0x00] @ bytes_of k @ [0x1f] @ bytes_of v"
      by (rule inj_onD[OF KNode.prems(1)]) (use KNode.prems(3) in \<open>simp_all add: y hashLeaf_def hashInternal_def\<close>)
    then show ?thesis by simp
  next
    case y: (KNode l' r')
    have "[0x01] @ m_Hash (hashed l) @ m_Hash (hashed r) = [0x01] @ m_Hash (hashed l') @ m_Hash (hashed r')"
      by (rule inj_onD[OF KNode.prems(1)]) (use KNode.prems(3) in \<open>simp_all add: y hashInternal_def\<close>)
    then have eq: "m_Hash (hashed l) = m_Hash (hashed l')" "m_Hash (hashed r) = m_Hash (hashed r')"
      by simp_all
    have "l = l'"
      by (rule KNode.IH(1)[OF _ _ eq(1)]) (use KNode.prems(1,2) y in \<open>auto elim: inj_on_subset\<close>)
    moreover have "r = r'"
      by (rule KNode.IH(2)[OF _ _ eq(2)]) (use KNode.prems(1,2) y in \<open>auto elim: inj_on_subset\<close>)
    ultimately show ?thesis by (simp add: y)
  qed
qed

subsection \<open>What \<open>Diff\<close> finds\<close>

lemma diff_walk_simps:
  "diff_walk (Some a) (Some b) =
     (if m_Hash a = m_Hash b then []
      else if IsLeaf a \<or> IsLeaf b then m_collect (Some a) @ m_collect (Some b)
      else diff_walk (m_Left a) (m_Left b) @ diff_walk (m_Right a) (m_Right b))"
  by (simp add: diff_walk.simps)

lemma IsLeaf_hashed: "IsLeaf (hashed t) \<longleftrightarrow> (\<exists>k v. t = KLeaf k v)"
  by (cases t) auto

lemma collect_hashed: "m_collect (Some (hashed t)) = map fst (pairs t)"
  by (induction t) auto

lemma diff_walk_keys:
  "set (diff_walk (Some (hashed x)) (Some (hashed y))) \<subseteq> fst ` set (pairs x) \<union> fst ` set (pairs y)"
proof (induction x arbitrary: y)
  case (KNode l r)
  show ?case
  proof (cases y)
    case (KNode l' r')
    then show ?thesis using KNode.IH(1)[of l'] KNode.IH(2)[of r'] by (auto simp: diff_walk_simps image_Un)
  qed (auto simp: diff_walk_simps collect_hashed)
qed (auto simp: diff_walk_simps collect_hashed)

lemma diff_walk_finds:
  assumes "inj_on sha256_Sum256 (preimages x \<union> preimages y)"
    and "\<forall>k \<in> fst ` set (pairs x) \<union> fst ` set (pairs y). plain_key k"
    and "p \<in> (set (pairs x) - set (pairs y)) \<union> (set (pairs y) - set (pairs x))"
  shows "fst p \<in> set (diff_walk (Some (hashed x)) (Some (hashed y)))"
  using assms
proof (induction x arbitrary: y)
  case (KLeaf k v)
  then have "m_Hash (hashed (KLeaf k v)) \<noteq> m_Hash (hashed y)" using hash_determines_tree[of "KLeaf k v" y] by blast
  then show ?case using KLeaf.prems(3) collect_hashed[of "KLeaf k v"] collect_hashed[of y]
    by (auto simp: diff_walk_simps)
next
  case (KNode l r)
  have ne: "m_Hash (hashed (KNode l r)) \<noteq> m_Hash (hashed y)"
    using hash_determines_tree[of "KNode l r" y] KNode.prems by blast
  show ?case
  proof (cases y)
    case (KLeaf k v)
    then show ?thesis using ne KNode.prems(3) collect_hashed[of "KNode l r"] collect_hashed[of y]
      by (auto simp: diff_walk_simps)
  next
    case y: (KNode l' r')
    have walk: "diff_walk (Some (hashed (KNode l r))) (Some (hashed y)) =
        diff_walk (Some (hashed l)) (Some (hashed l')) @ diff_walk (Some (hashed r)) (Some (hashed r'))"
      using ne by (simp add: y diff_walk_simps)
    from KNode.prems(3) y consider
      "p \<in> (set (pairs l) - set (pairs l')) \<union> (set (pairs l') - set (pairs l))"
      | "p \<in> (set (pairs r) - set (pairs r')) \<union> (set (pairs r') - set (pairs r))" by auto
    then show ?thesis
    proof cases
      case 1
      have "fst p \<in> set (diff_walk (Some (hashed l)) (Some (hashed l')))"
        by (rule KNode.IH(1)[OF _ _ 1]) (use KNode.prems(1,2) y in \<open>auto elim: inj_on_subset\<close>)
      then show ?thesis unfolding walk by simp
    next
      case 2
      have "fst p \<in> set (diff_walk (Some (hashed r)) (Some (hashed r')))"
        by (rule KNode.IH(2)[OF _ _ 2]) (use KNode.prems(1,2) y in \<open>auto elim: inj_on_subset\<close>)
      then show ?thesis unfolding walk by simp
    qed
  qed
qed

text \<open>The byte strings that building the tree of a map hashes.\<close>

definition hashed_bytes :: "(string \<times> string) list \<Rightarrow> byte list set" where
  "hashed_bytes data = (if data = [] then {} else preimages (kv_tree_of data))"

lemma keysOf_Build: "data \<noteq> [] \<Longrightarrow> set (keysOf (m_leaves (Build data))) = fst ` set data"
  by (auto simp: keysOf_def Build_def Let_def image_iff)

lemma map_of_differs:
  assumes "distinct (map fst a)" and "distinct (map fst b)" and "map_of a k \<noteq> map_of b k"
  obtains p where "p \<in> (set a - set b) \<union> (set b - set a)" and "fst p = k"
proof (cases "map_of a k")
  case None
  then obtain v where v: "map_of b k = Some v" using assms(3) by (cases "map_of b k") auto
  then have "(k, v) \<in> set b" "(k, v) \<notin> set a" using None assms(1,2) by (auto dest: map_of_SomeD)
  then show thesis using that[of "(k, v)"] by simp
next
  case (Some u)
  then have "(k, u) \<in> set a" "(k, u) \<notin> set b" using assms by (auto dest: map_of_SomeD)
  then show thesis using that[of "(k, u)"] by simp
qed

lemma hex_digit_inj: "m < 16 \<Longrightarrow> n < 16 \<Longrightarrow> hex_digit m = hex_digit n \<Longrightarrow> m = n"
proof -
  assume mn: "m < 16" "n < 16" and "hex_digit m = hex_digit n"
  then have "(if m < 10 then 48 + m else 87 + m) mod 256 = (if n < 10 then 48 + n else 87 + n) mod 256"
    unfolding hex_digit_def by (metis of_char_of)
  then show "m = n" using mn by (simp split: if_splits)
qed

lemma hex_inj: "hex_EncodeToString a = hex_EncodeToString b \<Longrightarrow> a = b"
proof (induction a arbitrary: b)
  case Nil
  then show ?case by (cases b) (auto simp: hex_EncodeToString_def)
next
  case (Cons x a)
  then obtain y b' where b: "b = y # b'" by (cases b) (auto simp: hex_EncodeToString_def)
  have lt: "unat x < 256" "unat y < 256" using unsigned_less[where 'a = nat, of x] unsigned_less[where 'a = nat, of y] by simp_all
  have eq: "hex_digit (unat x div 16) = hex_digit (unat y div 16)" "hex_digit (unat x mod 16) = hex_digit (unat y mod 16)"
    and rest: "hex_EncodeToString a = hex_EncodeToString b'"
    using Cons.prems by (simp_all add: hex_EncodeToString_def b)
  have "unat x div 16 = unat y div 16" "unat x mod 16 = unat y mod 16"
    using hex_digit_inj[OF _ _ eq(1)] hex_digit_inj[OF _ _ eq(2)] lt by simp_all
  then have "unat x = unat y" by (metis div_mult_mod_eq)
  then show ?case using Cons.IH[OF rest] b by (simp add: word_unat_eq_iff)
qed

lemma same_map_same_tree:
  assumes "distinct (map fst a)" and "distinct (map fst b)" and "map_of a = map_of b"
  shows "Root (Build a) = Root (Build b)" and "a = [] \<longleftrightarrow> b = []"
proof -
  have keys: "set (map fst a) = set (map fst b)" using assms(3) by (simp add: dom_map_of_conv_image_fst[symmetric])
  then show ne: "a = [] \<longleftrightarrow> b = []" by (metis list.map_disc_iff set_empty)
  have "mset (map fst a) = mset (map fst b)" using set_eq_iff_mset_eq_distinct[OF assms(1,2)] keys by blast
  then have "sort (map fst a) = sort (map fst b)" by (intro properties_for_sort) simp_all
  then show "Root (Build a) = Root (Build b)" unfolding Build_def Let_def assms(3) using ne by simp
qed

lemma equal_hash_same_map:
  assumes "a \<noteq> []" and "b \<noteq> []" and "distinct (map fst a)" and "distinct (map fst b)"
    and "\<forall>k \<in> fst ` set a \<union> fst ` set b. plain_key k"
    and "inj_on sha256_Sum256 (hashed_bytes a \<union> hashed_bytes b)"
    and "m_Hash (hashed (kv_tree_of a)) = m_Hash (hashed (kv_tree_of b))"
  shows "map_of a = map_of b"
proof -
  have "kv_tree_of a = kv_tree_of b"
    by (rule hash_determines_tree[OF _ _ assms(7)])
      (use assms in \<open>simp_all add: hashed_bytes_def kv_tree_pairs set_sorted_data\<close>)
  then have "set a = set b" using assms(1-4) by (metis kv_tree_pairs set_sorted_data)
  then show ?thesis using map_of_inject_set[OF assms(3,4)] by blast
qed

text \<open>C19: Diff finds every difference.  If no two of the byte strings hashed for the two trees collide
  and no key contains the separator byte, every key with different values and every key of only one map is returned, and
  nothing else than keys of the maps; the result is empty, and the root hashes are equal, exactly when the maps are
  equal.\<close>

theorem merkle_Diff_complete:
  assumes "distinct (map fst a)" and "distinct (map fst b)"
    and "\<forall>k \<in> fst ` set a \<union> fst ` set b. plain_key k"
    and "inj_on sha256_Sum256 (hashed_bytes a \<union> hashed_bytes b)"
  shows "{k. map_of a k \<noteq> map_of b k} \<subseteq> set (merkle_Diff (Build a) (Build b)) \<and>
    set (merkle_Diff (Build a) (Build b)) \<subseteq> fst ` set a \<union> fst ` set b \<and>
    (merkle_Diff (Build a) (Build b) = [] \<longleftrightarrow> map_of a = map_of b) \<and>
    (RootHash (Build a) = RootHash (Build b) \<longleftrightarrow> map_of a = map_of b)"
proof -
  let ?D = "merkle_Diff (Build a) (Build b)"
  have none: "Root (Build []) = None" by (simp add: Build_def)
  have finds: "{k. map_of a k \<noteq> map_of b k} \<subseteq> set ?D \<and> set ?D \<subseteq> fst ` set a \<union> fst ` set b"
  proof (cases "a = [] \<or> b = []")
    case True
    then show ?thesis
      by (cases "a = []"; cases "b = []")
        (auto simp: merkle_Diff_def none Root_Build keysOf_Build dom_map_of_conv_image_fst[symmetric] not_None_eq[symmetric] simp del: not_None_eq split: option.splits)
  next
    case False
    then have D: "set ?D = set (diff_walk (Some (hashed (kv_tree_of a))) (Some (hashed (kv_tree_of b))))"
      by (simp add: merkle_Diff_def Root_Build)
    have p: "set (pairs (kv_tree_of a)) = set a" "set (pairs (kv_tree_of b)) = set b"
      using False assms(1,2) by (simp_all add: kv_tree_pairs set_sorted_data)
    have inj: "inj_on sha256_Sum256 (preimages (kv_tree_of a) \<union> preimages (kv_tree_of b))"
      using assms(4) False by (simp add: hashed_bytes_def)
    have "{k. map_of a k \<noteq> map_of b k} \<subseteq> set ?D"
      using diff_walk_finds[OF inj] assms(3) unfolding D p
      by (auto elim!: map_of_differs[OF assms(1,2)])
    then show ?thesis using diff_walk_keys[of "kv_tree_of a" "kv_tree_of b"] unfolding D p by blast
  qed
  have "?D = []" if "map_of a = map_of b"
    using same_map_same_tree[OF assms(1,2) that]
    by (auto simp: merkle_Diff_def diff_walk_simps none split: option.splits)
  moreover have "map_of a = map_of b" if "?D = []" using finds that by auto
  moreover have "RootHash (Build a) = RootHash (Build b)" if "map_of a = map_of b"
    using same_map_same_tree(1)[OF assms(1,2) that] by (simp add: RootHash_def)
  moreover have "map_of a = map_of b" if root: "RootHash (Build a) = RootHash (Build b)"
  proof -
    have long: "hex_EncodeToString (m_Hash (hashed t)) \<noteq> ''''" for t
      using hex_inj[of "m_Hash (hashed t)" "[]"] length_Hash[of t] by (auto simp: hex_EncodeToString_def simp del: length_Hash)
    show ?thesis
    proof (cases "a = [] \<or> b = []")
      case True
      then show ?thesis using root long long[symmetric]
        by (cases "a = []"; cases "b = []") (simp_all add: RootHash_def none Root_Build)
    next
      case False
      then have "m_Hash (hashed (kv_tree_of a)) = m_Hash (hashed (kv_tree_of b))"
        using root by (simp add: RootHash_def Root_Build hex_inj)
      then show ?thesis using equal_hash_same_map[OF _ _ assms] False by simp
    qed
  qed
  ultimately show ?thesis using finds by blast
qed

subsection \<open>What \<open>Diff\<close> costs\<close>

fun same_shape :: "kv_tree \<Rightarrow> kv_tree \<Rightarrow> bool" where
  "same_shape (KLeaf k v) (KLeaf k' v') \<longleftrightarrow> k = k'"
| "same_shape (KNode l r) (KNode l' r') \<longleftrightarrow> same_shape l l' \<and> same_shape r r'"
| "same_shape _ _ \<longleftrightarrow> False"

lemma same_shape_level: "list_all2 same_shape ts us \<Longrightarrow> list_all2 same_shape (kv_level ts) (kv_level us)"
proof (induction ts arbitrary: us rule: kv_level.induct)
  case (1 a b ts)
  then obtain c d us' where "us = c # d # us'" by (auto simp: list_all2_Cons1)
  with 1 show ?case by simp
qed (auto simp: list_all2_Cons1)

lemma same_shape_loop: "list_all2 same_shape ts us \<Longrightarrow> list_all2 same_shape (kv_loop ts) (kv_loop us)"
proof (induction ts arbitrary: us rule: kv_loop.induct)
  case (1 ts)
  have len: "length ts = length us" using "1.prems" by (rule list_all2_lengthD)
  show ?case
  proof (cases "length ts > 1")
    case True
    then show ?thesis
      using 1(1)[OF True same_shape_level[OF "1.prems"]] len by (simp add: kv_loop.simps[of ts] kv_loop.simps[of us])
  next
    case False
    then show ?thesis using "1.prems" len by (simp add: kv_loop.simps[of ts] kv_loop.simps[of us])
  qed
qed

definition differing :: "(string \<times> string) list \<Rightarrow> (string \<times> string) list \<Rightarrow> nat" where
  "differing ps qs = length (filter (\<lambda>(p, q). p \<noteq> q) (zip ps qs))"

lemma differing_append:
  "length ps = length qs \<Longrightarrow> differing (ps @ ps') (qs @ qs') = differing ps qs + differing ps' qs'"
  by (simp add: differing_def)

lemma same_shape_length: "same_shape x y \<Longrightarrow> length (pairs x) = length (pairs y)"
  by (induction x y rule: same_shape.induct) auto

lemma differing_0: "same_shape x y \<Longrightarrow> differing (pairs x) (pairs y) = 0 \<Longrightarrow> x = y"
proof (induction x y rule: same_shape.induct)
  case (2 l r l' r')
  then show ?case by (simp add: differing_append same_shape_length)
qed (auto simp: differing_def split: if_splits)

lemma cost_walk_simps:
  "cost_walk (Some a) (Some b) =
     (if m_Hash a = m_Hash b \<or> IsLeaf a \<or> IsLeaf b then 1
      else 1 + cost_walk (m_Left a) (m_Left b) + cost_walk (m_Right a) (m_Right b))"
  by (simp add: cost_walk.simps)

lemma cost_walk_bound:
  "same_shape x y \<Longrightarrow> kv_height x \<le> h \<Longrightarrow>
   cost_walk (Some (hashed x)) (Some (hashed y)) \<le> 1 + 2 * differing (pairs x) (pairs y) * h"
proof (induction x y arbitrary: h rule: same_shape.induct)
  case (1 k v k' v')
  then show ?case by (simp add: cost_walk_simps)
next
  case (2 l r l' r')
  let ?dl = "differing (pairs l) (pairs l')" and ?dr = "differing (pairs r) (pairs r')"
  obtain h' where h: "h = Suc h'" "kv_height l \<le> h'" "kv_height r \<le> h'" using "2.prems"(2) by (cases h) auto
  have d: "differing (pairs (KNode l r)) (pairs (KNode l' r')) = ?dl + ?dr"
    using "2.prems"(1) by (simp add: differing_append same_shape_length)
  show ?case
  proof (cases "m_Hash (hashed (KNode l r)) = m_Hash (hashed (KNode l' r'))")
    case False
    then have "KNode l r \<noteq> KNode l' r'" by auto
    then have "differing (pairs (KNode l r)) (pairs (KNode l' r')) \<noteq> 0"
      using differing_0[OF "2.prems"(1)] by blast
    then have "1 \<le> ?dl + ?dr" unfolding d by (simp only: One_nat_def Suc_le_eq neq0_conv)
    moreover define cl cr where "cl = cost_walk (Some (hashed l)) (Some (hashed l'))"
      and "cr = cost_walk (Some (hashed r)) (Some (hashed r'))"
    have "cl \<le> 1 + 2 * ?dl * h'" "cr \<le> 1 + 2 * ?dr * h'"
      using "2.IH" "2.prems"(1) h by (simp_all add: cl_def cr_def)
    moreover have "cost_walk (Some (hashed (KNode l r))) (Some (hashed (KNode l' r'))) = 1 + cl + cr"
      using False cost_walk_simps[of "hashed (KNode l r)" "hashed (KNode l' r')"] by (simp add: cl_def cr_def)
    ultimately show ?thesis unfolding d h(1) by (simp add: algebra_simps)
  qed (simp add: cost_walk_simps)
qed auto

lemma shape_of_data:
  assumes "a \<noteq> []" and "sort (map fst a) = sort (map fst b)"
  shows "same_shape (kv_tree_of a) (kv_tree_of b)"
proof -
  have b: "b \<noteq> []" using assms by (metis length_0_conv length_map length_sort)
  let ?l = "\<lambda>d. map (\<lambda>(k, v). KLeaf k v) (sorted_data d)"
  have "list_all2 same_shape (?l a) (?l b)"
    using assms(2) by (simp add: sorted_data_def list_all2_map1 list_all2_map2 list.rel_refl)
  from same_shape_loop[OF this] kv_loop_single[of "?l a"] kv_loop_single[of "?l b"] show ?thesis
    using assms(1) b by (auto simp: kv_tree_of_def)
qed

lemma differing_data:
  assumes "distinct (map fst a)" and "sort (map fst a) = sort (map fst b)" and keys: "fst ` set a = fst ` set b"
  shows "differing (sorted_data a) (sorted_data b) = card {k. map_of a k \<noteq> map_of b k}"
proof -
  let ?at = "\<lambda>d k. case map_of d k of Some v \<Rightarrow> v | None \<Rightarrow> ''''"
  let ?ks = "sort (map fst a)"
  have "zip (sorted_data a) (sorted_data b) = map (\<lambda>k. ((k, ?at a k), (k, ?at b k))) ?ks"
    unfolding sorted_data_def assms(2) by (simp add: zip_map_map zip_same_conv_map)
  then have "differing (sorted_data a) (sorted_data b) = length (filter (\<lambda>k. ?at a k \<noteq> ?at b k) ?ks)"
    by (simp add: differing_def filter_map o_def)
  also have "\<dots> = card (set (filter (\<lambda>k. ?at a k \<noteq> ?at b k) ?ks))"
    by (rule distinct_card[symmetric]) (use assms(1) in simp)
  also have "set (filter (\<lambda>k. ?at a k \<noteq> ?at b k) ?ks) = {k. map_of a k \<noteq> map_of b k}"
  proof -
    have dom: "dom (map_of b) = dom (map_of a)" using keys by (simp add: dom_map_of_conv_image_fst)
    have "k \<in> fst ` set a \<and> ?at a k \<noteq> ?at b k \<longleftrightarrow> map_of a k \<noteq> map_of b k" for k
    proof -
      have "map_of b k = None \<longleftrightarrow> map_of a k = None" using dom by (metis domIff)
      then show ?thesis unfolding dom_map_of_conv_image_fst[symmetric]
        by (cases "map_of a k"; cases "map_of b k") auto
    qed
    then show ?thesis by auto
  qed
  finally show ?thesis .
qed

text \<open>The cost of a comparison.  For two maps over the same at most \<open>2^h\<close> keys of which \<open>d\<close> have different values,
  \<open>Diff\<close> compares at most \<open>1 + 2 d h\<close> nodes: equal replicas cost one comparison, and each difference a path
  from the root.\<close>

theorem merkle_cost_logarithmic:
  assumes "distinct (map fst a)" and "distinct (map fst b)" and "fst ` set a = fst ` set b" and "length a \<le> 2 ^ h"
  shows "CompareCost (Build a) (Build b) \<le> 1 + 2 * card {k. map_of a k \<noteq> map_of b k} * h"
proof (cases "a = []")
  case True
  then show ?thesis using assms(3) by (simp add: CompareCost_def Build_def)
next
  case False
  then have b: "b \<noteq> []" using assms(3) by auto
  have "mset (map fst a) = mset (map fst b)"
    using set_eq_iff_mset_eq_distinct[OF assms(1,2)] assms(3) by simp
  then have keys: "sort (map fst a) = sort (map fst b)" by (intro properties_for_sort) simp_all
  have "CompareCost (Build a) (Build b) = cost_walk (Some (hashed (kv_tree_of a))) (Some (hashed (kv_tree_of b)))"
    using False b by (simp add: CompareCost_def Root_Build)
  also have "\<dots> \<le> 1 + 2 * differing (pairs (kv_tree_of a)) (pairs (kv_tree_of b)) * h"
    by (rule cost_walk_bound[OF shape_of_data[OF False keys] kv_tree_height[OF False assms(4)]])
  finally show ?thesis by (simp only: kv_tree_pairs[OF False] kv_tree_pairs[OF b] differing_data[OF assms(1) keys assms(3)])
qed

text \<open>The separator byte is not escaped.  A key that contains it makes two different maps hash the same bytes: their
  root hashes are equal and \<open>Diff\<close> reports no difference, although no key is in both.\<close>

theorem merkle_separator_ambiguous:
  "let a = [(k @ char_of (31 :: nat) # m, v)]; b = [(k, m @ char_of (31 :: nat) # v)] in
   RootHash (Build a) = RootHash (Build b) \<and> merkle_Diff (Build a) (Build b) = [] \<and>
   fst ` set a \<inter> fst ` set b = {}"
proof -
  let ?a = "[(k @ char_of (31 :: nat) # m, v)]" and ?b = "[(k, m @ char_of (31 :: nat) # v)]"
  have "byte_of_char (char_of (31 :: nat)) = 0x1f" by (simp add: byte_of_char_def)
  then have "hashLeaf (k @ char_of (31 :: nat) # m) v = hashLeaf k (m @ char_of (31 :: nat) # v)"
    by (simp add: hashLeaf_def bytes_of_def)
  moreover have "Root (Build [(x, y)]) = Some (MLeaf (hashLeaf x y) x)" for x y
    by (simp add: Build_def build_loop.simps nth_opt_def)
  ultimately have "RootHash (Build ?a) = RootHash (Build ?b) \<and> merkle_Diff (Build ?a) (Build ?b) = []"
    by (simp add: RootHash_def merkle_Diff_def diff_walk_simps)
  then show ?thesis by (simp add: Let_def)
qed

theorem merkle_Diff_complete_witness:
  "{k. map_of [(''a'', ''1'')] k \<noteq> map_of [] k} \<subseteq> set (merkle_Diff (Build [(''a'', ''1'')]) (Build [])) \<and>
   merkle_Diff (Build [(''a'', ''1'')]) (Build []) \<noteq> []"
proof -
  have "hashed_bytes [(''a'', ''1'')] = {[0x00] @ bytes_of ''a'' @ [0x1f] @ bytes_of ''1''}" "hashed_bytes [] = {}"
    by (simp_all add: hashed_bytes_def kv_tree_of_def sorted_data_def kv_loop.simps)
  then have "inj_on sha256_Sum256 (hashed_bytes [(''a'', ''1'')] \<union> hashed_bytes [])" by simp
  moreover have "\<forall>k \<in> fst ` set [(''a'', ''1'')] \<union> fst ` set []. plain_key k"
    by (simp add: plain_key_def bytes_of_def byte_of_char_def)
  moreover have "map_of [(''a'', ''1'')] \<noteq> map_of []" by (auto simp: fun_eq_iff)
  ultimately show ?thesis using merkle_Diff_complete[of "[(''a'', ''1'')]" "[]"] by simp
qed

theorem merkle_cost_logarithmic_witness:
  "CompareCost (Build [(''a'', ''1''), (''b'', ''2''), (''c'', ''3''), (''d'', ''4'')])
     (Build [(''d'', ''4''), (''c'', ''x''), (''b'', ''2''), (''a'', ''1'')]) \<le> 5"
proof -
  let ?a = "[(''a'', ''1''), (''b'', ''2''), (''c'', ''3''), (''d'', ''4'')]"
  let ?b = "[(''d'', ''4''), (''c'', ''x''), (''b'', ''2''), (''a'', ''1'')]"
  have "{k. map_of ?a k \<noteq> map_of ?b k} = {''c''}" by (auto split: if_splits)
  then show ?thesis using merkle_cost_logarithmic[of ?a ?b 2] by auto
qed

end
