(* ===== verification/Sha1.thy ===== *)
theory Sha1
  imports Sha256
begin

text \<open>
  SHA-1 as the library \<^verbatim>\<open>crypto/sha1\<close> computes it, the hash of the positions on the consistent hashing ring.
\<close>

definition sha1_H0 :: "u32 list" where
  "sha1_H0 = [0x67452301, 0xEFCDAB89, 0x98BADCFE, 0x10325476, 0xC3D2E1F0]"

abbreviation rotl :: "nat \<Rightarrow> u32 \<Rightarrow> u32" where
  "rotl n x \<equiv> push_bit n x OR drop_bit (32 - n) x"

text \<open>The message schedule; the words are kept in reverse order.\<close>

fun sha1_extend :: "nat \<Rightarrow> u32 list \<Rightarrow> u32 list" where
  "sha1_extend 0 ws = ws"
| "sha1_extend (Suc n) ws = sha1_extend n (rotl 1 (ws ! 2 XOR ws ! 7 XOR ws ! 13 XOR ws ! 15) # ws)"

definition sha1_step :: "u32 \<Rightarrow> u32 \<Rightarrow> u32 list \<Rightarrow> u32 list" where
  "sha1_step fk w st =
     [rotl 5 (st ! 0) + fk + st ! 4 + w, st ! 0, rotl 30 (st ! 1), st ! 2, st ! 3]"

definition sha1_fk :: "nat \<Rightarrow> u32 list \<Rightarrow> u32" where
  "sha1_fk i st =
     (let b = st ! 1; c = st ! 2; d = st ! 3 in
      if i < 20 then ((b AND c) OR (NOT b AND d)) + 0x5A827999
      else if i < 40 then (b XOR c XOR d) + 0x6ED9EBA1
      else if i < 60 then ((b AND c) OR (b AND d) OR (c AND d)) + 0x8F1BBCDC
      else (b XOR c XOR d) + 0xCA62C1D6)"

definition sha1_round :: "nat \<times> u32 \<Rightarrow> u32 list \<Rightarrow> u32 list" where
  "sha1_round iw st = sha1_step (sha1_fk (fst iw) st) (snd iw) st"

definition sha1_block :: "byte list \<Rightarrow> u32 list \<Rightarrow> u32 list" where
  "sha1_block bs st =
     (let ws = rev (sha1_extend 64 (rev (sha_words 16 bs)))
      in map2 (+) st (fold sha1_round (zip [0..<80] ws) st))"

fun sha1_blocks :: "nat \<Rightarrow> byte list \<Rightarrow> u32 list \<Rightarrow> u32 list" where
  "sha1_blocks 0 bs st = st"
| "sha1_blocks (Suc n) bs st = sha1_blocks n (drop 64 bs) (sha1_block (take 64 bs) st)"

definition sha1_Sum :: "byte list \<Rightarrow> byte list" where
  "sha1_Sum m =
     (let p = sha_pad m in concat (map (big_bytes 4) (sha1_blocks (length p div 64) p sha1_H0)))"

subsection \<open>Evaluating a hash in the kernel\<close>

text \<open>Rewriting with the definitions computes a hash as long as the shifted words are reduced after each round, which
  \<open>norm_word\<close> forces.\<close>

definition norm_word :: "u32 \<Rightarrow> u32" where
  "norm_word x = x"

lemma norm_word_numeral: "norm_word (numeral k) = of_nat (take_bit 32 (numeral k))"
proof -
  have "unat (numeral k :: u32) = take_bit 32 (numeral k)" by (simp add: unsigned_numeral)
  then show ?thesis unfolding norm_word_def by (metis of_nat_unat ucast_id)
qed

lemma norm_word_small: "norm_word 0 = 0" "norm_word 1 = 1"
  by (simp_all add: norm_word_def)

lemma sha1_round_norm: "sha1_round iw st =
    [norm_word (rotl 5 (st ! 0) + sha1_fk (fst iw) st + st ! 4 + snd iw), st ! 0, norm_word (rotl 30 (st ! 1)), st ! 2, st ! 3]"
  by (simp add: sha1_round_def sha1_step_def norm_word_def)

lemma sha1_extend_numeral: "sha1_extend (numeral n) ws =
    sha1_extend (pred_numeral n) (rotl 1 (ws ! 2 XOR ws ! 7 XOR ws ! 13 XOR ws ! 15) # ws)"
  by (simp only: numeral_eq_Suc sha1_extend.simps)

lemma sha_words_numeral: "sha_words (numeral n) bs = big_word (take 4 bs) # sha_words (pred_numeral n) (drop 4 bs)"
  by (simp only: numeral_eq_Suc sha_words.simps)

lemma replicate_step: "replicate (numeral n) x = x # replicate (pred_numeral n) x"
  by (simp add: numeral_eq_Suc)

lemmas sha_pad_eval = sha_pad_def bytes_of_def byte_of_char_def big_bytes_def le_bytes_def upt_conv_Cons replicate_step

lemmas sha1_eval = sha1_block_def sha1_H0_def sha1_extend_numeral sha_words_numeral big_word_def replicate_step
  upt_conv_Cons sha1_round_norm sha1_fk_def norm_word_numeral norm_word_small

end
