(* ===== verification/Ring.thy ===== *)
theory Ring
  imports Sha1
begin

text \<open>
  The consistent hashing ring with virtual nodes (\<^verbatim>\<open>code/consistent_hashing/ring.go\<close>).  Positions are the first four
  bytes of SHA-1 hashes of labels.  The owner of a key is the virtual node at the least clockwise distance, and a
  distance is a subtraction of 32-bit words, which wraps around as the ring does.  A map that is read at a missing
  key gives the empty string, as in Go.
\<close>

definition DefaultVirtualNodes :: int where
  "DefaultVirtualNodes = 150"

record Ring =
  virtualNodes :: int
  positions :: "u32 list"
  owners :: "u32 \<rightharpoonup> string"
  ring_nodes :: "string list"

definition NewRing :: "int \<Rightarrow> Ring" where
  "NewRing v = \<lparr>virtualNodes = (if v \<le> 0 then DefaultVirtualNodes else v), positions = [], owners = Map.empty, ring_nodes = []\<rparr>"

definition hashKey :: "string \<Rightarrow> u32" where
  "hashKey s = big_word (take 4 (sha1_Sum (bytes_of s)))"

definition owner_at :: "(u32 \<rightharpoonup> string) \<Rightarrow> u32 \<Rightarrow> string" where
  "owner_at m p = (case m p of None \<Rightarrow> '''' | Some n \<Rightarrow> n)"

definition vnode :: "string \<Rightarrow> nat \<Rightarrow> u32" where
  "vnode node i = hashKey (node @ ''#'' @ decimal i)"

definition ring_Add :: "string \<Rightarrow> Ring \<Rightarrow> Ring" where
  "ring_Add node r =
     (if node \<in> set (ring_nodes r) then r
      else
        let ps = map (vnode node) [0..<nat (virtualNodes r)]
        in r\<lparr>ring_nodes := node # ring_nodes r,
             owners := fold (\<lambda>p m. m(p \<mapsto> node)) ps (owners r),
             positions := sort (positions r @ ps)\<rparr>)"

fun remove_loop :: "string \<Rightarrow> u32 list \<Rightarrow> (u32 \<rightharpoonup> string) \<Rightarrow> u32 list \<times> (u32 \<rightharpoonup> string)" where
  "remove_loop node [] m = ([], m)"
| "remove_loop node (p # ps) m =
     (if owner_at m p = node then remove_loop node ps (m(p := None))
      else case remove_loop node ps m of (kept, m1) \<Rightarrow> (p # kept, m1))"

definition ring_Remove :: "string \<Rightarrow> Ring \<Rightarrow> Ring" where
  "ring_Remove node r =
     (if node \<notin> set (ring_nodes r) then r
      else case remove_loop node (positions r) (owners r) of
        (kept, m) \<Rightarrow> r\<lparr>ring_nodes := remove1 node (ring_nodes r), positions := kept, owners := m\<rparr>)"

definition ring_Get :: "string \<Rightarrow> Ring \<Rightarrow> string \<times> bool" where
  "ring_Get key r =
     (if positions r = [] then ('''', False)
      else
        let h = hashKey key;
            i = go_Search (length (positions r)) (\<lambda>i. positions r ! i \<ge> h);
            i = (if i = length (positions r) then 0 else i)
        in (owner_at (owners r) (positions r ! i), True))"

text \<open>The loop of \<open>GetN\<close>: \<open>is\<close> are the values of the counter still to come.\<close>

fun getn_loop :: "Ring \<Rightarrow> nat \<Rightarrow> int \<Rightarrow> nat list \<Rightarrow> string list \<Rightarrow> string list" where
  "getn_loop r start n [] out = out"
| "getn_loop r start n (i # is) out =
     (if int (length out) < n then
        let owner = owner_at (owners r) (positions r ! ((start + i) mod length (positions r)))
        in getn_loop r start n is (if owner \<in> set out then out else out @ [owner])
      else out)"

definition ring_GetN :: "string \<Rightarrow> int \<Rightarrow> Ring \<Rightarrow> string list" where
  "ring_GetN key n r =
     (if positions r = [] \<or> n \<le> 0 then []
      else
        let n = (if n > int (length (ring_nodes r)) then int (length (ring_nodes r)) else n);
            h = hashKey key;
            start = go_Search (length (positions r)) (\<lambda>i. positions r ! i \<ge> h)
        in getn_loop r start n [0..<length (positions r)] [])"

definition ring_Nodes :: "Ring \<Rightarrow> nat" where
  "ring_Nodes r = length (ring_nodes r)"

definition Distribution :: "string list \<Rightarrow> Ring \<Rightarrow> string \<rightharpoonup> int" where
  "Distribution keys r =
     fold (\<lambda>k counts. case ring_Get k r of
         (n, ok) \<Rightarrow> if ok then counts(n \<mapsto> (case counts n of None \<Rightarrow> 0 | Some c \<Rightarrow> c) + 1) else counts)
       keys (fold (\<lambda>n counts. counts(n \<mapsto> 0)) (ring_nodes r) Map.empty)"

subsection \<open>Clockwise distance\<close>

text \<open>\<open>first_cw P h p\<close>: going clockwise from \<open>h\<close>, \<open>p\<close> is the first position of \<open>P\<close>.\<close>

definition first_cw :: "u32 set \<Rightarrow> u32 \<Rightarrow> u32 \<Rightarrow> bool" where
  "first_cw P h p \<longleftrightarrow> p \<in> P \<and> (\<forall>q \<in> P. p - h \<le> q - h)"

lemma unat_distance: "unat (p - h) = (if h \<le> p then unat p - unat h else unat p + 2 ^ 32 - unat h)" for p h :: u32
  by (simp add: unat_sub_if' word_le_nat_alt)

lemma distance_le: "p - h \<le> q - h \<longleftrightarrow> (h \<le> p \<and> (q < h \<or> p \<le> q)) \<or> (p < h \<and> q < h \<and> p \<le> q)" for p q h :: u32
proof -
  have "unat p < 2 ^ 32" "unat q < 2 ^ 32" "unat h < 2 ^ 32"
    using unsigned_less[where 'a = nat, of p] unsigned_less[where 'a = nat, of q] unsigned_less[where 'a = nat, of h]
    by simp_all
  then show ?thesis
    unfolding word_le_nat_alt[of "p - h"] unat_distance by (auto simp: word_le_nat_alt word_less_nat_alt)
qed

lemma first_cw_unique: "first_cw P h p \<Longrightarrow> first_cw P h q \<Longrightarrow> p = q"
  unfolding first_cw_def by (metis diff_eq_diff_eq dual_order.antisym diff_add_cancel)

lemma first_cw_insert: "first_cw (P \<union> Q) h p \<Longrightarrow> p \<in> Q \<or> first_cw P h p"
  by (auto simp: first_cw_def)

lemma first_cw_subset: "first_cw P h p \<Longrightarrow> Q \<subseteq> P \<Longrightarrow> p \<in> Q \<Longrightarrow> first_cw Q h p"
  by (auto simp: first_cw_def)

text \<open>The binary search of \<open>Get\<close> and \<open>GetN\<close>.\<close>

definition ring_start :: "u32 list \<Rightarrow> u32 \<Rightarrow> nat" where
  "ring_start ps h = go_Search (length ps) (\<lambda>i. ps ! i \<ge> h)"

lemma ring_start_spec:
  assumes "sorted ps"
  shows "ring_start ps h \<le> length ps" and "\<And>i. i < ring_start ps h \<Longrightarrow> ps ! i < h"
    and "\<And>i. ring_start ps h \<le> i \<Longrightarrow> i < length ps \<Longrightarrow> h \<le> ps ! i"
proof -
  have "h \<le> ps ! y" if "x \<le> y" "y < length ps" "h \<le> ps ! x" for x y
    using that sorted_nth_mono[OF assms that(1,2)] by (meson order.trans)
  note spec = go_Search_spec[of "length ps" "\<lambda>i. ps ! i \<ge> h", OF this, folded ring_start_def]
  show "ring_start ps h \<le> length ps" "\<And>i. i < ring_start ps h \<Longrightarrow> ps ! i < h"
    "\<And>i. ring_start ps h \<le> i \<Longrightarrow> i < length ps \<Longrightarrow> h \<le> ps ! i"
    using spec by (auto simp: not_le[symmetric])
qed

text \<open>Read from there on and around, the positions are in the order of their distance.\<close>

definition around :: "u32 list \<Rightarrow> u32 \<Rightarrow> u32 list" where
  "around ps h = drop (ring_start ps h) ps @ take (ring_start ps h) ps"

lemma around_nth: "i < length (ps :: u32 list) \<Longrightarrow> ps ! ((ring_start ps h + i) mod length ps) = around ps h ! i" if "sorted ps"
proof -
  assume i: "i < length ps"
  let ?s = "ring_start ps h"
  have s: "?s \<le> length ps" by (rule ring_start_spec(1)[OF that])
  show ?thesis
  proof (cases "?s + i < length ps")
    case True
    then have "i < length ps - ?s" by simp
    then show ?thesis using True by (simp add: around_def nth_append)
  next
    case False
    then have "(?s + i) mod length ps = ?s + i - length ps" using i s by (simp add: mod_if)
    moreover have "\<not> i < length ps - ?s" using False by simp
    ultimately show ?thesis using False i s by (simp add: around_def nth_append add.commute)
  qed
qed

lemma around_sorted: "sorted ps \<Longrightarrow> sorted_wrt (\<lambda>p q. p - h \<le> q - h) (around ps h)"
proof -
  assume sorted: "sorted ps"
  note spec = ring_start_spec[OF sorted, where h = h]
  let ?s = "ring_start ps h"
  have hi: "\<forall>p \<in> set (drop ?s ps). h \<le> p" and lo: "\<forall>p \<in> set (take ?s ps). p < h"
    using spec by (auto simp: in_set_conv_nth)
  have "sorted (drop ?s ps)" "sorted (take ?s ps)" using sorted by (simp_all add: sorted_wrt_drop sorted_wrt_take)
  then have "sorted_wrt (\<lambda>p q. p - h \<le> q - h) (drop ?s ps)" "sorted_wrt (\<lambda>p q. p - h \<le> q - h) (take ?s ps)"
    using hi lo by (auto elim!: sorted_wrt_mono_rel[rotated] simp: distance_le not_less)
  then show ?thesis using hi lo by (auto simp: around_def sorted_wrt_append distance_le)
qed

lemma set_around [simp]: "set (around ps h) = set ps"
  by (simp add: around_def) (metis Un_commute append_take_drop_id set_append)

lemma length_around [simp]: "length (around ps h) = length ps"
  by (simp add: around_def)

lemma first_around: "sorted ps \<Longrightarrow> ps \<noteq> [] \<Longrightarrow> first_cw (set ps) h (around ps h ! 0)"
proof -
  assume "sorted ps" "ps \<noteq> []"
  then obtain p qs where a: "around ps h = p # qs" by (cases "around ps h") (auto simp: around_def)
  have "sorted_wrt (\<lambda>p q. p - h \<le> q - h) (p # qs)" using around_sorted[OF \<open>sorted ps\<close>, of h] a by simp
  then have "first_cw (set (p # qs)) h p" by (auto simp: first_cw_def)
  then show ?thesis using a set_around[of ps h] by simp
qed

subsection \<open>The ring without colliding labels\<close>

definition no_collision :: "nat \<Rightarrow> string set \<Rightarrow> bool" where
  "no_collision v N \<longleftrightarrow> inj_on (\<lambda>(n, i). vnode n i) (N \<times> {..<v})"

definition ring_ok :: "Ring \<Rightarrow> bool" where
  "ring_ok r \<longleftrightarrow> 0 < virtualNodes r \<and> distinct (ring_nodes r) \<and> sorted (positions r) \<and> distinct (positions r) \<and>
     set (positions r) = dom (owners r) \<and>
     (\<forall>p n. owners r p = Some n \<longleftrightarrow> n \<in> set (ring_nodes r) \<and> (\<exists>i < nat (virtualNodes r). p = vnode n i))"

lemma vnode_inj:
  "no_collision v N \<Longrightarrow> m \<in> N \<Longrightarrow> n \<in> N \<Longrightarrow> i < v \<Longrightarrow> j < v \<Longrightarrow> vnode m i = vnode n j \<longleftrightarrow> m = n \<and> i = j"
  unfolding no_collision_def using inj_onD[where x = "(m, i)" and y = "(n, j)"] by fastforce

lemma ring_mem: "ring_ok r \<Longrightarrow> p \<in> set (positions r) \<longleftrightarrow> (\<exists>n. owners r p = Some n)"
proof -
  assume "ring_ok r"
  then have "set (positions r) = dom (owners r)" by (simp add: ring_ok_def)
  then show ?thesis by auto
qed

lemma ring_owner: "ring_ok r \<Longrightarrow>
    owners r p = Some n \<longleftrightarrow> n \<in> set (ring_nodes r) \<and> (\<exists>i < nat (virtualNodes r). p = vnode n i)"
  unfolding ring_ok_def by blast

lemma ring_vnode: "ring_ok r \<Longrightarrow> n \<in> set (ring_nodes r) \<Longrightarrow> owners r (vnode n 0) = Some n"
  unfolding ring_owner by (intro conjI exI[of _ 0]) (simp_all add: ring_ok_def)

lemma ring_ok_New: "ring_ok (NewRing v)"
  by (simp add: ring_ok_def NewRing_def DefaultVirtualNodes_def)

lemma fold_owner: "fold (\<lambda>p m. m(p \<mapsto> node)) ps m p = (if p \<in> set ps then Some node else m p)"
  by (induction ps arbitrary: m) auto

lemma ring_Add_facts:
  assumes "node \<notin> set (ring_nodes r)"
  shows "ring_nodes (ring_Add node r) = node # ring_nodes r" and "virtualNodes (ring_Add node r) = virtualNodes r"
    and "positions (ring_Add node r) = sort (positions r @ map (vnode node) [0..<nat (virtualNodes r)])"
    and "owners (ring_Add node r) p =
      (if \<exists>i < nat (virtualNodes r). p = vnode node i then Some node else owners r p)"
  using assms by (auto simp: ring_Add_def Let_def fold_owner image_iff)

lemma ring_ok_Add:
  assumes ok: "ring_ok r" and free: "no_collision (nat (virtualNodes r)) (insert node (set (ring_nodes r)))"
  shows "ring_ok (ring_Add node r)"
proof (cases "node \<in> set (ring_nodes r)")
  case False
  note facts = ring_Add_facts[OF False]
  let ?v = "nat (virtualNodes r)"
  note inj = vnode_inj[OF free]
  have fresh: "vnode node i \<notin> set (positions r)" if "i < ?v" for i
  proof
    assume "vnode node i \<in> set (positions r)"
    then obtain n j where "n \<in> set (ring_nodes r)" "j < ?v" "vnode node i = vnode n j"
      using ok unfolding ring_ok_def by blast
    then have "node = n" using inj[of node n i j] that by simp
    then show False using \<open>n \<in> _\<close> False by simp
  qed
  have "distinct (map (vnode node) [0..<?v])" using inj by (auto simp: distinct_map inj_on_def)
  moreover have "distinct (positions r)" using ok by (simp add: ring_ok_def)
  ultimately have "distinct (positions (ring_Add node r))" using fresh facts(3) by auto
  moreover have "set (positions (ring_Add node r)) = dom (owners (ring_Add node r))"
    using ok facts(3,4) by (auto simp: ring_ok_def dom_def)
  moreover have "owners (ring_Add node r) p = Some n \<longleftrightarrow>
      n \<in> set (ring_nodes (ring_Add node r)) \<and> (\<exists>i < ?v. p = vnode n i)" for p n
  proof (cases "\<exists>i < ?v. p = vnode node i")
    case True
    then obtain i where i: "i < ?v" "p = vnode node i" by auto
    have "n = node" if "n \<in> insert node (set (ring_nodes r))" "j < ?v" "p = vnode n j" for j
      using inj[OF _ that(1), of node i j] i that by simp
    then show ?thesis using i facts(1,4) by auto
  next
    case out: False
    then have "owners (ring_Add node r) p = owners r p" by (simp only: facts(4) if_False)
    then show ?thesis using ok out facts(1) unfolding ring_ok_def by auto
  qed
  moreover have "sorted (positions (ring_Add node r))" using facts(3) by simp
  ultimately show ?thesis using ok facts(1,2) False unfolding ring_ok_def by simp
qed (use ok in \<open>simp add: ring_Add_def\<close>)

lemma remove_loop_spec:
  "distinct ps \<Longrightarrow> remove_loop node ps m =
     (filter (\<lambda>p. owner_at m p \<noteq> node) ps, \<lambda>p. if p \<in> set ps \<and> owner_at m p = node then None else m p)"
proof (induction ps arbitrary: m)
  case (Cons p ps)
  have same: "owner_at (m(p := None)) q = owner_at m q" if "q \<in> set ps" for q
    using that Cons.prems by (auto simp: owner_at_def)
  have "filter (\<lambda>q. owner_at (m(p := None)) q \<noteq> node) ps = filter (\<lambda>q. owner_at m q \<noteq> node) ps"
    by (rule filter_cong) (simp_all add: same)
  then show ?case using Cons same by (auto simp: fun_eq_iff)
qed (simp add: fun_eq_iff)

lemma ring_Remove_facts:
  assumes ok: "ring_ok r" and mem: "node \<in> set (ring_nodes r)"
  shows "ring_nodes (ring_Remove node r) = remove1 node (ring_nodes r)"
    and "virtualNodes (ring_Remove node r) = virtualNodes r"
    and "positions (ring_Remove node r) = filter (\<lambda>p. owners r p \<noteq> Some node) (positions r)"
    and "owners (ring_Remove node r) p = (if owners r p = Some node then None else owners r p)"
proof -
  have dist: "distinct (positions r)" and dom: "set (positions r) = dom (owners r)" using ok by (simp_all add: ring_ok_def)
  have own: "owner_at (owners r) p = node \<longleftrightarrow> owners r p = Some node" if "p \<in> set (positions r)" for p
    using that dom by (auto simp: owner_at_def)
  have "filter (\<lambda>p. owner_at (owners r) p \<noteq> node) (positions r) = filter (\<lambda>p. owners r p \<noteq> Some node) (positions r)"
    by (rule filter_cong) (simp_all add: own)
  moreover have "p \<in> set (positions r) \<and> owner_at (owners r) p = node \<longleftrightarrow> owners r p = Some node" for p
    using own dom by (auto simp: dom_def)
  ultimately show "ring_nodes (ring_Remove node r) = remove1 node (ring_nodes r)"
    "virtualNodes (ring_Remove node r) = virtualNodes r"
    "positions (ring_Remove node r) = filter (\<lambda>p. owners r p \<noteq> Some node) (positions r)"
    "owners (ring_Remove node r) p = (if owners r p = Some node then None else owners r p)"
    using mem by (simp_all add: ring_Remove_def remove_loop_spec[OF dist])
qed

lemma ring_ok_Remove:
  assumes ok: "ring_ok r"
  shows "ring_ok (ring_Remove node r)"
proof (cases "node \<in> set (ring_nodes r)")
  case True
  note facts = ring_Remove_facts[OF ok True]
  have "sorted (filter (\<lambda>p. owners r p \<noteq> Some node) (positions r))"
    using ok by (simp add: ring_ok_def sorted_wrt_filter)
  moreover have "set (positions (ring_Remove node r)) = dom (owners (ring_Remove node r))"
    using ok facts(3,4) by (auto simp: ring_ok_def dom_def split: if_splits)
  moreover have "set (remove1 node (ring_nodes r)) = set (ring_nodes r) - {node}"
    using ok by (simp add: ring_ok_def)
  moreover have "owners (ring_Remove node r) p = Some n \<longleftrightarrow> n \<noteq> node \<and> owners r p = Some n" for p n
    using facts(4) by auto
  ultimately show ?thesis using ok facts(1-3) unfolding ring_ok_def by (simp, blast)
qed (use ok in \<open>simp add: ring_Remove_def\<close>)

subsection \<open>Lookups\<close>

lemma ring_Get_first:
  assumes ok: "ring_ok r" and ne: "positions r \<noteq> []"
  obtains p n where "first_cw (set (positions r)) (hashKey key) p" and "owners r p = Some n" and "n \<in> set (ring_nodes r)"
    and "ring_Get key r = (n, True)"
proof -
  let ?ps = "positions r" and ?s = "ring_start (positions r) (hashKey key)"
  have sorted: "sorted ?ps" using ok by (simp add: ring_ok_def)
  have "?ps ! ((?s + 0) mod length ?ps) = around ?ps (hashKey key) ! 0" by (rule around_nth[OF sorted]) (use ne in simp)
  moreover have "?s \<le> length ?ps" by (rule ring_start_spec(1)[OF sorted])
  then have "(?s + 0) mod length ?ps = (if ?s = length ?ps then 0 else ?s)" using ne by simp
  ultimately have get: "ring_Get key r = (owner_at (owners r) (around ?ps (hashKey key) ! 0), True)"
    using ne by (simp add: ring_Get_def Let_def ring_start_def[symmetric])
  have first: "first_cw (set ?ps) (hashKey key) (around ?ps (hashKey key) ! 0)" by (rule first_around[OF sorted ne])
  then have "around ?ps (hashKey key) ! 0 \<in> dom (owners r)" using ok by (simp add: first_cw_def ring_ok_def)
  then obtain n where n: "owners r (around ?ps (hashKey key) ! 0) = Some n" by auto
  then have "n \<in> set (ring_nodes r)" using ok by (auto simp: ring_ok_def)
  then show thesis using that[OF first n] get n by (simp add: owner_at_def)
qed

lemma ring_Get_empty: "positions r = [] \<Longrightarrow> ring_Get key r = ('''', False)"
  by (simp add: ring_Get_def)

lemma ring_positions_empty: "ring_ok r \<Longrightarrow> positions r = [] \<longleftrightarrow> ring_nodes r = []"
proof -
  assume ok: "ring_ok r"
  have "n \<in> set (ring_nodes r) \<Longrightarrow> vnode n 0 \<in> set (positions r)" for n
    using ring_vnode[OF ok] ring_mem[OF ok] by blast
  moreover have "p \<in> set (positions r) \<Longrightarrow> \<exists>n. n \<in> set (ring_nodes r)" for p
    using ok unfolding ring_ok_def by blast
  ultimately show ?thesis by (metis list.set_intros(1) neq_Nil_conv list.set(1) empty_iff)
qed

lemma ring_Add_moves:
  assumes ok: "ring_ok r" and free: "no_collision (nat (virtualNodes r)) (insert node (set (ring_nodes r)))"
  shows "ring_Get key (ring_Add node r) = ring_Get key r \<or> ring_Get key (ring_Add node r) = (node, True)"
proof (cases "node \<in> set (ring_nodes r)")
  case False
  note facts = ring_Add_facts[OF False]
  let ?r = "ring_Add node r"
  have ok': "ring_ok ?r" by (rule ring_ok_Add[OF ok free])
  have "positions ?r \<noteq> []" using ring_positions_empty[OF ok'] facts(1) by simp
  from ring_Get_first[OF ok' this, of key] obtain p n where new: "first_cw (set (positions ?r)) (hashKey key) p"
    "owners ?r p = Some n" "ring_Get key ?r = (n, True)" by metis
  show ?thesis
  proof (cases "n = node")
    case other: False
    have old: "owners r p = Some n" using new(2) other by (simp add: facts(4) split: if_splits)
    then have mem: "p \<in> set (positions r)" using ring_mem[OF ok] by blast
    have "set (positions r) \<subseteq> set (positions ?r)" using facts(3) by auto
    then have first: "first_cw (set (positions r)) (hashKey key) p" using first_cw_subset[OF new(1)] mem by blast
    have "positions r \<noteq> []" using mem by auto
    from ring_Get_first[OF ok this, of key] obtain q m where "first_cw (set (positions r)) (hashKey key) q"
      "owners r q = Some m" "ring_Get key r = (m, True)" by metis
    then have "ring_Get key r = (n, True)" using first_cw_unique[OF first] old by simp
    then show ?thesis using new(3) by simp
  qed (use new in simp)
qed (simp add: ring_Add_def)

lemma ring_Remove_moves:
  assumes ok: "ring_ok r" and "fst (ring_Get key r) \<noteq> node"
  shows "ring_Get key (ring_Remove node r) = ring_Get key r"
proof (cases "node \<in> set (ring_nodes r)")
  case True
  note facts = ring_Remove_facts[OF ok True]
  let ?r = "ring_Remove node r"
  have "positions r \<noteq> []" using ring_positions_empty[OF ok] True by auto
  from ring_Get_first[OF ok this, of key] obtain p n where old: "first_cw (set (positions r)) (hashKey key) p"
    "owners r p = Some n" "ring_Get key r = (n, True)" by metis
  then have keep: "p \<in> set (positions ?r)" using assms(2) facts(3) by (simp add: first_cw_def)
  moreover have "set (positions ?r) \<subseteq> set (positions r)" using facts(3) by auto
  ultimately have first: "first_cw (set (positions ?r)) (hashKey key) p" using first_cw_subset[OF old(1)] by blast
  have "positions ?r \<noteq> []" using keep by auto
  from ring_Get_first[OF ring_ok_Remove[OF ok] this, of key] obtain q m where
    "first_cw (set (positions ?r)) (hashKey key) q" "owners ?r q = Some m" "ring_Get key ?r = (m, True)" by metis
  moreover have "owners ?r p = Some n" using old facts(4) assms(2) by simp
  ultimately show ?thesis using first_cw_unique[OF first] old(3) by simp
qed (simp add: ring_Remove_def)

subsection \<open>Replicas\<close>

text \<open>The values of a list in the order of their first occurrence, after those of \<open>out\<close>.\<close>

fun add_firsts :: "'a list \<Rightarrow> 'a list \<Rightarrow> 'a list" where
  "add_firsts out [] = out"
| "add_firsts out (x # xs) = add_firsts (if x \<in> set out then out else out @ [x]) xs"

lemma add_firsts_extends: "\<exists>ys. add_firsts out xs = out @ ys"
proof (induction xs arbitrary: out)
  case (Cons x xs)
  from Cons.IH[of "out @ [x]"] Cons.IH[of out] show ?case by auto
qed simp

lemma set_add_firsts [simp]: "set (add_firsts out xs) = set out \<union> set xs"
  by (induction xs arbitrary: out) auto

lemma distinct_add_firsts: "distinct out \<Longrightarrow> distinct (add_firsts out xs)"
  by (induction xs arbitrary: out) auto

lemma getn_loop_take:
  assumes "sorted (positions r)" and "length out \<le> n" and "\<forall>i \<in> set is. i < length (positions r)"
  shows "getn_loop r (ring_start (positions r) h) (int n) is out =
    take n (add_firsts out (map (\<lambda>i. owner_at (owners r) (around (positions r) h ! i)) is))"
  using assms(2,3)
proof (induction "is" arbitrary: out)
  case (Cons i ks)
  let ?o = "owner_at (owners r) (around (positions r) h ! i)"
  have at: "positions r ! ((ring_start (positions r) h + i) mod length (positions r)) = around (positions r) h ! i"
    by (rule around_nth[OF assms(1)]) (use Cons.prems in simp)
  show ?case
  proof (cases "length out < n")
    case True
    then show ?thesis using Cons by (simp add: at Let_def)
  next
    case False
    obtain ys where "add_firsts (if ?o \<in> set out then out else out @ [?o])
        (map (\<lambda>i. owner_at (owners r) (around (positions r) h ! i)) ks) = (if ?o \<in> set out then out else out @ [?o]) @ ys"
      using add_firsts_extends by blast
    then show ?thesis using False Cons.prems(1) by simp
  qed
qed simp

lemma ring_GetN_take:
  assumes ok: "ring_ok r" and n: "0 \<le> n"
  shows "ring_GetN key n r =
    take (nat (min n (int (length (ring_nodes r)))))
      (add_firsts [] (map (owner_at (owners r)) (around (positions r) (hashKey key))))"
proof (cases "positions r = [] \<or> n \<le> 0")
  case True
  then show ?thesis using n by (auto simp: ring_GetN_def around_def)
next
  case False
  let ?n = "nat (min n (int (length (ring_nodes r))))" and ?h = "hashKey key"
  have "ring_GetN key n r = getn_loop r (ring_start (positions r) ?h) (int ?n) [0..<length (positions r)] []"
    using False n by (simp add: ring_GetN_def Let_def ring_start_def min_def)
  also have "\<dots> = take ?n (add_firsts [] (map (\<lambda>i. owner_at (owners r) (around (positions r) ?h ! i)) [0..<length (positions r)]))"
    using ok by (intro getn_loop_take) (simp_all add: ring_ok_def)
  also have "map (\<lambda>i. owner_at (owners r) (around (positions r) ?h ! i)) [0..<length (positions r)] =
      map (owner_at (owners r)) (around (positions r) ?h)"
    using map_nth[of "around (positions r) ?h"] by (metis length_around list.map_comp o_apply list.map_cong0)
  finally show ?thesis .
qed

lemma owner_set:
  assumes ok: "ring_ok r"
  shows "owner_at (owners r) ` set (positions r) = set (ring_nodes r)"
proof (intro equalityI subsetI)
  fix n assume "n \<in> owner_at (owners r) ` set (positions r)"
  then obtain p where "p \<in> dom (owners r)" "n = owner_at (owners r) p" using ok by (auto simp: ring_ok_def)
  then have "owners r p = Some n" by (auto simp: owner_at_def)
  then show "n \<in> set (ring_nodes r)" using ok by (auto simp: ring_ok_def)
next
  fix n assume "n \<in> set (ring_nodes r)"
  then have own: "owners r (vnode n 0) = Some n" by (rule ring_vnode[OF ok])
  then have "vnode n 0 \<in> set (positions r)" using ring_mem[OF ok] by blast
  moreover have "owner_at (owners r) (vnode n 0) = n" using own by (simp add: owner_at_def)
  ultimately show "n \<in> owner_at (owners r) ` set (positions r)" by (metis imageI)
qed

subsection \<open>Any sequence of changes\<close>

datatype ring_op = RAdd string | RRemove string

fun ring_apply :: "ring_op \<Rightarrow> Ring \<Rightarrow> Ring" where
  "ring_apply (RAdd n) r = ring_Add n r"
| "ring_apply (RRemove n) r = ring_Remove n r"

definition added :: "ring_op list \<Rightarrow> string set" where
  "added ops = {n. RAdd n \<in> set ops}"

abbreviation vnodes_of :: "int \<Rightarrow> nat" where
  "vnodes_of v \<equiv> nat (virtualNodes (NewRing v))"

lemma no_collision_mono: "no_collision v N \<Longrightarrow> M \<subseteq> N \<Longrightarrow> no_collision v M"
  unfolding no_collision_def by (erule inj_on_subset) auto

lemma ring_apply_keeps:
  assumes "ring_ok r" and "set (ring_nodes r) \<subseteq> N" and "virtualNodes r = v"
    and "no_collision (nat v) N" and "added [op] \<subseteq> N"
  shows "ring_ok (ring_apply op r) \<and> set (ring_nodes (ring_apply op r)) \<subseteq> N \<and> virtualNodes (ring_apply op r) = v"
proof (cases op)
  case (RAdd n)
  have "no_collision (nat (virtualNodes r)) (insert n (set (ring_nodes r)))"
    using assms RAdd by (auto simp: added_def intro: no_collision_mono)
  then show ?thesis using assms RAdd ring_ok_Add[OF assms(1), of n] ring_Add_facts[of n r]
    by (cases "n \<in> set (ring_nodes r)") (auto simp: added_def ring_Add_def)
next
  case (RRemove n)
  show ?thesis using assms RRemove ring_ok_Remove[OF assms(1), of n] ring_Remove_facts[OF assms(1), of n]
    by (cases "n \<in> set (ring_nodes r)") (auto simp: ring_Remove_def dest: notin_set_remove1 set_remove1_subset[THEN subsetD])
qed

lemma ring_run_keeps:
  assumes "ring_ok r" and "set (ring_nodes r) \<subseteq> N" and "virtualNodes r = v" and "no_collision (nat v) N" and "added ops \<subseteq> N"
  shows "ring_ok (fold ring_apply ops r) \<and> set (ring_nodes (fold ring_apply ops r)) \<subseteq> N \<and>
    virtualNodes (fold ring_apply ops r) = v"
  using assms
proof (induction ops arbitrary: r)
  case (Cons op ops)
  have "added [op] \<subseteq> N" "added ops \<subseteq> N" using Cons.prems(5) by (auto simp: added_def)
  then show ?case using Cons.IH ring_apply_keeps[OF Cons.prems(1-4)] Cons.prems(4) by simp
qed simp

lemma ring_reached:
  assumes "no_collision (vnodes_of v) N" and "added ops \<subseteq> N"
  shows "ring_ok (fold ring_apply ops (NewRing v))" and "set (ring_nodes (fold ring_apply ops (NewRing v))) \<subseteq> N"
    and "virtualNodes (fold ring_apply ops (NewRing v)) = virtualNodes (NewRing v)"
  using ring_run_keeps[OF ring_ok_New _ refl assms] by (auto simp: NewRing_def)

text \<open>C20: consistent hashing moves as few keys as possible.  After any changes of the ring, as long as no two
  virtual nodes have the same position: adding a node leaves every key where it was or moves it to the new node, removing
  one moves only the keys it owned, and a key always belongs to a node of a nonempty ring.\<close>

theorem ring_minimal_movement:
  assumes "no_collision (vnodes_of v) (insert node (added ops))"
  shows "let r = fold ring_apply ops (NewRing v) in
    (ring_Get key (ring_Add node r) = ring_Get key r \<or> ring_Get key (ring_Add node r) = (node, True)) \<and>
    (fst (ring_Get key r) = node \<or> ring_Get key (ring_Remove node r) = ring_Get key r) \<and>
    (ring_nodes r = [] \<and> ring_Get key r = ('''', False) \<or> (\<exists>n \<in> set (ring_nodes r). ring_Get key r = (n, True)))"
proof -
  define r where "r = fold ring_apply ops (NewRing v)"
  have ok: "ring_ok r" and sub: "set (ring_nodes r) \<subseteq> insert node (added ops)"
    and vn: "virtualNodes r = virtualNodes (NewRing v)"
    using ring_reached[OF assms, of ops] by (auto simp: r_def)
  have "no_collision (nat (virtualNodes r)) (insert node (set (ring_nodes r)))"
    unfolding vn by (rule no_collision_mono[OF assms]) (use sub in auto)
  note add = ring_Add_moves[OF ok this, of key]
  have remove: "fst (ring_Get key r) = node \<or> ring_Get key (ring_Remove node r) = ring_Get key r"
    using ring_Remove_moves[OF ok] by blast
  have "ring_nodes r = [] \<and> ring_Get key r = ('''', False) \<or> (\<exists>n \<in> set (ring_nodes r). ring_Get key r = (n, True))"
  proof (cases "positions r = []")
    case False
    then show ?thesis using ring_Get_first[OF ok] by metis
  qed (use ring_positions_empty[OF ok] ring_Get_empty in auto)
  then show ?thesis using add remove unfolding Let_def r_def[symmetric] by blast
qed

text \<open>Replicas go to distinct machines.  \<open>GetN\<close> returns as many different nodes of the ring as asked for, or all of
  them, the first of which owns the key, and asking for fewer gives the first ones of the same list.\<close>

theorem ring_GetN_distinct:
  assumes "no_collision (vnodes_of v) (added ops)" and "0 \<le> m" and "m \<le> n"
  shows "let r = fold ring_apply ops (NewRing v); out = ring_GetN key n r in
    distinct out \<and> set out \<subseteq> set (ring_nodes r) \<and> int (length out) = min n (int (ring_Nodes r)) \<and>
    ring_GetN key m r = take (nat m) out \<and> (out = [] \<or> ring_Get key r = (hd out, True))"
proof -
  define r where "r = fold ring_apply ops (NewRing v)"
  have ok: "ring_ok r" using ring_reached(1)[OF assms(1)] by (simp add: r_def)
  define os where "os = map (owner_at (owners r)) (around (positions r) (hashKey key))"
  define all where "all = add_firsts [] os"
  have set: "set all = set (ring_nodes r)" using owner_set[OF ok] by (simp add: all_def os_def)
  have dist: "distinct all" unfolding all_def by (rule distinct_add_firsts) simp
  have "length all = length (ring_nodes r)"
    using ok by (metis set dist distinct_card ring_ok_def)
  note take = ring_GetN_take[OF ok, of n key] ring_GetN_take[OF ok, of m key]
  have out: "ring_GetN key n r = take (nat (min n (int (length (ring_nodes r))))) all"
    "ring_GetN key m r = take (nat (min m (int (length (ring_nodes r))))) all"
    using take assms(2,3) by (simp_all add: all_def os_def)
  have "ring_Get key r = (hd all, True)" if ne: "all \<noteq> []"
  proof -
    have pos: "positions r \<noteq> []" using ne set ring_positions_empty[OF ok] by (metis set_empty)
    have sorted: "sorted (positions r)" using ok by (simp add: ring_ok_def)
    obtain p ps where a: "around (positions r) (hashKey key) = p # ps"
      using pos by (metis length_around length_0_conv neq_Nil_conv)
    obtain q n where q: "first_cw (set (positions r)) (hashKey key) q" "owners r q = Some n" "ring_Get key r = (n, True)"
      using ring_Get_first[OF ok pos, of key] by metis
    have "first_cw (set (positions r)) (hashKey key) p" using first_around[OF sorted pos, of "hashKey key"] a by simp
    then have "p = q" using first_cw_unique q(1) by blast
    moreover obtain ys where "all = [owner_at (owners r) p] @ ys"
      using add_firsts_extends[of "[owner_at (owners r) p]"] by (auto simp: all_def os_def a)
    ultimately show ?thesis using q by (simp add: owner_at_def)
  qed
  then have "ring_GetN key n r = [] \<or> ring_Get key r = (hd (ring_GetN key n r), True)"
    unfolding out by (metis hd_take take_eq_Nil gr0I)
  moreover have "distinct (ring_GetN key n r)" "set (ring_GetN key n r) \<subseteq> set (ring_nodes r)"
    unfolding out set[symmetric] using dist by (simp_all add: distinct_take set_take_subset)
  moreover have "int (length (ring_GetN key n r)) = min n (int (ring_Nodes r))"
    using \<open>length all = _\<close> assms(2,3) by (simp add: out ring_Nodes_def min_def) linarith
  moreover have "ring_GetN key m r = take (nat m) (ring_GetN key n r)"
    using \<open>length all = _\<close> assms(2,3) by (auto simp: out min_def)
  ultimately show ?thesis unfolding Let_def r_def[symmetric] by blast
qed

subsection \<open>Colliding labels\<close>

text \<open>A collision of two virtual nodes loses a living node.  If the labels of two nodes have the same position, which
  32-bit positions make likely from some tens of thousands of virtual nodes on, then after the later node is
  removed the position stays on the ring without an owner: a lookup reports success and the empty node name, although the
  other node was never removed.\<close>

theorem ring_collision_orphans:
  assumes "a \<noteq> b" and "b \<noteq> ''''" and "vnode a 0 = vnode b 0"
  shows "let r = ring_Remove b (ring_Add b (ring_Add a (NewRing 1))) in
    ring_nodes r = [a] \<and> ring_Get key r = ('''', True)"
proof -
  let ?p = "vnode b 0"
  have "ring_Add a (NewRing 1) = \<lparr>virtualNodes = 1, positions = [?p], owners = [?p \<mapsto> a], ring_nodes = [a]\<rparr>"
    using assms by (simp add: ring_Add_def NewRing_def)
  then have "ring_Add b (ring_Add a (NewRing 1)) =
      \<lparr>virtualNodes = 1, positions = [?p, ?p], owners = [?p \<mapsto> b], ring_nodes = [b, a]\<rparr>"
    using assms by (simp add: ring_Add_def)
  then have r: "ring_Remove b (ring_Add b (ring_Add a (NewRing 1))) =
      \<lparr>virtualNodes = 1, positions = [?p], owners = Map.empty, ring_nodes = [a]\<rparr>"
    using assms by (simp add: ring_Remove_def owner_at_def)
  have "ring_Get key \<lparr>virtualNodes = 1, positions = [?p], owners = Map.empty, ring_nodes = [a]\<rparr> = ('''', True)"
    using go_Search_spec(1)[of 1 "\<lambda>i. [?p] ! i \<ge> hashKey key"]
    by (auto simp: ring_Get_def Let_def owner_at_def)
  then show ?thesis by (simp add: r)
qed

lemma big_word_bytes: "big_word (big_bytes 4 w) = w"
proof -
  have "big_word (rev bs) = le_word bs" for bs
    by (induction bs) (simp_all add: big_word_def or.commute)
  then show ?thesis by (simp add: big_bytes_def le_word_bytes)
qed

lemma hashKey_block:
  assumes "length (sha_pad (bytes_of s)) = 64" and "sha1_block (sha_pad (bytes_of s)) sha1_H0 = w # ws"
  shows "hashKey s = w"
  using assms by (simp add: hashKey_def sha1_Sum_def big_word_bytes big_bytes_def big_word_bytes[unfolded big_bytes_def])

text \<open>Four labels, hashed in the kernel; the last two collide.\<close>

lemma hash_a: "vnode ''a'' 0 = 0x70792EA4"
  unfolding vnode_def
  by (rule hashKey_block[where ws = "[0x401A7770, 0xBFE45882, 0x4EF6F669, 0xA6670855]"]) (simp_all add: sha_pad_eval sha1_eval)

lemma hash_b: "vnode ''b'' 0 = 0x20E798A6"
  unfolding vnode_def
  by (rule hashKey_block[where ws = "[0x1E7C6796, 0xE21AF7CC, 0x6A72CC1D, 0x860FF598]"]) (simp_all add: sha_pad_eval sha1_eval)

lemma hash_node_4226: "vnode ''node-4226'' 0 = 0xB8EBCA46"
  unfolding vnode_def
  by (rule hashKey_block[where ws = "[0x1116ECA7, 0x76E00798, 0xC3406C62, 0x201418C6]"]) (simp_all add: sha_pad_eval sha1_eval)

lemma hash_node_53676: "vnode ''node-53676'' 0 = 0xB8EBCA46"
  unfolding vnode_def
  by (rule hashKey_block[where ws = "[0x1BAC3AD9, 0x2013F5BD, 0x61B00F10, 0x71E193AD]"]) (simp_all add: sha_pad_eval sha1_eval)

theorem ring_collision_orphans_witness:
  "let r = ring_Remove ''node-53676'' (ring_Add ''node-53676'' (ring_Add ''node-4226'' (NewRing 1))) in
   ring_nodes r = [''node-4226''] \<and> ring_Get ''user:42'' r = ('''', True)"
  using ring_collision_orphans[of "''node-4226''" "''node-53676''" "''user:42''"]
  by (simp add: hash_node_4226 hash_node_53676)

lemma ab_free: "no_collision (vnodes_of 1) {''a'', ''b''}"
proof -
  have "{..<vnodes_of 1} = {0}" by (auto simp: NewRing_def)
  then show ?thesis by (auto simp: no_collision_def inj_on_def hash_a hash_b)
qed

theorem ring_minimal_movement_witness:
  "let r = fold ring_apply [RAdd ''a''] (NewRing 1) in
   ring_Get ''user:42'' (ring_Add ''b'' r) \<in> {(''a'', True), (''b'', True)} \<and>
   ring_Get ''user:42'' (ring_Remove ''b'' r) = (''a'', True)"
proof -
  have added: "insert ''b'' (added [RAdd ''a'']) = {''a'', ''b''}" by (auto simp: added_def)
  have nodes: "ring_nodes (fold ring_apply [RAdd ''a''] (NewRing 1)) = [''a'']" by (simp add: ring_Add_def NewRing_def Let_def)
  show ?thesis
    using ring_minimal_movement[of 1 "''b''" "[RAdd ''a'']" "''user:42''", unfolded added, OF ab_free]
    unfolding Let_def nodes by auto
qed

theorem ring_GetN_distinct_witness:
  "let r = fold ring_apply [RAdd ''a'', RAdd ''b''] (NewRing 1) in
   distinct (ring_GetN ''user:42'' 3 r) \<and> length (ring_GetN ''user:42'' 3 r) = 2"
proof -
  have added: "added [RAdd ''a'', RAdd ''b''] = {''a'', ''b''}" by (auto simp: added_def)
  have nodes: "ring_Nodes (fold ring_apply [RAdd ''a'', RAdd ''b''] (NewRing 1)) = 2"
    by (simp add: ring_Add_def NewRing_def Let_def ring_Nodes_def)
  show ?thesis
    using ring_GetN_distinct[of 1 "[RAdd ''a'', RAdd ''b'']" 1 3 "''user:42''", unfolded added, OF ab_free]
    unfolding Let_def nodes by simp
qed

end
