(* ===== verification/LFU.thy ===== *)
theory LFU
  imports DLink CacheSpec
begin

text \<open>
  The O(1) LFU cache (\<^verbatim>\<open>code/lfu_cache/lfu.go\<close>): buckets, one for each frequency in use, in a circular doubly linked list around
  a sentinel, and in each bucket the entries of this frequency in a doubly linked list between two sentinels.  Both
  are cells of a heap, so every pointer assignment of the source is a step, and reading through \<open>nil\<close> is \<open>None\<close>.  The
  cache refines a list of entries in the order of their eviction, from which frequency, recency and the answers follow.
\<close>

subsection \<open>The cache\<close>

record lfu_node = dlink +
  n_key :: string
  n_value :: string
  n_bucket :: ptr

record freq_bucket = dlink +
  b_freq :: int
  b_head :: ptr
  b_tail :: ptr

record LFUCache =
  lfu_capacity :: int
  lfu_items :: "(string \<times> nat) list"
  lfu_buckets :: ptr
  lfu_nodes :: "nat \<Rightarrow> lfu_node"
  lfu_bks :: "nat \<Rightarrow> freq_bucket"
  fresh_node :: nat
  fresh_bucket :: nat

definition zero_node :: lfu_node where
  "zero_node = \<lparr>prev = None, next = None, n_key = '''', n_value = '''', n_bucket = None\<rparr>"

definition zero_bucket :: freq_bucket where
  "zero_bucket = \<lparr>prev = None, next = None, b_freq = 0, b_head = None, b_tail = None\<rparr>"

definition NewLFUCache :: "int \<Rightarrow> LFUCache option" where
  "NewLFUCache cap =
     (if cap \<le> 0 then None
      else Some \<lparr>lfu_capacity = cap, lfu_items = [], lfu_buckets = Some 0, lfu_nodes = (\<lambda>_. zero_node),
        lfu_bks = (\<lambda>_. zero_bucket)(0 := zero_bucket\<lparr>prev := Some 0, next := Some 0\<rparr>), fresh_node = 0, fresh_bucket = 1\<rparr>)"

definition newBucket :: "int \<Rightarrow> LFUCache \<Rightarrow> nat \<times> LFUCache" where
  "newBucket freq c =
     (let h = fresh_node c; t = h + 1; b = fresh_bucket c in
      (b, c\<lparr>lfu_nodes := (lfu_nodes c)(h := zero_node\<lparr>next := Some t\<rparr>, t := zero_node\<lparr>prev := Some h\<rparr>),
            lfu_bks := (lfu_bks c)(b := zero_bucket\<lparr>b_freq := freq, b_head := Some h, b_tail := Some t\<rparr>),
            fresh_node := h + 2, fresh_bucket := b + 1\<rparr>))"

definition bucket_empty :: "ptr \<Rightarrow> LFUCache \<Rightarrow> bool option" where
  "bucket_empty b c = do {
     x \<leftarrow> deref b (lfu_bks c);
     h \<leftarrow> deref (b_head x) (lfu_nodes c);
     Some (next h = b_tail x) }"

definition bucket_pushFront :: "ptr \<Rightarrow> ptr \<Rightarrow> LFUCache \<Rightarrow> LFUCache option" where
  "bucket_pushFront b n c = do {
     x \<leftarrow> deref b (lfu_bks c);
     hd1 \<leftarrow> deref (b_head x) (lfu_nodes c);
     nd1 \<leftarrow> modify n (\<lambda>e. e\<lparr>next := next hd1, prev := b_head x\<rparr>) (lfu_nodes c);
     hd2 \<leftarrow> deref (b_head x) nd1;
     nd2 \<leftarrow> set_prev (next hd2) n nd1;
     nd3 \<leftarrow> set_next (b_head x) n nd2;
     nd4 \<leftarrow> modify n (\<lambda>e. e\<lparr>n_bucket := b\<rparr>) nd3;
     Some (c\<lparr>lfu_nodes := nd4\<rparr>) }"

definition bucket_remove :: "ptr \<Rightarrow> LFUCache \<Rightarrow> LFUCache option" where
  "bucket_remove n c = do {
     x \<leftarrow> deref n (lfu_nodes c);
     nd1 \<leftarrow> set_next (prev x) (next x) (lfu_nodes c);
     y \<leftarrow> deref n nd1;
     nd2 \<leftarrow> set_prev (next y) (prev y) nd1;
     Some (c\<lparr>lfu_nodes := nd2\<rparr>) }"

definition insertBucketAfter :: "ptr \<Rightarrow> int \<Rightarrow> LFUCache \<Rightarrow> (ptr \<times> LFUCache) option" where
  "insertBucketAfter after freq c =
     (case newBucket freq c of (b, c1) \<Rightarrow> do {
        x \<leftarrow> deref after (lfu_bks c1);
        bk1 \<leftarrow> modify (Some b) (\<lambda>e. e\<lparr>prev := after, next := next x\<rparr>) (lfu_bks c1);
        y \<leftarrow> deref after bk1;
        bk2 \<leftarrow> set_prev (next y) (Some b) bk1;
        bk3 \<leftarrow> set_next after (Some b) bk2;
        Some (Some b, c1\<lparr>lfu_bks := bk3\<rparr>) })"

definition removeBucket :: "ptr \<Rightarrow> LFUCache \<Rightarrow> LFUCache option" where
  "removeBucket b c = do {
     x \<leftarrow> deref b (lfu_bks c);
     bk1 \<leftarrow> set_next (prev x) (next x) (lfu_bks c);
     y \<leftarrow> deref b bk1;
     bk2 \<leftarrow> set_prev (next y) (prev y) bk1;
     Some (c\<lparr>lfu_bks := bk2\<rparr>) }"

definition promote :: "ptr \<Rightarrow> LFUCache \<Rightarrow> LFUCache option" where
  "promote n c = do {
     x \<leftarrow> deref n (lfu_nodes c);
     old \<leftarrow> deref (n_bucket x) (lfu_bks c);
     create \<leftarrow> (if next old = lfu_buckets c then Some True
       else do { nb \<leftarrow> deref (next old) (lfu_bks c); Some (b_freq nb \<noteq> b_freq old + 1) });
     (target, c1) \<leftarrow> (if create then insertBucketAfter (n_bucket x) (b_freq old + 1) c else Some (next old, c));
     c2 \<leftarrow> bucket_remove n c1;
     c3 \<leftarrow> bucket_pushFront target n c2;
     e \<leftarrow> bucket_empty (n_bucket x) c3;
     if e then removeBucket (n_bucket x) c3 else Some c3 }"

definition lfu_evict :: "LFUCache \<Rightarrow> LFUCache option" where
  "lfu_evict c = do {
     s \<leftarrow> deref (lfu_buckets c) (lfu_bks c);
     let lowest = next s;
     if lowest = lfu_buckets c then Some c
     else do {
       x \<leftarrow> deref lowest (lfu_bks c);
       t \<leftarrow> deref (b_tail x) (lfu_nodes c);
       let victim = prev t;
       c1 \<leftarrow> bucket_remove victim c;
       v \<leftarrow> deref victim (lfu_nodes c1);
       let c2 = c1\<lparr>lfu_items := AList.delete (n_key v) (lfu_items c1)\<rparr>;
       e \<leftarrow> bucket_empty lowest c2;
       if e then removeBucket lowest c2 else Some c2 } }"

definition LFU_Get :: "LFUCache cget" where
  "LFU_Get key c =
     (case map_of (lfu_items c) key of
        None \<Rightarrow> Some (('''', False), c)
      | Some n \<Rightarrow> do { c1 \<leftarrow> promote (Some n) c; Some ((n_value (lfu_nodes c1 n), True), c1) })"

definition LFU_Put :: "LFUCache cput" where
  "LFU_Put key val c =
     (case map_of (lfu_items c) key of
        Some n \<Rightarrow> promote (Some n) (c\<lparr>lfu_nodes := (lfu_nodes c)(n := (lfu_nodes c n)\<lparr>n_value := val\<rparr>)\<rparr>)
      | None \<Rightarrow> do {
          c1 \<leftarrow> (if int (length (lfu_items c)) \<ge> lfu_capacity c then lfu_evict c else Some c);
          s \<leftarrow> deref (lfu_buckets c1) (lfu_bks c1);
          create \<leftarrow> (if next s = lfu_buckets c1 then Some True
            else do { nb \<leftarrow> deref (next s) (lfu_bks c1); Some (b_freq nb \<noteq> 1) });
          (first, c2) \<leftarrow> (if create then insertBucketAfter (lfu_buckets c1) 1 c1 else Some (next s, c1));
          let n = fresh_node c2;
          c3 \<leftarrow> bucket_pushFront first (Some n)
            (c2\<lparr>lfu_nodes := (lfu_nodes c2)(n := zero_node\<lparr>n_key := key, n_value := val\<rparr>), fresh_node := n + 1\<rparr>);
          Some (c3\<lparr>lfu_items := AList.update key n (lfu_items c3)\<rparr>) })"

definition LFU_Len :: "LFUCache \<Rightarrow> int" where
  "LFU_Len c = int (length (lfu_items c))"

definition lfu_Freq :: "string \<Rightarrow> LFUCache \<Rightarrow> (int \<times> bool) option" where
  "lfu_Freq key c =
     (case map_of (lfu_items c) key of
        None \<Rightarrow> Some (0, False)
      | Some n \<Rightarrow> do { b \<leftarrow> deref (n_bucket (lfu_nodes c n)) (lfu_bks c); Some (b_freq b, True) })"

subsection \<open>The pointer operations as changes of two heaps\<close>

lemma lfu_link_fields [simp]:
  "n_key (link_in p x q nd a) = n_key (nd a)" "n_value (link_in p x q nd a) = n_value (nd a)"
  "n_bucket (link_in p x q nd a) = n_bucket (nd a)"
  "n_key (link_out p q nd a) = n_key (nd a)" "n_value (link_out p q nd a) = n_value (nd a)"
  "n_bucket (link_out p q nd a) = n_bucket (nd a)"
  by (simp_all add: link_in_def link_out_def Let_def)

lemma bucket_link_fields [simp]:
  "b_freq (link_in p x q bk a) = b_freq (bk a)" "b_head (link_in p x q bk a) = b_head (bk a)"
  "b_tail (link_in p x q bk a) = b_tail (bk a)"
  "b_freq (link_out p q bk a) = b_freq (bk a)" "b_head (link_out p q bk a) = b_head (bk a)"
  "b_tail (link_out p q bk a) = b_tail (bk a)"
  by (simp_all add: link_in_def link_out_def Let_def)

definition set_bucket :: "nat \<Rightarrow> nat \<Rightarrow> (nat \<Rightarrow> lfu_node) \<Rightarrow> nat \<Rightarrow> lfu_node" where
  "set_bucket n b nd = nd(n := (nd n)\<lparr>n_bucket := Some b\<rparr>)"

lemma set_bucket_fields [simp]:
  "next (set_bucket n b nd a) = next (nd a)" "prev (set_bucket n b nd a) = prev (nd a)"
  "n_key (set_bucket n b nd a) = n_key (nd a)" "n_value (set_bucket n b nd a) = n_value (nd a)"
  "n_bucket (set_bucket n b nd a) = (if a = n then Some b else n_bucket (nd a))"
  by (simp_all add: set_bucket_def)

lemma bucket_remove_eq:
  assumes "prev (lfu_nodes c a) = Some p" and "next (lfu_nodes c a) = Some q" and "a \<noteq> p" and "a \<noteq> q"
  shows "bucket_remove (Some a) c = Some (c\<lparr>lfu_nodes := link_out p q (lfu_nodes c)\<rparr>)"
  using assms by (simp add: bucket_remove_def link_out_def Let_def)

lemma removeBucket_eq:
  assumes "prev (lfu_bks c b) = Some p" and "next (lfu_bks c b) = Some q" and "b \<noteq> p" and "b \<noteq> q"
  shows "removeBucket (Some b) c = Some (c\<lparr>lfu_bks := link_out p q (lfu_bks c)\<rparr>)"
  using assms by (simp add: removeBucket_def link_out_def Let_def)

lemma bucket_pushFront_eq:
  assumes "b_head (lfu_bks c b) = Some h" and "next (lfu_nodes c h) = Some q" and "n \<noteq> h" and "q \<noteq> h" and "q \<noteq> n"
  shows "bucket_pushFront (Some b) (Some n) c = Some (c\<lparr>lfu_nodes := set_bucket n b (link_in h n q (lfu_nodes c))\<rparr>)"
  using assms by (simp add: bucket_pushFront_def link_in_def set_bucket_def Let_def fun_upd_twist)

lemma insertBucketAfter_eq:
  assumes "next (lfu_bks c p) = Some q" and "p \<noteq> fresh_bucket c" and "q \<noteq> fresh_bucket c"
  shows "insertBucketAfter (Some p) f c =
    Some (Some (fresh_bucket c), (snd (newBucket f c))\<lparr>lfu_bks := link_in p (fresh_bucket c) q (lfu_bks (snd (newBucket f c)))\<rparr>)"
  using assms by (simp add: insertBucketAfter_def newBucket_def link_in_def Let_def zero_bucket_def)

subsection \<open>The lists the pointers hold\<close>

text \<open>A bucket and the addresses of its entries, the most recently used first; \<open>bucket_cells\<close> are its node cells, sentinels
  included.\<close>

type_synonym bucket_list = "(nat \<times> nat list) list"

definition bucket_cells :: "LFUCache \<Rightarrow> nat \<times> nat list \<Rightarrow> nat list" where
  "bucket_cells c e = the (b_head (lfu_bks c (fst e))) # snd e @ [the (b_tail (lfu_bks c (fst e)))]"

definition bucket_ok :: "LFUCache \<Rightarrow> nat \<times> nat list \<Rightarrow> bool" where
  "bucket_ok c e \<longleftrightarrow> b_head (lfu_bks c (fst e)) \<noteq> None \<and> b_tail (lfu_bks c (fst e)) \<noteq> None \<and>
     links (lfu_nodes c) (bucket_cells c e) \<and> distinct (bucket_cells c e) \<and>
     (\<forall>a \<in> set (snd e). n_bucket (lfu_nodes c a) = Some (fst e)) \<and> 1 \<le> b_freq (lfu_bks c (fst e))"

definition all_cells :: "LFUCache \<Rightarrow> bucket_list \<Rightarrow> nat list" where
  "all_cells c Bs = concat (map (bucket_cells c) Bs)"

definition lfu_shape :: "LFUCache \<Rightarrow> bucket_list \<Rightarrow> bool" where
  "lfu_shape c Bs \<longleftrightarrow> lfu_buckets c = Some 0 \<and> lcirc (lfu_bks c) 0 (map fst Bs) \<and> (\<forall>e \<in> set Bs. bucket_ok c e) \<and>
     distinct (all_cells c Bs) \<and> (\<forall>x \<in> set (all_cells c Bs). x < fresh_node c) \<and>
     0 < fresh_bucket c \<and> (\<forall>b \<in> fst ` set Bs. b < fresh_bucket c) \<and>
     sorted_wrt (<) (map (\<lambda>e. b_freq (lfu_bks c (fst e))) Bs)"

text \<open>An operation that leaves the cells of a bucket alone leaves the bucket alone.\<close>

definition same_cells :: "LFUCache \<Rightarrow> LFUCache \<Rightarrow> nat list \<Rightarrow> bool" where
  "same_cells c d xs \<longleftrightarrow> (\<forall>x \<in> set xs. next (lfu_nodes d x) = next (lfu_nodes c x) \<and>
     prev (lfu_nodes d x) = prev (lfu_nodes c x) \<and> n_bucket (lfu_nodes d x) = n_bucket (lfu_nodes c x))"

definition same_bucket :: "LFUCache \<Rightarrow> LFUCache \<Rightarrow> nat \<Rightarrow> bool" where
  "same_bucket c d b \<longleftrightarrow> b_head (lfu_bks d b) = b_head (lfu_bks c b) \<and> b_tail (lfu_bks d b) = b_tail (lfu_bks c b) \<and>
     b_freq (lfu_bks d b) = b_freq (lfu_bks c b)"

lemma bucket_cells_same: "same_bucket c d (fst e) \<Longrightarrow> bucket_cells d e = bucket_cells c e"
  by (simp add: bucket_cells_def same_bucket_def)

lemma bucket_ok_same:
  assumes ok: "bucket_ok c e" and cells: "same_cells c d (bucket_cells c e)" and b: "same_bucket c d (fst e)"
  shows "bucket_ok d e"
proof -
  have "links (lfu_nodes d) (bucket_cells c e) = links (lfu_nodes c) (bucket_cells c e)"
  proof (rule links_cong)
    fix a assume "a \<in> set (tl (bucket_cells c e))"
    then have "a \<in> set (bucket_cells c e)" by (simp add: bucket_cells_def)
    then show "prev (lfu_nodes d a) = prev (lfu_nodes c a)" using cells by (simp add: same_cells_def)
  qed (use cells in \<open>auto simp: same_cells_def dest: in_set_butlastD\<close>)
  moreover have "set (snd e) \<subseteq> set (bucket_cells c e)" by (auto simp: bucket_cells_def)
  ultimately show ?thesis using ok cells b
    unfolding bucket_ok_def bucket_cells_same[OF b] by (auto simp: same_cells_def same_bucket_def)
qed

lemma all_cells_same: "(\<And>b. b \<in> fst ` set Bs \<Longrightarrow> same_bucket c d b) \<Longrightarrow> all_cells d Bs = all_cells c Bs"
  by (induction Bs) (auto simp: all_cells_def bucket_cells_same)

lemma all_cells_append [simp]: "all_cells c (Us @ Vs) = all_cells c Us @ all_cells c Vs"
  "all_cells c (e # Vs) = bucket_cells c e @ all_cells c Vs" "all_cells c [] = []"
  by (simp_all add: all_cells_def)

lemma cells_in_all: "e \<in> set Bs \<Longrightarrow> set (bucket_cells c e) \<subseteq> set (all_cells c Bs)"
  by (auto simp: all_cells_def)

text \<open>Changing the entries of one bucket, with the list of buckets as it is.\<close>

lemma shape_change_bucket:
  assumes shape: "lfu_shape c (Us @ (b, ns) # Vs)"
    and d: "lfu_buckets d = lfu_buckets c" "lfu_bks d = lfu_bks c" "fresh_bucket d = fresh_bucket c" "fresh_node c \<le> fresh_node d"
    and others: "same_cells c d (all_cells c Us @ all_cells c Vs)"
    and mine: "bucket_ok d (b, ms)"
    and new: "set ms - set ns \<subseteq> {..<fresh_node d} - set (all_cells c (Us @ (b, ns) # Vs))"
  shows "lfu_shape d (Us @ (b, ms) # Vs)"
proof -
  have same: "same_bucket c d x" for x by (simp add: same_bucket_def d)
  have cells: "all_cells d Bs = all_cells c Bs" "bucket_cells d e = bucket_cells c e" for Bs e
    using same by (simp_all add: all_cells_same bucket_cells_same)
  have ok: "bucket_ok d e" if "e \<in> set Us \<union> set Vs" for e
  proof (rule bucket_ok_same[OF _ _ same])
    show "bucket_ok c e" using shape that by (auto simp: lfu_shape_def)
    show "same_cells c d (bucket_cells c e)"
      using others that cells_in_all[of e Us c] cells_in_all[of e Vs c] by (auto simp: same_cells_def)
  qed
  have dist: "distinct (all_cells c (Us @ (b, ns) # Vs))" using shape by (simp add: lfu_shape_def)
  have parts: "set (bucket_cells c (b, ms)) \<subseteq> set (bucket_cells c (b, ns)) \<union> (set ms - set ns)"
    by (auto simp: bucket_cells_def)
  have "set (bucket_cells c (b, ms)) \<inter> (set (all_cells c Us) \<union> set (all_cells c Vs)) = {}"
    using parts dist new by fastforce
  then have "distinct (all_cells c (Us @ (b, ms) # Vs))"
    using dist mine[unfolded bucket_ok_def cells] by auto
  moreover have "x < fresh_node d" if "x \<in> set (all_cells c (Us @ (b, ms) # Vs))" for x
  proof (cases "x \<in> set (all_cells c (Us @ (b, ns) # Vs))")
    case True
    then have "x < fresh_node c" using shape unfolding lfu_shape_def by blast
    then show ?thesis using d(4) by simp
  next
    case False
    then have "x \<in> set ms - set ns" using that parts by auto
    then show ?thesis using new by blast
  qed
  moreover have "\<forall>e \<in> set (Us @ (b, ms) # Vs). bucket_ok d e" using ok mine by auto
  moreover have "map fst (Us @ (b, ms) # Vs) = map fst (Us @ (b, ns) # Vs)"
    "fst ` set (Us @ (b, ms) # Vs) = fst ` set (Us @ (b, ns) # Vs)"
    "map (\<lambda>e. b_freq (lfu_bks c (fst e))) (Us @ (b, ms) # Vs) = map (\<lambda>e. b_freq (lfu_bks c (fst e))) (Us @ (b, ns) # Vs)"
    by simp_all
  ultimately show ?thesis using shape unfolding lfu_shape_def cells d by (metis (no_types, lifting))
qed

lemma bucket_parts:
  assumes "bucket_ok c (b, ns)"
  obtains h t where "b_head (lfu_bks c b) = Some h" and "b_tail (lfu_bks c b) = Some t"
    and "bucket_cells c (b, ns) = h # ns @ [t]" and "lpath (lfu_nodes c) h t ns"
proof -
  obtain h t where ht: "b_head (lfu_bks c b) = Some h" "b_tail (lfu_bks c b) = Some t"
    using assms by (auto simp: bucket_ok_def)
  then have "bucket_cells c (b, ns) = h # ns @ [t]" by (simp add: bucket_cells_def)
  moreover from this have "lpath (lfu_nodes c) h t ns" using assms by (simp add: bucket_ok_def lpath_def)
  ultimately show thesis using that ht by blast
qed

lemma bucket_okI:
  "b_head (lfu_bks c b) = Some h \<Longrightarrow> b_tail (lfu_bks c b) = Some t \<Longrightarrow> lpath (lfu_nodes c) h t ns \<Longrightarrow>
   \<forall>a \<in> set ns. n_bucket (lfu_nodes c a) = Some b \<Longrightarrow> 1 \<le> b_freq (lfu_bks c b) \<Longrightarrow> bucket_ok c (b, ns)"
  by (simp add: bucket_ok_def bucket_cells_def lpath_def)

lemma shape_bucket: "lfu_shape c (Us @ (b, ns) # Vs) \<Longrightarrow> bucket_ok c (b, ns)"
  by (simp add: lfu_shape_def)

lemma shape_disjoint:
  assumes "lfu_shape c (Us @ (b, ns) # Vs)" and "x \<in> set (all_cells c Us @ all_cells c Vs)"
  shows "x \<notin> set (bucket_cells c (b, ns))"
  using assms by (auto simp: lfu_shape_def)

text \<open>Taking an entry out of its bucket.\<close>

lemma shape_remove:
  assumes shape: "lfu_shape c (Us @ (b, us @ a # vs) # Vs)"
  obtains nd where "bucket_remove (Some a) c = Some (c\<lparr>lfu_nodes := nd\<rparr>)"
    and "lfu_shape (c\<lparr>lfu_nodes := nd\<rparr>) (Us @ (b, us @ vs) # Vs)"
    and "\<And>x. n_key (nd x) = n_key (lfu_nodes c x) \<and> n_value (nd x) = n_value (lfu_nodes c x) \<and>
      n_bucket (nd x) = n_bucket (lfu_nodes c x)"
proof -
  have ok: "bucket_ok c (b, us @ a # vs)" by (rule shape_bucket[OF shape])
  then obtain h t where ht: "b_head (lfu_bks c b) = Some h" "b_tail (lfu_bks c b) = Some t"
    "bucket_cells c (b, us @ a # vs) = h # (us @ a # vs) @ [t]" "lpath (lfu_nodes c) h t (us @ a # vs)"
    by (rule bucket_parts)
  obtain p q where pq: "prev (lfu_nodes c a) = Some p" "next (lfu_nodes c a) = Some q" "a \<noteq> p" "a \<noteq> q"
    "lpath (link_out p q (lfu_nodes c)) h t (us @ vs)" "{p, q} \<subseteq> set (h # us @ vs @ [t])"
    by (rule lpath_out[OF ht(4)])
  let ?nd = "link_out p q (lfu_nodes c)"
  have "lfu_shape (c\<lparr>lfu_nodes := ?nd\<rparr>) (Us @ (b, us @ vs) # Vs)"
  proof (rule shape_change_bucket[OF shape])
    have "x \<noteq> p \<and> x \<noteq> q" if "x \<in> set (all_cells c Us @ all_cells c Vs)" for x
      using shape_disjoint[OF shape that] pq(6) unfolding ht(3) by auto
    then show "same_cells c (c\<lparr>lfu_nodes := ?nd\<rparr>) (all_cells c Us @ all_cells c Vs)" by (auto simp: same_cells_def)
    show "bucket_ok (c\<lparr>lfu_nodes := ?nd\<rparr>) (b, us @ vs)"
      using ok ht pq(5) by (intro bucket_okI[of _ _ h t]) (auto simp: bucket_ok_def)
  qed auto
  then show thesis using that bucket_remove_eq[OF pq(1-4)] by simp
qed

text \<open>Putting a free node in front of a bucket.\<close>

lemma shape_push:
  assumes shape: "lfu_shape c (Us @ (b, ns) # Vs)" and free: "n \<notin> set (all_cells c (Us @ (b, ns) # Vs))" "n < fresh_node c"
  obtains nd where "bucket_pushFront (Some b) (Some n) c = Some (c\<lparr>lfu_nodes := nd\<rparr>)"
    and "lfu_shape (c\<lparr>lfu_nodes := nd\<rparr>) (Us @ (b, n # ns) # Vs)"
    and "\<And>x. n_key (nd x) = n_key (lfu_nodes c x) \<and> n_value (nd x) = n_value (lfu_nodes c x)"
proof -
  have ok: "bucket_ok c (b, ns)" by (rule shape_bucket[OF shape])
  then obtain h t where ht: "b_head (lfu_bks c b) = Some h" "b_tail (lfu_bks c b) = Some t"
    "bucket_cells c (b, ns) = h # ns @ [t]" "lpath (lfu_nodes c) h t ns" by (rule bucket_parts)
  have n: "n \<notin> set (h # ns @ [t])" using free(1) by (simp add: ht(3)[symmetric])
  obtain q where q: "next (lfu_nodes c h) = Some q" "q \<noteq> h" "q \<noteq> n" "lpath (link_in h n q (lfu_nodes c)) h t (n # ns)"
    "q \<in> set (ns @ [t])" by (rule lpath_in[OF ht(4) n])
  let ?nd = "set_bucket n b (link_in h n q (lfu_nodes c))"
  have nh: "n \<noteq> h" using n by simp
  have "links ?nd (h # (n # ns) @ [t]) = links (link_in h n q (lfu_nodes c)) (h # (n # ns) @ [t])"
    by (rule links_cong) simp_all
  then have path: "lpath ?nd h t (n # ns)" using q(4) by (simp add: lpath_def)
  have "lfu_shape (c\<lparr>lfu_nodes := ?nd\<rparr>) (Us @ (b, n # ns) # Vs)"
  proof (rule shape_change_bucket[OF shape])
    have "x \<noteq> h \<and> x \<noteq> q \<and> x \<noteq> n" if "x \<in> set (all_cells c Us @ all_cells c Vs)" for x
      using shape_disjoint[OF shape that] q(5) free(1) that unfolding ht(3) by auto
    then show "same_cells c (c\<lparr>lfu_nodes := ?nd\<rparr>) (all_cells c Us @ all_cells c Vs)"
      using nh q(3) by (auto simp: same_cells_def)
    show "bucket_ok (c\<lparr>lfu_nodes := ?nd\<rparr>) (b, n # ns)"
      using ok ht path by (intro bucket_okI[of _ _ h t]) (auto simp: bucket_ok_def)
    show "set (n # ns) - set ns \<subseteq> {..<fresh_node (c\<lparr>lfu_nodes := ?nd\<rparr>)} - set (all_cells c (Us @ (b, ns) # Vs))"
      using free by auto
  qed simp_all
  then show thesis using that[of ?nd] bucket_pushFront_eq[OF ht(1) q(1) nh q(2,3)] by simp
qed

lemma shape_empty:
  assumes "lfu_shape c (Us @ (b, ns) # Vs)"
  shows "bucket_empty (Some b) c = Some (ns = [])"
proof -
  obtain h t where ht: "b_head (lfu_bks c b) = Some h" "b_tail (lfu_bks c b) = Some t"
    "lpath (lfu_nodes c) h t ns" using shape_bucket[OF assms] by (rule bucket_parts)
  then show ?thesis by (cases ns) (auto simp: bucket_empty_def lpath_def)
qed

text \<open>Adding and dropping a bucket.\<close>

lemma shape_sets: "lfu_shape c Bs \<Longrightarrow> e \<in> set Bs \<Longrightarrow> fst e < fresh_bucket c \<and> bucket_ok c e \<and> fst e \<noteq> 0"
  by (auto simp: lfu_shape_def lcirc_def)

lemma shape_drop_bucket:
  assumes shape: "lfu_shape c (Us @ (b, []) # Vs)"
  obtains bk where "removeBucket (Some b) c = Some (c\<lparr>lfu_bks := bk\<rparr>)" and "lfu_shape (c\<lparr>lfu_bks := bk\<rparr>) (Us @ Vs)"
    and "\<And>x. b_freq (bk x) = b_freq (lfu_bks c x)"
proof -
  have circ: "lcirc (lfu_bks c) 0 (map fst Us @ b # map fst Vs)" using shape by (simp add: lfu_shape_def)
  obtain p q where pq: "prev (lfu_bks c b) = Some p" "next (lfu_bks c b) = Some q" "b \<noteq> p" "b \<noteq> q"
    "lcirc (link_out p q (lfu_bks c)) 0 (map fst Us @ map fst Vs)" by (rule lcirc_out[OF circ])
  let ?d = "c\<lparr>lfu_bks := link_out p q (lfu_bks c)\<rparr>"
  have same: "same_bucket c ?d x" for x by (simp add: same_bucket_def)
  have cells: "all_cells ?d Bs = all_cells c Bs" for Bs using same by (intro all_cells_same)
  have ok: "bucket_ok ?d e" if "e \<in> set (Us @ Vs)" for e
    by (rule bucket_ok_same[OF _ _ same]) (use shape that in \<open>auto simp: lfu_shape_def same_cells_def\<close>)
  have "lfu_shape ?d (Us @ Vs)"
    using shape pq(5) ok unfolding lfu_shape_def cells by (auto simp: sorted_wrt_append)
  then show thesis using that[of "link_out p q (lfu_bks c)"] removeBucket_eq[OF pq(1-4)] by simp
qed

lemma shape_add_bucket:
  assumes shape: "lfu_shape c (Us @ Vs)" and p: "p = last (0 # map fst Us)" and f: "1 \<le> f"
    and freq: "\<And>e. e \<in> set Us \<Longrightarrow> b_freq (lfu_bks c (fst e)) < f" "\<And>e. e \<in> set Vs \<Longrightarrow> f < b_freq (lfu_bks c (fst e))"
  obtains d where "insertBucketAfter (Some p) f c = Some (Some (fresh_bucket c), d)"
    and "lfu_shape d (Us @ (fresh_bucket c, []) # Vs)" and "b_freq (lfu_bks d (fresh_bucket c)) = f"
    and "\<And>x. x < fresh_node c \<Longrightarrow> lfu_nodes d x = lfu_nodes c x"
    and "\<And>x. x \<noteq> fresh_bucket c \<Longrightarrow> b_freq (lfu_bks d x) = b_freq (lfu_bks c x)"
    and "fresh_node c \<le> fresh_node d" and "lfu_items d = lfu_items c" and "lfu_capacity d = lfu_capacity c"
    and "\<And>x. x \<in> set (all_cells d (Us @ (fresh_bucket c, []) # Vs)) \<longleftrightarrow>
      x \<in> set (all_cells c (Us @ Vs)) \<or> x \<in> {fresh_node c, Suc (fresh_node c)}"
proof -
  let ?b = "fresh_bucket c" and ?h = "fresh_node c" and ?c = "snd (newBucket f c)"
  have circ: "lcirc (lfu_bks c) 0 (map fst Us @ map fst Vs)" using shape by (simp add: lfu_shape_def)
  have bound: "\<forall>b \<in> fst ` set (Us @ Vs). b < ?b" "0 < ?b" using shape unfolding lfu_shape_def by blast+
  have ids: "set (0 # map fst Us @ map fst Vs) = insert 0 (fst ` set (Us @ Vs))" by (auto simp: image_Un)
  have bnew: "?b \<notin> set (0 # map fst Us @ map fst Vs)" unfolding ids using bound by (metis insert_iff less_irrefl)
  have "p \<in> set (0 # map fst Us)" unfolding p by (rule last_in_set) simp
  then have pb: "p \<noteq> ?b" using bnew by auto
  have links: "links (lfu_bks ?c) (0 # (map fst Us @ map fst Vs) @ [0]) = links (lfu_bks c) (0 # (map fst Us @ map fst Vs) @ [0])"
    by (rule links_cong) (use bnew in \<open>auto simp: newBucket_def Let_def dest: in_set_butlastD\<close>)
  then have circ': "lcirc (lfu_bks ?c) 0 (map fst Us @ map fst Vs)" using circ by (simp add: lcirc_def)
  obtain q where q: "next (lfu_bks ?c p) = Some q" "q \<noteq> ?b" "lcirc (link_in p ?b q (lfu_bks ?c)) 0 (map fst Us @ ?b # map fst Vs)"
    by (rule lcirc_in[OF circ' bnew p])
  define d where "d = ?c\<lparr>lfu_bks := link_in p ?b q (lfu_bks ?c)\<rparr>"
  have "next (lfu_bks c p) = Some q" using q(1) pb by (simp add: newBucket_def Let_def)
  then have ins: "insertBucketAfter (Some p) f c = Some (Some ?b, d)"
    unfolding d_def by (rule insertBucketAfter_eq[OF _ pb q(2)])
  have nodes: "lfu_nodes d x = lfu_nodes c x" if "x < ?h" for x using that by (simp add: d_def newBucket_def Let_def)
  have old: "same_bucket c d x" if "x \<noteq> ?b" for x using that by (simp add: same_bucket_def d_def newBucket_def Let_def)
  have mem: "fst e \<noteq> ?b" if "e \<in> set (Us @ Vs)" for e using that bnew unfolding ids by (metis imageI insertI2)
  have cells: "all_cells d Us = all_cells c Us" "all_cells d Vs = all_cells c Vs"
    using mem by (intro all_cells_same old; auto)+
  have new: "b_head (lfu_bks d ?b) = Some ?h" "b_tail (lfu_bks d ?b) = Some (Suc ?h)" "b_freq (lfu_bks d ?b) = f"
    by (simp_all add: d_def newBucket_def Let_def)
  have newcells: "bucket_cells d (?b, []) = [?h, Suc ?h]" by (simp add: bucket_cells_def new)
  have newok: "bucket_ok d (?b, [])"
    by (rule bucket_okI[OF new(1,2)]) (use f in \<open>simp_all add: new lpath_def d_def newBucket_def Let_def\<close>)
  have below: "x < ?h" if "x \<in> set (all_cells c (Us @ Vs))" for x using shape that by (simp add: lfu_shape_def)
  have oldok: "bucket_ok d e" if e: "e \<in> set (Us @ Vs)" for e
  proof (rule bucket_ok_same[OF _ _ old[OF mem[OF e]]])
    show "bucket_ok c e" using shape e by (simp add: lfu_shape_def)
    show "same_cells c d (bucket_cells c e)"
      using cells_in_all[OF e, of c] below nodes by (auto simp: same_cells_def)
  qed
  have freqs: "b_freq (lfu_bks d (fst e)) = b_freq (lfu_bks c (fst e))" if "e \<in> set (Us @ Vs)" for e
    using old[OF mem[OF that]] by (simp add: same_bucket_def)
  have sorted: "sorted_wrt (<) (map (\<lambda>e. b_freq (lfu_bks d (fst e))) (Us @ (?b, []) # Vs))"
  proof -
    have s: "sorted_wrt (<) (map (\<lambda>e. b_freq (lfu_bks c (fst e))) (Us @ Vs))" using shape by (simp add: lfu_shape_def)
    have same: "map (\<lambda>e. b_freq (lfu_bks d (fst e))) Us = map (\<lambda>e. b_freq (lfu_bks c (fst e))) Us"
      "map (\<lambda>e. b_freq (lfu_bks d (fst e))) Vs = map (\<lambda>e. b_freq (lfu_bks c (fst e))) Vs"
      by (rule map_cong; simp add: freqs)+
    have eq: "map (\<lambda>e. b_freq (lfu_bks d (fst e))) (Us @ (?b, []) # Vs) =
        map (\<lambda>e. b_freq (lfu_bks c (fst e))) Us @ f # map (\<lambda>e. b_freq (lfu_bks c (fst e))) Vs"
      by (simp add: same new)
    show ?thesis unfolding eq using s freq by (auto simp: sorted_wrt_append)
  qed
  have out: "?h \<notin> set (all_cells c Us) \<union> set (all_cells c Vs)" "Suc ?h \<notin> set (all_cells c Us) \<union> set (all_cells c Vs)"
    using below[of ?h] below[of "Suc ?h"] by auto
  have "distinct (all_cells c (Us @ Vs))" using shape by (simp add: lfu_shape_def)
  then have dist: "distinct (all_cells d (Us @ (?b, []) # Vs))" using out by (simp add: cells newcells)
  have room: "x < fresh_node d" if "x \<in> set (all_cells d (Us @ (?b, []) # Vs))" for x
  proof -
    have "x \<in> set (all_cells c (Us @ Vs)) \<or> x = ?h \<or> x = Suc ?h" using that by (auto simp: cells newcells)
    moreover have "fresh_node d = ?h + 2" by (simp add: d_def newBucket_def Let_def)
    ultimately show ?thesis using below[of x] by auto
  qed
  have "lfu_shape d (Us @ (?b, []) # Vs)"
    unfolding lfu_shape_def
  proof (intro conjI)
    show "lfu_buckets d = Some 0" using shape by (simp add: d_def newBucket_def Let_def lfu_shape_def)
    show "lcirc (lfu_bks d) 0 (map fst (Us @ (?b, []) # Vs))" using q(3) by (simp add: d_def)
    show "\<forall>e \<in> set (Us @ (?b, []) # Vs). bucket_ok d e" using newok oldok by auto
    show "0 < fresh_bucket d" "\<forall>b \<in> fst ` set (Us @ (?b, []) # Vs). b < fresh_bucket d"
      using shape by (auto simp: lfu_shape_def d_def newBucket_def Let_def less_Suc_eq)
  qed (use dist sorted room in blast)+
  moreover have "x \<in> set (all_cells d (Us @ (?b, []) # Vs)) \<longleftrightarrow> x \<in> set (all_cells c (Us @ Vs)) \<or> x \<in> {?h, Suc ?h}" for x
    by (auto simp: cells newcells)
  ultimately show thesis
    using that[OF ins _ new(3) nodes] old by (auto simp: same_bucket_def d_def newBucket_def Let_def)
qed

subsection \<open>The entries in the order of their eviction\<close>

text \<open>What a client may know of the cache: key, value and number of uses of each entry, the next victim first.  A used
  entry moves behind all the entries that are not used more often.\<close>

type_synonym lfu_list = "(string \<times> string \<times> int) list"

abbreviation uses :: "string \<times> string \<times> int \<Rightarrow> int" where
  "uses x \<equiv> snd (snd x)"

definition place :: "string \<times> string \<times> int \<Rightarrow> lfu_list \<Rightarrow> lfu_list" where
  "place e xs = takeWhile (\<lambda>x. uses x \<le> uses e) xs @ e # dropWhile (\<lambda>x. uses x \<le> uses e) xs"

definition spec_get :: "string \<Rightarrow> lfu_list \<Rightarrow> (string \<times> bool) \<times> lfu_list" where
  "spec_get k xs = (case map_of xs k of
     None \<Rightarrow> (('''', False), xs)
   | Some (v, f) \<Rightarrow> ((v, True), place (k, v, f + 1) (AList.delete k xs)))"

definition spec_put :: "int \<Rightarrow> string \<Rightarrow> string \<Rightarrow> lfu_list \<Rightarrow> lfu_list" where
  "spec_put cap k v xs = (case map_of xs k of
     Some (_, f) \<Rightarrow> place (k, v, f + 1) (AList.delete k xs)
   | None \<Rightarrow> place (k, v, 1) (if int (length xs) \<ge> cap then tl xs else xs))"

lemma place_split:
  "\<forall>x \<in> set xs. uses x \<le> f \<Longrightarrow> \<forall>y \<in> set ys. f < uses y \<Longrightarrow> place (k, v, f) (xs @ ys) = xs @ (k, v, f) # ys"
  by (cases ys) (auto simp: place_def)

definition seg :: "LFUCache \<Rightarrow> nat \<times> nat list \<Rightarrow> lfu_list" where
  "seg c e = map (\<lambda>a. (n_key (lfu_nodes c a), n_value (lfu_nodes c a), b_freq (lfu_bks c (fst e)))) (rev (snd e))"

definition lfu_abs :: "LFUCache \<Rightarrow> bucket_list \<Rightarrow> lfu_list" where
  "lfu_abs c Bs = concat (map (seg c) Bs)"

abbreviation addrs :: "bucket_list \<Rightarrow> nat list" where
  "addrs Bs \<equiv> concat (map snd Bs)"

definition lfu_rep :: "LFUCache \<Rightarrow> bucket_list \<Rightarrow> bool" where
  "lfu_rep c Bs \<longleftrightarrow> lfu_shape c Bs \<and> (\<forall>e \<in> set Bs. snd e \<noteq> []) \<and> distinct (map fst (lfu_items c)) \<and>
     set (lfu_items c) = (\<lambda>a. (n_key (lfu_nodes c a), a)) ` set (addrs Bs) \<and>
     0 < lfu_capacity c \<and> int (length (addrs Bs)) \<le> lfu_capacity c"

lemma lfu_abs_simps [simp]: "lfu_abs c (Us @ Vs) = lfu_abs c Us @ lfu_abs c Vs" "lfu_abs c (e # Vs) = seg c e @ lfu_abs c Vs"
  "lfu_abs c [] = []" "seg c (b, []) = []"
  "seg c (b, a # ns) = seg c (b, ns) @ [(n_key (lfu_nodes c a), n_value (lfu_nodes c a), b_freq (lfu_bks c b))]"
  by (simp_all add: lfu_abs_def seg_def)

lemma seg_cong:
  "b_freq (lfu_bks d b) = b_freq (lfu_bks c b) \<Longrightarrow>
   \<forall>a \<in> set ns. n_key (lfu_nodes d a) = n_key (lfu_nodes c a) \<and> n_value (lfu_nodes d a) = n_value (lfu_nodes c a) \<Longrightarrow>
   seg d (b, ns) = seg c (b, ns)"
  by (simp add: seg_def)

lemma abs_cong:
  assumes "\<forall>b \<in> fst ` set Bs. b_freq (lfu_bks d b) = b_freq (lfu_bks c b)"
    and "\<forall>a \<in> set (addrs Bs). n_key (lfu_nodes d a) = n_key (lfu_nodes c a) \<and> n_value (lfu_nodes d a) = n_value (lfu_nodes c a)"
  shows "lfu_abs d Bs = lfu_abs c Bs"
  using assms by (induction Bs) (auto intro: seg_cong)

lemma shape_addrs:
  assumes "lfu_shape c Bs"
  shows "distinct (addrs Bs)" and "set (addrs Bs) \<subseteq> set (all_cells c Bs)"
proof -
  have sub: "set (addrs Bs) \<subseteq> set (all_cells c Bs)" for Bs by (auto simp: all_cells_def bucket_cells_def)
  show "set (addrs Bs) \<subseteq> set (all_cells c Bs)" by (rule sub)
  have "distinct (all_cells c Bs) \<Longrightarrow> distinct (addrs Bs)"
  proof (induction Bs)
    case (Cons e Bs)
    then show ?case using sub[of Bs] by (auto simp: bucket_cells_def)
  qed simp
  then show "distinct (addrs Bs)" using assms by (simp add: lfu_shape_def)
qed

lemma shape_freqs:
  assumes "lfu_shape c (Us @ (b, ns) # Vs)"
  shows "\<And>x. x \<in> set (lfu_abs c Us) \<Longrightarrow> uses x < b_freq (lfu_bks c b)"
    and "\<And>x. x \<in> set (lfu_abs c Vs) \<Longrightarrow> b_freq (lfu_bks c b) < uses x"
    and "\<And>x. x \<in> set (seg c (b, ms)) \<Longrightarrow> uses x = b_freq (lfu_bks c b)"
    and "\<And>e. e \<in> set Us \<Longrightarrow> b_freq (lfu_bks c (fst e)) < b_freq (lfu_bks c b)"
    and "\<And>e. e \<in> set Vs \<Longrightarrow> b_freq (lfu_bks c b) < b_freq (lfu_bks c (fst e))"
  using assms by (auto simp: lfu_shape_def sorted_wrt_append lfu_abs_def seg_def)

subsection \<open>Finding or making the bucket of a frequency\<close>

definition ensure_bucket :: "ptr \<Rightarrow> int \<Rightarrow> LFUCache \<Rightarrow> (ptr \<times> LFUCache) option" where
  "ensure_bucket p f c = do {
     x \<leftarrow> deref p (lfu_bks c);
     create \<leftarrow> (if next x = lfu_buckets c then Some True
       else do { nb \<leftarrow> deref (next x) (lfu_bks c); Some (b_freq nb \<noteq> f) });
     if create then insertBucketAfter p f c else Some (next x, c) }"

lemma ensure_bucket_shape:
  assumes shape: "lfu_shape c (Us @ Vs)" and p: "p = last (0 # map fst Us)" and f: "1 \<le> f"
    and freq: "\<And>e. e \<in> set Us \<Longrightarrow> b_freq (lfu_bks c (fst e)) < f" "\<And>e. e \<in> set Vs \<Longrightarrow> f \<le> b_freq (lfu_bks c (fst e))"
  obtains b ns Ws d where "ensure_bucket (Some p) f c = Some (Some b, d)" and "lfu_shape d (Us @ (b, ns) # Ws)"
    and "b_freq (lfu_bks d b) = f" and "lfu_abs d (Us @ (b, ns) # Ws) = lfu_abs c (Us @ Vs)"
    and "addrs (Us @ (b, ns) # Ws) = addrs (Us @ Vs)" and "set Ws \<subseteq> set Vs"
    and "\<And>x. x < fresh_node c \<Longrightarrow> lfu_nodes d x = lfu_nodes c x" and "fresh_node c \<le> fresh_node d"
    and "lfu_items d = lfu_items c" and "lfu_capacity d = lfu_capacity c"
    and "\<And>x. x \<in> set (all_cells d (Us @ (b, ns) # Ws)) \<Longrightarrow> x \<in> set (all_cells c (Us @ Vs)) \<or> fresh_node c \<le> x"
    and "\<And>e. e \<in> set (Us @ Vs) \<Longrightarrow> b_freq (lfu_bks d (fst e)) = b_freq (lfu_bks c (fst e))"
proof -
  have circ: "lcirc (lfu_bks c) 0 (map fst Us @ map fst Vs)" and sent: "lfu_buckets c = Some 0"
    using shape by (simp_all add: lfu_shape_def)
  have next_p: "next (lfu_bks c p) = Some (hd (map fst Vs @ [0]))"
  proof (cases Us rule: rev_cases)
    case Nil
    then show ?thesis using lcirc_first[OF circ] p by simp
  next
    case (snoc Us' e)
    then show ?thesis using lcirc_next[of "lfu_bks c" 0 "map fst Us'" "fst e" "map fst Vs"] circ p by simp
  qed
  show thesis
  proof (cases "\<exists>b ns Ws. Vs = (b, ns) # Ws \<and> b_freq (lfu_bks c b) = f")
    case True
    then obtain b ns Ws where Vs: "Vs = (b, ns) # Ws" "b_freq (lfu_bks c b) = f" by blast
    have "b \<noteq> 0" using shape_sets[OF shape, of "(b, ns)"] Vs by simp
    then have "ensure_bucket (Some p) f c = Some (Some b, c)" using next_p Vs sent by (simp add: ensure_bucket_def)
    then show thesis using that[of b c ns Ws] shape Vs by auto
  next
    case False
    have gt: "f < b_freq (lfu_bks c (fst e))" if e: "e \<in> set Vs" for e
    proof (cases Vs)
      case (Cons v Ws)
      have "b_freq (lfu_bks c (fst v)) \<noteq> f" using False Cons by (cases v) auto
      then have "f < b_freq (lfu_bks c (fst v))" using freq(2)[of v] Cons by simp
      moreover have "b_freq (lfu_bks c (fst v)) \<le> b_freq (lfu_bks c (fst e))"
        using shape e Cons by (auto simp: lfu_shape_def sorted_wrt_append)
      ultimately show ?thesis by simp
    qed (use e in simp)
    obtain d where d: "insertBucketAfter (Some p) f c = Some (Some (fresh_bucket c), d)"
      "lfu_shape d (Us @ (fresh_bucket c, []) # Vs)" "b_freq (lfu_bks d (fresh_bucket c)) = f"
      "\<And>x. x < fresh_node c \<Longrightarrow> lfu_nodes d x = lfu_nodes c x"
      "\<And>x. x \<noteq> fresh_bucket c \<Longrightarrow> b_freq (lfu_bks d x) = b_freq (lfu_bks c x)"
      "fresh_node c \<le> fresh_node d" "lfu_items d = lfu_items c" "lfu_capacity d = lfu_capacity c"
      "\<And>x. x \<in> set (all_cells d (Us @ (fresh_bucket c, []) # Vs)) \<longleftrightarrow>
        x \<in> set (all_cells c (Us @ Vs)) \<or> x \<in> {fresh_node c, Suc (fresh_node c)}"
      using shape_add_bucket[OF shape p f freq(1) gt] by blast
    have "ensure_bucket (Some p) f c = insertBucketAfter (Some p) f c"
      using next_p sent False by (cases Vs) (auto simp: ensure_bucket_def)
    moreover have old: "b_freq (lfu_bks d (fst e)) = b_freq (lfu_bks c (fst e))" if "e \<in> set (Us @ Vs)" for e
      using shape_sets[OF shape that] d(5)[of "fst e"] by simp
    have "lfu_abs d (Us @ Vs) = lfu_abs c (Us @ Vs)"
    proof (rule abs_cong)
      have "a < fresh_node c" if "a \<in> set (addrs (Us @ Vs))" for a
        using shape that shape_addrs(2)[OF shape] unfolding lfu_shape_def by blast
      then show "\<forall>a \<in> set (addrs (Us @ Vs)). n_key (lfu_nodes d a) = n_key (lfu_nodes c a) \<and>
          n_value (lfu_nodes d a) = n_value (lfu_nodes c a)" using d(4) by simp
    qed (use old in auto)
    moreover have "x \<in> set (all_cells c (Us @ Vs)) \<or> fresh_node c \<le> x"
      if "x \<in> set (all_cells d (Us @ (fresh_bucket c, []) # Vs))" for x
      using that unfolding d(9) by auto
    ultimately show thesis
      by (intro that[of "fresh_bucket c" d "[]" Vs]) (use d(1-8) old in simp_all)
  qed
qed

subsection \<open>Using an entry\<close>

text \<open>The second half of \<open>promote\<close> and the first: moving the entry once its new bucket is there.\<close>

definition move_entry :: "ptr \<Rightarrow> ptr \<Rightarrow> ptr \<Rightarrow> LFUCache \<Rightarrow> LFUCache option" where
  "move_entry n old target c = do {
     c2 \<leftarrow> bucket_remove n c;
     c3 \<leftarrow> bucket_pushFront target n c2;
     e \<leftarrow> bucket_empty old c3;
     if e then removeBucket old c3 else Some c3 }"

lemma promote_eq:
  assumes "n_bucket (lfu_nodes c a) = Some b0"
  shows "promote (Some a) c = do {
    (target, c1) \<leftarrow> ensure_bucket (Some b0) (b_freq (lfu_bks c b0) + 1) c; move_entry (Some a) (Some b0) target c1 }"
  using assms by (simp add: promote_def ensure_bucket_def move_entry_def Let_def bind_assoc cong: if_cong)

lemma move_entry_shape:
  assumes shape: "lfu_shape c (Us @ (b0, us @ a # vs) # (b, ns) # Ws)"
  obtains d Bs where "move_entry (Some a) (Some b0) (Some b) c = Some d" and "lfu_shape d Bs"
    and "lfu_abs d Bs = lfu_abs c Us @ seg c (b0, us @ vs) @ seg c (b, a # ns) @ lfu_abs c Ws"
    and "mset (addrs Bs) = mset (addrs (Us @ (b0, us @ a # vs) # (b, ns) # Ws))"
    and "\<And>x. n_key (lfu_nodes d x) = n_key (lfu_nodes c x) \<and> n_value (lfu_nodes d x) = n_value (lfu_nodes c x)"
    and "lfu_items d = lfu_items c" and "lfu_capacity d = lfu_capacity c"
    and "(\<forall>e \<in> set (Us @ Ws). snd e \<noteq> []) \<Longrightarrow> \<forall>e \<in> set Bs. snd e \<noteq> []"
proof -
  obtain nd1 where rm: "bucket_remove (Some a) c = Some (c\<lparr>lfu_nodes := nd1\<rparr>)"
    "lfu_shape (c\<lparr>lfu_nodes := nd1\<rparr>) (Us @ (b0, us @ vs) # (b, ns) # Ws)"
    "\<And>x. n_key (nd1 x) = n_key (lfu_nodes c x) \<and> n_value (nd1 x) = n_value (lfu_nodes c x) \<and>
      n_bucket (nd1 x) = n_bucket (lfu_nodes c x)"
    by (rule shape_remove[OF shape]) blast
  let ?c1 = "c\<lparr>lfu_nodes := nd1\<rparr>"
  have cells: "all_cells ?c1 Bs = all_cells c Bs" "bucket_cells ?c1 e = bucket_cells c e" for Bs e
    by (intro all_cells_same bucket_cells_same; simp add: same_bucket_def)+
  have acells: "a \<in> set (bucket_cells c (b0, us @ a # vs))" by (simp add: bucket_cells_def)
  have dist: "distinct (all_cells c (Us @ (b0, us @ a # vs) # (b, ns) # Ws))" and
    "\<forall>x \<in> set (all_cells c (Us @ (b0, us @ a # vs) # (b, ns) # Ws)). x < fresh_node c"
    using shape by (simp_all add: lfu_shape_def)
  then have lt': "a < fresh_node ?c1" using acells by simp
  have "a \<notin> set (bucket_cells c (b0, us @ vs))" using dist by (auto simp: bucket_cells_def)
  then have free: "a \<notin> set (all_cells ?c1 ((Us @ [(b0, us @ vs)]) @ (b, ns) # Ws))"
    using dist acells unfolding cells by auto
  have shape1: "lfu_shape ?c1 ((Us @ [(b0, us @ vs)]) @ (b, ns) # Ws)" using rm(2) by simp
  obtain nd2 where push: "bucket_pushFront (Some b) (Some a) ?c1 = Some (?c1\<lparr>lfu_nodes := nd2\<rparr>)"
    "lfu_shape (?c1\<lparr>lfu_nodes := nd2\<rparr>) ((Us @ [(b0, us @ vs)]) @ (b, a # ns) # Ws)"
    "\<And>x. n_key (nd2 x) = n_key (lfu_nodes ?c1 x) \<and> n_value (nd2 x) = n_value (lfu_nodes ?c1 x)"
    by (rule shape_push[OF shape1 free lt']) blast
  let ?c2 = "c\<lparr>lfu_nodes := nd2\<rparr>"
  have shape2: "lfu_shape ?c2 (Us @ (b0, us @ vs) # (b, a # ns) # Ws)" using push(2) by simp
  have fields: "n_key (nd2 x) = n_key (lfu_nodes c x) \<and> n_value (nd2 x) = n_value (lfu_nodes c x)" for x
    using push(3) rm(3) by simp
  have steps: "move_entry (Some a) (Some b0) (Some b) c = (if us @ vs = [] then removeBucket (Some b0) ?c2 else Some ?c2)"
    using shape_empty[OF shape2] by (simp add: move_entry_def rm(1) push(1))
  have abs: "lfu_abs d Bs = lfu_abs c Bs" "seg d e = seg c e"
    if "\<And>x. b_freq (lfu_bks d x) = b_freq (lfu_bks c x)" "lfu_nodes d = nd2" for d Bs e
  proof -
    show "lfu_abs d Bs = lfu_abs c Bs" by (rule abs_cong) (use that fields in simp_all)
    show "seg d e = seg c e" using that fields by (simp add: seg_def)
  qed
  show thesis
  proof (cases "us @ vs = []")
    case True
    have "lfu_shape ?c2 (Us @ (b0, []) # (b, a # ns) # Ws)" using shape2 True by simp
    then obtain bk where drop: "removeBucket (Some b0) ?c2 = Some (?c2\<lparr>lfu_bks := bk\<rparr>)"
      "lfu_shape (?c2\<lparr>lfu_bks := bk\<rparr>) (Us @ (b, a # ns) # Ws)" "\<And>x. b_freq (bk x) = b_freq (lfu_bks ?c2 x)"
      by (rule shape_drop_bucket) blast
    show thesis
    proof (rule that)
      show "move_entry (Some a) (Some b0) (Some b) c = Some (?c2\<lparr>lfu_bks := bk\<rparr>)" using steps drop(1) True by simp
      show "lfu_abs (?c2\<lparr>lfu_bks := bk\<rparr>) (Us @ (b, a # ns) # Ws) =
          lfu_abs c Us @ seg c (b0, us @ vs) @ seg c (b, a # ns) @ lfu_abs c Ws"
        using abs[of "?c2\<lparr>lfu_bks := bk\<rparr>"] drop(3) True fields by simp
    qed (use drop(2) fields True in \<open>simp_all add: Ball_def\<close>)
  next
    case False
    show thesis
    proof (rule that)
      show "move_entry (Some a) (Some b0) (Some b) c = Some ?c2" using steps False by auto
      show "lfu_abs ?c2 (Us @ (b0, us @ vs) # (b, a # ns) # Ws) =
          lfu_abs c Us @ seg c (b0, us @ vs) @ seg c (b, a # ns) @ lfu_abs c Ws"
        using abs[of ?c2] fields by simp
    qed (use shape2 fields False in \<open>auto\<close>)
  qed
qed

lemma rep_keys:
  assumes "lfu_rep c Bs"
  shows "inj_on (\<lambda>a. n_key (lfu_nodes c a)) (set (addrs Bs))" and "length (lfu_items c) = length (addrs Bs)"
    and "map_of (lfu_items c) k = Some a \<longleftrightarrow> a \<in> set (addrs Bs) \<and> n_key (lfu_nodes c a) = k"
proof -
  have dist: "distinct (map fst (lfu_items c))"
    and items: "set (lfu_items c) = (\<lambda>a. (n_key (lfu_nodes c a), a)) ` set (addrs Bs)" and shape: "lfu_shape c Bs"
    using assms by (simp_all add: lfu_rep_def)
  have at: "map_of (lfu_items c) k = Some a \<longleftrightarrow> a \<in> set (addrs Bs) \<and> n_key (lfu_nodes c a) = k" for k a
    using dist items by (auto simp: map_of_eq_Some_iff)
  then show "map_of (lfu_items c) k = Some a \<longleftrightarrow> a \<in> set (addrs Bs) \<and> n_key (lfu_nodes c a) = k" .
  show "inj_on (\<lambda>a. n_key (lfu_nodes c a)) (set (addrs Bs))"
    using at by (intro inj_onI) (metis option.inject)
  have "length (lfu_items c) = card (set (lfu_items c))" using dist by (metis distinct_card distinct_map)
  also have "\<dots> = card (set (addrs Bs))" unfolding items by (rule card_image) (simp add: inj_on_def)
  also have "\<dots> = length (addrs Bs)" using shape_addrs(1)[OF shape] by (rule distinct_card)
  finally show "length (lfu_items c) = length (addrs Bs)" .
qed

lemma keys_abs: "map fst (lfu_abs c Bs) = map (\<lambda>a. n_key (lfu_nodes c a)) (concat (map (\<lambda>e. rev (snd e)) Bs))"
  by (induction Bs) (simp_all add: seg_def)

lemma set_addrs_rev: "set (concat (map (\<lambda>e. rev (snd e)) Bs)) = set (addrs Bs)"
  "length (lfu_abs c Bs) = length (addrs Bs)"
  by (induction Bs) (simp_all add: seg_def)

lemma rep_abs:
  assumes rep: "lfu_rep c Bs"
  shows "distinct (map fst (lfu_abs c Bs))" and "length (lfu_abs c Bs) = length (lfu_items c)"
    and "map_of (lfu_abs c Bs) k = None \<longleftrightarrow> map_of (lfu_items c) k = None"
proof -
  have "lfu_shape c Bs" using rep by (simp add: lfu_rep_def)
  then have "distinct (addrs Bs)" by (rule shape_addrs(1))
  then have "distinct (concat (map (\<lambda>e. rev (snd e)) Bs))"
    by (induction Bs) (auto simp: set_addrs_rev)
  then show "distinct (map fst (lfu_abs c Bs))"
    unfolding keys_abs distinct_map using rep_keys(1)[OF rep] by (simp add: set_addrs_rev)
  show "length (lfu_abs c Bs) = length (lfu_items c)"
    by (simp add: set_addrs_rev rep_keys(2)[OF rep])
  have "fst ` set (lfu_abs c Bs) = (\<lambda>a. n_key (lfu_nodes c a)) ` set (addrs Bs)"
    using arg_cong[OF keys_abs, of set c Bs] by (simp only: set_map set_addrs_rev)
  then show "map_of (lfu_abs c Bs) k = None \<longleftrightarrow> map_of (lfu_items c) k = None"
    using rep_keys(3)[OF rep, of k] unfolding map_of_eq_None_iff[of "lfu_abs c Bs"]
    by (metis (no_types, lifting) image_iff not_Some_eq)
qed

lemma delete_mid: "distinct (map fst (xs @ (k, y) # ys)) \<Longrightarrow> AList.delete k (xs @ (k, y) # ys) = xs @ ys"
proof -
  assume "distinct (map fst (xs @ (k, y) # ys))"
  then have "k \<notin> fst ` set xs" "k \<notin> fst ` set ys" by auto
  then have "filter (\<lambda>(k', _). k \<noteq> k') xs = xs" "filter (\<lambda>(k', _). k \<noteq> k') ys = ys"
    by (intro filter_True; force)+
  then show ?thesis by (simp add: AList.delete_eq)
qed

lemma seg_append: "seg c (b, us @ vs) = seg c (b, vs) @ seg c (b, us)"
  by (simp add: seg_def)

text \<open>One use of an entry: its key and value stay, its number of uses grows, and it is now the last victim of its
  new frequency.\<close>

lemma promote_refines:
  assumes rep: "lfu_rep c Bs" and a: "a \<in> set (addrs Bs)"
  obtains d Cs f where "promote (Some a) c = Some d" and "lfu_rep d Cs" and "lfu_capacity d = lfu_capacity c"
    and "map_of (lfu_abs c Bs) (n_key (lfu_nodes c a)) = Some (n_value (lfu_nodes c a), f)"
    and "lfu_abs d Cs = place (n_key (lfu_nodes c a), n_value (lfu_nodes c a), f + 1) (AList.delete (n_key (lfu_nodes c a)) (lfu_abs c Bs))"
    and "n_value (lfu_nodes d a) = n_value (lfu_nodes c a)"
proof -
  have shape: "lfu_shape c Bs" using rep by (simp add: lfu_rep_def)
  let ?k = "n_key (lfu_nodes c a)" and ?v = "n_value (lfu_nodes c a)"
  from a obtain b0 ns0 where e: "(b0, ns0) \<in> set Bs" "a \<in> set ns0" by auto
  obtain Us Vs where Bs: "Bs = Us @ (b0, ns0) # Vs" using e(1) by (meson split_list)
  obtain us vs where ns0: "ns0 = us @ a # vs" using e(2) by (meson split_list)
  let ?f = "b_freq (lfu_bks c b0)" and ?Us = "Us @ [(b0, us @ a # vs)]"
  have shape0: "lfu_shape c (Us @ (b0, us @ a # vs) # Vs)" using shape by (simp add: Bs ns0)
  have shape1: "lfu_shape c (?Us @ Vs)" using shape0 by simp
  note freqs = shape_freqs[OF shape0]
  have ok0: "bucket_ok c (b0, us @ a # vs)" by (rule shape_bucket[OF shape0])
  obtain b ns Ws c1 where ens: "ensure_bucket (Some b0) (?f + 1) c = Some (Some b, c1)" "lfu_shape c1 (?Us @ (b, ns) # Ws)"
    "b_freq (lfu_bks c1 b) = ?f + 1" "lfu_abs c1 (?Us @ (b, ns) # Ws) = lfu_abs c (?Us @ Vs)"
    "addrs (?Us @ (b, ns) # Ws) = addrs (?Us @ Vs)" "set Ws \<subseteq> set Vs"
    "\<And>x. x < fresh_node c \<Longrightarrow> lfu_nodes c1 x = lfu_nodes c x" "lfu_items c1 = lfu_items c" "lfu_capacity c1 = lfu_capacity c"
    "\<And>e. e \<in> set (?Us @ Vs) \<Longrightarrow> b_freq (lfu_bks c1 (fst e)) = b_freq (lfu_bks c (fst e))"
  proof (rule ensure_bucket_shape[OF shape1, of b0 "?f + 1"])
    show "b0 = last (0 # map fst ?Us)" by simp
    show "1 \<le> ?f + 1" using ok0 by (simp add: bucket_ok_def)
  qed (use freqs(4,5) in force)+
  have shape2: "lfu_shape c1 (Us @ (b0, us @ a # vs) # (b, ns) # Ws)" using ens(2) by simp
  obtain d Cs where mv: "move_entry (Some a) (Some b0) (Some b) c1 = Some d" "lfu_shape d Cs"
    "lfu_abs d Cs = lfu_abs c1 Us @ seg c1 (b0, us @ vs) @ seg c1 (b, a # ns) @ lfu_abs c1 Ws"
    "mset (addrs Cs) = mset (addrs (Us @ (b0, us @ a # vs) # (b, ns) # Ws))"
    "\<And>x. n_key (lfu_nodes d x) = n_key (lfu_nodes c1 x) \<and> n_value (lfu_nodes d x) = n_value (lfu_nodes c1 x)"
    "lfu_items d = lfu_items c1" "lfu_capacity d = lfu_capacity c1"
    "(\<forall>e \<in> set (Us @ Ws). snd e \<noteq> []) \<Longrightarrow> \<forall>e \<in> set Cs. snd e \<noteq> []"
    by (rule move_entry_shape[OF shape2]) blast
  have below: "x < fresh_node c" if "x \<in> set (addrs Bs)" for x
    using shape shape_addrs(2)[OF shape] that unfolding lfu_shape_def by blast
  have aB: "lfu_nodes c1 a = lfu_nodes c a" using ens(7) below[OF a] by simp
  have "promote (Some a) c = Some d"
    using ok0 by (simp add: promote_eq[of c a b0] bucket_ok_def ens(1) mv(1))
  moreover have addrs: "mset (addrs Cs) = mset (addrs Bs)"
  proof -
    have "mset (addrs Vs) = mset ns + mset (addrs Ws)" using ens(5) by (simp flip: mset_append)
    then show ?thesis using mv(4) by (simp add: Bs ns0)
  qed
  have rep': "lfu_rep d Cs"
    unfolding lfu_rep_def
  proof (intro conjI)
    have keys: "n_key (lfu_nodes d x) = n_key (lfu_nodes c x)" if "x \<in> set (addrs Bs)" for x
      using mv(5) ens(7) below[OF that] by simp
    have sets: "set (addrs Cs) = set (addrs Bs)" using addrs by (metis set_mset_mset)
    have "set (lfu_items d) = (\<lambda>a. (n_key (lfu_nodes c a), a)) ` set (addrs Bs)"
      using rep mv(6) ens(8) by (simp add: lfu_rep_def)
    also have "\<dots> = (\<lambda>a. (n_key (lfu_nodes d a), a)) ` set (addrs Cs)"
      unfolding sets by (rule image_cong[OF refl]) (simp only: keys)
    finally show "set (lfu_items d) = (\<lambda>a. (n_key (lfu_nodes d a), a)) ` set (addrs Cs)" .
    have "\<forall>e \<in> set (Us @ Ws). snd e \<noteq> []" using rep ens(6) by (auto simp: lfu_rep_def Bs)
    then show "\<forall>e \<in> set Cs. snd e \<noteq> []" by (rule mv(8))
    have "length (addrs Cs) = length (addrs Bs)" using addrs by (metis size_mset)
    then show "int (length (addrs Cs)) \<le> lfu_capacity d" using rep mv(7) ens(9) by (simp add: lfu_rep_def)
  qed (use rep mv(2,6,7) ens(8,9) in \<open>simp_all add: lfu_rep_def\<close>)
  moreover have f0: "b_freq (lfu_bks c1 b0) = ?f" using ens(10)[of "(b0, us @ a # vs)"] by simp
  let ?xs = "lfu_abs c1 Us @ seg c1 (b0, vs)" and ?ys = "seg c1 (b0, us) @ seg c1 (b, ns)"
  have whole: "lfu_abs c Bs = ?xs @ (?k, ?v, ?f) # ?ys @ lfu_abs c1 Ws"
    using ens(4) by (simp add: Bs ns0 seg_append aB f0)
  have dist: "distinct (map fst (lfu_abs c Bs))" by (rule rep_abs(1)[OF rep])
  have "map_of (lfu_abs c Bs) ?k = Some (?v, ?f)"
    using dist unfolding whole by (intro map_of_is_SomeI) simp_all
  moreover have "lfu_abs d Cs = place (?k, ?v, ?f + 1) (AList.delete ?k (lfu_abs c Bs))"
  proof -
    have "AList.delete ?k (lfu_abs c Bs) = (?xs @ ?ys) @ lfu_abs c1 Ws"
      unfolding whole using delete_mid[OF dist[unfolded whole]] by simp
    moreover note up = shape_freqs[OF shape2] and top = shape_freqs[OF ens(2)]
    have "\<forall>x \<in> set (?xs @ ?ys). uses x \<le> ?f + 1" using up(1,3) top(3) f0 ens(3) by (auto dest!: up(1) up(3) top(3))
    moreover have "\<forall>y \<in> set (lfu_abs c1 Ws). ?f + 1 < uses y" using top(2) ens(3) by simp
    ultimately have "place (?k, ?v, ?f + 1) (AList.delete ?k (lfu_abs c Bs)) =
        (?xs @ ?ys) @ (?k, ?v, ?f + 1) # lfu_abs c1 Ws"
      by (simp only: place_split)
    then show ?thesis unfolding mv(3) by (simp add: seg_append aB ens(3))
  qed
  moreover have "n_value (lfu_nodes d a) = ?v" using mv(5) aB by simp
  ultimately show thesis using that[of d Cs ?f] mv(7) ens(9) by simp
qed

subsection \<open>Every operation follows the list\<close>

definition lfu_for :: "LFUCache \<Rightarrow> lfu_list \<Rightarrow> bool" where
  "lfu_for c xs \<longleftrightarrow> (\<exists>Bs. lfu_rep c Bs \<and> lfu_abs c Bs = xs)"

lemma lfu_forE:
  assumes "lfu_for c xs"
  obtains Bs where "lfu_rep c Bs" and "lfu_abs c Bs = xs"
  using assms by (auto simp: lfu_for_def)

lemma lfu_forI: "lfu_rep c Bs \<Longrightarrow> lfu_abs c Bs = xs \<Longrightarrow> lfu_for c xs"
  by (auto simp: lfu_for_def)

lemma LFU_Get_refines:
  assumes "lfu_for c xs"
  obtains d where "LFU_Get k c = Some (fst (spec_get k xs), d)" and "lfu_for d (snd (spec_get k xs))"
    and "lfu_capacity d = lfu_capacity c"
proof -
  obtain Bs where Bs: "lfu_rep c Bs" "lfu_abs c Bs = xs" using assms by (rule lfu_forE)
  show thesis
  proof (cases "map_of (lfu_items c) k")
    case None
    then have "map_of xs k = None" using rep_abs(3)[OF Bs(1)] Bs(2) by simp
    then show thesis using that[of c] None assms by (simp add: LFU_Get_def spec_get_def)
  next
    case (Some a)
    then have a: "a \<in> set (addrs Bs)" "n_key (lfu_nodes c a) = k" using rep_keys(3)[OF Bs(1)] by simp_all
    obtain d Cs f where d: "promote (Some a) c = Some d" "lfu_rep d Cs" "lfu_capacity d = lfu_capacity c"
      "map_of (lfu_abs c Bs) (n_key (lfu_nodes c a)) = Some (n_value (lfu_nodes c a), f)"
      "lfu_abs d Cs = place (n_key (lfu_nodes c a), n_value (lfu_nodes c a), f + 1) (AList.delete (n_key (lfu_nodes c a)) (lfu_abs c Bs))"
      "n_value (lfu_nodes d a) = n_value (lfu_nodes c a)"
      using promote_refines[OF Bs(1) a(1)] by blast
    have s: "spec_get k xs = ((n_value (lfu_nodes c a), True), lfu_abs d Cs)"
      using d(4,5) a(2) Bs(2) by (simp add: spec_get_def)
    show thesis
      by (rule that[of d]) (use Some d s in \<open>auto simp: LFU_Get_def intro: lfu_forI\<close>)
  qed
qed

text \<open>Writing the value of an entry in place.\<close>

abbreviation set_value :: "nat \<Rightarrow> string \<Rightarrow> LFUCache \<Rightarrow> LFUCache" where
  "set_value a v c \<equiv> c\<lparr>lfu_nodes := (lfu_nodes c)(a := (lfu_nodes c a)\<lparr>n_value := v\<rparr>)\<rparr>"

lemma shape_set_value:
  assumes "lfu_shape c Bs"
  shows "lfu_shape (set_value a v c) Bs"
proof -
  have same: "same_bucket c (set_value a v c) b" for b by (simp add: same_bucket_def)
  have cells: "all_cells (set_value a v c) Bs = all_cells c Bs" using same by (intro all_cells_same)
  have "bucket_ok (set_value a v c) e" if "e \<in> set Bs" for e
    by (rule bucket_ok_same[OF _ _ same]) (use assms that in \<open>auto simp: lfu_shape_def same_cells_def\<close>)
  then show ?thesis using assms unfolding lfu_shape_def cells by auto
qed

lemma rep_set_value:
  assumes rep: "lfu_rep c Bs" and a: "a \<in> set (addrs Bs)"
  shows "lfu_rep (set_value a v c) Bs"
    and "lfu_abs (set_value a v c) Bs =
      map (\<lambda>(k, w, f). (k, if k = n_key (lfu_nodes c a) then v else w, f)) (lfu_abs c Bs)"
proof -
  have key: "n_key (lfu_nodes (set_value a v c) x) = n_key (lfu_nodes c x)" for x by simp
  show "lfu_rep (set_value a v c) Bs"
    using rep shape_set_value[of c Bs a v] unfolding lfu_rep_def key by simp
  have "seg (set_value a v c) e = map (\<lambda>(k, w, f). (k, if k = n_key (lfu_nodes c a) then v else w, f)) (seg c e)"
    if "e \<in> set Bs" for e
  proof -
    have "n_key (lfu_nodes c x) = n_key (lfu_nodes c a) \<longleftrightarrow> x = a" if x: "x \<in> set (snd e)" for x
    proof -
      have "x \<in> set (addrs Bs)" using x \<open>e \<in> set Bs\<close> by auto
      then show ?thesis using inj_onD[OF rep_keys(1)[OF rep], of x a] a by auto
    qed
    then show ?thesis by (simp add: seg_def)
  qed
  then show "lfu_abs (set_value a v c) Bs =
      map (\<lambda>(k, w, f). (k, if k = n_key (lfu_nodes c a) then v else w, f)) (lfu_abs c Bs)"
    by (induction Bs) (simp_all add: lfu_abs_def)
qed

lemma put_hit_list:
  "map_of (map (\<lambda>(k', w, f). (k', if k' = k then v else w, f)) xs) k = map_option (\<lambda>(w, f). (v, f)) (map_of xs k)"
  "AList.delete k (map (\<lambda>(k', w, f). (k', if k' = k then v else w, f)) xs) = AList.delete k xs"
  by (induction xs) (auto simp: AList.delete_eq)

lemma put_hit_refines:
  assumes rep: "lfu_rep c Bs" and hit: "map_of (lfu_items c) k = Some a"
  obtains d where "LFU_Put k v c = Some d" and "lfu_for d (spec_put (lfu_capacity c) k v (lfu_abs c Bs))"
    and "lfu_capacity d = lfu_capacity c"
proof -
  have a: "a \<in> set (addrs Bs)" "n_key (lfu_nodes c a) = k" using hit rep_keys(3)[OF rep] by simp_all
  let ?c = "set_value a v c"
  obtain d Cs f where d: "promote (Some a) ?c = Some d" "lfu_rep d Cs" "lfu_capacity d = lfu_capacity ?c"
    "map_of (lfu_abs ?c Bs) (n_key (lfu_nodes ?c a)) = Some (n_value (lfu_nodes ?c a), f)"
    "lfu_abs d Cs = place (n_key (lfu_nodes ?c a), n_value (lfu_nodes ?c a), f + 1)
      (AList.delete (n_key (lfu_nodes ?c a)) (lfu_abs ?c Bs))"
    using promote_refines[OF rep_set_value(1)[OF rep a(1)] a(1)] by blast
  note list = rep_set_value(2)[OF rep a(1), of v]
  have "map_option (\<lambda>(w, f). (v, f)) (map_of (lfu_abs c Bs) k) = Some (v, f)"
    using d(4) a(2) by (simp add: list put_hit_list)
  then obtain w where "map_of (lfu_abs c Bs) k = Some (w, f)" by auto
  moreover have "lfu_abs d Cs = place (k, v, f + 1) (AList.delete k (lfu_abs c Bs))"
    using d(5) a(2) by (simp add: list put_hit_list)
  ultimately have "spec_put (lfu_capacity c) k v (lfu_abs c Bs) = lfu_abs d Cs" by (simp add: spec_put_def)
  then show thesis using that[of d] d(1,2,3) hit lfu_forI[OF d(2)] by (simp add: LFU_Put_def)
qed

text \<open>Eviction takes the first entry of the list.\<close>

lemma evict_refines:
  assumes rep: "lfu_rep c Bs" and full: "Bs \<noteq> []"
  obtains d Cs where "lfu_evict c = Some d" and "lfu_rep d Cs" and "lfu_abs d Cs = tl (lfu_abs c Bs)"
    and "lfu_capacity d = lfu_capacity c" and "length (addrs Cs) < length (addrs Bs)"
    and "\<And>k. map_of (lfu_items c) k = None \<Longrightarrow> map_of (lfu_items d) k = None"
proof -
  have shape: "lfu_shape c Bs" and dist: "distinct (map fst (lfu_items c))"
    and items: "set (lfu_items c) = (\<lambda>a. (n_key (lfu_nodes c a), a)) ` set (addrs Bs)"
    and ne: "\<forall>e \<in> set Bs. snd e \<noteq> []"
    using rep by (simp_all add: lfu_rep_def)
  obtain b ns Vs where Bs: "Bs = (b, ns) # Vs" using full by (metis neq_Nil_conv surj_pair)
  obtain us a where ns: "ns = us @ [a]" using ne Bs by (metis append_butlast_last_id list.set_intros(1) snd_conv)
  have shape0: "lfu_shape c ([] @ (b, us @ a # []) # Vs)" using shape by (simp add: Bs ns)
  have sent: "lfu_buckets c = Some 0" and nb: "next (lfu_bks c 0) = Some b" and b0: "b \<noteq> 0"
    using shape lcirc_first[of "lfu_bks c" 0 "map fst Bs"] by (auto simp: lfu_shape_def Bs lcirc_def)
  obtain h t where ht: "b_head (lfu_bks c b) = Some h" "b_tail (lfu_bks c b) = Some t"
    "bucket_cells c (b, us @ a # []) = h # (us @ [a]) @ [t]" "lpath (lfu_nodes c) h t (us @ a # [])"
    by (rule bucket_parts[OF shape_bucket[OF shape0]]) simp
  have victim: "prev (lfu_nodes c t) = Some a"
    using ht(4) links_append[of "lfu_nodes c" "h # us" a "[t]"] by (simp add: lpath_def)
  obtain nd where rm: "bucket_remove (Some a) c = Some (c\<lparr>lfu_nodes := nd\<rparr>)"
    "lfu_shape (c\<lparr>lfu_nodes := nd\<rparr>) ([] @ (b, us @ []) # Vs)"
    "\<And>x. n_key (nd x) = n_key (lfu_nodes c x) \<and> n_value (nd x) = n_value (lfu_nodes c x) \<and>
      n_bucket (nd x) = n_bucket (lfu_nodes c x)"
    by (rule shape_remove[OF shape0]) blast
  let ?k = "n_key (lfu_nodes c a)"
  let ?c2 = "c\<lparr>lfu_nodes := nd, lfu_items := AList.delete ?k (lfu_items c)\<rparr>"
  have shape2: "lfu_shape ?c2 ([] @ (b, us) # Vs)"
    using rm(2) unfolding lfu_shape_def bucket_ok_def all_cells_def bucket_cells_def by simp
  have empty: "bucket_empty (Some b) ?c2 = Some (us = [])" by (rule shape_empty[OF shape2])
  have steps: "lfu_evict c = (if us = [] then removeBucket (Some b) ?c2 else Some ?c2)"
    using sent nb b0 ht(2) victim rm(1,3) empty by (simp add: lfu_evict_def Let_def)
  have old: "set (lfu_items ?c2) = (\<lambda>a. (n_key (nd a), a)) ` set (us @ addrs Vs)"
  proof -
    have "a \<notin> set us \<union> set (addrs Vs)" using shape_addrs(1)[OF shape] by (auto simp: Bs ns)
    then have other: "n_key (lfu_nodes c x) \<noteq> ?k" if "x \<in> set (us @ addrs Vs)" for x
      using that inj_onD[OF rep_keys(1)[OF rep], of x a] by (auto simp: Bs ns)
    have "set (addrs Bs) = insert a (set (us @ addrs Vs))" by (auto simp: Bs ns)
    then have "set (AList.delete ?k (lfu_items c)) = (\<lambda>a. (n_key (lfu_nodes c a), a)) ` set (us @ addrs Vs)"
      unfolding AList.delete_eq set_filter items by (auto simp del: set_append set_concat simp: image_iff dest: other[symmetric])
    then show ?thesis using rm(3) by simp
  qed
  have dist2: "distinct (map fst (lfu_items ?c2))" using dist by (simp add: distinct_delete)
  have none: "map_of (lfu_items ?c2) k = None" if "map_of (lfu_items c) k = None" for k
    using that by (simp add: delete_conv')
  have fields: "seg d e = seg c e" "lfu_abs d Xs = lfu_abs c Xs"
    if "lfu_nodes d = nd" "\<And>x. b_freq (lfu_bks d x) = b_freq (lfu_bks c x)" for d e Xs
  proof -
    have "seg d = seg c" using rm(3) that by (intro ext) (auto simp: seg_def)
    then show "seg d e = seg c e" "lfu_abs d Xs = lfu_abs c Xs" by (simp_all add: lfu_abs_def)
  qed
  have tl: "tl (lfu_abs c Bs) = seg c (b, us) @ lfu_abs c Vs" by (simp add: Bs ns seg_append)
  show thesis
  proof (cases "us = []")
    case True
    obtain bk where drop: "removeBucket (Some b) ?c2 = Some (?c2\<lparr>lfu_bks := bk\<rparr>)"
      "lfu_shape (?c2\<lparr>lfu_bks := bk\<rparr>) ([] @ Vs)" "\<And>x. b_freq (bk x) = b_freq (lfu_bks ?c2 x)"
      using shape_drop_bucket[of ?c2 "[]" b Vs] shape2 True by blast
    show thesis
    proof (rule that)
      show "lfu_evict c = Some (?c2\<lparr>lfu_bks := bk\<rparr>)" using steps drop(1) True by simp
      show "lfu_rep (?c2\<lparr>lfu_bks := bk\<rparr>) Vs"
        using drop(2) ne dist2 old rep True by (simp add: lfu_rep_def Bs ns)
      show "lfu_abs (?c2\<lparr>lfu_bks := bk\<rparr>) Vs = tl (lfu_abs c Bs)"
        unfolding tl using drop(3) True by (simp add: fields)
    qed (use none in \<open>simp_all add: Bs ns\<close>)
  next
    case False
    show thesis
    proof (rule that)
      show "lfu_evict c = Some ?c2" using steps False by simp
      show "lfu_rep ?c2 ((b, us) # Vs)"
        using shape2 ne dist2 old rep False by (simp add: lfu_rep_def Bs ns)
      show "lfu_abs ?c2 ((b, us) # Vs) = tl (lfu_abs c Bs)" unfolding tl by (simp add: fields)
    qed (use none in \<open>simp_all add: Bs ns\<close>)
  qed
qed

text \<open>A new entry: used once, behind the other entries used once.\<close>

definition lfu_insert :: "string \<Rightarrow> string \<Rightarrow> LFUCache \<Rightarrow> LFUCache option" where
  "lfu_insert key val c1 = do {
     (first, c2) \<leftarrow> ensure_bucket (lfu_buckets c1) 1 c1;
     let n = fresh_node c2;
     c3 \<leftarrow> bucket_pushFront first (Some n)
       (c2\<lparr>lfu_nodes := (lfu_nodes c2)(n := zero_node\<lparr>n_key := key, n_value := val\<rparr>), fresh_node := n + 1\<rparr>);
     Some (c3\<lparr>lfu_items := AList.update key n (lfu_items c3)\<rparr>) }"

lemma put_miss_eq:
  assumes "map_of (lfu_items c) key = None"
  shows "LFU_Put key val c = do {
    c1 \<leftarrow> (if int (length (lfu_items c)) \<ge> lfu_capacity c then lfu_evict c else Some c); lfu_insert key val c1 }"
  using assms by (simp add: LFU_Put_def lfu_insert_def ensure_bucket_def Let_def bind_assoc cong: if_cong)

lemma shape_new_node:
  assumes shape: "lfu_shape c Bs"
  shows "lfu_shape (c\<lparr>lfu_nodes := (lfu_nodes c)(fresh_node c := e), fresh_node := fresh_node c + 1\<rparr>) Bs" (is "lfu_shape ?c Bs")
proof -
  have same: "same_bucket c ?c b" for b by (simp add: same_bucket_def)
  have cells: "all_cells ?c Bs = all_cells c Bs" using same by (intro all_cells_same)
  have below: "x < fresh_node c" if "x \<in> set (all_cells c Bs)" for x using shape that by (simp add: lfu_shape_def)
  have "bucket_ok ?c e" if "e \<in> set Bs" for e
  proof (rule bucket_ok_same[OF _ _ same])
    show "bucket_ok c e" using shape that by (simp add: lfu_shape_def)
    show "same_cells c ?c (bucket_cells c e)" using below cells_in_all[OF that, of c] by (auto simp: same_cells_def)
  qed
  moreover have "x < fresh_node ?c" if "x \<in> set (all_cells c Bs)" for x using below[OF that] by simp
  ultimately show ?thesis using shape unfolding lfu_shape_def cells by auto
qed

lemma insert_refines:
  assumes rep: "lfu_rep c Bs" and room: "int (length (addrs Bs)) < lfu_capacity c" and miss: "map_of (lfu_items c) k = None"
  obtains d where "lfu_insert k v c = Some d" and "lfu_for d (place (k, v, 1) (lfu_abs c Bs))" and "lfu_capacity d = lfu_capacity c"
proof -
  have shape: "lfu_shape c ([] @ Bs)" and sent: "lfu_buckets c = Some 0" using rep by (simp_all add: lfu_rep_def lfu_shape_def)
  have ones: "1 \<le> b_freq (lfu_bks c (fst e))" if "e \<in> set Bs" for e
    using shape_sets[of c Bs e] shape that by (simp add: bucket_ok_def)
  obtain b ns Ws c1 where ens: "ensure_bucket (Some 0) 1 c = Some (Some b, c1)" "lfu_shape c1 ([] @ (b, ns) # Ws)"
    "b_freq (lfu_bks c1 b) = 1" "lfu_abs c1 ([] @ (b, ns) # Ws) = lfu_abs c ([] @ Bs)"
    "addrs ([] @ (b, ns) # Ws) = addrs ([] @ Bs)" "set Ws \<subseteq> set Bs"
    "\<And>x. x < fresh_node c \<Longrightarrow> lfu_nodes c1 x = lfu_nodes c x" "lfu_items c1 = lfu_items c" "lfu_capacity c1 = lfu_capacity c"
    "fresh_node c \<le> fresh_node c1"
    by (rule ensure_bucket_shape[OF shape, of 0 1]) (use ones in simp_all)
  let ?n = "fresh_node c1" and ?e = "zero_node\<lparr>n_key := k, n_value := v\<rparr>"
  let ?c2 = "c1\<lparr>lfu_nodes := (lfu_nodes c1)(?n := ?e), fresh_node := ?n + 1\<rparr>"
  have shape2: "lfu_shape ?c2 ([] @ (b, ns) # Ws)" by (rule shape_new_node[OF ens(2)])
  have cells: "all_cells ?c2 Xs = all_cells c1 Xs" for Xs by (intro all_cells_same) (simp add: same_bucket_def)
  have "x < ?n" if "x \<in> set (all_cells c1 ([] @ (b, ns) # Ws))" for x using ens(2) that by (simp add: lfu_shape_def)
  then have free: "?n \<notin> set (all_cells ?c2 ([] @ (b, ns) # Ws))" unfolding cells by blast
  obtain nd where push: "bucket_pushFront (Some b) (Some ?n) ?c2 = Some (?c2\<lparr>lfu_nodes := nd\<rparr>)"
    "lfu_shape (?c2\<lparr>lfu_nodes := nd\<rparr>) ([] @ (b, ?n # ns) # Ws)"
    "\<And>x. n_key (nd x) = n_key (lfu_nodes ?c2 x) \<and> n_value (nd x) = n_value (lfu_nodes ?c2 x)"
    by (rule shape_push[OF shape2 free]) auto
  let ?d = "?c2\<lparr>lfu_nodes := nd, lfu_items := AList.update k ?n (lfu_items c)\<rparr>" and ?Cs = "(b, ?n # ns) # Ws"
  have sent1: "lfu_insert k v c = Some ?d" using sent ens(1,8) push(1) by (simp add: lfu_insert_def Let_def)
  have addrs: "addrs ((b, ns) # Ws) = addrs Bs" using ens(5) by simp
  have below: "x < fresh_node c" if "x \<in> set (addrs Bs)" for x
    using shape shape_addrs(2)[OF shape] that unfolding lfu_shape_def by auto
  have old: "n_key (nd x) = n_key (lfu_nodes c x)" "n_value (nd x) = n_value (lfu_nodes c1 x)" "n_key (nd x) = n_key (lfu_nodes c1 x)"
    if "x \<in> set (addrs Bs)" for x
    using push(3)[of x] ens(7)[OF below[OF that]] below[OF that] ens(10) by auto
  have new: "n_key (nd ?n) = k" "n_value (nd ?n) = v" using push(3)[of ?n] by simp_all
  have fresh: "k \<notin> fst ` set (lfu_items c)" using miss by (simp add: map_of_eq_None_iff)
  have "lfu_rep ?d ?Cs"
    unfolding lfu_rep_def
  proof (intro conjI)
    show "lfu_shape ?d ?Cs" using push(2) unfolding lfu_shape_def bucket_ok_def all_cells_def bucket_cells_def by simp
    show "distinct (map fst (lfu_items ?d))"
      using rep fresh by (simp add: update_new lfu_rep_def)
    have items: "set (lfu_items c) = (\<lambda>a. (n_key (lfu_nodes c a), a)) ` set (addrs Bs)" using rep by (simp add: lfu_rep_def)
    have "set (lfu_items c) = (\<lambda>a. (n_key (nd a), a)) ` set (addrs Bs)"
      unfolding items by (rule image_cong[OF refl]) (simp only: old)
    moreover have "set (addrs ?Cs) = insert ?n (set (addrs Bs))" unfolding addrs[symmetric] by simp
    ultimately have "set (addrs ?Cs) = insert ?n (set (addrs Bs)) \<and> set (lfu_items ?d) =
        insert (k, ?n) ((\<lambda>a. (n_key (nd a), a)) ` set (addrs Bs))" using fresh by (simp add: update_new)
    then show "set (lfu_items ?d) = (\<lambda>a. (n_key (lfu_nodes ?d a), a)) ` set (addrs ?Cs)" using new by simp
    have "length (addrs ?Cs) = Suc (length (addrs Bs))" unfolding addrs[symmetric] by simp
    then show "int (length (addrs ?Cs)) \<le> lfu_capacity ?d" using room ens(9) by simp
  qed (use rep ens(6,9) in \<open>auto simp: lfu_rep_def\<close>)
  moreover have "lfu_abs ?d ?Cs = place (k, v, 1) (lfu_abs c Bs)"
  proof -
    have eq: "lfu_abs ?d ((b, ns) # Ws) = lfu_abs c1 ((b, ns) # Ws)"
    proof (rule abs_cong)
      show "\<forall>a \<in> set (addrs ((b, ns) # Ws)). n_key (lfu_nodes ?d a) = n_key (lfu_nodes c1 a) \<and>
          n_value (lfu_nodes ?d a) = n_value (lfu_nodes c1 a)" unfolding addrs using old(2,3) by simp
    qed simp
    have parts: "lfu_abs c Bs = seg ?d (b, ns) @ lfu_abs ?d Ws" using ens(4) eq by simp
    have freq: "b_freq (lfu_bks ?d x) = b_freq (lfu_bks c1 x)" for x by simp
    have sameW: "lfu_abs ?d Ws = lfu_abs c1 Ws" "seg ?d (b, ns) = seg c1 (b, ns)"
    proof -
      have l: "length (seg ?d (b, ns)) = length (seg c1 (b, ns))" by (simp add: seg_def)
      then show "lfu_abs ?d Ws = lfu_abs c1 Ws" "seg ?d (b, ns) = seg c1 (b, ns)" using eq by auto
    qed
    note top = shape_freqs[OF ens(2)]
    have le: "\<forall>x \<in> set (seg ?d (b, ns)). uses x \<le> 1" using top(3) ens(3) unfolding sameW by simp
    have gt: "\<forall>y \<in> set (lfu_abs ?d Ws). 1 < uses y" using top(2) ens(3) unfolding sameW by simp
    have "place (k, v, 1) (lfu_abs c Bs) = seg ?d (b, ns) @ (k, v, 1) # lfu_abs ?d Ws"
      unfolding parts by (rule place_split[OF le gt])
    then show ?thesis using new ens(3) by simp
  qed
  ultimately have "lfu_for ?d (place (k, v, 1) (lfu_abs c Bs))" by (rule lfu_forI)
  moreover have "lfu_capacity ?d = lfu_capacity c" using ens(9) by simp
  ultimately show thesis by (rule that[OF sent1])
qed

lemma rep_room:
  assumes "lfu_rep c Bs"
  shows "length (lfu_abs c Bs) = length (addrs Bs)" and "int (length (addrs Bs)) \<le> lfu_capacity c" and "0 < lfu_capacity c"
    and "length (lfu_items c) = length (addrs Bs)"
  using assms rep_keys(2)[OF assms] by (simp_all add: set_addrs_rev lfu_rep_def)

lemma LFU_Put_refines:
  assumes "lfu_for c xs"
  obtains d where "LFU_Put k v c = Some d" and "lfu_for d (spec_put (lfu_capacity c) k v xs)" and "lfu_capacity d = lfu_capacity c"
proof -
  obtain Bs where Bs: "lfu_rep c Bs" "lfu_abs c Bs = xs" using assms by (rule lfu_forE)
  note room = rep_room[OF Bs(1)]
  show thesis
  proof (cases "map_of (lfu_items c) k")
    case (Some a)
    show thesis by (rule put_hit_refines[OF Bs(1) Some]) (use that Bs(2) in auto)
  next
    case None
    then have miss: "map_of xs k = None" using rep_abs(3)[OF Bs(1)] Bs(2) by simp
    show thesis
    proof (cases "int (length (lfu_items c)) \<ge> lfu_capacity c")
      case True
      then have "Bs \<noteq> []" using room(3,4) by auto
      then obtain d Cs where d: "lfu_evict c = Some d" "lfu_rep d Cs" "lfu_abs d Cs = tl (lfu_abs c Bs)"
        "lfu_capacity d = lfu_capacity c" "length (addrs Cs) < length (addrs Bs)"
        "\<And>k. map_of (lfu_items c) k = None \<Longrightarrow> map_of (lfu_items d) k = None"
        by (rule evict_refines[OF Bs(1)]) blast
      have "int (length (addrs Cs)) < lfu_capacity d" using d(4,5) room(2) by simp
      then obtain e where "lfu_insert k v d = Some e" "lfu_for e (place (k, v, 1) (lfu_abs d Cs))" "lfu_capacity e = lfu_capacity d"
        by (rule insert_refines[OF d(2) _ d(6)[OF None]])
      then show thesis
        using that[of e] True d(1,3,4) None miss Bs(2) room(1,4) by (simp add: put_miss_eq spec_put_def)
    next
      case False
      then have "int (length (addrs Bs)) < lfu_capacity c" using room(4) by simp
      then obtain e where "lfu_insert k v c = Some e" "lfu_for e (place (k, v, 1) (lfu_abs c Bs))" "lfu_capacity e = lfu_capacity c"
        by (rule insert_refines[OF Bs(1) _ None])
      then show thesis
        using that[of e] False None miss Bs(2) room(1,4) by (simp add: put_miss_eq spec_put_def)
    qed
  qed
qed

interpretation lfu_list: cache_refinement LFU_Get LFU_Put spec_get "spec_put cap" "\<lambda>c xs. lfu_for c xs \<and> lfu_capacity c = cap"
  for cap
proof
  fix s xs and k v :: string
  assume rel: "lfu_for s xs \<and> lfu_capacity s = cap"
  then show "\<exists>s'. LFU_Get k s = Some (fst (spec_get k xs), s') \<and> lfu_for s' (snd (spec_get k xs)) \<and> lfu_capacity s' = cap"
    using LFU_Get_refines[of s xs k] by (metis (no_types))
  show "\<exists>s'. LFU_Put k v s = Some s' \<and> lfu_for s' (spec_put cap k v xs) \<and> lfu_capacity s' = cap"
    using rel LFU_Put_refines[of s xs k v] by (metis (no_types))
qed

lemma NewLFUCache_for:
  assumes "0 < cap"
  obtains c where "NewLFUCache cap = Some c" and "lfu_for c []" and "lfu_capacity c = cap"
proof -
  obtain c where c: "NewLFUCache cap = Some c" using assms by (simp add: NewLFUCache_def)
  then have "lfu_rep c []"
    using assms by (auto simp: NewLFUCache_def lfu_rep_def lfu_shape_def lcirc_def)
  then have "lfu_for c []" by (rule lfu_forI) simp
  then show thesis using that c assms by (auto simp: NewLFUCache_def split: if_splits)
qed

text \<open>What the observers of the cache tell of the list.\<close>

definition lfu_look :: "LFUCache \<Rightarrow> string \<rightharpoonup> string" where
  "lfu_look c k = map_option (\<lambda>a. n_value (lfu_nodes c a)) (map_of (lfu_items c) k)"

lemma lfu_for_look:
  assumes "lfu_for c xs"
  shows "lfu_look c k = map_option fst (map_of xs k)"
    and "lfu_Freq k c = Some (case map_of xs k of None \<Rightarrow> (0, False) | Some (v, f) \<Rightarrow> (f, True))"
    and "LFU_Len c = int (length xs)" and "int (length xs) \<le> lfu_capacity c"
    and "distinct (map fst xs)" and "sorted (map uses xs)"
proof -
  obtain Bs where Bs: "lfu_rep c Bs" "lfu_abs c Bs = xs" using assms by (rule lfu_forE)
  have shape: "lfu_shape c Bs" using Bs(1) by (simp add: lfu_rep_def)
  note room = rep_room[OF Bs(1)]
  show "LFU_Len c = int (length xs)" "int (length xs) \<le> lfu_capacity c"
    using room Bs(2) by (simp_all add: LFU_Len_def)
  show dist: "distinct (map fst xs)" using rep_abs(1)[OF Bs(1)] Bs(2) by simp
  have "sorted_wrt (<) (map (\<lambda>e. b_freq (lfu_bks c (fst e))) Bs)" using shape by (simp add: lfu_shape_def)
  then have "sorted (map uses (lfu_abs c Bs))"
    by (induction Bs) (auto simp: lfu_abs_def seg_def sorted_append comp_def map_replicate_const intro: less_imp_le)
  then show "sorted (map uses xs)" using Bs(2) by simp
  show "lfu_look c k = map_option fst (map_of xs k)"
    "lfu_Freq k c = Some (case map_of xs k of None \<Rightarrow> (0, False) | Some (v, f) \<Rightarrow> (f, True))"
  proof -
    have "lfu_look c k = map_option fst (map_of xs k) \<and>
      lfu_Freq k c = Some (case map_of xs k of None \<Rightarrow> (0, False) | Some (v, f) \<Rightarrow> (f, True))"
    proof (cases "map_of (lfu_items c) k")
    case None
    then have "map_of xs k = None" using rep_abs(3)[OF Bs(1)] Bs(2) by simp
    then show "lfu_look c k = map_option fst (map_of xs k) \<and>
      lfu_Freq k c = Some (case map_of xs k of None \<Rightarrow> (0, False) | Some (v, f) \<Rightarrow> (f, True))"
      using None by (simp add: lfu_look_def lfu_Freq_def)
  next
    case (Some a)
    then have a: "a \<in> set (addrs Bs)" "n_key (lfu_nodes c a) = k" using rep_keys(3)[OF Bs(1)] by simp_all
    then obtain b ns where e: "(b, ns) \<in> set Bs" "a \<in> set ns" by auto
    have "bucket_ok c (b, ns)" using shape e(1) by (simp add: lfu_shape_def)
    then have bk: "n_bucket (lfu_nodes c a) = Some b" using e(2) by (simp add: bucket_ok_def)
    have "(k, n_value (lfu_nodes c a), b_freq (lfu_bks c b)) \<in> set (seg c (b, ns))" using e(2) a(2) by (auto simp: seg_def)
    then have "(k, n_value (lfu_nodes c a), b_freq (lfu_bks c b)) \<in> set xs"
      using e(1) unfolding Bs(2)[symmetric] lfu_abs_def by auto
    then have "map_of xs k = Some (n_value (lfu_nodes c a), b_freq (lfu_bks c b))" using dist by simp
    then show "lfu_look c k = map_option fst (map_of xs k) \<and>
      lfu_Freq k c = Some (case map_of xs k of None \<Rightarrow> (0, False) | Some (v, f) \<Rightarrow> (f, True))"
      using Some bk by (simp add: lfu_look_def lfu_Freq_def)
    qed
    then show "lfu_look c k = map_option fst (map_of xs k)"
      "lfu_Freq k c = Some (case map_of xs k of None \<Rightarrow> (0, False) | Some (v, f) \<Rightarrow> (f, True))" by simp_all
  qed
qed

lemma place_map_of:
  assumes "k \<notin> fst ` set xs"
  shows "map_of (place (k, v, f) xs) = (map_of xs)(k \<mapsto> (v, f))" and "length (place (k, v, f) xs) = Suc (length xs)"
    and "set (place (k, v, f) xs) = insert (k, v, f) (set xs)"
proof -
  let ?P = "\<lambda>x :: string \<times> string \<times> int. uses x \<le> f"
  have split: "xs = takeWhile ?P xs @ dropWhile ?P xs" by simp
  have k: "k \<notin> fst ` set (takeWhile ?P xs)" using assms by (auto dest: set_takeWhileD)
  have "map_of (place (k, v, f) xs) = (map_of (dropWhile ?P xs))(k \<mapsto> (v, f)) ++ map_of (takeWhile ?P xs)"
    by (simp add: place_def)
  also have "\<dots> = (map_of (dropWhile ?P xs) ++ map_of (takeWhile ?P xs))(k \<mapsto> (v, f))"
    using k by (intro map_add_upd_left) (simp add: dom_map_of_conv_image_fst)
  also have "map_of (dropWhile ?P xs) ++ map_of (takeWhile ?P xs) = map_of xs"
    by (metis map_of_append split)
  finally show "map_of (place (k, v, f) xs) = (map_of xs)(k \<mapsto> (v, f))" .
  have "length (takeWhile ?P xs) + length (dropWhile ?P xs) = length xs" by (metis length_append split)
  then show "length (place (k, v, f) xs) = Suc (length xs)" by (simp add: place_def)
  have "set (takeWhile ?P xs) \<union> set (dropWhile ?P xs) = set xs" by (metis set_append split)
  then show "set (place (k, v, f) xs) = insert (k, v, f) (set xs)" by (auto simp: place_def)
qed

lemma spec_maps:
  assumes dist: "distinct (map fst xs)"
  shows "fst (spec_get k xs) = found (map_option fst (map_of xs k))"
    and "map_option fst (map_of (snd (spec_get k xs)) j) = map_option fst (map_of xs j)"
    and "map_of (spec_put cap k v xs) = (map_of (if map_of xs k = None \<and> int (length xs) \<ge> cap then tl xs else xs))
      (k \<mapsto> (v, case map_of xs k of None \<Rightarrow> 1 | Some (w, f) \<Rightarrow> f + 1))"
proof -
  have del: "k \<notin> fst ` set (AList.delete k xs)" by (auto simp: AList.delete_eq)
  have same: "map_of (AList.delete k xs) = (map_of xs)(k := None)" by (simp add: delete_conv')
  show "fst (spec_get k xs) = found (map_option fst (map_of xs k))"
    by (auto simp: spec_get_def found_def split: option.splits)
  show "map_option fst (map_of (snd (spec_get k xs)) j) = map_option fst (map_of xs j)"
    by (auto simp: spec_get_def place_map_of[OF del] same split: option.splits)
  show "map_of (spec_put cap k v xs) = (map_of (if map_of xs k = None \<and> int (length xs) \<ge> cap then tl xs else xs))
      (k \<mapsto> (v, case map_of xs k of None \<Rightarrow> 1 | Some (w, f) \<Rightarrow> f + 1))"
  proof (cases "map_of xs k")
    case None
    then have "k \<notin> fst ` set xs" by (simp add: map_of_eq_None_iff)
    moreover from this have "k \<notin> fst ` set (tl xs)" by (cases xs) auto
    ultimately show ?thesis using None by (simp add: spec_put_def place_map_of)
  next
    case (Some e)
    then show ?thesis by (cases e) (simp add: spec_put_def place_map_of[OF del] same)
  qed
qed

lemma map_of_tl: "distinct (map fst xs) \<Longrightarrow> map_of (tl xs) \<subseteq>\<^sub>m map_of xs"
  by (cases xs) (auto simp: map_le_def dom_def dest: map_of_SomeD intro: rev_image_eqI)

interpretation lfu: bounded_cache LFU_Get LFU_Put lfu_look "\<lambda>c. \<exists>xs. lfu_for c xs" lfu_capacity
proof
  fix s :: LFUCache and k v :: string
  assume "\<exists>xs. lfu_for s xs"
  then obtain xs where xs: "lfu_for s xs" by blast
  note look = lfu_for_look[OF xs] and maps = spec_maps[OF lfu_for_look(5)[OF xs]]
  obtain d where d: "LFU_Get k s = Some (fst (spec_get k xs), d)" "lfu_for d (snd (spec_get k xs))" "lfu_capacity d = lfu_capacity s"
    by (rule LFU_Get_refines[OF xs])
  have "lfu_look d = lfu_look s" using lfu_for_look(1)[OF d(2)] look(1) by (intro ext) (simp add: maps)
  then show "\<exists>s'. LFU_Get k s = Some (found (lfu_look s k), s') \<and> (\<exists>xs. lfu_for s' xs) \<and> lfu_look s' = lfu_look s \<and>
      lfu_capacity s' = lfu_capacity s"
    using d by (auto simp: look(1) maps)
  obtain e where e: "LFU_Put k v s = Some e" "lfu_for e (spec_put (lfu_capacity s) k v xs)" "lfu_capacity e = lfu_capacity s"
    by (rule LFU_Put_refines[OF xs])
  have "lfu_look e j = lfu_look s j \<or> lfu_look e j = None" if "j \<noteq> k" for j
    using that map_of_tl[OF look(5)] unfolding lfu_for_look(1)[OF e(2)] look(1) maps
    by (auto simp: map_le_def dom_def)
  moreover have "lfu_look e k = Some v" by (simp add: lfu_for_look(1)[OF e(2)] maps)
  ultimately show "\<exists>s'. LFU_Put k v s = Some s' \<and> (\<exists>xs. lfu_for s' xs) \<and> lfu_look s' k = Some v \<and>
      lfu_look s' \<subseteq>\<^sub>m (lfu_look s)(k \<mapsto> v) \<and> lfu_capacity s' = lfu_capacity s"
    using e by (fastforce simp: map_le_def)
  have "dom (lfu_look s) = fst ` set xs"
    using look(1) by (auto simp: dom_map_of_conv_image_fst[symmetric] dom_def)
  then have "card (dom (lfu_look s)) \<le> length xs" by (metis card_length length_map set_map)
  then show "int (card (dom (lfu_look s))) \<le> lfu_capacity s" using look(4) by simp
qed

subsection \<open>What the cache promises\<close>

text \<open>C15: From an empty cache of positive capacity no sequence of operations goes wrong, that is, no pointer operation reads
  through \<open>nil\<close>, and the answers are those of a list of entries in the order of eviction: an entry moves behind all
  those used at most as often each time it is used, and a full cache drops the head.  The cache holds the keys of this
  list, with their numbers of uses, and never more than the capacity.\<close>

theorem lfu_refines_list:
  assumes "0 < cap"
  shows "\<exists>c rs c' xs. NewLFUCache cap = Some c \<and> cache_run LFU_Get LFU_Put ops c = Some (rs, c') \<and>
    cache_run (\<lambda>k s. Some (spec_get k s)) (\<lambda>k v s. Some (spec_put cap k v s)) ops [] = Some (rs, xs) \<and>
    (\<forall>k. lfu_Freq k c' = Some (case map_of xs k of None \<Rightarrow> (0, False) | Some (v, f) \<Rightarrow> (f, True))) \<and>
    LFU_Len c' = int (length xs) \<and> int (length xs) \<le> cap \<and> answers_ok Map.empty ops rs"
proof -
  obtain c where c: "NewLFUCache cap = Some c" "lfu_for c []" "lfu_capacity c = cap" by (rule NewLFUCache_for[OF assms])
  then obtain rs c' xs where run: "cache_run LFU_Get LFU_Put ops c = Some (rs, c')"
    "cache_run (\<lambda>k s. Some (spec_get k s)) (\<lambda>k v s. Some (spec_put cap k v s)) ops [] = Some (rs, xs)"
    "lfu_for c' xs" "lfu_capacity c' = cap"
    using lfu_list.run_refines[where cap = cap and s = c and x = "[]" and ops = ops] by blast
  have "lfu_look c \<subseteq>\<^sub>m Map.empty" using lfu_for_look(1)[OF c(2)] by (simp add: map_le_def dom_def)
  then have "answers_ok Map.empty ops rs" using lfu.run_coherent[of c Map.empty ops] c(2) run(1) by auto
  then show ?thesis using c(1) run(1,2,4) lfu_for_look(2,3,4)[OF run(3)] by auto
qed

theorem lfu_refines_list_witness:
  "\<exists>c rs c'. NewLFUCache 3 = Some c \<and> lfu_Freq ''b'' c' = Some (2, True) \<and> lfu_Freq ''c'' c' = Some (0, False) \<and>
    cache_run LFU_Get LFU_Put [CPut ''a'' ''1'', CPut ''b'' ''2'', CPut ''c'' ''3'', CGet ''a'', CGet ''a'', CGet ''b'',
      CPut ''d'' ''4'', CGet ''c''] c = Some (rs, c') \<and>
    rs = [(''1'', True), (''1'', True), (''2'', True), ('''', False)]"
proof -
  let ?ops = "[CPut ''a'' ''1'', CPut ''b'' ''2'', CPut ''c'' ''3'', CGet ''a'', CGet ''a'', CGet ''b'', CPut ''d'' ''4'', CGet ''c'']"
  have "0 < (3 :: int)" by simp
  from lfu_refines_list[OF this, of ?ops] obtain c rs c' xs where run: "NewLFUCache 3 = Some c"
    "cache_run LFU_Get LFU_Put ?ops c = Some (rs, c')"
    "cache_run (\<lambda>k s. Some (spec_get k s)) (\<lambda>k v s. Some (spec_put 3 k v s)) ?ops [] = Some (rs, xs)"
    "\<forall>k. lfu_Freq k c' = Some (case map_of xs k of None \<Rightarrow> (0, False) | Some (v, f) \<Rightarrow> (f, True))" by blast
  have "rs = [(''1'', True), (''1'', True), (''2'', True), ('''', False)] \<and>
      xs = [(''d'', ''4'', 1), (''b'', ''2'', 2), (''a'', ''1'', 3)]"
    using run(3) by (simp add: spec_put_def spec_get_def place_def)
  then show ?thesis using run by auto
qed

text \<open>When the cache is full, a put of a new key drops exactly one entry, and no entry that stays was used less often;
  all others keep their values and their numbers of uses, and the new entry has been used once.\<close>

theorem lfu_evicts_least_used:
  assumes "0 < cap" and "NewLFUCache cap = Some c" and "cache_run LFU_Get LFU_Put ops c = Some (rs, s)"
    and "LFU_Len s = cap" and "lfu_Freq k s = Some (0, False)"
  shows "\<exists>d w f. LFU_Put k v s = Some d \<and> w \<noteq> k \<and> lfu_Freq w s = Some (f, True) \<and> lfu_Freq w d = Some (0, False) \<and>
    lfu_Freq k d = Some (1, True) \<and> lfu_look d k = Some v \<and>
    (\<forall>j. j \<noteq> k \<longrightarrow> j \<noteq> w \<longrightarrow> lfu_Freq j d = lfu_Freq j s \<and> lfu_look d j = lfu_look s j) \<and>
    (\<forall>j g. lfu_Freq j s = Some (g, True) \<longrightarrow> f \<le> g)"
proof -
  have "lfu_for c [] \<and> lfu_capacity c = cap"
    using NewLFUCache_for[OF assms(1)] assms(2) by (metis option.inject)
  from lfu_list.run_refines[OF this, of ops] assms(3) obtain xs where xs: "lfu_for s xs" "lfu_capacity s = cap" by auto
  note look = lfu_for_look[OF xs(1)]
  have len: "int (length xs) = cap" using look(3) assms(4) by simp
  obtain w u f ys where xs_eq: "xs = (w, u, f) # ys" using len assms(1) by (cases xs) auto
  have miss: "map_of xs k = None" using look(2)[of k] assms(5) by (auto split: option.splits)
  obtain d where d: "LFU_Put k v s = Some d" "lfu_for d (spec_put (lfu_capacity s) k v xs)" by (rule LFU_Put_refines[OF xs(1)])
  have map: "map_of (spec_put (lfu_capacity s) k v xs) = (map_of ys)(k \<mapsto> (v, 1))"
    using spec_maps(3)[OF look(5), of "lfu_capacity s" k v] miss len xs(2) by (simp add: xs_eq)
  note after = lfu_for_look(1,2)[OF d(2), unfolded map]
  have w: "w \<noteq> k" "map_of ys w = None" using miss look(5) by (auto simp: xs_eq map_of_eq_None_iff)
  have others: "map_of ys j = map_of xs j" if "j \<noteq> w" for j using that by (simp add: xs_eq)
  have least: "f \<le> g" if "lfu_Freq j s = Some (g, True)" for j g
  proof -
    have "map_of xs j \<noteq> None"
    proof
      assume "map_of xs j = None"
      then show False using look(2)[of j] that by simp
    qed
    then obtain v' g' where at: "map_of xs j = Some (v', g')" by auto
    then have "g' = g" using look(2)[of j] that by simp
    with at have "map_of xs j = Some (v', g)" by simp
    then have "(j, v', g) \<in> set xs" by (rule map_of_SomeD)
    then show ?thesis using look(6) by (auto simp: xs_eq)
  qed
  show ?thesis
    using d(1) w least look(1,2) after others by (intro exI[of _ d] exI[of _ w] exI[of _ f]) (simp add: xs_eq)
qed

theorem lfu_evicts_least_used_witness:
  "\<exists>c rs s d w. NewLFUCache 2 = Some c \<and>
    cache_run LFU_Get LFU_Put [CPut ''a'' ''1'', CPut ''b'' ''2'', CGet ''a''] c = Some (rs, s) \<and>
    LFU_Put ''c'' ''3'' s = Some d \<and> lfu_Freq w s = Some (1, True) \<and> lfu_Freq w d = Some (0, False) \<and>
    lfu_Freq ''c'' d = Some (1, True)"
proof -
  let ?ops = "[CPut ''a'' ''1'', CPut ''b'' ''2'', CGet ''a'']"
  have two: "0 < (2 :: int)" by simp
  obtain c where c: "NewLFUCache 2 = Some c" "lfu_for c []" "lfu_capacity c = 2" by (rule NewLFUCache_for[OF two])
  then obtain rs s xs where run: "cache_run LFU_Get LFU_Put ?ops c = Some (rs, s)"
    "cache_run (\<lambda>k s. Some (spec_get k s)) (\<lambda>k v s. Some (spec_put 2 k v s)) ?ops [] = Some (rs, xs)" "lfu_for s xs"
    using lfu_list.run_refines[where cap = 2 and s = c and x = "[]" and ops = ?ops] by blast
  have xs: "xs = [(''b'', ''2'', 1), (''a'', ''1'', 2)]"
    using run(2) by (simp add: spec_put_def spec_get_def place_def)
  have obs: "LFU_Len s = 2" "lfu_Freq ''c'' s = Some (0, False)" "lfu_Freq ''b'' s = Some (1, True)"
    using lfu_for_look(2,3)[OF run(3)] by (simp_all add: xs)
  obtain d w f where d: "LFU_Put ''c'' ''3'' s = Some d" "lfu_Freq w s = Some (f, True)" "lfu_Freq w d = Some (0, False)"
    "lfu_Freq ''c'' d = Some (1, True)" "\<forall>j g. lfu_Freq j s = Some (g, True) \<longrightarrow> f \<le> g"
    using lfu_evicts_least_used[OF two c(1) run(1) obs(1,2), of "''3''"] by (elim exE conjE)
  have "f \<le> 1" using d(5) obs(3) by blast
  moreover have "f = 1 \<or> f = 2" using d(2) lfu_for_look(2)[OF run(3), of w] by (auto simp: xs split: if_splits)
  ultimately have "lfu_Freq w s = Some (1, True)" using d(2) by auto
  then show ?thesis using c(1) run(1) d(1,3,4) by (intro exI conjI)
qed

end
