(* ===== verification/Snowflake.thy ===== *)
theory Snowflake
  imports Prelude "HOL-Library.Monad_Syntax"
begin

text \<open>
  The 64-bit ID generator (\<^verbatim>\<open>code/snowflake_id/snowflake.go\<close>).  A clock is the sequence of its readings in milliseconds,
  and a call takes the number of readings made before and returns the number made after it, so a clock may stand
  still, jump and run backwards.  \<open>None\<close> is a call that never returns because it waits for a
  reading that does not come.  Differences of readings wrap at 64 bits as in Go.
\<close>

unbundle bit_operations_syntax

abbreviation (input) timestampBits :: nat where "timestampBits \<equiv> 41"
abbreviation (input) machineShift :: nat where "machineShift \<equiv> 12"
abbreviation (input) timestampShift :: nat where "timestampShift \<equiv> 22"

definition maxMachineID :: int where
  "maxMachineID = -1 XOR push_bit 10 (-1)"

definition maxSequence :: int where
  "maxSequence = -1 XOR push_bit 12 (-1)"

definition Epoch :: int where
  "Epoch = 1577836800000"

datatype snow_error = MachineOutOfRange int | ErrClockBackwards int | BeforeEpoch | TimestampOverflow

record Generator =
  machineID :: int
  g_sequence :: int
  lastMilli :: int
  maxBackwardWait :: int

text \<open>A duration in nanoseconds: 5 milliseconds.\<close>

definition NewGenerator :: "int \<Rightarrow> snow_error + Generator" where
  "NewGenerator m =
     (if m < 0 \<or> m > maxMachineID then Inl (MachineOutOfRange m)
      else Inr \<lparr>machineID = m, g_sequence = 0, lastMilli = -1, maxBackwardWait = 5000000\<rparr>)"

text \<open>The two waiting loops: the value of \<open>now\<close> they end with and the number of readings.\<close>

partial_function (option) wait_until :: "(nat \<Rightarrow> int) \<Rightarrow> int \<Rightarrow> int \<Rightarrow> nat \<Rightarrow> (int \<times> nat) option" where
  "wait_until clk t now n = (if now < t then wait_until clk t (clk n) (n + 1) else Some (now, n))"

partial_function (option) spin_past :: "(nat \<Rightarrow> int) \<Rightarrow> int \<Rightarrow> int \<Rightarrow> nat \<Rightarrow> (int \<times> nat) option" where
  "spin_past clk t now n = (if now \<le> t then spin_past clk t (clk n) (n + 1) else Some (now, n))"

text \<open>The end of \<open>Next\<close>, once \<open>now\<close> and the sequence number are fixed.\<close>

definition snow_finish :: "int \<Rightarrow> Generator \<Rightarrow> (snow_error + int) \<times> Generator" where
  "snow_finish now g =
     (let g1 = g\<lparr>lastMilli := now\<rparr>; elapsed = wrap64 (now - Epoch)
      in if elapsed < 0 then (Inl BeforeEpoch, g1)
         else if elapsed \<ge> push_bit timestampBits 1 then (Inl TimestampOverflow, g1)
         else (Inr (push_bit timestampShift elapsed OR push_bit machineShift (machineID g) OR g_sequence g), g1))"

definition snow_Next :: "(nat \<Rightarrow> int) \<Rightarrow> nat \<Rightarrow> Generator \<Rightarrow> (((snow_error + int) \<times> Generator) \<times> nat) option" where
  "snow_Next clk n g =
     (let now = clk n; drift = wrap64 (wrap64 (lastMilli g - now) * 1000000) in
      if now < lastMilli g \<and> drift > maxBackwardWait g
      then Some ((Inl (ErrClockBackwards drift), g), n + 1)
      else do {
        (now, n) \<leftarrow> wait_until clk (lastMilli g) now (n + 1);
        if now = lastMilli g then do {
          let g1 = g\<lparr>g_sequence := (g_sequence g + 1) AND maxSequence\<rparr>;
          if g_sequence g1 = 0 then do {
            (now, n) \<leftarrow> spin_past clk (lastMilli g1) now n;
            Some (snow_finish now g1, n) }
          else Some (snow_finish now g1, n) }
        else Some (snow_finish now (g\<lparr>g_sequence := 0\<rparr>), n) })"

text \<open>The creation time in milliseconds since 1970, the machine and the sequence number of an ID.\<close>

definition snow_Parse :: "int \<Rightarrow> int \<times> int \<times> int" where
  "snow_Parse i =
     (drop_bit timestampShift i + Epoch, drop_bit machineShift i AND maxMachineID, i AND maxSequence)"

definition MaxMachineID :: int where
  "MaxMachineID = maxMachineID"

definition MaxSequence :: int where
  "MaxSequence = maxSequence"

text \<open>The outcomes of consecutive calls.\<close>

fun snow_run :: "(nat \<Rightarrow> int) \<Rightarrow> nat \<Rightarrow> nat \<Rightarrow> Generator \<Rightarrow> (snow_error + int) list option" where
  "snow_run clk 0 n g = Some []"
| "snow_run clk (Suc k) n g = do {
     ((r, g1), n1) \<leftarrow> snow_Next clk n g;
     rs \<leftarrow> snow_run clk k n1 g1;
     Some (r # rs) }"

definition snow_ids :: "(snow_error + int) list \<Rightarrow> int list" where
  "snow_ids rs = concat (map (\<lambda>r. case r of Inl e \<Rightarrow> [] | Inr i \<Rightarrow> [i]) rs)"

subsection \<open>Packed fields\<close>

lemma maxima [simp]: "maxMachineID = 1023" "maxSequence = 4095"
  by (simp_all add: maxMachineID_def maxSequence_def mask_eq_exp_minus_1)

lemma and_mask_mod: "x AND 1023 = x mod 1024" "x AND 4095 = x mod 4096" for x :: int
proof -
  have "take_bit 10 x = x AND mask 10" "take_bit 12 x = x AND mask 12" by (rule take_bit_eq_mask)+
  moreover have "mask 10 = (1023 :: int)" "mask 12 = (4095 :: int)" unfolding mask_eq_exp_minus_1 by simp_all
  ultimately show "x AND 1023 = x mod 1024" "x AND 4095 = x mod 4096" by (simp_all add: take_bit_eq_mod)
qed

lemma push_or: "0 \<le> s \<Longrightarrow> s < 2 ^ n \<Longrightarrow> push_bit n x OR s = x * 2 ^ n + s" for x s :: int
proof -
  assume "0 \<le> s" "s < 2 ^ n"
  then have s: "take_bit n s = s" by (simp add: take_bit_int_eq_self)
  have "push_bit n x AND s = 0"
    by (subst s[symmetric]) (auto simp: bit_eq_iff bit_simps)
  then have "push_bit n x + s = push_bit n x OR s" by (rule disjunctive_add_eq_or)
  then show ?thesis by (simp add: push_bit_eq_mult)
qed

definition packed :: "int \<Rightarrow> int \<Rightarrow> int \<Rightarrow> int" where
  "packed e m s = e * 2 ^ 22 + m * 2 ^ 12 + s"

lemma pack_or:
  assumes "0 \<le> m" "m < 1024" "0 \<le> s" "s < 4096"
  shows "push_bit timestampShift e OR push_bit machineShift m OR s = packed e m s"
proof -
  have "push_bit 12 m OR s = m * 2 ^ 12 + s" by (rule push_or) (use assms in simp_all)
  moreover have "push_bit 22 e OR (m * 2 ^ 12 + s) = e * 2 ^ 22 + (m * 2 ^ 12 + s)"
    by (rule push_or) (use assms in simp_all)
  ultimately show ?thesis by (simp add: packed_def or.assoc)
qed

lemma parse_packed:
  assumes "0 \<le> m" "m < 1024" "0 \<le> s" "s < 4096"
  shows "snow_Parse (packed e m s) = (e + Epoch, m, s)"
proof -
  have "packed e m s div 2 ^ 22 = e" using assms unfolding packed_def
    by (intro int_div_pos_eq[of _ _ _ "m * 2 ^ 12 + s"]) simp_all
  moreover have "packed e m s div 2 ^ 12 = e * 1024 + m" using assms unfolding packed_def
    by (intro int_div_pos_eq[of _ _ _ s]) simp_all
  moreover have "(e * 1024 + m) mod 1024 = m" using assms by simp
  moreover have "packed e m s mod 4096 = s"
    using assms int_mod_pos_eq[of "packed e m s" 4096 "e * 1024 + m" s] by (simp add: packed_def)
  ultimately show ?thesis by (simp add: snow_Parse_def and_mask_mod drop_bit_eq_div)
qed

lemma packed_less:
  assumes "0 \<le> s" "s < 4096" "0 \<le> s'" "s' < 4096"
  shows "e < e' \<or> e = e' \<and> s < s' \<Longrightarrow> packed e m s < packed e' m s'"
  using assms by (auto simp: packed_def)

lemma packed_range:
  assumes "0 \<le> e" "e < 2 ^ 41" "0 \<le> m" "m < 1024" "0 \<le> s" "s < 4096"
  shows "0 \<le> packed e m s \<and> packed e m s < 2 ^ 63"
  using assms by (simp add: packed_def)

subsection \<open>One call\<close>

lemma elapsed_exact:
  assumes "int64 now" and "0 \<le> wrap64 (now - Epoch)" and "wrap64 (now - Epoch) < 2 ^ 41"
  shows "wrap64 (now - Epoch) = now - Epoch"
proof (cases "- (2 ^ 63) \<le> now - Epoch")
  case True
  then show ?thesis using assms(1) by (intro wrap64_id) (simp add: int64_def Epoch_def)
next
  case False
  let ?x = "now - Epoch + 2 ^ 63"
  have "?x mod 2 ^ 64 = (?x + 2 ^ 64) mod 2 ^ 64" by (rule mod_add_self2[symmetric])
  also have "\<dots> = ?x + 2 ^ 64"
    by (rule mod_pos_pos_trivial) (use False assms(1) in \<open>simp_all add: int64_def Epoch_def\<close>)
  finally have "wrap64 (now - Epoch) = now - Epoch + 2 ^ 64"
    by (simp add: wrap64_def signed_take_bit_eq_take_bit_shift take_bit_eq_mod)
  then show ?thesis using assms by (simp add: int64_def Epoch_def)
qed

definition gen_ok :: "Generator \<Rightarrow> bool" where
  "gen_ok g \<longleftrightarrow> 0 \<le> machineID g \<and> machineID g < 1024 \<and> 0 \<le> g_sequence g \<and> g_sequence g < 4096"

text \<open>The last position of a generator in the order of its IDs.\<close>

definition stamp :: "Generator \<Rightarrow> int" where
  "stamp g = packed (lastMilli g - Epoch) (machineID g) (g_sequence g)"

lemma wait_until_ge:
  assumes "wait_until clk t now n = Some (now', n')"
  shows "t \<le> now' \<and> n \<le> n' \<and> (now' = now \<or> now' \<in> range clk)"
proof -
  have "t \<le> fst r \<and> n \<le> snd r \<and> (fst r = now \<or> fst r \<in> range clk)" if ret: "wait_until clk t now n = Some r" for r
    by (rule wait_until.raw_induct[where P = "\<lambda>clk t now n r. t \<le> fst r \<and> n \<le> snd r \<and> (fst r = now \<or> fst r \<in> range clk)",
        OF _ ret]) (fastforce split: if_splits)
  from this[OF assms] show ?thesis by simp
qed

lemma spin_past_gt:
  assumes "spin_past clk t now n = Some (now', n')"
  shows "t < now' \<and> n \<le> n' \<and> (now' = now \<or> now' \<in> range clk)"
proof -
  have "t < fst r \<and> n \<le> snd r \<and> (fst r = now \<or> fst r \<in> range clk)" if ret: "spin_past clk t now n = Some r" for r
    by (rule spin_past.raw_induct[where P = "\<lambda>clk t now n r. t < fst r \<and> n \<le> snd r \<and> (fst r = now \<or> fst r \<in> range clk)",
        OF _ ret]) (fastforce split: if_splits)
  from this[OF assms] show ?thesis by simp
qed

text \<open>What a call does to the generator: nothing when it refuses, else it moves it on to a later stamp, and an ID it returns
  is this stamp.\<close>

lemma snow_Next_cases:
  assumes "snow_Next clk n g = Some ((r, g'), n')" and ok: "gen_ok g"
  obtains (refused) drift where "r = Inl (ErrClockBackwards drift)" and "g' = g" and "n' = n + 1"
  | (finished) now s where "0 \<le> s" and "s < 4096" and "lastMilli g < now \<or> lastMilli g = now \<and> g_sequence g < s"
      and "now \<in> range clk" and "(r, g') = snow_finish now (g\<lparr>g_sequence := s\<rparr>)"
proof -
  let ?drift = "wrap64 (wrap64 (lastMilli g - clk n) * 1000000)"
  show thesis
  proof (cases "clk n < lastMilli g \<and> ?drift > maxBackwardWait g")
    case True
    then show thesis using assms refused by (auto simp: snow_Next_def Let_def)
  next
    case False
    note body = assms(1)[unfolded snow_Next_def Let_def, unfolded if_not_P[OF False]]
    from body obtain now1 n1 where w: "wait_until clk (lastMilli g) (clk n) (n + 1) = Some (now1, n1)"
      by (auto split: bind_splits)
    note body = body[unfolded w Option.bind.bind_lunit prod.case]
    have now1: "lastMilli g \<le> now1" "now1 \<in> range clk" using wait_until_ge[OF w] by auto
    show thesis
    proof (cases "now1 = lastMilli g")
      case new: False
      then show thesis using body now1 finished[of 0 now1] by simp
    next
      case same: True
      let ?s = "(g_sequence g + 1) AND maxSequence"
      have s: "?s = (g_sequence g + 1) mod 4096" by (simp add: and_mask_mod)
      show thesis
      proof (cases "?s = 0")
        case True
        with body same obtain now2 n2 where sp: "spin_past clk (lastMilli g) now1 n1 = Some (now2, n2)"
          and fin: "(r, g') = snow_finish now2 (g\<lparr>g_sequence := 0\<rparr>)"
          by (auto split: bind_splits)
        show thesis using spin_past_gt[OF sp] now1 fin by (intro finished[of 0 now2]) auto
      next
        case nz: False
        have "lastMilli g = now1 \<and> g_sequence g < ?s" if "gen_ok g"
        proof -
          have q: "0 \<le> g_sequence g" "g_sequence g \<le> 4095" using that by (simp_all add: gen_ok_def)
          have "(g_sequence g + 1) mod 4096 \<noteq> 0" using nz s by simp
          then have "g_sequence g \<noteq> 4095" by auto
          then have "?s = g_sequence g + 1" unfolding s using q by (intro mod_pos_pos_trivial) simp_all
          then show ?thesis using same by simp
        qed
        with nz ok show thesis using body same now1 s by (intro finished[of ?s now1]) auto
      qed
    qed
  qed
qed

lemma snow_finish_id:
  assumes "snow_finish now g = (Inr i, g')" and "gen_ok g" and "int64 now"
  shows "i = packed (now - Epoch) (machineID g) (g_sequence g)" and "0 \<le> now - Epoch" and "now - Epoch < 2 ^ 41"
proof -
  have range: "0 \<le> wrap64 (now - Epoch)" "wrap64 (now - Epoch) < 2 ^ 41"
    using assms(1) by (auto simp: snow_finish_def Let_def push_bit_eq_mult split: if_splits)
  have exact: "wrap64 (now - Epoch) = now - Epoch" by (rule elapsed_exact[OF assms(3) range])
  have "i = push_bit timestampShift (wrap64 (now - Epoch)) OR push_bit machineShift (machineID g) OR g_sequence g"
    using assms(1) by (auto simp: snow_finish_def Let_def split: if_splits)
  also have "\<dots> = packed (wrap64 (now - Epoch)) (machineID g) (g_sequence g)"
    by (rule pack_or) (use assms(2) in \<open>simp_all add: gen_ok_def\<close>)
  finally show "i = packed (now - Epoch) (machineID g) (g_sequence g)" by (simp add: exact)
  show "0 \<le> now - Epoch" "now - Epoch < 2 ^ 41" using range by (simp_all add: exact)
qed

lemma snow_finish_state: "snow_finish now g = (r, g') \<Longrightarrow> g' = g\<lparr>lastMilli := now\<rparr>"
  by (auto simp: snow_finish_def Let_def split: if_splits)

lemma snow_Next_stamp:
  assumes call: "snow_Next clk n g = Some ((r, g'), n')" and ok: "gen_ok g" and clk: "\<forall>k. int64 (clk k)"
  shows "gen_ok g' \<and> machineID g' = machineID g \<and> stamp g \<le> stamp g' \<and>
    (\<forall>i. r = Inr i \<longrightarrow> i = stamp g' \<and> stamp g < stamp g' \<and> 0 \<le> i \<and> i < 2 ^ 63 \<and>
      (\<exists>k. snow_Parse i = (clk k, machineID g, g_sequence g')))"
  using call ok
proof (cases rule: snow_Next_cases)
  case (finished now s)
  let ?g = "g\<lparr>g_sequence := s\<rparr>"
  have g': "g' = ?g\<lparr>lastMilli := now\<rparr>" using finished(5) snow_finish_state by metis
  have ok': "gen_ok ?g" using ok finished(1,2) by (simp add: gen_ok_def)
  have lt: "stamp g < stamp g'"
    unfolding stamp_def g' using ok finished(1-3) packed_less[of "g_sequence g" s]
    by (auto simp: gen_ok_def)
  obtain k where k: "now = clk k" using finished(4) by auto
  have "i = stamp g' \<and> 0 \<le> i \<and> i < 2 ^ 63 \<and> (\<exists>k. snow_Parse i = (clk k, machineID g, g_sequence g'))" if "r = Inr i" for i
  proof -
    have "snow_finish now ?g = (Inr i, g')" using finished(5) that by simp
    note facts = snow_finish_id[OF this ok']
    have now: "int64 now" using clk k by simp
    have i: "i = packed (now - Epoch) (machineID g) s" using facts(1)[OF now] by simp
    have "snow_Parse i = (now, machineID g, s)"
      unfolding i using ok finished(1,2) by (subst parse_packed) (simp_all add: gen_ok_def)
    moreover have "0 \<le> i \<and> i < 2 ^ 63"
      unfolding i using ok finished(1,2) facts(2,3)[OF now] by (intro packed_range) (simp_all add: gen_ok_def)
    ultimately show ?thesis using k i by (auto simp: stamp_def g')
  qed
  then show ?thesis using lt ok' by (auto simp: g' gen_ok_def)
qed (use ok in simp)

lemma snow_run_ids:
  assumes "snow_run clk k n g = Some rs" and "gen_ok g" and "\<forall>k. int64 (clk k)"
  shows "sorted_wrt (<) (snow_ids rs) \<and> (\<forall>i \<in> set (snow_ids rs). stamp g < i \<and> 0 \<le> i \<and> i < 2 ^ 63 \<and>
    fst (snow_Parse i) \<in> range clk \<and> fst (snd (snow_Parse i)) = machineID g)"
  using assms(1,2)
proof (induction k arbitrary: n g rs)
  case (Suc k)
  from Suc.prems(1) obtain r g1 n1 rs1 where call: "snow_Next clk n g = Some ((r, g1), n1)"
    and run: "snow_run clk k n1 g1 = Some rs1" and rs: "rs = r # rs1"
    by (auto split: bind_splits)
  note one = snow_Next_stamp[OF call Suc.prems(2) assms(3)]
  note rest = Suc.IH[OF run]
  have ids: "snow_ids rs = (case r of Inl e \<Rightarrow> [] | Inr i \<Rightarrow> [i]) @ snow_ids rs1" by (simp add: snow_ids_def rs)
  have lower: "stamp g < i \<and> 0 \<le> i \<and> i < 2 ^ 63 \<and> fst (snow_Parse i) \<in> range clk \<and>
      fst (snd (snow_Parse i)) = machineID g" if "i \<in> set (snow_ids rs1)" for i
  proof -
    have "stamp g1 < i \<and> 0 \<le> i \<and> i < 2 ^ 63 \<and> fst (snow_Parse i) \<in> range clk \<and>
        fst (snd (snow_Parse i)) = machineID g1" using rest one that by blast
    then show ?thesis using one by (simp add: le_less_trans)
  qed
  show ?case
  proof (cases r)
    case (Inl e)
    then show ?thesis using rest one lower by (simp add: ids)
  next
    case (Inr i)
    then have "i = stamp g1" "stamp g < i" using one by auto
    moreover have "stamp g1 < j" if "j \<in> set (snow_ids rs1)" for j using rest one that by blast
    moreover have "fst (snow_Parse i) \<in> range clk \<and> fst (snd (snow_Parse i)) = machineID g" using one Inr by auto
    moreover have "0 \<le> i \<and> i < 2 ^ 63" using one Inr by auto
    ultimately show ?thesis using rest one lower Inr by (simp add: ids)
  qed
qed (simp add: snow_ids_def)

subsection \<open>The guarantees of a generator\<close>

lemma NewGenerator_ok: "NewGenerator m = Inr g \<Longrightarrow> gen_ok g \<and> machineID g = m"
  by (auto simp: NewGenerator_def gen_ok_def split: if_splits)

text \<open>C22: IDs are unique and increase.  Whatever the clocks do, two generators with different machine IDs never return the
  same ID, and each returns positive 63-bit IDs in strictly increasing order, which parse to the machine and to a
  time its clock showed.\<close>

theorem snow_ids_unique:
  assumes "NewGenerator m = Inr g" and "NewGenerator m' = Inr g'" and "m \<noteq> m'"
    and "\<forall>k. int64 (clk k) \<and> int64 (clk' k)"
    and "snow_run clk k 0 g = Some rs" and "snow_run clk' k' 0 g' = Some rs'"
  shows "sorted_wrt (<) (snow_ids rs) \<and> set (snow_ids rs) \<inter> set (snow_ids rs') = {} \<and>
    (\<forall>i \<in> set (snow_ids rs). 0 \<le> i \<and> i < 2 ^ 63 \<and>
      (\<exists>t s. snow_Parse i = (clk t, m, s)))"
proof -
  have g: "gen_ok g" "machineID g = m" "gen_ok g'" "machineID g' = m'" using assms(1,2) NewGenerator_ok by auto
  note one = snow_run_ids[OF assms(5) g(1)] and two = snow_run_ids[OF assms(6) g(3)]
  have "fst (snd (snow_Parse i)) = m'" if "i \<in> set (snow_ids rs')" for i using two that assms(4) g by blast
  moreover have one': "sorted_wrt (<) (snow_ids rs)" "\<forall>i \<in> set (snow_ids rs). 0 \<le> i \<and> i < 2 ^ 63 \<and>
      fst (snow_Parse i) \<in> range clk \<and> fst (snd (snow_Parse i)) = m"
    using one assms(4) g by blast+
  ultimately have "set (snow_ids rs) \<inter> set (snow_ids rs') = {}" using assms(3) by fastforce
  moreover have "\<exists>t s. snow_Parse i = (clk t, m, s)" if "i \<in> set (snow_ids rs)" for i
    using bspec[OF one'(2) that] by (cases "snow_Parse i") auto
  ultimately show ?thesis using one' by blast
qed

lemma wait_until_returns:
  "clk (n + d) \<ge> t \<Longrightarrow> \<exists>now' n'. wait_until clk t (clk n) (n + 1) = Some (now', n') \<and> n' \<le> n + d + 1 \<and>
    now' = clk (n' - 1) \<and> 0 < n'"
proof (induction d arbitrary: n)
  case 0
  then show ?case by (subst wait_until.simps) simp
next
  case (Suc d)
  show ?case
  proof (cases "clk n < t")
    case True
    have "\<exists>now' n'. wait_until clk t (clk (n + 1)) (n + 1 + 1) = Some (now', n') \<and> n' \<le> n + 1 + d + 1 \<and>
        now' = clk (n' - 1) \<and> 0 < n'"
      by (rule Suc.IH) (use Suc.prems in simp)
    then show ?thesis using True by (subst wait_until.simps) simp
  qed (subst wait_until.simps, simp)
qed

lemma spin_past_returns:
  "clk (n + d) > t \<Longrightarrow> \<exists>now' n'. spin_past clk t (clk n) (n + 1) = Some (now', n') \<and> n' \<le> n + d + 1"
proof (induction d arbitrary: n)
  case 0
  then show ?case by (subst spin_past.simps) simp
next
  case (Suc d)
  show ?case
  proof (cases "clk n \<le> t")
    case True
    have "\<exists>now' n'. spin_past clk t (clk (n + 1)) (n + 1 + 1) = Some (now', n') \<and> n' \<le> n + 1 + d + 1"
      by (rule Suc.IH) (use Suc.prems in simp)
    then show ?thesis using True by (subst spin_past.simps) simp
  qed (subst spin_past.simps, simp)
qed

text \<open>A call returns as soon as the clock passes the last ID.  If some reading from now on is later than the last
  timestamp, \<open>Next\<close> returns after reading the clock no further than that, and refuses, leaving the generator as it was,
  exactly when the first reading is further behind than the tolerated drift.\<close>

theorem snow_Next_returns:
  assumes "lastMilli g < clk (n + d)"
  shows "\<exists>r g' n'. snow_Next clk n g = Some ((r, g'), n') \<and> n < n' \<and> n' \<le> n + d + 1 \<and>
    ((\<exists>drift. r = Inl (ErrClockBackwards drift)) \<longleftrightarrow>
      clk n < lastMilli g \<and> wrap64 (wrap64 (lastMilli g - clk n) * 1000000) > maxBackwardWait g) \<and>
    ((\<exists>drift. r = Inl (ErrClockBackwards drift)) \<longrightarrow> g' = g)"
proof -
  let ?drift = "wrap64 (wrap64 (lastMilli g - clk n) * 1000000)"
  have fin: "\<exists>r' g1. snow_finish now h = (r', g1) \<and> (\<forall>d. r' \<noteq> Inl (ErrClockBackwards d))" for now h
    by (simp add: snow_finish_def Let_def)
  show ?thesis
  proof (cases "clk n < lastMilli g \<and> ?drift > maxBackwardWait g")
    case True
    then show ?thesis by (simp add: snow_Next_def Let_def)
  next
    case False
    obtain now1 n1 where w: "wait_until clk (lastMilli g) (clk n) (n + 1) = Some (now1, n1)" "n1 \<le> n + d + 1"
        "now1 = clk (n1 - 1)" "0 < n1"
      using wait_until_returns[of "lastMilli g" clk n d] assms by fastforce
    have n1: "n + 1 \<le> n1" using wait_until_ge[OF w(1)] by simp
    have body: "snow_Next clk n g = (if now1 = lastMilli g then do {
          let g1 = g\<lparr>g_sequence := (g_sequence g + 1) AND maxSequence\<rparr>;
          if g_sequence g1 = 0 then do {
            (now, n) \<leftarrow> spin_past clk (lastMilli g1) now1 n1;
            Some (snow_finish now g1, n) }
          else Some (snow_finish now1 g1, n1) }
        else Some (snow_finish now1 (g\<lparr>g_sequence := 0\<rparr>), n1))"
      unfolding snow_Next_def Let_def if_not_P[OF False] w(1) by simp
    have "\<exists>now2 h n2. snow_Next clk n g = Some (snow_finish now2 h, n2) \<and> n < n2 \<and> n2 \<le> n + d + 1"
    proof (cases "now1 = lastMilli g \<and> (g_sequence g + 1) AND maxSequence = 0")
      case True
      then have "n1 \<noteq> n + d + 1" using w(3) assms by auto
      then obtain e where e: "n1 + e = n + d" using w(2) by (metis Suc_eq_plus1 le_Suc_eq nat_le_iff_add)
      have again: "clk (n1 - 1) = now1" "n1 - 1 + 1 = n1" using w(3,4) by simp_all
      have idx: "n1 - 1 + (e + 1) = n + d" using e w(4) by simp
      have "clk (n1 - 1 + (e + 1)) > lastMilli g" unfolding idx by (rule assms)
      from spin_past_returns[of "lastMilli g" clk "n1 - 1" "e + 1", OF this] obtain now2 n2
        where sp: "spin_past clk (lastMilli g) now1 n1 = Some (now2, n2)" "n2 \<le> n1 - 1 + (e + 1) + 1"
        unfolding again by blast
      then show ?thesis using True body n1 e w(4) spin_past_gt[OF sp(1)] by (auto simp: Let_def)
    next
      case False
      then show ?thesis using body n1 w(2) by (auto simp: Let_def)
    qed
    then obtain now2 h n2 where r: "snow_Next clk n g = Some (snow_finish now2 h, n2)" "n < n2" "n2 \<le> n + d + 1" by blast
    obtain r' g1 where "snow_finish now2 h = (r', g1)" "\<forall>d. r' \<noteq> Inl (ErrClockBackwards d)" using fin by blast
    then show ?thesis using r False by auto
  qed
qed

subsection \<open>Two machines in the same milliseconds\<close>

text \<open>A clock that shows each millisecond twice.\<close>

definition slow_clock :: "nat \<Rightarrow> int" where
  "slow_clock k = Epoch + min 10 (int (k div 2))"

lemma slow_run: "\<exists>rs. snow_run slow_clock 3 0 \<lparr>machineID = m, g_sequence = 0, lastMilli = -1, maxBackwardWait = 5000000\<rparr> = Some rs"
  by (simp add: numeral_eq_Suc snow_Next_def Let_def wait_until.simps slow_clock_def Epoch_def snow_finish_def maxSequence_def)

theorem snow_ids_unique_witness:
  "\<exists>rs rs'. snow_run slow_clock 3 0 \<lparr>machineID = 1, g_sequence = 0, lastMilli = -1, maxBackwardWait = 5000000\<rparr> = Some rs \<and>
     snow_run slow_clock 3 0 \<lparr>machineID = 2, g_sequence = 0, lastMilli = -1, maxBackwardWait = 5000000\<rparr> = Some rs' \<and>
     sorted_wrt (<) (snow_ids rs) \<and> set (snow_ids rs) \<inter> set (snow_ids rs') = {}"
proof -
  obtain rs rs' where runs:
    "snow_run slow_clock 3 0 \<lparr>machineID = 1, g_sequence = 0, lastMilli = -1, maxBackwardWait = 5000000\<rparr> = Some rs"
    "snow_run slow_clock 3 0 \<lparr>machineID = 2, g_sequence = 0, lastMilli = -1, maxBackwardWait = 5000000\<rparr> = Some rs'"
    using slow_run by blast
  have "int64 (slow_clock k)" for k by (simp add: slow_clock_def int64_def Epoch_def)
  then show ?thesis
    using snow_ids_unique[of 1 _ 2 _ slow_clock slow_clock, OF _ _ _ _ runs] runs by (auto simp: NewGenerator_def)
qed

theorem snow_Next_returns_witness:
  "\<exists>r g' n'. snow_Next slow_clock 0 \<lparr>machineID = 1, g_sequence = 4095, lastMilli = Epoch, maxBackwardWait = 5000000\<rparr> =
     Some ((r, g'), n') \<and> n' \<le> 3"
  using snow_Next_returns[of "\<lparr>machineID = 1, g_sequence = 4095, lastMilli = Epoch, maxBackwardWait = 5000000\<rparr>" slow_clock 0 2]
  by (auto simp: slow_clock_def)

end
