(* ===== verification/Bulkhead.thy ===== *)
theory Bulkhead
  imports Prelude
begin

text \<open>
  The bulkhead (\<^verbatim>\<open>code/bulkhead_semaphore/bulkhead.go\<close>): a counting semaphore made of a buffered channel, called by any
  number of goroutines.  Every channel operation and every atomic addition of a call is a step of its own, so the callers
  interleave as they do in Go.  A \<open>select\<close> takes any ready case; its \<open>default\<close> only when no other is ready.
\<close>

subsection \<open>The bulkhead and its callers\<close>

record Bulkhead =
  bh_name :: string
  bh_capacity :: nat
  bh_slots :: nat
  bh_active :: int
  bh_accepted :: int
  bh_rejected :: int

definition NewBulkhead :: "string \<Rightarrow> int \<Rightarrow> Bulkhead option" where
  "NewBulkhead name capacity =
     (if capacity \<le> 0 then None
      else Some \<lparr>bh_name = name, bh_capacity = nat capacity, bh_slots = 0, bh_active = 0, bh_accepted = 0, bh_rejected = 0\<rparr>)"

datatype ctx_err = DeadlineExceeded | Canceled

text \<open>How a call ends: with \<open>ErrFull\<close>, the error of the context, the result of \<open>fn\<close> (\<open>None\<close> is nil) or its panic.\<close>

datatype call_outcome = ErrFull | CtxErr ctx_err | FnResult "string option" | FnPanic

text \<open>Where a call is: before its \<open>select\<close>, before \<open>rejected.Add\<close>, before \<open>accepted.Add\<close>, before \<open>active.Add\<close>, in \<open>fn\<close>,
  in the deferred function before \<open>active.Add(-1)\<close> and before the receive, and back at its caller.\<close>

datatype pc = DoSelect | TrySelect | Rejecting call_outcome | Accepting | Activating | Running
  | Deactivating call_outcome | Releasing call_outcome | Returned call_outcome

text \<open>One move of a call; the contexts of \<open>Do\<close> expire or are cancelled only if \<open>expiry\<close>.\<close>

inductive bh_move :: "bool \<Rightarrow> Bulkhead \<Rightarrow> pc \<Rightarrow> Bulkhead \<Rightarrow> pc \<Rightarrow> bool" for expiry :: bool where
  Do_send: "bh_slots b < bh_capacity b \<Longrightarrow> bh_move expiry b DoSelect (b\<lparr>bh_slots := bh_slots b + 1\<rparr>) Accepting"
| Do_ctx: "expiry \<Longrightarrow> bh_move expiry b DoSelect b (Rejecting (if e = DeadlineExceeded then ErrFull else CtxErr e))"
| Try_send: "bh_slots b < bh_capacity b \<Longrightarrow> bh_move expiry b TrySelect (b\<lparr>bh_slots := bh_slots b + 1\<rparr>) Accepting"
| Try_default: "\<not> bh_slots b < bh_capacity b \<Longrightarrow> bh_move expiry b TrySelect b (Rejecting ErrFull)"
| Reject: "bh_move expiry b (Rejecting r) (b\<lparr>bh_rejected := bh_rejected b + 1\<rparr>) (Returned r)"
| Accept: "bh_move expiry b Accepting (b\<lparr>bh_accepted := bh_accepted b + 1\<rparr>) Activating"
| Activate: "bh_move expiry b Activating (b\<lparr>bh_active := bh_active b + 1\<rparr>) Running"
| Fn_return: "bh_move expiry b Running b (Deactivating (FnResult r))"
| Fn_panic: "bh_move expiry b Running b (Deactivating FnPanic)"
| Deactivate: "bh_move expiry b (Deactivating r) (b\<lparr>bh_active := bh_active b - 1\<rparr>) (Releasing r)"
| Release: "0 < bh_slots b \<Longrightarrow> bh_move expiry b (Releasing r) (b\<lparr>bh_slots := bh_slots b - 1\<rparr>) (Returned r)"

type_synonym bh_system = "Bulkhead \<times> pc list"

inductive caller_moves :: "bool \<Rightarrow> bh_system \<Rightarrow> bh_system \<Rightarrow> bool" for expiry :: bool where
  "i < length ps \<Longrightarrow> bh_move expiry b (ps ! i) b' p \<Longrightarrow> caller_moves expiry (b, ps) (b', ps[i := p])"

text \<open>New calls of \<open>Do\<close> and \<open>TryDo\<close> may come at any time.\<close>

inductive bh_step :: "bh_system \<Rightarrow> bh_system \<Rightarrow> bool" where
  CallDo: "bh_step (b, ps) (b, ps @ [DoSelect])"
| CallTryDo: "bh_step (b, ps) (b, ps @ [TrySelect])"
| Move: "caller_moves expiry s s' \<Longrightarrow> bh_step s s'"

definition bh_init :: "bh_system \<Rightarrow> bool" where
  "bh_init s \<longleftrightarrow> (\<exists>name capacity b. NewBulkhead name capacity = Some b \<and> s = (b, []))"

definition Capacity :: "Bulkhead \<Rightarrow> int" where "Capacity b = int (bh_capacity b)"
definition Active :: "Bulkhead \<Rightarrow> int" where "Active b = bh_active b"
definition Accepted :: "Bulkhead \<Rightarrow> int" where "Accepted b = bh_accepted b"
definition Rejected :: "Bulkhead \<Rightarrow> int" where "Rejected b = bh_rejected b"

inductive_simps bh_move_simps [simp]:
  "bh_move expiry b Running b' p'" "bh_move expiry b (Returned r) b' p'" "bh_move expiry b (Releasing r) b' p'"

subsection \<open>Counting callers\<close>

fun served :: "call_outcome \<Rightarrow> bool" where
  "served (FnResult r) = True"
| "served FnPanic = True"
| "served _ = False"

fun holds_slot :: "pc \<Rightarrow> bool" where
  "holds_slot Accepting = True"
| "holds_slot Activating = True"
| "holds_slot Running = True"
| "holds_slot (Deactivating r) = True"
| "holds_slot (Releasing r) = True"
| "holds_slot _ = False"

fun is_active :: "pc \<Rightarrow> bool" where
  "is_active Running = True"
| "is_active (Deactivating r) = True"
| "is_active _ = False"

fun was_accepted :: "pc \<Rightarrow> bool" where
  "was_accepted Activating = True"
| "was_accepted Running = True"
| "was_accepted (Deactivating r) = True"
| "was_accepted (Releasing r) = True"
| "was_accepted (Returned r) = served r"
| "was_accepted _ = False"

fun was_rejected :: "pc \<Rightarrow> bool" where
  "was_rejected (Returned r) = (\<not> served r)"
| "was_rejected _ = False"

fun sane :: "pc \<Rightarrow> bool" where
  "sane (Rejecting r) = (\<not> served r)"
| "sane (Deactivating r) = served r"
| "sane (Releasing r) = served r"
| "sane _ = True"

definition bh_inv :: "bh_system \<Rightarrow> bool" where
  "bh_inv s = (case s of (b, ps) \<Rightarrow> (\<forall>p \<in> set ps. sane p) \<and> 0 < bh_capacity b \<and> bh_slots b \<le> bh_capacity b \<and>
     bh_slots b = count_if holds_slot ps \<and> bh_active b = int (count_if is_active ps) \<and>
     bh_accepted b = int (count_if was_accepted ps) \<and> bh_rejected b = int (count_if was_rejected ps))"

lemma bh_inv_move:
  assumes "bh_inv s" and "caller_moves expiry s s'"
  shows "bh_inv s'"
  using assms(2)
proof cases
  case (1 i ps b b' p)
  note upd = count_if_update[OF 1(3), of _ p]
  have sane: "sane (ps ! i)" "\<forall>p \<in> set ps. sane p" using assms(1) 1 by (auto simp: bh_inv_def)
  have "bh_inv (b', ps[i := p])"
    using 1(4) assms(1) upd[of holds_slot] upd[of is_active] upd[of was_accepted] upd[of was_rejected] sane
      set_update_subset_insert[of ps i p] unfolding 1(1)
    by (cases rule: bh_move.cases) (auto simp: bh_inv_def)
  then show ?thesis using 1(2) by simp
qed

interpretation bulkhead: step_system bh_init bh_step bh_inv
proof
  show "bh_inv s" if "bh_init s" for s
    using that by (auto simp: bh_init_def bh_inv_def NewBulkhead_def split: if_splits)
  show "bh_inv t" if "bh_inv s" "bh_step s t" for s t
    using that(2)
  proof cases
    case Move
    then show ?thesis using bh_inv_move[OF that(1)] by simp
  qed (use that(1) in \<open>auto simp: bh_inv_def\<close>)
qed

subsection \<open>Properties\<close>

text \<open>C25: However the callers interleave, at most \<open>Capacity\<close> of them are in \<open>fn\<close>, \<open>Active\<close> counts them together with those
  that have just left, and a slot of the channel is taken exactly by the callers between the send and the receive.\<close>

theorem bulkhead_bounds_concurrency:
  assumes "reach bh_init bh_step (b, ps)"
  shows "int (count_if (\<lambda>p. p = Running) ps) \<le> Active b \<and> Active b \<le> Capacity b \<and>
    bh_slots b = count_if holds_slot ps \<and> bh_slots b \<le> bh_capacity b"
proof -
  have inv: "bh_inv (b, ps)" using assms by (rule bulkhead.reachable_inv)
  have "count_if (\<lambda>p. p = Running) ps \<le> count_if is_active ps" "count_if is_active ps \<le> count_if holds_slot ps"
    by (rule count_if_mono; auto elim: is_active.elims)+
  then show ?thesis using inv by (simp add: bh_inv_def Active_def Capacity_def)
qed

text \<open>Every move brings its call nearer to its end.\<close>

fun rank :: "pc \<Rightarrow> nat" where
  "rank DoSelect = 6"
| "rank TrySelect = 6"
| "rank (Rejecting r) = 1"
| "rank Accepting = 5"
| "rank Activating = 4"
| "rank Running = 3"
| "rank (Deactivating r) = 2"
| "rank (Releasing r) = 1"
| "rank (Returned r) = 0"

lemma move_rank:
  assumes "caller_moves expiry s s'"
  shows "sum_list (map rank (snd s')) < sum_list (map rank (snd s))"
  using assms
proof cases
  case (1 i ps b b' p)
  have "rank p < rank (ps ! i)" using 1(4) by cases auto
  then show ?thesis using 1(1-3) sum_list_update_rank[of i ps rank p] by simp
qed

lemma holder_moves:
  assumes inv: "bh_inv (b, ps)" and i: "i < length ps" and p: "holds_slot (ps ! i) \<or> (\<exists>r. ps ! i = Rejecting r) \<or> ps ! i = TrySelect"
  shows "\<exists>s'. caller_moves expiry (b, ps) s'"
proof -
  have "\<exists>b' p'. bh_move expiry b (ps ! i) b' p'"
  proof (cases "ps ! i")
    case (Releasing r)
    then have "0 < bh_slots b" using inv i count_if_pos[of i ps holds_slot] by (simp add: bh_inv_def)
    then show ?thesis using Releasing by (auto intro: bh_move.intros)
  next
    case TrySelect
    then show ?thesis by (cases "bh_slots b < bh_capacity b") (auto intro: bh_move.intros)
  qed (use p in \<open>auto intro: bh_move.intros\<close>)
  then show ?thesis using i caller_moves.intros by blast
qed

lemma move_progress:
  assumes inv: "bh_inv (b, ps)" and i: "i < length ps" "\<forall>r. ps ! i \<noteq> Returned r"
  shows "\<exists>s'. caller_moves expiry (b, ps) s'"
proof (cases "\<exists>j < length ps. holds_slot (ps ! j)")
  case True
  then show ?thesis using holder_moves[OF inv] by blast
next
  case False
  then have "count_if holds_slot ps = 0" by (auto simp: count_if_zero in_set_conv_nth)
  then have free: "bh_slots b < bh_capacity b" using inv by (simp add: bh_inv_def)
  show ?thesis
  proof (cases "ps ! i = DoSelect")
    case True
    then show ?thesis using caller_moves.intros[OF i(1)] Do_send[OF free] by metis
  next
    case other: False
    then have "holds_slot (ps ! i) \<or> (\<exists>r. ps ! i = Rejecting r) \<or> ps ! i = TrySelect"
      using i(2) by (cases "ps ! i") auto
    then show ?thesis by (rule holder_moves[OF inv i(1)])
  qed
qed

text \<open>Once no new call comes, the calls always end, whether contexts expire or not: no execution goes on for ever, and one that
  cannot go on has every call back at its caller with all slots released, no call active, and each call counted once, as
  accepted if \<open>fn\<close> ran (even if it panicked) and as rejected if not.\<close>

theorem bulkhead_drains:
  assumes "reach bh_init bh_step s"
  shows "\<not> (\<exists>run. run 0 = s \<and> (\<forall>i. caller_moves expiry (run i) (run (Suc i)))) \<and>
    (\<forall>b ps. (caller_moves expiry)\<^sup>*\<^sup>* s (b, ps) \<longrightarrow> \<not> (\<exists>s'. caller_moves expiry (b, ps) s') \<longrightarrow>
      (\<forall>p \<in> set ps. \<exists>r. p = Returned r) \<and> bh_slots b = 0 \<and> Active b = 0 \<and>
      Accepted b = int (count_if (\<lambda>p. \<exists>r. p = Returned r \<and> served r) ps) \<and> Accepted b + Rejected b = int (length ps))"
proof (intro conjI allI impI)
  show "\<not> (\<exists>run. run 0 = s \<and> (\<forall>i. caller_moves expiry (run i) (run (Suc i))))"
  proof
    assume "\<exists>run. run 0 = s \<and> (\<forall>i. caller_moves expiry (run i) (run (Suc i)))"
    then obtain run where run: "\<And>i. caller_moves expiry (run i) (run (Suc i))" by blast
    have "\<not> (\<forall>i. sum_list (map rank (snd (run (Suc i)))) < sum_list (map rank (snd (run i))))" by (rule no_descent)
    then show False using move_rank[OF run] by blast
  qed
  fix b ps
  assume run: "(caller_moves expiry)\<^sup>*\<^sup>* s (b, ps)" and stuck: "\<not> (\<exists>s'. caller_moves expiry (b, ps) s')"
  from run have "bh_inv (b, ps)"
  proof (induction rule: rtranclp_induct)
    case base
    show ?case using assms by (rule bulkhead.reachable_inv)
  qed (rule bh_inv_move)
  have all: "\<forall>p \<in> set ps. \<exists>r. p = Returned r"
  proof
    fix p assume "p \<in> set ps"
    then obtain i where "i < length ps" "ps ! i = p" by (auto simp: in_set_conv_nth)
    then show "\<exists>r. p = Returned r" using move_progress[OF \<open>bh_inv (b, ps)\<close>] stuck by blast
  qed
  then have none: "count_if holds_slot ps = 0" "count_if is_active ps = 0" by (auto simp: count_if_zero)
  have acc: "count_if was_accepted ps = count_if (\<lambda>p. \<exists>r. p = Returned r \<and> served r) ps"
    unfolding count_if_def by (rule arg_cong[of _ _ length], rule filter_cong) (use all in auto)
  have "count_if was_accepted ps + count_if was_rejected ps = length ps"
    by (rule count_if_partition) (use all in auto)
  with all none acc \<open>bh_inv (b, ps)\<close> show "\<forall>p \<in> set ps. \<exists>r. p = Returned r" "bh_slots b = 0" "Active b = 0"
    "Accepted b = int (count_if (\<lambda>p. \<exists>r. p = Returned r \<and> served r) ps)" "Accepted b + Rejected b = int (length ps)"
    by (simp_all add: bh_inv_def Active_def Accepted_def Rejected_def)
qed

text \<open>A run for the witnesses: capacity one, a call in \<open>fn\<close>, and a \<open>TryDo\<close> turned away.\<close>

lemma move_at:
  "bh_move expiry b p b' p' \<Longrightarrow> i < length ps \<Longrightarrow> ps ! i = p \<Longrightarrow> c = b' \<Longrightarrow> qs = ps[i := p'] \<Longrightarrow> caller_moves expiry (b, ps) (c, qs)"
  by (auto intro: caller_moves.intros)

abbreviation demo_b :: "nat \<Rightarrow> int \<Rightarrow> int \<Rightarrow> int \<Rightarrow> Bulkhead" where
  "demo_b s a acc rej \<equiv>
    \<lparr>bh_name = ''db'', bh_capacity = 1, bh_slots = s, bh_active = a, bh_accepted = acc, bh_rejected = rej\<rparr>"

lemma demo_reachable: "reach bh_init bh_step (demo_b 1 1 1 1, [Running, Returned ErrFull])"
proof -
  have "bh_init (demo_b 0 0 0 0, [])" unfolding bh_init_def
    by (intro exI[of _ "''db''"] exI[of _ 1] exI[of _ "demo_b 0 0 0 0"]) (simp add: NewBulkhead_def)
  then have "reach bh_init bh_step (demo_b 0 0 0 0, [])" by (rule reach_init)
  then have "reach bh_init bh_step (demo_b 0 0 0 0, [DoSelect])" by (rule reach_step) (use CallDo[of _ "[]"] in simp)
  then have "reach bh_init bh_step (demo_b 0 0 0 0, [DoSelect, TrySelect])"
    by (rule reach_step) (use CallTryDo[of _ "[DoSelect]"] in simp)
  then have "reach bh_init bh_step (demo_b 1 0 0 0, [Accepting, TrySelect])"
    by (rule reach_step) (rule Move, rule move_at[OF Do_send[of _ True], of _ 0]; simp)
  then have "reach bh_init bh_step (demo_b 1 0 1 0, [Activating, TrySelect])"
    by (rule reach_step) (rule Move, rule move_at[OF Accept[of True], of 0]; simp)
  then have "reach bh_init bh_step (demo_b 1 1 1 0, [Running, TrySelect])"
    by (rule reach_step) (rule Move, rule move_at[OF Activate[of True], of 0]; simp)
  then have "reach bh_init bh_step (demo_b 1 1 1 0, [Running, Rejecting ErrFull])"
    by (rule reach_step) (rule Move, rule move_at[OF Try_default[of _ True], of _ 1]; simp)
  then show ?thesis by (rule reach_step) (rule Move, rule move_at[OF Reject[of True], of 1]; simp)
qed

theorem bulkhead_bounds_concurrency_witness:
  "reach bh_init bh_step (demo_b 1 1 1 1, [Running, Returned ErrFull]) \<and>
    int (count_if (\<lambda>p. p = Running) [Running, Returned ErrFull]) = 1 \<and> Active (demo_b 1 1 1 1) \<le> 1"
  using bulkhead_bounds_concurrency[OF demo_reachable] demo_reachable by (simp add: Capacity_def)

theorem bulkhead_drains_witness:
  "\<exists>b. (caller_moves False)\<^sup>*\<^sup>* (demo_b 1 1 1 1, [Running, Returned ErrFull]) (b, [Returned FnPanic, Returned ErrFull]) \<and>
    bh_slots b = 0 \<and> Accepted b + Rejected b = 2"
proof -
  have "(caller_moves False)\<^sup>*\<^sup>* (demo_b 1 1 1 1, [Running, Returned ErrFull]) (demo_b 1 1 1 1, [Deactivating FnPanic, Returned ErrFull])"
    by (rule r_into_rtranclp) (rule move_at[OF Fn_panic, of 0]; simp)
  then have "(caller_moves False)\<^sup>*\<^sup>* (demo_b 1 1 1 1, [Running, Returned ErrFull]) (demo_b 1 0 1 1, [Releasing FnPanic, Returned ErrFull])"
    by (rule rtranclp.rtrancl_into_rtrancl) (rule move_at[OF Deactivate, of 0]; simp)
  then have run: "(caller_moves False)\<^sup>*\<^sup>* (demo_b 1 1 1 1, [Running, Returned ErrFull]) (demo_b 0 0 1 1, [Returned FnPanic, Returned ErrFull])"
    by (rule rtranclp.rtrancl_into_rtrancl) (rule move_at[OF Release, of _ 0]; simp)
  have "\<not> (\<exists>s'. caller_moves False (demo_b 0 0 1 1, [Returned FnPanic, Returned ErrFull]) s')"
    by (auto elim!: caller_moves.cases simp: nth_Cons split: nat.splits)
  from bulkhead_drains[OF demo_reachable, of False, THEN conjunct2, THEN spec, THEN spec, THEN mp, THEN mp, OF run this]
  show ?thesis by (intro exI[of _ "demo_b 0 0 1 1"] conjI run) simp_all
qed

end
