(* ===== verification/Pipeline.thy ===== *)
theory Pipeline
  imports Prelude
begin

text \<open>
  The worker pool pipeline (\<^verbatim>\<open>code/worker_pool_pipeline/pipeline.go\<close>): \<open>Produce\<close>, any number of stages attached with \<open>Run\<close>, \<open>Collect\<close>, and
  the goroutines the caller lets read error channels.  Every channel operation, every atomic operation and every
  branch of a \<open>select\<close> is a step, and the goroutines interleave in any order.  A goroutine offers an action; the
  channels say when the action is possible: a send needs room in the buffer or a receiver that waits.
\<close>

subsection \<open>Jobs, channels and metrics\<close>

record Job =
  job_ID :: int
  job_Value :: int

record JobResult =
  res_JobID :: int
  res_Value :: int
  res_Err :: string

text \<open>What travels on a channel: jobs between the stages, results on the error channels.  \<open>Jobs 0\<close> is the channel of \<open>Produce\<close>,
  \<open>Jobs (s + 1)\<close> and \<open>Errs s\<close> are those of stage \<open>s\<close>.\<close>

datatype item = is_job: J (the_job: Job) | is_res: R (the_res: JobResult)

datatype chan_id = Jobs nat | Errs nat

record chan =
  ch_buf :: "item list"
  ch_cap :: nat
  ch_closed :: bool

record Metrics =
  m_Produced :: int
  m_Processed :: int
  m_Failed :: int
  m_BlockedSends :: int
  m_MaxInFlight :: int
  m_inFlight :: int

record Pipeline =
  pl_BufferSize :: int
  pl_Workers :: int
  pl_Metrics :: Metrics

definition NewPipeline :: "int \<Rightarrow> int \<Rightarrow> Pipeline" where
  "NewPipeline bufferSize workers =
     (let bufferSize = (if bufferSize < 0 then 0 else bufferSize);
          workers = (if workers < 1 then 1 else workers)
      in \<lparr>pl_BufferSize = bufferSize, pl_Workers = workers,
          pl_Metrics = \<lparr>m_Produced = 0, m_Processed = 0, m_Failed = 0, m_BlockedSends = 0, m_MaxInFlight = 0, m_inFlight = 0\<rparr>\<rparr>)"

subsection \<open>Goroutines\<close>

text \<open>Where \<open>send\<close> is: at its first \<open>select\<close>, before \<open>BlockedSends.Add\<close>, at its second \<open>select\<close>.\<close>

datatype sending = TrySend | CountBlocked | WaitSend

text \<open>Where a goroutine is.  A worker of stage \<open>s\<close> passes through \<open>enter\<close> (the addition, the load of the peak, the comparison and the swap), the stage,
  \<open>leave\<close>, and one of the two sends.\<close>

datatype proc =
    Producing int | ProducerSends int sending | ProducerCounts int | ProducerCloses
  | WorkerSelect nat | WorkerEnters nat Job | WorkerLoads nat Job int | WorkerSwaps nat Job int int | WorkerRuns nat Job
  | WorkerLeaves nat Job "string + Job" | WorkerFails nat JobResult | WorkerSendsErr nat JobResult | WorkerSends nat Job sending
  | WorkerExits nat
  | CloserWaits nat | CloserOut nat | CloserErrs nat
  | Collecting | CollectCounts | CollectReturned
  | ErrReader nat
  | Exited

text \<open>What the goroutines share besides the channels: the context, the wait groups, the metrics, what \<open>Collect\<close> has collected and
  what the readers of the error channels have read.\<close>

record shared =
  cancelled :: bool
  wg :: "nat \<Rightarrow> int"
  metrics :: Metrics
  collected :: "Job list"
  read_errs :: "JobResult list"

text \<open>The caller's choice: the stages, as functions, how many there are, the number of jobs, and which error channels are read.\<close>

record params =
  par_stage :: "nat \<Rightarrow> Job \<Rightarrow> string + Job"
  par_stages :: nat
  par_jobs :: int
  par_drained :: "nat \<Rightarrow> bool"

datatype action = Tau | Snd chan_id item | Rcv chan_id "item option" | Full chan_id | Close chan_id

definition job :: "int \<Rightarrow> Job" where
  "job i = \<lparr>job_ID = i, job_Value = i\<rparr>"

inductive send_move :: "shared \<Rightarrow> chan_id \<Rightarrow> item \<Rightarrow> sending \<Rightarrow> action \<Rightarrow> shared \<Rightarrow> sending + bool \<Rightarrow> bool" where
  Try_sent: "send_move sh c x TrySend (Snd c x) sh (Inr True)"
| Try_default: "send_move sh c x TrySend (Full c) sh (Inl CountBlocked)"
| Blocked: "send_move sh c x CountBlocked Tau (sh\<lparr>metrics := (metrics sh)\<lparr>m_BlockedSends := m_BlockedSends (metrics sh) + 1\<rparr>\<rparr>) (Inl WaitSend)"
| Wait_sent: "send_move sh c x WaitSend (Snd c x) sh (Inr True)"
| Wait_ctx: "cancelled sh \<Longrightarrow> send_move sh c x WaitSend Tau sh (Inr False)"

inductive proc_move :: "params \<Rightarrow> shared \<Rightarrow> proc \<Rightarrow> action \<Rightarrow> shared \<Rightarrow> proc \<Rightarrow> bool" for P :: params where
  Produce_loop: "i < par_jobs P \<Longrightarrow> proc_move P sh (Producing i) Tau sh (ProducerSends i TrySend)"
| Produce_end: "\<not> i < par_jobs P \<Longrightarrow> proc_move P sh (Producing i) Tau sh ProducerCloses"
| Produce_send: "send_move sh (Jobs 0) (J (job i)) st a sh' r \<Longrightarrow>
    proc_move P sh (ProducerSends i st) a sh' (case r of Inl st' \<Rightarrow> ProducerSends i st' | Inr sent \<Rightarrow> if sent then ProducerCounts i else ProducerCloses)"
| Produce_count: "proc_move P sh (ProducerCounts i) Tau (sh\<lparr>metrics := (metrics sh)\<lparr>m_Produced := m_Produced (metrics sh) + 1\<rparr>\<rparr>) (Producing (i + 1))"
| Produce_close: "proc_move P sh ProducerCloses (Close (Jobs 0)) sh Exited"
| Worker_ctx: "cancelled sh \<Longrightarrow> proc_move P sh (WorkerSelect s) Tau sh (WorkerExits s)"
| Worker_recv: "proc_move P sh (WorkerSelect s) (Rcv (Jobs s) (Some (J j))) sh (WorkerEnters s j)"
| Worker_closed: "proc_move P sh (WorkerSelect s) (Rcv (Jobs s) None) sh (WorkerExits s)"
| Enter_add: "proc_move P sh (WorkerEnters s j) Tau (sh\<lparr>metrics := (metrics sh)\<lparr>m_inFlight := m_inFlight (metrics sh) + 1\<rparr>\<rparr>)
    (WorkerLoads s j (m_inFlight (metrics sh) + 1))"
| Enter_load: "proc_move P sh (WorkerLoads s j c) Tau sh (WorkerSwaps s j c (m_MaxInFlight (metrics sh)))"
| Enter_below: "c \<le> peak \<Longrightarrow> proc_move P sh (WorkerSwaps s j c peak) Tau sh (WorkerRuns s j)"
| Enter_swap: "\<not> c \<le> peak \<Longrightarrow> m_MaxInFlight (metrics sh) = peak \<Longrightarrow>
    proc_move P sh (WorkerSwaps s j c peak) Tau (sh\<lparr>metrics := (metrics sh)\<lparr>m_MaxInFlight := c\<rparr>\<rparr>) (WorkerRuns s j)"
| Enter_retry: "\<not> c \<le> peak \<Longrightarrow> m_MaxInFlight (metrics sh) \<noteq> peak \<Longrightarrow> proc_move P sh (WorkerSwaps s j c peak) Tau sh (WorkerLoads s j c)"
| Run_stage: "proc_move P sh (WorkerRuns s j) Tau sh (WorkerLeaves s j (par_stage P s j))"
| Leave: "proc_move P sh (WorkerLeaves s j res) Tau (sh\<lparr>metrics := (metrics sh)\<lparr>m_inFlight := m_inFlight (metrics sh) - 1\<rparr>\<rparr>)
    (case res of Inl e \<Rightarrow> WorkerFails s \<lparr>res_JobID = job_ID j, res_Value = 0, res_Err = e\<rparr> | Inr j' \<Rightarrow> WorkerSends s j' TrySend)"
| Fail_count: "proc_move P sh (WorkerFails s r) Tau (sh\<lparr>metrics := (metrics sh)\<lparr>m_Failed := m_Failed (metrics sh) + 1\<rparr>\<rparr>) (WorkerSendsErr s r)"
| Fail_sent: "proc_move P sh (WorkerSendsErr s r) (Snd (Errs s) (R r)) sh (WorkerSelect s)"
| Fail_ctx: "cancelled sh \<Longrightarrow> proc_move P sh (WorkerSendsErr s r) Tau sh (WorkerExits s)"
| Worker_send: "send_move sh (Jobs (Suc s)) (J j) st a sh' r \<Longrightarrow>
    proc_move P sh (WorkerSends s j st) a sh' (case r of Inl st' \<Rightarrow> WorkerSends s j st' | Inr sent \<Rightarrow> if sent then WorkerSelect s else WorkerExits s)"
| Worker_done: "proc_move P sh (WorkerExits s) Tau (sh\<lparr>wg := (wg sh)(s := wg sh s - 1)\<rparr>) Exited"
| Closer_wait: "wg sh s = 0 \<Longrightarrow> proc_move P sh (CloserWaits s) Tau sh (CloserOut s)"
| Closer_out: "proc_move P sh (CloserOut s) (Close (Jobs (Suc s))) sh (CloserErrs s)"
| Closer_errs: "proc_move P sh (CloserErrs s) (Close (Errs s)) sh Exited"
| Collect_ctx: "cancelled sh \<Longrightarrow> proc_move P sh Collecting Tau sh CollectReturned"
| Collect_recv: "proc_move P sh Collecting (Rcv (Jobs (par_stages P)) (Some (J j))) (sh\<lparr>collected := collected sh @ [j]\<rparr>) CollectCounts"
| Collect_closed: "proc_move P sh Collecting (Rcv (Jobs (par_stages P)) None) sh CollectReturned"
| Collect_count: "proc_move P sh CollectCounts Tau (sh\<lparr>metrics := (metrics sh)\<lparr>m_Processed := m_Processed (metrics sh) + 1\<rparr>\<rparr>) Collecting"
| Read_recv: "proc_move P sh (ErrReader s) (Rcv (Errs s) (Some (R r))) (sh\<lparr>read_errs := read_errs sh @ [r]\<rparr>) (ErrReader s)"
| Read_closed: "proc_move P sh (ErrReader s) (Rcv (Errs s) None) sh Exited"

subsection \<open>The system\<close>

record pl_world =
  pl_shared :: shared
  pl_chans :: "chan_id \<Rightarrow> chan"
  pl_procs :: "proc list"
  pl_panic :: bool

text \<open>Sending on a closed channel and closing a closed channel panic.  A value goes through the buffer or, when this is empty, from the sender to a receiver that
  waits.  The \<open>default\<close> case is taken only when the buffer is full; if the channel has no buffer, also when a receiver is about to wait.\<close>

inductive pl_step :: "params \<Rightarrow> pl_world \<Rightarrow> pl_world \<Rightarrow> bool" for P :: params where
  Internal: "i < length ps \<Longrightarrow> proc_move P sh (ps ! i) Tau sh' p \<Longrightarrow>
    pl_step P \<lparr>pl_shared = sh, pl_chans = ch, pl_procs = ps, pl_panic = False\<rparr>
      \<lparr>pl_shared = sh', pl_chans = ch, pl_procs = ps[i := p], pl_panic = False\<rparr>"
| Send: "i < length ps \<Longrightarrow> proc_move P sh (ps ! i) (Snd c x) sh' p \<Longrightarrow> \<not> ch_closed (ch c) \<Longrightarrow> length (ch_buf (ch c)) < ch_cap (ch c) \<Longrightarrow>
    pl_step P \<lparr>pl_shared = sh, pl_chans = ch, pl_procs = ps, pl_panic = False\<rparr>
      \<lparr>pl_shared = sh', pl_chans = ch(c := (ch c)\<lparr>ch_buf := ch_buf (ch c) @ [x]\<rparr>), pl_procs = ps[i := p], pl_panic = False\<rparr>"
| Receive: "i < length ps \<Longrightarrow> ch_buf (ch c) = x # xs \<Longrightarrow> proc_move P sh (ps ! i) (Rcv c (Some x)) sh' p \<Longrightarrow>
    pl_step P \<lparr>pl_shared = sh, pl_chans = ch, pl_procs = ps, pl_panic = False\<rparr>
      \<lparr>pl_shared = sh', pl_chans = ch(c := (ch c)\<lparr>ch_buf := xs\<rparr>), pl_procs = ps[i := p], pl_panic = False\<rparr>"
| Handoff: "i < length ps \<Longrightarrow> r < length ps \<Longrightarrow> i \<noteq> r \<Longrightarrow> \<not> ch_closed (ch c) \<Longrightarrow> ch_buf (ch c) = [] \<Longrightarrow>
    proc_move P sh (ps ! i) (Snd c x) sh1 p \<Longrightarrow> proc_move P sh1 (ps ! r) (Rcv c (Some x)) sh' q \<Longrightarrow>
    pl_step P \<lparr>pl_shared = sh, pl_chans = ch, pl_procs = ps, pl_panic = False\<rparr>
      \<lparr>pl_shared = sh', pl_chans = ch, pl_procs = ps[i := p, r := q], pl_panic = False\<rparr>"
| Receive_closed: "i < length ps \<Longrightarrow> ch_closed (ch c) \<Longrightarrow> ch_buf (ch c) = [] \<Longrightarrow> proc_move P sh (ps ! i) (Rcv c None) sh' p \<Longrightarrow>
    pl_step P \<lparr>pl_shared = sh, pl_chans = ch, pl_procs = ps, pl_panic = False\<rparr>
      \<lparr>pl_shared = sh', pl_chans = ch, pl_procs = ps[i := p], pl_panic = False\<rparr>"
| Default: "i < length ps \<Longrightarrow> proc_move P sh (ps ! i) (Full c) sh' p \<Longrightarrow> \<not> ch_closed (ch c) \<Longrightarrow> \<not> length (ch_buf (ch c)) < ch_cap (ch c) \<Longrightarrow>
    pl_step P \<lparr>pl_shared = sh, pl_chans = ch, pl_procs = ps, pl_panic = False\<rparr>
      \<lparr>pl_shared = sh', pl_chans = ch, pl_procs = ps[i := p], pl_panic = False\<rparr>"
| Closing: "i < length ps \<Longrightarrow> proc_move P sh (ps ! i) (Close c) sh' p \<Longrightarrow> \<not> ch_closed (ch c) \<Longrightarrow>
    pl_step P \<lparr>pl_shared = sh, pl_chans = ch, pl_procs = ps, pl_panic = False\<rparr>
      \<lparr>pl_shared = sh', pl_chans = ch(c := (ch c)\<lparr>ch_closed := True\<rparr>), pl_procs = ps[i := p], pl_panic = False\<rparr>"
| Panic: "i < length ps \<Longrightarrow> proc_move P sh (ps ! i) a sh' p \<Longrightarrow> (\<exists>x. a = Snd c x) \<or> a = Close c \<Longrightarrow> ch_closed (ch c) \<Longrightarrow>
    pl_step P \<lparr>pl_shared = sh, pl_chans = ch, pl_procs = ps, pl_panic = False\<rparr>
      \<lparr>pl_shared = sh, pl_chans = ch, pl_procs = ps, pl_panic = True\<rparr>"
| Cancel: "\<not> cancelled sh \<Longrightarrow>
    pl_step P \<lparr>pl_shared = sh, pl_chans = ch, pl_procs = ps, pl_panic = False\<rparr>
      \<lparr>pl_shared = sh\<lparr>cancelled := True\<rparr>, pl_chans = ch, pl_procs = ps, pl_panic = False\<rparr>"

text \<open>\<open>Produce\<close>, \<open>Run\<close> for each stage and \<open>Collect\<close> have made their channels and started their goroutines.\<close>

definition Run :: "Pipeline \<Rightarrow> nat \<Rightarrow> proc list" where
  "Run p s = replicate (nat (pl_Workers p)) (WorkerSelect s) @ [CloserWaits s]"

definition pl_start :: "params \<Rightarrow> Pipeline \<Rightarrow> pl_world" where
  "pl_start P p =
     \<lparr>pl_shared = \<lparr>cancelled = False, wg = (\<lambda>_. pl_Workers p), metrics = pl_Metrics p, collected = [], read_errs = []\<rparr>,
      pl_chans = (\<lambda>_. \<lparr>ch_buf = [], ch_cap = nat (pl_BufferSize p), ch_closed = False\<rparr>),
      pl_procs = Producing 0 # concat (map (Run p) [0..<par_stages P]) @ [Collecting] @ map ErrReader (filter (par_drained P) [0..<par_stages P]),
      pl_panic = False\<rparr>"

definition pl_init :: "params \<Rightarrow> int \<Rightarrow> int \<Rightarrow> pl_world \<Rightarrow> bool" where
  "pl_init P bufferSize workers w \<longleftrightarrow> w = pl_start P (NewPipeline bufferSize workers)"

subsection \<open>A step as moves of goroutines\<close>

text \<open>What an action needs of the channels and what it does to them.  A value handed to a waiting receiver passes, for the proofs, through the buffer.\<close>

fun chan_allows :: "action \<Rightarrow> (chan_id \<Rightarrow> chan) \<Rightarrow> bool" where
  "chan_allows (Snd c x) ch = (\<not> ch_closed (ch c))"
| "chan_allows (Rcv c (Some x)) ch = (\<exists>xs. ch_buf (ch c) = x # xs)"
| "chan_allows (Rcv c None) ch = (ch_closed (ch c) \<and> ch_buf (ch c) = [])"
| "chan_allows (Close c) ch = (\<not> ch_closed (ch c))"
| "chan_allows a ch = True"

fun chan_effect :: "action \<Rightarrow> (chan_id \<Rightarrow> chan) \<Rightarrow> chan_id \<Rightarrow> chan" where
  "chan_effect (Snd c x) ch = ch(c := (ch c)\<lparr>ch_buf := ch_buf (ch c) @ [x]\<rparr>)"
| "chan_effect (Rcv c (Some x)) ch = ch(c := (ch c)\<lparr>ch_buf := tl (ch_buf (ch c))\<rparr>)"
| "chan_effect (Close c) ch = ch(c := (ch c)\<lparr>ch_closed := True\<rparr>)"
| "chan_effect a ch = ch"

inductive one_move :: "params \<Rightarrow> pl_world \<Rightarrow> pl_world \<Rightarrow> bool" for P :: params where
  "i < length ps \<Longrightarrow> proc_move P sh (ps ! i) a sh' p \<Longrightarrow> chan_allows a ch \<Longrightarrow>
    one_move P \<lparr>pl_shared = sh, pl_chans = ch, pl_procs = ps, pl_panic = False\<rparr>
      \<lparr>pl_shared = sh', pl_chans = chan_effect a ch, pl_procs = ps[i := p], pl_panic = False\<rparr>"

lemma pl_step_moves:
  assumes "pl_step P w w'"
  obtains "one_move P w w'"
  | w1 where "one_move P w w1" and "one_move P w1 w'"
  | "\<not> cancelled (pl_shared w)" and "w' = w\<lparr>pl_shared := (pl_shared w)\<lparr>cancelled := True\<rparr>\<rparr>"
  | i a sh' p c where "i < length (pl_procs w)" and "proc_move P (pl_shared w) (pl_procs w ! i) a sh' p" and "(\<exists>x. a = Snd c x) \<or> a = Close c"
    and "ch_closed (pl_chans w c)" and "w' = w\<lparr>pl_panic := True\<rparr>"
  using assms
proof cases
  case (Internal i ps sh sh' p ch)
  then show ?thesis using one_move.intros[of i ps P sh Tau sh' p ch] by (intro that(1)) simp
next
  case (Send i ps sh c x sh' p ch)
  then show ?thesis using one_move.intros[of i ps P sh "Snd c x" sh' p ch] by (intro that(1)) simp
next
  case (Receive i ps ch c x xs sh sh' p)
  then show ?thesis using one_move.intros[of i ps P sh "Rcv c (Some x)" sh' p ch] by (intro that(1)) simp
next
  case (Handoff i ps r ch c sh x sh1 p sh' q)
  let ?ch = "chan_effect (Snd c x) ch"
  have "one_move P w \<lparr>pl_shared = sh1, pl_chans = ?ch, pl_procs = ps[i := p], pl_panic = False\<rparr>"
    using Handoff one_move.intros[of i ps P sh "Snd c x" sh1 p ch] by simp
  moreover have "chan_effect (Rcv c (Some x)) ?ch = ch" using Handoff(7) by (auto simp: fun_eq_iff)
  then have "one_move P \<lparr>pl_shared = sh1, pl_chans = ?ch, pl_procs = ps[i := p], pl_panic = False\<rparr> w'"
    using Handoff one_move.intros[of r "ps[i := p]" P sh1 "Rcv c (Some x)" sh' q ?ch] by simp
  ultimately show ?thesis by (rule that(2))
next
  case (Receive_closed i ps ch c sh sh' p)
  then show ?thesis using one_move.intros[of i ps P sh "Rcv c None" sh' p ch] by (intro that(1)) simp
next
  case (Default i ps sh c sh' p ch)
  then show ?thesis using one_move.intros[of i ps P sh "Full c" sh' p ch] by (intro that(1)) simp
next
  case (Closing i ps sh c sh' p ch)
  then show ?thesis using one_move.intros[of i ps P sh "Close c" sh' p ch] by (intro that(1)) simp
next
  case (Panic i ps sh a sh' p c ch)
  then show ?thesis by (intro that(4)[of i a sh' p c]) simp_all
next
  case (Cancel sh ch ps)
  then show ?thesis by (intro that(3)) simp_all
qed

subsection \<open>Where the jobs are\<close>

text \<open>What becomes of a job that reaches stage \<open>s\<close>: a failure of one of the stages, or the job they all made of it.\<close>

function fate :: "params \<Rightarrow> nat \<Rightarrow> Job \<Rightarrow> item" where
  "fate P s j =
     (if s < par_stages P
      then (case par_stage P s j of
              Inl e \<Rightarrow> R \<lparr>res_JobID = job_ID j, res_Value = 0, res_Err = e\<rparr>
            | Inr j' \<Rightarrow> fate P (Suc s) j')
      else J j)"
  by auto
termination by (relation "measure (\<lambda>(P, s, j). par_stages P - s)") auto

declare fate.simps [simp del]

fun fate_in :: "params \<Rightarrow> chan_id \<Rightarrow> item \<Rightarrow> item" where
  "fate_in P (Jobs s) (J j) = fate P s j"
| "fate_in P c x = x"

definition todo :: "params \<Rightarrow> int \<Rightarrow> item multiset" where
  "todo P i = mset (map (\<lambda>i. fate P 0 (job i)) [i..par_jobs P - 1])"

fun held :: "params \<Rightarrow> proc \<Rightarrow> item multiset" where
  "held P (Producing i) = todo P i"
| "held P (ProducerSends i st) = todo P i"
| "held P (ProducerCounts i) = todo P (i + 1)"
| "held P (WorkerEnters s j) = {#fate P s j#}"
| "held P (WorkerLoads s j c) = {#fate P s j#}"
| "held P (WorkerSwaps s j c peak) = {#fate P s j#}"
| "held P (WorkerRuns s j) = {#fate P s j#}"
| "held P (WorkerLeaves s j (Inl e)) = {#R \<lparr>res_JobID = job_ID j, res_Value = 0, res_Err = e\<rparr>#}"
| "held P (WorkerLeaves s j (Inr j')) = {#fate P (Suc s) j'#}"
| "held P (WorkerFails s r) = {#R r#}"
| "held P (WorkerSendsErr s r) = {#R r#}"
| "held P (WorkerSends s j st) = {#fate P (Suc s) j#}"
| "held P _ = {#}"

definition taken :: "shared \<Rightarrow> item multiset" where
  "taken sh = mset (map J (collected sh)) + mset (map R (read_errs sh))"

definition chan_ids :: "params \<Rightarrow> chan_id set" where
  "chan_ids P = Jobs ` {..par_stages P} \<union> Errs ` {..<par_stages P}"

definition buffered :: "params \<Rightarrow> (chan_id \<Rightarrow> chan) \<Rightarrow> item multiset" where
  "buffered P ch = (\<Sum>c \<in> chan_ids P. image_mset (fate_in P c) (mset (ch_buf (ch c))))"

definition everywhere :: "params \<Rightarrow> pl_world \<Rightarrow> item multiset" where
  "everywhere P w = sum_list (map (held P) (pl_procs w)) + buffered P (pl_chans w) + taken (pl_shared w)"

text \<open>Goroutines and actions of the stages there are.\<close>

fun proc_stage :: "proc \<Rightarrow> nat option" where
  "proc_stage (WorkerSelect s) = Some s"
| "proc_stage (WorkerEnters s j) = Some s"
| "proc_stage (WorkerLoads s j c) = Some s"
| "proc_stage (WorkerSwaps s j c peak) = Some s"
| "proc_stage (WorkerRuns s j) = Some s"
| "proc_stage (WorkerLeaves s j res) = Some s"
| "proc_stage (WorkerFails s r) = Some s"
| "proc_stage (WorkerSendsErr s r) = Some s"
| "proc_stage (WorkerSends s j st) = Some s"
| "proc_stage (WorkerExits s) = Some s"
| "proc_stage (CloserWaits s) = Some s"
| "proc_stage (CloserOut s) = Some s"
| "proc_stage (CloserErrs s) = Some s"
| "proc_stage (ErrReader s) = Some s"
| "proc_stage _ = None"

fun fails_at :: "nat \<Rightarrow> proc \<Rightarrow> bool" where
  "fails_at s (WorkerLeaves t j (Inl e)) = (s = t)"
| "fails_at s (WorkerFails t r) = (s = t)"
| "fails_at s (WorkerSendsErr t r) = (s = t)"
| "fails_at s _ = False"

lemma fails_at_leaves: "fails_at s (WorkerLeaves t j res) \<longleftrightarrow> s = t \<and> (\<exists>e. res = Inl e)"
  by (cases res) auto

text \<open>Such a goroutine belongs to a stage there is, the producer sends a job there is, and a failure comes from a stage that fails.\<close>

definition valid_proc :: "params \<Rightarrow> proc \<Rightarrow> bool" where
  "valid_proc P p \<longleftrightarrow> (\<forall>s. proc_stage p = Some s \<longrightarrow> s < par_stages P) \<and> (\<forall>i st. p = ProducerSends i st \<longrightarrow> i < par_jobs P) \<and>
     (\<forall>s. fails_at s p \<longrightarrow> (\<exists>j e. par_stage P s j = Inl e))"

fun given :: "params \<Rightarrow> action \<Rightarrow> item multiset" where
  "given P (Snd c x) = {#fate_in P c x#}"
| "given P _ = {#}"

fun received :: "params \<Rightarrow> action \<Rightarrow> item multiset" where
  "received P (Rcv c (Some x)) = {#fate_in P c x#}"
| "received P _ = {#}"

fun action_chan :: "action \<Rightarrow> chan_id option" where
  "action_chan Tau = None"
| "action_chan (Snd c x) = Some c"
| "action_chan (Rcv c y) = Some c"
| "action_chan (Full c) = Some c"
| "action_chan (Close c) = Some c"

lemma fate_stage: "s < par_stages P \<Longrightarrow> fate P s j = (case par_stage P s j of
    Inl e \<Rightarrow> R \<lparr>res_JobID = job_ID j, res_Value = 0, res_Err = e\<rparr> | Inr j' \<Rightarrow> fate P (Suc s) j')"
  by (simp add: fate.simps)

lemma fate_end: "fate P (par_stages P) j = J j"
  by (simp add: fate.simps)

lemma todo_step: "i < par_jobs P \<Longrightarrow> todo P i = add_mset (fate P 0 (job i)) (todo P (i + 1))"
  by (simp add: todo_def upto_rec1)

lemma todo_end: "\<not> i < par_jobs P \<Longrightarrow> todo P i = {#}"
  by (simp add: todo_def)

lemma proc_move_valid:
  assumes "proc_move P sh p a sh' p'" and "valid_proc P p"
  shows "valid_proc P p'" and "\<And>c. action_chan a = Some c \<Longrightarrow> c \<in> chan_ids P" and "cancelled sh' = cancelled sh"
  using assms by (induction rule: proc_move.induct) (auto simp: valid_proc_def chan_ids_def fails_at_leaves elim!: send_move.cases split: sum.splits if_splits)

lemma send_move_effect:
  assumes "send_move sh c x st a sh' r"
  shows "cancelled sh' = cancelled sh \<and> wg sh' = wg sh \<and> collected sh' = collected sh \<and> read_errs sh' = read_errs sh \<and>
    (a = Snd c x \<longleftrightarrow> r = Inr True) \<and> (a \<noteq> Snd c x \<longrightarrow> a = Tau \<or> a = Full c) \<and> (r = Inr False \<longrightarrow> cancelled sh)"
  using assms by (cases rule: send_move.cases) auto

lemma proc_move_held:
  assumes "proc_move P sh p a sh' p'" and "valid_proc P p"
  shows "held P p' + taken sh' + given P a \<subseteq># held P p + taken sh + received P a"
    and "\<not> cancelled sh \<Longrightarrow> held P p' + taken sh' + given P a = held P p + taken sh + received P a"
proof -
  have "held P p' + taken sh' + given P a \<subseteq># held P p + taken sh + received P a \<and>
    (\<not> cancelled sh \<longrightarrow> held P p' + taken sh' + given P a = held P p + taken sh + received P a)"
    using assms
  proof (cases rule: proc_move.cases)
    case (Produce_send i st r)
    show ?thesis using Produce_send(3) assms(2)
      by (cases rule: send_move.cases) (auto simp: Produce_send(1,2) taken_def valid_proc_def todo_step)
  next
    case (Worker_send s j st r)
    show ?thesis using Worker_send(3)
      by (cases rule: send_move.cases) (auto simp: Worker_send(1,2) taken_def)
  qed (auto simp: valid_proc_def taken_def todo_step todo_end fate_stage fate_end split: sum.splits)
  then show "held P p' + taken sh' + given P a \<subseteq># held P p + taken sh + received P a"
    "\<not> cancelled sh \<Longrightarrow> held P p' + taken sh' + given P a = held P p + taken sh + received P a" by simp_all
qed

lemma finite_chan_ids: "finite (chan_ids P)"
  by (simp add: chan_ids_def)

text \<open>A measure of the buffers that adds up: a send adds its value to it, a receive takes its value from it.\<close>

lemma chan_sum_effect:
  fixes g :: "chan_id \<Rightarrow> item list \<Rightarrow> 'b::comm_monoid_add"
  assumes add: "\<And>c xs ys. g c (xs @ ys) = g c xs + g c ys"
    and ok: "chan_allows a ch" and ids: "\<And>c. action_chan a = Some c \<Longrightarrow> c \<in> chan_ids P"
  shows "(\<Sum>c \<in> chan_ids P. g c (ch_buf (chan_effect a ch c))) + (case a of Rcv c (Some x) \<Rightarrow> g c [x] | _ \<Rightarrow> 0) =
    (\<Sum>c \<in> chan_ids P. g c (ch_buf (ch c))) + (case a of Snd c x \<Rightarrow> g c [x] | _ \<Rightarrow> 0)"
proof -
  have upd: "(\<Sum>d \<in> chan_ids P. g d (ch_buf ((ch(c := x)) d))) + y = (\<Sum>d \<in> chan_ids P. g d (ch_buf (ch d))) + z"
    if c: "c \<in> chan_ids P" and eq: "g c (ch_buf x) + y = g c (ch_buf (ch c)) + z" for c x y z
  proof -
    have parts: "(\<Sum>d \<in> chan_ids P. g d (ch_buf (ch' d))) = g c (ch_buf (ch' c)) + (\<Sum>d \<in> chan_ids P - {c}. g d (ch_buf (ch' d)))" for ch'
      by (rule sum.remove[OF finite_chan_ids c])
    have rest: "(\<Sum>d \<in> chan_ids P - {c}. g d (ch_buf ((ch(c := x)) d))) = (\<Sum>d \<in> chan_ids P - {c}. g d (ch_buf (ch d)))" (is "_ = ?r")
      by (intro sum.cong) auto
    have "g c (ch_buf x) + ?r + y = (g c (ch_buf x) + y) + ?r" by (simp add: ac_simps)
    also have "\<dots> = g c (ch_buf (ch c)) + ?r + z" unfolding eq by (simp add: ac_simps)
    finally show ?thesis unfolding parts rest by simp
  qed
  show ?thesis
  proof (cases a)
    case (Snd c x)
    then show ?thesis using upd[OF ids, of c "(ch c)\<lparr>ch_buf := ch_buf (ch c) @ [x]\<rparr>" 0 "g c [x]"] add by simp
  next
    case (Rcv c y)
    show ?thesis
    proof (cases y)
      case (Some x)
      then obtain xs where xs: "ch_buf (ch c) = x # xs" using ok Rcv by auto
      have "g c (x # xs) = g c xs + g c [x]" using add[of c "[x]" xs] by (simp add: add.commute)
      then show ?thesis using upd[OF ids, of c "(ch c)\<lparr>ch_buf := xs\<rparr>" "g c [x]" 0] by (simp add: Rcv Some xs)
    qed (simp add: Rcv)
  next
    case (Close c)
    then show ?thesis using upd[OF ids, of c "(ch c)\<lparr>ch_closed := True\<rparr>" 0 0] by simp
  qed simp_all
qed

lemma flow_balance:
  fixes T :: "'a multiset"
  assumes "T' + h = T + h'" and "B' + r = B + g"
  shows "h' + t' + g \<subseteq># h + t + r \<Longrightarrow> T' + B' + t' \<subseteq># T + B + t"
    and "h' + t' + g = h + t + r \<Longrightarrow> T' + B' + t' = T + B + t"
proof -
  have sum: "T' + B' + t' + (h + r + g) = T + B + g + (h' + t' + g)"
    using arg_cong2[OF assms, of "(+)"] by (simp add: ac_simps)
  have "T' + B' + t' + (h + r + g) \<subseteq># T + B + t + (h + r + g)" if "h' + t' + g \<subseteq># h + t + r"
    using subset_mset.add_left_mono[OF that, of "T + B + g"] unfolding sum by (simp add: ac_simps)
  then show "h' + t' + g \<subseteq># h + t + r \<Longrightarrow> T' + B' + t' \<subseteq># T + B + t" by simp
  show "T' + B' + t' = T + B + t" if "h' + t' + g = h + t + r"
    using sum unfolding that by (simp add: ac_simps)
qed

lemma buffered_effect:
  assumes "chan_allows a ch" and "\<And>c. action_chan a = Some c \<Longrightarrow> c \<in> chan_ids P"
  shows "buffered P (chan_effect a ch) + received P a = buffered P ch + given P a"
proof -
  note sums = chan_sum_effect[where g = "\<lambda>c xs. image_mset (fate_in P c) (mset xs)", OF _ assms, simplified]
  then show ?thesis unfolding buffered_def by (cases a) (auto split: option.splits)
qed

definition flow_inv :: "params \<Rightarrow> pl_world \<Rightarrow> bool" where
  "flow_inv P w \<longleftrightarrow> (\<forall>p \<in> set (pl_procs w). valid_proc P p) \<and> everywhere P w \<subseteq># todo P 0 \<and>
     (\<not> cancelled (pl_shared w) \<longrightarrow> everywhere P w = todo P 0)"

lemma flow_inv_move:
  assumes "flow_inv P w" and "one_move P w w'"
  shows "flow_inv P w'"
  using assms(2)
proof cases
  case (1 i ps sh a sh' p ch)
  have valid: "\<forall>p \<in> set ps. valid_proc P p" "valid_proc P (ps ! i)" using assms(1) 1(1,3) by (auto simp: flow_inv_def)
  note next_valid = proc_move_valid[OF 1(4) valid(2)]
  have "\<forall>q \<in> set (ps[i := p]). valid_proc P q" using valid(1) next_valid(1) set_update_subset_insert[of ps i p] by blast
  moreover have effect: "buffered P (chan_effect a ch) + received P a = buffered P ch + given P a"
    by (rule buffered_effect[OF 1(5) next_valid(2)])
  note balance = flow_balance[OF sum_list_update_add[where f = "held P", OF 1(3)] effect]
  have "everywhere P w' \<subseteq># everywhere P w" unfolding 1(1,2)
    by (simp add: everywhere_def balance(1)[OF proc_move_held(1)[OF 1(4) valid(2)]])
  moreover have "\<not> cancelled sh \<Longrightarrow> everywhere P w' = everywhere P w" unfolding 1(1,2)
    by (simp add: everywhere_def balance(2)[OF proc_move_held(2)[OF 1(4) valid(2)]])
  ultimately show ?thesis using assms(1) next_valid(3) unfolding flow_inv_def by (simp add: 1(1,2) subset_mset.order_trans)
qed

lemma flow_inv_step:
  assumes "flow_inv P w" and "pl_step P w w'"
  shows "flow_inv P w'"
  using assms(2)
proof (cases rule: pl_step_moves)
  case 1
  then show ?thesis using assms(1) flow_inv_move by blast
next
  case (2 w1)
  then show ?thesis using assms(1) flow_inv_move by blast
next
  case 3
  then show ?thesis using assms(1) by (simp add: flow_inv_def everywhere_def taken_def)
next
  case (4 i a sh' p c)
  then show ?thesis using assms(1) by (simp add: flow_inv_def everywhere_def)
qed

lemma in_start: "p \<in> set (pl_procs (pl_start P pl)) \<Longrightarrow>
  p = Producing 0 \<or> p = Collecting \<or> (\<exists>s < par_stages P. p \<in> {WorkerSelect s, CloserWaits s, ErrReader s})"
  by (auto simp: pl_start_def Run_def)

lemma sum_list_zero: "(\<And>x. x \<in> set xs \<Longrightarrow> f x = 0) \<Longrightarrow> sum_list (map f xs) = (0 :: 'b::monoid_add)"
  by (induction xs) auto

lemma flow_inv_init: "pl_init P b k w \<Longrightarrow> flow_inv P w"
proof -
  assume "pl_init P b k w"
  then have w: "w = pl_start P (NewPipeline b k)" by (simp add: pl_init_def)
  have "\<forall>p \<in> set (pl_procs w). valid_proc P p" using in_start[of _ P "NewPipeline b k"] by (force simp: w valid_proc_def)
  moreover have "everywhere P w = todo P 0"
  proof -
    have "held P p = {#}" if "p \<in> set (tl (pl_procs w))" for p
      using that by (auto simp: w pl_start_def Run_def)
    then have "sum_list (map (held P) (tl (pl_procs w))) = {#}" by (intro sum_list_zero)
    moreover have "pl_procs w = Producing 0 # tl (pl_procs w)" by (simp add: w pl_start_def)
    ultimately have "sum_list (map (held P) (pl_procs w)) = todo P 0" by (metis add.right_neutral held.simps(1) list.simps(9) sum_list.Cons)
    then show ?thesis by (simp add: everywhere_def w pl_start_def buffered_def taken_def)
  qed
  ultimately show ?thesis by (simp add: flow_inv_def)
qed

interpretation pl_flow: step_system "pl_init P b k" "pl_step P" "flow_inv P" for P b k
  by unfold_locales (auto intro: flow_inv_init flow_inv_step)

subsection \<open>Who may use which channel\<close>

fun producing :: "proc \<Rightarrow> bool" where
  "producing (Producing i) = True"
| "producing (ProducerSends i st) = True"
| "producing (ProducerCounts i) = True"
| "producing ProducerCloses = True"
| "producing _ = False"

text \<open>The stage of a worker that has not called \<open>wg.Done\<close>, and of one that is not leaving its loop.\<close>

fun work_stage :: "proc \<Rightarrow> nat option" where
  "work_stage (WorkerSelect s) = Some s"
| "work_stage (WorkerEnters s j) = Some s"
| "work_stage (WorkerLoads s j c) = Some s"
| "work_stage (WorkerSwaps s j c peak) = Some s"
| "work_stage (WorkerRuns s j) = Some s"
| "work_stage (WorkerLeaves s j res) = Some s"
| "work_stage (WorkerFails s r) = Some s"
| "work_stage (WorkerSendsErr s r) = Some s"
| "work_stage (WorkerSends s j st) = Some s"
| "work_stage _ = None"

definition working :: "nat \<Rightarrow> proc \<Rightarrow> bool" where
  "working s p \<longleftrightarrow> work_stage p = Some s"

definition active :: "nat \<Rightarrow> proc \<Rightarrow> bool" where
  "active s p \<longleftrightarrow> working s p \<or> p = WorkerExits s"

definition closes_out :: "nat \<Rightarrow> proc \<Rightarrow> bool" where
  "closes_out s p \<longleftrightarrow> p = CloserWaits s \<or> p = CloserOut s"

definition closes_errs :: "nat \<Rightarrow> proc \<Rightarrow> bool" where
  "closes_errs s p \<longleftrightarrow> closes_out s p \<or> p = CloserErrs s"

definition waited :: "nat \<Rightarrow> proc \<Rightarrow> bool" where
  "waited s p \<longleftrightarrow> p = CloserOut s \<or> p = CloserErrs s"

definition collecting :: "proc \<Rightarrow> bool" where
  "collecting p \<longleftrightarrow> p = Collecting \<or> p = CollectCounts"

lemmas role_defs = working_def active_def closes_out_def closes_errs_def waited_def collecting_def

fun item_ok :: "chan_id \<Rightarrow> item \<Rightarrow> bool" where
  "item_ok (Jobs s) (J j) = True"
| "item_ok (Errs s) (R r) = True"
| "item_ok _ _ = False"

text \<open>The goroutines that may send on a channel, and the one that closes it.\<close>

fun sender :: "chan_id \<Rightarrow> proc \<Rightarrow> bool" where
  "sender (Jobs 0) p = producing p"
| "sender (Jobs (Suc s)) p = working s p"
| "sender (Errs s) p = working s p"

fun closer :: "chan_id \<Rightarrow> proc \<Rightarrow> bool" where
  "closer (Jobs 0) p = producing p"
| "closer (Jobs (Suc s)) p = closes_out s p"
| "closer (Errs s) p = closes_errs s p"

lemma chan_cases: "c = Jobs 0 \<or> (\<exists>s. c = Jobs (Suc s)) \<or> (\<exists>s. c = Errs s)"
  by (cases c) (auto intro: nat.exhaust)

lemma proc_move_closer:
  assumes "proc_move P sh p a sh' p'"
  shows "closer c p' \<longleftrightarrow> closer c p \<and> a \<noteq> Close c" and "a = Close c \<Longrightarrow> closer c p"
proof -
  have "(closer c p' \<longleftrightarrow> closer c p \<and> a \<noteq> Close c) \<and> (a = Close c \<longrightarrow> closer c p)"
    using assms chan_cases[of c]
    by (cases rule: proc_move.cases) (auto simp: role_defs elim!: send_move.cases split: sum.splits if_splits)
  then show "closer c p' \<longleftrightarrow> closer c p \<and> a \<noteq> Close c" "a = Close c \<Longrightarrow> closer c p" by simp_all
qed

lemma proc_move_sender:
  assumes "proc_move P sh p (Snd c x) sh' p'"
  shows "sender c p" and "item_ok c x"
  using assms by (cases rule: proc_move.cases; auto simp: role_defs elim!: send_move.cases)+

lemma proc_move_worker:
  assumes "proc_move P sh p a sh' p'"
  shows "working s p' \<Longrightarrow> working s p"
    and "working s p \<Longrightarrow> \<not> working s p' \<Longrightarrow> cancelled sh \<or> a = Rcv (Jobs s) None"
    and "active s p' \<Longrightarrow> active s p"
    and "waited s p' \<Longrightarrow> waited s p \<or> wg sh s = 0"
    and "wg sh' s + (if active s p then 1 else 0) = wg sh s + (if active s p' then 1 else 0)"
  using assms by (cases rule: proc_move.cases; auto simp: role_defs elim!: send_move.cases split: sum.splits if_splits)+

lemma proc_move_reader:
  assumes "proc_move P sh p a sh' p'"
  shows "collecting p \<Longrightarrow> \<not> collecting p' \<Longrightarrow> cancelled sh \<or> a = Rcv (Jobs (par_stages P)) None"
    and "p = ErrReader s \<Longrightarrow> p' \<noteq> ErrReader s \<Longrightarrow> a = Rcv (Errs s) None"
    and "p' = ErrReader s \<Longrightarrow> p = ErrReader s" and "collecting p' \<Longrightarrow> collecting p"
    and "(collecting p' \<or> p' = CollectReturned) \<longleftrightarrow> (collecting p \<or> p = CollectReturned)"
  using assms by (cases rule: proc_move.cases; auto simp: role_defs elim!: send_move.cases split: sum.splits if_splits)+

text \<open>Each channel has its closer until it is closed; when a closer is past \<open>wg.Wait\<close> no worker of its stage is left.\<close>

definition closing_inv :: "params \<Rightarrow> shared \<Rightarrow> (chan_id \<Rightarrow> chan) \<Rightarrow> proc list \<Rightarrow> bool" where
  "closing_inv P sh ch ps \<longleftrightarrow>
     (\<forall>c \<in> chan_ids P. count_if (closer c) ps = (if ch_closed (ch c) then 0 else 1)) \<and>
     (\<forall>s < par_stages P. wg sh s = int (count_if (active s) ps)) \<and>
     (\<forall>s < par_stages P. (\<exists>p \<in> set ps. waited s p) \<or> ch_closed (ch (Jobs (Suc s))) \<longrightarrow> count_if (active s) ps = 0)"

definition drained :: "(chan_id \<Rightarrow> chan) \<Rightarrow> chan_id \<Rightarrow> bool" where
  "drained ch c \<longleftrightarrow> ch_closed (ch c) \<and> ch_buf (ch c) = []"

text \<open>A reader leaves its channel only when this is closed and empty, or the context is cancelled.\<close>

definition reading_inv :: "params \<Rightarrow> nat \<Rightarrow> shared \<Rightarrow> (chan_id \<Rightarrow> chan) \<Rightarrow> proc list \<Rightarrow> bool" where
  "reading_inv P k sh ch ps \<longleftrightarrow>
     (\<forall>s < par_stages P. count_if (working s) ps < k \<longrightarrow> cancelled sh \<or> drained ch (Jobs s)) \<and>
     (count_if collecting ps = 0 \<longrightarrow> cancelled sh \<or> drained ch (Jobs (par_stages P))) \<and>
     count_if (\<lambda>p. collecting p \<or> p = CollectReturned) ps = 1 \<and>
     (\<forall>s < par_stages P. par_drained P s \<longrightarrow> count_if ((=) (ErrReader s)) ps = 0 \<longrightarrow> drained ch (Errs s))"

definition roles_inv :: "params \<Rightarrow> nat \<Rightarrow> nat \<Rightarrow> pl_world \<Rightarrow> bool" where
  "roles_inv P cap k w \<longleftrightarrow> \<not> pl_panic w \<and> (\<forall>p \<in> set (pl_procs w). valid_proc P p) \<and>
     (\<forall>c. ch_cap (pl_chans w c) = cap \<and> (\<forall>x \<in> set (ch_buf (pl_chans w c)). item_ok c x)) \<and>
     closing_inv P (pl_shared w) (pl_chans w) (pl_procs w) \<and> reading_inv P k (pl_shared w) (pl_chans w) (pl_procs w)"

lemma proc_move_close: "proc_move P sh p (Close (Jobs (Suc s))) sh' p' \<Longrightarrow> waited s p"
  by (cases rule: proc_move.cases) (auto simp: role_defs elim!: send_move.cases)

lemma chan_effect_closed: "ch_closed (chan_effect a ch c) \<longleftrightarrow> ch_closed (ch c) \<or> a = Close c"
  by (cases "(a, ch)" rule: chan_effect.cases) auto

lemma chan_effect_cap: "ch_cap (chan_effect a ch c) = ch_cap (ch c)"
  by (cases "(a, ch)" rule: chan_effect.cases) auto

lemma chan_effect_drained: "chan_allows a ch \<Longrightarrow> drained ch c \<Longrightarrow> drained (chan_effect a ch) c"
  by (cases "(a, ch)" rule: chan_effect.cases) (auto simp: drained_def)

lemma chan_effect_items:
  assumes "\<forall>x \<in> set (ch_buf (ch c)). item_ok c x" and "\<And>x. a = Snd c x \<Longrightarrow> item_ok c x"
  shows "\<forall>x \<in> set (ch_buf (chan_effect a ch c)). item_ok c x"
proof -
  have "set (tl xs) \<subseteq> set xs" for xs :: "item list" by (cases xs) auto
  from subsetD[OF this] show ?thesis using assms by (cases "(a, ch)" rule: chan_effect.cases) auto
qed

lemma sender_not_closed:
  assumes "closing_inv P sh ch ps" and "c \<in> chan_ids P" and "p \<in> set ps" and "sender c p \<or> closer c p"
  shows "\<not> ch_closed (ch c)"
proof
  have closers: "\<forall>c \<in> chan_ids P. count_if (closer c) ps = (if ch_closed (ch c) then 0 else 1)"
    and gone: "\<forall>s < par_stages P. (\<exists>p \<in> set ps. waited s p) \<or> ch_closed (ch (Jobs (Suc s))) \<longrightarrow> count_if (active s) ps = 0"
    using assms(1) by (simp_all add: closing_inv_def)
  assume closed: "ch_closed (ch c)"
  then have none: "\<not> closer c p" using closers assms(2,3) by (auto simp: count_if_zero)
  then have "sender c p" using assms(4) by simp
  then obtain s where s: "s < par_stages P" "c = Jobs (Suc s) \<or> c = Errs s" "working s p"
    using none assms(2) chan_cases[of c] by (auto simp: chan_ids_def)
  have "ch_closed (ch (Jobs (Suc s)))"
  proof (cases "c = Jobs (Suc s)")
    case False
    then have c: "c = Errs s" using s(2) by simp
    have ids: "Errs s \<in> chan_ids P" "Jobs (Suc s) \<in> chan_ids P" using s(1) by (auto simp: chan_ids_def)
    have "count_if (closer (Errs s)) ps = 0" using closers ids(1) closed unfolding c by simp
    then have "count_if (closer (Jobs (Suc s))) ps = 0" by (simp add: count_if_zero closes_errs_def)
    then show ?thesis using closers ids(2) by (metis zero_neq_one)
  qed (use closed in simp)
  then have "count_if (active s) ps = 0" using gone s(1) by simp
  then show False using assms(3) s(3) by (simp add: count_if_zero active_def)
qed

lemma closing_inv_move:
  assumes inv: "closing_inv P sh ch ps" and i: "i < length ps" and m: "proc_move P sh (ps ! i) a sh' p" and ok: "chan_allows a ch"
  shows "closing_inv P sh' (chan_effect a ch) (ps[i := p])"
proof -
  note upd = count_if_update[OF i, of _ p]
  have closers: "count_if (closer c) (ps[i := p]) = (if ch_closed (chan_effect a ch c) then 0 else 1)" if "c \<in> chan_ids P" for c
  proof -
    have "count_if (closer c) ps = (if ch_closed (ch c) then 0 else 1)" using inv that by (simp add: closing_inv_def)
    moreover have "a = Close c \<Longrightarrow> \<not> ch_closed (ch c)" using ok by simp
    ultimately show ?thesis
      using upd[of "closer c"] proc_move_closer[OF m, of c] by (auto simp: chan_effect_closed split: if_splits)
  qed
  have wgs: "wg sh' s = int (count_if (active s) (ps[i := p]))" if "s < par_stages P" for s
  proof -
    have "wg sh s = int (count_if (active s) ps)" using inv that by (simp add: closing_inv_def)
    then show ?thesis using upd[of "active s"] proc_move_worker(5)[OF m, of s] by (auto split: if_splits)
  qed
  have gone: "count_if (active s) (ps[i := p]) = 0"
    if s: "s < par_stages P" and past: "(\<exists>q \<in> set (ps[i := p]). waited s q) \<or> ch_closed (chan_effect a ch (Jobs (Suc s)))" for s
  proof -
    have "count_if (active s) ps = 0"
    proof -
      have "(\<exists>q \<in> set ps. waited s q) \<or> ch_closed (ch (Jobs (Suc s))) \<or> wg sh s = 0"
        using past set_update_subset_insert[of ps i p] proc_move_worker(4)[OF m, of s] proc_move_close[of P sh "ps ! i" s] m i
        by (auto simp: chan_effect_closed) (metis nth_mem)
      then show ?thesis using inv s by (auto simp: closing_inv_def)
    qed
    then show ?thesis using upd[of "active s"] proc_move_worker(3)[OF m, of s] i by (auto simp: count_if_zero split: if_splits)
  qed
  show ?thesis using closers wgs gone by (simp add: closing_inv_def)
qed

lemma reading_inv_move:
  assumes inv: "reading_inv P k sh ch ps" and i: "i < length ps" and m: "proc_move P sh (ps ! i) a sh' p" and ok: "chan_allows a ch"
    and valid: "valid_proc P (ps ! i)"
  shows "reading_inv P k sh' (chan_effect a ch) (ps[i := p])"
proof -
  note upd = count_if_update[OF i, of _ p]
  have none: "a = Rcv c None \<Longrightarrow> drained ch c" for c using ok by (simp add: drained_def)
  have step: "\<And>c. drained ch c \<Longrightarrow> drained (chan_effect a ch) c" and canc: "cancelled sh' = cancelled sh"
    using chan_effect_drained[OF ok] proc_move_valid(3)[OF m valid] by blast+
  have work: "cancelled sh' \<or> drained (chan_effect a ch) (Jobs s)" if "s < par_stages P" "count_if (working s) (ps[i := p]) < k" for s
  proof (cases "working s (ps ! i) \<and> \<not> working s p")
    case True
    then show ?thesis using proc_move_worker(2)[OF m] none step canc by blast
  next
    case False
    then have "count_if (working s) ps < k" using that(2) upd[of "working s"] by (auto split: if_splits)
    then show ?thesis using inv that(1) step canc by (auto simp: reading_inv_def)
  qed
  have coll: "cancelled sh' \<or> drained (chan_effect a ch) (Jobs (par_stages P))" if "count_if collecting (ps[i := p]) = 0"
  proof (cases "collecting (ps ! i) \<and> \<not> collecting p")
    case True
    then show ?thesis using proc_move_reader(1)[OF m] none step canc by blast
  next
    case False
    then have "count_if collecting ps = 0" using that upd[of collecting] by (auto split: if_splits)
    then show ?thesis using inv step canc by (auto simp: reading_inv_def)
  qed
  have one: "count_if (\<lambda>p. collecting p \<or> p = CollectReturned) (ps[i := p]) = 1"
    using inv upd[of "\<lambda>p. collecting p \<or> p = CollectReturned"] proc_move_reader(5)[OF m] by (auto simp: reading_inv_def split: if_splits)
  have errs: "drained (chan_effect a ch) (Errs s)"
    if "s < par_stages P" "par_drained P s" "count_if ((=) (ErrReader s)) (ps[i := p]) = 0" for s
  proof (cases "ps ! i = ErrReader s \<and> p \<noteq> ErrReader s")
    case True
    then show ?thesis using proc_move_reader(2)[OF m] none step by blast
  next
    case False
    then have "count_if ((=) (ErrReader s)) ps = 0" using that(3) upd[of "(=) (ErrReader s)"] by (auto split: if_splits)
    then show ?thesis using inv that(1,2) step by (auto simp: reading_inv_def)
  qed
  show ?thesis using work coll one errs by (simp add: reading_inv_def)
qed

lemma count_if_concat: "count_if Q (concat (map f xs)) = (\<Sum>x \<leftarrow> xs. count_if Q (f x))"
  by (induction xs) simp_all

lemma count_if_replicate: "count_if Q (replicate n x) = (if Q x then n else 0)"
  by (induction n) simp_all

lemma sum_list_delta: "(\<Sum>t \<leftarrow> [0..<n]. if t = s then x else 0) = (if s < n then x else 0 :: nat)"
  by (induction n) auto

lemma count_if_cong: "(\<And>x. x \<in> set xs \<Longrightarrow> P x = Q x) \<Longrightarrow> count_if P xs = count_if Q xs"
  by (induction xs) auto

lemma count_start:
  assumes "\<And>t. Q (WorkerSelect t) = (t = s \<and> wk)" and "\<And>t. Q (CloserWaits t) = (t = s \<and> cl)" and "\<And>t. \<not> Q (ErrReader t)"
  shows "count_if Q (pl_procs (pl_start P p)) = (if Q (Producing 0) then 1 else 0) + (if Q Collecting then 1 else 0) +
    (if s < par_stages P then (if wk then nat (pl_Workers p) else 0) + (if cl then 1 else 0) else 0)"
proof -
  have "count_if Q (Run p t) = (if t = s then (if wk then nat (pl_Workers p) else 0) + (if cl then 1 else 0) else 0)" for t
    using assms(1,2) by (simp add: Run_def count_if_replicate)
  then have "count_if Q (concat (map (Run p) [0..<par_stages P])) =
      (if s < par_stages P then (if wk then nat (pl_Workers p) else 0) + (if cl then 1 else 0) else 0)"
    by (simp add: count_if_concat sum_list_delta)
  moreover have "count_if Q (map ErrReader ts) = 0" for ts using assms(3) by (auto simp: count_if_zero)
  ultimately show ?thesis by (simp add: pl_start_def)
qed

lemma NewPipeline_fields [simp]: "pl_BufferSize (NewPipeline b k) = max 0 b" "pl_Workers (NewPipeline b k) = max 1 k"
  by (auto simp: NewPipeline_def Let_def)

lemma roles_inv_start: "roles_inv P (nat (max 0 b)) (nat (max 1 k)) (pl_start P (NewPipeline b k))"
proof -
  let ?w = "pl_start P (NewPipeline b k)"
  let ?ps = "pl_procs ?w"
  have closers: "count_if (closer c) ?ps = 1" if "c \<in> chan_ids P" for c
    using that chan_cases[of c] count_start[of "closer c" 0 False False P "NewPipeline b k"]
    by (auto simp: chan_ids_def role_defs count_start[of _ _ False True])
  have work: "count_if (working s) ?ps = nat (max 1 k)" "count_if (active s) ?ps = nat (max 1 k)" if "s < par_stages P" for s
    using that by (simp_all add: role_defs count_start[of _ s True False])
  have coll: "count_if collecting ?ps = 1" "count_if (\<lambda>p. collecting p \<or> p = CollectReturned) ?ps = 1"
    by (simp_all add: role_defs count_start[of _ 0 False False])
  have rdr: "count_if ((=) (ErrReader s)) ?ps \<noteq> 0" if "s < par_stages P" "par_drained P s" for s
    using that by (auto simp: count_if_zero pl_start_def)
  have "\<not> waited s p" if "p \<in> set ?ps" for s p using in_start[OF that] by (auto simp: waited_def)
  then have "closing_inv P (pl_shared ?w) (pl_chans ?w) ?ps"
    using closers work by (auto simp: closing_inv_def) (simp_all add: pl_start_def)
  moreover have "reading_inv P (nat (max 1 k)) (pl_shared ?w) (pl_chans ?w) ?ps"
    using work coll by (simp add: reading_inv_def rdr)
  moreover have "\<forall>p \<in> set ?ps. valid_proc P p" using in_start[of _ P "NewPipeline b k"] by (force simp: valid_proc_def)
  ultimately show ?thesis by (simp add: roles_inv_def) (simp add: pl_start_def)
qed

lemma roles_inv_move:
  assumes "roles_inv P cap k w" and "one_move P w w'"
  shows "roles_inv P cap k w'"
  using assms(2)
proof cases
  case (1 i ps sh a sh' p ch)
  have valid: "\<forall>p \<in> set ps. valid_proc P p" "valid_proc P (ps ! i)" and items: "\<forall>c. ch_cap (ch c) = cap \<and> (\<forall>x \<in> set (ch_buf (ch c)). item_ok c x)"
    and inv: "closing_inv P sh ch ps" "reading_inv P k sh ch ps"
    using assms(1) 1(1,3) by (auto simp: roles_inv_def)
  have "\<forall>q \<in> set (ps[i := p]). valid_proc P q"
    using valid(1) proc_move_valid(1)[OF 1(4) valid(2)] set_update_subset_insert[of ps i p] by blast
  moreover have "\<forall>x \<in> set (ch_buf (chan_effect a ch c)). item_ok c x" for c
    using items proc_move_sender(2)[of P sh "ps ! i" c _ sh' p] 1(4) by (intro chan_effect_items) auto
  ultimately show ?thesis
    using items closing_inv_move[OF inv(1) 1(3-5)] reading_inv_move[OF inv(2) 1(3-5) valid(2)]
    by (simp add: 1(2) roles_inv_def chan_effect_cap)
qed

lemma roles_inv_step:
  assumes "roles_inv P cap k w" and "pl_step P w w'"
  shows "roles_inv P cap k w'"
  using assms(2)
proof (cases rule: pl_step_moves)
  case 1
  then show ?thesis using assms(1) roles_inv_move by blast
next
  case (2 w1)
  then show ?thesis using assms(1) roles_inv_move by blast
next
  case 3
  then show ?thesis using assms(1) by (auto simp: roles_inv_def closing_inv_def reading_inv_def)
next
  case (4 i a sh' p c)
  have inv: "closing_inv P (pl_shared w) (pl_chans w) (pl_procs w)" and valid: "valid_proc P (pl_procs w ! i)"
    and mem: "pl_procs w ! i \<in> set (pl_procs w)"
    using assms(1) 4(1) by (simp_all add: roles_inv_def)
  have "c \<in> chan_ids P" using proc_move_valid(2)[OF 4(2) valid, of c] 4(3) by auto
  moreover have "sender c (pl_procs w ! i) \<or> closer c (pl_procs w ! i)"
    using 4(2,3) proc_move_sender(1) proc_move_closer(2) by blast
  ultimately have "\<not> ch_closed (pl_chans w c)" by (rule sender_not_closed[OF inv _ mem])
  then show ?thesis using 4(4) by simp
qed

interpretation pl_roles: step_system "pl_init P b k" "pl_step P" "roles_inv P (nat (max 0 b)) (nat (max 1 k))" for P b k
  by unfold_locales (auto simp: pl_init_def intro: roles_inv_start roles_inv_step)

subsection \<open>What a run delivers\<close>

definition fates :: "params \<Rightarrow> item list" where
  "fates P = map (\<lambda>i. fate P 0 (job i)) [0..par_jobs P - 1]"

definition successes :: "params \<Rightarrow> Job list" where
  "successes P = map the_job (filter is_job (fates P))"

definition failures :: "params \<Rightarrow> JobResult list" where
  "failures P = map the_res (filter is_res (fates P))"

definition unread_errs :: "params \<Rightarrow> pl_world \<Rightarrow> JobResult multiset" where
  "unread_errs P w = (\<Sum>s < par_stages P. mset (map the_res (ch_buf (pl_chans w (Errs s)))))"

lemma todo_fates: "todo P 0 = mset (fates P)"
  by (simp add: todo_def fates_def)

text \<open>The jobs and the results among the outcomes.\<close>

definition jobs_of :: "item multiset \<Rightarrow> Job multiset" where
  "jobs_of M = image_mset the_job (filter_mset is_job M)"

definition results_of :: "item multiset \<Rightarrow> JobResult multiset" where
  "results_of M = image_mset the_res (filter_mset is_res M)"

lemma of_outcomes:
  "jobs_of (M + N) = jobs_of M + jobs_of N" "results_of (M + N) = results_of M + results_of N"
  "jobs_of (mset (map J js)) = mset js" "results_of (mset (map J js)) = {#}"
  "jobs_of (mset (map R rs)) = {#}" "results_of (mset (map R rs)) = mset rs"
proof -
  show "jobs_of (mset (map J js)) = mset js" "results_of (mset (map J js)) = {#}"
    by (induction js; simp add: jobs_of_def results_of_def)+
  show "jobs_of (mset (map R rs)) = {#}" "results_of (mset (map R rs)) = mset rs"
    by (induction rs; simp add: jobs_of_def results_of_def)+
qed (simp_all add: jobs_of_def results_of_def)

lemma jobs_of_mono: "M \<subseteq># N \<Longrightarrow> jobs_of M \<subseteq># jobs_of N"
  unfolding jobs_of_def by (intro image_mset_subseteq_mono multiset_filter_mono)

lemma results_of_mono: "M \<subseteq># N \<Longrightarrow> results_of M \<subseteq># results_of N"
  unfolding results_of_def by (intro image_mset_subseteq_mono multiset_filter_mono)

lemma of_fates: "jobs_of (mset (fates P)) = mset (successes P)" "results_of (mset (fates P)) = mset (failures P)"
  by (simp_all add: jobs_of_def results_of_def successes_def failures_def flip: mset_filter mset_map)

lemma held_idle: "\<not> producing p \<Longrightarrow> (\<And>s. \<not> working s p) \<Longrightarrow> held P p = {#}"
  by (cases "(P, p)" rule: held.cases) (auto simp: working_def)

text \<open>When the last channel is closed and empty and nothing was cancelled, so are all the channels of jobs, and nobody holds a job.\<close>

lemma all_drained:
  assumes inv: "roles_inv P cap k w" and k: "0 < k" and run: "\<not> cancelled (pl_shared w)" and last_drained: "drained (pl_chans w) (Jobs (par_stages P))"
  shows "s \<le> par_stages P \<Longrightarrow> drained (pl_chans w) (Jobs s)" and "p \<in> set (pl_procs w) \<Longrightarrow> held P p = {#}"
proof -
  let ?ps = "pl_procs w" and ?ch = "pl_chans w"
  have closing: "closing_inv P (pl_shared w) ?ch ?ps" and reading: "reading_inv P k (pl_shared w) ?ch ?ps"
    and valid: "\<forall>p \<in> set ?ps. valid_proc P p"
    using inv by (simp_all add: roles_inv_def)
  have upstream: "count_if (active s) ?ps = 0 \<and> drained ?ch (Jobs s)" if "s < par_stages P" "drained ?ch (Jobs (Suc s))" for s
  proof -
    have gone: "count_if (active s) ?ps = 0" using closing that by (simp add: closing_inv_def drained_def)
    then have "count_if (working s) ?ps < k" using k count_if_mono[of "working s" "active s" ?ps] by (simp add: active_def)
    then show ?thesis using gone reading run that(1) by (simp add: reading_inv_def)
  qed
  have all: "drained ?ch (Jobs s)" if "s \<le> par_stages P" for s
    using that by (induction s rule: inc_induct) (use last_drained upstream in auto)
  then show "s \<le> par_stages P \<Longrightarrow> drained ?ch (Jobs s)" .
  assume p: "p \<in> set ?ps"
  have "ch_closed (?ch (Jobs 0))" using all by (simp add: drained_def)
  then have "count_if (closer (Jobs 0)) ?ps = 0" using closing by (auto simp: closing_inv_def chan_ids_def)
  then have "\<not> producing p" using p by (simp add: count_if_zero)
  moreover have "\<not> working s p" for s
  proof
    assume w: "working s p"
    then have "s < par_stages P" using valid p by (cases p) (auto simp: working_def valid_proc_def)
    then have "count_if (active s) ?ps = 0" using upstream all by simp
    then show False using p w by (simp add: count_if_zero active_def)
  qed
  ultimately show "held P p = {#}" by (rule held_idle)
qed

lemma buffered_split: "buffered P ch = (\<Sum>s \<le> par_stages P. image_mset (fate_in P (Jobs s)) (mset (ch_buf (ch (Jobs s))))) +
    (\<Sum>s < par_stages P. mset (ch_buf (ch (Errs s))))"
proof -
  have "image_mset (fate_in P (Errs s)) M = M" for s M
  proof -
    have "fate_in P (Errs s) = (\<lambda>x. x)" by (rule ext) simp
    then show ?thesis by simp
  qed
  then show ?thesis
    unfolding buffered_def chan_ids_def
    by (subst sum.union_disjoint) (auto simp: sum.reindex inj_on_def)
qed

lemma errs_results:
  assumes "\<forall>c. \<forall>x \<in> set (ch_buf (ch c)). item_ok c x"
  shows "(\<Sum>s < n. mset (ch_buf (ch (Errs s)))) = image_mset R (\<Sum>s < n. mset (map the_res (ch_buf (ch (Errs s)))))"
proof (induction n)
  case (Suc n)
  have "x \<in> set (ch_buf (ch (Errs n))) \<Longrightarrow> R (the_res x) = x" for x
    using assms[rule_format, of x "Errs n"] by (cases x) simp_all
  then have "map (R \<circ> the_res) (ch_buf (ch (Errs n))) = ch_buf (ch (Errs n))" by (intro map_idI) simp
  then show ?case using Suc.IH by (simp add: image_mset.compositionality comp_def flip: mset_map)
qed simp

lemma count_if_disjoint: "(\<And>x. \<not> (Q x \<and> Q' x)) \<Longrightarrow> count_if Q xs + count_if Q' xs = count_if (\<lambda>x. Q x \<or> Q' x) xs"
  by (induction xs) auto

text \<open>The outcomes of the jobs that are still on their way, and those that are not.\<close>

definition on_the_way :: "params \<Rightarrow> pl_world \<Rightarrow> item multiset" where
  "on_the_way P w = sum_list (map (held P) (pl_procs w)) +
     (\<Sum>s \<le> par_stages P. image_mset (fate_in P (Jobs s)) (mset (ch_buf (pl_chans w (Jobs s)))))"

lemma everywhere_split:
  assumes "roles_inv P cap k w"
  shows "jobs_of (everywhere P w) = jobs_of (on_the_way P w) + mset (collected (pl_shared w))"
    and "results_of (everywhere P w) = results_of (on_the_way P w) + (mset (read_errs (pl_shared w)) + unread_errs P w)"
proof -
  have items: "\<forall>c. \<forall>x \<in> set (ch_buf (pl_chans w c)). item_ok c x" using assms by (simp add: roles_inv_def)
  have parts: "everywhere P w = on_the_way P w + image_mset R (unread_errs P w) + mset (map J (collected (pl_shared w))) + mset (map R (read_errs (pl_shared w)))"
    by (simp add: everywhere_def on_the_way_def buffered_split errs_results[OF items] unread_errs_def taken_def ac_simps)
  obtain rs where rs: "unread_errs P w = mset rs" by (metis ex_mset)
  show "jobs_of (everywhere P w) = jobs_of (on_the_way P w) + mset (collected (pl_shared w))"
    "results_of (everywhere P w) = results_of (on_the_way P w) + (mset (read_errs (pl_shared w)) + unread_errs P w)"
    unfolding parts rs by (simp_all only: of_outcomes flip: mset_map) (simp_all add: ac_simps)
qed

lemma returned_delivers:
  assumes flow: "flow_inv P w" and roles: "roles_inv P cap k w" and k: "0 < k"
    and ret: "CollectReturned \<in> set (pl_procs w)" "\<not> cancelled (pl_shared w)"
  shows "mset (collected (pl_shared w)) = mset (successes P) \<and> mset (read_errs (pl_shared w)) + unread_errs P w = mset (failures P)"
proof -
  let ?ps = "pl_procs w"
  have "count_if collecting ?ps + count_if (\<lambda>p. p = CollectReturned) ?ps = count_if (\<lambda>p. collecting p \<or> p = CollectReturned) ?ps"
    by (rule count_if_disjoint) (auto simp: collecting_def)
  moreover have "count_if (\<lambda>p. p = CollectReturned) ?ps \<noteq> 0" unfolding count_if_zero using ret(1) by blast
  ultimately have "count_if collecting ?ps = 0" using roles by (simp add: roles_inv_def reading_inv_def)
  then have "drained (pl_chans w) (Jobs (par_stages P))" using roles ret(2) by (simp add: roles_inv_def reading_inv_def)
  note drained = all_drained[OF roles k ret(2) this]
  have "sum_list (map (held P) ?ps) = {#}" using drained(2) by (intro sum_list_zero) simp
  moreover have "(\<Sum>s \<le> par_stages P. image_mset (fate_in P (Jobs s)) (mset (ch_buf (pl_chans w (Jobs s))))) = {#}"
    using drained(1) by (intro sum.neutral) (simp add: drained_def)
  ultimately have "on_the_way P w = {#}" by (simp add: on_the_way_def)
  moreover have "everywhere P w = mset (fates P)" using flow ret(2) by (simp add: flow_inv_def todo_fates)
  ultimately show ?thesis using everywhere_split[OF roles] of_fates by (simp add: jobs_of_def results_of_def)
qed

text \<open>C8: Nothing panics, in particular no goroutine sends on a closed channel or closes one twice; whatever the interleaving, \<open>Collect\<close> collects no job that no input has become,
  and none twice, and the error channels carry no failure that did not happen; and when \<open>Collect\<close> has returned without a
  cancellation it has collected exactly the successes, and each failure is on an error channel or has been read from it.\<close>

theorem pipeline_delivers:
  assumes "reach (pl_init P bufferSize workers) (pl_step P) w"
  shows "\<not> pl_panic w \<and> mset (collected (pl_shared w)) \<subseteq># mset (successes P) \<and>
    mset (read_errs (pl_shared w)) + unread_errs P w \<subseteq># mset (failures P) \<and>
    (CollectReturned \<in> set (pl_procs w) \<and> \<not> cancelled (pl_shared w) \<longrightarrow>
      mset (collected (pl_shared w)) = mset (successes P) \<and> mset (read_errs (pl_shared w)) + unread_errs P w = mset (failures P))"
proof -
  have flow: "flow_inv P w" by (rule pl_flow.reachable_inv[OF assms])
  then have all: "everywhere P w \<subseteq># mset (fates P)" by (simp add: flow_inv_def todo_fates)
  have roles: "roles_inv P (nat (max 0 bufferSize)) (nat (max 1 workers)) w" by (rule pl_roles.reachable_inv[OF assms])
  have "mset (collected (pl_shared w)) \<subseteq># mset (successes P)" "mset (read_errs (pl_shared w)) + unread_errs P w \<subseteq># mset (failures P)"
    using jobs_of_mono[OF all] results_of_mono[OF all] unfolding everywhere_split[OF roles] of_fates
    by (meson mset_subset_eq_add_right subset_mset.order_trans)+
  moreover have "\<not> pl_panic w" using roles by (simp add: roles_inv_def)
  ultimately show ?thesis using returned_delivers[OF flow roles] by simp
qed

subsection \<open>Bounded memory and the metrics\<close>

definition is_worker :: "proc \<Rightarrow> bool" where
  "is_worker p \<longleftrightarrow> work_stage p \<noteq> None"

fun in_flight :: "proc \<Rightarrow> bool" where
  "in_flight (WorkerLoads s j c) = True"
| "in_flight (WorkerSwaps s j c peak) = True"
| "in_flight (WorkerRuns s j) = True"
| "in_flight (WorkerLeaves s j res) = True"
| "in_flight _ = False"

text \<open>The value a worker in the loop of \<open>enter\<close> wants the peak to reach.\<close>

fun wants_peak :: "proc \<Rightarrow> int option" where
  "wants_peak (WorkerLoads s j c) = Some c"
| "wants_peak (WorkerSwaps s j c peak) = Some c"
| "wants_peak _ = None"

fun produced_by :: "proc \<Rightarrow> int option" where
  "produced_by (Producing i) = Some i"
| "produced_by (ProducerSends i st) = Some i"
| "produced_by (ProducerCounts i) = Some i"
| "produced_by _ = None"

text \<open>A goroutine with a job or a result of its own in hand.\<close>

fun has_item :: "proc \<Rightarrow> bool" where
  "has_item (ProducerSends i st) = True"
| "has_item (WorkerEnters s j) = True"
| "has_item (WorkerLoads s j c) = True"
| "has_item (WorkerSwaps s j c peak) = True"
| "has_item (WorkerRuns s j) = True"
| "has_item (WorkerLeaves s j res) = True"
| "has_item (WorkerFails s r) = True"
| "has_item (WorkerSendsErr s r) = True"
| "has_item (WorkerSends s j st) = True"
| "has_item _ = False"

definition in_memory :: "params \<Rightarrow> pl_world \<Rightarrow> nat" where
  "in_memory P w = (\<Sum>c \<in> chan_ids P. length (ch_buf (pl_chans w c))) + count_if has_item (pl_procs w)"

definition peak_inv :: "int \<Rightarrow> Metrics \<Rightarrow> proc list \<Rightarrow> bool" where
  "peak_inv n m ps \<longleftrightarrow>
     m_inFlight m = int (count_if in_flight ps) \<and> int (count_if is_worker ps) \<le> n \<and> m_MaxInFlight m \<le> n \<and>
     (\<forall>p \<in> set ps. \<forall>c. wants_peak p = Some c \<longrightarrow> c \<le> n) \<and>
     (\<forall>s j c peak. WorkerSwaps s j c peak \<in> set ps \<longrightarrow> peak \<le> m_MaxInFlight m) \<and>
     (m_inFlight m \<le> m_MaxInFlight m \<or> (\<exists>p \<in> set ps. \<exists>c. wants_peak p = Some c \<and> m_inFlight m \<le> c))"

definition count_inv :: "shared \<Rightarrow> proc list \<Rightarrow> bool" where
  "count_inv sh ps \<longleftrightarrow> count_if producing ps \<le> 1 \<and>
     m_Processed (metrics sh) + int (count_if ((=) CollectCounts) ps) = int (length (collected sh)) \<and>
     (\<forall>p \<in> set ps. \<forall>i. produced_by p = Some i \<longrightarrow> m_Produced (metrics sh) = i)"

definition pool_size :: "params \<Rightarrow> int \<Rightarrow> int" where
  "pool_size P workers = int (par_stages P) * max 1 workers"

lemma worker_flags:
  "in_flight p \<Longrightarrow> is_worker p" "has_item p \<Longrightarrow> is_worker p \<or> producing p" "wants_peak p = Some c \<Longrightarrow> in_flight p"
  by (cases p; simp add: is_worker_def)+

lemma proc_move_peak:
  assumes "proc_move P sh p a sh' p'"
  defines "m \<equiv> metrics sh" and "m' \<equiv> metrics sh'"
  shows "m_inFlight m' + (if in_flight p then 1 else 0) = m_inFlight m + (if in_flight p' then 1 else 0)"
    and "is_worker p' \<Longrightarrow> is_worker p"
    and "m_MaxInFlight m \<le> m_MaxInFlight m'"
    and "m_MaxInFlight m' = m_MaxInFlight m \<or> wants_peak p = Some (m_MaxInFlight m')"
    and "wants_peak p' = Some c \<Longrightarrow> wants_peak p = Some c \<or> c = m_inFlight m'"
    and "p' = WorkerSwaps s j c peak \<Longrightarrow> peak \<le> m_MaxInFlight m'"
    and "m_inFlight m < m_inFlight m' \<Longrightarrow> wants_peak p' = Some (m_inFlight m')"
    and "wants_peak p = Some c \<Longrightarrow> (\<And>s j c peak. p = WorkerSwaps s j c peak \<Longrightarrow> peak \<le> m_MaxInFlight m) \<Longrightarrow>
      wants_peak p' = Some c \<or> c \<le> m_MaxInFlight m'"
  using assms(1) unfolding m_def m'_def
  by (cases rule: proc_move.cases; auto simp: is_worker_def elim!: send_move.cases split: sum.splits if_splits)+

lemma proc_move_counts:
  assumes "proc_move P sh p a sh' p'"
  shows "m_Processed (metrics sh') + (if CollectCounts = p' then 1 else 0) + int (length (collected sh)) =
      m_Processed (metrics sh) + (if CollectCounts = p then 1 else 0) + int (length (collected sh'))"
    and "producing p' \<Longrightarrow> producing p"
    and "produced_by p' = Some i' \<Longrightarrow> \<exists>i. produced_by p = Some i \<and> i' - m_Produced (metrics sh') = i - m_Produced (metrics sh)"
    and "m_Produced (metrics sh') \<noteq> m_Produced (metrics sh) \<Longrightarrow> producing p"
  using assms by (cases rule: proc_move.cases; auto elim!: send_move.cases split: sum.splits if_splits)+

lemma peak_inv_move:
  assumes inv: "peak_inv n (metrics sh) ps" and i: "i < length ps" and move: "proc_move P sh (ps ! i) a sh' p"
  shows "peak_inv n (metrics sh') (ps[i := p])"
proof -
  let ?m = "metrics sh" and ?m' = "metrics sh'"
  note upd = count_if_update[OF i, of _ p] and facts = proc_move_peak[OF move]
  have mem: "ps ! i \<in> set ps" and new: "p \<in> set (ps[i := p])" and sub: "set (ps[i := p]) \<subseteq> insert p (set ps)"
    using i set_update_subset_insert[of ps i p] by (simp_all add: set_update_memI)
  have other: "q \<in> set (ps[i := p]) \<or> q = ps ! i" if "q \<in> set ps" for q
    using that i by (metis in_set_conv_nth length_list_update nth_list_update_neq)
  have flight: "m_inFlight ?m' = int (count_if in_flight (ps[i := p]))"
    using inv upd[of in_flight] facts(1) by (auto simp: peak_inv_def split: if_splits)
  have workers: "int (count_if is_worker (ps[i := p])) \<le> n"
    using inv upd[of is_worker] facts(2) by (auto simp: peak_inv_def split: if_splits)
  have le: "m_inFlight ?m' \<le> n"
    using flight workers count_if_mono[of in_flight is_worker "ps[i := p]"] worker_flags(1) by auto
  have peak: "m_MaxInFlight ?m' \<le> n" using facts(4) inv mem unfolding peak_inv_def by metis
  have wants: "c \<le> n" if "q \<in> set (ps[i := p])" "wants_peak q = Some c" for q c
    using that sub facts(5)[of c] inv mem le unfolding peak_inv_def by (metis insertE subsetD)
  have loaded: "pk \<le> m_MaxInFlight ?m'" if "WorkerSwaps s j c pk \<in> set (ps[i := p])" for s j c pk
    using that sub facts(3) facts(6)[of s j c pk] inv unfolding peak_inv_def by (metis insertE order_trans subsetD)
  have reached: "m_inFlight ?m' \<le> m_MaxInFlight ?m' \<or> (\<exists>q \<in> set (ps[i := p]). \<exists>c. wants_peak q = Some c \<and> m_inFlight ?m' \<le> c)"
  proof (cases "m_inFlight ?m < m_inFlight ?m'")
    case True
    then show ?thesis using facts(7) new by blast
  next
    case False
    consider "m_inFlight ?m \<le> m_MaxInFlight ?m" | q c where "q \<in> set ps" "wants_peak q = Some c" "m_inFlight ?m \<le> c"
      using inv unfolding peak_inv_def by blast
    then show ?thesis
    proof cases
      case 1
      then show ?thesis using False facts(3) by linarith
    next
      case (2 q c)
      show ?thesis
      proof (cases "q \<in> set (ps[i := p])")
        case True
        then show ?thesis using 2 False by (intro disjI2 bexI[of _ q] exI[of _ c]) auto
      next
        case False
        then have "q = ps ! i" using other[OF 2(1)] by simp
        moreover have "WorkerSwaps s j c pk = ps ! i \<Longrightarrow> pk \<le> m_MaxInFlight ?m" for s j c pk
          using inv mem unfolding peak_inv_def by metis
        ultimately have "wants_peak p = Some c \<or> c \<le> m_MaxInFlight ?m'" using facts(8)[of c] 2(2) by metis
        then show ?thesis using 2(3) \<open>\<not> m_inFlight ?m < m_inFlight ?m'\<close> new by (elim disjE) (auto intro!: disjI2 bexI[of _ p])
      qed
    qed
  qed
  show ?thesis using flight workers peak wants loaded reached by (simp add: peak_inv_def)
qed

lemma count_inv_move:
  assumes inv: "count_inv sh ps" and i: "i < length ps" and move: "proc_move P sh (ps ! i) a sh' p"
  shows "count_inv sh' (ps[i := p])"
proof -
  note upd = count_if_update[OF i, of _ p] and facts = proc_move_counts[OF move]
  have one: "count_if producing (ps[i := p]) \<le> 1" using inv upd[of producing] facts(2) by (auto simp: count_inv_def split: if_splits)
  have proc: "m_Processed (metrics sh') + int (count_if ((=) CollectCounts) (ps[i := p])) = int (length (collected sh'))"
    using inv upd[of "(=) CollectCounts"] facts(1) by (auto simp: count_inv_def split: if_splits)
  have prod: "m_Produced (metrics sh') = k" if q: "q \<in> set (ps[i := p])" "produced_by q = Some k" for q k
  proof -
    obtain l where l: "l < length ps" "q = ps[i := p] ! l" using q(1) by (auto simp: in_set_conv_nth)
    show ?thesis
    proof (cases "l = i")
      case True
      then have "produced_by p = Some k" using l i q(2) by simp
      from facts(3)[OF this] obtain k' where k': "produced_by (ps ! i) = Some k'" "k - m_Produced (metrics sh') = k' - m_Produced (metrics sh)" by blast
      moreover have "m_Produced (metrics sh) = k'" using inv k'(1) nth_mem[OF i] unfolding count_inv_def by blast
      ultimately show ?thesis by simp
    next
      case False
      have q': "q = ps ! l" using l False by simp
      have q'': "producing q" using q(2) by (cases q) auto
      then have "\<not> producing (ps ! i)"
      proof -
        have "1 \<le> count_if producing (ps[l := Exited])" if "producing (ps ! i)"
          using count_if_pos[of i "ps[l := Exited]" producing] i that False by simp
        then show ?thesis using count_if_update[OF l(1), of producing Exited] q' q'' inv by (auto simp: count_inv_def)
      qed
      then have "m_Produced (metrics sh') = m_Produced (metrics sh)" using facts(4) by blast
      then show ?thesis using inv q(2) nth_mem[OF l(1)] unfolding q' count_inv_def by metis
    qed
  qed
  show ?thesis using one proc prod by (simp add: count_inv_def)
qed

definition metrics_inv :: "params \<Rightarrow> int \<Rightarrow> pl_world \<Rightarrow> bool" where
  "metrics_inv P workers w \<longleftrightarrow> peak_inv (pool_size P workers) (metrics (pl_shared w)) (pl_procs w) \<and> count_inv (pl_shared w) (pl_procs w)"

lemma metrics_inv_move: "metrics_inv P k w \<Longrightarrow> one_move P w w' \<Longrightarrow> metrics_inv P k w'"
  by (erule one_move.cases) (auto simp: metrics_inv_def intro: peak_inv_move count_inv_move)

lemma metrics_inv_step:
  assumes "metrics_inv P k w" and "pl_step P w w'"
  shows "metrics_inv P k w'"
  using assms(2)
proof (cases rule: pl_step_moves)
  case 1
  then show ?thesis using metrics_inv_move assms(1) by blast
next
  case (2 w1)
  then show ?thesis using metrics_inv_move assms(1) by blast
next
  case 3
  then show ?thesis using assms(1) by (simp add: metrics_inv_def count_inv_def)
next
  case 4
  then show ?thesis using assms(1) by (simp add: metrics_inv_def)
qed

lemma count_worker_start: "count_if is_worker (pl_procs (pl_start P p)) = par_stages P * nat (pl_Workers p)"
proof -
  have "count_if is_worker (Run p t) = nat (pl_Workers p)" for t by (simp add: Run_def count_if_replicate is_worker_def)
  moreover have "count_if is_worker (map ErrReader ts) = 0" for ts by (auto simp: count_if_zero is_worker_def)
  ultimately show ?thesis by (simp add: pl_start_def count_if_concat sum_list_triv is_worker_def)
qed

lemma metrics_inv_start: "metrics_inv P k (pl_start P (NewPipeline b k))"
proof -
  let ?w = "pl_start P (NewPipeline b k)"
  have ps: "p \<in> set (pl_procs ?w) \<Longrightarrow> \<not> in_flight p \<and> p \<noteq> CollectCounts \<and> wants_peak p = None \<and> (\<forall>s j c pk. p \<noteq> WorkerSwaps s j c pk) \<and>
      (produced_by p = None \<or> p = Producing 0)" for p
    using in_start[of p P "NewPipeline b k"] by auto
  have m: "metrics (pl_shared ?w) = \<lparr>m_Produced = 0, m_Processed = 0, m_Failed = 0, m_BlockedSends = 0, m_MaxInFlight = 0, m_inFlight = 0\<rparr>"
    "collected (pl_shared ?w) = []"
    by (simp_all add: pl_start_def NewPipeline_def Let_def)
  have none: "count_if in_flight (pl_procs ?w) = 0" "count_if ((=) CollectCounts) (pl_procs ?w) = 0"
    unfolding count_if_zero using ps by blast+
  have "count_if producing (pl_procs ?w) = 1" by (simp add: count_start[of _ 0 False False])
  then have "count_inv (pl_shared ?w) (pl_procs ?w)" using none ps by (auto simp: count_inv_def m dest: ps)
  moreover have "int (count_if is_worker (pl_procs ?w)) = pool_size P k"
    by (simp add: count_worker_start pool_size_def max_def)
  then have "peak_inv (pool_size P k) (metrics (pl_shared ?w)) (pl_procs ?w)"
    using none ps by (auto simp: peak_inv_def m pool_size_def max_def dest: ps)
  ultimately show ?thesis by (simp add: metrics_inv_def)
qed

interpretation pl_metrics: step_system "pl_init P b k" "pl_step P" "metrics_inv P k" for P b k
  by unfold_locales (auto simp: pl_init_def intro: metrics_inv_start metrics_inv_step)

definition buffers_ok :: "nat \<Rightarrow> pl_world \<Rightarrow> bool" where
  "buffers_ok cap w \<longleftrightarrow> (\<forall>c. ch_cap (pl_chans w c) = cap \<and> length (ch_buf (pl_chans w c)) \<le> cap)"

lemma buffers_ok_step: "buffers_ok cap w \<Longrightarrow> pl_step P w w' \<Longrightarrow> buffers_ok cap w'"
proof (erule pl_step.cases, goal_cases)
  case (3 i ps ch c x xs sh sh' p)
  then have "length (x # xs) \<le> cap" unfolding buffers_ok_def by (metis select_convs(2))
  then show ?case using 3 by (simp add: buffers_ok_def)
qed (auto simp: buffers_ok_def)

interpretation pl_buffers: step_system "pl_init P b k" "pl_step P" "buffers_ok (nat (max 0 b))" for P b k
proof
  show "pl_init P b k w \<Longrightarrow> buffers_ok (nat (max 0 b)) w" for w by (simp add: pl_init_def buffers_ok_def pl_start_def)
  show "buffers_ok (nat (max 0 b)) w \<Longrightarrow> pl_step P w w' \<Longrightarrow> buffers_ok (nat (max 0 b)) w'" for w w' by (rule buffers_ok_step)
qed

lemma card_chan_ids: "card (chan_ids P) = 2 * par_stages P + 1"
  unfolding chan_ids_def by (subst card_Un_disjoint) (auto simp: card_image inj_on_def)


subsection \<open>Every run ends\<close>

text \<open>The steps a job on the channel of stage \<open>s\<close> may still take, those of a goroutine, and the position in the loop of \<open>enter\<close>.\<close>

definition job_steps :: "params \<Rightarrow> nat \<Rightarrow> nat" where
  "job_steps P s = 8 * (par_stages P - s) + 2"

fun item_steps :: "params \<Rightarrow> chan_id \<Rightarrow> nat" where
  "item_steps P (Jobs s) = job_steps P s"
| "item_steps P (Errs s) = 1"

fun send_steps :: "sending \<Rightarrow> nat" where
  "send_steps TrySend = 3"
| "send_steps CountBlocked = 2"
| "send_steps WaitSend = 1"

definition produce_steps :: "params \<Rightarrow> int \<Rightarrow> nat" where
  "produce_steps P i = nat (par_jobs P - i) * (job_steps P 0 + 5)"

fun proc_steps :: "params \<Rightarrow> proc \<Rightarrow> nat" where
  "proc_steps P (Producing i) = produce_steps P i + 2"
| "proc_steps P (ProducerSends i st) = produce_steps P (i + 1) + 3 + job_steps P 0 + send_steps st"
| "proc_steps P (ProducerCounts i) = produce_steps P (i + 1) + 3"
| "proc_steps P ProducerCloses = 1"
| "proc_steps P (WorkerSelect s) = 2"
| "proc_steps P (WorkerEnters s j) = job_steps P (Suc s) + 9"
| "proc_steps P (WorkerLoads s j c) = job_steps P (Suc s) + 8"
| "proc_steps P (WorkerSwaps s j c peak) = job_steps P (Suc s) + 8"
| "proc_steps P (WorkerRuns s j) = job_steps P (Suc s) + 7"
| "proc_steps P (WorkerLeaves s j res) = job_steps P (Suc s) + 6"
| "proc_steps P (WorkerFails s r) = 5"
| "proc_steps P (WorkerSendsErr s r) = 4"
| "proc_steps P (WorkerSends s j st) = job_steps P (Suc s) + 2 + send_steps st"
| "proc_steps P (WorkerExits s) = 1"
| "proc_steps P (CloserWaits s) = 3"
| "proc_steps P (CloserOut s) = 2"
| "proc_steps P (CloserErrs s) = 1"
| "proc_steps P Collecting = 1"
| "proc_steps P CollectCounts = 2"
| "proc_steps P CollectReturned = 0"
| "proc_steps P (ErrReader s) = 1"
| "proc_steps P Exited = 0"

fun loop_steps :: "int \<Rightarrow> proc \<Rightarrow> nat" where
  "loop_steps peak (WorkerLoads s j c) = 2"
| "loop_steps peak (WorkerSwaps s j c pk) = (if c \<le> pk \<or> pk = peak then 1 else 3)"
| "loop_steps peak _ = 0"

definition steps_left :: "params \<Rightarrow> pl_world \<Rightarrow> nat" where
  "steps_left P w = sum_list (map (proc_steps P) (pl_procs w)) +
     (\<Sum>c \<in> chan_ids P. length (ch_buf (pl_chans w c)) * item_steps P c) + (if cancelled (pl_shared w) then 0 else 1)"

definition loops_left :: "pl_world \<Rightarrow> nat" where
  "loops_left w = sum_list (map (loop_steps (m_MaxInFlight (metrics (pl_shared w)))) (pl_procs w))"

fun steps_given :: "params \<Rightarrow> action \<Rightarrow> nat" where
  "steps_given P (Snd c x) = item_steps P c"
| "steps_given P _ = 0"

fun steps_received :: "params \<Rightarrow> action \<Rightarrow> nat" where
  "steps_received P (Rcv c (Some x)) = item_steps P c"
| "steps_received P _ = 0"

lemma job_steps_less: "s < par_stages P \<Longrightarrow> job_steps P s = job_steps P (Suc s) + 8"
  by (simp add: job_steps_def)

lemma produce_steps_less: "i < par_jobs P \<Longrightarrow> produce_steps P i = produce_steps P (i + 1) + job_steps P 0 + 5"
proof -
  assume "i < par_jobs P"
  then have "nat (par_jobs P - i) = Suc (nat (par_jobs P - (i + 1)))" by simp
  then show ?thesis by (simp add: produce_steps_def)
qed

text \<open>A move takes a step, except that the loop of \<open>enter\<close> may turn, and then it gets nearer to its end.\<close>

lemma proc_move_steps:
  assumes "proc_move P sh p a sh' p'" and "valid_proc P p"
  shows "proc_steps P p' + steps_given P a < proc_steps P p + steps_received P a \<or>
    a = Tau \<and> proc_steps P p' = proc_steps P p \<and> m_MaxInFlight (metrics sh') = m_MaxInFlight (metrics sh) \<and>
      loop_steps (m_MaxInFlight (metrics sh)) p' < loop_steps (m_MaxInFlight (metrics sh)) p"
  using assms(1)
proof (cases rule: proc_move.cases)
  case (Produce_send i st r)
  show ?thesis using Produce_send(3) by (cases rule: send_move.cases) (simp_all add: Produce_send(1,2))
next
  case (Worker_send s j st r)
  show ?thesis using Worker_send(3) by (cases rule: send_move.cases) (simp_all add: Worker_send(1,2))
qed (use assms(2) in \<open>auto simp: valid_proc_def job_steps_less produce_steps_less split: sum.splits\<close>,
  simp add: job_steps_def)

lemma buffered_steps:
  assumes "chan_allows a ch" and "\<And>c. action_chan a = Some c \<Longrightarrow> c \<in> chan_ids P"
  shows "(\<Sum>c \<in> chan_ids P. length (ch_buf (chan_effect a ch c)) * item_steps P c) + steps_received P a =
    (\<Sum>c \<in> chan_ids P. length (ch_buf (ch c)) * item_steps P c) + steps_given P a"
proof -
  note sums = chan_sum_effect[where g = "\<lambda>c xs. length xs * item_steps P c", OF _ assms, simplified]
  then show ?thesis by (cases a) (auto simp: algebra_simps split: option.splits)
qed

definition run_order :: "((nat \<times> nat) \<times> (nat \<times> nat)) set" where
  "run_order = less_than <*lex*> less_than"

definition steps_pair :: "params \<Rightarrow> pl_world \<Rightarrow> nat \<times> nat" where
  "steps_pair P w = (steps_left P w, loops_left w)"

lemma run_order: "wf run_order" "trans run_order"
  unfolding run_order_def by (auto intro: trans_lex_prod simp: trans_def)

lemma one_move_descends:
  assumes "\<forall>p \<in> set (pl_procs w). valid_proc P p" and "one_move P w w'"
  shows "(steps_pair P w', steps_pair P w) \<in> run_order"
  using assms(2)
proof cases
  case (1 i ps sh a sh' p ch)
  have valid: "valid_proc P (ps ! i)" using assms(1) 1(1,3) by simp
  have T: "sum_list (map (proc_steps P) (ps[i := p])) + proc_steps P (ps ! i) = sum_list (map (proc_steps P) ps) + proc_steps P p"
    by (rule sum_list_update_add[OF 1(3)])
  have B: "(\<Sum>c \<in> chan_ids P. length (ch_buf (chan_effect a ch c)) * item_steps P c) + steps_received P a =
      (\<Sum>c \<in> chan_ids P. length (ch_buf (ch c)) * item_steps P c) + steps_given P a"
    by (rule buffered_steps[OF 1(5) proc_move_valid(2)[OF 1(4) valid]])
  have canc: "cancelled sh' = cancelled sh" by (rule proc_move_valid(3)[OF 1(4) valid])
  from proc_move_steps[OF 1(4) valid] show ?thesis
  proof
    assume "proc_steps P p + steps_given P a < proc_steps P (ps ! i) + steps_received P a"
    then have "steps_left P w' < steps_left P w" using T B unfolding 1(1,2) by (simp add: steps_left_def canc)
    then show ?thesis by (simp add: run_order_def steps_pair_def)
  next
    assume turn: "a = Tau \<and> proc_steps P p = proc_steps P (ps ! i) \<and> m_MaxInFlight (metrics sh') = m_MaxInFlight (metrics sh) \<and>
      loop_steps (m_MaxInFlight (metrics sh)) p < loop_steps (m_MaxInFlight (metrics sh)) (ps ! i)"
    then have "steps_left P w' = steps_left P w" using T B unfolding 1(1,2) by (simp add: steps_left_def canc)
    moreover have "loops_left w' < loops_left w"
      using turn sum_list_update_rank[OF 1(3), of "loop_steps (m_MaxInFlight (metrics sh))" p] unfolding 1(1,2) by (simp add: loops_left_def)
    ultimately show ?thesis by (simp add: run_order_def steps_pair_def)
  qed
qed

lemma one_move_valid:
  assumes "\<forall>p \<in> set (pl_procs w). valid_proc P p" and "one_move P w w'"
  shows "\<forall>p \<in> set (pl_procs w'). valid_proc P p"
  using assms(2)
proof cases
  case (1 i ps sh a sh' p ch)
  then have "valid_proc P p" using assms(1) proc_move_valid(1)[of P sh "ps ! i" a sh' p] by simp
  then show ?thesis using assms(1) set_update_subset_insert[of ps i p] unfolding 1(1,2) by auto
qed

lemma pl_step_descends:
  assumes inv: "roles_inv P cap k w" and step: "pl_step P w w'"
  shows "(steps_pair P w', steps_pair P w) \<in> run_order"
proof -
  have valid: "\<forall>p \<in> set (pl_procs w). valid_proc P p" using inv by (simp add: roles_inv_def)
  from step have "\<not> pl_panic w'" using roles_inv_step[OF inv step] by (simp add: roles_inv_def)
  from step show ?thesis
  proof (cases rule: pl_step_moves)
    case 1
    then show ?thesis by (rule one_move_descends[OF valid])
  next
    case (2 w1)
    then show ?thesis
      using one_move_descends[OF valid 2(1)] one_move_descends[OF one_move_valid[OF valid 2(1)] 2(2)] run_order(2) by (meson transD)
  next
    case 3
    then show ?thesis by (simp add: run_order_def steps_pair_def steps_left_def)
  next
    case (4 i a sh' p c)
    then show ?thesis using \<open>\<not> pl_panic w'\<close> by simp
  qed
qed

definition moves_on :: "params \<Rightarrow> pl_world \<Rightarrow> bool" where
  "moves_on P w \<longleftrightarrow> (\<exists>w'. pl_step P w w' \<and> cancelled (pl_shared w') = cancelled (pl_shared w))"

definition finished :: "proc \<Rightarrow> bool" where
  "finished p \<longleftrightarrow> p = Exited \<or> p = CollectReturned"

text \<open>The places where a goroutine may have to wait for others.\<close>

fun waits :: "proc \<Rightarrow> bool" where
  "waits (ProducerSends i WaitSend) = True"
| "waits (WorkerSelect s) = True"
| "waits (WorkerSendsErr s r) = True"
| "waits (WorkerSends s j WaitSend) = True"
| "waits (CloserWaits s) = True"
| "waits Collecting = True"
| "waits (ErrReader s) = True"
| "waits _ = False"

fun possible :: "action \<Rightarrow> (chan_id \<Rightarrow> chan) \<Rightarrow> bool" where
  "possible (Snd c x) ch = (\<not> ch_closed (ch c) \<and> length (ch_buf (ch c)) < ch_cap (ch c))"
| "possible (Full c) ch = (\<not> ch_closed (ch c) \<and> \<not> length (ch_buf (ch c)) < ch_cap (ch c))"
| "possible a ch = chan_allows a ch"

lemma moves_onI:
  assumes inv: "roles_inv P cap k w" and p: "p \<in> set (pl_procs w)" and move: "proc_move P (pl_shared w) p a sh' p'"
    and ok: "possible a (pl_chans w)"
  shows "moves_on P w"
proof -
  obtain sh ch ps where w: "w = \<lparr>pl_shared = sh, pl_chans = ch, pl_procs = ps, pl_panic = False\<rparr>"
    using inv by (cases w) (simp add: roles_inv_def)
  have "valid_proc P p" using inv p by (simp add: roles_inv_def)
  then have canc: "cancelled sh' = cancelled sh" using proc_move_valid(3)[OF move] w by simp
  obtain i where i: "i < length ps" "ps ! i = p" using p w by (auto simp: in_set_conv_nth)
  note move = move[unfolded w, simplified, folded i(2)] and ok = ok[unfolded w, simplified]
  have "\<exists>ch' ps'. pl_step P w \<lparr>pl_shared = sh', pl_chans = ch', pl_procs = ps', pl_panic = False\<rparr>"
  proof (cases a)
    case Tau
    then show ?thesis using pl_step.Internal[OF i(1)] move unfolding w by blast
  next
    case (Snd c x)
    then show ?thesis using pl_step.Send[OF i(1)] move ok unfolding w by fastforce
  next
    case (Rcv c y)
    then show ?thesis
      using pl_step.Receive[OF i(1)] pl_step.Receive_closed[OF i(1)] move ok unfolding w by (cases y) fastforce+
  next
    case (Full c)
    then show ?thesis using pl_step.Default[OF i(1)] move ok unfolding w by fastforce
  next
    case (Close c)
    then show ?thesis using pl_step.Closing[OF i(1)] move ok unfolding w by fastforce
  qed
  then show ?thesis using canc unfolding moves_on_def by (auto simp: w)
qed

lemma handoff_moves_on:
  assumes inv: "roles_inv P cap k w" and p: "p \<in> set (pl_procs w)" and q: "q \<in> set (pl_procs w)" and "p \<noteq> q"
    and snd: "proc_move P (pl_shared w) p (Snd c x) (pl_shared w) p'" and rcv: "proc_move P (pl_shared w) q (Rcv c (Some x)) sh' q'"
    and ok: "\<not> ch_closed (pl_chans w c)" "ch_buf (pl_chans w c) = []"
  shows "moves_on P w"
proof -
  obtain sh ch ps where w: "w = \<lparr>pl_shared = sh, pl_chans = ch, pl_procs = ps, pl_panic = False\<rparr>"
    using inv by (cases w) (simp add: roles_inv_def)
  have "valid_proc P q" using inv q by (simp add: roles_inv_def)
  then have canc: "cancelled sh' = cancelled sh" using proc_move_valid(3)[OF rcv] w by simp
  obtain i r where i: "i < length ps" "ps ! i = p" "r < length ps" "ps ! r = q" using p q w by (auto simp: in_set_conv_nth)
  then have "i \<noteq> r" using \<open>p \<noteq> q\<close> by blast
  then have "pl_step P w \<lparr>pl_shared = sh', pl_chans = ch, pl_procs = ps[i := p', r := q'], pl_panic = False\<rparr>"
    using i ok snd rcv unfolding w by (intro pl_step.Handoff) simp_all
  then show ?thesis using canc unfolding moves_on_def by (auto simp: w)
qed

lemma not_closed_for:
  assumes "roles_inv P cap k w" and "p \<in> set (pl_procs w)" and "sender c p \<or> closer c p" and "c \<in> chan_ids P"
  shows "\<not> ch_closed (pl_chans w c)"
  using assms by (intro sender_not_closed[of P "pl_shared w" _ "pl_procs w" c p]) (simp_all add: roles_inv_def)

lemma free_moves_on:
  assumes inv: "roles_inv P cap k w" and p: "p \<in> set (pl_procs w)" and "\<not> finished p" and "\<not> waits p"
  shows "moves_on P w"
proof -
  have valid: "valid_proc P p" using inv p by (simp add: roles_inv_def)
  note tau = moves_onI[OF inv p, of Tau] and free = not_closed_for[OF inv p]
  have send: "moves_on P w" if c: "c \<in> chan_ids P" "sender c p" and both: "proc_move P (pl_shared w) p (Snd c x) sh' p1"
      "proc_move P (pl_shared w) p (Full c) sh' p2" for c x sh' p1 p2
    using moves_onI[OF inv p both(1)] moves_onI[OF inv p both(2)] free[OF _ c(1)] c(2) by auto
  show ?thesis
  proof (cases p)
    case (Producing i)
    then show ?thesis using tau proc_move.Produce_loop proc_move.Produce_end by (cases "i < par_jobs P") fastforce+
  next
    case (ProducerSends i st)
    show ?thesis
    proof (cases st)
      case TrySend
      note p_is = ProducerSends[unfolded TrySend]
      show ?thesis
        by (rule send[unfolded p_is, OF _ _ proc_move.Produce_send[OF send_move.Try_sent] proc_move.Produce_send[OF send_move.Try_default]])
           (simp_all add: chan_ids_def)
    next
      case CountBlocked
      show ?thesis by (rule tau[unfolded ProducerSends CountBlocked, OF proc_move.Produce_send[OF send_move.Blocked]]) simp
    qed (use assms(4) ProducerSends in simp)
  next
    case ProducerCloses
    then show ?thesis
      using moves_onI[OF inv p, unfolded ProducerCloses, OF proc_move.Produce_close] free[of "Jobs 0"] by (auto simp: chan_ids_def)
  next
    case (WorkerSwaps s j c peak)
    then show ?thesis using tau proc_move.Enter_below proc_move.Enter_swap proc_move.Enter_retry
      by (cases "c \<le> peak"; cases "m_MaxInFlight (metrics (pl_shared w)) = peak") fastforce+
  next
    case (WorkerSends s j st)
    show ?thesis
    proof (cases st)
      case TrySend
      note p_is = WorkerSends[unfolded TrySend]
      show ?thesis
        by (rule send[unfolded p_is, OF _ _ proc_move.Worker_send[OF send_move.Try_sent] proc_move.Worker_send[OF send_move.Try_default]])
           (use valid WorkerSends in \<open>auto simp: chan_ids_def valid_proc_def working_def\<close>)
    next
      case CountBlocked
      show ?thesis by (rule tau[unfolded WorkerSends CountBlocked, OF proc_move.Worker_send[OF send_move.Blocked]]) simp
    qed (use assms(4) WorkerSends in simp)
  next
    case (CloserOut s)
    then show ?thesis
      using moves_onI[OF inv p, unfolded CloserOut, OF proc_move.Closer_out] free[of "Jobs (Suc s)"] valid
      by (auto simp: chan_ids_def valid_proc_def closes_out_def)
  next
    case (CloserErrs s)
    then show ?thesis
      using moves_onI[OF inv p, unfolded CloserErrs, OF proc_move.Closer_errs] free[of "Errs s"] valid
      by (auto simp: chan_ids_def valid_proc_def closes_errs_def)
  next
    case (ProducerCounts i)
    show ?thesis by (rule tau[unfolded ProducerCounts, OF proc_move.Produce_count]) simp
  next
    case (WorkerEnters s j)
    show ?thesis by (rule tau[unfolded WorkerEnters, OF proc_move.Enter_add]) simp
  next
    case (WorkerLoads s j c)
    show ?thesis by (rule tau[unfolded WorkerLoads, OF proc_move.Enter_load]) simp
  next
    case (WorkerRuns s j)
    show ?thesis by (rule tau[unfolded WorkerRuns, OF proc_move.Run_stage]) simp
  next
    case (WorkerLeaves s j res)
    show ?thesis by (rule tau[unfolded WorkerLeaves, OF proc_move.Leave]) simp
  next
    case (WorkerFails s r)
    show ?thesis by (rule tau[unfolded WorkerFails, OF proc_move.Fail_count]) simp
  next
    case (WorkerExits s)
    show ?thesis by (rule tau[unfolded WorkerExits, OF proc_move.Worker_done]) simp
  next
    case CollectCounts
    show ?thesis by (rule tau[unfolded CollectCounts, OF proc_move.Collect_count]) simp
  qed (use assms(3,4) in \<open>simp_all add: finished_def\<close>)
qed

subsection \<open>Where a run can stop\<close>

lemma closer_there:
  assumes "roles_inv P cap k w" and "c \<in> chan_ids P" and "\<not> ch_closed (pl_chans w c)"
  obtains p where "p \<in> set (pl_procs w)" and "closer c p"
proof -
  have "count_if (closer c) (pl_procs w) \<noteq> 0" using assms by (simp add: roles_inv_def closing_inv_def)
  then show ?thesis using that unfolding count_if_zero by blast
qed

lemma stuck_closer:
  assumes inv: "roles_inv P cap k w" and stuck: "\<not> moves_on P w" and s: "s < par_stages P"
    and p: "p \<in> set (pl_procs w)" "closes_errs s p"
  obtains q where "q \<in> set (pl_procs w)" and "working s q" and "waits q"
proof -
  have "waits p" using free_moves_on[OF inv p(1)] stuck p(2) by (auto simp: finished_def closes_errs_def closes_out_def)
  then have waiting: "p = CloserWaits s" using p(2) by (auto simp: closes_errs_def closes_out_def)
  have "wg (pl_shared w) s \<noteq> 0" using moves_onI[OF inv p(1), unfolded waiting, OF proc_move.Closer_wait] stuck by auto
  then have "count_if (active s) (pl_procs w) \<noteq> 0" using inv s by (simp add: roles_inv_def closing_inv_def)
  then obtain q where q: "q \<in> set (pl_procs w)" "active s q" unfolding count_if_zero by blast
  moreover have "\<not> finished q" using q(2) by (auto simp: finished_def active_def working_def)
  ultimately have "waits q" using free_moves_on[OF inv q(1)] stuck by blast
  then show ?thesis using that q by (auto simp: active_def)
qed

lemma stuck_reader:
  assumes inv: "roles_inv P cap k w" and stuck: "\<not> moves_on P w" and p: "ErrReader s \<in> set (pl_procs w)"
  shows "ch_buf (pl_chans w (Errs s)) = [] \<and> \<not> ch_closed (pl_chans w (Errs s))"
proof -
  have items: "\<forall>x \<in> set (ch_buf (pl_chans w (Errs s))). item_ok (Errs s) x" using inv by (simp add: roles_inv_def)
  have "ch_buf (pl_chans w (Errs s)) = []"
  proof (cases "ch_buf (pl_chans w (Errs s))")
    case (Cons x xs)
    then obtain r where "x = R r" using items by (cases x) auto
    then show ?thesis using moves_onI[OF inv p proc_move.Read_recv] stuck Cons by auto
  qed
  then show ?thesis using moves_onI[OF inv p proc_move.Read_closed] stuck by auto
qed

lemma stuck_jobs:
  assumes inv: "roles_inv P cap k w" and stuck: "\<not> moves_on P w" and p: "p \<in> set (pl_procs w)"
    and reads: "\<And>j. \<exists>sh' p'. proc_move P (pl_shared w) p (Rcv (Jobs s) (Some (J j))) sh' p'"
    and "\<exists>sh' p'. proc_move P (pl_shared w) p (Rcv (Jobs s) None) sh' p'"
  shows "ch_buf (pl_chans w (Jobs s)) = [] \<and> \<not> ch_closed (pl_chans w (Jobs s))"
proof -
  have items: "\<forall>x \<in> set (ch_buf (pl_chans w (Jobs s))). item_ok (Jobs s) x" using inv by (simp add: roles_inv_def)
  have "ch_buf (pl_chans w (Jobs s)) = []"
  proof (cases "ch_buf (pl_chans w (Jobs s))")
    case (Cons x xs)
    then obtain j where "x = J j" using items by (cases x) auto
    then show ?thesis using reads[of j] moves_onI[OF inv p] stuck Cons by fastforce
  qed
  then show ?thesis using assms(5) moves_onI[OF inv p] stuck by fastforce
qed

definition errs_handled :: "params \<Rightarrow> bool" where
  "errs_handled P \<longleftrightarrow> (\<forall>s < par_stages P. par_drained P s \<or> (\<forall>j. \<exists>j'. par_stage P s j = Inr j'))"

text \<open>While nothing is cancelled, a goroutine that waits for a job gets one, or the channel is closed.\<close>

lemma no_starving_reader:
  assumes inv: "roles_inv P cap k w" and stuck: "\<not> moves_on P w" and handled: "errs_handled P"
  shows "s \<le> par_stages P \<Longrightarrow> q \<in> set (pl_procs w) \<Longrightarrow> q = WorkerSelect s \<or> q = Collecting \<and> s = par_stages P \<Longrightarrow> False"
proof (induction s arbitrary: q)
  case 0
  have rcv: "\<exists>sh' q'. proc_move P (pl_shared w) q (Rcv (Jobs 0) (Some (J j))) sh' q'" for j
    using 0 by (metis proc_move.Collect_recv proc_move.Worker_recv)
  have empty: "ch_buf (pl_chans w (Jobs 0)) = [] \<and> \<not> ch_closed (pl_chans w (Jobs 0))"
    using 0 proc_move.Collect_closed proc_move.Worker_closed by (intro stuck_jobs[OF inv stuck 0(2) rcv]) metis
  then obtain p where p: "p \<in> set (pl_procs w)" "producing p" by (metis closer_there[OF inv] chan_ids_def UnI1 atMost_iff closer.simps(1) imageI le0)
  then obtain i where i: "p = ProducerSends i WaitSend"
    using free_moves_on[OF inv p(1)] stuck by (cases p rule: waits.cases) (auto simp: finished_def)
  obtain sh' q' where "proc_move P (pl_shared w) q (Rcv (Jobs 0) (Some (J (job i)))) sh' q'" using rcv by blast
  then have "moves_on P w"
    using 0(3) empty by (intro handoff_moves_on[OF inv p(1)[unfolded i] 0(2) _ proc_move.Produce_send[OF send_move.Wait_sent]]) auto
  then show False using stuck by simp
next
  case (Suc s)
  have s: "s < par_stages P" using Suc.prems(1) by simp
  have rcv: "\<exists>sh' q'. proc_move P (pl_shared w) q (Rcv (Jobs (Suc s)) (Some (J j))) sh' q'" for j
    using Suc.prems(3) by (metis proc_move.Collect_recv proc_move.Worker_recv)
  have empty: "ch_buf (pl_chans w (Jobs (Suc s))) = [] \<and> \<not> ch_closed (pl_chans w (Jobs (Suc s)))"
    using Suc.prems(3) proc_move.Collect_closed proc_move.Worker_closed by (intro stuck_jobs[OF inv stuck Suc.prems(2) rcv]) metis
  have ids: "Jobs (Suc s) \<in> chan_ids P" "Errs s \<in> chan_ids P" using s by (auto simp: chan_ids_def)
  obtain c where "c \<in> set (pl_procs w)" "closes_errs s c"
    using closer_there[OF inv ids(1)] empty by (metis closer.simps(2) closes_errs_def)
  then obtain p where p: "p \<in> set (pl_procs w)" "working s p" "waits p" by (rule stuck_closer[OF inv stuck s])
  then consider "p = WorkerSelect s" | r where "p = WorkerSendsErr s r" | j where "p = WorkerSends s j WaitSend"
    by (cases p rule: waits.cases) (auto simp: working_def)
  then show False
  proof cases
    case 1
    then show False using Suc.IH[OF _ p(1)] s by simp
  next
    case (2 r)
    have "valid_proc P p" using inv p(1) by (simp add: roles_inv_def)
    then have "\<exists>j e. par_stage P s j = Inl e" by (simp add: valid_proc_def 2)
    then have "par_drained P s" using handled s unfolding errs_handled_def by (metis sum.distinct(1))
    moreover have "\<not> ch_closed (pl_chans w (Errs s))" using not_closed_for[OF inv p(1) _ ids(2)] p(2) by simp
    ultimately have "count_if ((=) (ErrReader s)) (pl_procs w) \<noteq> 0" using inv s by (auto simp: roles_inv_def reading_inv_def drained_def)
    then have rd: "ErrReader s \<in> set (pl_procs w)" by (auto simp: count_if_zero)
    have "moves_on P w"
      using stuck_reader[OF inv stuck rd] by (intro handoff_moves_on[OF inv p(1)[unfolded 2] rd _ proc_move.Fail_sent proc_move.Read_recv]) auto
    then show False using stuck by simp
  next
    case (3 j)
    obtain sh' q' where "proc_move P (pl_shared w) q (Rcv (Jobs (Suc s)) (Some (J j))) sh' q'" using rcv by blast
    then have "moves_on P w"
      using Suc.prems(3) empty by (intro handoff_moves_on[OF inv p(1)[unfolded 3] Suc.prems(2) _ proc_move.Worker_send[OF send_move.Wait_sent]]) auto
    then show False using stuck by simp
  qed
qed

lemma stuck_finished:
  assumes inv: "roles_inv P cap k w" and k: "0 < k" and stuck: "\<not> moves_on P w"
    and ok: "cancelled (pl_shared w) \<or> errs_handled P" and p: "p \<in> set (pl_procs w)"
  shows "finished p"
proof -
  let ?ps = "pl_procs w" and ?ch = "pl_chans w"
  have closing: "closing_inv P (pl_shared w) ?ch ?ps" and reading: "reading_inv P k (pl_shared w) ?ch ?ps"
    and valid: "\<And>q. q \<in> set ?ps \<Longrightarrow> valid_proc P q"
    using inv by (simp_all add: roles_inv_def)
  have collected_all: "drained ?ch (Jobs (par_stages P))" if go: "\<not> cancelled (pl_shared w)"
  proof -
    have "Collecting \<notin> set ?ps" using no_starving_reader[OF inv stuck _ order_refl] ok go by blast
    moreover have "CollectCounts \<notin> set ?ps" using free_moves_on[OF inv, of CollectCounts] stuck by (auto simp: finished_def)
    ultimately have "count_if collecting ?ps = 0" unfolding count_if_zero collecting_def by blast
    then show ?thesis using reading go by (simp add: reading_inv_def)
  qed
  have no_work: "\<not> (working s q \<and> waits q)" if q: "q \<in> set ?ps" for s q
  proof (cases "cancelled (pl_shared w)")
    case True
    show ?thesis
    proof
      assume "working s q \<and> waits q"
      then consider "q = WorkerSelect s" | r where "q = WorkerSendsErr s r" | j where "q = WorkerSends s j WaitSend"
        by (cases q rule: waits.cases) (auto simp: working_def)
      then show False
      proof cases
        case 1
        then show False using moves_onI[OF inv q[unfolded 1] proc_move.Worker_ctx[OF True]] stuck by simp
      next
        case (2 r)
        then show False using moves_onI[OF inv q[unfolded 2] proc_move.Fail_ctx[OF True]] stuck by simp
      next
        case (3 j)
        then show False using moves_onI[OF inv q[unfolded 3] proc_move.Worker_send[OF send_move.Wait_ctx[OF True]]] stuck by simp
      qed
    qed
  next
    case False
    note last_drained = collected_all[OF False]
    show ?thesis
    proof
      assume "working s q \<and> waits q"
      moreover from this have "s < par_stages P" using valid[OF q] by (cases q) (auto simp: working_def valid_proc_def)
      moreover from this have "ch_closed (?ch (Jobs (Suc s)))"
        using all_drained(1)[OF inv k False last_drained, of "Suc s"] by (simp add: drained_def)
      ultimately have "count_if (active s) ?ps = 0" "active s q" using closing by (auto simp: closing_inv_def active_def)
      then show False using q by (simp add: count_if_zero)
    qed
  qed
  have no_closer: "\<not> closes_errs s q" if "q \<in> set ?ps" for s q
  proof
    assume c: "closes_errs s q"
    then have "s < par_stages P" using valid[OF that] by (auto simp: closes_errs_def closes_out_def valid_proc_def)
    then show False using stuck_closer[OF inv stuck _ that c] no_work by blast
  qed
  show ?thesis
  proof (rule ccontr)
    assume "\<not> finished p"
    then have "waits p" using free_moves_on[OF inv p] stuck by blast
    then consider i where "p = ProducerSends i WaitSend" | s where "working s p" | s where "p = CloserWaits s" | "p = Collecting" | s where "p = ErrReader s"
      by (cases p rule: waits.cases) (auto simp: working_def)
    then show False
    proof cases
      case (1 i)
      show False
      proof (cases "cancelled (pl_shared w)")
        case True
        then show False using moves_onI[OF inv p[unfolded 1] proc_move.Produce_send[OF send_move.Wait_ctx]] stuck by simp
      next
        case False
        from all_drained(1)[OF inv k False collected_all[OF False], of 0] have "ch_closed (?ch (Jobs 0))" by (simp add: drained_def)
        then have "count_if (closer (Jobs 0)) ?ps = 0" using closing by (auto simp: closing_inv_def chan_ids_def)
        then show False using p 1 by (auto simp: count_if_zero)
      qed
    next
      case (2 s)
      then show False using no_work[OF p] \<open>waits p\<close> by blast
    next
      case (3 s)
      then show False using no_closer[OF p, of s] by (simp add: closes_errs_def closes_out_def)
    next
      case 4
      show False
      proof (cases "cancelled (pl_shared w)")
        case True
        then show False using moves_onI[OF inv p[unfolded 4] proc_move.Collect_ctx] stuck by simp
      next
        case False
        then show False using no_starving_reader[OF inv stuck _ order_refl p] ok 4 by blast
      qed
    next
      case (5 s)
      have "s < par_stages P" using valid[OF p] by (simp add: 5 valid_proc_def)
      then have "Errs s \<in> chan_ids P" by (auto simp: chan_ids_def)
      moreover have "\<not> ch_closed (?ch (Errs s))" using stuck_reader[OF inv stuck p[unfolded 5]] by simp
      ultimately obtain c where "c \<in> set ?ps" "closes_errs s c" using closer_there[OF inv] by (metis closer.simps(3))
      then show False using no_closer by blast
    qed
  qed
qed

lemma cancelled_step: "roles_inv P cap k w \<Longrightarrow> pl_step P w w' \<Longrightarrow> cancelled (pl_shared w) \<Longrightarrow> cancelled (pl_shared w')"
proof (erule pl_step_moves)
  have move: "cancelled (pl_shared w2)" if "one_move P w1 w2" "\<forall>p \<in> set (pl_procs w1). valid_proc P p" "cancelled (pl_shared w1)" for w1 w2
    using that by (cases rule: one_move.cases) (auto dest: proc_move_valid(3))
  assume inv: "roles_inv P cap k w" and canc: "cancelled (pl_shared w)"
  have valid: "\<forall>p \<in> set (pl_procs w). valid_proc P p" using inv by (simp add: roles_inv_def)
  show "one_move P w w' \<Longrightarrow> cancelled (pl_shared w')" using move valid canc by blast
  show "one_move P w w1 \<Longrightarrow> one_move P w1 w' \<Longrightarrow> cancelled (pl_shared w')" for w1 using move one_move_valid valid canc by blast
qed simp_all

lemma no_infinite_run:
  assumes "roles_inv P cap k (f 0)" and "\<forall>i. pl_step P (f i) (f (Suc i))"
  shows False
proof -
  have inv: "roles_inv P cap k (f i)" for i
    by (induction i) (use assms roles_inv_step in blast)+
  have "\<forall>i. (steps_pair P (f (Suc i)), steps_pair P (f i)) \<in> run_order"
    using pl_step_descends[OF inv] assms(2) by blast
  then have "\<exists>g. \<forall>i. (g (Suc i), g i) \<in> run_order" by (rule exI[of _ "\<lambda>i. steps_pair P (f i)"])
  then show False using run_order(1) unfolding wf_iff_no_infinite_down_chain by (rule notE[rotated])
qed

lemma runs_to_stop:
  assumes "reach (pl_init P bufferSize workers) (pl_step P) v" and "\<not> cancelled (pl_shared v)"
  shows "\<exists>w'. (pl_step P)\<^sup>*\<^sup>* v w' \<and> \<not> cancelled (pl_shared w') \<and> \<not> moves_on P w'"
  using run_order(1) assms
proof (induction "steps_pair P v" arbitrary: v rule: wf_induct_rule)
  case less
  show ?case
  proof (cases "moves_on P v")
    case True
    then obtain v' where v': "pl_step P v v'" "\<not> cancelled (pl_shared v')" using less.prems(2) by (auto simp: moves_on_def)
    have "(steps_pair P v', steps_pair P v) \<in> run_order" by (rule pl_step_descends[OF pl_roles.reachable_inv[OF less.prems(1)] v'(1)])
    from less.hyps[OF this reach_step[OF less.prems(1) v'(1)] v'(2)] show ?thesis using v'(1) by (meson converse_rtranclp_into_rtranclp)
  qed (use less.prems in blast)
qed

text \<open>C13: If every stage that can fail has its error channel read, or once the context is cancelled, every run comes to an end, whatever the interleaving and the
  buffer, and it stops only when every goroutine has exited and \<open>Collect\<close> has returned: no deadlock and no leaked goroutine.\<close>

theorem pipeline_terminates:
  assumes "reach (pl_init P bufferSize workers) (pl_step P) w" and "cancelled (pl_shared w) \<or> errs_handled P"
  shows "\<not> (\<exists>f. f 0 = w \<and> (\<forall>i. pl_step P (f i) (f (Suc i)))) \<and>
    (\<forall>w'. (pl_step P)\<^sup>*\<^sup>* w w' \<longrightarrow> (\<forall>p \<in> set (pl_procs w'). finished p) \<or> moves_on P w')"
proof -
  let ?inv = "roles_inv P (nat (max 0 bufferSize)) (nat (max 1 workers))"
  have inv: "?inv w" by (rule pl_roles.reachable_inv[OF assms(1)])
  have "\<not> (\<exists>f. f 0 = w \<and> (\<forall>i. pl_step P (f i) (f (Suc i))))" using no_infinite_run inv by blast
  moreover have "(\<forall>p \<in> set (pl_procs w'). finished p) \<or> moves_on P w'" if run: "(pl_step P)\<^sup>*\<^sup>* w w'" for w'
  proof -
    have "?inv w' \<and> (cancelled (pl_shared w') \<or> errs_handled P)"
      using run by (induction rule: rtranclp_induct) (use inv assms(2) roles_inv_step cancelled_step in blast)+
    moreover have "0 < nat (max 1 workers)" by simp
    ultimately show ?thesis using stuck_finished by blast
  qed
  ultimately show ?thesis by blast
qed

definition nobody_reads :: "pl_world \<Rightarrow> bool" where
  "nobody_reads w \<longleftrightarrow> read_errs (pl_shared w) = [] \<and> (\<forall>s. ErrReader s \<notin> set (pl_procs w))"

lemma proc_move_reads: "proc_move P sh p a sh' p' \<Longrightarrow> read_errs sh' \<noteq> read_errs sh \<Longrightarrow> \<exists>s. p = ErrReader s"
  by (erule proc_move.cases) (auto elim!: send_move.cases)

lemma nobody_reads_move: "nobody_reads w \<Longrightarrow> one_move P w w' \<Longrightarrow> nobody_reads w'"
proof (erule one_move.cases)
  fix i ps sh a sh' p ch
  assume w: "nobody_reads w" "w = \<lparr>pl_shared = sh, pl_chans = ch, pl_procs = ps, pl_panic = False\<rparr>"
    "w' = \<lparr>pl_shared = sh', pl_chans = chan_effect a ch, pl_procs = ps[i := p], pl_panic = False\<rparr>"
    and i: "i < length ps" and move: "proc_move P sh (ps ! i) a sh' p"
  have other: "\<forall>s. ErrReader s \<notin> set ps" "ps ! i \<in> set ps" using w(1,2) i by (simp_all add: nobody_reads_def)
  then have "\<forall>s. p \<noteq> ErrReader s" using proc_move_reader(3)[OF move] by metis
  then have "\<forall>s. ErrReader s \<notin> set (ps[i := p])" using other(1) set_update_subset_insert[of ps i p] by blast
  then show "nobody_reads w'" using w other proc_move_reads[OF move] by (metis nobody_reads_def pl_world.select_convs(1,3))
qed

lemma nobody_reads_step: "nobody_reads w \<Longrightarrow> pl_step P w w' \<Longrightarrow> nobody_reads w'"
proof (erule pl_step_moves)
  assume w: "nobody_reads w"
  show "one_move P w w' \<Longrightarrow> nobody_reads w'" using nobody_reads_move w by blast
  show "one_move P w w1 \<Longrightarrow> one_move P w1 w' \<Longrightarrow> nobody_reads w'" for w1 using nobody_reads_move w by blast
qed (simp_all add: nobody_reads_def)

lemma size_unread: "\<forall>c. length (ch_buf (pl_chans w c)) \<le> cap \<Longrightarrow> size (unread_errs P w) \<le> par_stages P * cap"
proof -
  assume "\<forall>c. length (ch_buf (pl_chans w c)) \<le> cap"
  then have "size (\<Sum>s < n. mset (map the_res (ch_buf (pl_chans w (Errs s))))) \<le> n * cap" for n
    by (induction n) (auto simp: add.commute intro: add_mono)
  then show ?thesis by (simp add: unread_errs_def)
qed


subsection \<open>Example runs\<close>

definition poisoned :: params where
  "poisoned = \<lparr>par_stage = (\<lambda>s j. if job_ID j = 1 then Inl ''poison job'' else Inr (j\<lparr>job_Value := 2 * job_Value j\<rparr>)),
     par_stages = 1, par_jobs = 3, par_drained = (\<lambda>s. True)\<rparr>"

lemma poisoned_fates: "fates poisoned = [J \<lparr>job_ID = 0, job_Value = 0\<rparr>, R \<lparr>res_JobID = 1, res_Value = 0, res_Err = ''poison job''\<rparr>,
    J \<lparr>job_ID = 2, job_Value = 4\<rparr>]"
  by (simp add: fates_def poisoned_def fate.simps job_def upto.simps)

lemma start_reachable: "reach (pl_init P b k) (pl_step P) (pl_start P (NewPipeline b k))"
  by (rule reach_init) (simp add: pl_init_def)

theorem pipeline_delivers_witness:
  "\<exists>w. reach (pl_init poisoned 2 4) (pl_step poisoned) w \<and> CollectReturned \<in> set (pl_procs w) \<and>
    mset (collected (pl_shared w)) = {#\<lparr>job_ID = 0, job_Value = 0\<rparr>, \<lparr>job_ID = 2, job_Value = 4\<rparr>#} \<and>
    mset (read_errs (pl_shared w)) + unread_errs poisoned w = {#\<lparr>res_JobID = 1, res_Value = 0, res_Err = ''poison job''\<rparr>#}"
proof -
  have "\<not> cancelled (pl_shared (pl_start poisoned (NewPipeline 2 4)))" by (simp add: pl_start_def)
  from runs_to_stop[OF start_reachable this] obtain w where run: "(pl_step poisoned)\<^sup>*\<^sup>* (pl_start poisoned (NewPipeline 2 4)) w"
    and w: "\<not> cancelled (pl_shared w)" "\<not> moves_on poisoned w" by blast
  have reached: "reach (pl_init poisoned 2 4) (pl_step poisoned) w" by (rule reach_rtranclp[OF start_reachable run])
  note roles = pl_roles.reachable_inv[OF reached]
  have "errs_handled poisoned" by (simp add: errs_handled_def poisoned_def)
  then have fin: "\<And>p. p \<in> set (pl_procs w) \<Longrightarrow> finished p" using stuck_finished[OF roles _ w(2)] by simp
  have "count_if (\<lambda>p. collecting p \<or> p = CollectReturned) (pl_procs w) \<noteq> 0" using roles by (simp add: roles_inv_def reading_inv_def)
  then have "CollectReturned \<in> set (pl_procs w)"
    unfolding count_if_zero using fin by (auto simp: finished_def collecting_def)
  then show ?thesis using pipeline_delivers[OF reached] reached w(1) by (auto simp: successes_def failures_def poisoned_fates)
qed


theorem pipeline_terminates_witness:
  "\<not> (\<exists>f. f 0 = pl_start poisoned (NewPipeline 0 1) \<and> (\<forall>i. pl_step poisoned (f i) (f (Suc i))))"
proof -
  have "errs_handled poisoned" by (simp add: errs_handled_def poisoned_def)
  then show ?thesis using pipeline_terminates[OF start_reachable, of poisoned 0 1] by blast
qed


end
