(* ===== verification/RateLimiter.thy ===== *)
theory RateLimiter
  imports Prelude
begin

text \<open>
  The four rate limiters (\<^verbatim>\<open>code/rate_limiter/limiter.go\<close>).  Each call is one critical section of the mutex; it takes the
  reading of the clock the call makes, in nanoseconds.  The \<open>float64\<close> amounts are exact rationals (no rounding); a
  division by a window of zero gives NaN, which makes every comparison false.
\<close>

subsection \<open>The limiters\<close>

record TokenBucket =
  tb_capacity :: rat
  tb_tokens :: rat
  refillRate :: rat
  tb_last :: gtime

definition NewTokenBucket :: "int \<Rightarrow> rat \<Rightarrow> gtime \<Rightarrow> TokenBucket" where
  "NewTokenBucket capacity rate now =
     \<lparr>tb_capacity = of_int capacity, tb_tokens = of_int capacity, refillRate = rate, tb_last = now\<rparr>"

definition tb_refill :: "gtime \<Rightarrow> TokenBucket \<Rightarrow> TokenBucket" where
  "tb_refill now tb =
     (let elapsed = Seconds (time_Sub now (tb_last tb));
          tb1 = tb\<lparr>tb_last := now, tb_tokens := tb_tokens tb + elapsed * refillRate tb\<rparr>
      in if tb_tokens tb1 > tb_capacity tb1 then tb1\<lparr>tb_tokens := tb_capacity tb1\<rparr> else tb1)"

definition AllowN :: "int \<Rightarrow> gtime \<Rightarrow> TokenBucket \<Rightarrow> bool \<times> TokenBucket" where
  "AllowN n now tb =
     (let tb1 = tb_refill now tb in
      if tb_tokens tb1 \<ge> of_int n then (True, tb1\<lparr>tb_tokens := tb_tokens tb1 - of_int n\<rparr>) else (False, tb1))"

definition tb_Allow :: "gtime \<Rightarrow> TokenBucket \<Rightarrow> bool \<times> TokenBucket" where
  "tb_Allow = AllowN 1"

definition Tokens :: "gtime \<Rightarrow> TokenBucket \<Rightarrow> rat \<times> TokenBucket" where
  "Tokens now tb = (let tb1 = tb_refill now tb in (tb_tokens tb1, tb1))"

record LeakyBucket =
  lb_capacity :: rat
  lb_level :: rat
  leakRate :: rat
  lb_last :: gtime

definition NewLeakyBucket :: "int \<Rightarrow> rat \<Rightarrow> gtime \<Rightarrow> LeakyBucket" where
  "NewLeakyBucket capacity rate now = \<lparr>lb_capacity = of_int capacity, lb_level = 0, leakRate = rate, lb_last = now\<rparr>"

definition lb_Allow :: "gtime \<Rightarrow> LeakyBucket \<Rightarrow> bool \<times> LeakyBucket" where
  "lb_Allow now lb =
     (let lb1 = lb\<lparr>lb_level := lb_level lb - Seconds (time_Sub now (lb_last lb)) * leakRate lb, lb_last := now\<rparr>;
          lb2 = (if lb_level lb1 < 0 then lb1\<lparr>lb_level := 0\<rparr> else lb1)
      in if lb_level lb2 + 1 \<le> lb_capacity lb2 then (True, lb2\<lparr>lb_level := lb_level lb2 + 1\<rparr>) else (False, lb2))"

record FixedWindow =
  fw_limit :: int
  fw_window :: int
  fw_count :: int
  fw_windowStart :: gtime

definition NewFixedWindow :: "int \<Rightarrow> int \<Rightarrow> gtime \<Rightarrow> FixedWindow" where
  "NewFixedWindow limit window now = \<lparr>fw_limit = limit, fw_window = window, fw_count = 0, fw_windowStart = now\<rparr>"

definition fw_Allow :: "gtime \<Rightarrow> FixedWindow \<Rightarrow> bool \<times> FixedWindow" where
  "fw_Allow now fw =
     (let fw1 = (if time_Sub now (fw_windowStart fw) \<ge> fw_window fw then fw\<lparr>fw_count := 0, fw_windowStart := now\<rparr> else fw)
      in if fw_count fw1 < fw_limit fw1 then (True, fw1\<lparr>fw_count := fw_count fw1 + 1\<rparr>) else (False, fw1))"

record SlidingWindow =
  sw_limit :: int
  sw_window :: int
  sw_current :: int
  sw_previous :: int
  sw_windowStart :: gtime

definition NewSlidingWindow :: "int \<Rightarrow> int \<Rightarrow> gtime \<Rightarrow> SlidingWindow" where
  "NewSlidingWindow limit window now =
     \<lparr>sw_limit = limit, sw_window = window, sw_current = 0, sw_previous = 0, sw_windowStart = now\<rparr>"

text \<open>The rotation of the windows, with \<open>elapsed\<close> after it, and the estimate (\<open>None\<close> is NaN).\<close>

definition sw_rotate :: "gtime \<Rightarrow> SlidingWindow \<Rightarrow> int \<times> SlidingWindow" where
  "sw_rotate now sw =
     (let elapsed = time_Sub now (sw_windowStart sw) in
      if elapsed \<ge> wrap64 (2 * sw_window sw) then (0, sw\<lparr>sw_previous := 0, sw_current := 0, sw_windowStart := now\<rparr>)
      else if elapsed \<ge> sw_window sw
      then (elapsed - sw_window sw,
        sw\<lparr>sw_previous := sw_current sw, sw_current := 0, sw_windowStart := sw_windowStart sw + sw_window sw\<rparr>)
      else (elapsed, sw))"

definition sw_estimated :: "int \<Rightarrow> SlidingWindow \<Rightarrow> rat option" where
  "sw_estimated elapsed sw =
     (if sw_window sw = 0 then None
      else let overlap = 1 - of_int elapsed / of_int (sw_window sw)
        in Some (of_int (sw_previous sw) * overlap + of_int (sw_current sw)))"

definition sw_Allow :: "gtime \<Rightarrow> SlidingWindow \<Rightarrow> bool \<times> SlidingWindow" where
  "sw_Allow now sw =
     (let (elapsed, sw1) = sw_rotate now sw in
      case sw_estimated elapsed sw1 of
        Some estimated \<Rightarrow>
          if estimated < of_int (sw_limit sw1) then (True, sw1\<lparr>sw_current := sw_current sw1 + 1\<rparr>) else (False, sw1)
      | None \<Rightarrow> (False, sw1))"

subsection \<open>Runs of calls\<close>

text \<open>The answers to calls at the given times and the state after them; the amount the answers let through.\<close>

fun limiter_run :: "('a \<Rightarrow> 's \<Rightarrow> bool \<times> 's) \<Rightarrow> 'a list \<Rightarrow> 's \<Rightarrow> bool list \<times> 's" where
  "limiter_run allow [] s = ([], s)"
| "limiter_run allow (t # ts) s = (let (ok, s1) = allow t s; (oks, s2) = limiter_run allow ts s1 in (ok # oks, s2))"

definition admitted :: "bool list \<Rightarrow> int" where
  "admitted oks = int (length (filter id oks))"

lemma admitted_simps [simp]: "admitted [] = 0" "admitted (ok # oks) = (if ok then 1 else 0) + admitted oks"
  "admitted (xs @ ys) = admitted xs + admitted ys"
  by (simp_all add: admitted_def)

lemma admitted_nonneg [simp]: "0 \<le> admitted oks"
  by (simp add: admitted_def)

lemma limiter_run_Cons: "fst (limiter_run allow (t # ts) s) = fst (allow t s) # fst (limiter_run allow ts (snd (allow t s)))"
  by (simp add: Let_def split: prod.splits)

lemma limiter_run_append: "limiter_run allow (ts @ us) s =
  (let (xs, s1) = limiter_run allow ts s; (ys, s2) = limiter_run allow us s1 in (xs @ ys, s2))"
  by (induction ts arbitrary: s) (simp_all add: Let_def split: prod.splits)

subsection \<open>Token bucket and leaky bucket\<close>

text \<open>Weighted calls: times with the number of tokens asked for, and the tokens handed out.\<close>

abbreviation allow_pair :: "gtime \<times> int \<Rightarrow> TokenBucket \<Rightarrow> bool \<times> TokenBucket" where
  "allow_pair c \<equiv> AllowN (snd c) (fst c)"

fun handed_out :: "(gtime \<times> int) list \<Rightarrow> bool list \<Rightarrow> int" where
  "handed_out ((t, n) # cs) (ok # oks) = (if ok then n else 0) + handed_out cs oks"
| "handed_out _ _ = 0"

lemma refill_tokens:
  "tb_tokens (tb_refill now tb) =
     min (tb_capacity tb) (tb_tokens tb + Seconds (time_Sub now (tb_last tb)) * refillRate tb)"
  "tb_last (tb_refill now tb) = now" "tb_capacity (tb_refill now tb) = tb_capacity tb" "refillRate (tb_refill now tb) = refillRate tb"
  by (simp_all add: tb_refill_def Let_def)

lemma AllowN_fields [simp]:
  "tb_last (snd (AllowN n now tb)) = now" "tb_capacity (snd (AllowN n now tb)) = tb_capacity tb"
  "refillRate (snd (AllowN n now tb)) = refillRate tb"
  by (simp_all add: AllowN_def Let_def refill_tokens)

lemma AllowN_tokens:
  assumes "AllowN n now tb = (ok, tb')"
  shows "tb_tokens tb' = tb_tokens (tb_refill now tb) - (if ok then of_int n else 0)" and "ok \<longleftrightarrow> of_int n \<le> tb_tokens (tb_refill now tb)"
  using assms by (auto simp: AllowN_def Let_def split: if_splits)

lemma Seconds_mono: "d \<le> e \<Longrightarrow> Seconds d \<le> Seconds e"
  by (simp add: Seconds_def divide_right_mono)

lemma Seconds_diff: "Seconds (a - b) = Seconds a - Seconds b"
  by (simp add: Seconds_def diff_divide_distrib)

text \<open>From a call on, what is handed out and what is left never exceed the first balance and the refill.\<close>

lemma tb_run_balance:
  assumes "limiter_run allow_pair cs tb = (oks, tb')" and "sorted (tb_last tb # map fst cs)" and "0 \<le> refillRate tb"
  shows "of_int (handed_out cs oks) + tb_tokens tb' \<le>
    tb_tokens tb + Seconds (last (tb_last tb # map fst cs) - tb_last tb) * refillRate tb"
  using assms
proof (induction cs arbitrary: tb oks)
  case Nil
  then show ?case by (simp add: Seconds_def)
next
  case (Cons c cs)
  obtain now n where c: "c = (now, n)" by (cases c)
  obtain ok tb1 oks1 where call: "AllowN n now tb = (ok, tb1)" "limiter_run allow_pair cs tb1 = (oks1, tb')" "oks = ok # oks1"
    using Cons.prems(1) by (auto simp: c split: prod.splits)
  have fields: "tb_last tb1 = now" "refillRate tb1 = refillRate tb"
    using AllowN_fields[of n now tb] call(1) by simp_all
  have "of_int (handed_out cs oks1) + tb_tokens tb' \<le> tb_tokens tb1 + Seconds (last (now # map fst cs) - now) * refillRate tb"
    using Cons.IH[OF call(2)] Cons.prems(2,3) by (simp add: fields c)
  moreover have "tb_tokens tb1 \<le> tb_tokens tb + Seconds (now - tb_last tb) * refillRate tb - (if ok then of_int n else 0)"
  proof -
    have "Seconds (time_Sub now (tb_last tb)) * refillRate tb \<le> Seconds (now - tb_last tb) * refillRate tb"
      using Cons.prems(2,3) by (intro mult_right_mono Seconds_mono time_Sub_le) (simp_all add: c)
    then show ?thesis using AllowN_tokens(1)[OF call(1)] by (simp add: refill_tokens)
  qed
  moreover have "last (tb_last tb # map fst (c # cs)) = last (now # map fst cs)" by (simp add: c)
  moreover have "handed_out (c # cs) oks = (if ok then n else 0) + handed_out cs oks1" by (simp add: c call(3))
  ultimately show ?case by (cases ok) (simp_all add: Seconds_diff left_diff_distrib del: last.simps handed_out.simps)
qed

lemma tb_run_nonneg:
  assumes "limiter_run allow_pair cs tb = (oks, tb')" and "sorted (tb_last tb # map fst cs)"
    and "0 \<le> refillRate tb" and "0 \<le> tb_tokens tb" and "0 \<le> tb_capacity tb"
  shows "0 \<le> tb_tokens tb'"
  using assms
proof (induction cs arbitrary: tb oks)
  case (Cons c cs)
  obtain now n where c: "c = (now, n)" by (cases c)
  obtain ok tb1 oks1 where call: "AllowN n now tb = (ok, tb1)" "limiter_run allow_pair cs tb1 = (oks1, tb')"
    using Cons.prems(1) by (auto simp: c split: prod.splits)
  have fields: "tb_last tb1 = now" "refillRate tb1 = refillRate tb" "tb_capacity tb1 = tb_capacity tb"
    using AllowN_fields[of n now tb] call(1) by simp_all
  have "0 \<le> Seconds (time_Sub now (tb_last tb)) * refillRate tb"
    using Cons.prems(2,3) time_Sub_nonneg[of "tb_last tb" now] by (simp add: c Seconds_def)
  then have "0 \<le> tb_tokens tb1"
    using AllowN_tokens[OF call(1)] Cons.prems(4,5) by (auto simp: refill_tokens)
  then show ?case using Cons.IH[OF call(2)] Cons.prems(2,3,5) by (simp add: fields c)
qed simp

lemma limiter_run_last: "limiter_run allow_pair cs tb = (oks, tb') \<Longrightarrow> tb_last tb' = last (tb_last tb # map fst cs) \<and>
  tb_capacity tb' = tb_capacity tb \<and> refillRate tb' = refillRate tb"
proof (induction cs arbitrary: tb oks)
  case (Cons c cs)
  obtain ok tb1 oks1 where call: "allow_pair c tb = (ok, tb1)" "limiter_run allow_pair cs tb1 = (oks1, tb')"
    using Cons.prems by (auto split: prod.splits)
  then show ?case using Cons.IH[OF call(2)] AllowN_fields[of "snd c" "fst c" tb] by (simp add: call(1))
qed simp

text \<open>Whatever was asked before, the tokens handed out by any stretch of consecutive calls of \<open>AllowN\<close> are at most the
  capacity and what the rate refills between the first and the last of these calls.\<close>

theorem token_bucket_bound:
  assumes "limiter_run (\<lambda>c. AllowN (snd c) (fst c)) before (NewTokenBucket cap rate t0) = (oks0, tb)"
    and "limiter_run (\<lambda>c. AllowN (snd c) (fst c)) (c # cs) tb = (oks, tb')"
    and "sorted (t0 # map fst (before @ c # cs))" and "0 \<le> rate" and "0 \<le> cap"
  shows "of_int (handed_out (c # cs) oks) \<le> of_int cap + Seconds (last (map fst (c # cs)) - fst c) * rate"
proof -
  obtain now n where c: "c = (now, n)" by (cases c)
  have start: "tb_last tb = last (t0 # map fst before)" "tb_capacity tb = of_int cap" "refillRate tb = rate"
    using limiter_run_last[OF assms(1)] by (simp_all add: NewTokenBucket_def)
  have "0 \<le> tb_tokens tb"
    using assms(3-5) by (intro tb_run_nonneg[OF assms(1)]) (auto simp: NewTokenBucket_def sorted_append)
  obtain ok tb1 oks1 where call: "AllowN n now tb = (ok, tb1)" "limiter_run allow_pair cs tb1 = (oks1, tb')" "oks = ok # oks1"
    using assms(2) by (auto simp: c split: prod.splits)
  have fields: "tb_last tb1 = now" "refillRate tb1 = rate" "tb_capacity tb1 = of_int cap"
    using AllowN_fields[of n now tb] call(1) start by simp_all
  have order: "tb_last tb \<le> now" "sorted (now # map fst cs)"
  proof -
    have "last (t0 # map fst before) \<in> set (t0 # map fst before)" by (rule last_in_set) simp
    then show "tb_last tb \<le> now" using assms(3) unfolding start by (auto simp: c sorted_append)
    show "sorted (now # map fst cs)" using assms(3) by (simp add: c sorted_append)
  qed
  have "0 \<le> Seconds (time_Sub now (tb_last tb)) * refillRate tb"
    using time_Sub_nonneg[OF order(1)] assms(4) by (simp add: start Seconds_def)
  then have nonneg: "0 \<le> tb_tokens tb1"
    using AllowN_tokens[OF call(1)] \<open>0 \<le> tb_tokens tb\<close> assms(5) by (auto simp: refill_tokens start)
  have "of_int (handed_out cs oks1) + tb_tokens tb' \<le> tb_tokens tb1 + Seconds (last (now # map fst cs) - now) * rate"
    using tb_run_balance[OF call(2)] order(2) assms(4) by (simp add: fields)
  moreover have "tb_tokens tb1 + (if ok then of_int n else 0) \<le> of_int cap"
    using AllowN_tokens(1)[OF call(1)] by (simp add: refill_tokens start)
  moreover have "0 \<le> tb_tokens tb'"
    using tb_run_nonneg[OF call(2)] nonneg order(2) assms(4,5) by (simp add: fields)
  moreover have "(of_int (handed_out (c # cs) oks) :: rat) = (if ok then of_int n else 0) + of_int (handed_out cs oks1)"
    by (simp add: c call(3))
  moreover have "last (map fst (c # cs)) = last (now # map fst cs)" by (simp add: c)
  ultimately show ?thesis by (simp del: last.simps handed_out.simps list.map add: c)
qed

theorem token_bucket_bound_witness:
  "\<exists>tb oks. limiter_run (\<lambda>c. AllowN (snd c) (fst c)) [(0, 7)] (NewTokenBucket 10 5 0) = ([True], tb) \<and>
    fst (limiter_run (\<lambda>c. AllowN (snd c) (fst c)) [(0, 5), (0, 3), (1000000000, 5), (1000000000, 1)] tb) = oks \<and>
    oks = [False, True, True, False] \<and> of_int (handed_out [(0, 5), (0, 3), (1000000000, 5), (1000000000, 1)] oks) \<le> (15 :: rat)"
proof -
  define tb where "tb = snd (limiter_run allow_pair [(0, 7)] (NewTokenBucket 10 5 0))"
  have run0: "limiter_run (\<lambda>c. AllowN (snd c) (fst c)) [(0, 7)] (NewTokenBucket 10 5 0) = ([True], tb)"
    by (simp add: tb_def NewTokenBucket_def AllowN_def tb_refill_def time_Sub_def Seconds_def Let_def)
  have tb: "tb = \<lparr>tb_capacity = 10, tb_tokens = 3, refillRate = 5, tb_last = 0\<rparr>"
    by (simp add: tb_def NewTokenBucket_def AllowN_def tb_refill_def time_Sub_def Seconds_def Let_def)
  let ?cs = "[(0, 3), (1000000000, 5), (1000000000, 1)] :: (gtime \<times> int) list"
  obtain tb' where run: "limiter_run (\<lambda>c. AllowN (snd c) (fst c)) ((0, 5) # ?cs) tb = ([False, True, True, False], tb')"
    by (simp add: tb AllowN_def tb_refill_def time_Sub_def Seconds_def Let_def)
  have "of_int (handed_out ((0, 5) # ?cs) [False, True, True, False]) \<le>
      of_int 10 + Seconds (last (map fst ((0, 5) # ?cs)) - fst (0, 5 :: int)) * (5 :: rat)"
    by (rule token_bucket_bound[OF run0 run]) simp_all
  then show ?thesis using run0 run by (auto simp: Seconds_def)
qed

text \<open>A client that leaves at least the time of one token between its calls is never refused.\<close>

theorem token_bucket_steady:
  assumes "1 \<le> tb_capacity tb" and "1 \<le> tb_tokens tb + Seconds (time_Sub (hd (t # ts)) (tb_last tb)) * refillRate tb" 
    and "0 \<le> refillRate tb" and "d < 2 ^ 63" and "1 \<le> Seconds d * refillRate tb"
    and "successively (\<lambda>u v. d \<le> v - u) (t # ts)"
  shows "admitted (fst (limiter_run tb_Allow (t # ts) tb)) = int (length (t # ts))"
  using assms
proof (induction ts arbitrary: t tb)
  case Nil
  then show ?case by (auto simp: tb_Allow_def AllowN_def Let_def refill_tokens)
next
  case (Cons u ts)
  obtain ok tb1 where call: "AllowN 1 t tb = (ok, tb1)" by fastforce
  have ok: "ok" using AllowN_tokens(2)[OF call] Cons.prems(1,2) by (simp add: refill_tokens)
  have fields: "tb_last tb1 = t" "refillRate tb1 = refillRate tb" "tb_capacity tb1 = tb_capacity tb"
    using AllowN_fields[of 1 t tb] call by simp_all
  have "d \<le> time_Sub u t" using Cons.prems(4,6) by (simp add: time_Sub_ge)
  then have "Seconds d * refillRate tb \<le> Seconds (time_Sub u t) * refillRate tb"
    using Cons.prems(3) by (intro mult_right_mono Seconds_mono)
  moreover have "0 \<le> tb_tokens tb1" using AllowN_tokens[OF call] ok by simp
  ultimately have "1 \<le> tb_tokens tb1 + Seconds (time_Sub (hd (u # ts)) (tb_last tb1)) * refillRate tb1"
    using Cons.prems(5) by (simp add: fields)
  then have "admitted (fst (limiter_run tb_Allow (u # ts) tb1)) = int (length (u # ts))"
    using Cons.prems by (intro Cons.IH) (simp_all add: fields)
  then show ?case using call ok by (simp only: limiter_run_Cons tb_Allow_def) simp
qed

text \<open>The level of a leaky bucket against the tokens of a token bucket.\<close>

definition same_bucket_state :: "TokenBucket \<Rightarrow> LeakyBucket \<Rightarrow> bool" where
  "same_bucket_state tb lb \<longleftrightarrow> lb_level lb = tb_capacity tb - tb_tokens tb \<and> lb_capacity lb = tb_capacity tb \<and>
     leakRate lb = refillRate tb \<and> lb_last lb = tb_last tb"

lemma leaky_step:
  assumes "same_bucket_state tb lb"
  shows "fst (lb_Allow t lb) = fst (tb_Allow t tb)" and "same_bucket_state (snd (tb_Allow t tb)) (snd (lb_Allow t lb))"
  using assms
  by (auto simp: same_bucket_state_def lb_Allow_def tb_Allow_def AllowN_def tb_refill_def Let_def algebra_simps)

lemma leaky_run:
  "same_bucket_state tb lb \<Longrightarrow> fst (limiter_run lb_Allow ts lb) = fst (limiter_run tb_Allow ts tb)"
proof (induction ts arbitrary: tb lb)
  case (Cons t ts)
  then show ?case using leaky_step[OF Cons.prems, of t] Cons.IH[OF leaky_step(2)[OF Cons.prems, of t]]
    by (simp only: limiter_run_Cons)
qed simp


text \<open>In particular it lets a burst of its whole capacity through at once.\<close>

theorem leaky_bucket_burst:
  "fst (limiter_run lb_Allow (replicate 6 t0) (NewLeakyBucket 5 10 t0)) = replicate 5 True @ [False]"
  by (simp add: eval_nat_numeral NewLeakyBucket_def lb_Allow_def time_Sub_def Seconds_def Let_def)

subsection \<open>Fixed window\<close>

definition fw_ok :: "FixedWindow \<Rightarrow> bool" where
  "fw_ok fw \<longleftrightarrow> 0 \<le> fw_count fw \<and> fw_count fw \<le> fw_limit fw \<and> 0 < fw_window fw \<and> fw_window fw < 2 ^ 63"

lemma fw_call:
  assumes "fw_ok fw"
  shows "fw_ok (snd (fw_Allow t fw))" and "fw_limit (snd (fw_Allow t fw)) = fw_limit fw" "fw_window (snd (fw_Allow t fw)) = fw_window fw"
    and "t - fw_windowStart fw < fw_window fw \<Longrightarrow> fw_windowStart (snd (fw_Allow t fw)) = fw_windowStart fw \<and>
      fw_count (snd (fw_Allow t fw)) = fw_count fw + (if fst (fw_Allow t fw) then 1 else 0)"
    and "fw_window fw \<le> t - fw_windowStart fw \<Longrightarrow> fw_windowStart (snd (fw_Allow t fw)) = t \<and>
      fw_count (snd (fw_Allow t fw)) = (if fst (fw_Allow t fw) then 1 else 0)"
  using assms by (auto simp: fw_ok_def fw_Allow_def Let_def time_Sub_ge)

lemma fw_same_window:
  assumes "fw_ok fw" and "\<forall>t \<in> set ts. t - fw_windowStart fw < fw_window fw"
  shows "admitted (fst (limiter_run fw_Allow ts fw)) \<le> fw_limit fw - fw_count fw"
  using assms
proof (induction ts arbitrary: fw)
  case Nil
  then show ?case by (simp add: fw_ok_def)
next
  case (Cons t ts)
  have t: "t - fw_windowStart fw < fw_window fw" using Cons.prems(2) by simp
  note call = fw_call(1-3)[OF Cons.prems(1), of t] fw_call(4)[OF Cons.prems(1) t]
  have "admitted (fst (limiter_run fw_Allow ts (snd (fw_Allow t fw)))) \<le>
      fw_limit (snd (fw_Allow t fw)) - fw_count (snd (fw_Allow t fw))"
    using Cons.prems(2) call by (intro Cons.IH) auto
  then show ?case using call by (simp only: limiter_run_Cons) (simp split: if_splits)
qed

lemma fw_two_windows:
  assumes "fw_ok fw" and "\<forall>t \<in> set ts. a \<le> t \<and> t - a < fw_window fw" and "sorted ts"
  shows "admitted (fst (limiter_run fw_Allow ts fw)) \<le> 2 * fw_limit fw - fw_count fw"
  using assms
proof (induction ts arbitrary: fw)
  case Nil
  then show ?case by (simp add: fw_ok_def)
next
  case (Cons t ts)
  note call = fw_call(1-3)[OF Cons.prems(1), of t]
  show ?case
  proof (cases "t - fw_windowStart fw < fw_window fw")
    case True
    note same = fw_call(4)[OF Cons.prems(1) True]
    have "admitted (fst (limiter_run fw_Allow ts (snd (fw_Allow t fw)))) \<le>
        2 * fw_limit (snd (fw_Allow t fw)) - fw_count (snd (fw_Allow t fw))"
      using Cons.prems call by (intro Cons.IH) auto
    then show ?thesis using call same by (simp only: limiter_run_Cons) (simp split: if_splits)
  next
    case False
    then have reset: "fw_windowStart (snd (fw_Allow t fw)) = t" "fw_count (snd (fw_Allow t fw)) = (if fst (fw_Allow t fw) then 1 else 0)"
      using fw_call(5)[OF Cons.prems(1), of t] by simp_all
    have "admitted (fst (limiter_run fw_Allow ts (snd (fw_Allow t fw)))) \<le>
        fw_limit (snd (fw_Allow t fw)) - fw_count (snd (fw_Allow t fw))"
      using Cons.prems call reset by (intro fw_same_window) (auto simp: less_diff_eq)
    then show ?thesis using call reset Cons.prems(1)
      by (simp only: limiter_run_Cons) (simp add: fw_ok_def split: if_splits)
  qed
qed

lemma fw_run_ok:
  "limiter_run fw_Allow ts fw = (oks, fw') \<Longrightarrow> fw_ok fw \<Longrightarrow> fw_ok fw' \<and> fw_limit fw' = fw_limit fw \<and> fw_window fw' = fw_window fw"
proof (induction ts arbitrary: fw oks)
  case (Cons t ts)
  then show ?case using fw_call(1-3)[OF Cons.prems(2), of t] by (auto split: prod.splits)
qed simp

text \<open>Whatever happened before, a stretch of calls that spans less than a window admits at most twice the limit: the
  calls before and after one reset.  The witness attains the bound across a boundary.\<close>

theorem fixed_window_bound:
  assumes "limiter_run fw_Allow before (NewFixedWindow limit window t0) = (oks0, fw)"
    and "sorted ts" and "last ts - hd ts < window" and "0 \<le> limit" and "window < 2 ^ 63"
  shows "admitted (fst (limiter_run fw_Allow ts fw)) \<le> 2 * limit"
proof (cases ts)
  case Nil
  then show ?thesis using assms(4) by simp
next
  case (Cons t us)
  have "t \<le> last ts" using assms(2) Cons by (cases us rule: rev_cases) auto
  then have "fw_ok (NewFixedWindow limit window t0)" using assms(3-5) Cons by (simp add: fw_ok_def NewFixedWindow_def)
  from fw_run_ok[OF assms(1) this] have fw: "fw_ok fw" "fw_limit fw = limit" "fw_window fw = window"
    by (simp_all add: NewFixedWindow_def)
  have "u \<le> last ts" if "u \<in> set ts" for u
    using assms(2) that by (cases ts rule: rev_cases) (auto simp: sorted_append)
  then have "\<forall>u \<in> set ts. hd ts \<le> u \<and> u - hd ts < fw_window fw" using assms(2,3) fw(3) Cons by fastforce
  from fw_two_windows[OF fw(1) this assms(2)] fw show ?thesis by (simp add: fw_ok_def)
qed

theorem fixed_window_bound_witness:
  "\<exists>fw oks0. limiter_run fw_Allow [] (NewFixedWindow 2 1000 0) = (oks0, fw) \<and>
    admitted (fst (limiter_run fw_Allow [999, 999, 1000, 1000, 1001] fw)) \<le> 4 \<and>
    admitted (fst (limiter_run fw_Allow [999, 999, 1000, 1000, 1001] fw)) = 4"
proof -
  have "limiter_run fw_Allow [] (NewFixedWindow 2 1000 0) = ([], NewFixedWindow 2 1000 0)" by simp
  from fixed_window_bound[OF this, of "[999, 999, 1000, 1000, 1001]"] this show ?thesis
    by (simp add: NewFixedWindow_def fw_Allow_def time_Sub_def Let_def)
qed

subsection \<open>Sliding window\<close>

definition sw_ok :: "SlidingWindow \<Rightarrow> bool" where
  "sw_ok sw \<longleftrightarrow> 0 \<le> sw_current sw \<and> sw_current sw \<le> sw_limit sw \<and> 0 \<le> sw_previous sw \<and> sw_previous sw \<le> sw_limit sw \<and>
     0 < sw_window sw \<and> 2 * sw_window sw < 2 ^ 63"

text \<open>A call in the current window.\<close>

definition sw_in :: "gtime \<Rightarrow> SlidingWindow \<Rightarrow> bool" where
  "sw_in t sw \<longleftrightarrow> sw_windowStart sw \<le> t \<and> t - sw_windowStart sw < sw_window sw"

definition sw_weight :: "gtime \<Rightarrow> SlidingWindow \<Rightarrow> rat" where
  "sw_weight t sw = of_int (sw_previous sw) * (1 - of_int (t - sw_windowStart sw) / of_int (sw_window sw))"

lemma sw_call_in:
  assumes ok: "sw_ok sw" and t: "sw_in t sw"
  shows "sw_rotate t sw = (t - sw_windowStart sw, sw)"
    and "fst (sw_Allow t sw) \<longleftrightarrow> sw_weight t sw + of_int (sw_current sw) < of_int (sw_limit sw)"
    and "snd (sw_Allow t sw) = (if fst (sw_Allow t sw) then sw\<lparr>sw_current := sw_current sw + 1\<rparr> else sw)"
proof -
  have "time_Sub t (sw_windowStart sw) = t - sw_windowStart sw"
    using ok t by (intro time_Sub_exact) (auto simp: sw_ok_def sw_in_def int64_def)
  moreover have "wrap64 (2 * sw_window sw) = 2 * sw_window sw"
    using ok by (intro wrap64_id) (simp add: sw_ok_def int64_def)
  ultimately show rot: "sw_rotate t sw = (t - sw_windowStart sw, sw)"
    using ok t by (simp add: sw_rotate_def sw_ok_def sw_in_def)
  show "fst (sw_Allow t sw) \<longleftrightarrow> sw_weight t sw + of_int (sw_current sw) < of_int (sw_limit sw)"
    and "snd (sw_Allow t sw) = (if fst (sw_Allow t sw) then sw\<lparr>sw_current := sw_current sw + 1\<rparr> else sw)"
    using ok by (simp_all add: sw_Allow_def rot sw_estimated_def sw_ok_def sw_weight_def Let_def)
qed

lemma sw_rotate_ok:
  assumes ok: "sw_ok sw" and t: "sw_windowStart sw \<le> t"
  shows "sw_ok (snd (sw_rotate t sw))" and "sw_in t (snd (sw_rotate t sw))" and "sw_Allow t sw = sw_Allow t (snd (sw_rotate t sw))"
    and "sw_limit (snd (sw_rotate t sw)) = sw_limit sw" and "sw_window (snd (sw_rotate t sw)) = sw_window sw"
    and "\<not> sw_in t sw \<Longrightarrow> t - sw_windowStart sw < 2 * sw_window sw \<Longrightarrow> snd (sw_rotate t sw) =
      sw\<lparr>sw_previous := sw_current sw, sw_current := 0, sw_windowStart := sw_windowStart sw + sw_window sw\<rparr>"
proof -
  have two: "wrap64 (2 * sw_window sw) = 2 * sw_window sw"
    using ok by (intro wrap64_id) (simp add: sw_ok_def int64_def)
  have d: "2 * sw_window sw \<le> time_Sub t (sw_windowStart sw) \<longleftrightarrow> 2 * sw_window sw \<le> t - sw_windowStart sw"
    "sw_window sw \<le> time_Sub t (sw_windowStart sw) \<longleftrightarrow> sw_window sw \<le> t - sw_windowStart sw"
    using ok by (auto simp: time_Sub_ge sw_ok_def)
  have exact: "time_Sub t (sw_windowStart sw) = t - sw_windowStart sw" if "t - sw_windowStart sw < 2 * sw_window sw"
    using that t ok by (intro time_Sub_exact) (simp add: sw_ok_def int64_def)
  show ok': "sw_ok (snd (sw_rotate t sw))" and inw: "sw_in t (snd (sw_rotate t sw))"
    and "sw_limit (snd (sw_rotate t sw)) = sw_limit sw" "sw_window (snd (sw_rotate t sw)) = sw_window sw"
    and "\<not> sw_in t sw \<Longrightarrow> t - sw_windowStart sw < 2 * sw_window sw \<Longrightarrow> snd (sw_rotate t sw) =
      sw\<lparr>sw_previous := sw_current sw, sw_current := 0, sw_windowStart := sw_windowStart sw + sw_window sw\<rparr>"
    using ok t exact by (auto simp: sw_rotate_def two d sw_ok_def sw_in_def Let_def)
  have "sw_rotate t sw = (t - sw_windowStart (snd (sw_rotate t sw)), snd (sw_rotate t sw))"
    using exact t ok by (auto simp: sw_rotate_def two d sw_ok_def Let_def)
  then have "sw_rotate t sw = sw_rotate t (snd (sw_rotate t sw))"
    using sw_call_in(1)[OF ok' inw] by simp
  then show "sw_Allow t sw = sw_Allow t (snd (sw_rotate t sw))" unfolding sw_Allow_def by simp
qed

lemma sw_call_ok:
  assumes "sw_ok sw" and "sw_in t sw"
  shows "sw_ok (snd (sw_Allow t sw))"
proof -
  have "0 \<le> sw_weight t sw"
    using assms by (auto simp: sw_weight_def sw_ok_def sw_in_def divide_le_eq_1 intro!: mult_nonneg_nonneg)
  then have "fst (sw_Allow t sw) \<longrightarrow> sw_current sw + 1 \<le> sw_limit sw"
    unfolding sw_call_in(2)[OF assms] by linarith
  then show ?thesis using assms(1) by (auto simp: sw_call_in(3)[OF assms] sw_ok_def)
qed

text \<open>Within one window, up to the time \<open>b\<close>: the previous window still counts with its weight at \<open>b\<close> or more.\<close>

lemma sw_same_window:
  assumes "sw_ok sw" and "\<forall>t \<in> set ts. sw_in t sw \<and> t \<le> b" and "b - sw_windowStart sw \<le> sw_window sw"
  shows "of_int (sw_current sw + admitted (fst (limiter_run sw_Allow ts sw))) \<le>
    max (of_int (sw_current sw)) (of_int (sw_limit sw) + 1 - sw_weight b sw)"
  using assms
proof (induction ts arbitrary: sw)
  case (Cons t ts)
  have t: "sw_in t sw" "t \<le> b" using Cons.prems(2) by simp_all
  note call = sw_call_in[OF Cons.prems(1) t(1)]
  let ?sw = "snd (sw_Allow t sw)"
  have "of_int (t - sw_windowStart sw) / of_int (sw_window sw) \<le> (of_int (b - sw_windowStart sw) / of_int (sw_window sw) :: rat)"
    using t Cons.prems(1) by (intro divide_right_mono) (simp_all add: sw_ok_def)
  then have weight: "sw_weight b sw \<le> sw_weight t sw"
    using Cons.prems(1) by (auto simp: sw_weight_def sw_ok_def intro!: mult_left_mono)
  have fields: "sw_windowStart ?sw = sw_windowStart sw" "sw_window ?sw = sw_window sw" "sw_weight b ?sw = sw_weight b sw"
    "sw_limit ?sw = sw_limit sw" "sw_current ?sw = sw_current sw + (if fst (sw_Allow t sw) then 1 else 0)"
    by (simp_all add: call(3) sw_weight_def)
  have "of_int (sw_current ?sw + admitted (fst (limiter_run sw_Allow ts ?sw))) \<le>
      max (of_int (sw_current ?sw)) (of_int (sw_limit ?sw) + 1 - sw_weight b ?sw)"
    using Cons.prems fields by (intro Cons.IH sw_call_ok[OF Cons.prems(1) t(1)]) (auto simp: sw_in_def)
  then show ?case using call(2) weight unfolding fields limiter_run_Cons by (auto simp: max_def split: if_splits)
qed simp

text \<open>From a call at \<open>a\<close> on, for at most a window: one rotation.\<close>

lemma sw_two_windows:
  assumes "sw_ok sw" and "sw_in a sw" and "\<forall>t \<in> set ts. a \<le> t \<and> t \<le> b" and "b - a \<le> sw_window sw" and "sorted ts" and "a \<le> b"
  shows "of_int (sw_current sw + admitted (fst (limiter_run sw_Allow ts sw))) \<le>
    of_int (sw_limit sw) * (1 + of_int (b - a) / of_int (sw_window sw)) + (1 :: rat)"
  using assms
proof (induction ts arbitrary: sw)
  case Nil
  define y :: rat where "y = of_int (b - a) / of_int (sw_window sw)"
  have "of_int (sw_current sw) \<le> (of_int (sw_limit sw) :: rat)" "0 \<le> of_int (sw_limit sw) * y"
    using Nil by (simp_all add: sw_ok_def y_def)
  then show ?case unfolding y_def[symmetric] by (simp add: distrib_left)
next
  case (Cons t ts)
  have t: "a \<le> t" "t \<le> b" "sw_windowStart sw \<le> t" using Cons.prems(2,3) by (auto simp: sw_in_def)
  show ?case
  proof (cases "sw_in t sw")
    case True
    note call = sw_call_in[OF Cons.prems(1) True]
    let ?sw = "snd (sw_Allow t sw)"
    have "of_int (sw_current ?sw + admitted (fst (limiter_run sw_Allow ts ?sw))) \<le>
        of_int (sw_limit ?sw) * (1 + of_int (b - a) / of_int (sw_window ?sw)) + (1 :: rat)"
      using Cons.prems call(3) by (intro Cons.IH sw_call_ok[OF Cons.prems(1) True]) (auto simp: sw_in_def)
    then show ?thesis using call(3) unfolding limiter_run_Cons by (auto split: if_splits)
  next
    case False
    let ?sw = "snd (sw_rotate t sw)"
    have "t - sw_windowStart sw < 2 * sw_window sw" using t(2) Cons.prems(2,4) by (simp add: sw_in_def)
    note sw' = sw_rotate_ok(6)[OF Cons.prems(1) t(3) False this]
    note rot = sw_rotate_ok(1-5)[OF Cons.prems(1) t(3)]
    have run: "fst (limiter_run sw_Allow (t # ts) sw) = fst (limiter_run sw_Allow (t # ts) ?sw)"
      using rot(3) by (simp only: limiter_run_Cons)
    have last: "b - sw_windowStart ?sw \<le> sw_window ?sw" "sw_windowStart ?sw \<le> t"
      using Cons.prems(2,4) False rot(2) by (auto simp: sw' sw_in_def)
    have late: "\<forall>u \<in> set (t # ts). sw_windowStart ?sw \<le> u \<and> u \<le> b" using Cons.prems(3,5) last(2) by auto
    have strict: "u - sw_windowStart ?sw < sw_window ?sw" if "u \<in> set (t # ts)" for u
    proof -
      have "u \<le> b" "b \<le> a + sw_window sw" using late that Cons.prems(4) by auto
      moreover have "a < sw_windowStart ?sw" using Cons.prems(2) by (simp add: sw' sw_in_def)
      ultimately show ?thesis by (simp add: sw')
    qed
    have "of_int (sw_current ?sw + admitted (fst (limiter_run sw_Allow (t # ts) ?sw))) \<le>
        max (of_int (sw_current ?sw)) (of_int (sw_limit ?sw) + 1 - sw_weight b ?sw)"
      using late strict by (intro sw_same_window[OF rot(1)] last(1)) (auto simp: sw_in_def)
    then have adm: "of_int (admitted (fst (limiter_run sw_Allow (t # ts) sw))) \<le> max 0 (of_int (sw_limit sw) + 1 - sw_weight b ?sw)"
      unfolding run by (simp add: sw')
    define x :: rat where "x = of_int (b - sw_windowStart ?sw) / of_int (sw_window sw)"
    define y :: rat where "y = of_int (b - a) / of_int (sw_window sw)"
    have xy: "x \<le> y" "0 \<le> y" "0 \<le> x"
      using Cons.prems(1,2,6) last t unfolding x_def y_def
      by (auto intro!: divide_right_mono simp: sw_ok_def sw_in_def sw')
    have w: "sw_weight b ?sw = of_int (sw_current sw) * (1 - x)" by (simp add: sw_weight_def x_def sw')
    have "of_int (sw_current sw) * x \<le> of_int (sw_limit sw) * (y :: rat)"
      using Cons.prems(1) xy by (intro mult_mono) (simp_all add: sw_ok_def)
    moreover have "of_int (sw_current sw) \<le> (of_int (sw_limit sw) :: rat)" using Cons.prems(1) by (simp add: sw_ok_def)
    moreover have "0 \<le> of_int (sw_limit sw) * y" using Cons.prems(1) xy by (simp add: sw_ok_def)
    ultimately show ?thesis using adm unfolding w y_def[symmetric] by (auto simp: max_def algebra_simps split: if_splits)
  qed
qed

lemma sw_run_ok:
  "limiter_run sw_Allow ts sw = (oks, sw') \<Longrightarrow> sw_ok sw \<Longrightarrow> sorted (sw_windowStart sw # ts) \<Longrightarrow>
   sw_ok sw' \<and> sw_limit sw' = sw_limit sw \<and> sw_window sw' = sw_window sw \<and> sw_windowStart sw' \<le> last (sw_windowStart sw # ts)"
proof (induction ts arbitrary: sw oks)
  case (Cons t ts)
  have t: "sw_windowStart sw \<le> t" "sorted (t # ts)" using Cons.prems(3) by simp_all
  note rot = sw_rotate_ok[OF Cons.prems(2) t(1)]
  let ?sw = "snd (sw_Allow t sw)"
  have call: "sw_ok ?sw" "sw_limit ?sw = sw_limit sw" "sw_window ?sw = sw_window sw" "sw_windowStart ?sw \<le> t"
    using sw_call_ok[OF rot(1,2)] sw_call_in(3)[OF rot(1,2)] rot(2,4,5) by (simp_all add: rot(3) sw_in_def)
  obtain oks1 where "limiter_run sw_Allow ts ?sw = (oks1, sw')"
    using Cons.prems(1) by (auto split: prod.splits)
  moreover have "sorted (sw_windowStart ?sw # ts)" using call(4) t(2) by auto
  ultimately have "sw_ok sw' \<and> sw_limit sw' = sw_limit ?sw \<and> sw_window sw' = sw_window ?sw \<and> sw_windowStart sw' \<le> last (sw_windowStart ?sw # ts)"
    using Cons.IH call(1) by blast
  moreover have "last (sw_windowStart ?sw # ts) \<le> last (t # ts)" using call(4) by simp
  ultimately show ?case using call(2,3) by auto
qed simp

text \<open>C24: Whatever happened before, a stretch of calls that spans a time \<open>s\<close> of at most one window admits at most
  \<open>limit * (1 + s / window) + 1\<close> calls: a short burst across a boundary gets little more than the limit, but a stretch
  that spans nearly a whole window may still get nearly twice the limit.\<close>

theorem sliding_window_burst:
  assumes "limiter_run sw_Allow before (NewSlidingWindow limit window t0) = (oks0, sw)"
    and "sorted (t0 # before @ t # ts)" and "last (t # ts) - t \<le> window"
    and "0 \<le> limit" and "0 < window" and "2 * window < 2 ^ 63"
  shows "of_int (admitted (fst (limiter_run sw_Allow (t # ts) sw))) \<le>
    of_int limit * (1 + of_int (last (t # ts) - t) / of_int window) + (1 :: rat)"
proof -
  have new: "sw_ok (NewSlidingWindow limit window t0)" "sorted (sw_windowStart (NewSlidingWindow limit window t0) # before)"
    using assms(2,4-6) by (simp_all add: NewSlidingWindow_def sw_ok_def sorted_append)
  from sw_run_ok[OF assms(1) new] have sw: "sw_ok sw" "sw_limit sw = limit" "sw_window sw = window" "sw_windowStart sw \<le> last (t0 # before)"
    by (simp_all add: NewSlidingWindow_def)
  have "last (t0 # before) \<in> set (t0 # before)" by (rule last_in_set) simp
  then have "last (t0 # before) \<le> t" using assms(2) by (auto simp: sorted_append)
  then have start: "sw_windowStart sw \<le> t" using sw(4) by simp
  note rot = sw_rotate_ok[OF sw(1) start]
  let ?sw = "snd (sw_rotate t sw)" and ?b = "last (t # ts)"
  have sorted: "sorted (t # ts)" using assms(2) by (simp add: sorted_append)
  have le: "u \<le> ?b" if "u \<in> set (t # ts)" for u
    using sorted that by (cases "t # ts" rule: rev_cases) (auto simp: sorted_append)
  have "of_int (sw_current ?sw + admitted (fst (limiter_run sw_Allow (t # ts) ?sw))) \<le>
      of_int (sw_limit ?sw) * (1 + of_int (?b - t) / of_int (sw_window ?sw)) + (1 :: rat)"
  proof (rule sw_two_windows[OF rot(1,2)])
    show "\<forall>u \<in> set (t # ts). t \<le> u \<and> u \<le> ?b" using sorted le by simp
    show "t \<le> ?b" using le[of t] by simp
  qed (use assms(3) sw(3) rot(5) sorted in simp_all)
  moreover have "fst (limiter_run sw_Allow (t # ts) sw) = fst (limiter_run sw_Allow (t # ts) ?sw)"
    using rot(3) by (simp only: limiter_run_Cons)
  moreover have "0 \<le> (of_int (sw_current ?sw) :: rat)" using rot(1) by (simp add: sw_ok_def)
  ultimately show ?thesis using rot(4,5) sw(2,3) by (simp del: last.simps limiter_run.simps)
qed

theorem sliding_window_burst_witness:
  "\<exists>sw oks0. limiter_run sw_Allow [] (NewSlidingWindow 5 1000 0) = (oks0, sw) \<and>
    fst (limiter_run sw_Allow [999, 999, 999, 999, 999, 1009, 1009] sw) = replicate 5 True @ [True, False] \<and>
    of_int (admitted (fst (limiter_run sw_Allow [999, 999, 999, 999, 999, 1009, 1009] sw))) \<le>
      5 * (1 + of_int 10 / of_int 1000) + (1 :: rat)"
proof -
  let ?ts = "[999, 999, 999, 999, 1009, 1009] :: gtime list"
  have none: "limiter_run sw_Allow [] (NewSlidingWindow 5 1000 0) = ([], NewSlidingWindow 5 1000 0)" by simp
  have wrap: "wrap64 2000 = 2000" by (rule wrap64_id) (simp add: int64_def)
  have "fst (limiter_run sw_Allow (999 # ?ts) (NewSlidingWindow 5 1000 0)) = replicate 5 True @ [True, False]"
    by (simp add: limiter_run_Cons NewSlidingWindow_def sw_Allow_def sw_rotate_def sw_estimated_def time_Sub_def wrap Let_def eval_nat_numeral del: limiter_run.simps(2))
  moreover have "of_int (admitted (fst (limiter_run sw_Allow (999 # ?ts) (NewSlidingWindow 5 1000 0)))) \<le>
      of_int 5 * (1 + of_int (last (999 # ?ts) - 999) / of_int 1000) + (1 :: rat)"
    by (rule sliding_window_burst[OF none]) simp_all
  moreover have "last (999 # ?ts) - 999 = (10 :: int)" by simp
  ultimately have "of_int (admitted (fst (limiter_run sw_Allow (999 # ?ts) (NewSlidingWindow 5 1000 0)))) \<le>
      5 * (1 + of_int 10 / of_int 1000) + (1 :: rat)" by (simp only: of_int_numeral)
  with \<open>fst (limiter_run sw_Allow (999 # ?ts) (NewSlidingWindow 5 1000 0)) = replicate 5 True @ [True, False]\<close> none
  show ?thesis by (intro exI conjI)
qed

text \<open>Twice the limit within less than a window: the boundary burst is spread, not gone.\<close>

theorem sliding_window_double:
  "fst (limiter_run sw_Allow [999, 999, 1900, 1900] (NewSlidingWindow 2 1000 0)) = [True, True, True, True]"
proof -
  have "wrap64 2000 = 2000" by (rule wrap64_id) (simp add: int64_def)
  then show ?thesis
    by (simp add: limiter_run_Cons NewSlidingWindow_def sw_Allow_def sw_rotate_def sw_estimated_def time_Sub_def Let_def del: limiter_run.simps(2))
qed

end
