(* ===== verification/Retry.thy ===== *)
theory Retry
  imports Prelude "HOL-Library.Monad_Syntax"
begin

text \<open>
  Retrying with backoff and jitter (\<^verbatim>\<open>code/retry_backoff_jitter/retry.go\<close>).  The callback, the context and the random generator are
  arguments: what they answer at each attempt.  Durations are 64-bit nanoseconds; the \<open>float64\<close> products are exact
  rationals, and a conversion to a duration that does not fit is left to the argument \<open>oor\<close>, as Go leaves it to the
  implementation.
\<close>

subsection \<open>The policy\<close>

text \<open>Errors, with those that wrap another; \<open>Permanent\<close> may wrap nil.\<close>

datatype err = Plain string | CtxError string | Wrapped string err | Permanent "err option" | ErrExhausted int "err option"

datatype JitterKind = JitterNone | JitterFull | JitterEqual | JitterDecorrelated | JitterOther int

record Policy =
  MaxAttempts :: int
  BaseDelay :: int
  MaxDelay :: int
  Multiplier :: rat
  Jitter :: JitterKind
  Retryable :: "(err \<Rightarrow> bool) option"

definition DefaultPolicy :: Policy where
  "DefaultPolicy = \<lparr>MaxAttempts = 5, BaseDelay = 100000000, MaxDelay = 30000000000, Multiplier = 2, Jitter = JitterFull, Retryable = None\<rparr>"

text \<open>\<open>errors.As(err, &perm)\<close>: the first \<open>Permanent\<close> of the chain, and what it wraps.\<close>

fun as_permanent :: "err \<Rightarrow> err option option" where
  "as_permanent (Permanent e) = Some e"
| "as_permanent (Wrapped s e) = as_permanent e"
| "as_permanent (ErrExhausted n (Some e)) = as_permanent e"
| "as_permanent _ = None"

text \<open>\<open>time.Duration(x)\<close> of a float: truncation, if it fits.\<close>

definition to_Duration :: "(rat \<Rightarrow> int) \<Rightarrow> rat \<Rightarrow> int" where
  "to_Duration oor x =
     (let t = (if 0 \<le> x then \<lfloor>x\<rfloor> else \<lceil>x\<rceil>) in if int64 t then t else oor x)"

definition Backoff :: "(rat \<Rightarrow> int) \<Rightarrow> int \<Rightarrow> Policy \<Rightarrow> int" where
  "Backoff oor attempt p =
     (let attempt = (if attempt < 1 then 1 else attempt);
          d = of_int (BaseDelay p) * Multiplier p ^ nat (attempt - 1)
      in if MaxDelay p > 0 \<and> d > of_int (MaxDelay p) then MaxDelay p else to_Duration oor d)"

text \<open>The quotient by two of a duration truncates.\<close>

definition half :: "int \<Rightarrow> int" where
  "half d = (if 0 \<le> d then d div 2 else - ((- d) div 2))"

definition delayFor :: "(rat \<Rightarrow> int) \<Rightarrow> rat \<Rightarrow> int \<Rightarrow> int \<Rightarrow> Policy \<Rightarrow> int" where
  "delayFor oor random attempt prev p =
     (let base = Backoff oor attempt p;
          d = (case Jitter p of
                 JitterNone \<Rightarrow> base
               | JitterFull \<Rightarrow> to_Duration oor (random * of_int base)
               | JitterEqual \<Rightarrow> wrap64 (half base + to_Duration oor (random * of_int (half base)))
               | JitterDecorrelated \<Rightarrow>
                   let d = to_Duration oor (random * of_int (wrap64 (3 * prev))) in if d < BaseDelay p then BaseDelay p else d
               | JitterOther k \<Rightarrow> 0)
      in if MaxDelay p > 0 \<and> d > MaxDelay p then MaxDelay p else d)"

text \<open>What the environment answers: the callback to an attempt, the context before an attempt and while waiting after it (\<open>None\<close>: the timer fires
  first), the random number for the delay after it.\<close>

record env =
  fn :: "int \<Rightarrow> err option"
  ctx_before :: "int \<Rightarrow> err option"
  ctx_waiting :: "int \<Rightarrow> err option"
  rng :: "int \<Rightarrow> rat"

text \<open>The loop: the error returned, the attempts made and the delays asked of the timer.\<close>

function retry_loop :: "(rat \<Rightarrow> int) \<Rightarrow> env \<Rightarrow> Policy \<Rightarrow> int \<Rightarrow> int \<Rightarrow> err option \<Rightarrow> err option \<times> int list \<times> int list" where
  "retry_loop oor e p attempt prevDelay lastErr =
     (if \<not> attempt \<le> MaxAttempts p then (Some (ErrExhausted (MaxAttempts p) lastErr), [], [])
      else case ctx_before e attempt of
        Some err \<Rightarrow> (Some err, [], [])
      | None \<Rightarrow> (case fn e attempt of
          None \<Rightarrow> (None, [attempt], [])
        | Some err \<Rightarrow> (case as_permanent err of
            Some perm \<Rightarrow> (perm, [attempt], [])
          | None \<Rightarrow>
              if (case Retryable p of None \<Rightarrow> False | Some f \<Rightarrow> \<not> f err) then (Some err, [attempt], [])
              else if attempt = MaxAttempts p then (Some (ErrExhausted (MaxAttempts p) (Some err)), [attempt], [])
              else
                let delay = delayFor oor (rng e attempt) attempt prevDelay p in
                case ctx_waiting e attempt of
                  Some cerr \<Rightarrow> (Some cerr, [attempt], [delay])
                | None \<Rightarrow> (case retry_loop oor e p (attempt + 1) delay (Some err) of
                    (r, attempts, delays) \<Rightarrow> (r, attempt # attempts, delay # delays)))))"
  by auto
termination by (relation "measure (\<lambda>(oor, e, p, attempt, prevDelay, lastErr). nat (MaxAttempts p + 1 - attempt))") auto

declare retry_loop.simps [simp del]

definition normalize :: "Policy \<Rightarrow> Policy" where
  "normalize p =
     (let p1 = (if MaxAttempts p \<le> 0 then p\<lparr>MaxAttempts := 1\<rparr> else p)
      in if Multiplier p1 \<le> 0 then p1\<lparr>Multiplier := 2\<rparr> else p1)"

definition Do :: "(rat \<Rightarrow> int) \<Rightarrow> env \<Rightarrow> Policy \<Rightarrow> err option \<times> int list \<times> int list" where
  "Do oor e p = (let p = normalize p in retry_loop oor e p 1 (BaseDelay p) None)"

subsection \<open>The loop as its first verdict\<close>

text \<open>What attempt \<open>k\<close> amounts to.\<close>

datatype verdict = CancelledBefore err | Succeeded | PermanentFailure "err option" | NotRetryable err | GaveUp err
  | CancelledWaiting err | Again

definition verdict :: "env \<Rightarrow> Policy \<Rightarrow> int \<Rightarrow> verdict" where
  "verdict e p k = (case ctx_before e k of Some c \<Rightarrow> CancelledBefore c | None \<Rightarrow>
     (case fn e k of None \<Rightarrow> Succeeded | Some err \<Rightarrow>
       (case as_permanent err of Some perm \<Rightarrow> PermanentFailure perm | None \<Rightarrow>
         if \<exists>f. Retryable p = Some f \<and> \<not> f err then NotRetryable err
         else if k = MaxAttempts p then GaveUp err
         else case ctx_waiting e k of Some c \<Rightarrow> CancelledWaiting c | None \<Rightarrow> Again)))"

text \<open>The delay after attempt \<open>k + 1\<close>, each from the one before.\<close>

fun delay_after :: "(rat \<Rightarrow> int) \<Rightarrow> env \<Rightarrow> Policy \<Rightarrow> nat \<Rightarrow> int" where
  "delay_after oor e p 0 = delayFor oor (rng e 1) 1 (BaseDelay p) p"
| "delay_after oor e p (Suc k) = delayFor oor (rng e (int k + 2)) (int k + 2) (delay_after oor e p k) p"

fun ending :: "Policy \<Rightarrow> nat \<Rightarrow> verdict \<Rightarrow> err option \<times> nat \<times> nat" where
  "ending p k (CancelledBefore c) = (Some c, k - 1, k - 1)"
| "ending p k Succeeded = (None, k, k - 1)"
| "ending p k (PermanentFailure perm) = (perm, k, k - 1)"
| "ending p k (NotRetryable err) = (Some err, k, k - 1)"
| "ending p k (GaveUp err) = (Some (ErrExhausted (MaxAttempts p) (Some err)), k, k - 1)"
| "ending p k (CancelledWaiting c) = (Some c, k, k)"
| "ending p k Again = (None, k, k)"

definition prev_delay :: "(rat \<Rightarrow> int) \<Rightarrow> env \<Rightarrow> Policy \<Rightarrow> nat \<Rightarrow> int" where
  "prev_delay oor e p k = (if k = 0 then BaseDelay p else delay_after oor e p (k - 1))"

lemma delay_after_prev: "delay_after oor e p k = delayFor oor (rng e (int k + 1)) (int k + 1) (prev_delay oor e p k) p"
  by (cases k) (simp_all add: prev_delay_def add.commute)

lemma retry_loop_verdict:
  assumes "int k + 1 \<le> MaxAttempts p"
  shows "\<exists>n \<ge> k + 1. int n \<le> MaxAttempts p \<and> verdict e p (int n) \<noteq> Again \<and> (\<forall>j \<ge> k + 1. j < n \<longrightarrow> verdict e p (int j) = Again) \<and>
    retry_loop oor e p (int k + 1) (prev_delay oor e p k) l =
      (case ending p n (verdict e p (int n)) of (r, a, d) \<Rightarrow>
        (r, map int [k + 1..<a + 1], map (delay_after oor e p) [k..<d]))"
  using assms
proof (induction "nat (MaxAttempts p) - k" arbitrary: k l)
  case 0
  then show ?case by simp
next
  case (Suc m)
  have upt: "[k..<k] = []" "[k + 1..<k + 1] = []" "[k + 1..<k + 1 + 1] = [k + 1]" "[k..<k + 1] = [k]" by simp_all
  note unfold = retry_loop.simps[of oor e p "int k + 1" "prev_delay oor e p k" l]
  show ?case
  proof (cases "verdict e p (int k + 1) = Again")
    case False
    have "retry_loop oor e p (int k + 1) (prev_delay oor e p k) l =
      (case ending p (k + 1) (verdict e p (int k + 1)) of (r, a, d) \<Rightarrow>
        (r, map int [k + 1..<a + 1], map (delay_after oor e p) [k..<d]))"
      using False Suc.prems unfolding unfold
      by (auto simp: verdict_def delay_after_prev Let_def add.commute split: option.splits if_splits)
    then show ?thesis using False Suc.prems by (intro exI[of _ "k + 1"]) (simp add: add.commute)
  next
    case True
    then obtain err where err: "ctx_before e (int k + 1) = None" "fn e (int k + 1) = Some err" "as_permanent err = None"
      "\<not> (\<exists>f. Retryable p = Some f \<and> \<not> f err)" "int k + 1 \<noteq> MaxAttempts p" "ctx_waiting e (int k + 1) = None"
      by (auto simp: verdict_def split: option.splits if_splits)
    have le: "int (k + 1) + 1 \<le> MaxAttempts p" using Suc.prems err(5) by simp
    have m: "m = nat (MaxAttempts p) - (k + 1)" using Suc.hyps(2) by simp
    obtain n where n: "n \<ge> k + 2" "int n \<le> MaxAttempts p" "verdict e p (int n) \<noteq> Again" "\<forall>j \<ge> k + 2. j < n \<longrightarrow> verdict e p (int j) = Again"
      "retry_loop oor e p (int (k + 1) + 1) (prev_delay oor e p (k + 1)) (Some err) =
        (case ending p n (verdict e p (int n)) of (r, a, d) \<Rightarrow> (r, map int [k + 2..<a + 1], map (delay_after oor e p) [k + 1..<d]))"
      using Suc.hyps(1)[OF m le, of "Some err"] by (auto simp: numeral_2_eq_2)
    obtain r a d where rad: "ending p n (verdict e p (int n)) = (r, a, d)" by (metis prod_cases3)
    have ad: "k + 1 \<le> a" "k + 1 \<le> d" using rad n(1) by (cases "verdict e p (int n)"; auto)+
    have prev: "prev_delay oor e p (k + 1) = delayFor oor (rng e (int k + 1)) (int k + 1) (prev_delay oor e p k) p"
      using delay_after_prev[of oor e p k] by (simp add: prev_delay_def)
    have "retry_loop oor e p (int k + 1) (prev_delay oor e p k) l =
        (case retry_loop oor e p (int (k + 1) + 1) (prev_delay oor e p (k + 1)) (Some err) of
          (r, attempts, delays) \<Rightarrow> (r, (int k + 1) # attempts, prev_delay oor e p (k + 1) # delays))"
      unfolding unfold prev using err Suc.prems by (auto simp: Let_def add.commute add.left_commute split: option.splits prod.splits)
    also have "\<dots> = (r, map int [k + 1..<a + 1], map (delay_after oor e p) [k..<d])"
      using ad unfolding n(5) rad by (simp add: upt_conv_Cons prev_delay_def)
    finally have "retry_loop oor e p (int k + 1) (prev_delay oor e p k) l =
        (case ending p n (verdict e p (int n)) of (r, a, d) \<Rightarrow> (r, map int [k + 1..<a + 1], map (delay_after oor e p) [k..<d]))"
      unfolding rad by simp
    moreover have "\<forall>j \<ge> k + 1. j < n \<longrightarrow> verdict e p (int j) = Again"
    proof (intro allI impI)
      fix j assume "k + 1 \<le> j" "j < n"
      then show "verdict e p (int j) = Again" using n(4) True by (cases "j = k + 1") (auto simp: add.commute)
    qed
    ultimately show ?thesis using n(1-3) by (intro exI[of _ n]) simp
  qed
qed

lemma normalize_fields [simp]:
  "1 \<le> MaxAttempts (normalize p)" "0 < Multiplier (normalize p)" "BaseDelay (normalize p) = BaseDelay p"
  "MaxDelay (normalize p) = MaxDelay p" "Jitter (normalize p) = Jitter p" "Retryable (normalize p) = Retryable p"
  by (auto simp: normalize_def Let_def)

lemma Do_verdict:
  obtains n r a d where "1 \<le> n" and "int n \<le> MaxAttempts (normalize p)" and "verdict e (normalize p) (int n) \<noteq> Again"
    and "\<forall>j. 1 \<le> j \<longrightarrow> j < n \<longrightarrow> verdict e (normalize p) (int j) = Again"
    and "ending (normalize p) n (verdict e (normalize p) (int n)) = (r, a, d)"
    and "Do oor e p = (r, map int [1..<a + 1], map (delay_after oor e (normalize p)) [0..<d])"
proof -
  have "int 0 + 1 \<le> MaxAttempts (normalize p)" by simp
  from retry_loop_verdict[OF this, of e oor None] obtain n where n: "n \<ge> 1" "int n \<le> MaxAttempts (normalize p)"
    "verdict e (normalize p) (int n) \<noteq> Again" "\<forall>j \<ge> 1. j < n \<longrightarrow> verdict e (normalize p) (int j) = Again"
    "Do oor e p = (case ending (normalize p) n (verdict e (normalize p) (int n)) of (r, a, d) \<Rightarrow>
        (r, map int [1..<a + 1], map (delay_after oor e (normalize p)) [0..<d]))"
    by (auto simp: Do_def Let_def prev_delay_def)
  obtain r a d where "ending (normalize p) n (verdict e (normalize p) (int n)) = (r, a, d)" by (metis prod_cases3)
  then show thesis using that n by auto
qed

subsection \<open>Delays\<close>

definition sane_policy :: "Policy \<Rightarrow> bool" where
  "sane_policy p \<longleftrightarrow> 0 \<le> BaseDelay p \<and> 3 * BaseDelay p < 2 ^ 63 \<and> 0 < MaxDelay p \<and> 3 * MaxDelay p < 2 ^ 63"

lemma to_Duration_fit: "0 \<le> x \<Longrightarrow> x \<le> of_int m \<Longrightarrow> m < 2 ^ 63 \<Longrightarrow> to_Duration oor x = \<lfloor>x\<rfloor> \<and> 0 \<le> to_Duration oor x \<and> to_Duration oor x \<le> m"
proof -
  assume x: "0 \<le> x" "x \<le> of_int m" "m < 2 ^ 63"
  then have "\<lfloor>x\<rfloor> \<le> m" by (simp add: floor_le_iff)
  moreover have "0 \<le> \<lfloor>x\<rfloor>" using x(1) by simp
  moreover have "int64 \<lfloor>x\<rfloor>" unfolding int64_def using calculation x(3) by linarith
  moreover from this have "to_Duration oor x = \<lfloor>x\<rfloor>" unfolding to_Duration_def Let_def using x(1) by (simp only: if_True)
  ultimately show ?thesis by simp
qed

lemma Backoff_range:
  assumes "sane_policy p" and "0 < Multiplier p"
  shows "0 \<le> Backoff oor k p \<and> Backoff oor k p \<le> MaxDelay p"
proof -
  let ?d = "of_int (BaseDelay p) * Multiplier p ^ nat ((if k < 1 then 1 else k) - 1)"
  have "0 \<le> ?d" using assms by (simp add: sane_policy_def)
  then show ?thesis
    using to_Duration_fit[of ?d "MaxDelay p" oor] assms(1) by (auto simp: Backoff_def sane_policy_def Let_def not_less)
qed

lemma delayFor_range:
  assumes p: "sane_policy p" "0 < Multiplier p" and r: "0 \<le> random" "random \<le> 1" and prev: "0 \<le> prev" "3 * prev < 2 ^ 63"
  shows "0 \<le> delayFor oor random k prev p \<and> delayFor oor random k prev p \<le> MaxDelay p"
    and "Jitter p = JitterNone \<Longrightarrow> delayFor oor random k prev p = Backoff oor k p"
    and "Jitter p = JitterFull \<Longrightarrow> delayFor oor random k prev p \<le> Backoff oor k p"
    and "Jitter p = JitterEqual \<Longrightarrow> Backoff oor k p div 2 \<le> delayFor oor random k prev p \<and> delayFor oor random k prev p \<le> Backoff oor k p"
    and "Jitter p = JitterDecorrelated \<Longrightarrow> min (BaseDelay p) (MaxDelay p) \<le> delayFor oor random k prev p"
proof -
  let ?b = "Backoff oor k p"
  note b = Backoff_range[OF p, of oor k]
  have max63: "MaxDelay p < 2 ^ 63" using p(1) by (simp add: sane_policy_def)
  have scale: "0 \<le> random * of_int m \<and> random * of_int m \<le> of_int m" if "0 \<le> m" for m :: int
    using r that by (simp add: mult_left_le_one_le)
  have full: "0 \<le> to_Duration oor (random * of_int ?b) \<and> to_Duration oor (random * of_int ?b) \<le> ?b"
    using to_Duration_fit[of "random * of_int ?b" ?b oor] scale[of ?b] b max63 by simp
  have h: "half ?b = ?b div 2" using b by (simp add: half_def)
  have "?b div 2 < 2 ^ 63" "0 \<le> ?b div 2" using b max63 by linarith+
  then have eq: "0 \<le> to_Duration oor (random * of_int (half ?b)) \<and> to_Duration oor (random * of_int (half ?b)) \<le> ?b div 2"
    unfolding h using to_Duration_fit[of "random * of_int (?b div 2)" "?b div 2" oor] scale[of "?b div 2"] by blast
  have wrap: "wrap64 (half ?b + to_Duration oor (random * of_int (half ?b))) = ?b div 2 + to_Duration oor (random * of_int (half ?b))"
  proof -
    have "0 \<le> half ?b + to_Duration oor (random * of_int (half ?b))" "half ?b + to_Duration oor (random * of_int (half ?b)) < 2 ^ 63"
      using eq b max63 unfolding h by linarith+
    then have "int64 (half ?b + to_Duration oor (random * of_int (half ?b)))" unfolding int64_def by linarith
    then show ?thesis using h by (simp add: wrap64_id)
  qed
  have "wrap64 (3 * prev) = 3 * prev" using prev by (intro wrap64_id) (simp add: int64_def)
  then have dec: "0 \<le> to_Duration oor (random * of_int (wrap64 (3 * prev)))"
    using to_Duration_fit[of "random * of_int (3 * prev)" "3 * prev" oor] scale[of "3 * prev"] prev by simp
  have base: "0 \<le> BaseDelay p" "0 < MaxDelay p" using p(1) by (simp_all add: sane_policy_def)
  show "0 \<le> delayFor oor random k prev p \<and> delayFor oor random k prev p \<le> MaxDelay p"
    using b full eq dec base unfolding delayFor_def Let_def wrap by (auto split: JitterKind.split)
  show "Jitter p = JitterNone \<Longrightarrow> delayFor oor random k prev p = ?b"
    "Jitter p = JitterFull \<Longrightarrow> delayFor oor random k prev p \<le> ?b"
    "Jitter p = JitterEqual \<Longrightarrow> ?b div 2 \<le> delayFor oor random k prev p \<and> delayFor oor random k prev p \<le> ?b"
    "Jitter p = JitterDecorrelated \<Longrightarrow> min (BaseDelay p) (MaxDelay p) \<le> delayFor oor random k prev p"
    using b full eq dec base unfolding delayFor_def Let_def wrap by (auto simp: min_def)
qed

lemma delay_after_range:
  assumes "sane_policy p" and "0 < Multiplier p" and "\<And>k. 0 \<le> rng e k \<and> rng e k \<le> 1"
  shows "0 \<le> prev_delay oor e p k" and "3 * prev_delay oor e p k < 2 ^ 63" and "delay_after oor e p k \<le> MaxDelay p" and "0 \<le> delay_after oor e p k"
proof -
  have all: "0 \<le> prev_delay oor e p k \<and> 3 * prev_delay oor e p k < 2 ^ 63" for k
  proof (induction k)
    case 0
    show ?case using assms(1) by (simp add: prev_delay_def sane_policy_def)
  next
    case (Suc k)
    have "0 \<le> delay_after oor e p k \<and> delay_after oor e p k \<le> MaxDelay p"
      unfolding delay_after_prev using Suc assms(3) by (intro delayFor_range(1)[OF assms(1,2)]) auto
    moreover have "3 * MaxDelay p < 2 ^ 63" using assms(1) by (simp add: sane_policy_def)
    ultimately show ?case by (simp add: prev_delay_def)
  qed
  then show "0 \<le> prev_delay oor e p k" "3 * prev_delay oor e p k < 2 ^ 63" by simp_all
  show "delay_after oor e p k \<le> MaxDelay p" "0 \<le> delay_after oor e p k"
    unfolding delay_after_prev using all[of k] assms(3) delayFor_range(1)[OF assms(1,2)] by auto
qed

subsection \<open>Properties\<close>

text \<open>C29: \<open>Do\<close> ends at the first attempt whose verdict is not to try again, after at most \<open>MaxAttempts\<close> attempts: the attempts are \<open>1, 2, ...\<close> in order,
  there is a delay between any two, and the error returned is that of the verdict; so it is nil only if the callback succeeded or failed with a
  \<open>Permanent\<close> that wraps nil.\<close>

theorem retry_Do_first_verdict:
  "\<exists>n attempts delays. 1 \<le> n \<and> int n \<le> max 1 (MaxAttempts p) \<and> verdict e (normalize p) (int n) \<noteq> Again \<and>
    (\<forall>j. 1 \<le> j \<longrightarrow> j < n \<longrightarrow> verdict e (normalize p) (int j) = Again) \<and>
    Do oor e p = (fst (ending (normalize p) n (verdict e (normalize p) (int n))), attempts, delays) \<and>
    (attempts = map int [1..<n + 1] \<or> attempts = map int [1..<n] \<and> (\<exists>c. verdict e (normalize p) (int n) = CancelledBefore c)) \<and>
    (length delays = n - 1 \<or> length delays = n \<and> (\<exists>c. verdict e (normalize p) (int n) = CancelledWaiting c)) \<and>
    (fst (Do oor e p) = None \<longleftrightarrow> verdict e (normalize p) (int n) \<in> {Succeeded, PermanentFailure None})"
proof -
  have max: "MaxAttempts (normalize p) = max 1 (MaxAttempts p)" by (auto simp: normalize_def Let_def)
  obtain n r a d where n: "1 \<le> n" "int n \<le> MaxAttempts (normalize p)" "verdict e (normalize p) (int n) \<noteq> Again"
    "\<forall>j. 1 \<le> j \<longrightarrow> j < n \<longrightarrow> verdict e (normalize p) (int j) = Again"
    "ending (normalize p) n (verdict e (normalize p) (int n)) = (r, a, d)"
    "Do oor e p = (r, map int [1..<a + 1], map (delay_after oor e (normalize p)) [0..<d])"
    by (rule Do_verdict)
  have a: "a = n \<or> a = n - 1 \<and> (\<exists>c. verdict e (normalize p) (int n) = CancelledBefore c)"
    and d: "d = n - 1 \<or> d = n \<and> (\<exists>c. verdict e (normalize p) (int n) = CancelledWaiting c)"
    and r: "r = None \<longleftrightarrow> verdict e (normalize p) (int n) \<in> {Succeeded, PermanentFailure None}"
    using n(3,5) by (cases "verdict e (normalize p) (int n)"; auto)+
  have attempts: "map int [1..<a + 1] = map int [1..<n + 1] \<or>
      map int [1..<a + 1] = map int [1..<n] \<and> (\<exists>c. verdict e (normalize p) (int n) = CancelledBefore c)"
    using a n(1) by (metis le_add_diff_inverse2)
  have delays: "length (map (delay_after oor e (normalize p)) [0..<d]) = d" by simp
  show ?thesis
    by (intro exI[of _ n] exI[of _ "map int [1..<a + 1]"] exI[of _ "map (delay_after oor e (normalize p)) [0..<d]"] conjI
        n(1,3,4) n(2)[unfolded max] attempts) (simp_all only: n(5,6) fst_conv r d delays)
qed

theorem retry_Do_first_verdict_witness:
  "\<exists>e n delays. Do (\<lambda>_. 0) e DefaultPolicy = (None, map int [1..<n + 1], delays) \<and> 1 \<le> n \<and> length delays = n - 1 \<and>
    verdict e DefaultPolicy (int n) = Succeeded"
proof -
  let ?e = "\<lparr>fn = (\<lambda>k. if k < 3 then Some (Plain ''down'') else None), ctx_before = (\<lambda>_. None), ctx_waiting = (\<lambda>_. None), rng = (\<lambda>_. 1 / 2)\<rparr>"
  have p: "normalize DefaultPolicy = DefaultPolicy" by (simp add: normalize_def DefaultPolicy_def)
  have run: "fst (Do (\<lambda>_. 0) ?e DefaultPolicy) = None"
    by (simp add: Do_def normalize_def retry_loop.simps delayFor_def Backoff_def to_Duration_def DefaultPolicy_def int64_def Let_def)
  have verdicts: "verdict ?e DefaultPolicy k \<notin> {CancelledBefore c, CancelledWaiting c, PermanentFailure None}" for k c
    by (auto simp: verdict_def DefaultPolicy_def split: if_splits)
  obtain n attempts delays where "1 \<le> n" "Do (\<lambda>_. 0) ?e DefaultPolicy = (fst (ending DefaultPolicy n (verdict ?e DefaultPolicy (int n))), attempts, delays)"
    "attempts = map int [1..<n + 1] \<or> attempts = map int [1..<n] \<and> (\<exists>c. verdict ?e DefaultPolicy (int n) = CancelledBefore c)"
    "length delays = n - 1 \<or> length delays = n \<and> (\<exists>c. verdict ?e DefaultPolicy (int n) = CancelledWaiting c)"
    "fst (Do (\<lambda>_. 0) ?e DefaultPolicy) = None \<longleftrightarrow> verdict ?e DefaultPolicy (int n) \<in> {Succeeded, PermanentFailure None}"
    using retry_Do_first_verdict[of DefaultPolicy ?e "\<lambda>_. 0"] unfolding p by (elim exE conjE)
  then show ?thesis using run verdicts[of "int n"] by (intro exI[of _ ?e] exI[of _ n] exI[of _ delays]) auto
qed

text \<open>With a cap and random numbers between 0 and 1, every delay is between 0 and the cap, so the whole wait is at most the cap for each attempt but the
  last; without jitter each delay is the backoff of its attempt, with full jitter at most that, with equal jitter between its half
  and itself, and with decorrelated jitter at least the base delay.\<close>

theorem retry_delays_bounded:
  assumes "sane_policy p" and "\<forall>k. 0 \<le> rng e k \<and> rng e k \<le> 1" and "Do oor e p = (r, attempts, delays)"
  shows "(\<forall>d \<in> set delays. 0 \<le> d \<and> d \<le> MaxDelay p) \<and> sum_list delays \<le> max 0 (MaxAttempts p - 1) * MaxDelay p \<and>
    (\<forall>i < length delays. let d = delays ! i; b = Backoff oor (int i + 1) (normalize p) in
      (Jitter p = JitterNone \<longrightarrow> d = b) \<and> (Jitter p = JitterFull \<longrightarrow> d \<le> b) \<and>
      (Jitter p = JitterEqual \<longrightarrow> b div 2 \<le> d \<and> d \<le> b) \<and> (Jitter p = JitterDecorrelated \<longrightarrow> min (BaseDelay p) (MaxDelay p) \<le> d))"
proof -
  let ?p = "normalize p"
  have sane: "sane_policy ?p" "0 < Multiplier ?p" using assms(1) by (simp_all add: sane_policy_def)
  have rnd: "\<And>k. 0 \<le> rng e k \<and> rng e k \<le> 1" using assms(2) by blast
  obtain n r' a d where n: "1 \<le> n" "int n \<le> MaxAttempts ?p" "verdict e ?p (int n) \<noteq> Again"
    "ending ?p n (verdict e ?p (int n)) = (r', a, d)"
    "Do oor e p = (r', map int [1..<a + 1], map (delay_after oor e ?p) [0..<d])"
    by (rule Do_verdict)
  have delays: "delays = map (delay_after oor e ?p) [0..<d]" using n(5) assms(3) by simp
  have each: "0 \<le> delay_after oor e ?p k \<and> delay_after oor e ?p k \<le> MaxDelay p" for k
    using delay_after_range[OF sane rnd, of oor k] by simp
  have cancel: "int n \<noteq> MaxAttempts ?p" if "verdict e ?p (int n) = CancelledWaiting c" for c
    using that by (auto simp: verdict_def split: option.splits if_splits)
  have "int d \<le> MaxAttempts ?p - 1"
    using n(1-4) cancel by (cases "verdict e ?p (int n)") auto
  moreover have "MaxAttempts ?p = max 1 (MaxAttempts p)" by (auto simp: normalize_def Let_def)
  ultimately have "int d \<le> max 0 (MaxAttempts p - 1)" by simp
  moreover have "sum_list (map (delay_after oor e ?p) [0..<d]) \<le> int d * MaxDelay p"
    using sum_list_mono[of "[0..<d]" "delay_after oor e ?p" "\<lambda>_. MaxDelay p"] each by (simp add: sum_list_triv)
  moreover have "0 \<le> MaxDelay p" using assms(1) by (simp add: sane_policy_def)
  ultimately have "sum_list delays \<le> max 0 (MaxAttempts p - 1) * MaxDelay p"
    unfolding delays by (meson mult_right_mono order_trans)
  moreover have "let d = delays ! i; b = Backoff oor (int i + 1) ?p in
      (Jitter p = JitterNone \<longrightarrow> d = b) \<and> (Jitter p = JitterFull \<longrightarrow> d \<le> b) \<and>
      (Jitter p = JitterEqual \<longrightarrow> b div 2 \<le> d \<and> d \<le> b) \<and> (Jitter p = JitterDecorrelated \<longrightarrow> min (BaseDelay p) (MaxDelay p) \<le> d)"
    if "i < length delays" for i
  proof -
    note prev = delay_after_range(1,2)[OF sane rnd, of oor i]
    have "delays ! i = delayFor oor (rng e (int i + 1)) (int i + 1) (prev_delay oor e ?p i) ?p"
      using that delay_after_prev[of oor e ?p i] by (simp add: delays)
    then show ?thesis
      using delayFor_range(2-5)[OF sane rnd[of "int i + 1", THEN conjunct1] rnd[of "int i + 1", THEN conjunct2] prev, of oor "int i + 1"]
      by (simp add: Let_def)
  qed
  ultimately show ?thesis using each by (auto simp: delays)
qed

theorem retry_delays_bounded_witness:
  "\<exists>r. Do (\<lambda>_. 0) \<lparr>fn = (\<lambda>_. Some (Plain ''down'')), ctx_before = (\<lambda>_. None), ctx_waiting = (\<lambda>_. None), rng = (\<lambda>_. 1 / 2)\<rparr>
      (DefaultPolicy\<lparr>MaxAttempts := 3\<rparr>) = (r, [1, 2, 3], [50000000, 100000000]) \<and>
    sum_list [50000000, 100000000] \<le> max 0 (3 - 1) * (30000000000 :: int)"
proof -
  let ?e = "\<lparr>fn = (\<lambda>_. Some (Plain ''down'')), ctx_before = (\<lambda>_. None), ctx_waiting = (\<lambda>_. None), rng = (\<lambda>_. 1 / 2)\<rparr>"
  let ?p = "DefaultPolicy\<lparr>MaxAttempts := 3\<rparr>"
  have run: "Do (\<lambda>_. 0) ?e ?p = (Some (ErrExhausted 3 (Some (Plain ''down''))), [1, 2, 3], [50000000, 100000000])"
    by (simp add: Do_def normalize_def retry_loop.simps delayFor_def Backoff_def to_Duration_def DefaultPolicy_def int64_def Let_def)
  have "sane_policy ?p" by (simp add: sane_policy_def DefaultPolicy_def)
  then have "sum_list [50000000, 100000000] \<le> max 0 (MaxAttempts ?p - 1) * MaxDelay ?p"
    using retry_delays_bounded[OF _ _ run] by simp
  then show ?thesis using run by (simp add: DefaultPolicy_def)
qed

text \<open>Without a cap the backoff leaves the range of a duration, and what the conversion then yields is up to the implementation.\<close>

theorem retry_uncapped_backoff_overflows:
  assumes "MaxDelay p \<le> 0" and "2 ^ 63 \<le> of_int (BaseDelay p) * Multiplier p ^ nat (k - 1)" and "1 \<le> k"
  shows "Backoff oor k p = oor (of_int (BaseDelay p) * Multiplier p ^ nat (k - 1))"
proof -
  let ?d = "of_int (BaseDelay p) * Multiplier p ^ nat (k - 1)"
  have "2 ^ 63 \<le> \<lfloor>?d\<rfloor>" using assms(2) by (simp add: le_floor_iff)
  moreover have "0 \<le> ?d" by (rule order_trans[OF _ assms(2)]) simp
  ultimately show ?thesis using assms(1,3) by (simp add: Backoff_def to_Duration_def int64_def Let_def)
qed

theorem retry_uncapped_backoff_overflows_witness:
  "Backoff (\<lambda>_. - (2 ^ 63)) 38 (DefaultPolicy\<lparr>MaxDelay := 0\<rparr>) = - (2 ^ 63)"
  by (subst retry_uncapped_backoff_overflows) (simp_all add: DefaultPolicy_def)

end
