(* ===== verification/Geohash.thy ===== *)
theory Geohash
  imports Prelude "HOL-Library.Monad_Syntax" "HOL-Library.Sublist"
begin

text \<open>
  Geohash encoding, decoding and neighbours (\<^verbatim>\<open>code/geohash/geohash.go\<close>).  The \<open>float64\<close> coordinates are exact rationals: the
  bounds of the cells are halves of 90 and 180, which floats hold exactly for some forty halvings, that is for the precisions in use.  Indexing the
  alphabet out of range and a loop that does not end are \<open>None\<close>; an invalid character is an error value.
\<close>

unbundle bit_operations_syntax

subsection \<open>Encoding and decoding\<close>

definition base32 :: string where
  "base32 = ''0123456789bcdefghjkmnpqrstuvwxyz''"

definition decodeMap :: "char \<rightharpoonup> int" where
  "decodeMap = map_of (zip base32 (map int [0..<length base32]))"

record Box =
  MinLat :: rat
  MaxLat :: rat
  MinLng :: rat
  MaxLng :: rat

definition Center :: "Box \<Rightarrow> rat \<times> rat" where
  "Center b = ((MinLat b + MaxLat b) / 2, (MinLng b + MaxLng b) / 2)"

text \<open>One pass of the loop of \<open>Encode\<close>: one bit of \<open>ch\<close> and the half of the range it stands for.\<close>

definition encode_bit :: "rat \<Rightarrow> rat \<Rightarrow> bool \<Rightarrow> int \<Rightarrow> rat \<times> rat \<Rightarrow> rat \<times> rat \<Rightarrow> int \<times> (rat \<times> rat) \<times> (rat \<times> rat)" where
  "encode_bit lat lng ev ch latRange lngRange =
     (if ev then
        let mid = (fst lngRange + snd lngRange) / 2 in
        if lng \<ge> mid then (push_bit 1 ch OR 1, latRange, (mid, snd lngRange)) else (push_bit 1 ch, latRange, (fst lngRange, mid))
      else
        let mid = (fst latRange + snd latRange) / 2 in
        if lat \<ge> mid then (push_bit 1 ch OR 1, (mid, snd latRange), lngRange) else (push_bit 1 ch, (fst latRange, mid), lngRange))"

partial_function (option) encode_loop ::
  "rat \<Rightarrow> rat \<Rightarrow> int \<Rightarrow> rat \<times> rat \<Rightarrow> rat \<times> rat \<Rightarrow> int \<Rightarrow> int \<Rightarrow> bool \<Rightarrow> string \<Rightarrow> string option" where
  "encode_loop lat lng precision latRange lngRange nbits ch ev sb =
     (if int (length sb) < precision
      then (case encode_bit lat lng ev ch latRange lngRange of (ch, latRange, lngRange) \<Rightarrow>
        if nbits + 1 = 5
        then do { c \<leftarrow> nth_opt base32 (nat ch); encode_loop lat lng precision latRange lngRange 0 0 (\<not> ev) (sb @ [c]) }
        else encode_loop lat lng precision latRange lngRange (nbits + 1) ch (\<not> ev) sb)
      else Some sb)"

declare encode_loop.simps [code]

definition Encode :: "rat \<Rightarrow> rat \<Rightarrow> int \<Rightarrow> string option" where
  "Encode lat lng precision =
     (let precision = (if precision < 1 then 1 else precision)
      in encode_loop lat lng precision (-90, 90) (-180, 180) 0 0 True '''')"

definition world :: Box where
  "world = \<lparr>MinLat = -90, MaxLat = 90, MinLng = -180, MaxLng = 180\<rparr>"

text \<open>One halving of \<open>Decode\<close>, and its two loops.\<close>

definition decode_bit :: "bool \<Rightarrow> bool \<times> Box \<Rightarrow> bool \<times> Box" where
  "decode_bit on e = (case e of (ev, box) \<Rightarrow>
     (\<not> ev,
      if ev then
        let mid = (MinLng box + MaxLng box) / 2 in if on then box\<lparr>MinLng := mid\<rparr> else box\<lparr>MaxLng := mid\<rparr>
      else
        let mid = (MinLat box + MaxLat box) / 2 in if on then box\<lparr>MinLat := mid\<rparr> else box\<lparr>MaxLat := mid\<rparr>))"

function decode_char :: "int \<Rightarrow> int \<Rightarrow> bool \<times> Box \<Rightarrow> bool \<times> Box" where
  "decode_char v msk e =
     (if msk \<ge> 1 then decode_char v (drop_bit 1 msk) (decode_bit (v AND msk \<noteq> 0) e) else e)"
  by auto
termination by (relation "measure (\<lambda>(v, msk, e). nat msk)") (auto simp: drop_bit_eq_div)

declare decode_char.simps [simp del]

datatype geo_error = InvalidCharacter char

fun decode_loop :: "string \<Rightarrow> bool \<times> Box \<Rightarrow> geo_error + Box" where
  "decode_loop [] e = Inr (snd e)"
| "decode_loop (c # cs) e = (case decodeMap c of
     None \<Rightarrow> Inl (InvalidCharacter c)
   | Some v \<Rightarrow> decode_loop cs (decode_char v 16 e))"

definition Decode :: "string \<Rightarrow> geo_error + Box" where
  "Decode hash = decode_loop hash (True, world)"

definition DecodePoint :: "string \<Rightarrow> geo_error + (rat \<times> rat \<times> rat \<times> rat)" where
  "DecodePoint hash = (case Decode hash of
     Inl e \<Rightarrow> Inl e
   | Inr box \<Rightarrow> (case Center box of (lat, lng) \<Rightarrow>
       Inr (lat, lng, (MaxLat box - MinLat box) / 2, (MaxLng box - MinLng box) / 2)))"

definition clampLat :: "rat \<Rightarrow> rat" where
  "clampLat lat = max (-90) (min 90 lat)"

function wrap_down :: "rat \<Rightarrow> rat" where
  "wrap_down lng = (if lng > 180 then wrap_down (lng - 360) else lng)"
  by auto
termination
proof (relation "measure (\<lambda>lng. nat \<lceil>lng\<rceil>)")
  fix lng :: rat
  assume "180 < lng"
  then have "\<lceil>lng - 360\<rceil> < \<lceil>lng\<rceil>" "0 < \<lceil>lng\<rceil>" by linarith+
  then show "(lng - 360, lng) \<in> measure (\<lambda>lng. nat \<lceil>lng\<rceil>)" by simp
qed simp

function wrap_up :: "rat \<Rightarrow> rat" where
  "wrap_up lng = (if lng < -180 then wrap_up (lng + 360) else lng)"
  by auto
termination
proof (relation "measure (\<lambda>lng. nat (- \<lfloor>lng\<rfloor>))")
  fix lng :: rat
  assume "lng < -180"
  then have "\<lfloor>lng\<rfloor> < \<lfloor>lng + 360\<rfloor>" "\<lfloor>lng\<rfloor> < 0" by linarith+
  then show "(lng + 360, lng) \<in> measure (\<lambda>lng. nat (- \<lfloor>lng\<rfloor>))" by simp
qed simp

declare wrap_down.simps [simp del] wrap_up.simps [simp del]

definition wrapLng :: "rat \<Rightarrow> rat" where
  "wrapLng lng = wrap_up (wrap_down lng)"

text \<open>The offsets of the eight neighbours in the order of the two loops.\<close>

definition offsets :: "(int \<times> int) list" where
  "offsets = [(dLat, dLng). dLat \<leftarrow> [1, 0, -1], dLng \<leftarrow> [-1, 0, 1], \<not> (dLat = 0 \<and> dLng = 0)]"

fun encode_all :: "(rat \<times> rat) list \<Rightarrow> int \<Rightarrow> string list option" where
  "encode_all [] precision = Some []"
| "encode_all ((lat, lng) # ps) precision = do {
     h \<leftarrow> Encode lat lng precision; hs \<leftarrow> encode_all ps precision; Some (h # hs) }"

definition Neighbors :: "string \<Rightarrow> (geo_error + string list) option" where
  "Neighbors hash = (case Decode hash of
     Inl e \<Rightarrow> Some (Inl e)
   | Inr box \<Rightarrow> (case Center box of (lat, lng) \<Rightarrow>
       let latStep = MaxLat box - MinLat box; lngStep = MaxLng box - MinLng box in do {
         out \<leftarrow> encode_all (map (\<lambda>(dLat, dLng). (clampLat (lat + of_int dLat * latStep), wrapLng (lng + of_int dLng * lngStep))) offsets)
           (int (length hash));
         Some (Inr out) }))"

definition SearchArea :: "rat \<Rightarrow> rat \<Rightarrow> int \<Rightarrow> (geo_error + string list) option" where
  "SearchArea lat lng precision = do {
     center \<leftarrow> Encode lat lng precision;
     neighbors \<leftarrow> Neighbors center;
     Some (case neighbors of Inl e \<Rightarrow> Inl e | Inr ns \<Rightarrow> Inr (center # ns)) }"

fun CommonPrefix :: "string \<Rightarrow> string \<Rightarrow> nat" where
  "CommonPrefix (a # as) (b # bs) = (if a \<noteq> b then 0 else Suc (CommonPrefix as bs))"
| "CommonPrefix _ _ = 0"

subsection \<open>Characters and bits\<close>

definition val :: "bool list \<Rightarrow> int" where
  "val bs = foldl (\<lambda>v b. 2 * v + of_bool b) 0 bs"

fun hash_chars :: "bool list \<Rightarrow> string" where
  "hash_chars (a # b # c # d # e # bs) = base32 ! nat (val [a, b, c, d, e]) # hash_chars bs"
| "hash_chars _ = []"

lemma val_simps [simp]: "val [] = 0" "val (bs @ [b]) = 2 * val bs + of_bool b"
  by (simp_all add: val_def)


lemma val_range: "0 \<le> val bs \<and> val bs < 2 ^ length bs"
  by (induction bs rule: rev_induct) auto

lemma length_base32: "length base32 = 32"
  by (simp add: base32_def)

subsection \<open>Encoding as a list of bits\<close>

abbreviation refine :: "bool list \<Rightarrow> bool \<times> Box \<Rightarrow> bool \<times> Box" where
  "refine bs e \<equiv> foldl (\<lambda>e b. decode_bit b e) e bs"

definition goes_up :: "rat \<Rightarrow> rat \<Rightarrow> bool \<times> Box \<Rightarrow> bool" where
  "goes_up lat lng e = (case e of (ev, box) \<Rightarrow> if ev then (MinLng box + MaxLng box) / 2 \<le> lng else (MinLat box + MaxLat box) / 2 \<le> lat)"

fun enc_bits :: "nat \<Rightarrow> rat \<Rightarrow> rat \<Rightarrow> bool \<times> Box \<Rightarrow> bool list" where
  "enc_bits 0 lat lng e = []"
| "enc_bits (Suc n) lat lng e = goes_up lat lng e # enc_bits n lat lng (decode_bit (goes_up lat lng e) e)"

lemma length_enc_bits [simp]: "length (enc_bits n lat lng e) = n"
  by (induction n arbitrary: e) auto

lemma enc_bits_snoc: "enc_bits (Suc n) lat lng e = enc_bits n lat lng e @ [goes_up lat lng (refine (enc_bits n lat lng e) e)]"
proof (induction n arbitrary: e)
  case (Suc n)
  show ?case
    by (simp only: enc_bits.simps(2)[of "Suc n" lat lng e] Suc.IH[of "decode_bit (goes_up lat lng e) e"]) simp
qed simp

lemma take_enc_bits: "m \<le> n \<Longrightarrow> take m (enc_bits n lat lng e) = enc_bits m lat lng e"
proof (induction m arbitrary: n e)
  case (Suc m)
  then show ?case by (cases n) auto
qed simp

lemma encode_bit_eq:
  "encode_bit lat lng ev ch (MinLat b, MaxLat b) (MinLng b, MaxLng b) =
     (let u = goes_up lat lng (ev, b); b' = snd (decode_bit u (ev, b))
      in (2 * ch + of_bool u, (MinLat b', MaxLat b'), (MinLng b', MaxLng b')))"
  unfolding encode_bit_def by (simp add: goes_up_def decode_bit_def Let_def push_bit_eq_mult or_one_eq)

lemma decode_bit_pair: "decode_bit u (ev, b) = (\<not> ev, snd (decode_bit u (ev, b)))"
  by (simp add: decode_bit_def)

lemma fst_decode_bit [simp]: "fst (decode_bit u e) = (\<not> fst e)"
  by (cases e) (simp add: decode_bit_def)

lemma base32_nth: "length bs = 5 \<Longrightarrow> nth_opt base32 (nat (val bs)) = Some (base32 ! nat (val bs))"
  using val_range[of bs] by (simp add: nth_opt_def length_base32 nat_less_iff)

lemma hash_chars_append5: "length acc = 5 \<Longrightarrow> hash_chars (acc @ bs) = base32 ! nat (val acc) # hash_chars bs"
  by (auto simp: length_Suc_conv numeral_eq_Suc)

lemma hash_chars_short: "length acc < 5 \<Longrightarrow> hash_chars acc = []"
  by (induction acc rule: hash_chars.induct) auto

lemma encode_loop_bits:
  assumes "length acc < 5"
  shows "encode_loop lat lng (int p) (MinLat b, MaxLat b) (MinLng b, MaxLng b) (int (length acc)) (val acc) ev sb =
    Some (sb @ hash_chars (acc @ enc_bits (5 * (p - length sb) - length acc) lat lng (ev, b)))"
  using assms
proof (induction "5 * (p - length sb) - length acc" arbitrary: acc b ev sb)
  case 0
  then have "\<not> int (length sb) < int p" by simp
  then show ?case using 0 by (simp add: encode_loop.simps hash_chars_short)
next
  case (Suc m)
  let ?u = "goes_up lat lng (ev, b)" and ?acc = "acc @ [goes_up lat lng (ev, b)]"
  let ?b = "snd (decode_bit ?u (ev, b))"
  have lt: "int (length sb) < int p" using Suc.hyps(2) by auto
  have bits: "enc_bits (5 * (p - length sb) - length acc) lat lng (ev, b) = ?u # enc_bits m lat lng (\<not> ev, ?b)"
    unfolding Suc.hyps(2)[symmetric] enc_bits.simps by (simp only: decode_bit_pair[of ?u ev b, symmetric])
  have step: "encode_loop lat lng (int p) (MinLat b, MaxLat b) (MinLng b, MaxLng b) (int (length acc)) (val acc) ev sb =
      (if length ?acc = 5
       then do { c \<leftarrow> nth_opt base32 (nat (val ?acc)); encode_loop lat lng (int p) (MinLat ?b, MaxLat ?b) (MinLng ?b, MaxLng ?b) 0 0 (\<not> ev) (sb @ [c]) }
       else encode_loop lat lng (int p) (MinLat ?b, MaxLat ?b) (MinLng ?b, MaxLng ?b) (int (length ?acc)) (val ?acc) (\<not> ev) sb)"
    using lt by (subst encode_loop.simps) (auto simp: encode_bit_eq Let_def add.commute)
  show ?case
  proof (cases "length ?acc = 5")
    case True
    let ?c = "base32 ! nat (val ?acc)"
    have m: "m = 5 * (p - length (sb @ [?c])) - length []" using Suc.hyps(2) True by simp
    have "encode_loop lat lng (int p) (MinLat ?b, MaxLat ?b) (MinLng ?b, MaxLng ?b) 0 0 (\<not> ev) (sb @ [?c]) =
        Some ((sb @ [?c]) @ hash_chars (enc_bits m lat lng (\<not> ev, ?b)))"
      using Suc.hyps(1)[OF m, of ?b "\<not> ev"] m by simp
    then show ?thesis
      unfolding step bits using True base32_nth[OF True] hash_chars_append5[OF True, of "enc_bits m lat lng (\<not> ev, ?b)"] by simp
  next
    case False
    have m: "m = 5 * (p - length sb) - length ?acc" using Suc.hyps(2) by simp
    show ?thesis
      unfolding step bits using False Suc.hyps(1)[OF m, of ?b "\<not> ev"] Suc.prems m by simp
  qed
qed

lemma Encode_bits: "Encode lat lng p = Some (hash_chars (enc_bits (5 * max 1 (nat p)) lat lng (True, world)))"
proof -
  have p: "(if p < 1 then 1 else p) = int (max 1 (nat p))" by auto
  have "encode_loop lat lng (int (max 1 (nat p))) (-90, 90) (-180, 180) 0 0 True '''' =
      Some (hash_chars (enc_bits (5 * max 1 (nat p)) lat lng (True, world)))"
    using encode_loop_bits[of "[]" lat lng "max 1 (nat p)" world True "''''"] by (simp add: world_def)
  then show ?thesis unfolding Encode_def Let_def p .
qed

lemma length_hash_chars: "length (hash_chars bs) = length bs div 5"
  by (induction bs rule: hash_chars.induct) auto

lemma take_hash_chars: "take m (hash_chars bs) = hash_chars (take (5 * m) bs)"
proof (induction m arbitrary: bs)
  case (Suc m)
  show ?case
  proof (cases "length bs < 5")
    case True
    then show ?thesis by (simp add: hash_chars_short)
  next
    case False
    then obtain a b c d e cs where bs: "bs = a # b # c # d # e # cs"
      by (cases bs rule: hash_chars.cases) auto
    then show ?thesis using Suc.IH[of cs] by (simp add: numeral_eq_Suc)
  qed
qed simp

subsection \<open>Decoding as a list of bits\<close>

lemma decode_char_bits:
  assumes "length bs = 5"
  shows "decode_char (val bs) 16 e = refine bs e"
proof -
  obtain a b c d f where bs: "bs = [a, b, c, d, f]"
    using assms by (auto simp: numeral_eq_Suc length_Suc_conv)
  have loop: "decode_char v 16 e = refine [v AND 16 \<noteq> 0, v AND 8 \<noteq> 0, v AND 4 \<noteq> 0, v AND 2 \<noteq> 0, v AND 1 \<noteq> 0] e" for v
    by (simp add: decode_char.simps)
  show ?thesis unfolding loop bs by (cases a; cases b; cases c; cases d; cases f; simp add: val_def)
qed

lemma distinct_base32: "distinct base32"
  by (simp add: base32_def)

lemma decodeMap_nth: "i < 32 \<Longrightarrow> decodeMap (base32 ! i) = Some (int i)"
  using map_of_zip_nth[OF _ distinct_base32, of "map int [0..<length base32]" i] by (simp add: decodeMap_def length_base32)

lemma decodeMap_SomeE:
  assumes "decodeMap c = Some v"
  obtains i where "i < 32" and "v = int i" and "c = base32 ! i"
proof -
  have "(c, v) \<in> set (zip base32 (map int [0..<length base32]))" using assms by (auto simp: decodeMap_def dest: map_of_SomeD)
  then show thesis using that by (auto simp: set_zip length_base32)
qed

definition bits5 :: "nat \<Rightarrow> bool list" where
  "bits5 i = [odd (i div 16), odd (i div 8), odd (i div 4), odd (i div 2), odd i]"

lemma val_bits5: "i < 32 \<Longrightarrow> val (bits5 i) = int i"
proof -
  assume "i < 32"
  then have "\<forall>i \<in> {0..<32}. val (bits5 i) = int i \<Longrightarrow> ?thesis" by simp
  moreover have "\<forall>i \<in> {0..<32}. val (bits5 i) = int i"
    by (simp add: val_def bits5_def atLeastLessThan_nat_numeral)
  ultimately show ?thesis by blast
qed

lemma length_bits5 [simp]: "length (bits5 i) = 5"
  by (simp add: bits5_def)

lemma decode_loop_chars: "5 dvd length bs \<Longrightarrow> decode_loop (hash_chars bs) e = Inr (snd (refine bs e))"
proof (induction bs arbitrary: e rule: hash_chars.induct)
  case (1 a b c d f bs)
  let ?w = "[a, b, c, d, f]"
  have "nat (val ?w) < 32" "0 \<le> val ?w" using val_range[of ?w] by (auto simp: nat_less_iff)
  then have "decodeMap (base32 ! nat (val ?w)) = Some (val ?w)" by (simp add: decodeMap_nth)
  then have "decode_loop (hash_chars (a # b # c # d # f # bs)) e = decode_loop (hash_chars bs) (refine ?w e)"
    using decode_char_bits[of ?w e] by simp
  moreover have "5 dvd length bs" using "1.prems" by simp presburger
  ultimately show ?case using "1.IH"[of "refine ?w e"] by simp
qed (simp_all, presburger+)

lemma decode_loop_hash:
  assumes "decode_loop h e = Inr box"
  obtains bs where "length bs = 5 * length h" and "h = hash_chars bs"
  using assms
proof (induction h arbitrary: e thesis)
  case (Cons c h)
  obtain v where v: "decodeMap c = Some v" "decode_loop h (decode_char v 16 e) = Inr box"
    using Cons.prems(2) by (auto split: option.splits)
  obtain i where i: "i < 32" "v = int i" "c = base32 ! i" using v(1) by (rule decodeMap_SomeE)
  obtain bs where "length bs = 5 * length h" "h = hash_chars bs" using Cons.IH[OF _ v(2)] by blast
  then show ?case
    using Cons.prems(1)[of "bits5 i @ bs"] hash_chars_append5[of "bits5 i" bs] val_bits5[OF i(1)] i by simp
qed simp

lemma Decode_bits:
  "length bs = 5 * n \<Longrightarrow> Decode (hash_chars bs) = Inr (snd (refine bs (True, world)))"
  by (simp add: Decode_def decode_loop_chars)

lemma Decode_hash:
  assumes "Decode h = Inr box"
  obtains bs where "length bs = 5 * length h" and "h = hash_chars bs" and "box = snd (refine bs (True, world))"
proof -
  obtain bs where bs: "length bs = 5 * length h" "h = hash_chars bs"
    using assms unfolding Decode_def by (rule decode_loop_hash)
  then show thesis using that assms Decode_bits[of bs "length h"] by simp
qed

subsection \<open>Points inside a cell have its bits\<close>

definition proper :: "Box \<Rightarrow> bool" where
  "proper b \<longleftrightarrow> MinLat b < MaxLat b \<and> MinLng b < MaxLng b"

definition inside :: "rat \<Rightarrow> rat \<Rightarrow> Box \<Rightarrow> bool" where
  "inside lat lng b \<longleftrightarrow> MinLat b < lat \<and> lat < MaxLat b \<and> MinLng b < lng \<and> lng < MaxLng b"

definition box_le :: "Box \<Rightarrow> Box \<Rightarrow> bool" where
  "box_le a b \<longleftrightarrow> MinLat b \<le> MinLat a \<and> MaxLat a \<le> MaxLat b \<and> MinLng b \<le> MinLng a \<and> MaxLng a \<le> MaxLng b"

lemma box_le_refl [simp]: "box_le b b" and box_le_trans: "box_le a b \<Longrightarrow> box_le b c \<Longrightarrow> box_le a c"
  by (auto simp: box_le_def)

lemma proper_world: "proper world"
  by (simp add: proper_def world_def)

lemma decode_bit_proper:
  assumes "proper (snd e)"
  shows "proper (snd (decode_bit u e))" and "box_le (snd (decode_bit u e)) (snd e)"
    and "inside lat lng (snd (decode_bit u e)) \<Longrightarrow> goes_up lat lng e = u"
  using assms by (auto simp: proper_def decode_bit_def box_le_def inside_def goes_up_def Let_def split: prod.splits if_splits)

lemma refine_le: "proper (snd e) \<Longrightarrow> proper (snd (refine bs e)) \<and> box_le (snd (refine bs e)) (snd e)"
proof (induction bs arbitrary: e)
  case (Cons b bs)
  show ?case using Cons.IH[OF decode_bit_proper(1)[OF Cons.prems, of b]] decode_bit_proper(2)[OF Cons.prems, of b]
    by (auto intro: box_le_trans)
qed simp

lemma inside_le: "inside lat lng a \<Longrightarrow> box_le a b \<Longrightarrow> inside lat lng b"
  by (auto simp: inside_def box_le_def)

lemma inside_bits: "proper (snd e) \<Longrightarrow> inside lat lng (snd (refine bs e)) \<Longrightarrow> enc_bits (length bs) lat lng e = bs"
proof (induction bs arbitrary: e)
  case (Cons b bs)
  have p: "proper (snd (decode_bit b e))" by (rule decode_bit_proper(1)[OF Cons.prems(1)])
  have "inside lat lng (snd (decode_bit b e))"
    using inside_le[OF Cons.prems(2)] refine_le[OF p, of bs] by simp
  then have "goes_up lat lng e = b" by (rule decode_bit_proper(3)[OF Cons.prems(1)])
  then show ?case using Cons.IH[OF p] Cons.prems(2) by simp
qed simp

lemma inside_center: "proper b \<Longrightarrow> inside (fst (Center b)) (snd (Center b)) b"
  by (auto simp: inside_def proper_def Center_def)

subsection \<open>The grid of cells\<close>

text \<open>The number of the cell among \<open>2 ^ a\<close> equal parts of a range in which a coordinate is; beyond the ends, the last one.\<close>

definition cell :: "rat \<Rightarrow> rat \<Rightarrow> nat \<Rightarrow> rat \<Rightarrow> int" where
  "cell lo len a x = max 0 (min (2 ^ a - 1) \<lfloor>(x - lo) * 2 ^ a / len\<rfloor>)"

abbreviation lat_cell :: "nat \<Rightarrow> rat \<Rightarrow> int" where "lat_cell \<equiv> cell (-90) 180"
abbreviation lng_cell :: "nat \<Rightarrow> rat \<Rightarrow> int" where "lng_cell \<equiv> cell (-180) 360"

definition grid :: "nat \<Rightarrow> int \<Rightarrow> nat \<Rightarrow> int \<Rightarrow> Box" where
  "grid b i a j = \<lparr>MinLat = -90 + of_int i * 180 / 2 ^ b, MaxLat = -90 + (of_int i + 1) * 180 / 2 ^ b,
     MinLng = -180 + of_int j * 360 / 2 ^ a, MaxLng = -180 + (of_int j + 1) * 360 / 2 ^ a\<rparr>"

lemma cell_range: "0 \<le> cell lo len a x \<and> cell lo len a x \<le> 2 ^ a - 1"
  by (auto simp: cell_def)

lemma cell_zero [simp]: "cell lo len 0 x = 0"
  by (simp add: cell_def)

lemma floor_double: "\<lfloor>2 * y\<rfloor> = 2 * \<lfloor>y\<rfloor> + (if of_int (2 * \<lfloor>y\<rfloor> + 1) \<le> 2 * y then 1 else 0)" for y :: rat
proof -
  have "of_int \<lfloor>y\<rfloor> \<le> y" "y < of_int \<lfloor>y\<rfloor> + 1" by linarith+
  then show ?thesis by (auto intro!: floor_unique)
qed

lemma cell_Suc:
  assumes "0 < len"
  shows "cell lo len (Suc a) x =
    2 * cell lo len a x + of_bool (lo + (2 * of_int (cell lo len a x) + 1) * len / 2 ^ Suc a \<le> x)"
proof -
  define y where "y = (x - lo) * 2 ^ a / len"
  define N :: int where "N = 2 ^ a"
  have N: "1 \<le> N" by (simp add: N_def)
  have c: "cell lo len a x = max 0 (min (N - 1) \<lfloor>y\<rfloor>)" by (simp add: cell_def y_def N_def)
  have c': "cell lo len (Suc a) x = max 0 (min (2 * N - 1) \<lfloor>2 * y\<rfloor>)" by (simp add: cell_def y_def N_def mult_ac)
  have mid: "lo + (2 * of_int k + 1) * len / 2 ^ Suc a \<le> x \<longleftrightarrow> of_int (2 * k + 1) \<le> 2 * y" for k :: int
  proof -
    have "lo + (2 * of_int k + 1) * len / 2 ^ Suc a \<le> x \<longleftrightarrow> (2 * of_int k + 1) * len \<le> (x - lo) * 2 ^ Suc a"
      by (simp add: field_simps)
    also have "\<dots> \<longleftrightarrow> (2 * of_int k + 1) \<le> (x - lo) * 2 ^ Suc a / len" using assms by (simp add: pos_le_divide_eq)
    also have "(x - lo) * 2 ^ Suc a / len = 2 * y" by (simp add: y_def)
    finally show ?thesis by simp
  qed
  show ?thesis
  proof (cases "0 \<le> \<lfloor>y\<rfloor> \<and> \<lfloor>y\<rfloor> < N")
    case True
    then show ?thesis unfolding mid unfolding c c' using floor_double[of y] N by (auto simp: max_def min_def)
  next
    case False
    then consider "\<lfloor>y\<rfloor> < 0" | "N \<le> \<lfloor>y\<rfloor>" by linarith
    then show ?thesis
    proof cases
      case 1
      then have "y < 0" by simp
      then have "\<lfloor>2 * y\<rfloor> \<le> 0" "\<not> of_int (2 * 0 + 1) \<le> 2 * y" by linarith+
      moreover from 1 have "max 0 (min (N - 1) \<lfloor>y\<rfloor>) = 0" by (intro max.absorb1 min.coboundedI2) simp
      moreover from calculation(1) have "max 0 (min (2 * N - 1) \<lfloor>2 * y\<rfloor>) = 0" by (intro max.absorb1 min.coboundedI2)
      ultimately show ?thesis unfolding mid unfolding c c' by simp
    next
      case 2
      then have "of_int N \<le> y" by (simp add: le_floor_iff)
      then have "2 * N \<le> \<lfloor>2 * y\<rfloor>" "of_int (2 * (N - 1) + 1) \<le> 2 * y" by (simp_all add: le_floor_iff)
      then show ?thesis unfolding mid unfolding c c' using 2 N by (simp add: max_def min_def)
    qed
  qed
qed

lemma grid_halves:
  "goes_up lat lng (True, grid b i a j) \<longleftrightarrow> -180 + (2 * of_int j + 1) * 360 / 2 ^ Suc a \<le> lng"
  "goes_up lat lng (False, grid b i a j) \<longleftrightarrow> -90 + (2 * of_int i + 1) * 180 / 2 ^ Suc b \<le> lat"
  "decode_bit u (True, grid b i a j) = (False, grid b i (Suc a) (2 * j + of_bool u))"
  "decode_bit u (False, grid b i a j) = (True, grid (Suc b) (2 * i + of_bool u) a j)"
proof -
  have lng: "(MinLng (grid b i a j) + MaxLng (grid b i a j)) / 2 = -180 + (2 * of_int j + 1) * 360 / 2 ^ Suc a"
    and lat: "(MinLat (grid b i a j) + MaxLat (grid b i a j)) / 2 = -90 + (2 * of_int i + 1) * 180 / 2 ^ Suc b"
    by (simp_all add: grid_def field_simps)
  show "goes_up lat lng (True, grid b i a j) \<longleftrightarrow> -180 + (2 * of_int j + 1) * 360 / 2 ^ Suc a \<le> lng"
    "goes_up lat lng (False, grid b i a j) \<longleftrightarrow> -90 + (2 * of_int i + 1) * 180 / 2 ^ Suc b \<le> lat"
    unfolding goes_up_def prod.case lng lat by simp_all
  show "decode_bit u (True, grid b i a j) = (False, grid b i (Suc a) (2 * j + of_bool u))"
    "decode_bit u (False, grid b i a j) = (True, grid (Suc b) (2 * i + of_bool u) a j)"
    unfolding decode_bit_def prod.case Let_def lng lat by (cases u; simp add: grid_def field_simps)+
qed

lemma refine_grid:
  "refine (enc_bits n lat lng (True, world)) (True, world) =
     (even n, grid (n div 2) (lat_cell (n div 2) lat) ((n + 1) div 2) (lng_cell ((n + 1) div 2) lng))"
proof (induction n)
  case 0
  show ?case by (simp add: grid_def world_def)
next
  case (Suc n)
  let ?b = "n div 2" and ?a = "(n + 1) div 2"
  let ?i = "lat_cell ?b lat" and ?j = "lng_cell ?a lng"
  let ?e = "(even n, grid ?b ?i ?a ?j)"
  have "refine (enc_bits (Suc n) lat lng (True, world)) (True, world) = decode_bit (goes_up lat lng ?e) ?e"
    by (simp only: enc_bits_snoc foldl_append foldl.simps Suc.IH)
  also have "\<dots> = (even (Suc n), grid (Suc n div 2) (lat_cell (Suc n div 2) lat) ((Suc n + 1) div 2) (lng_cell ((Suc n + 1) div 2) lng))"
  proof (cases "even n")
    case True
    then have n: "Suc n div 2 = ?b" "(Suc n + 1) div 2 = Suc ?a" by presburger+
    show ?thesis unfolding n cell_Suc[of 360 "-180" ?a lng, simplified zero_less_numeral, OF TrueI]
      using True by (simp add: grid_halves)
  next
    case False
    then have n: "Suc n div 2 = Suc ?b" "(Suc n + 1) div 2 = ?a" by presburger+
    show ?thesis unfolding n cell_Suc[of 180 "-90" ?b lat, simplified zero_less_numeral, OF TrueI]
      using False by (simp add: grid_halves)
  qed
  finally show ?case .
qed

lemma cell_bounds:
  assumes "0 < len" and "lo \<le> x" and "x \<le> lo + len"
  shows "lo + of_int (cell lo len a x) * len / 2 ^ a \<le> x" and "x \<le> lo + (of_int (cell lo len a x) + 1) * len / 2 ^ a"
proof -
  define y where "y = (x - lo) * 2 ^ a / len"
  have x: "x = lo + y * len / 2 ^ a" using assms(1) by (simp add: y_def)
  have y: "0 \<le> y" "y \<le> of_int (2 ^ a)" using assms by (simp_all add: y_def pos_divide_le_eq)
  have c: "cell lo len a x = max 0 (min (2 ^ a - 1) \<lfloor>y\<rfloor>)" by (simp add: cell_def y_def)
  define N :: int where "N = 2 ^ a"
  have N: "0 < N" "y \<le> of_int N" using y(2) by (simp_all add: N_def)
  have "of_int (cell lo len a x) \<le> y \<and> y \<le> of_int (cell lo len a x) + 1"
  proof (cases "\<lfloor>y\<rfloor> < N")
    case True
    then have "cell lo len a x = \<lfloor>y\<rfloor>" using y(1) unfolding c N_def[symmetric] by simp
    then show ?thesis by simp linarith
  next
    case False
    then have "cell lo len a x = N - 1" using N(1) unfolding c N_def[symmetric] by (simp add: min_def max_def)
    moreover have "of_int N \<le> y" using False by linarith
    ultimately show ?thesis using N(2) by simp
  qed
  then have "of_int (cell lo len a x) * len / 2 ^ a \<le> y * len / 2 ^ a" "y * len / 2 ^ a \<le> (of_int (cell lo len a x) + 1) * len / 2 ^ a"
    using assms(1) by (auto intro!: divide_right_mono mult_right_mono)
  then show "lo + of_int (cell lo len a x) * len / 2 ^ a \<le> x" "x \<le> lo + (of_int (cell lo len a x) + 1) * len / 2 ^ a"
    unfolding x by simp_all
qed

lemma grid_size: "MaxLat (grid b i a j) - MinLat (grid b i a j) = 180 / 2 ^ b" "MaxLng (grid b i a j) - MinLng (grid b i a j) = 360 / 2 ^ a"
  by (simp_all add: grid_def field_simps)

lemma mid_error: "a \<le> x \<Longrightarrow> x \<le> b \<Longrightarrow> \<bar>(a + b) / 2 - x\<bar> \<le> (b - a) / 2" for a b x :: rat
  by (simp add: abs_le_iff field_simps)

definition on_earth :: "rat \<Rightarrow> rat \<Rightarrow> bool" where
  "on_earth lat lng \<longleftrightarrow> -90 \<le> lat \<and> lat \<le> 90 \<and> -180 \<le> lng \<and> lng \<le> 180"

text \<open>The bits and the cell of a point, and the box of its geohash.\<close>

lemma Encode_box:
  obtains h where "Encode lat lng p = Some h" and "length h = max 1 (nat p)"
    and "h = hash_chars (enc_bits (5 * max 1 (nat p)) lat lng (True, world))"
    and "Decode h = Inr (grid (5 * max 1 (nat p) div 2) (lat_cell (5 * max 1 (nat p) div 2) lat)
      ((5 * max 1 (nat p) + 1) div 2) (lng_cell ((5 * max 1 (nat p) + 1) div 2) lng))"
proof -
  let ?h = "hash_chars (enc_bits (5 * max 1 (nat p)) lat lng (True, world))"
  have "Decode ?h = Inr (snd (refine (enc_bits (5 * max 1 (nat p)) lat lng (True, world)) (True, world)))"
    by (rule Decode_bits[of _ "max 1 (nat p)"]) simp
  then have "Decode ?h = Inr (grid (5 * max 1 (nat p) div 2) (lat_cell (5 * max 1 (nat p) div 2) lat)
      ((5 * max 1 (nat p) + 1) div 2) (lng_cell ((5 * max 1 (nat p) + 1) div 2) lng))"
    by (simp only: refine_grid snd_conv)
  then show thesis by (rule that[OF Encode_bits, rotated 2]) (simp_all add: length_hash_chars)
qed

text \<open>The geohash of a point decodes to a box that contains the point and whose sides are those of its precision: 180 and 360 degrees
  halved once for every second bit; the point \<open>DecodePoint\<close> returns is no further away than the errors it states.\<close>

theorem geo_decode_encode:
  assumes "on_earth lat lng" and "1 \<le> p"
  shows "\<exists>h box. Encode lat lng p = Some h \<and> int (length h) = p \<and> Decode h = Inr box \<and>
    MinLat box \<le> lat \<and> lat \<le> MaxLat box \<and> MinLng box \<le> lng \<and> lng \<le> MaxLng box \<and>
    MaxLat box - MinLat box = 180 / 2 ^ (5 * nat p div 2) \<and> MaxLng box - MinLng box = 360 / 2 ^ ((5 * nat p + 1) div 2) \<and>
    (\<exists>lat' lng' latErr lngErr. DecodePoint h = Inr (lat', lng', latErr, lngErr) \<and> \<bar>lat' - lat\<bar> \<le> latErr \<and> \<bar>lng' - lng\<bar> \<le> lngErr)"
proof -
  have p: "max 1 (nat p) = nat p" using assms(2) by auto
  obtain h where h: "Encode lat lng p = Some h" "length h = nat p"
    "Decode h = Inr (grid (5 * nat p div 2) (lat_cell (5 * nat p div 2) lat) ((5 * nat p + 1) div 2) (lng_cell ((5 * nat p + 1) div 2) lng))"
    using Encode_box[of lat lng p] unfolding p by metis
  let ?b = "5 * nat p div 2" and ?a = "(5 * nat p + 1) div 2"
  have lat: "-90 + of_int (lat_cell ?b lat) * 180 / 2 ^ ?b \<le> lat" "lat \<le> -90 + (of_int (lat_cell ?b lat) + 1) * 180 / 2 ^ ?b"
    using assms(1) cell_bounds[of 180 "-90" lat ?b] by (simp_all add: on_earth_def)
  have lng: "-180 + of_int (lng_cell ?a lng) * 360 / 2 ^ ?a \<le> lng" "lng \<le> -180 + (of_int (lng_cell ?a lng) + 1) * 360 / 2 ^ ?a"
    using assms(1) cell_bounds[of 360 "-180" lng ?a] by (simp_all add: on_earth_def)
  let ?box = "grid ?b (lat_cell ?b lat) ?a (lng_cell ?a lng)"
  have inb: "MinLat ?box \<le> lat" "lat \<le> MaxLat ?box" "MinLng ?box \<le> lng" "lng \<le> MaxLng ?box"
    using lat lng by (simp_all add: grid_def del: add_divide_distrib)
  have "int (length h) = p" using h(2) assms(2) by simp
  moreover have "DecodePoint h = Inr ((MinLat ?box + MaxLat ?box) / 2, (MinLng ?box + MaxLng ?box) / 2,
      (MaxLat ?box - MinLat ?box) / 2, (MaxLng ?box - MinLng ?box) / 2)"
    using h(3) by (simp add: DecodePoint_def Center_def)
  moreover have "\<bar>(MinLat ?box + MaxLat ?box) / 2 - lat\<bar> \<le> (MaxLat ?box - MinLat ?box) / 2"
    "\<bar>(MinLng ?box + MaxLng ?box) / 2 - lng\<bar> \<le> (MaxLng ?box - MinLng ?box) / 2"
    by (rule mid_error[OF inb(1,2)], rule mid_error[OF inb(3,4)])
  ultimately show ?thesis using h(1,3) grid_size inb by blast
qed

theorem geo_decode_encode_witness:
  "on_earth (515074 / 10000) (- 1278 / 10000) \<and>
    (\<exists>h box. Encode (515074 / 10000) (- 1278 / 10000) 6 = Some h \<and> int (length h) = 6 \<and> Decode h = Inr box \<and>
      MaxLat box - MinLat box = 180 / 2 ^ 15)"
  using geo_decode_encode[of "515074 / 10000" "- 1278 / 10000" 6] by (auto simp: on_earth_def)



text \<open>A prefix is a larger cell: a shorter geohash of a point is a prefix of a longer one, and the box of a hash is within the
  box of each of its prefixes.\<close>

theorem geo_prefix:
  assumes "1 \<le> p" and "p \<le> q"
  shows "(\<exists>h. Encode lat lng q = Some h \<and> Encode lat lng p = Some (take (nat p) h)) \<and>
    (\<forall>h box n. Decode h = Inr box \<longrightarrow> (\<exists>big. Decode (take n h) = Inr big \<and> MinLat big \<le> MinLat box \<and> MaxLat box \<le> MaxLat big \<and>
      MinLng big \<le> MinLng box \<and> MaxLng box \<le> MaxLng big))"
proof (intro conjI allI impI)
  have "max 1 (nat p) = nat p" "max 1 (nat q) = nat q" "5 * nat p \<le> 5 * nat q" using assms by auto
  then show "\<exists>h. Encode lat lng q = Some h \<and> Encode lat lng p = Some (take (nat p) h)"
    unfolding Encode_bits by (simp add: take_hash_chars take_enc_bits)
  fix h box n
  assume "Decode h = Inr box"
  then obtain bs where bs: "length bs = 5 * length h" "h = hash_chars bs" "box = snd (refine bs (True, world))"
    by (rule Decode_hash)
  let ?t = "take (5 * n) bs" and ?d = "drop (5 * n) bs"
  have "length ?t = 5 * min (length h) n" using bs(1) by (simp add: min_def)
  then have "Decode (take n h) = Inr (snd (refine ?t (True, world)))"
    unfolding bs(2) take_hash_chars by (rule Decode_bits)
  moreover have "refine bs (True, world) = refine ?d (refine ?t (True, world))"
    by (metis append_take_drop_id foldl_append)
  then have "box_le box (snd (refine ?t (True, world)))"
    using refine_le[of "(True, world)" ?t] refine_le[of "refine ?t (True, world)" ?d] proper_world bs(3) by simp
  ultimately show "\<exists>big. Decode (take n h) = Inr big \<and> MinLat big \<le> MinLat box \<and> MaxLat box \<le> MaxLat big \<and>
      MinLng big \<le> MinLng box \<and> MaxLng box \<le> MaxLng big" by (auto simp: box_le_def)
qed

theorem geo_prefix_witness:
  "(\<exists>h. Encode 10 20 7 = Some h \<and> Encode 10 20 4 = Some (take 4 h)) \<and> (\<exists>big. Decode (take 2 ''gcpvj'') = Inr big)"
proof -
  have "\<exists>box. Decode ''gcpvj'' = Inr box" by (simp add: Decode_def decodeMap_def base32_def upt_conv_Cons)
  then show ?thesis using geo_prefix[of 4 7 10 20] by fastforce
qed

subsection \<open>Neighbours\<close>

abbreviation geo_hash :: "nat \<Rightarrow> rat \<Rightarrow> rat \<Rightarrow> string" where
  "geo_hash p lat lng \<equiv> hash_chars (enc_bits (5 * p) lat lng (True, world))"

lemma same_cells_same_bits:
  assumes "lat_cell (n div 2) lat = lat_cell (n div 2) lat'" and "lng_cell ((n + 1) div 2) lng = lng_cell ((n + 1) div 2) lng'"
  shows "enc_bits n lat lng (True, world) = enc_bits n lat' lng' (True, world)"
proof -
  let ?bs = "enc_bits n lat lng (True, world)" and ?bs' = "enc_bits n lat' lng' (True, world)"
  have same: "refine ?bs (True, world) = refine ?bs' (True, world)" unfolding refine_grid using assms by simp
  let ?box = "snd (refine ?bs (True, world))"
  have "proper ?box" using refine_le[of "(True, world)" ?bs] proper_world by simp
  then have inw: "inside (fst (Center ?box)) (snd (Center ?box)) ?box" by (rule inside_center)
  have pw: "proper (snd (True, world))" by (simp add: proper_world)
  have "enc_bits (length ?bs) (fst (Center ?box)) (snd (Center ?box)) (True, world) = ?bs"
    by (rule inside_bits[OF pw inw])
  moreover have "enc_bits (length ?bs') (fst (Center ?box)) (snd (Center ?box)) (True, world) = ?bs'"
    by (rule inside_bits[OF pw]) (use inw same in simp)
  ultimately show ?thesis by (simp only: length_enc_bits)
qed

lemma cell_mid: "0 < len \<Longrightarrow> 0 \<le> i \<Longrightarrow> i < 2 ^ a \<Longrightarrow> cell lo len a (lo + (of_int i + 1 / 2) * len / 2 ^ a) = i"
proof -
  assume "0 < len" "0 \<le> i" "i < 2 ^ a"
  then have "(lo + (of_int i + 1 / 2) * len / 2 ^ a - lo) * 2 ^ a / len = of_int i + 1 / 2" by simp
  moreover have "\<lfloor>of_int i + 1 / 2 :: rat\<rfloor> = i" by (rule floor_unique) simp_all
  ultimately show ?thesis using \<open>0 \<le> i\<close> \<open>i < 2 ^ a\<close> unfolding cell_def by simp
qed

lemma clip_near: "\<bar>u - v\<bar> \<le> 1 \<Longrightarrow> 0 \<le> m \<Longrightarrow> \<bar>max 0 (min m u) - max 0 (min m v)\<bar> \<le> 1" for u v m :: int
  by arith

lemma cell_near:
  assumes "0 < len" and "\<bar>x' - x\<bar> < len / 2 ^ a"
  shows "\<bar>cell lo len a x' - cell lo len a x\<bar> \<le> 1"
proof -
  define y y' where "y = (x - lo) * 2 ^ a / len" and "y' = (x' - lo) * 2 ^ a / len"
  have "y' - y = (x' - x) * (2 ^ a / len)" by (simp add: y_def y'_def diff_divide_distrib[symmetric] left_diff_distrib[symmetric])
  then have "\<bar>y' - y\<bar> = \<bar>x' - x\<bar> * (2 ^ a / len)" using assms(1) by (simp add: abs_mult)
  also have "\<dots> < len / 2 ^ a * (2 ^ a / len)" using assms by (intro mult_strict_right_mono) simp_all
  also have "\<dots> = 1" using assms(1) by simp
  finally have "\<bar>\<lfloor>y'\<rfloor> - \<lfloor>y\<rfloor>\<bar> \<le> 1" by linarith
  then show ?thesis unfolding cell_def y_def[symmetric] y'_def[symmetric] by (rule clip_near) simp
qed

lemma cell_ends:
  assumes "0 < len"
  shows "x < lo + len / 2 ^ a \<Longrightarrow> cell lo len a x = 0" and "lo + len - len / 2 ^ a < x \<Longrightarrow> cell lo len a x = 2 ^ a - 1"
proof -
  define y where "y = (x - lo) * 2 ^ a / len"
  define N :: int where "N = 2 ^ a"
  have N: "0 < N" and oN: "of_int N = (2 ^ a :: rat)" by (simp_all add: N_def)
  have c: "cell lo len a x = max 0 (min (N - 1) \<lfloor>y\<rfloor>)" by (simp add: cell_def y_def N_def)
  show "cell lo len a x = 0" if "x < lo + len / 2 ^ a"
  proof -
    have "(x - lo) * 2 ^ a < len" using that by (simp add: field_simps)
    then have "y < 1" using assms by (simp add: y_def pos_divide_less_eq)
    then have "\<lfloor>y\<rfloor> \<le> 0" by linarith
    then show ?thesis unfolding c by (intro max.absorb1 min.coboundedI2)
  qed
  show "cell lo len a x = 2 ^ a - 1" if "lo + len - len / 2 ^ a < x"
  proof -
    have "len * (2 ^ a - 1) < (x - lo) * 2 ^ a" using that by (simp add: field_simps)
    then have "of_int N - 1 < y" using assms unfolding oN y_def by (simp add: pos_less_divide_eq mult.commute)
    then have "N - 1 \<le> \<lfloor>y\<rfloor>" by linarith
    then show ?thesis using N unfolding c N_def by (simp add: min_def max_def)
  qed
qed

lemma wrapLng_simps:
  "-180 \<le> z \<Longrightarrow> z \<le> 180 \<Longrightarrow> wrapLng z = z" "180 < z \<Longrightarrow> z \<le> 540 \<Longrightarrow> wrapLng z = z - 360"
  "-540 \<le> z \<Longrightarrow> z < -180 \<Longrightarrow> wrapLng z = z + 360"
  by (simp_all add: wrapLng_def wrap_down.simps[of z] wrap_down.simps[of "z - 360"] wrap_up.simps[of z] wrap_up.simps[of "z + 360"] wrap_up.simps[of "z - 360"])

lemma encode_all_eq:
  "encode_all ps p = Some (map (\<lambda>(lat, lng). geo_hash (max 1 (nat p)) lat lng) ps)"
  by (induction ps p rule: encode_all.induct) (simp_all add: Encode_bits)

lemma set_offsets: "(dLat, dLng) \<in> set offsets \<longleftrightarrow> dLat \<in> {-1, 0, 1} \<and> dLng \<in> {-1, 0, 1} \<and> \<not> (dLat = 0 \<and> dLng = 0)"
  by (auto simp: offsets_def)

lemma length_offsets: "length offsets = 8"
  by (simp add: offsets_def)

text \<open>The cells of the points that \<open>Neighbors\<close> encodes.\<close>

lemma neighbour_cells:
  assumes "0 \<le> i" "i < 2 ^ b" and "0 \<le> j" "j < 2 ^ a" and "0 \<le> i + d" "i + d < 2 ^ b" and "e \<in> {-1, 0, 1}"
  shows "lat_cell b (clampLat (fst (Center (grid b i a j)) + of_int d * (180 / 2 ^ b))) = i + d"
    and "lng_cell a (wrapLng (snd (Center (grid b i a j)) + of_int e * (360 / 2 ^ a))) = (j + e) mod 2 ^ a"
proof -
  define w :: rat where "w = 360 / 2 ^ a"
  have w: "0 < w" "w \<le> 360" "2 ^ a * w = 360" by (simp_all add: w_def field_simps)
  have lat: "fst (Center (grid b i a j)) + of_int d * (180 / 2 ^ b) = -90 + (of_int (i + d) + 1 / 2) * 180 / 2 ^ b"
    by (simp add: Center_def grid_def field_simps)
  have "(of_int (i + d) + 1 / 2) * 180 / 2 ^ b \<le> (180 :: rat)"
  proof -
    have "of_int (i + d + 1) \<le> (of_int (2 ^ b) :: rat)" using assms(6) by (intro of_int_le_iff[THEN iffD2]) linarith
    then have "(of_int (i + d) + 1 / 2) \<le> (2 ^ b :: rat)" by simp
    then show ?thesis by (simp add: field_simps)
  qed
  moreover have "0 \<le> (of_int (i + d) + 1 / 2) * 180 / (2 ^ b :: rat)" using assms(5) by simp
  ultimately have "clampLat (-90 + (of_int (i + d) + 1 / 2) * 180 / 2 ^ b) = -90 + (of_int (i + d) + 1 / 2) * 180 / 2 ^ b"
    unfolding clampLat_def by linarith
  then show "lat_cell b (clampLat (fst (Center (grid b i a j)) + of_int d * (180 / 2 ^ b))) = i + d"
    unfolding lat using cell_mid[of 180 "i + d" b "-90"] assms(5,6) by simp
  have mid: "lng_cell a (-180 + (of_int k + 1 / 2) * w) = k" if "0 \<le> k" "k < 2 ^ a" for k
    using cell_mid[of 360 k a "-180"] that by (simp add: w_def)
  have range: "0 \<le> (of_int k + 1 / 2) * w \<and> (of_int k + 1 / 2) * w \<le> 360" if "0 \<le> k" "k < 2 ^ a" for k
  proof -
    have "of_int (k + 1) \<le> (of_int (2 ^ a) :: rat)" using that(2) by (intro of_int_le_iff[THEN iffD2]) linarith
    then have "(of_int k + 1 / 2) * w \<le> 2 ^ a * w" using w(1) by (intro mult_right_mono) simp_all
    then show ?thesis using w that(1) by simp
  qed
  have lng: "snd (Center (grid b i a j)) + of_int e * (360 / 2 ^ a) = -180 + (of_int (j + e) + 1 / 2) * w"
    by (simp add: Center_def grid_def w_def field_simps)
  consider "0 \<le> j + e" "j + e < 2 ^ a" | "j + e = -1" "j = 0" | "j + e = 2 ^ a"
    using assms(3,4,7) by auto linarith+
  then show "lng_cell a (wrapLng (snd (Center (grid b i a j)) + of_int e * (360 / 2 ^ a))) = (j + e) mod 2 ^ a"
  proof cases
    case 1
    then have "wrapLng (-180 + (of_int (j + e) + 1 / 2) * w) = -180 + (of_int (j + e) + 1 / 2) * w"
      using range[of "j + e"] by (intro wrapLng_simps(1)) linarith+
    then show ?thesis unfolding lng using mid[of "j + e"] 1 by simp
  next
    case 2
    have "-180 + (of_int (j + e) + 1 / 2) * w = -180 - w / 2" using 2 by simp
    moreover have "wrapLng (-180 - w / 2) = -180 - w / 2 + 360" using w by (intro wrapLng_simps(3)) linarith+
    moreover have "-180 - w / 2 + 360 = -180 + (of_int (2 ^ a - 1) + 1 / 2) * w" using w(3) by (simp add: algebra_simps)
    ultimately have wrap: "wrapLng (-180 + (of_int (j + e) + 1 / 2) * w) = -180 + (of_int (2 ^ a - 1) + 1 / 2) * w" by (simp only:)
    moreover have "(-1) mod 2 ^ a = (2 ^ a - 1 :: int)" by (simp add: zmod_minus1)
    ultimately show ?thesis unfolding lng wrap using mid[of "2 ^ a - 1"] 2 by simp
  next
    case 3
    have "-180 + (of_int (j + e) + 1 / 2) * w = 180 + w / 2" using 3 w(3) by (simp add: algebra_simps)
    moreover have "wrapLng (180 + w / 2) = 180 + w / 2 - 360" using w by (intro wrapLng_simps(2)) linarith+
    moreover have "180 + w / 2 - 360 = -180 + (of_int 0 + 1 / 2) * w" by simp
    ultimately have wrap: "wrapLng (-180 + (of_int (j + e) + 1 / 2) * w) = -180 + (of_int 0 + 1 / 2) * w" by (simp only:)
    then show ?thesis unfolding lng wrap using mid[of 0] 3 by simp
  qed
qed

lemma Neighbors_grid:
  assumes "Decode h = Inr (grid b i a j)"
  shows "Neighbors h = Some (Inr (map (\<lambda>(d, e). geo_hash (max 1 (length h))
      (clampLat (fst (Center (grid b i a j)) + of_int d * (180 / 2 ^ b))) (wrapLng (snd (Center (grid b i a j)) + of_int e * (360 / 2 ^ a)))) offsets))"
  using assms by (simp add: Neighbors_def encode_all_eq grid_size Let_def split_def comp_def)

lemma near_cells:
  assumes "on_earth lat lng" and "on_earth lat2 lng2" and "\<bar>lat2 - lat\<bar> < 180 / 2 ^ b"
    and "\<exists>k \<in> {-1, 0, 1}. \<bar>lng2 + 360 * k - lng\<bar> < 360 / 2 ^ a"
  obtains d e where "d \<in> {-1, 0, 1}" and "e \<in> {-1, 0, 1}" and "lat_cell b lat2 = lat_cell b lat + d"
    and "lng_cell a lng2 = (lng_cell a lng + e) mod 2 ^ a"
proof -
  have "\<bar>lat_cell b lat2 - lat_cell b lat\<bar> \<le> 1" by (rule cell_near) (use assms(3) in simp_all)
  then have d: "lat_cell b lat2 - lat_cell b lat \<in> {-1, 0, 1}" by auto
  have "\<exists>e \<in> {-1, 0, 1}. lng_cell a lng2 = (lng_cell a lng + e) mod 2 ^ a"
  proof -
    obtain k where k: "k \<in> {-1, 0, 1 :: rat}" "\<bar>lng2 + 360 * k - lng\<bar> < 360 / 2 ^ a" using assms(4) by blast
    consider "k = 0" | "k = 1" | "k = -1" using k(1) by auto
    then show ?thesis
    proof cases
      case 1
      then have "\<bar>lng_cell a lng2 - lng_cell a lng\<bar> \<le> 1" by (intro cell_near) (use k(2) in simp_all)
      then have "lng_cell a lng2 - lng_cell a lng \<in> {-1, 0, 1}" by auto
      moreover have "lng_cell a lng2 mod 2 ^ a = lng_cell a lng2" using cell_range[of "-180" 360 a lng2] by simp
      ultimately show ?thesis by (intro bexI[of _ "lng_cell a lng2 - lng_cell a lng"]) simp_all
    next
      case 2
      then have "lng2 < -180 + 360 / 2 ^ a" "-180 + 360 - 360 / 2 ^ a < lng" using k(2) assms(1,2) by (auto simp: on_earth_def)
      then have "lng_cell a lng2 = 0" "lng_cell a lng = 2 ^ a - 1" using cell_ends[of 360] by simp_all
      then show ?thesis by (intro bexI[of _ 1]) simp_all
    next
      case 3
      then have "lng < -180 + 360 / 2 ^ a" "-180 + 360 - 360 / 2 ^ a < lng2" using k(2) assms(1,2) by (auto simp: on_earth_def)
      then have "lng_cell a lng = 0" "lng_cell a lng2 = 2 ^ a - 1" using cell_ends[of 360] by simp_all
      then show ?thesis by (intro bexI[of _ "-1"]) (simp_all add: zmod_minus1)
    qed
  qed
  then show thesis using that d by (metis add.commute diff_add_cancel)
qed



text \<open>At a pole the neighbours of a cell are neither distinct nor without the cell itself, because the latitude is clamped back into
  the top row.\<close>

theorem geo_neighbors_at_pole:
  "Neighbors ''u'' = Some (Inr [''g'', ''u'', ''v'', ''g'', ''v'', ''e'', ''s'', ''t''])"
proof -
  have box: "Decode ''u'' = Inr (grid 2 3 3 4)"
    by (simp add: Decode_def decodeMap_def base32_def upt_conv_Cons decode_char.simps decode_bit_def world_def grid_def Let_def)
  have center: "Center (grid 2 3 3 4) = (135 / 2, 45 / 2)" by (simp add: Center_def grid_def)
  have points: "map (\<lambda>(d, e). (clampLat (135 / 2 + of_int d * (180 / 2 ^ 2)), wrapLng (45 / 2 + of_int e * (360 / 2 ^ 3)))) offsets =
      [(90, -45 / 2), (90, 45 / 2), (90, 135 / 2), (135 / 2, -45 / 2), (135 / 2, 135 / 2), (45 / 2, -45 / 2), (45 / 2, 45 / 2), (45 / 2, 135 / 2)]"
    by (simp add: offsets_def clampLat_def wrapLng_simps)
  have encs: "encode_all [(90, -45 / 2), (90, 45 / 2), (90, 135 / 2), (135 / 2, -45 / 2), (135 / 2, 135 / 2), (45 / 2, -45 / 2), (45 / 2, 45 / 2), (45 / 2, 135 / 2)] 1 =
      Some [''g'', ''u'', ''v'', ''g'', ''v'', ''e'', ''s'', ''t'']"
    by (simp add: Encode_def encode_loop.simps encode_bit_def nth_opt_def base32_def)
  have "Neighbors ''u'' = do { out \<leftarrow> encode_all (map (\<lambda>(d, e). (clampLat (135 / 2 + of_int d * (180 / 2 ^ 2)),
      wrapLng (45 / 2 + of_int e * (360 / 2 ^ 3)))) offsets) (int (length ''u'')); Some (Inr out) }"
    unfolding Neighbors_def box sum.case center prod.case grid_size Let_def ..
  also have "\<dots> = Some (Inr [''g'', ''u'', ''v'', ''g'', ''v'', ''e'', ''s'', ''t''])"
    unfolding points using encs by simp
  finally show ?thesis .
qed

lemma CommonPrefix_lcp: "CommonPrefix a b = length (longest_common_prefix a b)"
  by (induction a b rule: CommonPrefix.induct) auto

text \<open>The empty hash is valid for \<open>Decode\<close>, but its neighbours have one character.\<close>

theorem geo_empty_hash: "\<exists>ns. Neighbors '''' = Some (Inr ns) \<and> (\<forall>n \<in> set ns. length n = 1)"
proof -
  have "Decode '''' = Inr (grid 0 0 0 0)" by (simp add: Decode_def world_def grid_def)
  then show ?thesis by (auto simp: Neighbors_grid length_hash_chars)
qed

end
