(* ===== verification/Haversine.thy ===== *)
theory Haversine
  imports Prelude
begin

text \<open>
  The distance of two points of the sphere (\<open>Haversine\<close> in \<^verbatim>\<open>code/geohash/geohash.go\<close>), with real numbers for the floats: rounding is not
  modelled.  The formula of the code, which half-angles keep accurate for near points, is compared with the angle between the two points
  as vectors of the unit sphere.
\<close>

subsection \<open>The formula\<close>

definition earthRadius :: real where
  "earthRadius = 6371000"

definition toRad :: "real \<Rightarrow> real" where
  "toRad d = d * pi / 180"

text \<open>\<open>math.Atan2\<close>, but for the sign of a zero.\<close>

definition Atan2 :: "real \<Rightarrow> real \<Rightarrow> real" where
  "Atan2 y x =
     (if x > 0 then arctan (y / x)
      else if x < 0 then (if y \<ge> 0 then arctan (y / x) + pi else arctan (y / x) - pi)
      else if y > 0 then pi / 2 else if y < 0 then - (pi / 2) else 0)"

definition haversine_a :: "real \<Rightarrow> real \<Rightarrow> real \<Rightarrow> real \<Rightarrow> real" where
  "haversine_a lat1 lng1 lat2 lng2 =
     (let dLat = toRad (lat2 - lat1); dLng = toRad (lng2 - lng1)
      in sin (dLat / 2) * sin (dLat / 2) + cos (toRad lat1) * cos (toRad lat2) * sin (dLng / 2) * sin (dLng / 2))"

definition Haversine :: "real \<Rightarrow> real \<Rightarrow> real \<Rightarrow> real \<Rightarrow> real" where
  "Haversine lat1 lng1 lat2 lng2 =
     (let a = haversine_a lat1 lng1 lat2 lng2 in earthRadius * 2 * Atan2 (sqrt a) (sqrt (1 - a)))"

subsection \<open>The angle between two points\<close>

text \<open>A point of the unit sphere as a vector, and the scalar product.\<close>

type_synonym vec = "real \<times> real \<times> real"

definition on_sphere :: "real \<Rightarrow> real \<Rightarrow> vec" where
  "on_sphere lat lng =
     (cos (toRad lat) * cos (toRad lng), cos (toRad lat) * sin (toRad lng), sin (toRad lat))"

definition dot :: "vec \<Rightarrow> vec \<Rightarrow> real" where
  "dot u v = fst u * fst v + fst (snd u) * fst (snd v) + snd (snd u) * snd (snd v)"

lemma dot_commute: "dot u v = dot v u"
  by (simp add: dot_def mult.commute)

lemma dot_self: "dot (on_sphere lat lng) (on_sphere lat lng) = 1"
proof -
  have "dot (on_sphere lat lng) (on_sphere lat lng) =
      (cos (toRad lat))\<^sup>2 * ((cos (toRad lng))\<^sup>2 + (sin (toRad lng))\<^sup>2) + (sin (toRad lat))\<^sup>2"
    unfolding dot_def on_sphere_def fst_conv snd_conv by algebra
  then show ?thesis by simp
qed

text \<open>For unit vectors the product is between -1 and 1.\<close>

lemma dot_bounds:
  assumes "dot u u = 1" "dot v v = 1"
  shows "\<bar>dot u v\<bar> \<le> 1"
proof -
  obtain a b c where u: "u = (a, b, c)" by (cases u)
  obtain x y z where v: "v = (x, y, z)" by (cases v)
  have "0 \<le> (a - x)\<^sup>2 + (b - y)\<^sup>2 + (c - z)\<^sup>2" "0 \<le> (a + x)\<^sup>2 + (b + y)\<^sup>2 + (c + z)\<^sup>2" by simp_all
  moreover have "(a - x)\<^sup>2 + (b - y)\<^sup>2 + (c - z)\<^sup>2 = dot u u + dot v v - 2 * dot u v"
    by (simp add: u v dot_def power2_eq_square algebra_simps)
  moreover have "(a + x)\<^sup>2 + (b + y)\<^sup>2 + (c + z)\<^sup>2 = dot u u + dot v v + 2 * dot u v"
    by (simp add: u v dot_def power2_eq_square algebra_simps)
  ultimately show ?thesis using assms by (simp add: abs_le_iff)
qed

lemma sin_half_sq: "sin (x / 2) * sin (x / 2) = (1 - cos x) / (2 :: real)"
  using cos_double_sin[of "x / 2"] by (simp add: power2_eq_square)

lemma haversine_a_dot: "haversine_a lat1 lng1 lat2 lng2 = (1 - dot (on_sphere lat1 lng1) (on_sphere lat2 lng2)) / 2"
proof -
  have "toRad (lat2 - lat1) = toRad lat2 - toRad lat1" "toRad (lng2 - lng1) = toRad lng2 - toRad lng1"
    by (simp_all add: toRad_def left_diff_distrib diff_divide_distrib)
  then show ?thesis
    by (simp add: haversine_a_def Let_def mult.assoc sin_half_sq) (simp add: cos_diff dot_def on_sphere_def field_simps)
qed

lemma Atan2_half_angle:
  assumes "0 \<le> t" "t \<le> pi / 2"
  shows "Atan2 (sin t) (cos t) = t"
proof (cases "t = pi / 2")
  case True
  show ?thesis unfolding True by (simp add: Atan2_def)
next
  case False
  then have "0 < cos t" "arctan (tan t) = t" using assms by (auto intro!: cos_gt_zero_pi arctan_tan)
  then show ?thesis by (simp add: Atan2_def tan_def)
qed

lemma Haversine_arccos: "Haversine lat1 lng1 lat2 lng2 = earthRadius * arccos (dot (on_sphere lat1 lng1) (on_sphere lat2 lng2))"
proof -
  define D where "D = dot (on_sphere lat1 lng1) (on_sphere lat2 lng2)"
  define t where "t = arccos D / 2"
  have D: "\<bar>D\<bar> \<le> 1" unfolding D_def by (rule dot_bounds) (rule dot_self)+
  then have t: "0 \<le> t" "t \<le> pi / 2" "cos (2 * t) = D"
    unfolding t_def by (auto simp: abs_le_iff arccos_lbound arccos_ubound)
  then have "0 \<le> sin t" "0 \<le> cos t" by (auto intro!: sin_ge_zero cos_ge_zero)
  then have "sqrt ((1 - D) / 2) = sin t" "sqrt (1 - (1 - D) / 2) = cos t"
    using t(3) cos_double_sin[of t] cos_double_cos[of t] by (auto intro!: real_sqrt_unique simp: field_simps)
  then have "Haversine lat1 lng1 lat2 lng2 = earthRadius * 2 * Atan2 (sin t) (cos t)"
    by (simp add: Haversine_def Let_def haversine_a_dot D_def)
  then show ?thesis using Atan2_half_angle[OF t(1,2)] by (simp add: t_def D_def)
qed

text \<open>The distance is the angle between the two points as vectors of the unit sphere times the radius of the earth: it is symmetric, between
  zero and half the circumference, and zero from a point to itself.\<close>

theorem haversine_great_circle:
  "Haversine lat1 lng1 lat2 lng2 = earthRadius * arccos (dot (on_sphere lat1 lng1) (on_sphere lat2 lng2)) \<and>
   Haversine lat1 lng1 lat2 lng2 = Haversine lat2 lng2 lat1 lng1 \<and>
   0 \<le> Haversine lat1 lng1 lat2 lng2 \<and> Haversine lat1 lng1 lat2 lng2 \<le> earthRadius * pi \<and> Haversine lat1 lng1 lat1 lng1 = 0"
proof -
  have "\<bar>dot (on_sphere lat1 lng1) (on_sphere lat2 lng2)\<bar> \<le> 1" by (rule dot_bounds) (rule dot_self)+
  then have "0 \<le> arccos (dot (on_sphere lat1 lng1) (on_sphere lat2 lng2))"
    "arccos (dot (on_sphere lat1 lng1) (on_sphere lat2 lng2)) \<le> pi"
    by (auto simp: abs_le_iff arccos_lbound arccos_ubound)
  then show ?thesis
    by (auto simp: Haversine_arccos dot_self earthRadius_def dot_commute[of "on_sphere lat2 lng2"])
qed

text \<open>A degree of latitude is the same distance everywhere; the poles are half the circumference apart.\<close>

lemma haversine_meridian:
  assumes "0 \<le> d" "d \<le> 180"
  shows "Haversine lat lng (lat + d) lng = earthRadius * toRad d"
proof -
  have r: "toRad (lat + d) = toRad lat + toRad d" by (simp add: toRad_def ring_distribs add_divide_distrib)
  have "dot (on_sphere lat lng) (on_sphere (lat + d) lng) =
      cos (toRad lat) * cos (toRad lat + toRad d) * ((cos (toRad lng))\<^sup>2 + (sin (toRad lng))\<^sup>2) + sin (toRad lat) * sin (toRad lat + toRad d)"
    unfolding dot_def on_sphere_def r fst_conv snd_conv by algebra
  also have "\<dots> = cos (toRad lat) * cos (toRad lat + toRad d) + sin (toRad lat) * sin (toRad lat + toRad d)" by simp
  also have "\<dots> = cos ((toRad lat + toRad d) - toRad lat)" by (simp only: cos_diff mult.commute)
  finally have "dot (on_sphere lat lng) (on_sphere (lat + d) lng) = cos (toRad d)" by simp
  moreover have "0 \<le> toRad d" "toRad d \<le> pi" using assms by (auto simp: toRad_def field_simps)
  ultimately show ?thesis by (simp add: Haversine_arccos arccos_cos)
qed

end
