(* ===== verification/SketchSpec.thy ===== *)
theory SketchSpec
  imports Codec "HOL-Library.Monad_Syntax"
begin

text \<open>
  What the three probabilistic structures share: the 64-bit FNV-1a hash of Go's \<^verbatim>\<open>hash/fnv\<close>, adding many items, and the contract
  \<open>set_sketch\<close> of a structure that only remembers the join of what its items mark, so that order and repetitions do not
  matter.
\<close>

definition fnv_write :: "u64 \<Rightarrow> byte list \<Rightarrow> u64" where
  "fnv_write h data = foldl (\<lambda>h c. (h XOR ucast c) * 1099511628211) h data"

definition fnv_offset :: u64 where
  "fnv_offset = 14695981039346656037"

text \<open>The two sums the Bloom filter and the count-min sketch take: of the data, and of the data and a byte more.\<close>

definition fnv_pair :: "byte list \<Rightarrow> u64 \<times> u64" where
  "fnv_pair data = (let h = fnv_write fnv_offset data in (h, fnv_write h [0xff] OR 1))"

fun add_all :: "('a \<Rightarrow> 's \<Rightarrow> 's option) \<Rightarrow> 'a list \<Rightarrow> 's \<Rightarrow> 's option" where
  "add_all add [] s = Some s"
| "add_all add (x # xs) s = do { s1 \<leftarrow> add x s; add_all add xs s1 }"

lemma add_all_append: "add_all add (xs @ ys) s = do { s1 \<leftarrow> add_all add xs s; add_all add ys s1 }"
proof (induction xs arbitrary: s)
  case (Cons x xs)
  then show ?case by (cases "add x s") simp_all
qed simp

locale set_sketch =
  fixes add :: "'a \<Rightarrow> 's \<Rightarrow> 's option"
    and inv :: "'s \<Rightarrow> bool"
    and view :: "'s \<Rightarrow> 'v :: {semilattice_sup, order_bot}"
    and mark :: "'s \<Rightarrow> 'a \<Rightarrow> 'v"
  assumes add_ok: "inv s \<Longrightarrow> \<exists>s'. add x s = Some s' \<and> inv s' \<and> view s' = sup (view s) (mark s x) \<and> mark s' = mark s"
begin

lemma add_all_ok:
  assumes "inv s"
  shows "\<exists>s'. add_all add xs s = Some s' \<and> inv s' \<and> mark s' = mark s \<and> view s' = sup (view s) (foldr (\<lambda>x v. sup (mark s x) v) xs bot)"
  using assms
proof (induction xs arbitrary: s)
  case (Cons x xs)
  obtain s1 where s1: "add x s = Some s1" "inv s1" "view s1 = sup (view s) (mark s x)" "mark s1 = mark s"
    using add_ok[OF Cons.prems] by blast
  with Cons.IH[OF s1(2)] show ?case by (auto simp: sup_assoc)
qed (simp add: sup.absorb1)

lemma marks_le: "foldr (\<lambda>x v. sup (mark s x) v) xs bot \<le> v \<longleftrightarrow> (\<forall>x \<in> set xs. mark s x \<le> v)"
  by (induction xs) auto

lemma same_items:
  assumes "inv s" and "set xs = set ys" and "add_all add xs s = Some s1" and "add_all add ys s = Some s2"
  shows "view s1 = view s2"
proof -
  have "foldr (\<lambda>x v. sup (mark s x) v) xs bot = foldr (\<lambda>x v. sup (mark s x) v) ys bot"
    using marks_le[of s xs] marks_le[of s ys] assms(2) by (intro order_antisym) auto
  then show ?thesis using add_all_ok[OF assms(1), of xs] add_all_ok[OF assms(1), of ys] assms(3,4) by auto
qed

lemma marked:
  assumes "inv s" and "add_all add xs s = Some s'" and "x \<in> set xs"
  shows "mark s x \<le> view s'"
proof -
  have "mark s x \<le> foldr (\<lambda>x v. sup (mark s x) v) xs bot" using marks_le[of s xs] assms(3) by blast
  then show ?thesis using add_all_ok[OF assms(1), of xs] assms(2) by (auto intro: le_supI2)
qed

lemma not_marked:
  assumes "inv s" and "add_all add xs s = Some s'" and "view s \<le> v" and "\<forall>x \<in> set xs. mark s x \<le> v"
  shows "view s' \<le> v"
  using add_all_ok[OF assms(1), of xs] assms marks_le[of s xs v] by auto

end

end
