(* ===== verification/Bloom.thy ===== *)
theory Bloom
  imports SketchSpec
begin

text \<open>
  The Bloom filter (\<^verbatim>\<open>code/bloom_filter/bloom.go\<close>) on 64-bit words.  The sizing formulas are in the reals; an index out of range, a
  division by zero and the constructor's panic are \<open>None\<close>.
\<close>

subsection \<open>The filter\<close>

record BloomFilter =
  bf_bits :: "u64 list"
  bf_m :: u64
  bf_k :: u64
  bf_added :: u64

definition bf_size :: "int \<Rightarrow> real \<Rightarrow> int \<times> int" where
  "bf_size n p =
     (let m = \<lceil>- of_int n * ln p / (ln 2 * ln 2)\<rceil>; k = round (of_int m / of_int n * ln 2 :: real) in (m, if k < 1 then 1 else k))"

definition make_filter :: "u64 \<Rightarrow> u64 \<Rightarrow> BloomFilter" where
  "make_filter m k = \<lparr>bf_bits = replicate (unat ((m + 63) div 64)) 0, bf_m = m, bf_k = k, bf_added = 0\<rparr>"

definition NewBloomFilter :: "int \<Rightarrow> real \<Rightarrow> BloomFilter option" where
  "NewBloomFilter expectedItems falsePositiveRate =
     (let n = (if expectedItems \<le> 0 then 1 else expectedItems) in
      if falsePositiveRate \<le> 0 \<or> falsePositiveRate \<ge> 1 then None
      else case bf_size n falsePositiveRate of (m, k) \<Rightarrow> Some (make_filter (word_of_int m) (word_of_int k)))"

definition bf_hashes :: "byte list \<Rightarrow> u64 \<times> u64" where
  "bf_hashes data = fnv_pair data"

text \<open>The index of probe \<open>i\<close>; the remainder by zero panics.\<close>

definition probe :: "u64 \<Rightarrow> u64 \<Rightarrow> u64 \<Rightarrow> u64 \<Rightarrow> u64 option" where
  "probe h1 h2 i m = (if m = 0 then None else Some ((h1 + i * h2) mod m))"

fun set_probes :: "u64 \<Rightarrow> u64 \<Rightarrow> u64 \<Rightarrow> u64 list \<Rightarrow> u64 list \<Rightarrow> u64 list option" where
  "set_probes h1 h2 m [] bits = Some bits"
| "set_probes h1 h2 m (i # is) bits = do {
     idx \<leftarrow> probe h1 h2 i m;
     w \<leftarrow> nth_opt bits (unat (idx div 64));
     set_probes h1 h2 m is (bits[unat (idx div 64) := w OR push_bit (unat (idx mod 64)) 1]) }"

fun test_probes :: "u64 \<Rightarrow> u64 \<Rightarrow> u64 \<Rightarrow> u64 list \<Rightarrow> u64 list \<Rightarrow> bool option" where
  "test_probes h1 h2 m [] bits = Some True"
| "test_probes h1 h2 m (i # is) bits = do {
     idx \<leftarrow> probe h1 h2 i m;
     w \<leftarrow> nth_opt bits (unat (idx div 64));
     if w AND push_bit (unat (idx mod 64)) 1 = 0 then Some False else test_probes h1 h2 m is bits }"

text \<open>The values of the loop counter.\<close>

definition counters :: "u64 \<Rightarrow> u64 list" where
  "counters k = map word_of_nat [0..<unat k]"

definition bf_Add :: "string \<Rightarrow> BloomFilter \<Rightarrow> BloomFilter option" where
  "bf_Add item b = (case bf_hashes (bytes_of item) of (h1, h2) \<Rightarrow> do {
     bits \<leftarrow> set_probes h1 h2 (bf_m b) (counters (bf_k b)) (bf_bits b);
     Some (b\<lparr>bf_bits := bits, bf_added := bf_added b + 1\<rparr>) })"

definition bf_Contains :: "string \<Rightarrow> BloomFilter \<Rightarrow> bool option" where
  "bf_Contains item b = (case bf_hashes (bytes_of item) of (h1, h2) \<Rightarrow>
     test_probes h1 h2 (bf_m b) (counters (bf_k b)) (bf_bits b))"

definition Bits :: "BloomFilter \<Rightarrow> u64" where "Bits b = bf_m b"
definition HashCount :: "BloomFilter \<Rightarrow> u64" where "HashCount b = bf_k b"
definition bf_SizeBytes :: "BloomFilter \<Rightarrow> u64" where "bf_SizeBytes b = word_of_nat (length (bf_bits b)) * 8"

definition EstimatedFalsePositiveRate :: "BloomFilter \<Rightarrow> real" where
  "EstimatedFalsePositiveRate b =
     (let exponent = - real (unat (bf_k b)) * real (unat (bf_added b)) / real (unat (bf_m b))
      in (1 - exp exponent) ^ unat (bf_k b))"

subsection \<open>The filter as a set of positions\<close>

definition bf_ok :: "BloomFilter \<Rightarrow> bool" where
  "bf_ok b \<longleftrightarrow> bf_m b \<noteq> 0 \<and> unat (bf_m b) \<le> 64 * length (bf_bits b)"

definition bits_set :: "u64 list \<Rightarrow> nat set" where
  "bits_set bits = {j. j < 64 * length bits \<and> bit (bits ! (j div 64)) (j mod 64)}"

definition positions :: "u64 \<Rightarrow> u64 \<Rightarrow> u64 \<Rightarrow> u64 list \<Rightarrow> nat set" where
  "positions h1 h2 m is = (\<lambda>i. unat ((h1 + i * h2) mod m)) ` set is"

definition bf_mark :: "BloomFilter \<Rightarrow> string \<Rightarrow> nat set" where
  "bf_mark b item = (case bf_hashes (bytes_of item) of (h1, h2) \<Rightarrow> positions h1 h2 (bf_m b) (counters (bf_k b)))"

abbreviation bf_set :: "BloomFilter \<Rightarrow> nat set" where
  "bf_set b \<equiv> bits_set (bf_bits b)"

lemma index_parts:
  fixes m :: u64
  assumes "m \<noteq> 0" and "unat m \<le> 64 * length bits"
  shows "unat (x mod m div 64) = unat (x mod m) div 64" and "unat (x mod m mod 64) = unat (x mod m) mod 64"
    and "unat (x mod m) div 64 < length bits" and "unat (x mod m) < 64 * length bits"
proof -
  show "unat (x mod m div 64) = unat (x mod m) div 64" "unat (x mod m mod 64) = unat (x mod m) mod 64"
    by (simp_all add: unat_div unat_mod)
  have "0 < unat m" using assms(1) by (simp add: unat_gt_0)
  then have "unat (x mod m) < unat m" by (simp add: unat_mod)
  then show "unat (x mod m) < 64 * length bits" "unat (x mod m) div 64 < length bits" using assms(2) by simp_all
qed

lemma bits_set_update:
  assumes "j < 64 * length bits"
  shows "bits_set (bits[j div 64 := bits ! (j div 64) OR push_bit (j mod 64) 1]) = insert j (bits_set bits)"
proof -
  have "j div 64 < length bits" using assms by simp
  moreover have same: "i = j" if "j div 64 = i div 64" "i mod 64 = j mod 64" for i
    using that by (metis div_mult_mod_eq)
  moreover have "bit (push_bit (j mod 64) (1 :: u64)) n \<longleftrightarrow> n = j mod 64" if "n < 64" for n
    using that by (auto simp: bit_simps)
  ultimately show ?thesis using assms
    by (auto simp: bits_set_def nth_list_update bit_or_iff simp del: push_bit_of_1 dest: same)
qed

lemma set_probes_set:
  assumes "m \<noteq> 0" and "unat m \<le> 64 * length bits"
  shows "\<exists>bits'. set_probes h1 h2 m is bits = Some bits' \<and> length bits' = length bits \<and>
    bits_set bits' = bits_set bits \<union> positions h1 h2 m is"
  using assms(2)
proof (induction "is" arbitrary: bits)
  case (Cons i "is")
  note ix = index_parts[OF assms(1) Cons.prems, of "h1 + i * h2"]
  let ?j = "unat ((h1 + i * h2) mod m)"
  let ?bits = "bits[?j div 64 := bits ! (?j div 64) OR push_bit (?j mod 64) 1]"
  have "set_probes h1 h2 m (i # is) bits = set_probes h1 h2 m is ?bits"
    using assms(1) ix by (simp add: probe_def nth_opt_def)
  moreover have "bits_set ?bits = insert ?j (bits_set bits)" by (rule bits_set_update[OF ix(4)])
  ultimately show ?case using Cons.IH[of ?bits] Cons.prems by (auto simp: positions_def)
qed (simp add: positions_def)

lemma and_bit_zero: "w AND push_bit n 1 = 0 \<longleftrightarrow> \<not> bit w n" if "n < 64" for w :: u64
  using that by (simp add: bit_iff_and_push_bit_not_eq_0)

lemma test_probes_set:
  assumes "m \<noteq> 0" and "unat m \<le> 64 * length bits"
  shows "test_probes h1 h2 m is bits = Some (positions h1 h2 m is \<subseteq> bits_set bits)"
proof (induction "is")
  case (Cons i "is")
  note ix = index_parts[OF assms, of "h1 + i * h2"]
  let ?j = "unat ((h1 + i * h2) mod m)"
  have "?j \<in> bits_set bits \<longleftrightarrow> bit (bits ! (?j div 64)) (?j mod 64)" using ix(4) by (simp add: bits_set_def)
  then show ?case
    using assms(1) ix Cons.IH and_bit_zero[of "?j mod 64"] by (simp add: probe_def nth_opt_def positions_def)
qed (simp add: positions_def)

lemma bf_Contains_set: "bf_ok b \<Longrightarrow> bf_Contains item b = Some (bf_mark b item \<subseteq> bf_set b)"
  by (simp add: bf_Contains_def bf_mark_def bf_ok_def test_probes_set split: prod.split)

interpretation bloom: set_sketch bf_Add bf_ok bf_set bf_mark
proof
  fix s :: BloomFilter and x :: string
  assume ok: "bf_ok s"
  obtain h1 h2 where h: "bf_hashes (bytes_of x) = (h1, h2)" by fastforce
  obtain bits where "set_probes h1 h2 (bf_m s) (counters (bf_k s)) (bf_bits s) = Some bits" "length bits = length (bf_bits s)"
    "bits_set bits = bits_set (bf_bits s) \<union> positions h1 h2 (bf_m s) (counters (bf_k s))"
    using set_probes_set ok unfolding bf_ok_def by blast
  then show "\<exists>s'. bf_Add x s = Some s' \<and> bf_ok s' \<and> bf_set s' = sup (bf_set s) (bf_mark s x) \<and> bf_mark s' = bf_mark s"
    using ok by (auto simp: bf_Add_def h bf_ok_def bf_mark_def fun_eq_iff)
qed

subsection \<open>Sizing\<close>

lemma bf_size_range:
  assumes "1 \<le> n" and "0 < p" and "p < 1" and "bf_size n p = (m, k)"
  shows "1 \<le> m" and "1 \<le> k" and "k \<le> m"
proof -
  define x :: real where "x = - of_int n * ln p / (ln 2 * ln 2)"
  have "ln p < 0" using assms(2,3) by simp
  then have "of_int n * ln p < 0" using assms(1) by (intro mult_pos_neg) simp_all
  moreover have "0 < ln 2 * ln (2 :: real)" by simp
  ultimately have "0 < x" unfolding x_def by (intro divide_pos_pos) simp_all
  have m: "m = \<lceil>x\<rceil>" and k: "k = (let k = round (of_int m / of_int n * ln 2 :: real) in if k < 1 then 1 else k)"
    using assms(4) unfolding bf_size_def x_def[symmetric] Let_def by auto
  show m1: "1 \<le> m" using \<open>0 < x\<close> by (simp add: m one_le_ceiling)
  show "1 \<le> k" by (simp add: k Let_def)
  have "ln 2 \<le> (1 :: real)" using ln_le_minus_one[of 2] by simp
  moreover have "of_int m / of_int n \<le> (of_int m :: real)" using m1 assms(1) by (simp add: divide_le_eq mult_le_cancel_left1)
  ultimately have "of_int m / of_int n * ln 2 \<le> (of_int m :: real) * 1" using m1 by (intro mult_mono) simp_all
  then have "round (of_int m / of_int n * ln 2 :: real) \<le> m" using round_mono[of "of_int m / of_int n * ln 2" "of_int m :: real"] by simp
  then show "k \<le> m" using m1 by (simp add: k Let_def)
qed

lemma NewBloomFilter_ok:
  assumes "NewBloomFilter n p = Some b" and "fst (bf_size (max 1 n) p) < 2 ^ 64 - 63"
  shows "bf_ok b" and "bf_set b = {}" and "0 < unat (bf_k b)"
proof -
  have p: "0 < p" "p < 1" using assms(1) by (auto simp: NewBloomFilter_def Let_def split: if_splits)
  obtain m k where mk: "bf_size (max 1 n) p = (m, k)" by fastforce
  have n: "(if n \<le> 0 then 1 else n) = max 1 n" by simp
  have b: "b = make_filter (word_of_int m) (word_of_int k)"
    using assms(1) p mk unfolding NewBloomFilter_def Let_def n by simp
  have range: "1 \<le> m" "1 \<le> k" "k \<le> m" using bf_size_range[OF _ p mk] by simp_all
  have m64: "m < 2 ^ 64 - 63" using assms(2) mk by simp
  have um: "unat (word_of_int m :: u64) = nat m" "unat (word_of_int k :: u64) = nat k"
    using range m64 by (simp_all add: unat_eq_nat_uint uint_word_of_int)
  have len: "unat ((word_of_int m + 63 :: u64) div 64) = (nat m + 63) div 64"
  proof -
    have "unat (word_of_int m + 63 :: u64) = nat m + 63"
      using um(1) m64 range by (subst unat_add_lem[THEN iffD1]) simp_all
    then show ?thesis by (simp add: unat_div)
  qed
  show "bf_ok b" using len um(1) range by (auto simp: b bf_ok_def make_filter_def unat_eq_0[symmetric])
  show "bf_set b = {}" by (auto simp: b make_filter_def bits_set_def)
  show "0 < unat (bf_k b)" using um(2) range by (simp add: b make_filter_def)
qed

subsection \<open>Properties\<close>

text \<open>C28: No false negatives.  After adding any items to a new filter, without a panic, \<open>Contains\<close> answers every query, and answers true exactly when each
  position of the item is a position of some added item; so it is true for every added item, and false for all while none is added.\<close>

theorem bloom_no_false_negatives:
  assumes "NewBloomFilter n p = Some b0" and "fst (bf_size (max 1 n) p) < 2 ^ 64 - 63"
  shows "\<exists>b. add_all bf_Add items b0 = Some b \<and>
    (\<forall>x. bf_Contains x b = Some (bf_mark b0 x \<subseteq> (\<Union>y \<in> set items. bf_mark b0 y))) \<and>
    (\<forall>x \<in> set items. bf_Contains x b = Some True) \<and> (items = [] \<longrightarrow> (\<forall>x. bf_Contains x b = Some False))"
proof -
  note ok = NewBloomFilter_ok[OF assms]
  obtain b where b: "add_all bf_Add items b0 = Some b" "bf_ok b" "bf_mark b = bf_mark b0"
    "bf_set b = sup (bf_set b0) (foldr (\<lambda>x v. sup (bf_mark b0 x) v) items bot)"
    using bloom.add_all_ok[OF ok(1), of items] by blast
  have "foldr (\<lambda>x v. sup (bf_mark b0 x) v) items bot = (\<Union>y \<in> set items. bf_mark b0 y)" by (induction items) auto
  then have all: "bf_Contains x b = Some (bf_mark b0 x \<subseteq> (\<Union>y \<in> set items. bf_mark b0 y))" for x
    using bf_Contains_set[OF b(2)] b(3,4) ok(2) by simp
  moreover have "bf_mark b0 x \<noteq> {}" for x
    using ok(3) by (simp add: bf_mark_def positions_def counters_def split: prod.split)
  ultimately show ?thesis using b(1) by (intro exI[of _ b]) auto
qed

theorem bloom_no_false_negatives_witness:
  "\<exists>b0 b. NewBloomFilter 1 (exp (- (4 * (ln 2 * ln 2)))) = Some b0 \<and> add_all bf_Add [''url:1'', ''url:2''] b0 = Some b \<and>
    bf_Contains ''url:1'' b = Some True \<and> bf_Contains ''url:2'' b = Some True"
proof -
  have "fst (bf_size (max 1 1) (exp (- (4 * (ln 2 * ln 2))))) < 2 ^ 64 - 63" by (simp add: bf_size_def Let_def)
  moreover obtain b0 where "NewBloomFilter 1 (exp (- (4 * (ln 2 * ln 2)))) = Some b0"
  proof -
    obtain m k where mk: "bf_size 1 (exp (- (4 * (ln 2 * ln 2)))) = (m, k)" by fastforce
    have "0 < ln 2 * ln (2 :: real)" by simp
    then have "\<not> ln 2 * ln (2 :: real) \<le> 0" by linarith
    then show thesis using that by (simp add: NewBloomFilter_def Let_def mk)
  qed
  ultimately show ?thesis using bloom_no_false_negatives[of 1 _ b0 "[''url:1'', ''url:2'']"] by (metis list.set_intros)
qed

text \<open>The order of the items and repetitions leave no trace in the bits.\<close>

theorem bloom_order_irrelevant:
  assumes "bf_ok b" and "set xs = set ys" and "add_all bf_Add xs b = Some b1" and "add_all bf_Add ys b = Some b2"
  shows "bf_set b1 = bf_set b2"
  using assms by (rule bloom.same_items)

text \<open>The second hash is odd, but it may still be a multiple of the bit count: then all probes of an item are one bit.\<close>

theorem bloom_probes_collapse: "bf_mark (make_filter 5 3) ''b'' = {4}"
proof -
  have bytes: "bytes_of ''b'' = [98]" by (simp add: bytes_of_def byte_of_char_def)
  have "(fnv_offset XOR 98) * 1099511628211 = (12638190499090526629 :: u64)" by (simp add: fnv_offset_def)
  moreover have "(12638190499090526629 XOR 255) * 1099511628211 OR 1 = (623125158404365295 :: u64)" by simp
  ultimately have "bf_hashes (bytes_of ''b'') = (12638190499090526629, 623125158404365295)"
    by (simp add: bf_hashes_def fnv_pair_def fnv_write_def bytes del: fnv_offset_def)
  then show ?thesis
    by (simp add: bf_mark_def make_filter_def positions_def counters_def atLeastLessThan_nat_numeral)
qed

end
