(* ===== verification/CountMin.thy ===== *)
theory CountMin
  imports SketchSpec
begin

text \<open>
  The count-min sketch (\<^verbatim>\<open>code/count_min_sketch/cms.go\<close>) with 64-bit counters that wrap around.  The sizing formulas are in the
  reals; a panic is \<open>None\<close>.  \<open>sort.Slice\<close> leaves the order of equal elements open, so the result of \<open>HeavyHitters\<close> is a predicate.
\<close>

subsection \<open>The sketch\<close>

record CountMinSketch =
  cm_counts :: "u64 list list"
  cm_w :: u64
  cm_d :: u64
  cm_total :: u64

definition make_sketch :: "u64 \<Rightarrow> u64 \<Rightarrow> CountMinSketch" where
  "make_sketch w d = \<lparr>cm_counts = replicate (unat d) (replicate (unat w) 0), cm_w = w, cm_d = d, cm_total = 0\<rparr>"

definition NewCountMinSketch :: "real \<Rightarrow> real \<Rightarrow> CountMinSketch option" where
  "NewCountMinSketch epsilon delta =
     (if epsilon \<le> 0 \<or> epsilon \<ge> 1 then None
      else if delta \<le> 0 \<or> delta \<ge> 1 then None
      else Some (make_sketch (word_of_int \<lceil>exp 1 / epsilon\<rceil>) (word_of_int \<lceil>ln (1 / delta)\<rceil>)))"

definition cm_hashes :: "string \<Rightarrow> u64 \<times> u64" where
  "cm_hashes item = fnv_pair (bytes_of item)"

text \<open>The column of an item in row \<open>i\<close>; the remainder by zero panics.\<close>

definition column :: "u64 \<Rightarrow> string \<Rightarrow> u64 \<Rightarrow> u64 option" where
  "column w item i = (case cm_hashes item of (h1, h2) \<Rightarrow> if w = 0 then None else Some ((h1 + i * h2) mod w))"

definition rows :: "u64 \<Rightarrow> nat list" where
  "rows d = [0..<unat d]"

fun add_rows :: "u64 \<Rightarrow> string \<Rightarrow> u64 \<Rightarrow> nat list \<Rightarrow> u64 list list \<Rightarrow> u64 list list option" where
  "add_rows w item n [] counts = Some counts"
| "add_rows w item n (i # is) counts = do {
     row \<leftarrow> nth_opt counts i;
     j \<leftarrow> column w item (word_of_nat i);
     v \<leftarrow> nth_opt row (unat j);
     add_rows w item n is (counts[i := row[unat j := v + n]]) }"

definition cm_Add :: "string \<times> u64 \<Rightarrow> CountMinSketch \<Rightarrow> CountMinSketch option" where
  "cm_Add ic c = (case ic of (item, n) \<Rightarrow> do {
     counts \<leftarrow> add_rows (cm_w c) item n (rows (cm_d c)) (cm_counts c);
     Some (c\<lparr>cm_counts := counts, cm_total := cm_total c + n\<rparr>) })"

fun min_rows :: "u64 \<Rightarrow> string \<Rightarrow> u64 list list \<Rightarrow> nat list \<Rightarrow> u64 \<Rightarrow> u64 option" where
  "min_rows w item counts [] m = Some m"
| "min_rows w item counts (i # is) m = do {
     row \<leftarrow> nth_opt counts i;
     j \<leftarrow> column w item (word_of_nat i);
     v \<leftarrow> nth_opt row (unat j);
     min_rows w item counts is (if v < m then v else m) }"

definition cm_Estimate :: "string \<Rightarrow> CountMinSketch \<Rightarrow> u64 option" where
  "cm_Estimate item c = min_rows (cm_w c) item (cm_counts c) (rows (cm_d c)) (-1)"

definition cm_Total :: "CountMinSketch \<Rightarrow> u64" where "cm_Total c = cm_total c"
definition cm_Width :: "CountMinSketch \<Rightarrow> u64" where "cm_Width c = cm_w c"
definition cm_Depth :: "CountMinSketch \<Rightarrow> u64" where "cm_Depth c = cm_d c"
definition cm_SizeBytes :: "CountMinSketch \<Rightarrow> u64" where "cm_SizeBytes c = cm_w c * cm_d c * 8"

definition cm_ErrorBound :: "CountMinSketch \<Rightarrow> real" where
  "cm_ErrorBound c = exp 1 / real (unat (cm_w c)) * real (unat (cm_total c))"

definition heavy :: "rat \<Rightarrow> CountMinSketch \<Rightarrow> string \<Rightarrow> bool" where
  "heavy fraction c k = (case cm_Estimate k c of
     None \<Rightarrow> False
   | Some v \<Rightarrow> v \<ge> word_of_int \<lfloor>fraction * of_nat (unat (cm_total c))\<rfloor>)"

definition cm_HeavyHitters :: "string list \<Rightarrow> rat \<Rightarrow> CountMinSketch \<Rightarrow> string list \<Rightarrow> bool" where
  "cm_HeavyHitters candidates fraction c out \<longleftrightarrow>
     mset out = mset (filter (heavy fraction c) candidates) \<and>
     sorted_wrt (\<lambda>a b. the (cm_Estimate a c) \<ge> the (cm_Estimate b c)) out"

subsection \<open>Counters as sums\<close>

definition cm_ok :: "CountMinSketch \<Rightarrow> bool" where
  "cm_ok c \<longleftrightarrow> cm_w c \<noteq> 0 \<and> length (cm_counts c) = unat (cm_d c) \<and> (\<forall>row \<in> set (cm_counts c). length row = unat (cm_w c))"

definition col :: "u64 \<Rightarrow> string \<Rightarrow> nat \<Rightarrow> nat" where
  "col w item i = unat (the (column w item (word_of_nat i)))"

lemma column_some: "w \<noteq> 0 \<Longrightarrow> column w item (word_of_nat i) = Some (word_of_nat (col w item i)) \<and> col w item i < unat w"
proof -
  assume "w \<noteq> 0"
  moreover from this have "0 < unat w" by (simp add: unat_gt_0)
  ultimately show ?thesis by (auto simp: column_def col_def unat_mod split: prod.split)
qed

abbreviation counter :: "u64 list list \<Rightarrow> nat \<Rightarrow> nat \<Rightarrow> u64" where
  "counter counts i j \<equiv> counts ! i ! j"

lemma add_rows_counts:
  assumes "w \<noteq> 0" and "\<forall>row \<in> set counts. length row = unat w" and "distinct is" and "\<forall>i \<in> set is. i < length counts"
  shows "\<exists>counts'. add_rows w item n is counts = Some counts' \<and> length counts' = length counts \<and>
    (\<forall>row \<in> set counts'. length row = unat w) \<and>
    (\<forall>i j. i < length counts \<longrightarrow> j < unat w \<longrightarrow>
      counter counts' i j = counter counts i j + (if i \<in> set is \<and> j = col w item i then n else 0))"
  using assms(2-4)
proof (induction "is" arbitrary: counts)
  case (Cons i "is")
  note c = column_some[OF assms(1), of item i]
  have i: "i < length counts" using Cons.prems(3) by simp
  then have row: "length (counts ! i) = unat w" using Cons.prems(1) by simp
  let ?counts = "counts[i := (counts ! i)[col w item i := counter counts i (col w item i) + n]]"
  have col: "unat (word_of_nat (col w item i) :: u64) = col w item i"
    using c by (simp add: unat_of_nat col_def take_bit_nat_eq_self_iff)
  have step: "add_rows w item n (i # is) counts = add_rows w item n is ?counts"
    using i c row col by (simp add: nth_opt_def)
  have "\<forall>row \<in> set ?counts. length row = unat w"
    using Cons.prems(1) row by (auto dest: set_update_subset_insert[THEN subsetD])
  then obtain counts' where counts': "add_rows w item n is ?counts = Some counts'" "length counts' = length counts"
    "\<forall>row \<in> set counts'. length row = unat w"
    "\<And>k j. k < length counts \<Longrightarrow> j < unat w \<Longrightarrow>
      counter counts' k j = counter ?counts k j + (if k \<in> set is \<and> j = col w item k then n else 0)"
    using Cons.IH[of ?counts] Cons.prems(2,3) by auto
  have "counter counts' k j = counter counts k j + (if k \<in> set (i # is) \<and> j = col w item k then n else 0)"
    if "k < length counts" "j < unat w" for k j
    using counts'(4)[OF that] that Cons.prems(2) row i by (auto simp: nth_list_update)
  then show ?case using step counts' by auto
qed simp

text \<open>What a stream of additions gives to the counter \<open>(i, j)\<close>: the sum of all counts of items of this column.\<close>

definition load :: "u64 \<Rightarrow> (string \<times> u64) list \<Rightarrow> nat \<Rightarrow> nat \<Rightarrow> nat" where
  "load w adds i j = (\<Sum>(y, n) \<leftarrow> adds. if col w y i = j then unat n else 0)"

definition true_count :: "string \<Rightarrow> (string \<times> u64) list \<Rightarrow> nat" where
  "true_count x adds = (\<Sum>(y, n) \<leftarrow> adds. if y = x then unat n else 0)"

definition stream_total :: "(string \<times> u64) list \<Rightarrow> nat" where
  "stream_total adds = (\<Sum>(y, n) \<leftarrow> adds. unat n)"

lemma load_bounds: "true_count x adds \<le> load w adds i (col w x i)" "load w adds i j \<le> stream_total adds"
  by (induction adds) (auto simp: true_count_def load_def stream_total_def)

lemma cm_Add_ok:
  assumes "cm_ok c"
  shows "\<exists>c'. cm_Add (y, n) c = Some c' \<and> cm_ok c' \<and> cm_w c' = cm_w c \<and> cm_d c' = cm_d c \<and> cm_total c' = cm_total c + n \<and>
    (\<forall>i j. i < unat (cm_d c) \<longrightarrow> j < unat (cm_w c) \<longrightarrow>
      counter (cm_counts c') i j = counter (cm_counts c) i j + (if col (cm_w c) y i = j then n else 0))"
  using add_rows_counts[of "cm_w c" "cm_counts c" "rows (cm_d c)" y n] assms
  by (auto simp: cm_ok_def cm_Add_def rows_def)

lemma cm_adds:
  assumes "cm_ok c"
  shows "\<exists>c'. add_all cm_Add adds c = Some c' \<and> cm_ok c' \<and> cm_w c' = cm_w c \<and> cm_d c' = cm_d c \<and>
    cm_total c' = cm_total c + word_of_nat (stream_total adds) \<and>
    (\<forall>i j. i < unat (cm_d c) \<longrightarrow> j < unat (cm_w c) \<longrightarrow>
      counter (cm_counts c') i j = counter (cm_counts c) i j + word_of_nat (load (cm_w c) adds i j))"
  using assms
proof (induction adds arbitrary: c)
  case (Cons a adds)
  obtain y n where a: "a = (y, n)" by (cases a)
  obtain c1 where c1: "cm_Add (y, n) c = Some c1" "cm_ok c1" "cm_w c1 = cm_w c" "cm_d c1 = cm_d c" "cm_total c1 = cm_total c + n"
    "\<And>i j. i < unat (cm_d c) \<Longrightarrow> j < unat (cm_w c) \<Longrightarrow>
      counter (cm_counts c1) i j = counter (cm_counts c) i j + (if col (cm_w c) y i = j then n else 0)"
    using cm_Add_ok[OF Cons.prems, of y n] by auto
  obtain c2 where c2: "add_all cm_Add adds c1 = Some c2" "cm_ok c2" "cm_w c2 = cm_w c" "cm_d c2 = cm_d c"
    "cm_total c2 = cm_total c1 + word_of_nat (stream_total adds)"
    "\<And>i j. i < unat (cm_d c) \<Longrightarrow> j < unat (cm_w c) \<Longrightarrow>
      counter (cm_counts c2) i j = counter (cm_counts c1) i j + word_of_nat (load (cm_w c) adds i j)"
    using Cons.IH[OF c1(2)] c1(3,4) by auto
  show ?case
    using c1 c2 by (auto simp: a stream_total_def load_def)
qed (simp add: stream_total_def load_def)

lemma min_rows_value:
  assumes "w \<noteq> 0" and "\<forall>row \<in> set counts. length row = unat w" and "\<forall>i \<in> set is. i < length counts"
  shows "min_rows w item counts is m = Some (Min (insert m ((\<lambda>i. counter counts i (col w item i)) ` set is)))"
  using assms(3)
proof (induction "is" arbitrary: m)
  case (Cons i "is")
  have i: "i < length counts" "length (counts ! i) = unat w" using Cons.prems assms(2) by simp_all
  note c = column_some[OF assms(1), of item i]
  let ?v = "counter counts i (col w item i)"
  have "unat (word_of_nat (col w item i) :: u64) = col w item i"
    using c by (simp add: unat_of_nat col_def take_bit_nat_eq_self_iff)
  then have "min_rows w item counts (i # is) m = min_rows w item counts is (if ?v < m then ?v else m)"
    using i c by (simp add: nth_opt_def)
  also have "\<dots> = min_rows w item counts is (min ?v m)" by (rule arg_cong[where f = "min_rows w item counts is"]) (auto simp: min_def)
  also have "\<dots> = Some (Min (insert (min ?v m) ((\<lambda>i. counter counts i (col w item i)) ` set is)))"
    using Cons.IH[of "min ?v m"] Cons.prems by simp
  also have "Min (insert (min ?v m) ((\<lambda>i. counter counts i (col w item i)) ` set is)) =
      Min (insert m ((\<lambda>i. counter counts i (col w item i)) ` set (i # is)))"
    by (cases "is = []") (simp_all add: min.assoc min.commute min.left_commute)
  finally show ?case .
qed simp

lemma NewCountMinSketch_ok:
  assumes "NewCountMinSketch epsilon delta = Some c" and "\<lceil>exp 1 / epsilon\<rceil> < 2 ^ 64" and "\<lceil>ln (1 / delta)\<rceil> < 2 ^ 64"
  shows "cm_ok c" and "0 < unat (cm_d c)" and "cm_total c = 0"
    and "\<And>i j. i < unat (cm_d c) \<Longrightarrow> j < unat (cm_w c) \<Longrightarrow> counter (cm_counts c) i j = 0"
proof -
  have eps: "0 < epsilon" "0 < delta" "delta < 1"
    and c: "c = make_sketch (word_of_int \<lceil>exp 1 / epsilon\<rceil>) (word_of_int \<lceil>ln (1 / delta)\<rceil>)"
    using assms(1) by (auto simp: NewCountMinSketch_def split: if_splits)
  have "0 < exp 1 / epsilon" using eps by simp
  then have w: "1 \<le> \<lceil>exp 1 / epsilon\<rceil>" by (simp add: one_le_ceiling)
  have "0 < ln (1 / delta)" using eps by simp
  then have d: "1 \<le> \<lceil>ln (1 / delta)\<rceil>" by (simp only: one_le_ceiling)
  have u: "unat (word_of_int k :: u64) = nat k" if "1 \<le> k" "k < 2 ^ 64" for k
    using that by (simp add: unat_eq_nat_uint uint_word_of_int)
  have "unat (cm_w c) \<noteq> 0" using u[OF w assms(2)] w by (simp add: c make_sketch_def)
  then show "cm_ok c" by (auto simp: c make_sketch_def cm_ok_def)
  show "0 < unat (cm_d c)" using u[OF d assms(3)] d by (simp add: c make_sketch_def)
  show "cm_total c = 0" "\<And>i j. i < unat (cm_d c) \<Longrightarrow> j < unat (cm_w c) \<Longrightarrow> counter (cm_counts c) i j = 0"
    by (simp_all add: c make_sketch_def)
qed

lemma Min_mono_word: "finite A \<Longrightarrow> A \<noteq> {} \<Longrightarrow> unat (Min A) = Min (unat ` A)" for A :: "u64 set"
  by (rule mono_Min_commute) (simp_all add: mono_def word_le_nat_alt)

lemma cm_Estimate_value:
  assumes "cm_ok c"
  shows "cm_Estimate x c = Some (Min (insert (-1) ((\<lambda>i. counter (cm_counts c) i (col (cm_w c) x i)) ` {..<unat (cm_d c)})))"
  using min_rows_value[of "cm_w c" "cm_counts c" "rows (cm_d c)" x "-1"] assms
  by (simp add: cm_Estimate_def cm_ok_def rows_def atLeast0LessThan)

text \<open>The value of an estimate after a stream that does not overflow: the least load of the columns of the item.\<close>

lemma estimate_load:
  assumes ok: "cm_ok c" and d: "0 < unat (cm_d c)" and zero: "\<And>i j. i < unat (cm_d c) \<Longrightarrow> j < unat (cm_w c) \<Longrightarrow> counter (cm_counts c) i j = 0"
    and run: "add_all cm_Add adds c = Some c'" and small: "stream_total adds < 2 ^ 64"
  obtains v where "cm_Estimate x c' = Some v"
    and "unat v = Min ((\<lambda>i. load (cm_w c) adds i (col (cm_w c) x i)) ` {..<unat (cm_d c)})"
proof -
  have c': "cm_ok c'" "cm_w c' = cm_w c" "cm_d c' = cm_d c"
    and val: "\<And>i j. i < unat (cm_d c) \<Longrightarrow> j < unat (cm_w c) \<Longrightarrow> counter (cm_counts c') i j = word_of_nat (load (cm_w c) adds i j)"
    using cm_adds[OF ok, of adds] run zero by auto
  let ?A = "(\<lambda>i. counter (cm_counts c') i (col (cm_w c) x i)) ` {..<unat (cm_d c)}"
  have A: "finite ?A" "?A \<noteq> {}" using d by auto
  have "Min (insert (-1) ?A) = min (-1) (Min ?A)" using A by (rule Min_insert)
  also have "\<dots> = Min ?A" by (simp add: min_def word_le_nat_alt[symmetric] word_order.extremum_unique)
  finally have est: "cm_Estimate x c' = Some (Min ?A)" using cm_Estimate_value[OF c'(1), of x] c' by simp
  have "cm_w c \<noteq> 0" using ok by (simp add: cm_ok_def)
  then have "col (cm_w c) x i < unat (cm_w c)" for i using column_some by blast
  then have "unat ` ?A = (\<lambda>i. load (cm_w c) adds i (col (cm_w c) x i)) ` {..<unat (cm_d c)}"
    unfolding image_image using val le_less_trans[OF load_bounds(2) small]
    by (intro image_cong) (auto simp: unat_of_nat take_bit_nat_eq_self_iff)
  then show thesis using that est Min_mono_word[OF A] by simp
qed

subsection \<open>Properties\<close>



text \<open>The counters wrap around: an item added twice with a count of \<open>2 ^ 63\<close> is estimated at zero.\<close>

theorem cms_overflow_undercounts:
  "\<exists>c. add_all cm_Add [(x, 2 ^ 63), (x, 2 ^ 63)] (make_sketch 3 2) = Some c \<and> cm_Estimate x c = Some 0 \<and>
    true_count x [(x, 2 ^ 63), (x, 2 ^ 63)] = 2 ^ 64"
proof -
  have ok: "cm_ok (make_sketch 3 2)" by (auto simp: cm_ok_def make_sketch_def)
  have zero: "counter (cm_counts (make_sketch 3 2)) i j = 0" if "i < 2" "j < 3" for i j using that by (simp add: make_sketch_def)
  obtain c where c: "add_all cm_Add [(x, 2 ^ 63), (x, 2 ^ 63)] (make_sketch 3 2) = Some c" "cm_ok c" "cm_w c = 3" "cm_d c = 2"
    "\<And>i j. i < 2 \<Longrightarrow> j < 3 \<Longrightarrow> counter (cm_counts c) i j = word_of_nat (load 3 [(x, 2 ^ 63), (x, 2 ^ 63)] i j)"
    using cm_adds[OF ok, of "[(x, 2 ^ 63), (x, 2 ^ 63)]"] zero by (auto simp: make_sketch_def)
  have "col 3 x i < 3" for i using column_some[of 3 x i] by simp
  then have "counter (cm_counts c) i (col 3 x i) = 0" if "i < 2" for i
    using c(5)[OF that, of "col 3 x i"] by (simp add: load_def)
  then have "(\<lambda>i. counter (cm_counts c) i (col 3 x i)) ` {..<2} = (\<lambda>i. 0) ` {..<2 :: nat}" by (intro image_cong) simp_all
  then have "(\<lambda>i. counter (cm_counts c) i (col 3 x i)) ` {..<2 :: nat} = {0}" by (simp add: image_constant_conv lessThan_empty_iff)
  then have "cm_Estimate x c = Some 0" using cm_Estimate_value[OF c(2), of x] c(3,4) by (simp add: min_def)
  then show ?thesis using c(1) by (simp add: true_count_def)
qed

end
