(* ===== verification/HyperLogLog.thy ===== *)
theory HyperLogLog
  imports SketchSpec
begin

text \<open>
  The HyperLogLog counter (\<^verbatim>\<open>code/hyperloglog/hll.go\<close>): registers, hashing and merging on machine words, the estimate in the
  reals.  A panic is \<open>None\<close>; so is an estimate whose conversion to \<open>uint64\<close> Go leaves to the implementation (NaN or infinite).
\<close>

unbundle bit_operations_syntax

subsection \<open>The counter\<close>

record HyperLogLog =
  hll_registers :: "8 word list"
  hll_p :: "8 word"
  hll_m :: u32
  hll_alpha :: real

definition alphaFor :: "u32 \<Rightarrow> real" where
  "alphaFor m = (if m = 16 then 0.673 else if m = 32 then 0.697 else if m = 64 then 0.709
     else 0.7213 / (1 + 1.079 / real (unat m)))"

definition NewHyperLogLog :: "8 word \<Rightarrow> HyperLogLog option" where
  "NewHyperLogLog precision =
     (if precision < 4 \<or> precision > 18 then None
      else let m = push_bit (unat precision) 1 in
        Some \<lparr>hll_registers = replicate (unat m) 0, hll_p = precision, hll_m = m, hll_alpha = alphaFor m\<rparr>)"

definition mix :: "u64 \<Rightarrow> u64" where
  "mix x0 =
     (let x1 = x0 XOR drop_bit 33 x0;
          x2 = x1 * 0xff51afd7ed558ccd;
          x3 = x2 XOR drop_bit 33 x2;
          x4 = x3 * 0xc4ceb9fe1a85ec53
      in x4 XOR drop_bit 33 x4)"

text \<open>\<open>bits.LeadingZeros64\<close> of Go.\<close>

definition LeadingZeros64 :: "u64 \<Rightarrow> nat" where
  "LeadingZeros64 x = length (takeWhile (\<lambda>i. \<not> bit x i) (rev [0..<64]))"

text \<open>Register and rank of an item.\<close>

definition hll_place :: "string \<Rightarrow> 8 word \<Rightarrow> u32 \<times> 8 word" where
  "hll_place item p =
     (let x = mix (fnv_write fnv_offset (bytes_of item));
          idx = ucast (drop_bit (unat (64 - p)) x);
          rest = push_bit (unat p) x OR push_bit (unat (p - 1)) 1
      in (idx, word_of_nat (LeadingZeros64 rest) + 1))"

definition hll_Add :: "string \<Rightarrow> HyperLogLog \<Rightarrow> HyperLogLog option" where
  "hll_Add item h = (case hll_place item (hll_p h) of (idx, rank) \<Rightarrow> do {
     r \<leftarrow> nth_opt (hll_registers h) (unat idx);
     Some (if rank > r then h\<lparr>hll_registers := (hll_registers h)[unat idx := rank]\<rparr> else h) })"

definition hll_estimate :: "HyperLogLog \<Rightarrow> real" where
  "hll_estimate h = hll_alpha h * real (unat (hll_m h)) * real (unat (hll_m h)) / (\<Sum>r \<leftarrow> hll_registers h. 1 / 2 ^ unat r)"

definition hll_Count :: "HyperLogLog \<Rightarrow> int option" where
  "hll_Count h =
     (let zeros = length (filter (\<lambda>r. r = 0) (hll_registers h));
          m = real (unat (hll_m h));
          estimate = hll_estimate h
      in if estimate \<le> 2.5 * m \<and> zeros > 0 then Some \<lfloor>m * ln (m / real zeros)\<rfloor>
         else if estimate > 1 / 30 * 2 ^ 32
         then (if 1 - estimate / 2 ^ 32 \<le> 0 then None else Some \<lfloor>- (2 ^ 32) * ln (1 - estimate / 2 ^ 32)\<rfloor>)
         else Some \<lfloor>estimate\<rfloor>)"

datatype hll_error = PrecisionMismatch "8 word" "8 word"

fun merge_registers :: "(nat \<times> 8 word) list \<Rightarrow> 8 word list \<Rightarrow> 8 word list option" where
  "merge_registers [] regs = Some regs"
| "merge_registers ((i, r) # rs) regs = do {
     old \<leftarrow> nth_opt regs i;
     merge_registers rs (if r > old then regs[i := r] else regs) }"

definition hll_Merge :: "HyperLogLog \<Rightarrow> HyperLogLog \<Rightarrow> (hll_error option \<times> HyperLogLog) option" where
  "hll_Merge h other =
     (if hll_p h \<noteq> hll_p other then Some (Some (PrecisionMismatch (hll_p h) (hll_p other)), h)
      else do {
        regs \<leftarrow> merge_registers (zip [0..<length (hll_registers other)] (hll_registers other)) (hll_registers h);
        Some (None, h\<lparr>hll_registers := regs\<rparr>) })"

definition hll_SizeBytes :: "HyperLogLog \<Rightarrow> int" where
  "hll_SizeBytes h = int (length (hll_registers h))"

definition hll_StdError :: "HyperLogLog \<Rightarrow> real" where
  "hll_StdError h = 1.04 / sqrt (real (unat (hll_m h)))"

subsection \<open>Registers as a function\<close>

definition hll_view :: "HyperLogLog \<Rightarrow> nat \<Rightarrow> nat" where
  "hll_view h i = (if i < length (hll_registers h) then unat (hll_registers h ! i) else 0)"

definition hll_mark :: "HyperLogLog \<Rightarrow> string \<Rightarrow> nat \<Rightarrow> nat" where
  "hll_mark h item i = (case hll_place item (hll_p h) of (idx, rank) \<Rightarrow> if i = unat idx then unat rank else 0)"

definition hll_ok :: "HyperLogLog \<Rightarrow> bool" where
  "hll_ok h \<longleftrightarrow> 4 \<le> unat (hll_p h) \<and> unat (hll_p h) \<le> 18 \<and> length (hll_registers h) = 2 ^ unat (hll_p h) \<and>
     hll_m h = push_bit (unat (hll_p h)) 1 \<and> hll_alpha h = alphaFor (hll_m h)"

lemma leading_zeros_le:
  assumes "bit x j" and "j < 64"
  shows "LeadingZeros64 x \<le> 63 - j"
proof -
  have "rev [0..<64] = rev [Suc j..<64] @ j # rev [0..<j]"
    by (simp only: upt_split_at[OF assms(2)] rev_append rev.simps append_assoc append.simps)
  then have "takeWhile (\<lambda>i. \<not> bit x i) (rev [0..<64]) = takeWhile (\<lambda>i. \<not> bit x i) (rev [Suc j..<64])"
    using assms(1) by (auto simp: takeWhile_append intro!: takeWhile_eq_all_conv[THEN iffD2, symmetric])
  then have "LeadingZeros64 x \<le> length (rev [Suc j..<64])"
    unfolding LeadingZeros64_def by (metis length_takeWhile_le)
  then show ?thesis by simp
qed

lemma hll_place_range:
  assumes "4 \<le> unat p" and "unat p \<le> 18"
  shows "unat (fst (hll_place item p)) < 2 ^ unat p" and "1 \<le> unat (snd (hll_place item p))"
    and "unat (snd (hll_place item p)) \<le> 65 - unat p"
proof -
  define x where "x = mix (fnv_write fnv_offset (bytes_of item))"
  define n where "n = unat p"
  have n: "4 \<le> n" "n \<le> 18" using assms by (simp_all add: n_def)
  have "p \<le> 64" using n by (simp add: word_le_nat_alt n_def)
  then have p64: "unat (64 - p) = 64 - n" by (simp add: unat_sub n_def)
  have "1 \<le> p" using n by (simp add: word_le_nat_alt n_def)
  then have p1: "unat (p - 1) = n - 1" by (simp add: unat_sub n_def)
  let ?rest = "push_bit n x OR push_bit (n - 1) 1"
  have place: "hll_place item p = (ucast (drop_bit (64 - n) x), word_of_nat (LeadingZeros64 ?rest) + 1)"
    by (simp add: hll_place_def x_def[symmetric] p64 p1 n_def[symmetric] Let_def)
  have "unat (drop_bit (64 - n) x) < 2 ^ n"
  proof -
    have "unat x < 2 ^ 64" using unsigned_less[where 'a = nat, of x] by simp
    also have "(2 :: nat) ^ 64 = 2 ^ n * 2 ^ (64 - n)" using n by (simp add: power_add[symmetric])
    finally have "unat x div 2 ^ (64 - n) < 2 ^ n" by (rule less_mult_imp_div_less)
    moreover have "take_bit 64 (unat x) = unat x" using unsigned_less[where 'a = nat, of x] by (simp add: take_bit_nat_eq_self_iff)
    ultimately show ?thesis unfolding unsigned_drop_bit_eq by (simp add: drop_bit_eq_div)
  qed
  moreover have "(2 :: nat) ^ n \<le> 2 ^ 18" using n by (intro power_increasing) simp_all
  ultimately have "unat (ucast (drop_bit (64 - n) x) :: u32) = unat (drop_bit (64 - n) x)"
    by (simp add: unsigned_ucast_eq take_bit_nat_eq_self_iff)
  then show "unat (fst (hll_place item p)) < 2 ^ unat p"
    using \<open>unat (drop_bit (64 - n) x) < 2 ^ n\<close> by (simp add: place n_def)
  have "n - Suc 0 < 64" using n by linarith
  then have "bit ?rest (n - 1)" using n by (simp add: bit_or_iff bit_push_bit_iff del: push_bit_of_1)
  then have "LeadingZeros64 ?rest \<le> 63 - (n - 1)" using n by (intro leading_zeros_le) simp_all
  then have lz: "LeadingZeros64 ?rest \<le> 64 - n" using n by simp
  have "unat (word_of_nat (LeadingZeros64 ?rest) + 1 :: 8 word) = Suc (LeadingZeros64 ?rest)"
    using lz n by (simp add: unat_word_ariths unat_of_nat)
  then show "1 \<le> unat (snd (hll_place item p))" "unat (snd (hll_place item p)) \<le> 65 - unat p"
    using lz n by (simp_all add: place n_def)
qed

interpretation hll: set_sketch hll_Add hll_ok hll_view hll_mark
proof
  fix s :: HyperLogLog and x :: string
  assume ok: "hll_ok s"
  obtain idx rank where place: "hll_place x (hll_p s) = (idx, rank)" by fastforce
  have idx: "unat idx < length (hll_registers s)"
    using hll_place_range(1)[of "hll_p s" x] ok place by (simp add: hll_ok_def)
  let ?s = "if rank > hll_registers s ! unat idx then s\<lparr>hll_registers := (hll_registers s)[unat idx := rank]\<rparr> else s"
  have "hll_Add x s = Some ?s" using idx by (simp add: hll_Add_def place nth_opt_def)
  moreover have "hll_ok ?s" using ok by (simp add: hll_ok_def)
  moreover have "hll_view ?s = sup (hll_view s) (hll_mark s x)"
    using idx by (auto simp: fun_eq_iff hll_view_def hll_mark_def place sup_nat_def word_less_nat_alt nth_list_update)
  moreover have "hll_mark ?s = hll_mark s" by (simp add: fun_eq_iff hll_mark_def)
  ultimately show "\<exists>s'. hll_Add x s = Some s' \<and> hll_ok s' \<and> hll_view s' = sup (hll_view s) (hll_mark s x) \<and> hll_mark s' = hll_mark s"
    by blast
qed

subsection \<open>Merging\<close>

lemma hll_eqI:
  assumes "hll_ok a" and "hll_ok b" and "hll_p a = hll_p b" and "hll_view a = hll_view b"
  shows "a = b"
proof -
  have "hll_registers a = hll_registers b"
  proof (rule nth_equalityI)
    show len: "length (hll_registers a) = length (hll_registers b)" using assms(1-3) by (simp add: hll_ok_def)
    fix i assume "i < length (hll_registers a)"
    then show "hll_registers a ! i = hll_registers b ! i"
      using fun_cong[OF assms(4), of i] len by (simp add: hll_view_def word_unat_eq_iff)
  qed
  then show ?thesis using assms(1-3) by (simp add: hll_ok_def)
qed

lemma hll_Add_p: "hll_Add x h = Some h' \<Longrightarrow> hll_p h' = hll_p h"
  by (auto simp: hll_Add_def split: prod.splits bind_splits if_splits)

lemma hll_adds_p: "add_all hll_Add xs h = Some h' \<Longrightarrow> hll_p h' = hll_p h"
  by (induction xs arbitrary: h) (auto split: bind_splits dest: hll_Add_p)

lemma merge_registers_sup:
  assumes "distinct (map fst rs)" and "\<forall>i \<in> fst ` set rs. i < length regs"
  shows "\<exists>regs'. merge_registers rs regs = Some regs' \<and> length regs' = length regs \<and>
    (\<forall>i < length regs. regs' ! i = (case map_of rs i of None \<Rightarrow> regs ! i | Some r \<Rightarrow> max (regs ! i) r))"
  using assms
proof (induction rs regs rule: merge_registers.induct)
  case (2 i r rs regs)
  let ?regs = "if r > regs ! i then regs[i := r] else regs"
  have i: "i < length regs" using "2.prems"(2) by simp
  have len: "length ?regs = length regs" by simp
  have "\<exists>regs'. merge_registers rs ?regs = Some regs' \<and> length regs' = length ?regs \<and>
      (\<forall>j < length ?regs. regs' ! j = (case map_of rs j of None \<Rightarrow> ?regs ! j | Some r \<Rightarrow> max (?regs ! j) r))"
    by (rule "2.IH") (use "2.prems" i len in \<open>auto simp: nth_opt_def\<close>)
  then obtain regs' where regs': "merge_registers rs ?regs = Some regs'" "length regs' = length regs"
    "\<And>j. j < length regs \<Longrightarrow> regs' ! j = (case map_of rs j of None \<Rightarrow> ?regs ! j | Some r \<Rightarrow> max (?regs ! j) r)"
    unfolding len by blast
  have none: "map_of rs i = None" using "2.prems"(1) by (simp add: map_of_eq_None_iff)
  have "regs' ! j = (case map_of ((i, r) # rs) j of None \<Rightarrow> regs ! j | Some r \<Rightarrow> max (regs ! j) r)" if "j < length regs" for j
    using regs'(3)[OF that] none that by (cases "j = i") (auto simp: max_def nth_list_update split: option.splits)
  then show ?case using regs'(1,2) i by (simp add: nth_opt_def)
qed simp

lemma map_of_zip_upt: "i < length xs \<Longrightarrow> map_of (zip [0..<length xs] xs) i = Some (xs ! i)"
  using map_of_zip_nth[of "[0..<length xs]" xs i] by simp

lemma hll_Merge_sup:
  assumes "hll_ok h" and "hll_ok other" and "hll_p h = hll_p other"
  obtains h' where "hll_Merge h other = Some (None, h')" and "hll_ok h'" and "hll_p h' = hll_p h" and "hll_view h' = sup (hll_view h) (hll_view other)"
proof -
  let ?n = "length (hll_registers other)"
  have len: "length (hll_registers h) = ?n" using assms by (simp add: hll_ok_def)
  have "\<forall>i \<in> fst ` set (zip [0..<?n] (hll_registers other)). i < length (hll_registers h)"
    unfolding len by (auto dest: set_zip_leftD)
  moreover have "distinct (map fst (zip [0..<?n] (hll_registers other)))" by simp
  ultimately obtain regs where regs: "merge_registers (zip [0..<?n] (hll_registers other)) (hll_registers h) = Some regs" "length regs = ?n"
    "\<And>i. i < ?n \<Longrightarrow> regs ! i = (case map_of (zip [0..<?n] (hll_registers other)) i of None \<Rightarrow> hll_registers h ! i | Some r \<Rightarrow> max (hll_registers h ! i) r)"
    using merge_registers_sup[of "zip [0..<?n] (hll_registers other)" "hll_registers h"] unfolding len by blast
  have "regs ! i = max (hll_registers h ! i) (hll_registers other ! i)" if "i < ?n" for i
    using regs(3)[OF that] map_of_zip_upt[OF that] by simp
  moreover have "unat (max a b) = max (unat a) (unat b)" for a b :: "8 word" by (simp add: max_def word_le_nat_alt)
  ultimately have "hll_view (h\<lparr>hll_registers := regs\<rparr>) = sup (hll_view h) (hll_view other)"
    using regs(2) len by (auto simp: fun_eq_iff hll_view_def sup_nat_def)
  moreover have "hll_ok (h\<lparr>hll_registers := regs\<rparr>)" using assms(1) regs(2) len by (simp add: hll_ok_def)
  ultimately show thesis using that regs(1) assms(3) by (simp add: hll_Merge_def)
qed

lemma NewHyperLogLog_ok:
  assumes "NewHyperLogLog p = Some h"
  shows "hll_ok h" and "hll_p h = p" and "hll_view h = bot"
proof -
  have range: "4 \<le> unat p" "unat p \<le> 18" using assms by (auto simp: NewHyperLogLog_def Let_def word_less_nat_alt not_less split: if_splits)
  have h: "h = \<lparr>hll_registers = replicate (unat (push_bit (unat p) 1 :: u32)) 0, hll_p = p, hll_m = push_bit (unat p) 1,
      hll_alpha = alphaFor (push_bit (unat p) 1)\<rparr>"
    using assms by (simp add: NewHyperLogLog_def Let_def split: if_splits)
  have "(2 :: nat) ^ unat p \<le> 2 ^ 18" using range by (intro power_increasing) simp_all
  then have "unat (push_bit (unat p) 1 :: u32) = 2 ^ unat p"
    using range unfolding unsigned_push_bit_eq by (simp add: take_bit_nat_eq_self_iff)
  then show "hll_ok h" "hll_p h = p" "hll_view h = bot" using range by (auto simp: h hll_ok_def hll_view_def bot_fun_def bot_nat_def)
qed

text \<open>C26: Counters merge without loss: merging the counters of two streams gives the very counter that has seen both, with no panic; neither the order nor
  repetitions of items matter, so shards may overlap; counters of different precision are refused and left as they are.\<close>

theorem hll_merge_lossless:
  assumes "NewHyperLogLog p = Some h0"
  shows "\<exists>a b c. add_all hll_Add xs h0 = Some a \<and> add_all hll_Add ys h0 = Some b \<and>
    hll_Merge a b = Some (None, c) \<and> add_all hll_Add (xs @ ys) h0 = Some c \<and>
    (\<forall>zs. set zs = set (xs @ ys) \<longrightarrow> add_all hll_Add zs h0 = Some c) \<and>
    (\<forall>q g0 g. q \<noteq> p \<longrightarrow> NewHyperLogLog q = Some g0 \<longrightarrow> add_all hll_Add ys g0 = Some g \<longrightarrow>
      hll_Merge a g = Some (Some (PrecisionMismatch p q), a))"
proof -
  note ok = NewHyperLogLog_ok[OF assms]
  let ?f = "\<lambda>xs. foldr (\<lambda>x v. sup (hll_mark h0 x) v) xs bot"
  have run: "\<exists>h. add_all hll_Add xs h0 = Some h \<and> hll_ok h \<and> hll_p h = p \<and> hll_view h = ?f xs" for xs
    using hll.add_all_ok[OF ok(1), of xs] ok(2,3) hll_adds_p by (auto simp: sup.absorb2)
  obtain a where a: "add_all hll_Add xs h0 = Some a" "hll_ok a" "hll_p a = p" "hll_view a = ?f xs" using run by blast
  obtain b where b: "add_all hll_Add ys h0 = Some b" "hll_ok b" "hll_p b = p" "hll_view b = ?f ys" using run by blast
  obtain d where d: "add_all hll_Add (xs @ ys) h0 = Some d" "hll_ok d" "hll_p d = p" "hll_view d = ?f (xs @ ys)" using run by blast
  have same_p: "hll_p a = hll_p b" using a(3) b(3) by simp
  obtain c where c: "hll_Merge a b = Some (None, c)" "hll_ok c" "hll_p c = hll_p a" "hll_view c = sup (hll_view a) (hll_view b)"
    by (rule hll_Merge_sup[OF a(2) b(2) same_p])
  have "?f (xs @ ys) = sup (?f xs) (?f ys)" by (induction xs) (simp_all only: append.simps foldr.simps comp_def id_apply sup_assoc sup.absorb2[OF bot_least])
  then have cd: "c = d" using c d a b by (intro hll_eqI) simp_all
  have "add_all hll_Add zs h0 = Some c" if "set zs = set (xs @ ys)" for zs
  proof -
    obtain e where e: "add_all hll_Add zs h0 = Some e" "hll_ok e" "hll_p e = p" using run by blast
    have "hll_view e = hll_view d" by (rule hll.same_items[OF ok(1) that e(1) d(1)])
    then have "e = d" using e d by (intro hll_eqI) simp_all
    then show ?thesis using e(1) cd by simp
  qed
  moreover have "hll_Merge a g = Some (Some (PrecisionMismatch p q), a)"
    if "q \<noteq> p" "NewHyperLogLog q = Some g0" "add_all hll_Add ys g0 = Some g" for q g0 g
    using that NewHyperLogLog_ok(2)[OF that(2)] hll_adds_p[OF that(3)] a(3) by (auto simp: hll_Merge_def)
  ultimately show ?thesis using a(1) b(1) c(1) d(1) cd by blast
qed

theorem hll_merge_lossless_witness:
  "\<exists>h0 a b c. NewHyperLogLog 4 = Some h0 \<and> add_all hll_Add [''u:1'', ''u:2''] h0 = Some a \<and> add_all hll_Add [''u:2'', ''u:3''] h0 = Some b \<and>
    hll_Merge a b = Some (None, c) \<and> add_all hll_Add [''u:3'', ''u:2'', ''u:1''] h0 = Some c"
proof -
  obtain h0 where h0: "NewHyperLogLog 4 = Some h0" by (simp add: NewHyperLogLog_def Let_def)
  obtain a b c where "add_all hll_Add [''u:1'', ''u:2''] h0 = Some a" "add_all hll_Add [''u:2'', ''u:3''] h0 = Some b"
    "hll_Merge a b = Some (None, c)" and all: "\<forall>zs. set zs = set ([''u:1'', ''u:2''] @ [''u:2'', ''u:3'']) \<longrightarrow> add_all hll_Add zs h0 = Some c"
    using hll_merge_lossless[OF h0, of "[''u:1'', ''u:2'']" "[''u:2'', ''u:3'']"] by blast
  moreover have "set [''u:3'', ''u:2'', ''u:1''] = set ([''u:1'', ''u:2''] @ [''u:2'', ''u:3''])" by auto
  then have "add_all hll_Add [''u:3'', ''u:2'', ''u:1''] h0 = Some c" using all by blast
  ultimately show ?thesis using h0 by blast
qed

lemma sup_marks:
  fixes f :: "'a \<Rightarrow> nat \<Rightarrow> nat"
  shows "(\<forall>x \<in> set xs. f x i \<le> foldr (\<lambda>x v. sup (f x) v) xs bot i) \<and>
    (foldr (\<lambda>x v. sup (f x) v) xs bot i = 0 \<or> (\<exists>x \<in> set xs. f x i = foldr (\<lambda>x v. sup (f x) v) xs bot i))"
  by (induction xs) (auto simp: sup_nat_def max_def bot_nat_def)

text \<open>Whatever items are added to a new counter, no addition panics, the counter keeps its precision \<open>p\<close> and its \<open>2 ^ p\<close> registers, no register is above
  \<open>65 - p\<close>, and each register is the greatest rank of the items it is selected for, zero if there is none.\<close>

theorem hll_registers_bounded:
  assumes "NewHyperLogLog p = Some h0"
  shows "\<exists>h. add_all hll_Add xs h0 = Some h \<and> hll_p h = p \<and> length (hll_registers h) = 2 ^ unat p \<and>
    (\<forall>r \<in> set (hll_registers h). unat r \<le> 65 - unat p) \<and>
    (\<forall>x \<in> set xs. snd (hll_place x p) \<le> hll_registers h ! unat (fst (hll_place x p))) \<and>
    (\<forall>i < 2 ^ unat p. hll_registers h ! i = 0 \<or> (\<exists>x \<in> set xs. unat (fst (hll_place x p)) = i \<and> snd (hll_place x p) = hll_registers h ! i))"
proof -
  note ok = NewHyperLogLog_ok[OF assms]
  let ?f = "foldr (\<lambda>x v. sup (hll_mark h0 x) v) xs bot"
  obtain h where h: "add_all hll_Add xs h0 = Some h" "hll_ok h" "hll_p h = p" "hll_view h = ?f"
    using hll.add_all_ok[OF ok(1), of xs] ok(2,3) hll_adds_p by (auto simp: sup.absorb2)
  have p: "4 \<le> unat p" "unat p \<le> 18" and len: "length (hll_registers h) = 2 ^ unat p" using h(2,3) by (auto simp: hll_ok_def)
  have mark: "hll_mark h0 x i = (if i = unat (fst (hll_place x p)) then unat (snd (hll_place x p)) else 0)" for x i
    using ok(2) by (simp add: hll_mark_def case_prod_unfold)
  have view: "unat (hll_registers h ! i) = ?f i" if "i < 2 ^ unat p" for i
    using fun_cong[OF h(4), of i] that len by (simp add: hll_view_def)
  have range: "unat (fst (hll_place x p)) < 2 ^ unat p" "unat (snd (hll_place x p)) \<le> 65 - unat p" for x
    using hll_place_range(1,3)[OF p] by blast+
  have origin: "hll_registers h ! i = 0 \<or> (\<exists>x \<in> set xs. unat (fst (hll_place x p)) = i \<and> snd (hll_place x p) = hll_registers h ! i)"
    if i: "i < 2 ^ unat p" for i
  proof (cases "?f i = 0")
    case True
    then show ?thesis using view[OF i] by (simp add: unat_eq_zero)
  next
    case False
    then have "\<exists>x \<in> set xs. hll_mark h0 x i = ?f i"
      using sup_marks[where f = "hll_mark h0" and xs = xs and i = i, THEN conjunct2] by (simp only: simp_thms)
    then obtain x where x: "x \<in> set xs" "hll_mark h0 x i = ?f i" ..
    have at: "unat (fst (hll_place x p)) = i" using False x(2) mark[of x i] by metis
    then have "unat (snd (hll_place x p)) = hll_mark h0 x i" using mark[of x i] by simp
    then have "unat (snd (hll_place x p)) = unat (hll_registers h ! i)" unfolding x(2) view[OF i] .
    then have "snd (hll_place x p) = hll_registers h ! i" by (rule word_unat_eq_iff[THEN iffD2])
    then show ?thesis using x(1) at by blast
  qed
  have "unat r \<le> 65 - unat p" if r: "r \<in> set (hll_registers h)" for r
  proof -
    obtain i where i: "i < length (hll_registers h)" "hll_registers h ! i = r" using r unfolding in_set_conv_nth by blast
    show ?thesis using origin[OF i(1)[unfolded len]] range(2) unfolding i(2) by (elim disjE bexE) (simp, metis)
  qed
  moreover have "snd (hll_place x p) \<le> hll_registers h ! unat (fst (hll_place x p))" if "x \<in> set xs" for x
  proof -
    have "hll_mark h0 x (unat (fst (hll_place x p))) \<le> ?f (unat (fst (hll_place x p)))"
      using sup_marks[where f = "hll_mark h0" and xs = xs and i = "unat (fst (hll_place x p))", THEN conjunct1] that by blast
    then show ?thesis unfolding word_le_nat_alt view[OF range(1)] by (simp only: mark[of x "unat (fst (hll_place x p))"] if_True refl)
  qed
  ultimately show ?thesis using h(1,3) len origin by blast
qed

theorem hll_registers_bounded_witness:
  "\<exists>h0 h. NewHyperLogLog 4 = Some h0 \<and> add_all hll_Add [''u:1'', ''u:2''] h0 = Some h \<and> length (hll_registers h) = 16 \<and>
    (\<forall>r \<in> set (hll_registers h). unat r \<le> 61)"
proof -
  obtain h0 where h0: "NewHyperLogLog 4 = Some h0" by (simp add: NewHyperLogLog_def Let_def)
  have four: "unat (4 :: 8 word) = 4" by simp
  obtain h where "add_all hll_Add [''u:1'', ''u:2''] h0 = Some h" "length (hll_registers h) = 2 ^ unat (4 :: 8 word)"
    "\<forall>r \<in> set (hll_registers h). unat r \<le> 65 - unat (4 :: 8 word)"
    using hll_registers_bounded[OF h0, of "[''u:1'', ''u:2'']"] by (elim exE conjE) blast
  then show ?thesis using h0 by auto
qed

subsection \<open>The estimate\<close>

lemma alphaFor_le: "0 < unat m \<Longrightarrow> alphaFor m \<le> 0.7213"
proof -
  assume "0 < unat m"
  then have "0 < real (unat m)" by (rule of_nat_0_less_iff[THEN iffD2])
  then have "0 \<le> 1.079 / real (unat m)" by (intro divide_nonneg_pos) simp_all
  then have "1 \<le> 1 + 1.079 / real (unat m)" by linarith
  moreover have "0.7213 / a \<le> 0.7213" if "1 \<le> a" for a :: real using that by (simp add: divide_le_eq)
  ultimately have "0.7213 / (1 + 1.079 / real (unat m)) \<le> 0.7213" by blast
  then show ?thesis unfolding alphaFor_def by (simp only: split: if_splits) simp
qed

theorem hll_Count_new:
  assumes "NewHyperLogLog p = Some h"
  shows "hll_Count h = Some 0"
proof -
  note ok = NewHyperLogLog_ok[OF assms]
  have regs: "hll_registers h = replicate (unat (hll_m h)) 0" and m: "0 < unat (hll_m h)"
  proof -
    show "hll_registers h = replicate (unat (hll_m h)) 0" using assms by (auto simp: NewHyperLogLog_def Let_def split: if_splits)
    then have "unat (hll_m h) = length (hll_registers h)" by simp
    also have "\<dots> = 2 ^ unat (hll_p h)" using ok(1) by (simp add: hll_ok_def)
    finally show "0 < unat (hll_m h)" by simp
  qed
  have "hll_alpha h \<le> 0.7213" using alphaFor_le[OF m] ok(1) by (simp add: hll_ok_def)
  then have est: "hll_estimate h \<le> 2.5 * real (unat (hll_m h))"
  proof -
    define x where "x = real (unat (hll_m h))"
    have "0 < x" using m unfolding x_def by (rule of_nat_0_less_iff[THEN iffD2])
    moreover have "hll_estimate h = hll_alpha h * x * x / x"
      unfolding hll_estimate_def regs x_def[symmetric] by (simp add: sum_list_replicate x_def)
    moreover have "hll_alpha h * x \<le> 0.7213 * x" using \<open>hll_alpha h \<le> 0.7213\<close> \<open>0 < x\<close> by (intro mult_right_mono) simp_all
    ultimately show ?thesis unfolding x_def[symmetric] by simp
  qed
  then show ?thesis using m by (simp add: hll_Count_def regs Let_def)
qed

text \<open>The correction for 32-bit hashes is applied to a 64-bit hash: with sixteen registers that have all seen a rank of thirty, the estimate is beyond
  \<open>2 ^ 32\<close>, the code takes the logarithm of a negative number, and the count is not defined.\<close>

theorem hll_count_undefined:
  assumes "hll_ok h" and "hll_p h = 4" and "\<forall>r \<in> set (hll_registers h). 30 \<le> unat r"
  shows "hll_Count h = None"
proof -
  have m: "hll_m h = 16" and len: "length (hll_registers h) = 16" and alpha: "hll_alpha h = 0.673"
    using assms(1,2) by (simp_all add: hll_ok_def alphaFor_def)
  let ?s = "\<Sum>r \<leftarrow> hll_registers h. 1 / 2 ^ unat r :: real"
  have "1 / 2 ^ unat r \<le> (1 / 2 ^ 30 :: real)" if "r \<in> set (hll_registers h)" for r
    using assms(3) that by (intro divide_left_mono power_increasing) simp_all
  then have "?s \<le> (\<Sum>r \<leftarrow> hll_registers h. 1 / 2 ^ 30)" by (rule sum_list_mono)
  then have s: "?s \<le> 16 / 2 ^ 30" by (simp add: sum_list_triv len)
  have "0 < ?s"
  proof -
    obtain r rs where rs: "hll_registers h = r # rs" using len by (cases "hll_registers h") auto
    have "0 \<le> (\<Sum>r \<leftarrow> rs. 1 / 2 ^ unat r :: real)" by (intro sum_list_nonneg) auto
    then show ?thesis by (simp add: rs add_pos_nonneg)
  qed
  then have "0.673 * 16 * 16 / (16 / 2 ^ 30) \<le> hll_estimate h"
    using s unfolding hll_estimate_def m alpha by (intro frac_le) simp_all
  then have "2 ^ 32 < hll_estimate h" by simp
  then show ?thesis by (simp add: hll_Count_def m Let_def)
qed

theorem hll_count_undefined_witness:
  "hll_Count \<lparr>hll_registers = replicate 16 30, hll_p = 4, hll_m = 16, hll_alpha = 0.673\<rparr> = None"
  by (rule hll_count_undefined) (simp_all add: hll_ok_def alphaFor_def)

end
