(* ===== verification/Spec2Isabelle.thy ===== *)
theory Spec2Isabelle
  imports CircuitBreaker RaftElection LRU BPlusTree BPlusTreePrint WireDescribe Rpc RpcServer WAL LSM SstRead ExtSort Outbox Idempotency VectorClock Merkle Ring LFU Snowflake Bulkhead Pipeline RateLimiter Retry Geohash Haversine Bloom CountMin HyperLogLog
begin

text \<open>
  A model of the Go programs of the System Design Handbook (the directories of \<^verbatim>\<open>code/\<close>) and the
  theorems that make them correct.  Each directory is an independent program, so the development has a theory per program and
  shared theories for what several of them use.

  \<^bold>\<open>Shared theories.\<close>
  \<^item> \<open>Prelude\<close>: the Go types, step systems with their invariant rule (the locale \<open>step_system\<close>), lists indexed with a bounds
    check, sorted association lists, \<open>sort.Search\<close>.
  \<^item> \<open>Codec\<close>: strings as bytes, fixed-width and decimal integers, the locale \<open>prefix_codec\<close> of self-delimiting decoders.
  \<^item> \<open>KvMap\<close>: the contracts \<open>kv_store\<close> and \<open>kv_delete_store\<close> of the key-value stores; the B+tree and the LSM tree provide them.
  \<^item> \<open>CacheSpec\<close>, \<open>DLink\<close>: the contracts \<open>bounded_cache\<close> and \<open>cache_refinement\<close> of the caches, and doubly linked lists in a heap.
  \<^item> \<open>SketchSpec\<close>: the FNV-1a hashes and the contract \<open>set_sketch\<close> of the sketches, whose state is a function of the set of items added.
  \<^item> \<open>GoHeap\<close>, \<open>Sha256\<close>, \<open>Sha1\<close>: what the programs use of Go's \<^verbatim>\<open>container/heap\<close>, \<^verbatim>\<open>crypto/sha256\<close> and
    \<^verbatim>\<open>crypto/sha1\<close>, as concrete definitions.

  \<^bold>\<open>Programs.\<close>
  \<^item> \<open>CircuitBreaker\<close> (\<^verbatim>\<open>code/circuit_breaker/breaker.go\<close>): the three-state breaker, its calls one after the other and interleaved; it opens at the threshold, sheds, probes a bounded number of calls and recovers.
  \<^item> \<open>RaftElection\<close> (\<^verbatim>\<open>code/raft_election_sim/raft.go\<close>): leader election on a simulated cluster with partitions; election safety, stability of a leader, monotone terms, no leader in a minority.
  \<^item> \<open>LRU\<close> (\<^verbatim>\<open>code/lru_cache/lru.go\<close>): the cache as pointers; it refines a list of pairs in the order of use (\<open>bounded_cache\<close>, \<open>cache_refinement\<close>).
  \<^item> \<open>BPlusTree, BPlusTreePrint\<close> (\<^verbatim>\<open>code/b_tree/btree.go\<close>): insertion with splits, lookups and range scans along the leaf chain; contents, order, balance (\<open>kv_store\<close>).
  \<^item> \<open>Wire, WireDescribe, Rpc\<close> (\<^verbatim>\<open>code/grpc_example/wire.go\<close> and \<^verbatim>\<open>code/grpc_example/rpc.go\<close>): the protobuf encoding and the framed calls over it; round trips (\<open>prefix_codec\<close>), a printer that fails exactly where the decoder does, and client calls that amount to calls of the store.
  \<^item> \<open>RpcServer\<close> (\<^verbatim>\<open>code/grpc_example/rpc.go\<close>): the server's accept loop, connection tracking, handlers and Close as interleaved steps; Close leaves nothing behind, ends, and is blocked by a second Listen.
  \<^item> \<open>WAL\<close> (\<^verbatim>\<open>code/wal/wal.go\<close>): the write-ahead log with its buffer, the file and what is durable; crash safety and the torn tail.
  \<^item> \<open>SkipList, LSM, SstRead\<close> (\<^verbatim>\<open>code/lsm_memtable/lsm.go\<close>): the skip-list memtable in a heap and, on top, the sorted string tables and the tree; the last write is read (\<open>kv_delete_store\<close>).
  \<^item> \<open>ExtSort\<close> (\<^verbatim>\<open>code/external_merge_sort/sort.go\<close>): sorted runs, merge passes with a heap, clean-up; the output is the sorted input.
  \<^item> \<open>Outbox\<close> (\<^verbatim>\<open>code/outbox_pattern/outbox.go\<close>): the database with its outbox, transactions, the relay and a broker (the locale \<open>broker\<close>); no dual write, order of first deliveries, draining.
  \<^item> \<open>Idempotency\<close> (\<^verbatim>\<open>code/idempotency_keys/idempotency.go\<close>): claim, run, record; at most one completed run of a handler per key while nothing expires.
  \<^item> \<open>VectorClock\<close> (\<^verbatim>\<open>code/vector_clock/clock.go\<close>): clocks and replicas over a lossy network; the clocks give exactly the causal order, the replicas converge.
  \<^item> \<open>Merkle\<close> (\<^verbatim>\<open>code/merkle_tree/merkle.go\<close>): the tree, the comparison of two trees and its cost.
  \<^item> \<open>Ring\<close> (\<^verbatim>\<open>code/consistent_hashing/ring.go\<close>): the ring with virtual nodes; minimal movement, distinct replicas, colliding positions.
  \<^item> \<open>LFU\<close> (\<^verbatim>\<open>code/lfu_cache/lfu.go\<close>): two levels of linked lists; it refines a list of entries in the order of eviction (\<open>bounded_cache\<close>, \<open>cache_refinement\<close>).
  \<^item> \<open>Snowflake\<close> (\<^verbatim>\<open>code/snowflake_id/snowflake.go\<close>): the ID generator with its clock readings; unique, increasing IDs, return and refusal.
  \<^item> \<open>Bulkhead\<close> (\<^verbatim>\<open>code/bulkhead_semaphore/bulkhead.go\<close>): the counting semaphore with concurrent callers; the bound and the counters.
  \<^item> \<open>Pipeline\<close> (\<^verbatim>\<open>code/worker_pool_pipeline/pipeline.go\<close>): stages of workers over bounded channels; no job lost or made up, bounded memory, the deadlock of undrained errors.
  \<^item> \<open>RateLimiter\<close> (\<^verbatim>\<open>code/rate_limiter/limiter.go\<close>): the rate limiters; the admitted calls of every window.
  \<^item> \<open>Retry\<close> (\<^verbatim>\<open>code/retry_backoff_jitter/retry.go\<close>): retries with backoff, jitter and a budget.
  \<^item> \<open>Geohash, Haversine\<close> (\<^verbatim>\<open>code/geohash/geohash.go\<close>): encoding, decoding, neighbours of cells; the great-circle distance over the reals.
  \<^item> \<open>Bloom\<close> (\<^verbatim>\<open>code/bloom_filter/bloom.go\<close>): the Bloom filter over FNV hashes; no false negatives, unions (\<open>set_sketch\<close>).
  \<^item> \<open>CountMin\<close> (\<^verbatim>\<open>code/count_min_sketch/cms.go\<close>): the count-min sketch, with the conservative update, and the heavy hitters; no underestimate until a counter wraps (\<open>set_sketch\<close>).
  \<^item> \<open>HyperLogLog\<close> (\<^verbatim>\<open>code/hyperloglog/hll.go\<close>): the registers, merging and the estimate over an argument for the float formulas; merging loses nothing (\<open>set_sketch\<close>).

  \<^bold>\<open>How the code is modelled.\<close>  A struct is a record with the fields of the source, an operation a function from the state to
  the result and the new state.  A nil dereference, an index out of range or an explicit \<open>panic\<close> is the value \<open>None\<close>; a
  returned error is a value of a sum or option type.  A Go map is a map or an association list; where its iteration order
  could matter the theorem holds for every order or the code sorts.  Clocks, random numbers and callbacks are arguments.  A
  program whose operations are called by several goroutines is an inductive step relation whose steps are the critical
  sections or channel operations of the source; its theorems hold in every reachable state.

  \<^bold>\<open>Bounds and fuel.\<close>  Loops are structural recursions or functions with a termination proof.  Loops that may run for
  ever are \<open>partial_function (option)\<close>, with \<open>None\<close> for not returning, and their return is proved where it is
  claimed.  \<open>RunUntilLeader\<close> and \<open>RunUntilDrained\<close> have the bound on their rounds in the source; the theorems say how many
  rounds are enough.  Where 64-bit counters could wrap, the word is kept and the theorem says how many events are allowed.

  \<^bold>\<open>Not modelled.\<close>
  The \<open>main\<close> functions, which print demonstrations, and the tests.  Float arithmetic that only sizes a structure or reports a ratio
  is left out or done in the rationals, and the great-circle distance in the reals, as the theories say.  \<open>Client.Close\<close>,
  which only closes the socket, is left out.  Goroutine scheduling, sockets, files and \<open>fsync\<close> appear only as the
  steps and states the programs rely on; a mutex appears as the atomicity of its critical section.  Chapters, diagrams and
  configuration have no operations.
\<close>

end
